(* ===== verification/Prelude.thy ===== *)
theory Prelude
  imports Main "HOL-Library.Word" "HOL-Library.List_Lexorder"
    "HOL-Library.Product_Lexorder"
begin

text \<open>
  Shared vocabulary of the development: Rust's machine integers as words, results as sums,
  the error type of \<^verbatim>\<open>flowsketch-core/src/error.rs\<close>, and the generic lemmas on
  words, lists and association lists that the component theories use.

  Conventions.  \<open>u64\<close>, \<open>u32\<close>, \<open>u16\<close> and \<open>u8\<close> are words, so \<open>+\<close> and \<open>*\<close> wrap as they
  do in the release profile (\<^verbatim>\<open>Cargo.toml\<close> does not switch overflow checks on).  A
  \<open>usize\<close> that is a length, an index or a capacity is a \<open>nat\<close>; casts to a narrower integer
  (\<^verbatim>\<open>as u32\<close>) are written out.  Bytes compare as unsigned words and byte strings
  lexicographically, as \<^verbatim>\<open>Vec<u8>\<close> does.
\<close>

unbundle bit_operations_syntax

section \<open>Types\<close>

type_synonym u8 = "8 word"
type_synonym u16 = "16 word"
type_synonym u32 = "32 word"
type_synonym u64 = "64 word"
type_synonym bytes = "u8 list"

datatype sketch_error =
    InvalidParam string
  | IncompatibleMerge string
  | Snapshot string
  | Backpressure string

type_synonym 'a result = "sketch_error + 'a"

text \<open>The question-mark operator: pass the error on, or continue with the value.\<close>

fun rbind :: "('e + 'a) \<Rightarrow> ('a \<Rightarrow> 'e + 'b) \<Rightarrow> 'e + 'b" where
  "rbind (Inl e) f = Inl e"
| "rbind (Inr x) f = f x"

text \<open>A loop that stops at the first error.\<close>

fun rfold :: "('a \<Rightarrow> 's \<Rightarrow> 'e + 's) \<Rightarrow> 'a list \<Rightarrow> 's \<Rightarrow> 'e + 's" where
  "rfold f [] s = Inr s"
| "rfold f (x # xs) s = rbind (f x s) (rfold f xs)"

named_theorems fs_simps \<open>unfolding rules the component proofs share\<close>
named_theorems fs_inv \<open>preservation of the component invariants\<close>

lemma rbind_Inr_iff: "rbind m f = Inr y \<longleftrightarrow> (\<exists>x. m = Inr x \<and> f x = Inr y)"
  by (cases m) auto

lemma rbind_Inl_iff: "rbind m f = Inl e \<longleftrightarrow> m = Inl e \<or> (\<exists>x. m = Inr x \<and> f x = Inl e)"
  by (cases m) auto

lemma rfold_append: "rfold f (xs @ ys) s = rbind (rfold f xs s) (rfold f ys)"
proof (induction xs arbitrary: s)
  case (Cons x xs)
  then show ?case by (cases "f x s") auto
qed simp

lemma rfold_invariant:
  assumes "rfold f xs s = Inr s'" and "P s"
    and "\<And>x s s'. x \<in> set xs \<Longrightarrow> P s \<Longrightarrow> f x s = Inr s' \<Longrightarrow> P s'"
  shows "P s'"
  using assms
proof (induction xs arbitrary: s)
  case (Cons x xs)
  then obtain t where "f x s = Inr t" and "rfold f xs t = Inr s'" by (auto simp: rbind_Inr_iff)
  moreover have "P t" using Cons.prems \<open>f x s = Inr t\<close> by auto
  ultimately show ?case using Cons.IH Cons.prems(3) by (metis list.set_intros(2))
qed simp

section \<open>Words\<close>

lemma u64_add_exact: "unat (a::u64) + unat b < 2 ^ 64 \<Longrightarrow> unat (a + b) = unat a + unat b"
  by (simp add: unat_word_ariths)

lemma u64_less_exp [simp]: "unat (a::u64) < 18446744073709551616"
  using unsigned_less [of a, where 'a = nat] by simp

lemma word_min_unat: "unat (min a b) = min (unat a) (unat (b::'a::len word))"
  by (simp add: min_def word_le_nat_alt)

lemma word_max_unat: "unat (max a b) = max (unat a) (unat (b::'a::len word))"
  by (simp add: max_def word_le_nat_alt)

text \<open>\<open>x ^ (x >> k)\<close> loses no information: the bits are recovered from the top.\<close>

lemma xorshift_inj:
  fixes x y :: "'a::len word"
  assumes k: "0 < k" and eq: "x XOR drop_bit k x = y XOR drop_bit k y"
  shows "x = y"
proof (rule bit_word_eqI)
  fix n assume "n < LENGTH('a)"
  have "bit x n = bit y n" for n
  proof (induction "LENGTH('a) - n" arbitrary: n rule: less_induct)
    case less
    show ?case
    proof (cases "n < LENGTH('a)")
      case True
      have "bit (x XOR drop_bit k x) n = bit (y XOR drop_bit k y) n" by (simp add: eq)
      then have "(bit x n \<noteq> bit x (k + n)) = (bit y n \<noteq> bit y (k + n))"
        by (simp add: bit_xor_iff bit_drop_bit_eq)
      moreover have "bit x (k + n) = bit y (k + n)"
        using less [of "k + n"] k True by (cases "k + n < LENGTH('a)") (auto dest: bit_imp_le_length)
      ultimately show ?thesis by auto
    next
      case False
      then show ?thesis by (auto dest: bit_imp_le_length)
    qed
  qed
  then show "bit x n = bit y n" .
qed

lemma mult_unit_inj:
  fixes x y :: "'a::len word"
  assumes "c * d = 1" and "x * c = y * c"
  shows "x = y"
  by (metis assms mult.assoc mult.right_neutral)

section \<open>Little-endian encodings\<close>

definition le_bytes :: "nat \<Rightarrow> 'a::len word \<Rightarrow> bytes" where
  "le_bytes n w = map (\<lambda>i. ucast (drop_bit (8 * i) w)) [0..<n]"

fun le_word :: "bytes \<Rightarrow> 'a::len word" where
  "le_word [] = 0"
| "le_word (b # bs) = ucast b OR push_bit 8 (le_word bs)"

lemma length_le_bytes [simp]: "length (le_bytes n w) = n"
  by (simp add: le_bytes_def)

lemma bit_le_word:
  "bit (le_word bs :: 'a::len word) i \<longleftrightarrow>
     i < LENGTH('a) \<and> i div 8 < length bs \<and> bit (bs ! (i div 8)) (i mod 8)"
proof (induction bs arbitrary: i)
  case (Cons b bs)
  have hi: "\<not> bit b i" if "8 \<le> i" using that by (auto dest: bit_imp_le_length)
  show ?case
  proof (cases "i < 8")
    case True
    then show ?thesis
      by (auto simp: bit_or_iff bit_push_bit_iff bit_unsigned_iff dest: bit_imp_le_length)
  next
    case False
    then obtain j where j: "i = 8 + j" by (metis le_Suc_ex not_less)
    then have "i div 8 = Suc (j div 8)" "i mod 8 = j mod 8" by simp_all
    then show ?thesis using False hi Cons [of j]
      by (auto simp: bit_or_iff bit_push_bit_iff bit_unsigned_iff j)
  qed
qed simp

lemma le_word_le_bytes [simp]:
  fixes w :: "'a::len word"
  assumes "LENGTH('a) = 8 * n"
  shows "le_word (le_bytes n w) = w"
proof (rule bit_word_eqI)
  fix i assume i: "i < LENGTH('a)"
  with assms have "i div 8 < n" by simp
  with i show "bit (le_word (le_bytes n w) :: 'a word) i = bit w i"
    by (simp add: bit_le_word le_bytes_def bit_unsigned_iff bit_drop_bit_eq)
qed

lemma le_bytes_inj:
  fixes v w :: "'a::len word"
  assumes "LENGTH('a) = 8 * n" "le_bytes n v = le_bytes n w"
  shows "v = w"
  by (metis assms le_word_le_bytes)

section \<open>Row-major tables\<close>

text \<open>A loop over the rows of a table that rewrites one cell per row: the cells are distinct,
  so each is rewritten once and every other cell is kept.\<close>

lemma fold_cell_update:
  fixes f :: "nat \<Rightarrow> 'a \<Rightarrow> 'a"
  assumes "\<And>r. r < d \<Longrightarrow> g r < length t" "\<And>r r'. r < d \<Longrightarrow> r' < d \<Longrightarrow> g r = g r' \<Longrightarrow> r = r'"
  defines "t' \<equiv> fold (\<lambda>r t. t[g r := f r (t ! g r)]) [0..<d] t"
  shows "length t' = length t"
    and "r < d \<Longrightarrow> t' ! g r = f r (t ! g r)"
    and "j \<notin> g ` {..<d} \<Longrightarrow> t' ! j = t ! j"
proof -
  have "length (fold (\<lambda>r t. t[g r := f r (t ! g r)]) [0..<n] t) = length t
      \<and> (\<forall>r<n. fold (\<lambda>r t. t[g r := f r (t ! g r)]) [0..<n] t ! g r = f r (t ! g r))
      \<and> (\<forall>j. j \<notin> g ` {..<n} \<longrightarrow> fold (\<lambda>r t. t[g r := f r (t ! g r)]) [0..<n] t ! j = t ! j)"
    if "n \<le> d" for n
    using that
  proof (induction n)
    case (Suc n)
    have ne: "g r \<noteq> g n" if "r < n" for r using assms(2) [of r n] that Suc.prems by auto
    have gn: "g n < length t" using assms(1) [of n] Suc.prems by simp
    have out: "g n \<notin> g ` {..<n}" using ne by (metis imageE lessThan_iff)
    show ?case using Suc.IH Suc.prems gn ne out
      by (simp add: nth_list_update less_Suc_eq lessThan_Suc) metis
  qed simp
  from this [of d] show "length t' = length t" "r < d \<Longrightarrow> t' ! g r = f r (t ! g r)"
    "j \<notin> g ` {..<d} \<Longrightarrow> t' ! j = t ! j"
    by (auto simp: t'_def)
qed

lemma row_major_less: "r < d \<Longrightarrow> c < w \<Longrightarrow> r * w + c < w * d" for r d c w :: nat
proof -
  assume "r < d" "c < w"
  then have "r * w + c < Suc r * w" by simp
  also have "\<dots> \<le> d * w" using \<open>r < d\<close> by (intro mult_right_mono) simp_all
  finally show ?thesis by (simp add: mult.commute)
qed

lemma row_major_inj:
  "c < w \<Longrightarrow> c' < w \<Longrightarrow> r * w + c = r' * w + c' \<Longrightarrow> r = r'" for r r' c c' w :: nat
proof -
  assume "c < w" "c' < w" and eq: "r * w + c = r' * w + c'"
  have "(r * w + c) div w = r" "(r' * w + c') div w = r'" using \<open>c < w\<close> \<open>c' < w\<close> by simp_all
  with eq show ?thesis by simp
qed

text \<open>\<^verbatim>\<open>for (a, b) in xs.iter_mut().zip(ys)\<close>: cells without a partner are kept.\<close>

fun zip_mut :: "('a \<Rightarrow> 'a \<Rightarrow> 'a) \<Rightarrow> 'a list \<Rightarrow> 'a list \<Rightarrow> 'a list" where
  "zip_mut f (x # xs) (y # ys) = f x y # zip_mut f xs ys"
| "zip_mut f xs ys = xs"

lemma length_zip_mut [simp]: "length (zip_mut f xs ys) = length xs"
  by (induction f xs ys rule: zip_mut.induct) auto

lemma nth_zip_mut:
  "length xs = length ys \<Longrightarrow> i < length xs \<Longrightarrow> zip_mut f xs ys ! i = f (xs ! i) (ys ! i)"
  by (induction f xs ys arbitrary: i rule: zip_mut.induct) (auto simp: nth_Cons')

lemma zip_mut_map2: "length xs = length ys \<Longrightarrow> zip_mut f xs ys = map2 f xs ys"
  by (induction f xs ys rule: zip_mut.induct) auto

end
