(* ===== verification/Hash.thy ===== *)
theory Hash
  imports Prelude
begin

text \<open>
  \<^verbatim>\<open>flowsketch-core/src/hash.rs\<close>: the versioned \<^verbatim>\<open>fsk1\<close> hash family, the
  per-row hashes of the table sketches and the deterministic SplitMix64 generator.

  Shown here: the SplitMix64 finalizer is a permutation of the 64-bit words, two byte strings
  that differ in exactly one byte never have the same hash (the fact the snapshot checksum
  rests on), and row indices always lie inside the table.
\<close>

section \<open>Definitions\<close>

definition HASH_VERSION :: u16 where
  "HASH_VERSION = 2"

datatype hash_family = Fsk1

definition hash_family_name :: "hash_family \<Rightarrow> string" where
  "hash_family_name f = (case f of Fsk1 \<Rightarrow> ''fsk1'')"

record hash_spec =
  hs_family :: hash_family
  hs_seed :: u64
  hs_version :: u16

definition HashSpec_new :: "u64 \<Rightarrow> hash_spec" where
  "HashSpec_new seed = \<lparr>hs_family = Fsk1, hs_seed = seed, hs_version = HASH_VERSION\<rparr>"

definition HashSpec_default :: hash_spec where
  "HashSpec_default = HashSpec_new 0"

definition splitmix64 :: "u64 \<Rightarrow> u64" where
  "splitmix64 x0 =
     (let x1 = x0 + 0x9E3779B97F4A7C15;
          x2 = (x1 XOR drop_bit 30 x1) * 0xBF58476D1CE4E5B9;
          x3 = (x2 XOR drop_bit 27 x2) * 0x94D049BB133111EB
      in x3 XOR drop_bit 31 x3)"

definition FNV_OFFSET :: u64 where
  "FNV_OFFSET = 0xCBF29CE484222325"

definition FNV_PRIME :: u64 where
  "FNV_PRIME = 0x100000001B3"

text \<open>One iteration of the byte loop of \<^verbatim>\<open>hash64\<close>.\<close>

definition fnv_step :: "u8 \<Rightarrow> u64 \<Rightarrow> u64" where
  "fnv_step b h = (h XOR ucast b) * FNV_PRIME"

definition hash64 :: "bytes \<Rightarrow> u64 \<Rightarrow> u64" where
  "hash64 bs seed = splitmix64 (fold fnv_step bs (FNV_OFFSET XOR splitmix64 seed))"

definition HashSpec_hash64 :: "hash_spec \<Rightarrow> bytes \<Rightarrow> u64" where
  "HashSpec_hash64 spec bs = hash64 bs (hs_seed spec)"

text \<open>\<^verbatim>\<open>SplitMixRng\<close> is its 64-bit state; \<open>next_u64\<close> returns the value and the new state.\<close>

definition next_u64 :: "u64 \<Rightarrow> u64 \<times> u64" where
  "next_u64 s = (let s' = s + 0x9E3779B97F4A7C15 in (splitmix64 s', s'))"

record row_hashes =
  rh_h1 :: u64
  rh_h2 :: u64

definition RowHashes_new :: "hash_spec \<Rightarrow> bytes \<Rightarrow> row_hashes" where
  "RowHashes_new spec key =
     \<lparr>rh_h1 = hash64 key (hs_seed spec),
      rh_h2 = hash64 key (hs_seed spec XOR 0xA5A5A5A55A5A5A5A) OR 1\<rparr>"

definition rh_index :: "row_hashes \<Rightarrow> nat \<Rightarrow> nat \<Rightarrow> nat" where
  "rh_index rh row width =
     (let domain = splitmix64 (word_of_nat row XOR 0xD6E8FEB86659FD93);
          h = splitmix64 (rh_h1 rh XOR word_rotl (row mod 2 ^ 32 mod 63 + 1) (rh_h2 rh) XOR domain)
      in unat h mod width)"

definition rh_sign :: "row_hashes \<Rightarrow> nat \<Rightarrow> int" where
  "rh_sign rh row =
     (let domain = splitmix64 (word_of_nat row XOR 0xA4093822299F31D0);
          s = splitmix64 (rh_h1 rh XOR word_rotr (row mod 2 ^ 32 mod 63 + 1) (rh_h2 rh) XOR domain)
      in if s AND 1 = 1 then 1 else - 1)"

definition rh_raw :: "row_hashes \<Rightarrow> u64" where
  "rh_raw rh = rh_h1 rh"

section \<open>Injectivity of the mixing steps\<close>

lemma splitmix64_inj: "splitmix64 x = splitmix64 y \<Longrightarrow> x = y"
proof -
  assume eq: "splitmix64 x = splitmix64 y"
  define f1 :: "u64 \<Rightarrow> u64" where "f1 z = z + 0x9E3779B97F4A7C15" for z
  define f2 :: "u64 \<Rightarrow> u64" where "f2 z = (z XOR drop_bit 30 z) * 0xBF58476D1CE4E5B9" for z
  define f3 :: "u64 \<Rightarrow> u64" where "f3 z = (z XOR drop_bit 27 z) * 0x94D049BB133111EB" for z
  have c2: "(0xBF58476D1CE4E5B9 :: u64) * 0x96DE1B173F119089 = 1" by simp
  have c3: "(0x94D049BB133111EB :: u64) * 0x319642B2D24D8EC3 = 1" by simp
  have "f3 (f2 (f1 x)) XOR drop_bit 31 (f3 (f2 (f1 x)))
      = f3 (f2 (f1 y)) XOR drop_bit 31 (f3 (f2 (f1 y)))"
    using eq by (simp add: splitmix64_def Let_def f1_def f2_def f3_def)
  then have "f3 (f2 (f1 x)) = f3 (f2 (f1 y))" by (rule xorshift_inj [rotated]) simp
  then have "f2 (f1 x) = f2 (f1 y)"
    unfolding f3_def by (rule mult_unit_inj [OF c3, THEN xorshift_inj [rotated]]) simp
  then have "f1 x = f1 y"
    unfolding f2_def by (rule mult_unit_inj [OF c2, THEN xorshift_inj [rotated]]) simp
  then show "x = y" by (simp add: f1_def)
qed

lemma xor_left_cancel: "(a::'a::len word) XOR b = a XOR c \<Longrightarrow> b = c"
  by (metis xor.left_commute xor.right_neutral xor_self_eq xor.commute)

lemma ucast_u8_inj: "(ucast (a::u8) :: u64) = ucast b \<Longrightarrow> a = b"
  by transfer simp

lemma fnv_prime_unit: "FNV_PRIME * 0xCE965057AFF6957B = 1"
  by (simp add: FNV_PRIME_def)

lemma fnv_step_inj_state: "fnv_step b h = fnv_step b h' \<Longrightarrow> h = h'"
  unfolding fnv_step_def
  by (metis mult_unit_inj [OF fnv_prime_unit] xor_left_cancel xor.commute)

lemma fnv_step_inj_byte: "fnv_step b h = fnv_step b' h \<Longrightarrow> b = b'"
  unfolding fnv_step_def
  by (metis mult_unit_inj [OF fnv_prime_unit] xor_left_cancel ucast_u8_inj)

lemma fold_fnv_inj: "fold fnv_step bs h = fold fnv_step bs h' \<Longrightarrow> h = h'"
  by (induction bs arbitrary: h h') (auto dest: fnv_step_inj_state)

lemma hash64_one_byte:
  assumes "hash64 (p @ a # s) seed = hash64 (p @ b # s) seed"
  shows "a = b"
proof -
  let ?h = "fold fnv_step p (FNV_OFFSET XOR splitmix64 seed)"
  from assms have "fold fnv_step s (fnv_step a ?h) = fold fnv_step s (fnv_step b ?h)"
    unfolding hash64_def by (auto dest: splitmix64_inj)
  then show ?thesis by (blast dest: fold_fnv_inj fnv_step_inj_byte)
qed

lemma hash64_seed_inj: "hash64 bs s = hash64 bs s' \<Longrightarrow> s = s'"
  unfolding hash64_def by (blast dest: splitmix64_inj fold_fnv_inj xor_left_cancel)

section \<open>Row hashes\<close>

lemma rh_index_less [simp]: "0 < width \<Longrightarrow> rh_index rh row width < width"
  by (simp add: rh_index_def Let_def)

lemma rh_sign_cases: "rh_sign rh row = 1 \<or> rh_sign rh row = - 1"
  by (simp add: rh_sign_def Let_def)

lemma rh_sign_sq [simp]: "rh_sign rh row * rh_sign rh row = 1"
  using rh_sign_cases [of rh row] by auto

lemma rh_h2_odd: "odd (rh_h2 (RowHashes_new spec key))"
  by (simp add: RowHashes_new_def even_or_iff)

end
