(* ===== verification/SnapshotFormat.thy ===== *)
theory SnapshotFormat
  imports Hash
begin

text \<open>
  \<^verbatim>\<open>flowsketch-core/src/snapshot.rs\<close>: the \<^verbatim>\<open>FSK1\<close> binary snapshot format.

  A \<^verbatim>\<open>Writer\<close> only ever appends to its buffer, so each of its methods is the byte
  string it appends and a sequence of calls is a concatenation.  A \<^verbatim>\<open>Reader\<close> is its
  buffer and position; every read returns the value and the advanced reader, or the error
  of \<^verbatim>\<open>take\<close>.  Error texts that interpolate values keep their fixed part.

  Shown here: what every read does in terms of the unread rest of the buffer (the rules the
  codecs of the sketches are verified with), that a written snapshot is read back exactly, and
  that changing any single byte of a written snapshot makes it unreadable.
\<close>

section \<open>Definitions\<close>

definition MAGIC :: bytes where
  "MAGIC = [0x46, 0x53, 0x4B, 0x31]"

definition SNAPSHOT_VERSION :: u16 where
  "SNAPSHOT_VERSION = 2"

definition COUNT_MIN :: u16 where "COUNT_MIN = 1"
definition COUNT_SKETCH :: u16 where "COUNT_SKETCH = 2"
definition HYPER_LOG_LOG :: u16 where "HYPER_LOG_LOG = 3"
definition SPACE_SAVING :: u16 where "SPACE_SAVING = 4"
definition MISRA_GRIES :: u16 where "MISRA_GRIES = 5"
definition HLL_MAP :: u16 where "HLL_MAP = 6"
definition EXACT :: u16 where "EXACT = 7"
definition KLL :: u16 where "KLL = 8"

lemmas algorithm_ids = COUNT_MIN_def COUNT_SKETCH_def HYPER_LOG_LOG_def SPACE_SAVING_def
  MISRA_GRIES_def HLL_MAP_def EXACT_def KLL_def

record snapshot_header =
  sh_version :: u16
  sh_algorithm_id :: u16
  sh_hash :: hash_spec
  sh_window_start_nanos :: u64
  sh_window_end_nanos :: u64

definition wr_u8 :: "u8 \<Rightarrow> bytes" where "wr_u8 v = [v]"
definition wr_u16 :: "u16 \<Rightarrow> bytes" where "wr_u16 v = le_bytes 2 v"
definition wr_u32 :: "u32 \<Rightarrow> bytes" where "wr_u32 v = le_bytes 4 v"
definition wr_u64 :: "u64 \<Rightarrow> bytes" where "wr_u64 v = le_bytes 8 v"
definition wr_i64 :: "u64 \<Rightarrow> bytes" where "wr_i64 v = le_bytes 8 v"

text \<open>\<^verbatim>\<open>v.len() as u32\<close> keeps the low 32 bits of the length.\<close>

definition wr_lp_bytes :: "bytes \<Rightarrow> bytes" where
  "wr_lp_bytes v = wr_u32 (word_of_nat (length v)) @ v"

definition write_snapshot :: "snapshot_header \<Rightarrow> bytes \<Rightarrow> bytes \<Rightarrow> bytes" where
  "write_snapshot header params payload =
     (let buf = MAGIC
          @ wr_u16 (sh_version header)
          @ wr_u16 (sh_algorithm_id header)
          @ wr_u8 (case hs_family (sh_hash header) of Fsk1 \<Rightarrow> 0)
          @ wr_u64 (hs_seed (sh_hash header))
          @ wr_u16 (hs_version (sh_hash header))
          @ wr_u64 (sh_window_start_nanos header)
          @ wr_u64 (sh_window_end_nanos header)
          @ wr_u32 (word_of_nat (length params)) @ params
          @ wr_u32 (word_of_nat (length payload)) @ payload
      in buf @ wr_u64 (hash64 buf 0))"

record reader =
  rd_buf :: bytes
  rd_pos :: nat

definition Reader_new :: "bytes \<Rightarrow> reader" where
  "Reader_new buf = \<lparr>rd_buf = buf, rd_pos = 0\<rparr>"

definition rd_remaining :: "reader \<Rightarrow> nat" where
  "rd_remaining r = length (rd_buf r) - rd_pos r"

definition rd_take :: "nat \<Rightarrow> reader \<Rightarrow> (bytes \<times> reader) result" where
  "rd_take n r =
     (if rd_remaining r < n then Inl (Snapshot ''unexpected end of snapshot'')
      else Inr (take n (drop (rd_pos r) (rd_buf r)), r\<lparr>rd_pos := rd_pos r + n\<rparr>))"

definition rd_u8 :: "reader \<Rightarrow> (u8 \<times> reader) result" where
  "rd_u8 r = rbind (rd_take 1 r) (\<lambda>(b, r). Inr (hd b, r))"

definition rd_u16 :: "reader \<Rightarrow> (u16 \<times> reader) result" where
  "rd_u16 r = rbind (rd_take 2 r) (\<lambda>(b, r). Inr (le_word b, r))"

definition rd_u32 :: "reader \<Rightarrow> (u32 \<times> reader) result" where
  "rd_u32 r = rbind (rd_take 4 r) (\<lambda>(b, r). Inr (le_word b, r))"

definition rd_u64 :: "reader \<Rightarrow> (u64 \<times> reader) result" where
  "rd_u64 r = rbind (rd_take 8 r) (\<lambda>(b, r). Inr (le_word b, r))"

definition rd_i64 :: "reader \<Rightarrow> (u64 \<times> reader) result" where
  "rd_i64 r = rbind (rd_take 8 r) (\<lambda>(b, r). Inr (le_word b, r))"

definition rd_lp_bytes :: "reader \<Rightarrow> (bytes \<times> reader) result" where
  "rd_lp_bytes r = rbind (rd_u32 r) (\<lambda>(n, r). rd_take (unat n) r)"

definition rd_check_count :: "nat \<Rightarrow> nat \<Rightarrow> reader \<Rightarrow> unit result" where
  "rd_check_count count min_bytes_each r =
     (if rd_remaining r div max min_bytes_each 1 < count
      then Inl (Snapshot ''declared count cannot fit in the bytes remaining'')
      else Inr ())"

text \<open>A loop \<^verbatim>\<open>for _ in 0..n\<close> whose body reads one element and pushes it.\<close>

fun rd_many :: "(reader \<Rightarrow> ('a \<times> reader) result) \<Rightarrow> nat \<Rightarrow> reader \<Rightarrow> ('a list \<times> reader) result" where
  "rd_many rd 0 r = Inr ([], r)"
| "rd_many rd (Suc n) r =
     rbind (rd r) (\<lambda>(x, r). rbind (rd_many rd n r) (\<lambda>(xs, r). Inr (x # xs, r)))"

text \<open>The part of \<^verbatim>\<open>read_snapshot\<close> after the checksum has been verified.\<close>

definition read_body :: "bytes \<Rightarrow> (snapshot_header \<times> bytes \<times> bytes) result" where
  "read_body body =
     rbind (rd_take 4 (Reader_new body)) (\<lambda>(magic, r).
     if magic \<noteq> MAGIC then Inl (Snapshot ''bad magic (expected FSK1)'') else
     rbind (rd_u16 r) (\<lambda>(version, r).
     if version \<noteq> SNAPSHOT_VERSION then Inl (Snapshot ''unsupported snapshot version'') else
     rbind (rd_u16 r) (\<lambda>(algorithm_id, r).
     rbind (rd_u8 r) (\<lambda>(fam, r).
     if fam \<noteq> 0 then Inl (Snapshot ''unknown hash family id'') else
     rbind (rd_u64 r) (\<lambda>(seed, r).
     rbind (rd_u16 r) (\<lambda>(hash_version, r).
     rbind (rd_u64 r) (\<lambda>(window_start_nanos, r).
     rbind (rd_u64 r) (\<lambda>(window_end_nanos, r).
     rbind (rd_u32 r) (\<lambda>(params_len, r).
     rbind (rd_take (unat params_len) r) (\<lambda>(params, r).
     rbind (rd_u32 r) (\<lambda>(payload_len, r).
     rbind (rd_take (unat payload_len) r) (\<lambda>(payload, r).
     Inr (\<lparr>sh_version = version, sh_algorithm_id = algorithm_id,
           sh_hash = \<lparr>hs_family = Fsk1, hs_seed = seed, hs_version = hash_version\<rparr>,
           sh_window_start_nanos = window_start_nanos,
           sh_window_end_nanos = window_end_nanos\<rparr>, params, payload)))))))))))))"

definition read_snapshot :: "bytes \<Rightarrow> (snapshot_header \<times> bytes \<times> bytes) result" where
  "read_snapshot bs =
     (if length bs < 4 + 2 + 2 + 11 + 16 + 8 + 8 then Inl (Snapshot ''snapshot too short'')
      else let body = take (length bs - 8) bs; tail = drop (length bs - 8) bs in
        if hash64 body 0 \<noteq> le_word tail then Inl (Snapshot ''checksum mismatch'')
        else read_body body)"

section \<open>Reading in terms of the unread rest\<close>

definition rd_rest :: "reader \<Rightarrow> bytes" where
  "rd_rest r = drop (rd_pos r) (rd_buf r)"

definition rd_adv :: "nat \<Rightarrow> reader \<Rightarrow> reader" where
  "rd_adv n r = r\<lparr>rd_pos := rd_pos r + n\<rparr>"

lemma rd_rest_new [simp]: "rd_rest (Reader_new bs) = bs"
  by (simp add: rd_rest_def Reader_new_def)

lemma rd_rest_adv [simp]: "rd_rest (rd_adv n r) = drop n (rd_rest r)"
  by (simp add: rd_rest_def rd_adv_def add.commute)

lemma rd_adv_adv [simp]: "rd_adv m (rd_adv n r) = rd_adv (n + m) r"
  by (simp add: rd_adv_def add.assoc)

lemma rd_remaining_rest: "rd_remaining r = length (rd_rest r)"
  by (simp add: rd_remaining_def rd_rest_def)

lemma rd_take_eq:
  "rd_take n r = (if length (rd_rest r) < n then Inl (Snapshot ''unexpected end of snapshot'')
                  else Inr (take n (rd_rest r), rd_adv n r))"
  by (simp add: rd_take_def rd_remaining_rest) (simp add: rd_rest_def rd_adv_def)

text \<open>The reads of a codec, at a reader whose rest starts with the encoding.\<close>

lemma rd_take_append:
  "rd_rest r = a @ b \<Longrightarrow> length a = n \<Longrightarrow> rd_take n r = Inr (a, rd_adv n r)"
  by (simp add: rd_take_eq)

lemma rd_u8_append: "rd_rest r = wr_u8 v @ b \<Longrightarrow> rd_u8 r = Inr (v, rd_adv 1 r)"
  by (simp add: rd_u8_def wr_u8_def rd_take_eq)

lemma rd_u16_append: "rd_rest r = wr_u16 v @ b \<Longrightarrow> rd_u16 r = Inr (v, rd_adv 2 r)"
  by (simp add: rd_u16_def wr_u16_def rd_take_eq)

lemma rd_u32_append: "rd_rest r = wr_u32 v @ b \<Longrightarrow> rd_u32 r = Inr (v, rd_adv 4 r)"
  by (simp add: rd_u32_def wr_u32_def rd_take_eq)

lemma rd_u64_append: "rd_rest r = wr_u64 v @ b \<Longrightarrow> rd_u64 r = Inr (v, rd_adv 8 r)"
  by (simp add: rd_u64_def wr_u64_def rd_take_eq)

lemma rd_i64_append: "rd_rest r = wr_i64 v @ b \<Longrightarrow> rd_i64 r = Inr (v, rd_adv 8 r)"
  by (simp add: rd_i64_def wr_i64_def rd_take_eq)

lemma length_MAGIC [simp]: "length MAGIC = 4"
  by (simp add: MAGIC_def)

lemma length_wr [simp]:
  "length (wr_u8 a) = 1" "length (wr_u16 b) = 2" "length (wr_u32 c) = 4"
  "length (wr_u64 d) = 8" "length (wr_i64 e) = 8" "length (wr_lp_bytes v) = 4 + length v"
  by (simp_all add: wr_u8_def wr_u16_def wr_u32_def wr_u64_def wr_i64_def wr_lp_bytes_def)

lemma wr_not_Nil [simp]:
  "wr_u8 a \<noteq> []" "wr_u16 b \<noteq> []" "wr_u32 c \<noteq> []" "wr_u64 d \<noteq> []" "wr_i64 e \<noteq> []"
  by (simp_all add: wr_u8_def wr_u16_def wr_u32_def wr_u64_def wr_i64_def le_bytes_def)

lemma u32_of_nat_unat [simp]: "n < 2 ^ 32 \<Longrightarrow> unat (word_of_nat n :: u32) = n"
  by (simp add: unsigned_of_nat take_bit_nat_eq_self)

lemma u64_of_nat_unat [simp]: "n < 2 ^ 64 \<Longrightarrow> unat (word_of_nat n :: u64) = n"
  by (simp add: unsigned_of_nat take_bit_nat_eq_self)

lemma rd_lp_bytes_append:
  assumes "rd_rest r = wr_lp_bytes v @ b" "length v < 2 ^ 32"
  shows "rd_lp_bytes r = Inr (v, rd_adv (4 + length v) r)"
proof -
  have "rd_u32 r = Inr (word_of_nat (length v), rd_adv 4 r)"
    using assms(1) by (intro rd_u32_append [where b = "v @ b"]) (simp add: wr_lp_bytes_def)
  moreover have "rd_take (length v) (rd_adv 4 r) = Inr (v, rd_adv (length v) (rd_adv 4 r))"
    using assms(1) by (intro rd_take_append [where b = b]) (simp_all add: wr_lp_bytes_def)
  ultimately show ?thesis
    using assms(2) by (simp add: rd_lp_bytes_def)
qed

lemma le_word_wr [simp]:
  "le_word (wr_u16 b) = b" "le_word (wr_u32 c) = c"
  "le_word (wr_u64 d) = d" "le_word (wr_i64 e) = e" "hd (wr_u8 a) = a"
  by (simp_all add: wr_u16_def wr_u32_def wr_u64_def wr_i64_def wr_u8_def)

text \<open>The same reads as equations on the rest: with \<open>take\<close> and \<open>drop\<close> computed over the
  concatenation, a decoder runs symbolically on the output of its encoder.\<close>

lemma rd_u8_eq:
  "rd_u8 r = (if length (rd_rest r) < 1 then Inl (Snapshot ''unexpected end of snapshot'')
              else Inr (hd (take 1 (rd_rest r)), rd_adv 1 r))"
  by (simp add: rd_u8_def rd_take_eq)

lemma rd_u16_eq:
  "rd_u16 r = (if length (rd_rest r) < 2 then Inl (Snapshot ''unexpected end of snapshot'')
               else Inr (le_word (take 2 (rd_rest r)), rd_adv 2 r))"
  by (simp add: rd_u16_def rd_take_eq)

lemma rd_u32_eq:
  "rd_u32 r = (if length (rd_rest r) < 4 then Inl (Snapshot ''unexpected end of snapshot'')
               else Inr (le_word (take 4 (rd_rest r)), rd_adv 4 r))"
  by (simp add: rd_u32_def rd_take_eq)

lemma rd_u64_eq:
  "rd_u64 r = (if length (rd_rest r) < 8 then Inl (Snapshot ''unexpected end of snapshot'')
               else Inr (le_word (take 8 (rd_rest r)), rd_adv 8 r))"
  by (simp add: rd_u64_def rd_take_eq)

lemmas rd_eqs = rd_take_eq rd_u8_eq rd_u16_eq rd_u32_eq rd_u64_eq

lemmas rd_append = rd_take_append rd_u8_append rd_u16_append rd_u32_append rd_u64_append
  rd_i64_append rd_lp_bytes_append

lemma rd_many_append:
  assumes "\<And>x r b. x \<in> set xs \<Longrightarrow> rd_rest r = enc x @ b \<Longrightarrow> rd r = Inr (x, rd_adv (length (enc x)) r)"
    and "rd_rest r = concat (map enc xs) @ b"
  shows "rd_many rd (length xs) r = Inr (xs, rd_adv (length (concat (map enc xs))) r)"
  using assms
proof (induction xs arbitrary: r)
  case Nil
  then show ?case by (simp add: rd_adv_def)
next
  case (Cons x xs)
  have 1: "rd r = Inr (x, rd_adv (length (enc x)) r)"
    using Cons.prems by (intro Cons.prems(1) [where b = "concat (map enc xs) @ b"]) simp_all
  have 2: "rd_many rd (length xs) (rd_adv (length (enc x)) r)
      = Inr (xs, rd_adv (length (concat (map enc xs))) (rd_adv (length (enc x)) r))"
    using Cons.prems by (intro Cons.IH) auto
  show ?case by (simp add: 1 2 del: length_concat)
qed

lemma length_concat_const:
  "(\<And>x. x \<in> set xs \<Longrightarrow> length (f x) = n) \<Longrightarrow> length (concat (map f xs)) = n * length xs"
  by (induction xs) auto

lemma rd_many_u64:
  "rd_rest r = concat (map wr_u64 xs) @ b \<Longrightarrow>
   rd_many rd_u64 (length xs) r = Inr (xs, rd_adv (8 * length xs) r)"
  using rd_many_append [of xs wr_u64 rd_u64 r b] rd_u64_append
  by (simp add: length_concat_const [where n = 8] del: length_concat)

lemma rd_many_length: "rd_many rd n r = Inr (xs, r') \<Longrightarrow> length xs = n"
  by (induction n arbitrary: r xs r') (auto simp: rbind_Inr_iff)

text \<open>No read goes past the end of the buffer: a reader never has more unread bytes after a
  read than before, and \<open>take\<close> consumes exactly what it returns.\<close>

lemma rd_take_consumes:
  "rd_take n r = Inr (xs, r') \<Longrightarrow> rd_rest r = xs @ rd_rest r' \<and> length xs = n"
  by (auto simp: rd_take_eq min_def split: if_splits)

text \<open>What a successful read has consumed.\<close>

lemma le_bytes_le_word:
  assumes "length bs = n" "LENGTH('a::len) = 8 * n"
  shows "le_bytes n (le_word bs :: 'a word) = bs"
proof (rule nth_equalityI)
  fix i assume "i < length (le_bytes n (le_word bs :: 'a word))"
  then have i: "i < n" by simp
  show "le_bytes n (le_word bs :: 'a word) ! i = bs ! i"
  proof (rule bit_word_eqI)
    fix k assume "k < LENGTH(8)"
    then show "bit (le_bytes n (le_word bs :: 'a word) ! i) k = bit (bs ! i) k"
      using i assms by (auto simp: le_bytes_def bit_unsigned_iff bit_drop_bit_eq bit_le_word dest: bit_imp_le_length)
  qed
qed (use assms in simp)

lemma rd_u16_consumes: "rd_u16 r = Inr (v, r') \<Longrightarrow> rd_rest r = wr_u16 v @ rd_rest r'"
  by (auto simp: rd_u16_def rbind_Inr_iff wr_u16_def le_bytes_le_word dest!: rd_take_consumes)

lemma rd_u32_consumes: "rd_u32 r = Inr (v, r') \<Longrightarrow> rd_rest r = wr_u32 v @ rd_rest r'"
  by (auto simp: rd_u32_def rbind_Inr_iff wr_u32_def le_bytes_le_word dest!: rd_take_consumes)

lemma rd_lp_bytes_consumes:
  assumes "rd_lp_bytes r = Inr (v, r')"
  shows "rd_rest r = wr_lp_bytes v @ rd_rest r' \<and> length v < 2 ^ 32"
proof -
  obtain n r1 where n: "rd_u32 r = Inr (n, r1)" "rd_take (unat n) r1 = Inr (v, r')"
    using assms by (auto simp: rd_lp_bytes_def rbind_Inr_iff)
  have v: "rd_rest r1 = v @ rd_rest r'" "length v = unat n" using rd_take_consumes [OF n(2)] by simp_all
  then have "word_of_nat (length v) = n" by simp
  then show ?thesis using rd_u32_consumes [OF n(1)] v unsigned_less [of n, where 'a = nat] by (simp add: wr_lp_bytes_def)
qed

lemma rd_many_consumes:
  assumes "\<And>r x r'. rd r = Inr (x, r') \<Longrightarrow> rd_rest r = enc x @ rd_rest r' \<and> P x" "rd_many rd n r = Inr (xs, r')"
  shows "rd_rest r = concat (map enc xs) @ rd_rest r' \<and> (\<forall>x \<in> set xs. P x) \<and> length xs = n"
  using assms(2)
proof (induction n arbitrary: r xs)
  case (Suc n)
  then obtain x r1 ys where "rd r = Inr (x, r1)" "rd_many rd n r1 = Inr (ys, r')" "xs = x # ys"
    by (auto simp: rbind_Inr_iff)
  then show ?case using assms(1) Suc.IH by auto
qed simp

lemma rd_take_length_le: "rd_take n r = Inr (xs, r') \<Longrightarrow> length xs \<le> length (rd_buf r) \<and> rd_buf r' = rd_buf r"
  by (auto simp: rd_take_def rd_remaining_def split: if_splits)

lemma rd_u_buf:
  "rd_u8 r = Inr (a, r') \<Longrightarrow> rd_buf r' = rd_buf r" "rd_u16 r = Inr (b, r') \<Longrightarrow> rd_buf r' = rd_buf r"
  "rd_u32 r = Inr (c, r') \<Longrightarrow> rd_buf r' = rd_buf r" "rd_u64 r = Inr (d, r') \<Longrightarrow> rd_buf r' = rd_buf r"
  by (auto simp: rd_u8_def rd_u16_def rd_u32_def rd_u64_def rbind_Inr_iff dest!: rd_take_length_le)

lemma read_body_payload_le:
  "read_body body = Inr (h, params, payload) \<Longrightarrow> length params \<le> length body \<and> length payload \<le> length body"
  by (auto simp: read_body_def rbind_Inr_iff Reader_new_def dest!: rd_take_length_le rd_u_buf split: if_splits)

lemma read_snapshot_payload_le:
  "read_snapshot bs = Inr (h, params, payload) \<Longrightarrow> length payload \<le> length bs"
  by (auto simp: read_snapshot_def Let_def dest!: read_body_payload_le split: if_splits)

section \<open>Round trip and corruption\<close>

definition snapshot_body :: "snapshot_header \<Rightarrow> bytes \<Rightarrow> bytes \<Rightarrow> bytes" where
  "snapshot_body h params payload =
     MAGIC @ wr_u16 (sh_version h) @ wr_u16 (sh_algorithm_id h) @ wr_u8 0
     @ wr_u64 (hs_seed (sh_hash h)) @ wr_u16 (hs_version (sh_hash h))
     @ wr_u64 (sh_window_start_nanos h) @ wr_u64 (sh_window_end_nanos h)
     @ wr_lp_bytes params @ wr_lp_bytes payload"

lemma write_snapshot_eq:
  "write_snapshot h params payload =
     snapshot_body h params payload @ wr_u64 (hash64 (snapshot_body h params payload) 0)"
  by (cases "hs_family (sh_hash h)")
    (simp add: write_snapshot_def snapshot_body_def wr_lp_bytes_def Let_def)

lemma length_snapshot_body: "length (snapshot_body h p q) = 43 + length p + length q"
  by (simp add: snapshot_body_def)

lemma read_snapshot_split:
  assumes "length body \<ge> 43" "length tail = 8"
  shows "read_snapshot (body @ tail) =
    (if hash64 body 0 \<noteq> le_word tail then Inl (Snapshot ''checksum mismatch'') else read_body body)"
  using assms by (simp add: read_snapshot_def Let_def)

lemma read_body_snapshot:
  assumes "sh_version h = SNAPSHOT_VERSION" "length params < 2 ^ 32" "length payload < 2 ^ 32"
  shows "read_body (snapshot_body h params payload) = Inr (h, params, payload)"
proof -
  have fam: "hs_family (sh_hash h) = Fsk1" by (cases "hs_family (sh_hash h)")
  show ?thesis
    unfolding read_body_def snapshot_body_def wr_lp_bytes_def
    using assms fam by (simp add: rd_eqs del: drop_drop rd_adv_adv)
qed

lemma read_write_snapshot:
  "sh_version h = SNAPSHOT_VERSION \<Longrightarrow> length params < 2 ^ 32 \<Longrightarrow> length payload < 2 ^ 32 \<Longrightarrow>
   read_snapshot (write_snapshot h params payload) = Inr (h, params, payload)"
  by (simp add: write_snapshot_eq read_snapshot_split length_snapshot_body read_body_snapshot wr_u64_def)

text \<open>
  A snapshot written by \<^verbatim>\<open>write_snapshot\<close> is read back by
  \<^verbatim>\<open>read_snapshot\<close> exactly: header, parameters and payload.
\<close>

lemma snapshot_round_trips:
  assumes "sh_version h = SNAPSHOT_VERSION" "length params < 2 ^ 32" "length payload < 2 ^ 32"
  shows "read_snapshot (write_snapshot h params payload) = Inr (h, params, payload)"
  using assms by (rule read_write_snapshot)

text \<open>A body followed by its checksum: any change of one byte, in the body or in the checksum,
  is noticed.\<close>

lemma le_word_update_ne:
  fixes w :: u64
  assumes "j < 8" "b \<noteq> wr_u64 w ! j"
  shows "le_word ((wr_u64 w)[j := b]) \<noteq> w"
proof
  assume "le_word ((wr_u64 w)[j := b]) = w"
  moreover have "bit (le_word ((wr_u64 w)[j := b]) :: u64) (8 * j + k)
    = bit (le_word (wr_u64 w) :: u64) (8 * j + k) \<longleftrightarrow> bit b k = bit (wr_u64 w ! j) k" if "k < 8" for k
    using that assms(1) by (simp add: bit_le_word del: le_word_wr le_word_le_bytes)
  ultimately have "bit b k = bit (wr_u64 w ! j) k" if "k < 8" for k
    using that by (simp add: wr_u64_def)
  then have "b = wr_u64 w ! j" by (intro bit_word_eqI) simp
  with assms(2) show False by simp
qed

lemma checksum_detects:
  assumes bs: "bs = body @ wr_u64 (hash64 body 0)" and "i < length bs" "b \<noteq> bs ! i"
  shows "\<exists>body' tail. bs[i := b] = body' @ tail \<and> length body' = length body \<and> length tail = 8 \<and> hash64 body' 0 \<noteq> le_word tail"
proof (cases "i < length body")
  case True
  have "body = take i body @ body ! i # drop (Suc i) body" using True by (rule id_take_nth_drop)
  moreover have "body[i := b] = take i body @ b # drop (Suc i) body" using True by (rule upd_conv_take_nth_drop)
  moreover have "body ! i \<noteq> b" using assms True by (simp add: nth_append)
  ultimately have "hash64 (body[i := b]) 0 \<noteq> hash64 body 0" by (metis hash64_one_byte)
  then show ?thesis using True bs
    by (intro exI [of _ "body[i := b]"] exI [of _ "wr_u64 (hash64 body 0)"]) (simp add: list_update_append)
next
  case False
  then have "i - length body < 8" "b \<noteq> wr_u64 (hash64 body 0) ! (i - length body)" using assms by (simp_all add: nth_append)
  from le_word_update_ne [OF this] show ?thesis using False bs
    by (intro exI [of _ body] exI [of _ "(wr_u64 (hash64 body 0))[i - length body := b]"]) (auto simp: list_update_append)
qed

text \<open>
  C34: changing any one byte of a written snapshot (header, parameters, payload or checksum) to
  any other value makes \<^verbatim>\<open>read_snapshot\<close> fail with the checksum error.
\<close>

theorem corrupt_snapshot_is_rejected:
  assumes "i < length (write_snapshot h params payload)"
    and "b \<noteq> write_snapshot h params payload ! i"
  shows "read_snapshot ((write_snapshot h params payload)[i := b])
       = Inl (Snapshot ''checksum mismatch'')"
  using checksum_detects [OF write_snapshot_eq assms] length_snapshot_body [of h params payload]
  by (auto simp: read_snapshot_split)

theorem corrupt_snapshot_is_rejected_witness:
  "read_snapshot ((write_snapshot
      \<lparr>sh_version = SNAPSHOT_VERSION, sh_algorithm_id = HYPER_LOG_LOG, sh_hash = HashSpec_new 0,
       sh_window_start_nanos = 0, sh_window_end_nanos = 0\<rparr> [] [1, 2, 3])[0 := 0x58])
   = Inl (Snapshot ''checksum mismatch'')"
  by (rule corrupt_snapshot_is_rejected)
    (simp_all add: write_snapshot_eq snapshot_body_def MAGIC_def)

end
