(* ===== verification/SketchTrait.thy ===== *)
theory SketchTrait
  imports SnapshotFormat
begin

text \<open>
  \<^verbatim>\<open>flowsketch-core/src/sketch.rs\<close>: merge compatibility and the \<^verbatim>\<open>Sketch\<close>
  trait.  The trait is a locale: its methods are the parameters, what its documentation
  promises of every implementation are the assumptions, and what generic clients rely on (the
  merge loop of \<^verbatim>\<open>flowsketch-cli/src/merge.rs\<close>, feeding a stream, merging shards) is
  proved once inside.  The theories of the sketches interpret the locales on their models.
\<close>

section \<open>Merge compatibility\<close>

record sketch_compatibility =
  sc_algorithm :: string
  sc_version :: u16
  sc_hash :: hash_spec
  sc_params_hash :: u64

definition ensure_matches :: "sketch_compatibility \<Rightarrow> sketch_compatibility \<Rightarrow> unit result" where
  "ensure_matches a b =
     (if a \<noteq> b then Inl (IncompatibleMerge ''sketches are not merge-compatible'') else Inr ())"

lemma ensure_matches_iff [simp]:
  "ensure_matches a b = Inr () \<longleftrightarrow> a = b"
  "ensure_matches a a = Inr ()"
  by (simp_all add: ensure_matches_def)

section \<open>Generic clients\<close>

text \<open>\<^verbatim>\<open>merge_all\<close>: decode the first blob, then decode and merge the others in order.\<close>

fun merge_rest :: "(bytes \<Rightarrow> 's result) \<Rightarrow> ('s \<Rightarrow> 's \<Rightarrow> 's result) \<Rightarrow> bytes list \<Rightarrow> 's \<Rightarrow> 's result" where
  "merge_rest dec mrg [] merged = Inr merged"
| "merge_rest dec mrg (blob # blobs) merged =
     rbind (dec blob) (\<lambda>s. rbind (mrg merged s) (merge_rest dec mrg blobs))"

text \<open>The caller refuses an empty file list first (\<^verbatim>\<open>expect("nonempty")\<close>).\<close>

definition merge_all :: "(bytes \<Rightarrow> 's result) \<Rightarrow> ('s \<Rightarrow> 's \<Rightarrow> 's result) \<Rightarrow> bytes list \<Rightarrow> 's result" where
  "merge_all dec mrg blobs =
     (case blobs of [] \<Rightarrow> Inl (InvalidParam ''nonempty'')
      | first # rest \<Rightarrow> rbind (dec first) (merge_rest dec mrg rest))"

text \<open>A weighted stream, applied one update at a time.\<close>

definition feed :: "('s \<Rightarrow> bytes \<Rightarrow> u64 \<Rightarrow> 's) \<Rightarrow> 's \<Rightarrow> (bytes \<times> u64) list \<Rightarrow> 's" where
  "feed upd s xs = fold (\<lambda>(k, v) s. upd s k v) xs s"

text \<open>Sharded execution: every shard starts from the same empty sketch, the first shard's
  sketch absorbs the others from left to right.\<close>

fun absorb :: "('s \<Rightarrow> 's \<Rightarrow> 's result) \<Rightarrow> 's list \<Rightarrow> 's \<Rightarrow> 's result" where
  "absorb mrg [] acc = Inr acc"
| "absorb mrg (s # ss) acc = rbind (mrg acc s) (absorb mrg ss)"

definition merge_shards ::
  "('s \<Rightarrow> bytes \<Rightarrow> u64 \<Rightarrow> 's) \<Rightarrow> ('s \<Rightarrow> 's \<Rightarrow> 's result) \<Rightarrow> 's \<Rightarrow>
   (bytes \<times> u64) list \<Rightarrow> (bytes \<times> u64) list list \<Rightarrow> 's result" where
  "merge_shards upd mrg s0 xs xss = absorb mrg (map (feed upd s0) xss) (feed upd s0 xs)"

section \<open>Ground truth of a weighted stream\<close>

definition truth :: "(bytes \<times> u64) list \<Rightarrow> bytes \<Rightarrow> nat" where
  "truth xs k = (\<Sum>(k', v) \<leftarrow> xs. if k' = k then unat v else 0)"

definition weight :: "(bytes \<times> u64) list \<Rightarrow> nat" where
  "weight xs = (\<Sum>(k, v) \<leftarrow> xs. unat v)"

lemma truth_simps [simp]:
  "truth [] k = 0"
  "truth ((k', v) # xs) k = (if k' = k then unat v else 0) + truth xs k"
  "truth (xs @ ys) k = truth xs k + truth ys k"
  by (simp_all add: truth_def)

lemma weight_simps [simp]:
  "weight [] = 0" "weight ((k, v) # xs) = unat v + weight xs" "weight (xs @ ys) = weight xs + weight ys"
  by (simp_all add: weight_def)

lemma feed_simps [simp]:
  "feed upd s [] = s" "feed upd s ((k, v) # xs) = feed upd (upd s k v) xs"
  by (simp_all add: feed_def)

lemma feed_append: "feed upd s (xs @ ys) = feed upd (feed upd s xs) ys"
  by (simp add: feed_def)

section \<open>The trait\<close>

locale sketch =
  fixes inv :: "'s \<Rightarrow> bool"
    and update :: "'s \<Rightarrow> bytes \<Rightarrow> u64 \<Rightarrow> 's"
    and merge_from :: "'s \<Rightarrow> 's \<Rightarrow> 's result"
    and reset :: "'s \<Rightarrow> 's"
    and update_count :: "'s \<Rightarrow> u64"
    and compatibility :: "'s \<Rightarrow> sketch_compatibility"
  assumes inv_update: "inv s \<Longrightarrow> inv (update s k v)"
    and inv_merge: "inv a \<Longrightarrow> inv b \<Longrightarrow> merge_from a b = Inr c \<Longrightarrow> inv c"
    and inv_reset: "inv s \<Longrightarrow> inv (reset s)"
    and compat_update: "inv s \<Longrightarrow> compatibility (update s k v) = compatibility s"
    and compat_merge: "inv a \<Longrightarrow> inv b \<Longrightarrow> merge_from a b = Inr c \<Longrightarrow> compatibility c = compatibility a"
    and compat_reset: "compatibility (reset s) = compatibility s"
    and merge_compatible:
      "inv a \<Longrightarrow> inv b \<Longrightarrow> compatibility a = compatibility b \<Longrightarrow> \<exists>c. merge_from a b = Inr c"
    and merge_incompatible:
      "compatibility a \<noteq> compatibility b \<Longrightarrow>
       merge_from a b = Inl (IncompatibleMerge ''sketches are not merge-compatible'')"
    and count_update: "inv s \<Longrightarrow> update_count (update s k v) = update_count s + 1"
    and count_merge: "inv a \<Longrightarrow> inv b \<Longrightarrow> merge_from a b = Inr c \<Longrightarrow>
       update_count c = update_count a + update_count b"
    and count_reset: "update_count (reset s) = 0"
begin

lemma inv_feed: "inv s \<Longrightarrow> inv (feed update s xs)"
  by (induction xs arbitrary: s) (auto simp: inv_update)

lemma compat_feed: "inv s \<Longrightarrow> compatibility (feed update s xs) = compatibility s"
  by (induction xs arbitrary: s) (auto simp: compat_update inv_update)

lemma count_feed: "inv s \<Longrightarrow> update_count (feed update s xs) = update_count s + word_of_nat (length xs)"
  by (induction xs arbitrary: s) (auto simp: count_update inv_update)

lemma merge_iff:
  "inv a \<Longrightarrow> inv b \<Longrightarrow> (\<exists>c. merge_from a b = Inr c) \<longleftrightarrow> compatibility a = compatibility b"
  using merge_compatible merge_incompatible by (metis sum.distinct(1))

lemma absorb_ok:
  assumes "inv a" "\<And>s. s \<in> set ss \<Longrightarrow> inv s \<and> compatibility s = compatibility a"
  shows "\<exists>c. absorb merge_from ss a = Inr c \<and> inv c \<and> compatibility c = compatibility a
    \<and> update_count c = update_count a + sum_list (map update_count ss)"
  using assms
proof (induction ss arbitrary: a)
  case (Cons s ss)
  then have s: "inv s" "compatibility a = compatibility s" by simp_all
  then obtain b where b: "merge_from a s = Inr b"
    using Cons.prems(1) merge_compatible by blast
  then have "inv b" "compatibility b = compatibility a" "update_count b = update_count a + update_count s"
    using Cons.prems(1) s inv_merge compat_merge count_merge by blast+
  then show ?case using Cons.IH [of b] Cons.prems(2) b by (simp add: add.assoc)
qed simp

lemma merge_rest_ok:
  assumes "inv a"
    and "\<And>blob. blob \<in> set blobs \<Longrightarrow>
      \<exists>s. dec blob = Inr s \<and> inv s \<and> compatibility s = compatibility a"
  shows "\<exists>c. merge_rest dec merge_from blobs a = Inr c \<and> inv c \<and> compatibility c = compatibility a"
  using assms
proof (induction blobs arbitrary: a)
  case (Cons blob blobs)
  obtain s where s: "dec blob = Inr s" "inv s" "compatibility a = compatibility s"
    using Cons.prems(2) [of blob] by auto
  then obtain b where b: "merge_from a s = Inr b"
    using Cons.prems(1) merge_compatible by blast
  then have "inv b" "compatibility b = compatibility a"
    using Cons.prems(1) s inv_merge compat_merge by blast+
  then show ?case using Cons.IH [of b] Cons.prems(2) b s(1) by simp
qed simp

lemma merge_rest_incompatible:
  assumes "inv a" "dec blob = Inr s" "compatibility s \<noteq> compatibility a"
    and "\<And>b. b \<in> set blobs \<Longrightarrow> \<exists>s. dec b = Inr s \<and> inv s \<and> compatibility s = compatibility a"
  shows "merge_rest dec merge_from (blobs @ blob # blobs') a
    = Inl (IncompatibleMerge ''sketches are not merge-compatible'')"
  using assms
proof (induction blobs arbitrary: a)
  case Nil
  then show ?case using merge_incompatible [of a s] by simp
next
  case (Cons b bs)
  obtain t where t: "dec b = Inr t" "inv t" "compatibility a = compatibility t"
    using Cons.prems(4) [of b] by auto
  then obtain c where c: "merge_from a t = Inr c"
    using Cons.prems(1) merge_compatible by blast
  then have "inv c" "compatibility c = compatibility a"
    using Cons.prems(1) t inv_merge compat_merge by blast+
  then show ?case using Cons.IH [of c] Cons.prems t(1) c by simp
qed

end

section \<open>Configurations\<close>

text \<open>\<open>config\<close> is the configuration itself; \<^verbatim>\<open>ensure_matches\<close> compares a 64-bit digest of it,
  so equal compatibility does not by itself imply equal parameters.\<close>

locale configured_sketch = sketch inv update merge_from reset update_count compatibility
  for inv :: "'s \<Rightarrow> bool" and update merge_from reset update_count compatibility +
  fixes config :: "'s \<Rightarrow> 'c"
  assumes config_update: "inv s \<Longrightarrow> config (update s k v) = config s"
    and config_merge: "inv a \<Longrightarrow> inv b \<Longrightarrow> merge_from a b = Inr c \<Longrightarrow> config c = config a"
begin

lemma config_feed: "inv s \<Longrightarrow> config (feed update s xs) = config s"
  by (induction xs arbitrary: s) (auto simp: config_update inv_update)

lemma config_merge_shards:
  assumes i: "inv s0" and c: "merge_shards update merge_from s0 xs xss = Inr c"
  shows "config c = config s0"
proof -
  have "config c = config a" if "absorb merge_from ss a = Inr c" "inv a" "\<And>s. s \<in> set ss \<Longrightarrow> inv s" for ss a
    using that
  proof (induction ss arbitrary: a)
    case (Cons s ss)
    then obtain b where b: "merge_from a s = Inr b" "absorb merge_from ss b = Inr c"
      by (auto simp: rbind_Inr_iff)
    have "inv s" using Cons.prems(3) by simp
    then have "inv b" "config b = config a" using b(1) Cons.prems(2) inv_merge config_merge by blast+
    then show ?case using Cons.IH [OF b(2)] Cons.prems(3) by simp
  qed simp
  from this [OF c [unfolded merge_shards_def] inv_feed [OF i]] show ?thesis
    using config_feed [OF i] inv_feed [OF i] by auto
qed

lemma merge_shards_ok: "inv s0 \<Longrightarrow> \<exists>c. merge_shards update merge_from s0 xs xss = Inr c \<and> inv c"
proof -
  assume i: "inv s0"
  have shards: "inv s \<and> compatibility s = compatibility (feed update s0 xs)"
    if "s \<in> set (map (feed update s0) xss)" for s
    using that i by (auto simp: inv_feed compat_feed)
  show ?thesis unfolding merge_shards_def using absorb_ok [OF inv_feed [OF i, of xs] shards] by blast
qed

end

section \<open>Sketches of weighted streams\<close>

text \<open>
  \<open>summ s t n\<close>: the sketch \<open>s\<close> is a valid summary of some weighted stream whose per-key
  totals are \<open>t\<close> and whose total weight is \<open>n\<close>.  An update and a merge keep it, as long as
  the total weight stays below \<open>2^64\<close>; so any way to cut a stream into shards, sketch the
  shards and merge gives a valid summary of the whole stream.
\<close>

locale weighted_summary =
  configured_sketch inv update merge_from reset update_count compatibility config
  for inv :: "'s \<Rightarrow> bool" and update merge_from reset update_count compatibility and config :: "'s \<Rightarrow> 'c" +
  fixes summ :: "'s \<Rightarrow> (bytes \<Rightarrow> nat) \<Rightarrow> nat \<Rightarrow> bool"
  assumes summ_inv: "summ s t n \<Longrightarrow> inv s"
    and summ_update: "summ s t n \<Longrightarrow> n + unat v < 2 ^ 64 \<Longrightarrow>
      summ (update s k v) (t(k := t k + unat v)) (n + unat v)"
    and summ_merge: "summ a t n \<Longrightarrow> summ b t' n' \<Longrightarrow> config a = config b \<Longrightarrow> n + n' < 2 ^ 64 \<Longrightarrow>
      merge_from a b = Inr c \<Longrightarrow> summ c (\<lambda>k. t k + t' k) (n + n')"
begin

lemma summ_feed:
  assumes "summ s t n" "n + weight xs < 2 ^ 64"
  shows "summ (feed update s xs) (\<lambda>k. t k + truth xs k) (n + weight xs)"
  using assms
proof (induction xs arbitrary: s t n)
  case (Cons x xs)
  obtain k v where x: "x = (k, v)" by (cases x)
  have "summ (update s k v) (t(k := t k + unat v)) (n + unat v)"
    using Cons.prems x by (intro summ_update) auto
  from Cons.IH [OF this] Cons.prems(2) x
  have "summ (feed update s ((k, v) # xs))
      (\<lambda>k'. (t(k := t k + unat v)) k' + truth xs k') (n + unat v + weight xs)" by simp
  moreover have "(\<lambda>k'. (t(k := t k + unat v)) k' + truth xs k') = (\<lambda>k'. t k' + truth ((k, v) # xs) k')"
    by auto
  ultimately show ?case by (simp only: x weight_simps add.assoc)
qed simp

lemma summ_absorb:
  assumes "summ a t n" "n + weight (concat xss) < 2 ^ 64" "summ s0 (\<lambda>_. 0) 0"
    and "config a = config s0"
    and "absorb merge_from (map (feed update s0) xss) a = Inr c"
  shows "summ c (\<lambda>k. t k + truth (concat xss) k) (n + weight (concat xss))"
  using assms
proof (induction xss arbitrary: a t n)
  case (Cons xs xss)
  then obtain b where b: "merge_from a (feed update s0 xs) = Inr b"
    and c: "absorb merge_from (map (feed update s0) xss) b = Inr c"
    by (auto simp: rbind_Inr_iff)
  have "summ (feed update s0 xs) (truth xs) (weight xs)"
    using summ_feed [OF Cons.prems(3), of xs] Cons.prems(2) by simp
  then have "summ b (\<lambda>k. t k + truth xs k) (n + weight xs)"
    using Cons.prems(1,2,4) b config_feed [OF summ_inv [OF Cons.prems(3)], of xs]
    by (intro summ_merge) auto
  moreover have "config b = config s0"
    using config_merge [OF summ_inv [OF Cons.prems(1)] inv_feed [OF summ_inv [OF Cons.prems(3)]] b]
      Cons.prems(4) by simp
  ultimately have "summ c (\<lambda>k. t k + truth xs k + truth (concat xss) k)
      (n + weight xs + weight (concat xss))"
    using Cons.prems(2) by (intro Cons.IH [OF _ _ Cons.prems(3) _ c]) simp_all
  then show ?case by (simp add: add.assoc)
qed simp

lemma summ_merge_shards:
  assumes "summ s0 (\<lambda>_. 0) 0" "weight (xs @ concat xss) < 2 ^ 64"
  shows "\<exists>c. merge_shards update merge_from s0 xs xss = Inr c
    \<and> summ c (truth (xs @ concat xss)) (weight (xs @ concat xss))"
proof -
  note i = summ_inv [OF assms(1)]
  obtain c where c: "merge_shards update merge_from s0 xs xss = Inr c"
    using merge_shards_ok [OF i] by blast
  have "summ (feed update s0 xs) (truth xs) (weight xs)"
    using summ_feed [OF assms(1), of xs] assms(2) by simp
  from summ_absorb [OF this _ assms(1) _ c [unfolded merge_shards_def]] assms(2) config_feed [OF i]
  have "summ c (\<lambda>k. truth xs k + truth (concat xss) k) (weight xs + weight (concat xss))" by simp
  moreover have "(\<lambda>k. truth xs k + truth (concat xss) k) = truth (xs @ concat xss)" by auto
  ultimately show ?thesis using c by auto
qed

end

section \<open>Sketches of sets of keys\<close>

text \<open>\<open>summ s A\<close>: the sketch \<open>s\<close> is a valid summary of the set \<open>A\<close> of keys; weights and
  repetitions do not matter.\<close>

locale set_summary =
  configured_sketch inv update merge_from reset update_count compatibility config
  for inv :: "'s \<Rightarrow> bool" and update merge_from reset update_count compatibility and config :: "'s \<Rightarrow> 'c" +
  fixes summ :: "'s \<Rightarrow> bytes set \<Rightarrow> bool"
  assumes summ_inv: "summ s A \<Longrightarrow> inv s"
    and summ_update: "summ s A \<Longrightarrow> summ (update s k v) (insert k A)"
    and summ_merge: "summ a A \<Longrightarrow> summ b B \<Longrightarrow> config a = config b \<Longrightarrow> merge_from a b = Inr c \<Longrightarrow>
      summ c (A \<union> B)"
begin

lemma summ_feed: "summ s A \<Longrightarrow> summ (feed update s xs) (A \<union> fst ` set xs)"
proof (induction xs arbitrary: s A)
  case (Cons x xs)
  obtain k v where x: "x = (k, v)" by (cases x)
  from Cons.IH [OF summ_update [OF Cons.prems, of k v]] show ?case by (simp add: x)
qed simp

lemma summ_absorb:
  assumes "summ a A" "summ s0 {}" "config a = config s0"
    and "absorb merge_from (map (feed update s0) xss) a = Inr c"
  shows "summ c (A \<union> fst ` set (concat xss))"
  using assms
proof (induction xss arbitrary: a A)
  case (Cons xs xss)
  then obtain b where b: "merge_from a (feed update s0 xs) = Inr b"
    and c: "absorb merge_from (map (feed update s0) xss) b = Inr c"
    by (auto simp: rbind_Inr_iff)
  note i = summ_inv [OF Cons.prems(2)]
  have "summ b (A \<union> fst ` set xs)"
    using Cons.prems(1,3) summ_feed [OF Cons.prems(2), of xs] b config_feed [OF i, of xs]
    by (intro summ_merge) auto
  moreover have "config b = config s0"
    using config_merge [OF summ_inv [OF Cons.prems(1)] inv_feed [OF i] b] Cons.prems(3) by simp
  ultimately have "summ c (A \<union> fst ` set xs \<union> fst ` set (concat xss))"
    using Cons.prems(2) by (intro Cons.IH [OF _ _ _ c]) simp_all
  then show ?case by (simp add: image_Un Un_assoc)
qed simp

lemma summ_merge_shards:
  assumes "summ s0 {}"
  shows "\<exists>c. merge_shards update merge_from s0 xs xss = Inr c \<and> summ c (fst ` set (xs @ concat xss))"
proof -
  note i = summ_inv [OF assms]
  obtain c where c: "merge_shards update merge_from s0 xs xss = Inr c"
    using merge_shards_ok [OF i] by blast
  have "summ (feed update s0 xs) (fst ` set xs)" using summ_feed [OF assms, of xs] by simp
  from summ_absorb [OF this assms config_feed [OF i] c [unfolded merge_shards_def]] c
  show ?thesis by (simp add: image_Un)
qed

end

section \<open>Snapshot codecs\<close>

text \<open>A sketch that can be shipped between nodes: decoding an encoded sketch gives it back.\<close>

locale snapshot_codec =
  fixes wf :: "'s \<Rightarrow> bool"
    and encode :: "'s \<Rightarrow> u64 \<Rightarrow> u64 \<Rightarrow> bytes"
    and decode :: "bytes \<Rightarrow> 's result"
  assumes decode_encode: "wf s \<Longrightarrow> decode (encode s ws we) = Inr s"
begin

lemma encode_inj: "wf s \<Longrightarrow> wf s' \<Longrightarrow> encode s ws we = encode s' ws we \<Longrightarrow> s = s'"
  using decode_encode by (metis sum.inject(2))

lemma merge_all_encoded:
  assumes "wf s" "\<And>t. t \<in> set ss \<Longrightarrow> wf t"
  shows "merge_all decode mrg (encode s ws we # map (\<lambda>t. encode t ws we) ss) = absorb mrg ss s"
proof -
  have "merge_rest decode mrg (map (\<lambda>t. encode t ws we) ss) a = absorb mrg ss a" for a
    using assms(2) by (induction ss arbitrary: a) (auto simp: decode_encode intro!: arg_cong [where f = "rbind _"])
  then show ?thesis using assms(1) by (simp add: merge_all_def decode_encode)
qed

lemma merge_all_shards:
  assumes "\<And>ys. ys \<in> set (xs # xss) \<Longrightarrow> wf (feed upd s0 ys)"
  shows "merge_all decode mrg (map (\<lambda>ys. encode (feed upd s0 ys) ws we) (xs # xss))
    = merge_shards upd mrg s0 xs xss"
proof -
  have "merge_all decode mrg (encode (feed upd s0 xs) ws we # map (\<lambda>t. encode t ws we) (map (feed upd s0) xss))
      = absorb mrg (map (feed upd s0) xss) (feed upd s0 xs)"
    using assms by (intro merge_all_encoded) auto
  then show ?thesis by (simp add: merge_shards_def comp_def)
qed

end

end
