(* ===== verification/HashMaps.thy ===== *)
theory HashMaps
  imports Prelude "HOL-Library.AList"
begin

text \<open>
  \<^verbatim>\<open>std::collections::HashMap\<close> as an association list with distinct keys.  The list
  order stands for the (unspecified) iteration order; results that depend on it are only ever
  stated up to \<open>map_of\<close>.  Also the generic facts on counter maps and on sorting that the
  frequency sketches share.
\<close>

section \<open>Operations\<close>

type_synonym 'v hmap = "(bytes \<times> 'v) list"

definition hm_get :: "('k \<times> 'v) list \<Rightarrow> 'k \<Rightarrow> 'v option" where
  "hm_get m k = map_of m k"

definition hm_insert :: "'k \<Rightarrow> 'v \<Rightarrow> ('k \<times> 'v) list \<Rightarrow> ('k \<times> 'v) list" where
  "hm_insert k v m = AList.update k v m"

definition hm_remove :: "'k \<Rightarrow> ('k \<times> 'v) list \<Rightarrow> ('k \<times> 'v) list" where
  "hm_remove k m = filter (\<lambda>(k', _). k' \<noteq> k) m"

text \<open>\<^verbatim>\<open>*m.entry(k).or_insert(0) += v\<close>\<close>

definition hm_add :: "bytes \<Rightarrow> u64 \<Rightarrow> u64 hmap \<Rightarrow> u64 hmap" where
  "hm_add k v m = hm_insert k ((case hm_get m k of None \<Rightarrow> 0 | Some c \<Rightarrow> c) + v) m"

text \<open>\<^verbatim>\<open>retain\<close> with a body that first rewrites the value.\<close>

definition hm_retain :: "('v \<Rightarrow> 'v) \<Rightarrow> ('v \<Rightarrow> bool) \<Rightarrow> 'v hmap \<Rightarrow> 'v hmap" where
  "hm_retain f keep m = filter (\<lambda>(_, c). keep c) (map (\<lambda>(k, c). (k, f c)) m)"

text \<open>\<^verbatim>\<open>sort_by(|a, b| b.1.cmp(&a.1).then_with(|| a.0.cmp(&b.0)))\<close>: by count, largest
  first, ties by key.\<close>

definition sort_by_count :: "u64 hmap \<Rightarrow> u64 hmap" where
  "sort_by_count m = sort_key (\<lambda>(k, c). (- uint c, k)) m"

text \<open>The invariant: no key twice.\<close>

definition hm_ok :: "('k \<times> 'v) list \<Rightarrow> bool" where
  "hm_ok m \<longleftrightarrow> distinct (map fst m)"

section \<open>Lookup laws\<close>

lemma hm_get_insert [simp]: "hm_get (hm_insert k v m) k' = (if k' = k then Some v else hm_get m k')"
  by (simp add: hm_get_def hm_insert_def update_conv')

lemma hm_get_remove [simp]: "hm_get (hm_remove k m) k' = (if k' = k then None else hm_get m k')"
  unfolding hm_get_def hm_remove_def by (induction m) auto

lemma hm_get_Nil [simp]: "hm_get [] k = None"
  by (simp add: hm_get_def)

lemma hm_ok_Nil [simp]: "hm_ok []"
  by (simp add: hm_ok_def)

lemma hm_ok_Cons: "hm_ok ((k, v) # m) \<longleftrightarrow> k \<notin> fst ` set m \<and> hm_ok m"
  by (simp add: hm_ok_def)

lemma hm_ok_insert [simp]: "hm_ok m \<Longrightarrow> hm_ok (hm_insert k v m)"
  unfolding hm_ok_def hm_insert_def by (rule distinct_update)

lemma hm_ok_remove [simp]: "hm_ok m \<Longrightarrow> hm_ok (hm_remove k m)"
  by (induction m) (auto simp: hm_ok_def hm_remove_def)

lemma hm_ok_add [simp]: "hm_ok m \<Longrightarrow> hm_ok (hm_add k v m)"
  by (simp add: hm_add_def)

lemma hm_ok_filter: "hm_ok m \<Longrightarrow> hm_ok (filter P m)"
  by (induction m) (auto simp: hm_ok_def)

lemma hm_ok_retain [simp]: "hm_ok m \<Longrightarrow> hm_ok (hm_retain f p m)"
  unfolding hm_retain_def
  by (rule hm_ok_filter) (simp add: hm_ok_def comp_def case_prod_beta')

lemma length_update: "length (AList.update k v m) = (if map_of m k = None then Suc (length m) else length m)"
  by (induction m) auto

lemma hm_length_insert:
  "length (hm_insert k v m) = (if hm_get m k = None then Suc (length m) else length m)"
  by (simp add: hm_get_def hm_insert_def length_update)

lemma hm_length_retain: "length (hm_retain f p m) \<le> length m"
  unfolding hm_retain_def using length_filter_le by (rule order_trans) simp

lemma hm_get_mem: "hm_get m k = Some v \<Longrightarrow> (k, v) \<in> set m"
  unfolding hm_get_def by (rule map_of_SomeD)

lemma hm_mem_get: "hm_ok m \<Longrightarrow> (k, v) \<in> set m \<Longrightarrow> hm_get m k = Some v"
  by (simp add: hm_get_def hm_ok_def)

lemma hm_get_retain:
  "hm_ok m \<Longrightarrow> hm_get (hm_retain f p m) k =
     (case hm_get m k of None \<Rightarrow> None | Some c \<Rightarrow> if p (f c) then Some (f c) else None)"
proof (induction m)
  case (Cons x m)
  obtain k' c where x: "x = (k', c)" by (cases x)
  have "k' \<notin> fst ` set m" using Cons.prems x by (simp add: hm_ok_def)
  then have "map_of (filter (\<lambda>(_, c). p c) (map (\<lambda>(k, c). (k, f c)) m)) k' = None" "map_of m k' = None"
    by (force simp: map_of_eq_None_iff)+
  then show ?case using Cons x by (auto simp: hm_get_def hm_ok_def hm_retain_def)
qed (simp add: hm_retain_def)

lemma hm_get_sort_key: "hm_ok m \<Longrightarrow> hm_get (sort_key f m) k = hm_get m k"
proof -
  assume ok: "hm_ok m"
  have "distinct (map fst (sort_key f m)) = distinct (map fst m)"
    using distinct_map distinct_sort set_sort by metis
  then have "hm_ok (sort_key f m)" using ok by (simp add: hm_ok_def)
  then show ?thesis using ok unfolding hm_get_def hm_ok_def
    by (metis map_of_eq_None_iff map_of_eq_Some_iff not_None_eq set_map set_sort)
qed

lemma hm_ok_sort_key: "hm_ok (sort_key f m) = hm_ok m"
  unfolding hm_ok_def using distinct_map distinct_sort set_sort by metis

lemma hm_insert_new: "k \<notin> fst ` set m \<Longrightarrow> hm_insert k v m = m @ [(k, v)]"
  unfolding hm_insert_def by (induction m) auto

lemma fold_hm_insert:
  "hm_ok (m @ es) \<Longrightarrow> fold (\<lambda>(k, c). hm_insert k c) es m = m @ es"
proof (induction es arbitrary: m)
  case (Cons e es)
  then show ?case by (cases e) (auto simp: hm_ok_def hm_insert_new)
qed simp

lemma hm_ok_fold_insert: "hm_ok m \<Longrightarrow> hm_ok (fold (\<lambda>(k, c). hm_insert k c) es m)"
  by (induction es arbitrary: m) auto

lemma length_fold_hm_insert: "length (fold (\<lambda>(k, c). hm_insert k c) es m) \<le> length m + length es"
proof (induction es arbitrary: m)
  case (Cons e es)
  obtain k c where e: "e = (k, c)" by (cases e)
  show ?case using Cons [of "hm_insert k c m"] by (simp add: e hm_length_insert split: if_splits)
qed simp

text \<open>The entries in key order, the canonical form in which maps are serialised.\<close>

definition hm_sorted :: "'v hmap \<Rightarrow> 'v hmap" where
  "hm_sorted m = map (\<lambda>k. (k, the (hm_get m k))) (sort (map fst m))"

lemma length_hm_sorted [simp]: "length (hm_sorted m) = length m"
  by (simp add: hm_sorted_def)

lemma hm_ok_sorted [simp]: "hm_ok m \<Longrightarrow> hm_ok (hm_sorted m)"
  by (simp add: hm_sorted_def hm_ok_def comp_def)

lemma hm_get_sorted [simp]: "hm_ok m \<Longrightarrow> hm_get (hm_sorted m) k = hm_get m k"
proof (cases "hm_get m k")
  case None
  then have "k \<notin> set (map fst (hm_sorted m))"
    by (simp add: hm_sorted_def hm_get_def map_of_eq_None_iff comp_def)
  then have "hm_get (hm_sorted m) k = None" unfolding hm_get_def map_of_eq_None_iff by simp
  then show ?thesis using None by simp
next
  case (Some v)
  assume ok: "hm_ok m"
  have "(k, v) \<in> set (hm_sorted m)" using hm_get_mem [OF Some] Some by (force simp: hm_sorted_def)
  then show ?thesis using hm_mem_get [OF hm_ok_sorted [OF ok]] Some by simp
qed

section \<open>Counter maps\<close>

definition hm_val :: "u64 hmap \<Rightarrow> bytes \<Rightarrow> nat" where
  "hm_val m k = (case hm_get m k of None \<Rightarrow> 0 | Some c \<Rightarrow> unat c)"

definition hm_sum :: "u64 hmap \<Rightarrow> nat" where
  "hm_sum m = sum_list (map (\<lambda>(k, c). unat c) m)"

lemma hm_sum_simps [simp]: "hm_sum [] = 0" "hm_sum ((k, c) # m) = unat c + hm_sum m"
  by (simp_all add: hm_sum_def)

lemma hm_val_Nil [simp]: "hm_val [] k = 0"
  by (simp add: hm_val_def)

lemma hm_val_Cons: "hm_val ((k', c) # m) k = (if k' = k then unat c else hm_val m k)"
  by (simp add: hm_val_def hm_get_def)

lemma hm_val_insert [simp]: "hm_val (hm_insert k v m) k' = (if k' = k then unat v else hm_val m k')"
  by (simp add: hm_val_def)

lemma hm_val_le_sum: "hm_val m k \<le> hm_sum m"
  by (induction m) (auto simp: hm_val_Cons intro: trans_le_add2)

lemma hm_sum_insert: "hm_ok m \<Longrightarrow> hm_sum (hm_insert k v m) + hm_val m k = hm_sum m + unat v"
proof (induction m)
  case (Cons x m)
  then show ?case by (cases x) (auto simp: hm_insert_def hm_val_Cons hm_ok_def)
qed (simp add: hm_insert_def)

lemma hm_add_exact:
  assumes "hm_ok m" "hm_sum m + unat v < 2 ^ 64"
  shows "hm_val (hm_add k v m) = (hm_val m)(k := hm_val m k + unat v)"
    and "hm_sum (hm_add k v m) = hm_sum m + unat v"
proof -
  let ?c = "case hm_get m k of None \<Rightarrow> 0 | Some c \<Rightarrow> c"
  have "unat ?c = hm_val m k" by (simp add: hm_val_def split: option.split)
  moreover have "hm_val m k \<le> hm_sum m" by (rule hm_val_le_sum)
  ultimately have v: "unat (?c + v) = hm_val m k + unat v"
    using assms(2) by (simp add: u64_add_exact)
  then show "hm_val (hm_add k v m) = (hm_val m)(k := hm_val m k + unat v)"
    by (auto simp: hm_add_def)
  show "hm_sum (hm_add k v m) = hm_sum m + unat v"
    using hm_sum_insert [OF assms(1), of k "?c + v"] v by (simp add: hm_add_def)
qed

text \<open>\<^verbatim>\<open>for (k, &c) in &other { *self.entry(k).or_insert(0) += c }\<close>\<close>

definition hm_add_all :: "u64 hmap \<Rightarrow> u64 hmap \<Rightarrow> u64 hmap" where
  "hm_add_all other m = fold (\<lambda>(k, c). hm_add k c) other m"

lemma hm_add_all_exact:
  assumes "hm_ok m" "hm_ok other" "hm_sum m + hm_sum other < 2 ^ 64"
  shows "hm_ok (hm_add_all other m)"
    and "hm_val (hm_add_all other m) k = hm_val m k + hm_val other k"
    and "hm_sum (hm_add_all other m) = hm_sum m + hm_sum other"
proof -
  have "hm_ok (hm_add_all other m) \<and> (\<forall>k. hm_val (hm_add_all other m) k = hm_val m k + hm_val other k)
      \<and> hm_sum (hm_add_all other m) = hm_sum m + hm_sum other"
    using assms
  proof (induction other arbitrary: m)
    case (Cons x other)
    obtain k v where x: "x = (k, v)" by (cases x)
    have ok: "hm_ok (hm_add k v m)" "hm_ok other" "hm_sum m + unat v < 2 ^ 64"
      using Cons.prems x by (simp_all add: hm_ok_Cons)
    have s: "hm_val (hm_add k v m) = (hm_val m)(k := hm_val m k + unat v)"
      "hm_sum (hm_add k v m) = hm_sum m + unat v"
      using hm_add_exact Cons.prems(1) ok(3) by blast+
    have "k \<notin> fst ` set other" using Cons.prems(2) x by (simp add: hm_ok_def)
    then have "hm_get other k = None" by (simp add: hm_get_def map_of_eq_None_iff)
    then have k: "hm_val other k = 0" by (simp add: hm_val_def)
    have "hm_sum (hm_add k v m) + hm_sum other < 2 ^ 64" using Cons.prems(3) x s by simp
    from Cons.IH [OF ok(1,2) this] show ?case
      using s x k by (auto simp: hm_add_all_def hm_val_Cons)
  qed (simp add: hm_add_all_def)
  then show "hm_ok (hm_add_all other m)"
    "hm_val (hm_add_all other m) k = hm_val m k + hm_val other k"
    "hm_sum (hm_add_all other m) = hm_sum m + hm_sum other" by auto
qed

lemma hm_ok_add_all: "hm_ok m \<Longrightarrow> hm_ok (hm_add_all other m)"
  unfolding hm_add_all_def by (induction other arbitrary: m) auto

section \<open>Order statistics\<close>

lemma sum_list_sort: "sum_list (map f (sort xs)) = sum_list (map f xs)" for f :: "'a::linorder \<Rightarrow> nat"
proof -
  have "sum_list (map f (insort x ys)) = f x + sum_list (map f ys)" for x ys
    by (induction ys) auto
  then show ?thesis by (induction xs) auto
qed

text \<open>With \<open>d\<close> the \<open>e\<close>-th smallest of the list (from 0): more than \<open>e\<close> elements are at most
  \<open>d\<close>, and capping every element at \<open>d\<close> still leaves \<open>d\<close> for each of the others.\<close>

lemma nth_smallest:
  fixes xs :: "u64 list"
  assumes "e < length xs" and d: "d = sort xs ! e"
  shows "length (filter (\<lambda>c. d < c) xs) \<le> length xs - Suc e"
    and "(length xs - e) * unat d \<le> sum_list (map (\<lambda>c. unat (min c d)) xs)"
proof -
  let ?s = "sort xs"
  have split: "?s = take e ?s @ drop e ?s" by simp
  have lo: "\<not> d < c" if mem: "c \<in> set (take (Suc e) ?s)" for c
  proof -
    obtain i where "i < length (take (Suc e) ?s)" "c = take (Suc e) ?s ! i"
      using mem unfolding in_set_conv_nth by blast
    then have "i \<le> e" "i < length ?s" "c = ?s ! i" by simp_all
    then have "c \<le> ?s ! e" using assms(1) by (auto intro!: sorted_nth_mono)
    then show ?thesis using d by simp
  qed
  have hi: "d \<le> c" if mem: "c \<in> set (drop e ?s)" for c
  proof -
    obtain i where "i < length ?s - e" "c = ?s ! (e + i)"
      using mem by (auto simp: in_set_conv_nth)
    then show ?thesis using d assms(1) by (auto intro!: sorted_nth_mono)
  qed
  have "length (filter (\<lambda>c. d < c) xs) = length (filter (\<lambda>c. d < c) ?s)"
    by (simp add: filter_sort)
  also have "\<dots> = length (filter (\<lambda>c. d < c) (take (Suc e) ?s)) + length (filter (\<lambda>c. d < c) (drop (Suc e) ?s))"
    by (metis append_take_drop_id filter_append length_append)
  also have "filter (\<lambda>c. d < c) (take (Suc e) ?s) = []" using lo by (simp add: filter_empty_conv)
  finally show "length (filter (\<lambda>c. d < c) xs) \<le> length xs - Suc e"
    using length_filter_le [of "\<lambda>c. d < c" "drop (Suc e) ?s"] by simp
  have "(length xs - e) * unat d = sum_list (map (\<lambda>_. unat d) (drop e ?s))"
    by (simp add: sum_list_triv)
  also have "\<dots> \<le> sum_list (map (\<lambda>c. unat (min c d)) (drop e ?s))"
    by (rule sum_list_mono) (use hi in \<open>simp add: min_absorb2\<close>)
  also have "\<dots> \<le> sum_list (map (\<lambda>c. unat (min c d)) ?s)"
    using sum_list_append [of "map (\<lambda>c. unat (min c d)) (take e ?s)" "map (\<lambda>c. unat (min c d)) (drop e ?s)"]
    unfolding map_append [symmetric] append_take_drop_id by linarith
  also have "\<dots> = sum_list (map (\<lambda>c. unat (min c d)) xs)" by (rule sum_list_sort)
  finally show "(length xs - e) * unat d \<le> sum_list (map (\<lambda>c. unat (min c d)) xs)" .
qed

end
