(* ===== verification/MisraGries.thy ===== *)
theory MisraGries
  imports SketchTrait HashMaps
begin

text \<open>
  \<^verbatim>\<open>flowsketch-algos/src/misra_gries.rs\<close>: the Misra-Gries frequent-items summary.  The
  counters are a hash map (an association list, see \<open>HashMaps\<close>); the trimming loop of a merge
  is a terminating recursion.  \<^verbatim>\<open>epsilon\<close> (floating point) and
  \<^verbatim>\<open>memory_bytes\<close> are not modelled.
\<close>

section \<open>Definitions\<close>

record misra_gries =
  mg_capacity :: nat
  mg_hash :: hash_spec
  mg_counters :: "u64 hmap"
  mg_total_weight :: u64
  mg_updates :: u64

definition mg_new :: "nat \<Rightarrow> hash_spec \<Rightarrow> misra_gries result" where
  "mg_new capacity hash =
     (if capacity = 0 then Inl (InvalidParam ''misra-gries capacity must be positive'')
      else Inr \<lparr>mg_capacity = capacity, mg_hash = hash, mg_counters = [],
                mg_total_weight = 0, mg_updates = 0\<rparr>)"

text \<open>The counters after \<^verbatim>\<open>add\<close>.  \<open>sort ... ! 0\<close> is the iterator's minimum; it exists
  because the branch is reached with \<^verbatim>\<open>capacity\<close> many counters.\<close>

definition mg_add_counters :: "nat \<Rightarrow> u64 hmap \<Rightarrow> bytes \<Rightarrow> u64 \<Rightarrow> u64 hmap" where
  "mg_add_counters capacity counters key w =
     (case hm_get counters key of
        Some c \<Rightarrow> hm_insert key (c + w) counters
      | None \<Rightarrow>
          if length counters < capacity then hm_insert key w counters
          else let mn = sort (map snd counters) ! 0;
                   dec = min mn w;
                   kept = hm_retain (\<lambda>c. c - dec) (\<lambda>c. 0 < c) counters;
                   leftover = w - dec
               in if 0 < leftover \<and> length kept < capacity then hm_insert key leftover kept else kept)"

definition mg_add :: "misra_gries \<Rightarrow> bytes \<Rightarrow> u64 \<Rightarrow> misra_gries" where
  "mg_add s key w =
     s\<lparr>mg_total_weight := mg_total_weight s + w, mg_updates := mg_updates s + 1,
       mg_counters := mg_add_counters (mg_capacity s) (mg_counters s) key w\<rparr>"

definition mg_get :: "misra_gries \<Rightarrow> bytes \<Rightarrow> u64 option" where
  "mg_get s key = hm_get (mg_counters s) key"

definition mg_candidates :: "misra_gries \<Rightarrow> (bytes \<times> u64) list" where
  "mg_candidates s = sort_by_count (mg_counters s)"

text \<open>One iteration of \<^verbatim>\<open>trim_to_capacity\<close>.\<close>

definition mg_trim_step :: "nat \<Rightarrow> u64 hmap \<Rightarrow> u64 hmap" where
  "mg_trim_step capacity counters =
     (let excess = length counters - capacity;
          dec = sort (map snd counters) ! (excess - 1)
      in hm_retain (\<lambda>c. c - min c dec) (\<lambda>c. 0 < c) counters)"

lemma unat_minus_min: "unat (c - min c d) = unat c - unat d" for c d :: u64
proof (cases "d \<le> c")
  case True
  then show ?thesis by (simp add: min_absorb2 unat_sub)
next
  case False
  then have "c \<le> d" by simp
  then show ?thesis by (simp add: min_absorb1 word_le_nat_alt)
qed

lemma minus_min_pos: "0 < c - min c d \<longleftrightarrow> d < c" for c d :: u64
  using unat_minus_min [of c d] by (simp add: word_less_nat_alt)

lemma mg_retain_min:
  "hm_retain (\<lambda>c. c - min c d) (\<lambda>c. 0 < c) m = map (\<lambda>(k, c). (k, c - d)) (filter (\<lambda>(_, c). d < c) m)"
  for d :: u64
  unfolding hm_retain_def
  by (induction m) (auto simp: minus_min_pos min_absorb2, auto simp: word_gt_0)

lemma length_mg_trim_step:
  assumes "capacity < length counters"
  shows "length (mg_trim_step capacity counters) \<le> capacity"
proof -
  let ?xs = "map snd counters" and ?e = "length counters - capacity - 1"
  have "length (mg_trim_step capacity counters) = length (filter (\<lambda>c. sort ?xs ! ?e < c) ?xs)"
    by (simp add: mg_trim_step_def Let_def mg_retain_min filter_map comp_def case_prod_beta')
  also have "\<dots> \<le> length ?xs - Suc ?e" using assms by (intro nth_smallest(1)) simp_all
  finally show ?thesis using assms by simp
qed

function mg_trim_to_capacity :: "nat \<Rightarrow> u64 hmap \<Rightarrow> u64 hmap" where
  "mg_trim_to_capacity capacity counters =
     (if capacity < length counters
      then mg_trim_to_capacity capacity (mg_trim_step capacity counters)
      else counters)"
  by auto

termination
proof (relation "measure (\<lambda>(_, counters). length counters)")
  show "((capacity, mg_trim_step capacity counters), (capacity, counters))
      \<in> measure (\<lambda>(_, counters). length counters)" if "capacity < length counters" for capacity and counters :: "u64 hmap"
    using length_mg_trim_step [OF that] that by simp
qed simp

declare mg_trim_to_capacity.simps [simp del]

definition mg_params_hash :: "misra_gries \<Rightarrow> u64" where
  "mg_params_hash s = hash64 (le_bytes 8 (word_of_nat (mg_capacity s) :: u64)) 0"

definition mg_compatibility :: "misra_gries \<Rightarrow> sketch_compatibility" where
  "mg_compatibility s = \<lparr>sc_algorithm = ''misra-gries'', sc_version = 1, sc_hash = mg_hash s,
     sc_params_hash = mg_params_hash s\<rparr>"

definition mg_merge_from :: "misra_gries \<Rightarrow> misra_gries \<Rightarrow> misra_gries result" where
  "mg_merge_from s other =
     rbind (ensure_matches (mg_compatibility s) (mg_compatibility other)) (\<lambda>_.
       Inr (s\<lparr>mg_counters := mg_trim_to_capacity (mg_capacity s)
                (hm_add_all (mg_counters other) (mg_counters s)),
              mg_total_weight := mg_total_weight s + mg_total_weight other,
              mg_updates := mg_updates s + mg_updates other\<rparr>))"

definition mg_reset :: "misra_gries \<Rightarrow> misra_gries" where
  "mg_reset s = s\<lparr>mg_counters := [], mg_total_weight := 0, mg_updates := 0\<rparr>"

definition mg_to_snapshot :: "misra_gries \<Rightarrow> u64 \<Rightarrow> u64 \<Rightarrow> bytes" where
  "mg_to_snapshot s ws we =
     (let keys = sort (map fst (mg_counters s)) in
      write_snapshot \<lparr>sh_version = SNAPSHOT_VERSION, sh_algorithm_id = MISRA_GRIES,
         sh_hash = mg_hash s, sh_window_start_nanos = ws, sh_window_end_nanos = we\<rparr>
       (wr_u64 (word_of_nat (mg_capacity s)))
       (wr_u64 (mg_total_weight s) @ wr_u64 (mg_updates s)
        @ wr_u32 (word_of_nat (length (mg_counters s)))
        @ concat (map (\<lambda>k. wr_lp_bytes k @ wr_u64 (the (hm_get (mg_counters s) k))) keys)))"

text \<open>The loop body of the decoder: a length-prefixed key and its count.\<close>

definition rd_counter :: "reader \<Rightarrow> ((bytes \<times> u64) \<times> reader) result" where
  "rd_counter r = rbind (rd_lp_bytes r) (\<lambda>(key, r). rbind (rd_u64 r) (\<lambda>(c, r). Inr ((key, c), r)))"

text \<open>\<^verbatim>\<open>usize::try_from\<close> cannot fail on a 64-bit platform.\<close>

definition mg_from_snapshot :: "bytes \<Rightarrow> misra_gries result" where
  "mg_from_snapshot bs =
     rbind (read_snapshot bs) (\<lambda>(header, params, payload).
     if sh_algorithm_id header \<noteq> MISRA_GRIES then Inl (Snapshot ''not a misra-gries snapshot'') else
     rbind (rd_u64 (Reader_new params)) (\<lambda>(encoded_capacity, p).
     let capacity = unat encoded_capacity in
     if capacity = 0 then Inl (Snapshot ''misra-gries snapshot capacity must be positive'') else
     rbind (rd_u64 (Reader_new payload)) (\<lambda>(total_weight, r).
     rbind (rd_u64 r) (\<lambda>(updates, r).
     rbind (rd_u32 r) (\<lambda>(n, r).
     if capacity < unat n then Inl (Snapshot ''misra-gries snapshot counter count exceeds capacity'') else
     rbind (rd_check_count (unat n) (4 + 8) r) (\<lambda>_.
     rbind (rd_many rd_counter (unat n) r) (\<lambda>(entries, r).
     Inr \<lparr>mg_capacity = capacity, mg_hash = sh_hash header,
          mg_counters = fold (\<lambda>(k, c). hm_insert k c) entries [],
          mg_total_weight = total_weight, mg_updates = updates\<rparr>)))))))"

section \<open>Invariant\<close>

definition mg_inv :: "misra_gries \<Rightarrow> bool" where
  "mg_inv s \<longleftrightarrow> 0 < mg_capacity s \<and> hm_ok (mg_counters s) \<and> length (mg_counters s) \<le> mg_capacity s"

definition mg_config :: "misra_gries \<Rightarrow> nat \<times> hash_spec" where
  "mg_config s = (mg_capacity s, mg_hash s)"

lemma mg_add_counters_ok:
  assumes "hm_ok m" "length m \<le> cap"
  shows "hm_ok (mg_add_counters cap m k w) \<and> length (mg_add_counters cap m k w) \<le> cap"
  using assms hm_length_retain [of "\<lambda>c. c - min (sort (map snd m) ! 0) w" "\<lambda>c. 0 < c" m]
  by (auto simp: mg_add_counters_def Let_def hm_length_insert split: option.splits)

lemma mg_trim_step_ok: "hm_ok m \<Longrightarrow> hm_ok (mg_trim_step cap m)"
  by (simp add: mg_trim_step_def Let_def)

text \<open>One pass always suffices, so the loop is a conditional.\<close>

lemma mg_trim_once:
  "mg_trim_to_capacity cap m = (if cap < length m then mg_trim_step cap m else m)"
  using length_mg_trim_step [of cap m]
  by (subst mg_trim_to_capacity.simps) (auto simp: mg_trim_to_capacity.simps [of _ "mg_trim_step cap m"])

lemma mg_inv_add [fs_inv]: "mg_inv s \<Longrightarrow> mg_inv (mg_add s k w)"
  using mg_add_counters_ok [of "mg_counters s" "mg_capacity s" k w] by (simp add: mg_inv_def mg_add_def)

lemma mg_merge_cases:
  assumes "mg_merge_from a b = Inr c"
  shows "mg_compatibility a = mg_compatibility b" "mg_config c = mg_config a"
    "mg_counters c = mg_trim_to_capacity (mg_capacity a) (hm_add_all (mg_counters b) (mg_counters a))"
    "mg_total_weight c = mg_total_weight a + mg_total_weight b" "mg_updates c = mg_updates a + mg_updates b"
  using assms by (auto simp: mg_merge_from_def rbind_Inr_iff mg_config_def)

lemma mg_inv_merge [fs_inv]: "mg_inv a \<Longrightarrow> mg_merge_from a b = Inr c \<Longrightarrow> mg_inv c"
  using mg_merge_cases(2,3) [of a b c] length_mg_trim_step [of "mg_capacity a"]
  by (auto simp: mg_inv_def mg_config_def mg_trim_once hm_ok_add_all mg_trim_step_ok)

section \<open>Accuracy\<close>

text \<open>The counters are a valid summary of a stream with per-key totals \<open>t\<close> and weight \<open>n\<close>:
  they never exceed the truth, and \<open>capacity + 1\<close> times the deficit of any key is covered by
  the weight that is not in the counters.\<close>

definition mg_bound :: "nat \<Rightarrow> u64 hmap \<Rightarrow> (bytes \<Rightarrow> nat) \<Rightarrow> nat \<Rightarrow> bool" where
  "mg_bound cap m t n \<longleftrightarrow> hm_sum m \<le> n
     \<and> (\<forall>k. hm_val m k \<le> t k \<and> (cap + 1) * t k + hm_sum m \<le> n + (cap + 1) * hm_val m k)"

definition mg_summ :: "misra_gries \<Rightarrow> (bytes \<Rightarrow> nat) \<Rightarrow> nat \<Rightarrow> bool" where
  "mg_summ s t n \<longleftrightarrow> mg_inv s \<and> unat (mg_total_weight s) = n
     \<and> mg_bound (mg_capacity s) (mg_counters s) t n"

text \<open>Subtracting \<open>d\<close> from every counter and dropping the ones that reach zero.\<close>

lemma hm_retain_capped:
  fixes d :: u64
  assumes "hm_ok m"
  defines "m' \<equiv> hm_retain (\<lambda>c. c - min c d) (\<lambda>c. 0 < c) m"
  shows "hm_val m' k = hm_val m k - unat d"
    and "hm_sum m' + sum_list (map (\<lambda>c. unat (min c d)) (map snd m)) = hm_sum m"
proof -
  have pos: "0 < c - min c d \<longleftrightarrow> 0 < unat c - unat d" for c
    using unat_minus_min [of c d] by (simp add: word_less_nat_alt)
  show "hm_val m' k = hm_val m k - unat d"
    unfolding m'_def hm_val_def hm_get_retain [OF assms(1)] pos
    by (auto simp: unat_minus_min split: option.splits)
  have "unat c - unat d + unat (min c d) = unat c" for c by (simp add: word_min_unat)
  then have "hm_sum (hm_retain (\<lambda>c. c - min c d) (\<lambda>c. 0 < c) m) + sum_list (map (\<lambda>c. unat (min c d)) (map snd m)) = hm_sum m"
  proof (induction m)
    case (Cons x m)
    obtain k c where x: "x = (k, c)" by (cases x)
    have IH: "hm_sum (hm_retain (\<lambda>c. c - min c d) (\<lambda>c. 0 < c) m) + sum_list (map (\<lambda>c. unat (min c d)) (map snd m)) = hm_sum m"
      using Cons by blast
    have c: "unat c - unat d + unat (min c d) = unat c" using Cons.prems .
    have "hm_sum (hm_retain (\<lambda>c. c - min c d) (\<lambda>c. 0 < c) (x # m))
        = (unat c - unat d) + hm_sum (hm_retain (\<lambda>c. c - min c d) (\<lambda>c. 0 < c) m)"
      using pos [of c] by (auto simp: x hm_retain_def unat_minus_min)
    then show ?case using IH c x by simp
  qed (simp add: hm_retain_def)
  then show "hm_sum m' + sum_list (map (\<lambda>c. unat (min c d)) (map snd m)) = hm_sum m"
    unfolding m'_def .
qed

lemma mg_bound_decrement:
  assumes b: "mg_bound cap m t n" and ok: "hm_ok m"
    and dec: "(cap + 1) * unat d \<le> sum_list (map (\<lambda>c. unat (min c d)) (map snd m)) + x"
    and v: "\<And>k. hm_val m' k = hm_val m k - unat d"
    and s: "hm_sum m' + sum_list (map (\<lambda>c. unat (min c d)) (map snd m)) = hm_sum m"
  shows "hm_sum m' \<le> n" "hm_val m' k \<le> t k"
    "(cap + 1) * t k + hm_sum m' \<le> n + x + (cap + 1) * hm_val m' k"
proof -
  have b': "hm_sum m \<le> n" "hm_val m k \<le> t k" "(cap + 1) * t k + hm_sum m \<le> n + (cap + 1) * hm_val m k"
    using b unfolding mg_bound_def by blast+
  show "hm_sum m' \<le> n" "hm_val m' k \<le> t k" using b' v s by simp_all
  have "hm_val m k \<le> hm_val m' k + unat d" using v [of k] by simp
  then have "(cap + 1) * hm_val m k \<le> (cap + 1) * hm_val m' k + (cap + 1) * unat d"
    by (metis add_mult_distrib2 mult_le_mono2)
  then show "(cap + 1) * t k + hm_sum m' \<le> n + x + (cap + 1) * hm_val m' k"
    using b'(3) s dec by linarith
qed

lemma mg_bound_trim:
  assumes b: "mg_bound cap m t n" and ok: "hm_ok m"
  shows "mg_bound cap (mg_trim_to_capacity cap m) t n"
proof (cases "cap < length m")
  case True
  let ?e = "length m - Suc cap"
  define d where "d = sort (map snd m) ! ?e"
  have "(length (map snd m) - ?e) * unat d \<le> sum_list (map (\<lambda>c. unat (min c d)) (map snd m))"
    using True by (intro nth_smallest(2)) (simp_all add: d_def)
  then have "(cap + 1) * unat d \<le> sum_list (map (\<lambda>c. unat (min c d)) (map snd m)) + 0"
    using True by (simp add: Suc_diff_le)
  from mg_bound_decrement [OF b ok this hm_retain_capped [OF ok]] True
  show ?thesis by (simp add: mg_trim_once mg_trim_step_def d_def [symmetric] mg_bound_def)
next
  case False
  then show ?thesis using b by (simp add: mg_trim_once)
qed

lemma mg_bound_insert:
  assumes "mg_bound cap m t n" "hm_ok m" "unat v = hm_val m k + unat w"
  shows "mg_bound cap (hm_insert k v m) (t(k := t k + unat w)) (n + unat w)"
proof -
  have "hm_sum (hm_insert k v m) = hm_sum m + unat w"
    using hm_sum_insert [OF assms(2), of k v] assms(3) by simp
  then show ?thesis using assms(1,3) by (auto simp: mg_bound_def algebra_simps)
qed

text \<open>The full-table branch: every counter loses \<open>d\<close>, the smaller of the minimum and the weight.\<close>

lemma mg_bound_full:
  assumes b: "mg_bound cap m t n" and ok: "hm_ok m" and len: "length m = cap" "0 < cap"
    and k: "hm_get m k = None"
  shows "mg_bound cap (mg_add_counters cap m k w) (t(k := t k + unat w)) (n + unat w)"
proof -
  define d where "d = min (sort (map snd m) ! 0) w"
  define m' where "m' = hm_retain (\<lambda>c. c - min c d) (\<lambda>c. 0 < c) m"
  have le: "d \<le> c" if mem: "c \<in> set (map snd m)" for c
  proof -
    have "c \<in> set (sort (map snd m))" using mem by simp
    then obtain i where "i < length m" "c = sort (map snd m) ! i"
      unfolding in_set_conv_nth by auto
    then have "sort (map snd m) ! 0 \<le> c" by (auto intro!: sorted_nth_mono)
    then show ?thesis unfolding d_def by (rule min.coboundedI1)
  qed
  then have cap: "min c d = d" if "(k, c) \<in> set m" for k c using that by (force simp: min_absorb2)
  then have "map (\<lambda>(k, c). (k, c - d)) m = map (\<lambda>(k, c). (k, c - min c d)) m" by auto
  then have m': "hm_retain (\<lambda>c. c - d) (\<lambda>c. 0 < c) m = m'" unfolding m'_def hm_retain_def by (simp only:)
  have "sum_list (map (\<lambda>c. unat (min c d)) (map snd m)) = sum_list (map (\<lambda>_. unat d) (map snd m))"
    by (rule arg_cong [where f = sum_list]) (use cap in auto)
  then have sum: "sum_list (map (\<lambda>c. unat (min c d)) (map snd m)) = cap * unat d"
    using len sum_list_triv [of "unat d" "map snd m"] by (simp only: length_map) simp
  have dw: "unat d \<le> unat w" by (simp add: d_def word_min_unat)
  note r = hm_retain_capped [OF ok, of d, folded m'_def]
  have okm: "hm_ok m'" using ok by (simp add: m'_def)
  have valk: "hm_val m' k = 0" using k by (simp add: r(1)) (simp add: hm_val_def)
  note B = mg_bound_decrement [OF b ok, of d "unat d", OF _ r]
  have dec: "(cap + 1) * unat d \<le> sum_list (map (\<lambda>c. unat (min c d)) (map snd m)) + unat d"
    using sum by simp
  have leftover: "unat (w - d) = unat w - unat d" using dw by (simp add: unat_sub word_le_nat_alt)
  have room: "length m' < cap" if "0 < w - d"
  proof -
    have "d \<noteq> w" using that by auto
    then have d: "d = sort (map snd m) ! 0" by (simp add: d_def min_def split: if_splits)
    have "length m' = length (filter (\<lambda>c. d < c) (map snd m))"
      by (simp add: m'_def mg_retain_min filter_map comp_def case_prod_beta')
    also have "\<dots> \<le> length (map snd m) - Suc 0" using len d by (intro nth_smallest(1)) simp_all
    finally show ?thesis using len by simp
  qed
  have counters: "mg_add_counters cap m k w = (if 0 < w - d then hm_insert k (w - d) m' else m')"
    using k len room by (auto simp: mg_add_counters_def Let_def d_def [symmetric] m')
  have base: "(cap + 1) * t k + hm_sum m \<le> n" "hm_sum m' + cap * unat d = hm_sum m"
    using b k r(2) sum by (auto simp: mg_bound_def hm_val_def dest: spec [of _ k])
  show ?thesis
  proof (cases "0 < w - d")
    case True
    have "mg_bound cap m' t (n + unat d)" using B [OF dec] by (auto simp: mg_bound_def intro: trans_le_add1)
    then have "mg_bound cap (hm_insert k (w - d) m') (t(k := t k + unat (w - d))) (n + unat d + unat (w - d))"
      using okm valk by (intro mg_bound_insert) auto
    then have ins: "mg_bound cap (hm_insert k (w - d) m') (t(k := t k + unat (w - d))) (n + unat w)"
      using leftover dw by simp
    have sumi: "hm_sum (hm_insert k (w - d) m') = hm_sum m' + unat (w - d)"
      using hm_sum_insert [OF okm, of k "w - d"] valk by simp
    have k_ok: "(cap + 1) * (t k + unat w) + hm_sum (hm_insert k (w - d) m')
        \<le> n + unat w + (cap + 1) * unat (w - d)"
    proof -
      have "(cap + 1) * unat w = (cap + 1) * unat (w - d) + (cap + 1) * unat d"
        using leftover dw by (simp flip: add_mult_distrib2)
      then show ?thesis using base leftover dw by (simp add: add_mult_distrib2 sumi)
    qed
    have "hm_val (hm_insert k (w - d) m') k' \<le> (t(k := t k + unat w)) k'
        \<and> (cap + 1) * (t(k := t k + unat w)) k' + hm_sum (hm_insert k (w - d) m')
          \<le> n + unat w + (cap + 1) * hm_val (hm_insert k (w - d) m') k'" for k'
    proof (cases "k' = k")
      case True
      then show ?thesis using k_ok leftover by simp
    next
      case False
      then show ?thesis using ins unfolding mg_bound_def by (auto dest: spec [of _ k'])
    qed
    then show ?thesis using True ins by (simp add: counters mg_bound_def)
  next
    case False
    then have w: "w = d" unfolding word_gt_0 by simp
    have "hm_val m' k' \<le> (t(k := t k + unat w)) k'
        \<and> (cap + 1) * (t(k := t k + unat w)) k' + hm_sum m' \<le> n + unat w + (cap + 1) * hm_val m' k'" for k'
    proof (cases "k' = k")
      case True
      then show ?thesis using base valk w by (simp add: add_mult_distrib2)
    next
      case False
      then show ?thesis using B(2,3) [OF dec, of k'] w by simp
    qed
    then show ?thesis using False B(1) [OF dec] by (simp add: counters mg_bound_def)
  qed
qed

lemma mg_summ_update:
  assumes "mg_summ s t n" "n + unat w < 2 ^ 64"
  shows "mg_summ (mg_add s k w) (t(k := t k + unat w)) (n + unat w)"
proof -
  let ?m = "mg_counters s"
  have i: "mg_inv s" and tot: "unat (mg_total_weight s) = n" and b: "mg_bound (mg_capacity s) ?m t n"
    using assms(1) by (simp_all add: mg_summ_def)
  have ok: "hm_ok ?m" "length ?m \<le> mg_capacity s" "0 < mg_capacity s" using i by (simp_all add: mg_inv_def)
  have "mg_bound (mg_capacity s) (mg_add_counters (mg_capacity s) ?m k w) (t(k := t k + unat w)) (n + unat w)"
  proof (cases "hm_get ?m k")
    case None
    show ?thesis
    proof (cases "length ?m < mg_capacity s")
      case True
      then show ?thesis using None mg_bound_insert [OF b ok(1), of w k w]
        by (simp add: mg_add_counters_def hm_val_def)
    next
      case False
      then show ?thesis using None ok by (intro mg_bound_full [OF b ok(1)]) auto
    qed
  next
    case (Some c)
    have "hm_val ?m k \<le> n" using b hm_val_le_sum [of ?m k] by (auto simp: mg_bound_def)
    then have "unat (c + w) = hm_val ?m k + unat w"
      using Some assms(2) by (simp add: hm_val_def u64_add_exact)
    then show ?thesis using Some mg_bound_insert [OF b ok(1), of "c + w" k w]
      by (simp add: mg_add_counters_def)
  qed
  then show ?thesis using mg_inv_add [OF i, of k w] tot assms(2)
    by (simp add: mg_summ_def mg_add_def u64_add_exact)
qed

lemma mg_summ_merge:
  assumes a: "mg_summ a t n" and b: "mg_summ b t' n'" and cfg: "mg_config a = mg_config b"
    and n: "n + n' < 2 ^ 64" and m: "mg_merge_from a b = Inr c"
  shows "mg_summ c (\<lambda>k. t k + t' k) (n + n')"
proof -
  let ?u = "hm_add_all (mg_counters b) (mg_counters a)"
  have ba: "mg_bound (mg_capacity a) (mg_counters a) t n" and bb: "mg_bound (mg_capacity a) (mg_counters b) t' n'"
    and ok: "hm_ok (mg_counters a)" "hm_ok (mg_counters b)" and i: "mg_inv a"
    using a b cfg by (simp_all add: mg_summ_def mg_inv_def mg_config_def)
  have "hm_sum (mg_counters a) + hm_sum (mg_counters b) < 2 ^ 64"
    using ba bb n by (simp add: mg_bound_def)
  note u = hm_add_all_exact [OF ok this]
  have "(mg_capacity a + 1) * (t k + t' k) + hm_sum ?u \<le> n + n' + (mg_capacity a + 1) * hm_val ?u k"
    "hm_val ?u k \<le> t k + t' k" for k
  proof -
    have "(mg_capacity a + 1) * t k + hm_sum (mg_counters a) \<le> n + (mg_capacity a + 1) * hm_val (mg_counters a) k"
      "(mg_capacity a + 1) * t' k + hm_sum (mg_counters b) \<le> n' + (mg_capacity a + 1) * hm_val (mg_counters b) k"
      "hm_val (mg_counters a) k \<le> t k" "hm_val (mg_counters b) k \<le> t' k"
      using ba bb unfolding mg_bound_def by blast+
    then show "(mg_capacity a + 1) * (t k + t' k) + hm_sum ?u \<le> n + n' + (mg_capacity a + 1) * hm_val ?u k"
      "hm_val ?u k \<le> t k + t' k"
      unfolding u add_mult_distrib2 by linarith+
  qed
  moreover have "hm_sum ?u \<le> n + n'" using ba bb u by (simp add: mg_bound_def)
  ultimately have "mg_bound (mg_capacity a) ?u (\<lambda>k. t k + t' k) (n + n')" unfolding mg_bound_def by blast
  from mg_bound_trim [OF this u(1)] mg_inv_merge [OF i m] mg_merge_cases [OF m] a b n
  show ?thesis by (simp add: mg_summ_def mg_config_def u64_add_exact)
qed

lemma mg_compat_config: "mg_config a = mg_config b \<Longrightarrow> mg_compatibility a = mg_compatibility b"
  by (simp add: mg_config_def mg_compatibility_def mg_params_hash_def)

lemma mg_simps:
  "mg_config (mg_add s k v) = mg_config s" "mg_config (mg_reset s) = mg_config s"
  "mg_updates (mg_reset s) = 0" "mg_summ s t n \<Longrightarrow> mg_inv s" "mg_updates (mg_add s k v) = mg_updates s + 1"
  "mg_inv s \<Longrightarrow> mg_inv (mg_reset s)"
  by (simp_all add: mg_config_def mg_reset_def mg_summ_def mg_add_def mg_inv_def)

lemma mg_merge_from_eq:
  "mg_compatibility a = mg_compatibility b \<Longrightarrow> \<exists>c. mg_merge_from a b = Inr c"
  "mg_compatibility a \<noteq> mg_compatibility b \<Longrightarrow>
   mg_merge_from a b = Inl (IncompatibleMerge ''sketches are not merge-compatible'')"
  by (simp_all add: mg_merge_from_def ensure_matches_def)

lemmas mg_laws = mg_merge_from_eq mg_merge_cases(2,5) mg_simps mg_inv_add mg_inv_merge
  mg_compat_config [OF mg_simps(1)] mg_compat_config [OF mg_simps(2)]
  mg_compat_config [OF mg_merge_cases(2)] mg_summ_update mg_summ_merge

interpretation mg: weighted_summary mg_inv mg_add mg_merge_from mg_reset mg_updates
    mg_compatibility mg_config mg_summ
  by unfold_locales (blast intro: mg_laws)+

lemma mg_summ_new: "mg_new cap h = Inr s \<Longrightarrow> mg_summ s (\<lambda>_. 0) 0 \<and> mg_capacity s = cap"
  by (auto simp: mg_new_def mg_summ_def mg_inv_def mg_bound_def split: if_splits)

text \<open>
  C28: Misra-Gries over any sharding and merging of a stream of total weight \<open>N\<close> below
  \<open>2^64\<close>: the merge succeeds with at most \<open>capacity\<close> counters, no reported count exceeds the
  true weight, the undercount of every key is at most \<open>N / (capacity + 1)\<close>, and every key whose
  true weight is above that bound is among the counters.
\<close>

theorem mg_heavy_hitters_are_kept:
  assumes "mg_new cap h = Inr s0" "weight (xs @ concat xss) < 2 ^ 64"
  shows "\<exists>s. merge_shards mg_add mg_merge_from s0 xs xss = Inr s
    \<and> length (mg_counters s) \<le> cap
    \<and> (\<forall>k. (case mg_get s k of
          Some c \<Rightarrow> unat c \<le> truth (xs @ concat xss) k
            \<and> (cap + 1) * (truth (xs @ concat xss) k - unat c) \<le> weight (xs @ concat xss)
        | None \<Rightarrow> (cap + 1) * truth (xs @ concat xss) k \<le> weight (xs @ concat xss)))"
proof -
  let ?t = "truth (xs @ concat xss)" and ?n = "weight (xs @ concat xss)"
  have s0: "mg_summ s0 (\<lambda>_. 0) 0" "mg_capacity s0 = cap" using mg_summ_new [OF assms(1)] by auto
  obtain s where s: "merge_shards mg_add mg_merge_from s0 xs xss = Inr s" "mg_summ s ?t ?n"
    using mg.summ_merge_shards [OF s0(1) assms(2)] by blast
  have cap: "mg_capacity s = cap"
    using mg.config_merge_shards [OF mg.summ_inv [OF s0(1)] s(1)] s0(2) by (simp add: mg_config_def)
  have b: "hm_val (mg_counters s) k \<le> ?t k" "(cap + 1) * ?t k \<le> ?n + (cap + 1) * hm_val (mg_counters s) k" for k
    using s(2) cap unfolding mg_summ_def mg_bound_def by (auto dest: spec [of _ k])
  have d: "(cap + 1) * (?t k - hm_val (mg_counters s) k) \<le> ?n" for k
    using b(2) [of k] by (simp only: diff_mult_distrib2)
  have "case mg_get s k of Some c \<Rightarrow> unat c \<le> ?t k \<and> (cap + 1) * (?t k - unat c) \<le> ?n
      | None \<Rightarrow> (cap + 1) * ?t k \<le> ?n" for k
    using b(1) [of k] d [of k]
    by (cases "mg_get s k") (simp_all add: mg_get_def hm_val_def)
  moreover have "length (mg_counters s) \<le> cap" using s(2) cap by (simp add: mg_summ_def mg_inv_def)
  ultimately show ?thesis using s(1) by blast
qed

theorem mg_heavy_hitters_are_kept_witness:
  "\<exists>s. merge_shards mg_add mg_merge_from
      \<lparr>mg_capacity = 1, mg_hash = HashSpec_new 7, mg_counters = [], mg_total_weight = 0, mg_updates = 0\<rparr>
      [([1], 9), ([2], 3)] [[([1], 4)], [([3], 1)]] = Inr s \<and> mg_get s [1] \<noteq> None"
  using mg_heavy_hitters_are_kept [of 1 "HashSpec_new 7"
      "\<lparr>mg_capacity = 1, mg_hash = HashSpec_new 7, mg_counters = [], mg_total_weight = 0, mg_updates = 0\<rparr>"
      "[([1], 9), ([2], 3)]" "[[([1], 4)], [([3], 1)]]"]
  by (auto simp: mg_new_def dest!: spec [of _ "[1]"] split: option.splits)

section \<open>Snapshots\<close>

definition mg_enc_counter :: "bytes \<times> u64 \<Rightarrow> bytes" where
  "mg_enc_counter e = wr_lp_bytes (fst e) @ wr_u64 (snd e)"

text \<open>What a snapshot can hold: lengths are 32-bit fields.\<close>

definition mg_wf :: "misra_gries \<Rightarrow> bool" where
  "mg_wf s \<longleftrightarrow> mg_inv s \<and> mg_capacity s < 2 ^ 64
     \<and> 20 + length (concat (map mg_enc_counter (hm_sorted (mg_counters s)))) < 2 ^ 32"

lemma rd_counter_append:
  assumes "length (fst e) < 2 ^ 32" "rd_rest r = mg_enc_counter e @ b"
  shows "rd_counter r = Inr (e, rd_adv (length (mg_enc_counter e)) r)"
proof -
  have "rd_lp_bytes r = Inr (fst e, rd_adv (4 + length (fst e)) r)"
    using assms by (intro rd_lp_bytes_append [where b = "wr_u64 (snd e) @ b"]) (simp_all add: mg_enc_counter_def)
  moreover have "rd_u64 (rd_adv (4 + length (fst e)) r) = Inr (snd e, rd_adv 8 (rd_adv (4 + length (fst e)) r))"
    using assms by (intro rd_u64_append [where b = b]) (simp add: mg_enc_counter_def)
  ultimately show ?thesis by (cases e) (simp add: rd_counter_def mg_enc_counter_def)
qed

lemma length_enc_counters_ge: "12 * length es \<le> length (concat (map mg_enc_counter es))"
  by (induction es) (auto simp: mg_enc_counter_def)

lemma enc_counter_key_le: "e \<in> set es \<Longrightarrow> length (fst e) \<le> length (concat (map mg_enc_counter es))"
  by (induction es) (auto simp: mg_enc_counter_def simp del: length_concat)

lemma mg_decode_encode:
  assumes wf: "mg_wf s"
  shows "mg_from_snapshot (mg_to_snapshot s ws we) = Inr (s\<lparr>mg_counters := hm_sorted (mg_counters s)\<rparr>)"
proof -
  let ?es = "hm_sorted (mg_counters s)"
  let ?enc = "concat (map mg_enc_counter ?es)"
  define n where "n = length (mg_counters s)"
  have i: "mg_inv s" "0 < mg_capacity s" "n \<le> mg_capacity s" "hm_ok (mg_counters s)"
    and c: "mg_capacity s < 2 ^ 64" and len: "20 + length ?enc < 2 ^ 32"
    using wf by (simp_all add: mg_wf_def mg_inv_def n_def)
  have n12: "12 * n \<le> length ?enc" using length_enc_counters_ge [of ?es] by (simp add: n_def)
  have n32: "n < 2 ^ 32" using n12 len by linarith
  have enc: "concat (map (\<lambda>k. wr_lp_bytes k @ wr_u64 (the (hm_get (mg_counters s) k))) (sort (map fst (mg_counters s)))) = ?enc"
    by (simp add: hm_sorted_def mg_enc_counter_def comp_def)
  let ?r = "rd_adv 4 (rd_adv 8 (rd_adv 8 (Reader_new (wr_u64 (mg_total_weight s) @ wr_u64 (mg_updates s)
     @ wr_u32 (word_of_nat n) @ ?enc))))"
  have rest: "rd_rest ?r = ?enc" by (simp del: drop_drop rd_adv_adv)
  have many: "rd_many rd_counter n ?r = Inr (?es, rd_adv (length ?enc) ?r)"
    using rd_many_append [of ?es mg_enc_counter rd_counter ?r "[]"] rd_counter_append enc_counter_key_le [of _ ?es] len rest
    by (force simp: n_def simp del: length_concat)
  have cnt: "rd_check_count n 12 ?r = Inr ()"
    using n12 rest by (simp add: rd_check_count_def rd_remaining_rest del: drop_drop rd_adv_adv length_concat)
  have ins: "fold (\<lambda>(k, c). hm_insert k c) ?es [] = ?es"
    using fold_hm_insert [of "[]" ?es] i by simp
  have cap: "unat (word_of_nat (mg_capacity s) :: u64) = mg_capacity s" using c by (rule u64_of_nat_unat)
  have n': "unat (word_of_nat n :: u32) = n" using n32 by (rule u32_of_nat_unat)
  show ?thesis
    unfolding mg_to_snapshot_def mg_from_snapshot_def Let_def enc n_def [symmetric]
    using i c n32 n' cap many cnt len ins
    by (simp add: read_write_snapshot rd_eqs
        del: drop_drop rd_adv_adv length_concat u32_of_nat_unat u64_of_nat_unat)
qed

text \<open>
  A Misra-Gries snapshot decodes to the same summary: capacity, hash spec, totals and the
  count of every key (the hash map's iteration order is not part of the state).
\<close>

lemma mg_snapshot_round_trips:
  assumes "mg_wf s"
  shows "\<exists>s'. mg_from_snapshot (mg_to_snapshot s ws we) = Inr s' \<and> mg_inv s'
    \<and> mg_config s' = mg_config s \<and> mg_total_weight s' = mg_total_weight s
    \<and> mg_updates s' = mg_updates s \<and> (\<forall>k. mg_get s' k = mg_get s k)"
  using assms mg_decode_encode [OF assms]
  by (simp add: mg_wf_def mg_inv_def mg_config_def mg_get_def)

end
