(* ===== verification/CountSketch.thy ===== *)
theory CountSketch
  imports SketchTrait "HOL-Library.Signed_Division"
begin

text \<open>
  \<^verbatim>\<open>flowsketch-algos/src/count_sketch.rs\<close>: the signed-counter sketch with
  median-of-rows estimates.  An \<^verbatim>\<open>i64\<close> is a 64-bit word read by \<open>sint\<close>; addition and
  multiplication of \<^verbatim>\<open>i64\<close> wrap.

  Shown here: the sketch is linear (merging shards gives exactly the sketch of the whole
  stream, wrap-around included), the estimate of a key is within \<open>B\<close> of its signed total
  whenever more than half of the rows have collision noise at most \<open>B\<close>, and snapshots round-trip.
\<close>

section \<open>Definitions\<close>

record count_sketch =
  cs_width :: nat
  cs_depth :: nat
  cs_hash :: hash_spec
  cs_table :: "u64 list"
  cs_updates :: u64

definition cs_new :: "nat \<Rightarrow> nat \<Rightarrow> hash_spec \<Rightarrow> count_sketch result" where
  "cs_new width depth hash =
     (if width = 0 \<or> depth = 0
      then Inl (InvalidParam ''count-sketch width and depth must be positive'')
      else Inr \<lparr>cs_width = width, cs_depth = depth, cs_hash = hash,
                cs_table = replicate (width * depth) 0, cs_updates = 0\<rparr>)"

text \<open>\<^verbatim>\<open>row * self.width + rh.index(row, self.width)\<close>\<close>

definition cs_cell :: "count_sketch \<Rightarrow> row_hashes \<Rightarrow> nat \<Rightarrow> nat" where
  "cs_cell s rh row = row * cs_width s + rh_index rh row (cs_width s)"

definition cs_update_signed :: "count_sketch \<Rightarrow> bytes \<Rightarrow> u64 \<Rightarrow> count_sketch" where
  "cs_update_signed s key v =
     (let rh = RowHashes_new (cs_hash s) key
      in s\<lparr>cs_updates := cs_updates s + 1,
           cs_table := fold (\<lambda>row t. t[cs_cell s rh row := t ! cs_cell s rh row + word_of_int (rh_sign rh row) * v])
             [0..<cs_depth s] (cs_table s)\<rparr>)"

text \<open>\<^verbatim>\<open>value as i64\<close> keeps the 64 bits.\<close>

definition cs_update :: "count_sketch \<Rightarrow> bytes \<Rightarrow> u64 \<Rightarrow> count_sketch" where
  "cs_update s key v = cs_update_signed s key v"

text \<open>The median of the sorted row estimates; Rust's integer division rounds toward zero.\<close>

definition cs_median :: "u64 list \<Rightarrow> u64" where
  "cs_median ests =
     (let mid = length ests div 2
      in if odd (length ests) then ests ! mid
         else word_of_int (sint (ests ! (mid - 1) + ests ! mid) sdiv 2))"

definition cs_estimate_signed :: "count_sketch \<Rightarrow> bytes \<Rightarrow> u64" where
  "cs_estimate_signed s key =
     (let rh = RowHashes_new (cs_hash s) key;
          ests = map (\<lambda>row. word_of_int (rh_sign rh row) * cs_table s ! cs_cell s rh row) [0..<cs_depth s]
      in cs_median (sort_key sint ests))"

definition cs_params_hash :: "count_sketch \<Rightarrow> u64" where
  "cs_params_hash s = hash64 (wr_u64 (word_of_nat (cs_width s)) @ wr_u64 (word_of_nat (cs_depth s))) 0"

definition cs_compatibility :: "count_sketch \<Rightarrow> sketch_compatibility" where
  "cs_compatibility s = \<lparr>sc_algorithm = ''count-sketch'', sc_version = 1, sc_hash = cs_hash s,
     sc_params_hash = cs_params_hash s\<rparr>"

definition cs_merge_from :: "count_sketch \<Rightarrow> count_sketch \<Rightarrow> count_sketch result" where
  "cs_merge_from s other =
     rbind (ensure_matches (cs_compatibility s) (cs_compatibility other)) (\<lambda>_.
       Inr (s\<lparr>cs_table := zip_mut (+) (cs_table s) (cs_table other),
              cs_updates := cs_updates s + cs_updates other\<rparr>))"

definition cs_reset :: "count_sketch \<Rightarrow> count_sketch" where
  "cs_reset s = s\<lparr>cs_table := map (\<lambda>_. 0) (cs_table s), cs_updates := 0\<rparr>"

definition cs_to_snapshot :: "count_sketch \<Rightarrow> u64 \<Rightarrow> u64 \<Rightarrow> bytes" where
  "cs_to_snapshot s ws we =
     write_snapshot \<lparr>sh_version = SNAPSHOT_VERSION, sh_algorithm_id = COUNT_SKETCH,
         sh_hash = cs_hash s, sh_window_start_nanos = ws, sh_window_end_nanos = we\<rparr>
       (wr_u32 (word_of_nat (cs_width s)) @ wr_u32 (word_of_nat (cs_depth s)))
       (wr_u64 (cs_updates s) @ concat (map wr_i64 (cs_table s)))"

definition cs_from_snapshot :: "bytes \<Rightarrow> count_sketch result" where
  "cs_from_snapshot bs =
     rbind (read_snapshot bs) (\<lambda>(header, params, payload).
     if sh_algorithm_id header \<noteq> COUNT_SKETCH then Inl (Snapshot ''not a count-sketch snapshot'') else
     rbind (rd_u32 (Reader_new params)) (\<lambda>(w, p).
     rbind (rd_u32 p) (\<lambda>(d, p).
     let width = unat w; depth = unat d in
     if width = 0 \<or> depth = 0
     then Inl (Snapshot ''count-sketch snapshot width and depth must be positive'') else
     if 2 ^ 64 \<le> width * depth then Inl (Snapshot ''count-sketch snapshot table overflows'') else
     rbind (rd_u64 (Reader_new payload)) (\<lambda>(updates, r).
     rbind (rd_check_count (width * depth) 8 r) (\<lambda>_.
     rbind (rd_many rd_i64 (width * depth) r) (\<lambda>(table, r).
     Inr \<lparr>cs_width = width, cs_depth = depth, cs_hash = sh_hash header, cs_table = table,
          cs_updates = updates\<rparr>))))))"

section \<open>Invariant\<close>

definition cs_inv :: "count_sketch \<Rightarrow> bool" where
  "cs_inv s \<longleftrightarrow> 0 < cs_width s \<and> 0 < cs_depth s \<and> length (cs_table s) = cs_width s * cs_depth s"

definition cs_config :: "count_sketch \<Rightarrow> nat \<times> nat \<times> hash_spec" where
  "cs_config s = (cs_width s, cs_depth s, cs_hash s)"

abbreviation cs_pos :: "count_sketch \<Rightarrow> bytes \<Rightarrow> nat \<Rightarrow> nat" where
  "cs_pos s key row \<equiv> cs_cell s (RowHashes_new (cs_hash s) key) row"

abbreviation cs_sgn :: "count_sketch \<Rightarrow> bytes \<Rightarrow> nat \<Rightarrow> int" where
  "cs_sgn s key row \<equiv> rh_sign (RowHashes_new (cs_hash s) key) row"

lemma cs_config_iff:
  "cs_config a = cs_config b \<longleftrightarrow> cs_width a = cs_width b \<and> cs_depth a = cs_depth b \<and> cs_hash a = cs_hash b"
  by (simp add: cs_config_def)

lemma cs_cell_less: "cs_inv s \<Longrightarrow> row < cs_depth s \<Longrightarrow> cs_cell s rh row < length (cs_table s)"
  by (auto simp: cs_cell_def cs_inv_def intro: row_major_less)

lemma cs_cell_inj: "cs_inv s \<Longrightarrow> cs_cell s rh r = cs_cell s rh' r' \<Longrightarrow> r = r'"
  unfolding cs_cell_def cs_inv_def
  by (rule row_major_inj [of "rh_index rh r (cs_width s)" "cs_width s" "rh_index rh' r' (cs_width s)"]) simp_all

lemma cs_new_inv: "cs_new w d h = Inr s \<Longrightarrow> cs_inv s"
  by (auto simp: cs_new_def cs_inv_def split: if_splits)

lemma cs_update_simps [simp]:
  "cs_width (cs_update s k v) = cs_width s" "cs_depth (cs_update s k v) = cs_depth s"
  "cs_hash (cs_update s k v) = cs_hash s" "cs_updates (cs_update s k v) = cs_updates s + 1"
  by (simp_all add: cs_update_def cs_update_signed_def Let_def)

lemma cs_cell_cong: "cs_width s = cs_width s' \<Longrightarrow> cs_cell s = cs_cell s'"
  by (simp add: fun_eq_iff cs_cell_def)

lemma cs_update_table:
  "cs_table (cs_update s k v) = fold (\<lambda>row t. t[cs_pos s k row := t ! cs_pos s k row + word_of_int (cs_sgn s k row) * v])
     [0..<cs_depth s] (cs_table s)"
  by (simp add: cs_update_def cs_update_signed_def Let_def)

lemma cs_update_length [simp]: "cs_inv s \<Longrightarrow> length (cs_table (cs_update s k v)) = length (cs_table s)"
  unfolding cs_update_table
  by (rule fold_cell_update(1) [where f = "\<lambda>row x. x + word_of_int (cs_sgn s k row) * v"])
    (auto intro: cs_cell_less cs_cell_inj)

lemma cs_update_hit:
  "cs_inv s \<Longrightarrow> row < cs_depth s \<Longrightarrow>
   cs_table (cs_update s k v) ! cs_pos s k row = cs_table s ! cs_pos s k row + word_of_int (cs_sgn s k row) * v"
  unfolding cs_update_table
  by (rule fold_cell_update(2) [where f = "\<lambda>row x. x + word_of_int (cs_sgn s k row) * v"])
    (auto intro: cs_cell_less cs_cell_inj)

lemma cs_update_miss:
  "cs_inv s \<Longrightarrow> (\<And>row. row < cs_depth s \<Longrightarrow> j \<noteq> cs_pos s k row) \<Longrightarrow>
   cs_table (cs_update s k v) ! j = cs_table s ! j"
  unfolding cs_update_table
  by (rule fold_cell_update(3) [where f = "\<lambda>row x. x + word_of_int (cs_sgn s k row) * v"])
    (auto intro: cs_cell_less cs_cell_inj)

lemma cs_inv_update: "cs_inv s \<Longrightarrow> cs_inv (cs_update s k v)"
  using cs_update_length [of s k v] unfolding cs_inv_def by auto

lemma cs_inv_reset: "cs_inv s \<Longrightarrow> cs_inv (cs_reset s)"
  by (simp add: cs_inv_def cs_reset_def)

lemma cs_merge_from_cases:
  assumes "cs_merge_from a b = Inr c"
  shows "cs_config c = cs_config a" "cs_table c = zip_mut (+) (cs_table a) (cs_table b)"
    "cs_updates c = cs_updates a + cs_updates b"
  using assms by (auto simp: cs_merge_from_def rbind_Inr_iff cs_config_def)

lemma cs_inv_merge: "cs_inv a \<Longrightarrow> cs_merge_from a b = Inr c \<Longrightarrow> cs_inv c"
  using cs_merge_from_cases(1,2) [of a b c] by (simp add: cs_inv_def cs_config_def)

lemma cs_compat_config: "cs_config a = cs_config b \<Longrightarrow> cs_compatibility a = cs_compatibility b"
  by (simp add: cs_config_iff cs_compatibility_def cs_params_hash_def)

lemma cs_merge_from_eq:
  "cs_compatibility a = cs_compatibility b \<Longrightarrow> \<exists>c. cs_merge_from a b = Inr c"
  "cs_compatibility a \<noteq> cs_compatibility b \<Longrightarrow>
   cs_merge_from a b = Inl (IncompatibleMerge ''sketches are not merge-compatible'')"
  by (simp_all add: cs_merge_from_def ensure_matches_def)

lemma cs_compat_simps:
  "cs_config (cs_update s k v) = cs_config s" "cs_config (cs_reset s) = cs_config s" "cs_updates (cs_reset s) = 0"
  by (simp_all add: cs_config_def cs_reset_def)

lemmas cs_laws = cs_merge_from_eq cs_merge_from_cases(1,3) cs_compat_simps cs_inv_update cs_inv_merge
  cs_inv_reset cs_compat_config [OF cs_compat_simps(1)] cs_compat_config [OF cs_compat_simps(2)]
  cs_compat_config [OF cs_merge_from_cases(1)] cs_update_simps(4)

interpretation cs: configured_sketch cs_inv cs_update cs_merge_from cs_reset cs_updates
    cs_compatibility cs_config
  by unfold_locales (blast intro: cs_laws)+

section \<open>Linearity\<close>

text \<open>The word a cell holds after a stream: every update whose cell it is contributes its
  signed weight.\<close>

definition cs_contrib :: "count_sketch \<Rightarrow> nat \<Rightarrow> bytes \<times> u64 \<Rightarrow> u64" where
  "cs_contrib s j = (\<lambda>(k, v).
     \<Sum>row \<leftarrow> [0..<cs_depth s]. if cs_pos s k row = j then word_of_int (cs_sgn s k row) * v else 0)"

lemma sum_list_single:
  assumes "\<And>r r'. r < d \<Longrightarrow> r' < d \<Longrightarrow> P r \<Longrightarrow> P r' \<Longrightarrow> r = r'" "row < d" "P row"
  shows "(\<Sum>r \<leftarrow> [0..<d]. if P r then f r else 0) = (f row :: 'a::comm_monoid_add)"
proof -
  have "(\<Sum>r \<leftarrow> [0..<d]. if P r then f r else 0) = (\<Sum>r \<leftarrow> [0..<d]. if r = row then f row else 0)"
    using assms by (intro arg_cong [where f = sum_list] map_cong) auto
  also have "\<dots> = f row" using assms(2) by (simp add: sum_list_distinct_conv_sum_set)
  finally show ?thesis .
qed

lemma sum_list_none:
  "(\<And>r. r < d \<Longrightarrow> \<not> P r) \<Longrightarrow> (\<Sum>r \<leftarrow> [0..<d]. if P r then f r else 0) = (0 :: 'a::comm_monoid_add)"
  by (rule trans [OF arg_cong [where f = sum_list, OF map_cong [OF refl]] sum_list_0]) simp

lemma cs_update_nth:
  assumes i: "cs_inv s"
  shows "cs_table (cs_update s k v) ! j = cs_table s ! j + cs_contrib s j (k, v)"
proof (cases "\<exists>row < cs_depth s. cs_pos s k row = j")
  case True
  then obtain row where row: "row < cs_depth s" "cs_pos s k row = j" by blast
  have "cs_contrib s j (k, v) = word_of_int (cs_sgn s k row) * v"
    unfolding cs_contrib_def prod.case using row
    by (intro sum_list_single [where f = "\<lambda>row. word_of_int (cs_sgn s k row) * v"]) (metis cs_cell_inj [OF i])+
  then show ?thesis using cs_update_hit [OF i row(1), of k v] row(2) by simp
next
  case False
  then have "cs_contrib s j (k, v) = 0" unfolding cs_contrib_def by (simp add: sum_list_none)
  then show ?thesis using cs_update_miss [OF i, of j k v] False by auto
qed

lemma cs_contrib_cong: "cs_config s = cs_config s' \<Longrightarrow> cs_contrib s = cs_contrib s'"
  by (auto simp: fun_eq_iff cs_contrib_def cs_config_iff cs_cell_def cong: if_cong)

lemma cs_feed_nth:
  "cs_inv s \<Longrightarrow> cs_table (feed cs_update s xs) ! j = cs_table s ! j + sum_list (map (cs_contrib s j) xs)"
proof (induction xs arbitrary: s)
  case (Cons x xs)
  obtain k v where x: "x = (k, v)" by (cases x)
  have "cs_contrib (cs_update s k v) = cs_contrib s" by (rule cs_contrib_cong) (simp add: cs_compat_simps)
  then show ?case using Cons.IH [OF cs_inv_update [OF Cons.prems], of k v] cs_update_nth [OF Cons.prems, of k v j]
    by (simp add: x add.assoc)
qed simp

lemma cs_feed_length: "cs_inv s \<Longrightarrow> length (cs_table (feed cs_update s xs)) = length (cs_table s)"
  using cs.inv_feed [of s xs] cs.config_feed [of s xs] by (simp add: cs_inv_def cs_config_iff)

text \<open>A sketch is determined by its configuration, table and update count.\<close>

lemma cs_eqI:
  "cs_config a = cs_config b \<Longrightarrow> cs_table a = cs_table b \<Longrightarrow> cs_updates a = cs_updates b \<Longrightarrow> a = b" for a b :: count_sketch
  by (cases a, cases b) (simp add: cs_config_iff)

lemma cs_merge_feed:
  assumes a: "cs_inv a" "cs_config a = cs_config s" and s: "cs_inv s" "\<forall>x \<in> set (cs_table s). x = 0" "cs_updates s = 0"
  shows "cs_merge_from a (feed cs_update s xs) = Inr (feed cs_update a xs)"
proof -
  have compat: "cs_compatibility a = cs_compatibility (feed cs_update s xs)"
    using a(2) cs.config_feed [OF s(1)] by (intro cs_compat_config) simp
  then obtain c where c: "cs_merge_from a (feed cs_update s xs) = Inr c" using cs_merge_from_eq(1) by blast
  have len: "length (cs_table (feed cs_update s xs)) = length (cs_table a)"
    using a s cs_feed_length [OF s(1)] by (simp add: cs_inv_def cs_config_iff)
  have "cs_table c = cs_table (feed cs_update a xs)"
  proof (rule nth_equalityI)
    show "length (cs_table c) = length (cs_table (feed cs_update a xs))"
      using cs_merge_from_cases(2) [OF c] cs_feed_length [OF a(1)] by simp
    fix j assume "j < length (cs_table c)"
    then have j: "j < length (cs_table a)" using cs_merge_from_cases(2) [OF c] by simp
    then have "cs_table s ! j = 0" using s(1,2) a by (simp add: cs_inv_def cs_config_iff)
    then show "cs_table c ! j = cs_table (feed cs_update a xs) ! j"
      using j len cs_merge_from_cases(2) [OF c] cs_contrib_cong [OF a(2)]
      by (simp add: nth_zip_mut cs_feed_nth a(1) s(1))
  qed
  moreover have "cs_config c = cs_config (feed cs_update a xs)" "cs_updates c = cs_updates (feed cs_update a xs)"
    using cs_merge_from_cases [OF c] cs.config_feed [OF a(1)] cs.count_feed [OF a(1)] cs.count_feed [OF s(1)] s(3)
    by simp_all
  ultimately show ?thesis using c cs_eqI by metis
qed

lemma cs_merge_shards_feed:
  assumes "cs_new w d h = Inr s0"
  shows "merge_shards cs_update cs_merge_from s0 xs xss = Inr (feed cs_update s0 (xs @ concat xss))"
proof -
  have s0: "cs_inv s0" "\<forall>x \<in> set (cs_table s0). x = 0" "cs_updates s0 = 0"
    using assms cs_new_inv [OF assms] by (auto simp: cs_new_def split: if_splits)
  have "absorb cs_merge_from (map (feed cs_update s0) xss) a = Inr (feed cs_update a (concat xss))"
    if "cs_inv a" "cs_config a = cs_config s0" for a
    using that
  proof (induction xss arbitrary: a)
    case (Cons ys xss)
    then show ?case using s0 cs.inv_feed cs.config_feed by (simp add: cs_merge_feed feed_append)
  qed simp
  from this [OF cs.inv_feed [OF s0(1)] cs.config_feed [OF s0(1)]]
  show ?thesis by (simp add: merge_shards_def feed_append)
qed



section \<open>Accuracy of the median\<close>

text \<open>The signed total of a key, the total magnitude of a stream, and the noise that the keys
  colliding with \<open>k\<close> in a row add to that row's estimate.\<close>

definition signed_truth :: "(bytes \<times> u64) list \<Rightarrow> bytes \<Rightarrow> int" where
  "signed_truth xs k = (\<Sum>(k', v) \<leftarrow> xs. if k' = k then sint v else 0)"

definition magnitude :: "(bytes \<times> u64) list \<Rightarrow> int" where
  "magnitude xs = (\<Sum>(k, v) \<leftarrow> xs. \<bar>sint v\<bar>)"

definition cs_noise :: "count_sketch \<Rightarrow> (bytes \<times> u64) list \<Rightarrow> bytes \<Rightarrow> nat \<Rightarrow> int" where
  "cs_noise s xs k row = (\<Sum>(k', v) \<leftarrow> xs. if k' \<noteq> k \<and> cs_pos s k' row = cs_pos s k row
     then cs_sgn s k row * cs_sgn s k' row * sint v else 0)"

lemma cs_contrib_pos:
  assumes "cs_inv s" "row < cs_depth s"
  shows "cs_contrib s (cs_pos s k row) (k', v) =
    (if cs_pos s k' row = cs_pos s k row then word_of_int (cs_sgn s k' row) * v else 0)"
proof (cases "cs_pos s k' row = cs_pos s k row")
  case True
  then show ?thesis unfolding cs_contrib_def prod.case using assms
    by (subst sum_list_single [where f = "\<lambda>row. word_of_int (cs_sgn s k' row) * v" and row = row])
      (auto dest: cs_cell_inj [OF assms(1)])
next
  case False
  then have "cs_pos s k' r \<noteq> cs_pos s k row" for r using cs_cell_inj [OF assms(1)] by metis
  then show ?thesis unfolding cs_contrib_def prod.case by simp
qed

lemma cs_row_estimate:
  assumes i: "cs_inv s" "row < cs_depth s" and z: "cs_table s ! cs_pos s k row = 0"
  shows "word_of_int (cs_sgn s k row) * cs_table (feed cs_update s xs) ! cs_pos s k row
    = word_of_int (signed_truth xs k + cs_noise s xs k row)"
proof -
  have one: "word_of_int (cs_sgn s k row) * cs_contrib s (cs_pos s k row) (k', v)
      = word_of_int ((if k' = k then sint v else 0)
        + (if k' \<noteq> k \<and> cs_pos s k' row = cs_pos s k row then cs_sgn s k row * cs_sgn s k' row * sint v else 0))"
    for k' v
    using rh_sign_cases [of "RowHashes_new (cs_hash s) k" row] by (auto simp: cs_contrib_pos [OF i])
  have "word_of_int (cs_sgn s k row) * sum_list (map (cs_contrib s (cs_pos s k row)) xs)
      = word_of_int (signed_truth xs k + cs_noise s xs k row)"
  proof (induction xs)
    case (Cons x xs)
    obtain k' v where x: "x = (k', v)" by (cases x)
    have "word_of_int (cs_sgn s k row) * sum_list (map (cs_contrib s (cs_pos s k row)) (x # xs))
      = word_of_int (cs_sgn s k row) * cs_contrib s (cs_pos s k row) (k', v)
        + word_of_int (signed_truth xs k + cs_noise s xs k row)"
      using Cons by (simp add: x distrib_left)
    also have "\<dots> = word_of_int (signed_truth (x # xs) k + cs_noise s (x # xs) k row)"
      unfolding one by (simp add: x signed_truth_def cs_noise_def)
    finally show ?case .
  qed (simp add: signed_truth_def cs_noise_def)
  then show ?thesis by (simp add: cs_feed_nth [OF i(1)] z)
qed

lemma cs_row_bound: "\<bar>signed_truth xs k + cs_noise s xs k row\<bar> \<le> magnitude xs"
proof (induction xs)
  case (Cons x xs)
  obtain k' v where x: "x = (k', v)" by (cases x)
  have "\<bar>cs_sgn s k row * cs_sgn s k' row * sint v\<bar> \<le> \<bar>sint v\<bar>"
    using rh_sign_cases [of "RowHashes_new (cs_hash s) k" row] rh_sign_cases [of "RowHashes_new (cs_hash s) k'" row]
    by auto
  then have "\<bar>(if k' = k then sint v else 0) + (if k' \<noteq> k \<and> cs_pos s k' row = cs_pos s k row
      then cs_sgn s k row * cs_sgn s k' row * sint v else 0)\<bar> \<le> \<bar>sint v\<bar>" by auto
  then show ?case using Cons unfolding x signed_truth_def cs_noise_def magnitude_def by (simp only: list.map sum_list.Cons prod.case)
qed (simp add: signed_truth_def cs_noise_def magnitude_def)

text \<open>In a sorted list most of whose keys lie in an interval, every position that leaves
  fewer elements on either side than lie outside holds a key of the interval.\<close>

lemma sorted_majority:
  fixes f :: "'a \<Rightarrow> int"
  assumes "sorted (map f ys)" "i < length ys"
    and "length ys < i + 1 + length (filter (\<lambda>y. lo \<le> f y \<and> f y \<le> hi) ys)"
    and "i < length (filter (\<lambda>y. lo \<le> f y \<and> f y \<le> hi) ys)"
  shows "lo \<le> f (ys ! i) \<and> f (ys ! i) \<le> hi"
proof -
  let ?P = "\<lambda>y. lo \<le> f y \<and> f y \<le> hi"
  have mono: "f (ys ! a) \<le> f (ys ! b)" if "a \<le> b" "b < length ys" for a b
    using sorted_nth_mono [OF assms(1), of a b] that by simp
  have split: "length (filter ?P ys) = length (filter ?P (take n ys)) + length (filter ?P (drop n ys))" for n
    by (metis append_take_drop_id filter_append length_append)
  have "lo \<le> f (ys ! i)"
  proof (rule ccontr)
    assume low: "\<not> lo \<le> f (ys ! i)"
    have "filter ?P (take (Suc i) ys) = []"
      using low mono assms(2) by (force simp: filter_empty_conv in_set_conv_nth less_Suc_eq_le)
    then have "length (filter ?P ys) \<le> length ys - Suc i"
      using split [of "Suc i"] length_filter_le [of ?P "drop (Suc i) ys"] by simp
    then show False using assms(2,3) by simp
  qed
  moreover have "f (ys ! i) \<le> hi"
  proof (rule ccontr)
    assume high: "\<not> f (ys ! i) \<le> hi"
    have "hi < f (drop i ys ! j)" if "j < length (drop i ys)" for j
      using mono [of i "i + j"] that high by (simp add: less_diff_conv add.commute)
    then have "filter ?P (drop i ys) = []" by (auto simp: filter_empty_conv in_set_conv_nth) fastforce
    then have "length (filter ?P ys) \<le> i"
      using split [of i] length_filter_le [of ?P "take i ys"] by simp
    then show False using assms(4) by simp
  qed
  ultimately show ?thesis ..
qed

lemma sdiv_two_between:
  "2 * lo \<le> x \<Longrightarrow> x \<le> 2 * hi \<Longrightarrow> lo \<le> x sdiv 2 \<and> x sdiv 2 \<le> hi" for x :: int
  by (simp add: signed_divide_int_def sgn_if) linarith

lemma sint_exact: "\<bar>x\<bar> < 2 ^ 63 \<Longrightarrow> sint (word_of_int x :: u64) = x"
  by (simp add: signed_of_int signed_take_bit_int_eq_self abs_less_iff)

lemma cs_median_majority:
  assumes "sorted (map sint ys)" "\<forall>y \<in> set ys. \<bar>sint y\<bar> < 2 ^ 62"
    and maj: "length ys < 2 * length (filter (\<lambda>y. lo \<le> sint y \<and> sint y \<le> hi) ys)"
  shows "lo \<le> sint (cs_median ys) \<and> sint (cs_median ys) \<le> hi"
proof -
  let ?n = "length ys" and ?m = "length (filter (\<lambda>y. lo \<le> sint y \<and> sint y \<le> hi) ys)"
  have le: "?m \<le> ?n" by simp
  have pos: "0 < ?n" using maj by (cases ys) simp_all
  show ?thesis
  proof (cases "odd ?n")
    case True
    have "lo \<le> sint (ys ! (?n div 2)) \<and> sint (ys ! (?n div 2)) \<le> hi"
      by (rule sorted_majority [OF assms(1)]) (use True maj pos in presburger)+
    then show ?thesis using True by (simp add: cs_median_def Let_def)
  next
    case False
    let ?a = "ys ! (?n div 2 - 1)" and ?b = "ys ! (?n div 2)"
    have a: "lo \<le> sint ?a \<and> sint ?a \<le> hi" and b: "lo \<le> sint ?b \<and> sint ?b \<le> hi"
      by (rule sorted_majority [OF assms(1)]; use False maj pos in presburger)+
    have small: "\<bar>sint ?a\<bar> < 2 ^ 62" "\<bar>sint ?b\<bar> < 2 ^ 62"
      using assms(2) pos False by (auto simp: less_imp_diff_less)
    have sum_below: "\<bar>sint ?a + sint ?b\<bar> < 2 ^ 63" using small by (simp add: abs_less_iff)
    have "?a + ?b = word_of_int (sint ?a + sint ?b)" by simp
    then have sum: "sint (?a + ?b) = sint ?a + sint ?b" using small by (metis sint_exact sum_below)
    have q: "lo \<le> sint (?a + ?b) sdiv 2 \<and> sint (?a + ?b) sdiv 2 \<le> hi"
      unfolding sum by (rule sdiv_two_between) (use a b in linarith)+
    have "- (2 ^ 62) \<le> sint (?a + ?b) sdiv 2 \<and> sint (?a + ?b) sdiv 2 \<le> 2 ^ 62"
      unfolding sum by (rule sdiv_two_between) (use small in linarith)+
    then have "sint (word_of_int (sint (?a + ?b) sdiv 2) :: u64) = sint (?a + ?b) sdiv 2"
      by (intro sint_exact) (simp add: abs_less_iff)
    then show ?thesis using q False by (simp add: cs_median_def Let_def)
  qed
qed

text \<open>
  CountSketch is accurate when most rows are.  For every sharding and merging of a signed
  stream of total magnitude below \<open>2^62\<close>: if in more than half of the rows the keys colliding with
  \<open>k\<close> contribute noise of at most \<open>B\<close>, the estimate of \<open>k\<close> is within \<open>B\<close> of its signed total
  (in particular exact when most rows have no collision).
\<close>

lemma cs_estimate_within_majority_noise:
  assumes "cs_new w d h = Inr s0" "magnitude (xs @ concat xss) < 2 ^ 62"
    and "d < 2 * length (filter (\<lambda>row. \<bar>cs_noise s0 (xs @ concat xss) k row\<bar> \<le> B) [0..<d])"
  shows "\<exists>s. merge_shards cs_update cs_merge_from s0 xs xss = Inr s
    \<and> \<bar>sint (cs_estimate_signed s k) - signed_truth (xs @ concat xss) k\<bar> \<le> B"
proof -
  let ?xs = "xs @ concat xss" and ?s = "feed cs_update s0 (xs @ concat xss)"
  have i: "cs_inv s0" by (rule cs_new_inv [OF assms(1)])
  have d: "cs_depth s0 = d" using assms(1) by (auto simp: cs_new_def split: if_splits)
  have z: "cs_table s0 ! cs_pos s0 k row = 0" if "row < d" for row
  proof -
    have "\<forall>x \<in> set (cs_table s0). x = 0" using assms(1) by (auto simp: cs_new_def split: if_splits)
    then show ?thesis using cs_cell_less [OF i, of row] that d by simp
  qed
  let ?e = "\<lambda>row. word_of_int (signed_truth ?xs k + cs_noise s0 ?xs k row) :: u64"
  have cfg: "cs_width ?s = cs_width s0" "cs_depth ?s = d" "cs_hash ?s = cs_hash s0"
    using cs.config_feed [OF i, of ?xs] d by (simp_all add: cs_config_iff)
  have est: "cs_estimate_signed ?s k = cs_median (sort_key sint (map ?e [0..<d]))"
    unfolding cs_estimate_signed_def Let_def cfg
    using cs_row_estimate [OF i _ z, of _ ?xs] d cs_cell_cong [OF cfg(1)]
    by (intro arg_cong [where f = cs_median] arg_cong [where f = "sort_key sint"] map_cong) auto
  have se: "sint (?e row) = signed_truth ?xs k + cs_noise s0 ?xs k row" for row
    using cs_row_bound [of ?xs k s0 row] assms(2) by (intro sint_exact) simp
  let ?lo = "signed_truth ?xs k - B" and ?hi = "signed_truth ?xs k + B"
  have flt: "length (filter (\<lambda>y. ?lo \<le> sint y \<and> sint y \<le> ?hi) (map ?e [0..<d]))
      = length (filter (\<lambda>row. \<bar>cs_noise s0 ?xs k row\<bar> \<le> B) [0..<d])"
    unfolding filter_map length_map comp_def se by (intro arg_cong [where f = length] filter_cong) auto
  have "?lo \<le> sint (cs_estimate_signed ?s k) \<and> sint (cs_estimate_signed ?s k) \<le> ?hi"
    unfolding est
  proof (rule cs_median_majority)
    show "sorted (map sint (sort_key sint (map ?e [0..<d])))" by (rule sorted_sort_key)
    show "\<forall>y \<in> set (sort_key sint (map ?e [0..<d])). \<bar>sint y\<bar> < 2 ^ 62"
      using cs_row_bound [of ?xs k s0] assms(2) by (auto simp: se intro: le_less_trans simp del: of_int_add)
    show "length (sort_key sint (map ?e [0..<d]))
        < 2 * length (filter (\<lambda>y. ?lo \<le> sint y \<and> sint y \<le> ?hi) (sort_key sint (map ?e [0..<d])))"
      using assms(3) flt by (simp add: filter_sort del: of_int_add)
  qed
  then show ?thesis using cs_merge_shards_feed [OF assms(1)] by (auto simp: abs_le_iff)
qed

section \<open>Snapshots\<close>

definition cs_wf :: "count_sketch \<Rightarrow> bool" where
  "cs_wf s \<longleftrightarrow> cs_inv s \<and> 8 + 8 * length (cs_table s) < 2 ^ 32"

lemma rd_many_i64:
  "rd_rest r = concat (map wr_i64 xs) @ b \<Longrightarrow>
   rd_many rd_i64 (length xs) r = Inr (xs, rd_adv (8 * length xs) r)"
  using rd_many_append [of xs wr_i64 rd_i64 r b] rd_i64_append
  by (simp add: length_concat_const [where n = 8] del: length_concat)

lemma cs_decode_encode:
  assumes wf: "cs_wf s"
  shows "cs_from_snapshot (cs_to_snapshot s ws we) = Inr s"
proof -
  define n where "n = cs_width s * cs_depth s"
  have "cs_width s * 1 \<le> n" "1 * cs_depth s \<le> n"
    using wf unfolding cs_wf_def cs_inv_def n_def by (intro mult_le_mono; simp)+
  moreover have pos: "0 < cs_width s" "0 < cs_depth s" and len: "length (cs_table s) = n"
    using wf unfolding cs_wf_def cs_inv_def n_def by auto
  moreover have n: "8 + 8 * n < 2 ^ 32" using wf unfolding cs_wf_def len by simp
  ultimately have d: "cs_width s < 2 ^ 32" "cs_depth s < 2 ^ 32" by linarith+
  have pl: "length (concat (map wr_i64 (cs_table s))) = 8 * n"
    using length_concat_const [of "cs_table s" wr_i64 8] len by simp
  let ?r = "rd_adv 8 (Reader_new (wr_u64 (cs_updates s) @ concat (map wr_i64 (cs_table s))))"
  have many: "rd_many rd_i64 n ?r = Inr (cs_table s, rd_adv (8 * n) ?r)"
    using rd_many_i64 [of ?r "cs_table s" "[]"] len by (simp del: drop_drop rd_adv_adv)
  have cnt: "rd_check_count n 8 ?r = Inr ()"
    using pl by (simp add: rd_check_count_def rd_remaining_rest del: drop_drop rd_adv_adv length_concat)
  show ?thesis
    unfolding cs_to_snapshot_def cs_from_snapshot_def
    using d pos pl many cnt n
    by (simp add: read_write_snapshot rd_eqs Let_def n_def [symmetric]
        del: drop_drop rd_adv_adv length_concat)
qed

interpretation cs_codec: snapshot_codec cs_wf cs_to_snapshot cs_from_snapshot
  by unfold_locales (rule cs_decode_encode)

end
