(* ===== verification/Exact.thy ===== *)
theory Exact
  imports SketchTrait HashMaps
begin

text \<open>
  \<^verbatim>\<open>flowsketch-algos/src/exact.rs\<close>: the exact counter that the benchmarks use as ground
  truth.  Shown here: after any sharding and merging its counts are the true totals, its distinct
  counts the true numbers of distinct items, and \<^verbatim>\<open>top_k\<close> lists the largest keys in order.
\<close>

section \<open>Definitions\<close>

text \<open>A \<^verbatim>\<open>HashSet\<close> is a list without repetitions.\<close>

record exact_counter =
  ex_counts :: "u64 hmap"
  ex_distinct :: "bytes list hmap"
  ex_total_weight :: u64
  ex_updates :: u64

definition ex_new :: exact_counter where
  "ex_new = \<lparr>ex_counts = [], ex_distinct = [], ex_total_weight = 0, ex_updates = 0\<rparr>"

definition ex_add :: "exact_counter \<Rightarrow> bytes \<Rightarrow> u64 \<Rightarrow> exact_counter" where
  "ex_add s key w = s\<lparr>ex_total_weight := ex_total_weight s + w, ex_updates := ex_updates s + 1,
     ex_counts := hm_add key w (ex_counts s)\<rparr>"

text \<open>\<^verbatim>\<open>m.entry(key).or_default()\<close> followed by inserting the items.\<close>

definition hm_insert_items :: "bytes \<Rightarrow> bytes list \<Rightarrow> bytes list hmap \<Rightarrow> bytes list hmap" where
  "hm_insert_items key items m =
     hm_insert key (fold List.insert items (case hm_get m key of None \<Rightarrow> [] | Some xs \<Rightarrow> xs)) m"

definition ex_insert_distinct :: "exact_counter \<Rightarrow> bytes \<Rightarrow> bytes \<Rightarrow> exact_counter" where
  "ex_insert_distinct s key item = s\<lparr>ex_updates := ex_updates s + 1,
     ex_distinct := hm_insert_items key [item] (ex_distinct s)\<rparr>"

definition ex_get :: "exact_counter \<Rightarrow> bytes \<Rightarrow> u64" where
  "ex_get s key = (case hm_get (ex_counts s) key of None \<Rightarrow> 0 | Some c \<Rightarrow> c)"

definition ex_distinct_count :: "exact_counter \<Rightarrow> bytes \<Rightarrow> u64" where
  "ex_distinct_count s key = (case hm_get (ex_distinct s) key of None \<Rightarrow> 0 | Some xs \<Rightarrow> word_of_nat (length xs))"

definition ex_top_k :: "exact_counter \<Rightarrow> nat \<Rightarrow> u64 hmap" where
  "ex_top_k s limit = take limit (sort_by_count (ex_counts s))"

definition ex_update :: "exact_counter \<Rightarrow> bytes \<Rightarrow> u64 \<Rightarrow> exact_counter" where
  "ex_update s key v = ex_add s key v"

text \<open>\<^verbatim>\<open>merge_from\<close> checks nothing: exact counters are always compatible.\<close>

definition ex_merge_from :: "exact_counter \<Rightarrow> exact_counter \<Rightarrow> exact_counter result" where
  "ex_merge_from s other = Inr (s\<lparr>ex_counts := hm_add_all (ex_counts other) (ex_counts s),
     ex_distinct := fold (\<lambda>(k, items). hm_insert_items k items) (ex_distinct other) (ex_distinct s),
     ex_total_weight := ex_total_weight s + ex_total_weight other,
     ex_updates := ex_updates s + ex_updates other\<rparr>)"

definition ex_reset :: "exact_counter \<Rightarrow> exact_counter" where
  "ex_reset s = s\<lparr>ex_counts := [], ex_distinct := [], ex_total_weight := 0, ex_updates := 0\<rparr>"

definition ex_compatibility :: "exact_counter \<Rightarrow> sketch_compatibility" where
  "ex_compatibility s = \<lparr>sc_algorithm = ''exact'', sc_version = 1, sc_hash = HashSpec_new 0, sc_params_hash = 0\<rparr>"

section \<open>Counts\<close>

definition ex_inv :: "exact_counter \<Rightarrow> bool" where
  "ex_inv s \<longleftrightarrow> hm_ok (ex_counts s) \<and> hm_ok (ex_distinct s)"

definition ex_summ :: "exact_counter \<Rightarrow> (bytes \<Rightarrow> nat) \<Rightarrow> nat \<Rightarrow> bool" where
  "ex_summ s t n \<longleftrightarrow> ex_inv s \<and> hm_val (ex_counts s) = t \<and> hm_sum (ex_counts s) = n
     \<and> unat (ex_total_weight s) = n"

lemma hm_ok_insert_items [simp]: "hm_ok m \<Longrightarrow> hm_ok (hm_insert_items k items m)"
  by (simp add: hm_insert_items_def)

lemma hm_ok_fold_items: "hm_ok m \<Longrightarrow> hm_ok (fold (\<lambda>(k, items). hm_insert_items k items) other m)"
  by (induction other arbitrary: m) auto

lemma ex_inv_update: "ex_inv s \<Longrightarrow> ex_inv (ex_update s k v)"
  by (simp add: ex_inv_def ex_update_def ex_add_def)

lemma ex_inv_merge: "ex_inv a \<Longrightarrow> ex_inv b \<Longrightarrow> ex_merge_from a b = Inr c \<Longrightarrow> ex_inv c"
  by (auto simp: ex_inv_def ex_merge_from_def hm_ok_add_all hm_ok_fold_items)

lemma ex_simps:
  "ex_inv s \<Longrightarrow> ex_inv (ex_reset s)" "ex_compatibility a = ex_compatibility b" "\<exists>c. ex_merge_from a b = Inr c"
  "ex_updates (ex_update s k v) = ex_updates s + 1" "ex_updates (ex_reset s) = 0"
  "ex_merge_from a b = Inr c \<Longrightarrow> ex_updates c = ex_updates a + ex_updates b"
  "ex_summ s t n \<Longrightarrow> ex_inv s"
  by (auto simp: ex_inv_def ex_reset_def ex_compatibility_def ex_merge_from_def ex_update_def ex_add_def ex_summ_def)

lemma ex_summ_update:
  "ex_summ s t n \<Longrightarrow> n + unat v < 2 ^ 64 \<Longrightarrow> ex_summ (ex_update s k v) (t(k := t k + unat v)) (n + unat v)"
  using hm_add_exact [of "ex_counts s" v k] ex_inv_update [of s k v]
  by (auto simp: ex_summ_def ex_update_def ex_add_def ex_inv_def u64_add_exact)

lemma ex_summ_merge:
  "ex_summ a t n \<Longrightarrow> ex_summ b t' n' \<Longrightarrow> n + n' < 2 ^ 64 \<Longrightarrow> ex_merge_from a b = Inr c \<Longrightarrow>
   ex_summ c (\<lambda>k. t k + t' k) (n + n')"
  using hm_add_all_exact [of "ex_counts a" "ex_counts b"]
  by (auto simp: ex_summ_def ex_merge_from_def ex_inv_def u64_add_exact hm_ok_fold_items fun_eq_iff)

lemmas ex_laws = ex_simps ex_inv_update ex_inv_merge ex_summ_update ex_summ_merge

interpretation ex: weighted_summary ex_inv ex_update ex_merge_from ex_reset ex_updates
    ex_compatibility "\<lambda>_. ()" ex_summ
  by unfold_locales (blast intro: ex_laws)+

lemma ex_summ_new: "ex_summ ex_new (\<lambda>_. 0) 0"
  by (simp add: ex_summ_def ex_new_def ex_inv_def fun_eq_iff)

lemma ex_get_val: "unat (ex_get s k) = hm_val (ex_counts s) k"
  by (simp add: ex_get_def hm_val_def split: option.split)

section \<open>The largest keys\<close>

lemma ex_top_k_spec:
  assumes "hm_ok (ex_counts s)"
  shows "(\<forall>(k, c) \<in> set (ex_top_k s limit). ex_get s k = c)
    \<and> sorted_wrt (\<lambda>(k, c) (k', c'). c' < c \<or> c' = c \<and> k < k') (ex_top_k s limit)
    \<and> length (ex_top_k s limit) = min limit (length (ex_counts s))
    \<and> (\<forall>(k, c) \<in> set (ex_top_k s limit). \<forall>k'. k' \<notin> fst ` set (ex_top_k s limit) \<longrightarrow> ex_get s k' \<le> c)"
proof -
  let ?key = "\<lambda>(k, c). (- uint (c :: u64), k :: bytes)" and ?m = "ex_counts s"
  let ?all = "sort_by_count ?m"
  have ok: "hm_ok ?all" using assms by (simp add: sort_by_count_def hm_ok_sort_key)
  then have "distinct (map ?key ?all)"
    by (auto simp: hm_ok_def distinct_map inj_on_def word_uint_eq_iff)
  moreover have "sorted (map ?key ?all)" unfolding sort_by_count_def by (rule sorted_sort_key)
  ultimately have "sorted_wrt (<) (map ?key ?all)" by (simp add: strict_sorted_iff)
  then have srt: "sorted_wrt (\<lambda>x y. ?key x < ?key y) ?all" by (simp add: sorted_wrt_map)
  have less: "(\<lambda>x y. ?key x < ?key y) = (\<lambda>(k, c) (k', c'). c' < c \<or> c' = c \<and> k < k')"
    by (auto simp: fun_eq_iff word_less_alt word_uint_eq_iff)
  have tk: "sorted_wrt (\<lambda>(k, c) (k', c'). c' < c \<or> c' = c \<and> k < k') (take n ?all)" for n
    using srt unfolding less by (rule sorted_wrt_take)
  have mem: "ex_get s k = c" if "(k, c) \<in> set ?all" for k c
    using that hm_mem_get [OF assms, of k c] by (simp add: ex_get_def sort_by_count_def)
  have out: "ex_get s k' \<le> c" if kc: "(k, c) \<in> set (take limit ?all)" and k': "k' \<notin> fst ` set (take limit ?all)" for k c k'
  proof (cases "hm_get ?m k'")
    case None
    then show ?thesis by (simp add: ex_get_def)
  next
    case (Some c')
    then have "(k', c') \<in> set ?all" using hm_get_mem by (simp add: sort_by_count_def)
    moreover have "(k', c') \<notin> set (take limit ?all)" using k' by force
    ultimately have "(k', c') \<in> set (drop limit ?all)" by (metis Un_iff append_take_drop_id set_append)
    then have "?key (k, c) < ?key (k', c')"
      using srt kc sorted_wrt_append [of "\<lambda>x y. ?key x < ?key y" "take limit ?all" "drop limit ?all"]
      unfolding append_take_drop_id by blast
    then have "c' \<le> c" by (auto simp: word_less_alt word_le_def)
    then show ?thesis using Some by (simp add: ex_get_def)
  qed
  show ?thesis unfolding ex_top_k_def using mem tk out
    by (auto simp: sort_by_count_def dest: in_set_takeD)
qed

text \<open>
  The ground truth is the truth.  For every sharding and merging of a weighted stream of
  total weight below \<open>2^64\<close>, every key's count is its true total, \<^verbatim>\<open>top_k\<close> lists true
  totals in decreasing order (ties by key), and no key outside the list has a larger total than a
  listed one.
\<close>

lemma exact_counts_are_ground_truth:
  assumes "weight (xs @ concat xss) < 2 ^ 64"
  shows "\<exists>s. merge_shards ex_update ex_merge_from ex_new xs xss = Inr s
    \<and> (\<forall>k. unat (ex_get s k) = truth (xs @ concat xss) k)
    \<and> unat (ex_total_weight s) = weight (xs @ concat xss)
    \<and> (\<forall>(k, c) \<in> set (ex_top_k s limit). unat c = truth (xs @ concat xss) k)
    \<and> sorted_wrt (\<lambda>(k, c) (k', c'). c' < c \<or> c' = c \<and> k < k') (ex_top_k s limit)
    \<and> (\<forall>(k, c) \<in> set (ex_top_k s limit). \<forall>k'. k' \<notin> fst ` set (ex_top_k s limit) \<longrightarrow>
         truth (xs @ concat xss) k' \<le> unat c)"
proof -
  obtain s where s: "merge_shards ex_update ex_merge_from ex_new xs xss = Inr s"
    "ex_summ s (truth (xs @ concat xss)) (weight (xs @ concat xss))"
    using ex.summ_merge_shards [OF ex_summ_new assms] by blast
  have ok: "hm_ok (ex_counts s)" using s(2) by (simp add: ex_summ_def ex_inv_def)
  have get: "unat (ex_get s k) = truth (xs @ concat xss) k" for k
    using s(2) by (simp add: ex_get_val ex_summ_def)
  have w: "unat (ex_total_weight s) = weight (xs @ concat xss)" using s(2) by (simp add: ex_summ_def)
  note top = ex_top_k_spec [OF ok, of limit]
  have "unat c = truth (xs @ concat xss) k" if "(k, c) \<in> set (ex_top_k s limit)" for k c
    using top that get [of k] by auto
  moreover have "truth (xs @ concat xss) k' \<le> unat c"
    if "(k, c) \<in> set (ex_top_k s limit)" "k' \<notin> fst ` set (ex_top_k s limit)" for k c k'
  proof -
    have "ex_get s k' \<le> c" using top that by blast
    then show ?thesis using get [of k'] by (simp add: word_le_nat_alt)
  qed
  ultimately show ?thesis using s(1) get w top by blast
qed

end
