(* ===== verification/BinaryHeap.thy ===== *)
theory BinaryHeap
  imports Prelude
begin

text \<open>
  Array-embedded binary min-heaps: the order facts behind \<^verbatim>\<open>sift_up\<close> and
  \<^verbatim>\<open>sift_down\<close>.  A heap of \<open>n\<close> nodes is the function \<open>v\<close> from positions to keys of any
  linear order; the two sifting loops keep the heap order everywhere except around one position.
\<close>

definition heap_parent :: "nat \<Rightarrow> nat" where
  "heap_parent i = (i - 1) div 2"

definition heap_ok :: "nat \<Rightarrow> (nat \<Rightarrow> 'a::linorder) \<Rightarrow> bool" where
  "heap_ok n v \<longleftrightarrow> (\<forall>i<n. 0 < i \<longrightarrow> v (heap_parent i) \<le> v i)"

text \<open>Heap order except below \<open>i\<close>: the children of \<open>i\<close> may be smaller than \<open>i\<close>, but not
  smaller than \<open>i\<close>'s parent.\<close>

definition heap_down :: "nat \<Rightarrow> (nat \<Rightarrow> 'a::linorder) \<Rightarrow> nat \<Rightarrow> bool" where
  "heap_down n v i \<longleftrightarrow> (\<forall>j<n. 0 < j \<longrightarrow> heap_parent j \<noteq> i \<longrightarrow> v (heap_parent j) \<le> v j)
     \<and> (0 < i \<longrightarrow> (\<forall>j<n. 0 < j \<longrightarrow> heap_parent j = i \<longrightarrow> v (heap_parent i) \<le> v j))"

text \<open>Heap order except above \<open>i\<close>: \<open>i\<close> may be smaller than its parent, but its children are
  not smaller than that parent.\<close>

definition heap_up :: "nat \<Rightarrow> (nat \<Rightarrow> 'a::linorder) \<Rightarrow> nat \<Rightarrow> bool" where
  "heap_up n v i \<longleftrightarrow> (\<forall>j<n. 0 < j \<longrightarrow> j \<noteq> i \<longrightarrow> v (heap_parent j) \<le> v j)
     \<and> (0 < i \<longrightarrow> (\<forall>j<n. 0 < j \<longrightarrow> heap_parent j = i \<longrightarrow> v (heap_parent i) \<le> v j))"

definition swap_at :: "nat \<Rightarrow> nat \<Rightarrow> (nat \<Rightarrow> 'a) \<Rightarrow> nat \<Rightarrow> 'a" where
  "swap_at i j v = v(i := v j, j := v i)"

lemma heap_parent_less: "0 < i \<Longrightarrow> heap_parent i < i"
  by (simp add: heap_parent_def)

lemma heap_children: "0 < j \<Longrightarrow> heap_parent j = i \<longleftrightarrow> j = 2 * i + 1 \<or> j = 2 * i + 2"
  by (auto simp: heap_parent_def)

lemma heap_root_le: "heap_ok n v \<Longrightarrow> i < n \<Longrightarrow> v 0 \<le> v i"
proof (induction i rule: less_induct)
  case (less i)
  show ?case
  proof (cases "i = 0")
    case False
    then have "v 0 \<le> v (heap_parent i)"
      using less heap_parent_less [of i] by auto
    also have "\<dots> \<le> v i" using less.prems False by (simp add: heap_ok_def)
    finally show ?thesis .
  qed simp
qed

text \<open>Only positions below \<open>n\<close> matter.\<close>

lemma heap_cong:
  assumes "\<And>i. i < n \<Longrightarrow> v i = w i"
  shows "heap_ok n v = heap_ok n w"
    "i < n \<Longrightarrow> heap_down n v i = heap_down n w i" "i < n \<Longrightarrow> heap_up n v i = heap_up n w i"
proof -
  have p: "v (heap_parent j) = w (heap_parent j)" if "j < n" for j
    using assms [of "heap_parent j"] that heap_parent_less [of j] by (cases "j = 0") (auto simp: heap_parent_def)
  show "heap_ok n v = heap_ok n w" using assms p by (auto simp: heap_ok_def)
  show "heap_down n v i = heap_down n w i" if "i < n"
    using assms p that by (auto simp: heap_down_def)
  show "heap_up n v i = heap_up n w i" if "i < n"
    using assms p that by (auto simp: heap_up_def)
qed

lemma heap_down_stop:
  assumes "heap_down n v i" "\<And>c. c < n \<Longrightarrow> 0 < c \<Longrightarrow> heap_parent c = i \<Longrightarrow> v i \<le> v c"
  shows "heap_ok n v"
  unfolding heap_ok_def
proof (intro allI impI)
  fix j assume j: "j < n" "0 < j"
  show "v (heap_parent j) \<le> v j"
  proof (cases "heap_parent j = i")
    case True
    then show ?thesis using assms(2) [OF j] by simp
  next
    case False
    then show ?thesis using assms(1) j by (simp add: heap_down_def)
  qed
qed

lemma heap_down_swap:
  assumes "heap_down n v i" "c < n" "0 < c" "heap_parent c = i" "v c < v i"
    and least: "\<And>c'. c' < n \<Longrightarrow> 0 < c' \<Longrightarrow> heap_parent c' = i \<Longrightarrow> v c \<le> v c'"
  shows "heap_down n (swap_at i c v) c"
proof -
  have ic: "i < c" using assms(3,4) heap_parent_less by blast
  have grand: "v (heap_parent i) \<le> v c" if "0 < i" using assms(1-4) that by (auto simp: heap_down_def)
  have "swap_at i c v (heap_parent j) \<le> swap_at i c v j"
    if j: "j < n" "0 < j" "heap_parent j \<noteq> c" for j
  proof -
    consider "j = c" | "j = i" | "heap_parent j = i" "j \<noteq> c" | "heap_parent j \<noteq> i" "j \<noteq> i" "j \<noteq> c" by blast
    then show ?thesis
    proof cases
      case 1
      then show ?thesis using assms(4,5) ic by (simp add: swap_at_def)
    next
      case 2
      then have "heap_parent i < i" using j heap_parent_less by blast
      then show ?thesis using 2 grand ic j by (simp add: swap_at_def)
    next
      case 3
      then have "j \<noteq> i" using heap_parent_less [of j] j(2) by simp
      then show ?thesis using 3 least j ic by (simp add: swap_at_def)
    next
      case 4
      then show ?thesis using assms(1) j by (simp add: swap_at_def heap_down_def)
    qed
  qed
  moreover have "swap_at i c v (heap_parent c) \<le> swap_at i c v j"
    if j: "j < n" "0 < j" "heap_parent j = c" for j
  proof -
    have "c < j" using j heap_parent_less by blast
    then have "v c \<le> v j" using assms(1) j ic by (auto simp: heap_down_def)
    then show ?thesis using assms(4) ic \<open>c < j\<close> by (simp add: swap_at_def)
  qed
  ultimately show ?thesis by (simp add: heap_down_def)
qed

lemma heap_up_stop:
  assumes "heap_up n v i" "0 < i \<Longrightarrow> i < n \<Longrightarrow> v (heap_parent i) \<le> v i"
  shows "heap_ok n v"
  using assms by (auto simp: heap_up_def heap_ok_def)

lemma heap_up_swap:
  assumes "heap_up n v i" "i < n" "0 < i" "v i < v (heap_parent i)"
  shows "heap_up n (swap_at i (heap_parent i) v) (heap_parent i)"
proof -
  let ?p = "heap_parent i" and ?v = "swap_at i (heap_parent i) v"
  have pi: "?p < i" using assms(3) by (rule heap_parent_less)
  have ord: "v (heap_parent j) \<le> v j" if "j < n" "0 < j" "j \<noteq> i" for j
    using assms(1) that by (simp add: heap_up_def)
  have "?v (heap_parent j) \<le> ?v j" if j: "j < n" "0 < j" "j \<noteq> ?p" for j
  proof -
    consider "j = i" | "heap_parent j = i" | "heap_parent j = ?p" "j \<noteq> i" | "heap_parent j \<noteq> i" "heap_parent j \<noteq> ?p" "j \<noteq> i" by blast
    then show ?thesis
    proof cases
      case 1
      then show ?thesis using assms(4) pi by (simp add: swap_at_def)
    next
      case 2
      then have "i < j" using j heap_parent_less by blast
      then have "v ?p \<le> v j" using assms(1,3) j 2 by (simp add: heap_up_def)
      then show ?thesis using 2 \<open>i < j\<close> j pi by (simp add: swap_at_def)
    next
      case 3
      then show ?thesis using ord [of j] j assms(4) pi by (simp add: swap_at_def)
    next
      case 4
      then show ?thesis using ord [of j] j by (simp add: swap_at_def)
    qed
  qed
  moreover have "?v (heap_parent ?p) \<le> ?v j" if p: "0 < ?p" and j: "j < n" "0 < j" "heap_parent j = ?p" for j
  proof -
    have pp: "heap_parent ?p < ?p" using p by (rule heap_parent_less)
    have "v (heap_parent ?p) \<le> v ?p" using ord [of ?p] p pi assms(2) by simp
    moreover have "v (heap_parent ?p) \<le> v j" if "j \<noteq> i"
      using ord [of j] that j calculation by simp
    moreover have "?p < j" using heap_parent_less [of j] j by simp
    ultimately show ?thesis using pp pi by (auto simp: swap_at_def)
  qed
  ultimately show ?thesis by (simp add: heap_up_def)
qed

text \<open>Appending a node, and raising the key of one node.\<close>

lemma heap_up_append: "heap_ok n v \<Longrightarrow> heap_up (Suc n) v n"
proof -
  assume h: "heap_ok n v"
  have "heap_parent j \<noteq> n" if "j < Suc n" "0 < j" for j
    using that heap_parent_less [of j] by simp
  then show ?thesis using h by (auto simp: heap_up_def heap_ok_def)
qed

lemma heap_down_raise:
  assumes "heap_ok n v" "i < n" "v i \<le> x"
  shows "heap_down n (v(i := x)) i"
proof -
  have ord: "v (heap_parent j) \<le> v j" if "j < n" "0 < j" for j using assms(1) that by (simp add: heap_ok_def)
  have "heap_parent j < j" if "0 < j" for j using that by (rule heap_parent_less)
  then have ne: "heap_parent j \<noteq> j" if "0 < j" for j using that by (metis less_irrefl)
  show ?thesis
    unfolding heap_down_def
  proof (intro conjI allI impI)
    fix j assume "j < n" "0 < j" "heap_parent j \<noteq> i"
    then show "(v(i := x)) (heap_parent j) \<le> (v(i := x)) j"
      using ord [of j] assms(3) order_trans by (auto simp: le_less_trans)
  next
    fix j assume "0 < i" "j < n" "0 < j" "heap_parent j = i"
    then show "(v(i := x)) (heap_parent i) \<le> (v(i := x)) j"
      using ord [of j] ord [of i] assms(2) ne [of i] ne [of j] by auto
  qed
qed

lemma heap_down_root: "heap_ok n v \<Longrightarrow> heap_down n (v(0 := x)) 0"
  by (auto simp: heap_down_def heap_ok_def)

end
