(* ===== verification/SpaceSaving.thy ===== *)
theory SpaceSaving
  imports SketchTrait HashMaps BinaryHeap
begin

text \<open>
  \<^verbatim>\<open>flowsketch-algos/src/space_saving.rs\<close>: SpaceSaving with its arena of slots, the
  digest index with collision buckets and the binary min-heap of slot indices.  Every mutation
  is modelled at that level; the invariant \<open>ss_inv\<close> ties the three structures together, and the
  accuracy theorems are about the key/entry map they represent.

  A panic (\<^verbatim>\<open>expect\<close> on a missing index bucket, collision entry or heap root) is the value
  \<open>None\<close>.  \<^verbatim>\<open>epsilon\<close> (floating point), \<^verbatim>\<open>memory_bytes\<close> and the
  \<^verbatim>\<open>debug_assert\<close>s are not modelled; \<^verbatim>\<open>add_key_buf\<close> differs from
  \<^verbatim>\<open>add\<close> only in which buffer owns the key and what is left in the caller's scratch
  buffer.
\<close>

section \<open>Data\<close>

record ss_entry =
  e_count :: u64
  e_error :: u64

definition ss_guaranteed :: "ss_entry \<Rightarrow> u64" where
  "ss_guaranteed e = e_count e - e_error e"

record ss_slot =
  sl_key :: bytes
  sl_digest :: u64
  sl_entry :: ss_entry
  sl_heap_index :: nat

datatype index_bucket = One nat | Many "nat list"

record space_saving =
  ss_capacity :: nat
  ss_hash :: hash_spec
  ss_slots :: "ss_slot list"
  ss_key_index :: "(u64 \<times> index_bucket) list"
  ss_min_heap :: "nat list"
  ss_total_weight :: u64
  ss_updates :: u64

section \<open>Operations\<close>

definition ss_new :: "nat \<Rightarrow> hash_spec \<Rightarrow> space_saving result" where
  "ss_new capacity hash =
     (if capacity = 0 then Inl (InvalidParam ''spacesaving capacity must be positive'')
      else Inr \<lparr>ss_capacity = capacity, ss_hash = hash, ss_slots = [], ss_key_index = [],
                ss_min_heap = [], ss_total_weight = 0, ss_updates = 0\<rparr>)"

definition ss_key_digest :: "space_saving \<Rightarrow> bytes \<Rightarrow> u64" where
  "ss_key_digest s key = hash64 key (hs_seed (ss_hash s) XOR 0x5350414345534156)"

definition ss_find_slot_with_digest :: "space_saving \<Rightarrow> bytes \<Rightarrow> u64 \<Rightarrow> nat option" where
  "ss_find_slot_with_digest s key digest =
     (case hm_get (ss_key_index s) digest of
        None \<Rightarrow> None
      | Some (One i) \<Rightarrow> if sl_key (ss_slots s ! i) = key then Some i else None
      | Some (Many is) \<Rightarrow> List.find (\<lambda>i. sl_key (ss_slots s ! i) = key) is)"

definition ss_find_slot :: "space_saving \<Rightarrow> bytes \<Rightarrow> nat option" where
  "ss_find_slot s key = ss_find_slot_with_digest s key (ss_key_digest s key)"

definition ss_add_to_index :: "space_saving \<Rightarrow> u64 \<Rightarrow> nat \<Rightarrow> space_saving" where
  "ss_add_to_index s digest i =
     (let bucket = (case hm_get (ss_key_index s) digest of
          None \<Rightarrow> One i
        | Some (One existing) \<Rightarrow> Many [existing, i]
        | Some (Many is) \<Rightarrow> Many (is @ [i]))
      in s\<lparr>ss_key_index := hm_insert digest bucket (ss_key_index s)\<rparr>)"

text \<open>\<^verbatim>\<open>Vec::swap_remove\<close>: the last element takes the place of the removed one.\<close>

definition swap_remove :: "nat \<Rightarrow> 'a list \<Rightarrow> 'a list" where
  "swap_remove p xs = butlast (xs[p := last xs])"

fun position :: "'a \<Rightarrow> 'a list \<Rightarrow> nat option" where
  "position x [] = None"
| "position x (y # ys) = (if x = y then Some 0 else map_option Suc (position x ys))"

definition ss_remove_from_index :: "space_saving \<Rightarrow> u64 \<Rightarrow> nat \<Rightarrow> space_saving option" where
  "ss_remove_from_index s digest i =
     (case hm_get (ss_key_index s) digest of
        None \<Rightarrow> None
      | Some (One existing) \<Rightarrow> Some (s\<lparr>ss_key_index := hm_remove digest (ss_key_index s)\<rparr>)
      | Some (Many is) \<Rightarrow>
          (case position i is of
             None \<Rightarrow> None
           | Some p \<Rightarrow>
               let is = swap_remove p is;
                   bucket = (if length is = 1 then One (is ! 0) else Many is)
               in Some (s\<lparr>ss_key_index := hm_insert digest bucket (ss_key_index s)\<rparr>)))"

text \<open>Comparison by count, then digest, then key.\<close>

definition ss_rank :: "ss_slot \<Rightarrow> u64 \<times> u64 \<times> bytes" where
  "ss_rank sl = (e_count (sl_entry sl), sl_digest sl, sl_key sl)"

definition ss_slot_is_less :: "space_saving \<Rightarrow> nat \<Rightarrow> nat \<Rightarrow> bool" where
  "ss_slot_is_less s left right \<longleftrightarrow> ss_rank (ss_slots s ! left) < ss_rank (ss_slots s ! right)"

definition ss_heap_slot_is_less :: "space_saving \<Rightarrow> nat \<Rightarrow> nat \<Rightarrow> bool" where
  "ss_heap_slot_is_less s left right \<longleftrightarrow>
     ss_slot_is_less s (ss_min_heap s ! left) (ss_min_heap s ! right)"

definition ss_swap_heap :: "space_saving \<Rightarrow> nat \<Rightarrow> nat \<Rightarrow> space_saving" where
  "ss_swap_heap s left right =
     (let h = (ss_min_heap s)[left := ss_min_heap s ! right, right := ss_min_heap s ! left];
          sl = (ss_slots s)[h ! left := (ss_slots s ! (h ! left))\<lparr>sl_heap_index := left\<rparr>];
          sl = sl[h ! right := (sl ! (h ! right))\<lparr>sl_heap_index := right\<rparr>]
      in s\<lparr>ss_min_heap := h, ss_slots := sl\<rparr>)"

function ss_sift_up :: "space_saving \<Rightarrow> nat \<Rightarrow> space_saving" where
  "ss_sift_up s index =
     (if 0 < index then
        let parent = (index - 1) div 2 in
        if \<not> ss_heap_slot_is_less s index parent then s
        else ss_sift_up (ss_swap_heap s index parent) parent
      else s)"
  by auto
termination by (relation "measure snd") auto

function ss_sift_down :: "space_saving \<Rightarrow> nat \<Rightarrow> space_saving" where
  "ss_sift_down s index =
     (let left = index * 2 + 1 in
      if length (ss_min_heap s) \<le> left then s
      else
        let right = left + 1;
            smallest = (if right < length (ss_min_heap s) \<and> ss_heap_slot_is_less s right left
                        then right else left)
        in if \<not> ss_heap_slot_is_less s smallest index then s
           else ss_sift_down (ss_swap_heap s index smallest) smallest)"
  by auto
termination
  by (relation "measure (\<lambda>(s, i). length (ss_min_heap s) - i)") (auto simp: ss_swap_heap_def Let_def)

declare ss_sift_up.simps [simp del] ss_sift_down.simps [simp del]

definition ss_insert_entry_with_digest ::
  "space_saving \<Rightarrow> bytes \<Rightarrow> u64 \<Rightarrow> u64 \<Rightarrow> u64 \<Rightarrow> space_saving" where
  "ss_insert_entry_with_digest s key digest cnt err =
     (let slot_index = length (ss_slots s);
          heap_index = length (ss_min_heap s);
          s = s\<lparr>ss_slots := ss_slots s @ [\<lparr>sl_key = key, sl_digest = digest,
                  sl_entry = \<lparr>e_count = cnt, e_error = err\<rparr>, sl_heap_index = heap_index\<rparr>]\<rparr>;
          s = ss_add_to_index s digest slot_index;
          s = s\<lparr>ss_min_heap := ss_min_heap s @ [slot_index]\<rparr>
      in ss_sift_up s heap_index)"

definition ss_insert_entry :: "space_saving \<Rightarrow> bytes \<Rightarrow> u64 \<Rightarrow> u64 \<Rightarrow> space_saving" where
  "ss_insert_entry s key cnt err = ss_insert_entry_with_digest s key (ss_key_digest s key) cnt err"

text \<open>Returns the new state and the evicted key.\<close>

definition ss_replace_min ::
  "space_saving \<Rightarrow> bytes \<Rightarrow> u64 \<Rightarrow> u64 \<Rightarrow> u64 \<Rightarrow> (space_saving \<times> bytes) option" where
  "ss_replace_min s key digest cnt err =
     (case ss_min_heap s of
        [] \<Rightarrow> None
      | slot_index # _ \<Rightarrow>
          (case ss_remove_from_index s (sl_digest (ss_slots s ! slot_index)) slot_index of
             None \<Rightarrow> None
           | Some s \<Rightarrow>
               let slot = ss_slots s ! slot_index;
                   old_key = sl_key slot;
                   slot = slot\<lparr>sl_key := key, sl_digest := digest,
                     sl_entry := \<lparr>e_count = cnt, e_error = err\<rparr>\<rparr>;
                   s = s\<lparr>ss_slots := (ss_slots s)[slot_index := slot]\<rparr>;
                   s = ss_add_to_index s digest slot_index
               in Some (ss_sift_down s 0, old_key)))"

definition ss_minimum_count :: "space_saving \<Rightarrow> u64" where
  "ss_minimum_count s =
     (case ss_min_heap s of [] \<Rightarrow> 0 | i # _ \<Rightarrow> e_count (sl_entry (ss_slots s ! i)))"

definition ss_add :: "space_saving \<Rightarrow> bytes \<Rightarrow> u64 \<Rightarrow> space_saving option" where
  "ss_add s key w =
     (let s = s\<lparr>ss_total_weight := ss_total_weight s + w, ss_updates := ss_updates s + 1\<rparr>;
          digest = ss_key_digest s key
      in case ss_find_slot_with_digest s key digest of
           Some i \<Rightarrow>
             let slot = ss_slots s ! i;
                 slot = slot\<lparr>sl_entry := (sl_entry slot)\<lparr>e_count := e_count (sl_entry slot) + w\<rparr>\<rparr>;
                 s = s\<lparr>ss_slots := (ss_slots s)[i := slot]\<rparr>
             in Some (ss_sift_down s (sl_heap_index slot))
         | None \<Rightarrow>
             if length (ss_slots s) < ss_capacity s
             then Some (ss_insert_entry_with_digest s key digest w 0)
             else let minimum = ss_minimum_count s
                  in map_option fst (ss_replace_min s key digest (minimum + w) minimum))"

text \<open>\<^verbatim>\<open>add_key_buf\<close>: the scratch buffer left to the caller is the second component.\<close>

definition ss_add_key_buf :: "space_saving \<Rightarrow> bytes \<Rightarrow> u64 \<Rightarrow> (space_saving \<times> bytes) option" where
  "ss_add_key_buf s key w =
     (let s = s\<lparr>ss_total_weight := ss_total_weight s + w, ss_updates := ss_updates s + 1\<rparr>;
          digest = ss_key_digest s key
      in case ss_find_slot_with_digest s key digest of
           Some i \<Rightarrow>
             let slot = ss_slots s ! i;
                 slot = slot\<lparr>sl_entry := (sl_entry slot)\<lparr>e_count := e_count (sl_entry slot) + w\<rparr>\<rparr>;
                 s = s\<lparr>ss_slots := (ss_slots s)[i := slot]\<rparr>
             in Some (ss_sift_down s (sl_heap_index slot), [])
         | None \<Rightarrow>
             if length (ss_slots s) < ss_capacity s
             then Some (ss_insert_entry_with_digest s key digest w 0, [])
             else let minimum = ss_minimum_count s in
                  map_option (\<lambda>(s, scratch). (s, [])) (ss_replace_min s key digest (minimum + w) minimum))"

text \<open>The trait's \<^verbatim>\<open>update\<close>: a panic does not return.\<close>

definition ss_update :: "space_saving \<Rightarrow> bytes \<Rightarrow> u64 \<Rightarrow> space_saving" where
  "ss_update s key w = the (ss_add s key w)"

definition ss_get :: "space_saving \<Rightarrow> bytes \<Rightarrow> ss_entry option" where
  "ss_get s key = map_option (\<lambda>i. sl_entry (ss_slots s ! i)) (ss_find_slot s key)"

text \<open>\<^verbatim>\<open>sort_by\<close> of \<^verbatim>\<open>top_k\<close> and of the merge.\<close>

definition ss_sort :: "(bytes \<times> ss_entry) list \<Rightarrow> (bytes \<times> ss_entry) list" where
  "ss_sort es = sort_key (\<lambda>(k, e). (- uint (e_count e), k)) es"

definition ss_top_k :: "space_saving \<Rightarrow> nat \<Rightarrow> (bytes \<times> ss_entry) list" where
  "ss_top_k s limit = take limit (ss_sort (map (\<lambda>sl. (sl_key sl, sl_entry sl)) (ss_slots s)))"

definition ss_params_hash :: "space_saving \<Rightarrow> u64" where
  "ss_params_hash s = hash64 (le_bytes 8 (word_of_nat (ss_capacity s) :: u64)) 0"

definition ss_compatibility :: "space_saving \<Rightarrow> sketch_compatibility" where
  "ss_compatibility s = \<lparr>sc_algorithm = ''spacesaving'', sc_version = 1, sc_hash = ss_hash s,
     sc_params_hash = ss_params_hash s\<rparr>"

definition ss_merged :: "space_saving \<Rightarrow> space_saving \<Rightarrow> (bytes \<times> ss_entry) list" where
  "ss_merged s other =
     (let self_min = (if ss_capacity s \<le> length (ss_slots s) then ss_minimum_count s else 0);
          other_min = (if ss_capacity other \<le> length (ss_slots other) then ss_minimum_count other else 0)
      in map (\<lambda>slot.
             let (other_count, other_error) =
               (case ss_get other (sl_key slot) of
                  Some e \<Rightarrow> (e_count e, e_error e) | None \<Rightarrow> (other_min, other_min))
             in (sl_key slot, \<lparr>e_count = e_count (sl_entry slot) + other_count,
                               e_error = e_error (sl_entry slot) + other_error\<rparr>)) (ss_slots s)
         @ map (\<lambda>slot. (sl_key slot, \<lparr>e_count = e_count (sl_entry slot) + self_min,
                               e_error = e_error (sl_entry slot) + self_min\<rparr>))
             (filter (\<lambda>slot. ss_get s (sl_key slot) = None) (ss_slots other)))"

definition ss_merge_from :: "space_saving \<Rightarrow> space_saving \<Rightarrow> space_saving result" where
  "ss_merge_from s other =
     rbind (ensure_matches (ss_compatibility s) (ss_compatibility other)) (\<lambda>_.
       let merged = take (ss_capacity s) (ss_sort (ss_merged s other));
           s = s\<lparr>ss_slots := [], ss_key_index := [], ss_min_heap := []\<rparr>;
           s = fold (\<lambda>(key, e) s. ss_insert_entry s key (e_count e) (e_error e)) merged s
       in Inr (s\<lparr>ss_total_weight := ss_total_weight s + ss_total_weight other,
                 ss_updates := ss_updates s + ss_updates other\<rparr>))"

definition ss_reset :: "space_saving \<Rightarrow> space_saving" where
  "ss_reset s = s\<lparr>ss_slots := [], ss_key_index := [], ss_min_heap := [],
                  ss_total_weight := 0, ss_updates := 0\<rparr>"

definition ss_to_snapshot :: "space_saving \<Rightarrow> u64 \<Rightarrow> u64 \<Rightarrow> bytes" where
  "ss_to_snapshot s ws we =
     (let indices = sort_key (\<lambda>i. sl_key (ss_slots s ! i)) [0..<length (ss_slots s)] in
      write_snapshot \<lparr>sh_version = SNAPSHOT_VERSION, sh_algorithm_id = SPACE_SAVING,
         sh_hash = ss_hash s, sh_window_start_nanos = ws, sh_window_end_nanos = we\<rparr>
       (wr_u64 (word_of_nat (ss_capacity s)))
       (wr_u64 (ss_total_weight s) @ wr_u64 (ss_updates s)
        @ wr_u32 (word_of_nat (length (ss_slots s)))
        @ concat (map (\<lambda>i. let slot = ss_slots s ! i in
            wr_lp_bytes (sl_key slot) @ wr_u64 (e_count (sl_entry slot))
            @ wr_u64 (e_error (sl_entry slot))) indices)))"

text \<open>The entry loop of the decoder.\<close>

fun ss_read_entries :: "nat \<Rightarrow> reader \<Rightarrow> space_saving \<Rightarrow> space_saving result" where
  "ss_read_entries 0 r summary = Inr summary"
| "ss_read_entries (Suc n) r summary =
     rbind (rd_lp_bytes r) (\<lambda>(key, r).
     rbind (rd_u64 r) (\<lambda>(cnt, r).
     rbind (rd_u64 r) (\<lambda>(err, r).
     if cnt < err then Inl (Snapshot ''spacesaving snapshot entry error exceeds count'') else
     let digest = ss_key_digest summary key in
     if ss_find_slot_with_digest summary key digest \<noteq> None
     then Inl (Snapshot ''spacesaving snapshot contains a duplicate key'') else
     ss_read_entries n r (ss_insert_entry_with_digest summary key digest cnt err))))"

definition ss_from_snapshot :: "bytes \<Rightarrow> space_saving result" where
  "ss_from_snapshot bs =
     rbind (read_snapshot bs) (\<lambda>(header, params, payload).
     if sh_algorithm_id header \<noteq> SPACE_SAVING then Inl (Snapshot ''not a spacesaving snapshot'') else
     rbind (rd_u64 (Reader_new params)) (\<lambda>(encoded_capacity, p).
     let capacity = unat encoded_capacity in
     if capacity = 0 then Inl (Snapshot ''spacesaving snapshot capacity must be positive'') else
     rbind (rd_u64 (Reader_new payload)) (\<lambda>(total_weight, r).
     rbind (rd_u64 r) (\<lambda>(updates, r).
     rbind (rd_u32 r) (\<lambda>(n, r).
     if capacity < unat n then Inl (Snapshot ''spacesaving snapshot entry count exceeds capacity'') else
     rbind (rd_check_count (unat n) (4 + 8 + 8) r) (\<lambda>_.
     rbind (ss_new capacity (sh_hash header)) (\<lambda>summary.
     ss_read_entries (unat n) r
       (summary\<lparr>ss_total_weight := total_weight, ss_updates := updates\<rparr>))))))))"

section \<open>Invariant\<close>

text \<open>What a slot holds apart from its heap position.\<close>

definition ss_data :: "space_saving \<Rightarrow> (bytes \<times> u64 \<times> ss_entry) list" where
  "ss_data s = map (\<lambda>sl. (sl_key sl, sl_digest sl, sl_entry sl)) (ss_slots s)"

definition ss_entries :: "space_saving \<Rightarrow> (bytes \<times> ss_entry) list" where
  "ss_entries s = map (\<lambda>sl. (sl_key sl, sl_entry sl)) (ss_slots s)"

text \<open>The heap is a permutation of the slots and the slots know their positions.\<close>

definition ss_perm :: "space_saving \<Rightarrow> bool" where
  "ss_perm s \<longleftrightarrow> length (ss_min_heap s) = length (ss_slots s)
     \<and> (\<forall>i < length (ss_slots s). ss_min_heap s ! i < length (ss_slots s)
          \<and> sl_heap_index (ss_slots s ! (ss_min_heap s ! i)) = i)"

definition ss_val :: "space_saving \<Rightarrow> nat \<Rightarrow> u64 \<times> u64 \<times> bytes" where
  "ss_val s i = ss_rank (ss_slots s ! (ss_min_heap s ! i))"

text \<open>The slots filed under a digest.\<close>

fun bucket_list :: "index_bucket \<Rightarrow> nat list" where
  "bucket_list (One i) = [i]"
| "bucket_list (Many is) = is"

definition ss_indexed :: "(u64 \<times> index_bucket) list \<Rightarrow> u64 \<Rightarrow> nat list" where
  "ss_indexed idx d = (case hm_get idx d of None \<Rightarrow> [] | Some b \<Rightarrow> bucket_list b)"

definition ss_index_ok :: "space_saving \<Rightarrow> bool" where
  "ss_index_ok s \<longleftrightarrow> (\<forall>d. distinct (ss_indexed (ss_key_index s) d)
     \<and> set (ss_indexed (ss_key_index s) d) = {i. i < length (ss_slots s) \<and> sl_digest (ss_slots s ! i) = d})"

definition ss_keys_ok :: "space_saving \<Rightarrow> bool" where
  "ss_keys_ok s \<longleftrightarrow> hm_ok (ss_entries s)
     \<and> (\<forall>i < length (ss_slots s). sl_digest (ss_slots s ! i) = ss_key_digest s (sl_key (ss_slots s ! i)))"

definition ss_inv :: "space_saving \<Rightarrow> bool" where
  "ss_inv s \<longleftrightarrow> 0 < ss_capacity s \<and> length (ss_slots s) \<le> ss_capacity s \<and> ss_perm s
     \<and> ss_index_ok s \<and> ss_keys_ok s"

text \<open>The heap order is a separate predicate: it is what a wrapped counter can break.\<close>

definition ss_heap :: "space_saving \<Rightarrow> bool" where
  "ss_heap s \<longleftrightarrow> heap_ok (length (ss_slots s)) (ss_val s)"

subsection \<open>Swapping and sifting\<close>

lemma ss_perm_inj:
  assumes "ss_perm s" "i < length (ss_slots s)" "j < length (ss_slots s)" "ss_min_heap s ! i = ss_min_heap s ! j"
  shows "i = j"
  using assms unfolding ss_perm_def by metis

lemma ss_perm_surj:
  assumes "ss_perm s" "j < length (ss_slots s)"
  shows "sl_heap_index (ss_slots s ! j) < length (ss_slots s)"
    "ss_min_heap s ! sl_heap_index (ss_slots s ! j) = j"
proof -
  let ?n = "length (ss_slots s)"
  have "inj_on ((!) (ss_min_heap s)) {..<?n}" using ss_perm_inj [OF assms(1)] by (auto simp: inj_on_def)
  moreover have "(!) (ss_min_heap s) ` {..<?n} \<subseteq> {..<?n}" using assms(1) by (auto simp: ss_perm_def)
  ultimately have "(!) (ss_min_heap s) ` {..<?n} = {..<?n}" by (simp add: endo_inj_surj)
  then have "j \<in> (!) (ss_min_heap s) ` {..<?n}" using assms(2) by simp
  then obtain i where "i < ?n" "ss_min_heap s ! i = j" by blast
  then show "sl_heap_index (ss_slots s ! j) < ?n" "ss_min_heap s ! sl_heap_index (ss_slots s ! j) = j"
    using assms(1) by (auto simp: ss_perm_def)
qed

text \<open>The fields a sift keeps, and what it does not touch of the slots.\<close>

definition ss_same :: "space_saving \<Rightarrow> space_saving \<Rightarrow> bool" where
  "ss_same s s' \<longleftrightarrow> ss_data s' = ss_data s \<and> ss_capacity s' = ss_capacity s \<and> ss_hash s' = ss_hash s
     \<and> ss_key_index s' = ss_key_index s \<and> ss_total_weight s' = ss_total_weight s
     \<and> ss_updates s' = ss_updates s"

lemma ss_same_refl [simp]: "ss_same s s"
  by (simp add: ss_same_def)

lemma ss_same_trans: "ss_same a b \<Longrightarrow> ss_same b c \<Longrightarrow> ss_same a c"
  by (simp add: ss_same_def)

lemma ss_data_slots:
  assumes "ss_data s' = ss_data s"
  shows "length (ss_slots s') = length (ss_slots s)"
    "i < length (ss_slots s) \<Longrightarrow> sl_key (ss_slots s' ! i) = sl_key (ss_slots s ! i)
       \<and> sl_digest (ss_slots s' ! i) = sl_digest (ss_slots s ! i) \<and> sl_entry (ss_slots s' ! i) = sl_entry (ss_slots s ! i)"
proof -
  show len: "length (ss_slots s') = length (ss_slots s)"
    using arg_cong [OF assms, of length] by (simp add: ss_data_def)
  show "sl_key (ss_slots s' ! i) = sl_key (ss_slots s ! i)
       \<and> sl_digest (ss_slots s' ! i) = sl_digest (ss_slots s ! i) \<and> sl_entry (ss_slots s' ! i) = sl_entry (ss_slots s ! i)"
    if "i < length (ss_slots s)"
    using arg_cong [OF assms, of "\<lambda>xs. xs ! i"] that len by (simp add: ss_data_def)
qed

lemma ss_swap_heap:
  assumes p: "ss_perm s" and l: "l < length (ss_slots s)" and r: "r < length (ss_slots s)" and ne: "l \<noteq> r"
  defines "s' \<equiv> ss_swap_heap s l r"
  shows "ss_same s s'" "ss_perm s'"
    "\<And>i. i < length (ss_slots s) \<Longrightarrow> ss_val s' i = swap_at l r (ss_val s) i"
proof -
  let ?h = "ss_min_heap s" and ?sl = "ss_slots s"
  have hl: "length ?h = length ?sl" and lt: "\<And>i. i < length ?sl \<Longrightarrow> ?h ! i < length ?sl"
    and ix: "\<And>i. i < length ?sl \<Longrightarrow> sl_heap_index (?sl ! (?h ! i)) = i"
    using p by (auto simp: ss_perm_def)
  have lr: "?h ! l \<noteq> ?h ! r" using ss_perm_inj [OF p l r] ne by blast
  have heap': "ss_min_heap s' = ?h[l := ?h ! r, r := ?h ! l]"
    by (simp add: s'_def ss_swap_heap_def Let_def)
  have slots': "ss_slots s' = ?sl[?h ! r := (?sl ! (?h ! r))\<lparr>sl_heap_index := l\<rparr>,
      ?h ! l := (?sl ! (?h ! l))\<lparr>sl_heap_index := r\<rparr>]"
    using l r ne hl lr by (simp add: s'_def ss_swap_heap_def Let_def nth_list_update)
  have h_eq: "ss_min_heap s' ! i = (if i = r then ?h ! l else if i = l then ?h ! r else ?h ! i)"
    if "i < length ?sl" for i
    using that hl heap' ne by (simp add: nth_list_update)
  have s_eq: "ss_slots s' ! j = (if j = ?h ! l then (?sl ! j)\<lparr>sl_heap_index := r\<rparr>
      else if j = ?h ! r then (?sl ! j)\<lparr>sl_heap_index := l\<rparr> else ?sl ! j)" if "j < length ?sl" for j
    using that slots' lr by (auto simp: nth_list_update)
  have len: "length (ss_slots s') = length ?sl" by (simp add: slots')
  have "ss_data s' = ss_data s"
    unfolding ss_data_def by (rule nth_equalityI) (auto simp: len s_eq)
  then show same: "ss_same s s'" by (simp add: ss_same_def s'_def ss_swap_heap_def Let_def)
  have "ss_min_heap s' ! i < length ?sl \<and> sl_heap_index (ss_slots s' ! (ss_min_heap s' ! i)) = i"
    if i: "i < length ?sl" for i
  proof -
    have "?h ! i \<noteq> ?h ! l" if "i \<noteq> l" using ss_perm_inj [OF p i l] that by blast
    moreover have "?h ! i \<noteq> ?h ! r" if "i \<noteq> r" using ss_perm_inj [OF p i r] that by blast
    ultimately show ?thesis using i l r lr lt ix by (auto simp: h_eq s_eq)
  qed
  then show "ss_perm s'" using hl by (simp add: ss_perm_def len heap')
  fix i assume i: "i < length ?sl"
  have rank: "ss_rank (ss_slots s' ! j) = ss_rank (?sl ! j)" if "j < length ?sl" for j
    using that by (simp add: s_eq ss_rank_def)
  show "ss_val s' i = swap_at l r (ss_val s) i"
    using i l r lt ne by (auto simp: ss_val_def swap_at_def h_eq rank)
qed

lemma ss_heap_less: "ss_heap_slot_is_less s i j \<longleftrightarrow> ss_val s i < ss_val s j"
  by (simp add: ss_heap_slot_is_less_def ss_slot_is_less_def ss_val_def)

lemma ss_same_length: "ss_same s s' \<Longrightarrow> length (ss_slots s') = length (ss_slots s)"
  by (rule ss_data_slots(1)) (simp add: ss_same_def)

lemma ss_sift_up:
  assumes "ss_perm s" "i < length (ss_slots s)"
  shows "ss_same s (ss_sift_up s i) \<and> ss_perm (ss_sift_up s i)
    \<and> (heap_up (length (ss_slots s)) (ss_val s) i \<longrightarrow> ss_heap (ss_sift_up s i))"
  using assms
proof (induction s i rule: ss_sift_up.induct)
  case (1 s i)
  let ?n = "length (ss_slots s)" and ?p = "heap_parent i"
  have par: "(i - 1) div 2 = ?p" "(i - Suc 0) div 2 = ?p" by (simp_all add: heap_parent_def)
  show ?case
  proof (cases "0 < i \<and> ss_val s i < ss_val s ?p")
    case True
    have pi: "?p < i" using True heap_parent_less by blast
    then have pn: "?p < ?n" "i \<noteq> ?p" using 1(3) by auto
    let ?s = "ss_swap_heap s i ?p"
    note sw = ss_swap_heap [OF 1(2,3) pn]
    have len: "length (ss_slots ?s) = ?n" using sw(1) by (rule ss_same_length)
    have hu: "heap_up ?n (ss_val ?s) ?p" if "heap_up ?n (ss_val s) i"
      using heap_up_swap [OF that 1(3)] True sw(3) pn(1)
        heap_cong(3) [of ?n "ss_val ?s" "swap_at i ?p (ss_val s)" ?p] by simp
    have "ss_same ?s (ss_sift_up ?s ?p) \<and> ss_perm (ss_sift_up ?s ?p)
        \<and> (heap_up ?n (ss_val ?s) ?p \<longrightarrow> ss_heap (ss_sift_up ?s ?p))"
      using 1(1) [OF _ par(1) [symmetric]] True sw(2) len pn(1) by (simp add: ss_heap_less par)
    moreover have "ss_sift_up s i = ss_sift_up ?s ?p"
      using True by (subst ss_sift_up.simps) (simp add: ss_heap_less par Let_def)
    ultimately show ?thesis using sw(1) ss_same_trans hu by metis
  next
    case False
    then have "ss_sift_up s i = s"
      by (subst ss_sift_up.simps) (auto simp: ss_heap_less par Let_def)
    moreover have "heap_ok ?n (ss_val s)" if "heap_up ?n (ss_val s) i"
      using heap_up_stop [OF that] False by auto
    ultimately show ?thesis using 1(2) by (simp add: ss_heap_def)
  qed
qed

lemma ss_sift_down:
  assumes "ss_perm s" "i < length (ss_slots s)"
  shows "ss_same s (ss_sift_down s i) \<and> ss_perm (ss_sift_down s i)
    \<and> (heap_down (length (ss_slots s)) (ss_val s) i \<longrightarrow> ss_heap (ss_sift_down s i))"
  using assms
proof (induction s i rule: ss_sift_down.induct)
  case (1 s i)
  let ?n = "length (ss_slots s)" and ?v = "ss_val s"
  have hl: "length (ss_min_heap s) = ?n" using 1(2) by (simp add: ss_perm_def)
  define c where c: "c = (if i * 2 + 2 < ?n \<and> ?v (i * 2 + 2) < ?v (i * 2 + 1) then i * 2 + 2 else i * 2 + 1)"
  have step: "ss_sift_down s i = (if ?n \<le> i * 2 + 1 \<or> \<not> ?v c < ?v i then s else ss_sift_down (ss_swap_heap s i c) c)"
    by (subst ss_sift_down.simps) (simp add: Let_def ss_heap_less hl c)
  have kids: "heap_parent j = i \<longleftrightarrow> j = i * 2 + 1 \<or> j = i * 2 + 2" if "0 < j" for j
    using heap_children [OF that, of i] by (auto simp: mult.commute)
  have least: "?v c \<le> ?v j" if "j < ?n" "0 < j" "heap_parent j = i" for j
  proof -
    have "j = i * 2 + 1 \<or> j = i * 2 + 2" using that kids by blast
    then show ?thesis using that(1) unfolding c by (auto split: if_split dest: leI)
  qed
  show ?case
  proof (cases "i * 2 + 1 < ?n \<and> ?v c < ?v i")
    case True
    have c12: "c = i * 2 + 1 \<or> c = i * 2 + 2 \<and> i * 2 + 2 < ?n" unfolding c by simp
    then have cn: "c < ?n" "0 < c" "heap_parent c = i" "i \<noteq> c"
      using True by (auto simp: heap_parent_def)
    let ?s = "ss_swap_heap s i c"
    note sw = ss_swap_heap [OF 1(2,3) cn(1,4)]
    have len: "length (ss_slots ?s) = ?n" using sw(1) by (rule ss_same_length)
    have hd: "heap_down (length (ss_slots ?s)) (ss_val ?s) c" if down: "heap_down ?n ?v i"
    proof -
      have "heap_down ?n (swap_at i c ?v) c" using heap_down_swap [OF down cn(1,2,3) _ least] True by blast
      then show ?thesis unfolding len using heap_cong(2) [of ?n "ss_val ?s" "swap_at i c ?v" c] sw(3) cn(1) by blast
    qed
    have cs: "c < length (ss_slots ?s)" using cn(1) by (simp add: len)
    have "ss_same ?s (ss_sift_down ?s c) \<and> ss_perm (ss_sift_down ?s c)
        \<and> (heap_down (length (ss_slots ?s)) (ss_val ?s) c \<longrightarrow> ss_heap (ss_sift_down ?s c))"
    proof (rule 1(1) [of "i * 2 + 1" "i * 2 + 2" c])
      show "c = (if i * 2 + 2 < length (ss_min_heap s) \<and> ss_heap_slot_is_less s (i * 2 + 2) (i * 2 + 1)
          then i * 2 + 2 else i * 2 + 1)" unfolding c hl ss_heap_less ..
    qed (use True sw(2) cs in \<open>simp_all add: ss_heap_less hl\<close>)
    moreover have "ss_sift_down s i = ss_sift_down ?s c" using True step by simp
    ultimately show ?thesis using sw(1) ss_same_trans hd by metis
  next
    case False
    have "heap_ok ?n ?v" if "heap_down ?n ?v i"
    proof (rule heap_down_stop [OF that])
      fix j assume j: "j < ?n" "0 < j" "heap_parent j = i"
      then have "?v c \<le> ?v j" "i * 2 + 1 < ?n" using least kids [of j] by auto
      then show "?v i \<le> ?v j" using False by auto
    qed
    moreover have "ss_sift_down s i = s" using False step by auto
    ultimately show ?thesis using 1(2) by (simp add: ss_heap_def)
  qed
qed

subsection \<open>The digest index\<close>

lemma ss_find_indexed:
  "ss_find_slot_with_digest s key d = List.find (\<lambda>i. sl_key (ss_slots s ! i) = key) (ss_indexed (ss_key_index s) d)"
  by (auto simp: ss_find_slot_with_digest_def ss_indexed_def split: option.split index_bucket.split)

lemma ss_indexed_add:
  "ss_indexed (ss_key_index (ss_add_to_index s d i)) d' =
     ss_indexed (ss_key_index s) d' @ (if d' = d then [i] else [])"
  by (auto simp: ss_add_to_index_def ss_indexed_def Let_def split: option.split index_bucket.split)

lemma position_Some: "x \<in> set xs \<Longrightarrow> \<exists>p < length xs. position x xs = Some p \<and> xs ! p = x"
  by (induction xs) auto

lemma swap_remove:
  assumes "distinct xs" "p < length xs"
  shows "distinct (swap_remove p xs) \<and> set (swap_remove p xs) = set xs - {xs ! p}"
proof -
  obtain ys z where xs: "xs = ys @ [z]" using assms(2) by (metis list.size(3) not_less_zero rev_exhaust)
  show ?thesis
  proof (cases "p = length ys")
    case True
    then show ?thesis using assms(1) by (auto simp: swap_remove_def xs)
  next
    case False
    then have p: "p < length ys" using assms(2) xs by simp
    then have sr: "swap_remove p xs = ys[p := z]" by (simp add: swap_remove_def xs list_update_append)
    have d: "distinct ys" "z \<notin> set ys" using assms(1) xs by auto
    then have "z \<noteq> ys ! p" using p nth_mem by fastforce
    then have "distinct (ys[p := z])" "set (ys[p := z]) = insert z (set ys - {ys ! p})"
      using d p by (simp_all add: set_update_distinct distinct_list_update)
    then show ?thesis using d p \<open>z \<noteq> ys ! p\<close> unfolding sr by (auto simp: xs nth_append)
  qed
qed

lemma ss_indexed_remove:
  assumes "distinct (ss_indexed (ss_key_index s) d)" "i \<in> set (ss_indexed (ss_key_index s) d)"
  shows "\<exists>idx. ss_remove_from_index s d i = Some (s\<lparr>ss_key_index := idx\<rparr>)
    \<and> distinct (ss_indexed idx d) \<and> set (ss_indexed idx d) = set (ss_indexed (ss_key_index s) d) - {i}
    \<and> (\<forall>d'. d' \<noteq> d \<longrightarrow> ss_indexed idx d' = ss_indexed (ss_key_index s) d')"
proof (cases "hm_get (ss_key_index s) d")
  case None
  then show ?thesis using assms by (simp add: ss_indexed_def)
next
  case (Some b)
  show ?thesis
  proof (cases b)
    case (One e)
    then show ?thesis using Some assms by (auto simp: ss_remove_from_index_def ss_indexed_def)
  next
    case (Many js)
    then have d: "distinct js" "i \<in> set js" using assms Some by (simp_all add: ss_indexed_def)
    then obtain p where p: "p < length js" "position i js = Some p" "js ! p = i" using position_Some by metis
    let ?r = "swap_remove p js"
    have "bucket_list (if length ?r = 1 then One (?r ! 0) else Many ?r) = ?r"
      by (cases ?r) auto
    then show ?thesis using Some Many p swap_remove [OF d(1) p(1)]
      by (auto simp: ss_remove_from_index_def ss_indexed_def Let_def)
  qed
qed

lemma ss_find_iff:
  assumes "ss_index_ok s" "ss_keys_ok s"
  shows "ss_find_slot_with_digest s key (ss_key_digest s key) = Some i \<longleftrightarrow>
      i < length (ss_slots s) \<and> sl_key (ss_slots s ! i) = key"
    and "ss_find_slot_with_digest s key (ss_key_digest s key) = None \<longleftrightarrow> key \<notin> fst ` set (ss_entries s)"
proof -
  let ?l = "ss_indexed (ss_key_index s) (ss_key_digest s key)" and ?n = "length (ss_slots s)"
  have mem: "j \<in> set ?l \<longleftrightarrow> j < ?n \<and> sl_digest (ss_slots s ! j) = ss_key_digest s key" for j
    using assms(1) by (simp add: ss_index_ok_def)
  have dig: "sl_digest (ss_slots s ! j) = ss_key_digest s (sl_key (ss_slots s ! j))" if "j < ?n" for j
    using assms(2) that by (simp add: ss_keys_ok_def)
  have uniq: "j = j'" if "j < ?n" "j' < ?n" "sl_key (ss_slots s ! j) = sl_key (ss_slots s ! j')" for j j'
    using assms(2) that by (auto simp: ss_keys_ok_def hm_ok_def ss_entries_def comp_def distinct_conv_nth)
  show "ss_find_slot_with_digest s key (ss_key_digest s key) = None \<longleftrightarrow> key \<notin> fst ` set (ss_entries s)"
    using mem dig by (force simp: ss_find_indexed find_None_iff ss_entries_def in_set_conv_nth)
  show "ss_find_slot_with_digest s key (ss_key_digest s key) = Some i \<longleftrightarrow>
      i < ?n \<and> sl_key (ss_slots s ! i) = key" (is "?lhs \<longleftrightarrow> ?rhs")
  proof
    assume ?lhs
    then have "i \<in> set ?l \<and> sl_key (ss_slots s ! i) = key"
      by (auto simp: ss_find_indexed find_Some_iff)
    then show ?rhs using mem by blast
  next
    assume r: ?rhs
    then have "i \<in> set ?l" using mem dig by auto
    then have "ss_find_slot_with_digest s key (ss_key_digest s key) \<noteq> None"
      using r by (auto simp: ss_find_indexed find_None_iff)
    then obtain j where j: "ss_find_slot_with_digest s key (ss_key_digest s key) = Some j" by blast
    then have "j \<in> set ?l \<and> sl_key (ss_slots s ! j) = key"
      by (auto simp: ss_find_indexed find_Some_iff)
    then show ?lhs using uniq [of i j] mem r j by auto
  qed
qed

lemma ss_get_entries: "ss_index_ok s \<Longrightarrow> ss_keys_ok s \<Longrightarrow> ss_get s k = hm_get (ss_entries s) k"
proof -
  assume ok: "ss_index_ok s" "ss_keys_ok s"
  show ?thesis
  proof (cases "ss_find_slot s k")
    case None
    then have "k \<notin> fst ` set (ss_entries s)" using ss_find_iff(2) [OF ok] by (simp add: ss_find_slot_def)
    then have "hm_get (ss_entries s) k = None" by (simp add: hm_get_def map_of_eq_None_iff)
    then show ?thesis using None by (simp add: ss_get_def)
  next
    case (Some i)
    then have "i < length (ss_slots s)" "sl_key (ss_slots s ! i) = k"
      using ss_find_iff(1) [OF ok] by (auto simp: ss_find_slot_def)
    then have "(k, sl_entry (ss_slots s ! i)) \<in> set (ss_entries s)" by (force simp: ss_entries_def)
    then have "hm_get (ss_entries s) k = Some (sl_entry (ss_slots s ! i))"
      using ok(2) by (intro hm_mem_get) (simp_all add: ss_keys_ok_def)
    then show ?thesis using Some by (simp add: ss_get_def)
  qed
qed

lemma ss_same_entries: "ss_same s s' \<Longrightarrow> ss_entries s' = ss_entries s"
proof -
  assume "ss_same s s'"
  then have "map (\<lambda>(k, d, e). (k, e)) (ss_data s') = map (\<lambda>(k, d, e). (k, e)) (ss_data s)"
    by (simp add: ss_same_def)
  then show ?thesis by (simp add: ss_data_def ss_entries_def comp_def)
qed

lemma ss_same_ok:
  assumes "ss_same s s'"
  shows "ss_index_ok s' = ss_index_ok s" "ss_keys_ok s' = ss_keys_ok s"
proof -
  have d: "ss_data s' = ss_data s" and idx: "ss_key_index s' = ss_key_index s" and h: "ss_hash s' = ss_hash s"
    using assms by (simp_all add: ss_same_def)
  note sl = ss_data_slots [OF d]
  have "{i. i < length (ss_slots s') \<and> sl_digest (ss_slots s' ! i) = dd}
      = {i. i < length (ss_slots s) \<and> sl_digest (ss_slots s ! i) = dd}" for dd
    using sl by auto
  then show "ss_index_ok s' = ss_index_ok s" by (simp add: ss_index_ok_def idx)
  show "ss_keys_ok s' = ss_keys_ok s"
    using sl ss_same_entries [OF assms] by (auto simp: ss_keys_ok_def ss_key_digest_def h)
qed

subsection \<open>The three ways an update changes the entries\<close>

text \<open>The fields of the configuration and the counters a helper leaves alone.\<close>

definition ss_frame :: "space_saving \<Rightarrow> space_saving \<Rightarrow> bool" where
  "ss_frame s s' \<longleftrightarrow> ss_capacity s' = ss_capacity s \<and> ss_hash s' = ss_hash s
     \<and> ss_total_weight s' = ss_total_weight s \<and> ss_updates s' = ss_updates s"

lemma ss_same_frame: "ss_same s s' \<Longrightarrow> ss_frame s s'"
  by (simp add: ss_same_def ss_frame_def)

lemma ss_insert_entry_with_digest:
  fixes cnt err
  assumes inv: "ss_inv s" and room: "length (ss_slots s) < ss_capacity s"
    and new: "key \<notin> fst ` set (ss_entries s)"
  defines "s' \<equiv> ss_insert_entry_with_digest s key (ss_key_digest s key) cnt err"
  shows "ss_inv s'" "ss_frame s s'"
    "ss_entries s' = ss_entries s @ [(key, \<lparr>e_count = cnt, e_error = err\<rparr>)]" "ss_heap s \<Longrightarrow> ss_heap s'"
proof -
  let ?n = "length (ss_slots s)" and ?d = "ss_key_digest s key"
  define slot where "slot = \<lparr>sl_key = key, sl_digest = ?d, sl_entry = \<lparr>e_count = cnt, e_error = err\<rparr>, sl_heap_index = ?n\<rparr>"
  define s1 where "s1 = (ss_add_to_index (s\<lparr>ss_slots := ss_slots s @ [slot]\<rparr>) ?d ?n)\<lparr>ss_min_heap := ss_min_heap s @ [?n]\<rparr>"
  have p: "ss_perm s" and io: "ss_index_ok s" and ko: "ss_keys_ok s" and hl: "length (ss_min_heap s) = ?n"
    using inv by (auto simp: ss_inv_def ss_perm_def)
  have s1: "ss_slots s1 = ss_slots s @ [slot]" "ss_min_heap s1 = ss_min_heap s @ [?n]"
    "ss_capacity s1 = ss_capacity s" "ss_hash s1 = ss_hash s" "ss_total_weight s1 = ss_total_weight s"
    "ss_updates s1 = ss_updates s"
    by (simp_all add: s1_def ss_add_to_index_def Let_def)
  have s': "s' = ss_sift_up s1 ?n"
    by (simp add: s'_def ss_insert_entry_with_digest_def Let_def s1_def slot_def hl ss_add_to_index_def)
  have perm1: "ss_perm s1"
    using p hl by (auto simp: ss_perm_def s1 nth_append less_Suc_eq slot_def)
  have "ss_indexed (ss_key_index s1) d = ss_indexed (ss_key_index s) d @ (if d = ?d then [?n] else [])" for d
    using ss_indexed_add [of "s\<lparr>ss_slots := ss_slots s @ [slot]\<rparr>" ?d ?n d] by (simp add: s1_def)
  moreover have "{i. i < Suc ?n \<and> sl_digest ((ss_slots s @ [slot]) ! i) = d}
      = {i. i < ?n \<and> sl_digest (ss_slots s ! i) = d} \<union> (if d = ?d then {?n} else {})" for d
    by (auto simp: nth_append less_Suc_eq slot_def)
  ultimately have index1: "ss_index_ok s1"
    using io by (auto simp: ss_index_ok_def s1)
  have ent1: "ss_entries s1 = ss_entries s @ [(key, \<lparr>e_count = cnt, e_error = err\<rparr>)]"
    by (simp add: ss_entries_def s1 slot_def)
  have keys1: "ss_keys_ok s1"
    using ko new unfolding ss_keys_ok_def ent1
    by (auto simp: hm_ok_def s1 nth_append less_Suc_eq slot_def ss_key_digest_def)
  have n1: "?n < length (ss_slots s1)" by (simp add: s1)
  note up = ss_sift_up [OF perm1 n1, folded s']
  then have same: "ss_same s1 s'" by blast
  show "ss_frame s s'" using ss_same_frame [OF same] by (simp add: ss_frame_def s1)
  show "ss_entries s' = ss_entries s @ [(key, \<lparr>e_count = cnt, e_error = err\<rparr>)]"
    using ss_same_entries [OF same] ent1 by simp
  show "ss_inv s'"
    using inv room up ss_same_ok [OF same] index1 keys1 ss_same_length [OF same] ss_same_frame [OF same]
    by (auto simp: ss_inv_def ss_frame_def s1)
  show "ss_heap s'" if h: "ss_heap s"
  proof -
    have "ss_val s1 i = ss_val s i" if "i < ?n" for i
      using p that hl by (auto simp: ss_val_def s1 nth_append ss_perm_def)
    then have "heap_ok ?n (ss_val s1)" using h heap_cong(1) [of ?n "ss_val s1" "ss_val s"] by (simp add: ss_heap_def)
    then show ?thesis using up heap_up_append by (auto simp: s1)
  qed
qed

lemma ss_raise_slot:
  fixes w
  assumes inv: "ss_inv s" and i: "i < length (ss_slots s)"
  defines "slot \<equiv> (ss_slots s ! i)\<lparr>sl_entry := (sl_entry (ss_slots s ! i))\<lparr>e_count := e_count (sl_entry (ss_slots s ! i)) + w\<rparr>\<rparr>"
  defines "s' \<equiv> ss_sift_down (s\<lparr>ss_slots := (ss_slots s)[i := slot]\<rparr>) (sl_heap_index slot)"
  shows "ss_inv s'" "ss_frame s s'"
    "ss_entries s' = (ss_entries s)[i := (sl_key (ss_slots s ! i), sl_entry slot)]"
    "ss_heap s \<Longrightarrow> e_count (sl_entry (ss_slots s ! i)) \<le> e_count (sl_entry slot) \<Longrightarrow> ss_heap s'"
proof -
  let ?n = "length (ss_slots s)" and ?p = "sl_heap_index (ss_slots s ! i)"
  define s1 where "s1 = s\<lparr>ss_slots := (ss_slots s)[i := slot]\<rparr>"
  have p: "ss_perm s" and io: "ss_index_ok s" and ko: "ss_keys_ok s" using inv by (auto simp: ss_inv_def)
  have slot: "sl_key slot = sl_key (ss_slots s ! i)" "sl_digest slot = sl_digest (ss_slots s ! i)" "sl_heap_index slot = ?p"
    by (simp_all add: slot_def)
  have nth1: "ss_slots s1 ! j = (if j = i then slot else ss_slots s ! j)" for j
    using i by (simp add: s1_def nth_list_update)
  have len1: "length (ss_slots s1) = ?n" by (simp add: s1_def)
  have pn: "?p < ?n" "ss_min_heap s ! ?p = i" using ss_perm_surj [OF p i] by auto
  have s1: "ss_min_heap s1 = ss_min_heap s" "ss_key_index s1 = ss_key_index s" "ss_hash s1 = ss_hash s"
    "ss_capacity s1 = ss_capacity s" by (simp_all add: s1_def)
  have hix: "sl_heap_index (ss_slots s1 ! j) = sl_heap_index (ss_slots s ! j)" for j
    using slot(3) by (simp add: nth1)
  have perm1: "ss_perm s1" using p unfolding ss_perm_def len1 s1 hix .
  have "{j. j < ?n \<and> sl_digest (ss_slots s1 ! j) = d} = {j. j < ?n \<and> sl_digest (ss_slots s ! j) = d}" for d
    using slot by (auto simp: nth1)
  then have index1: "ss_index_ok s1" using io unfolding ss_index_ok_def len1 s1 by simp
  have ent1: "ss_entries s1 = (ss_entries s)[i := (sl_key (ss_slots s ! i), sl_entry slot)]"
    using slot by (simp add: ss_entries_def s1_def map_update)
  have "map fst (ss_entries s1) = map fst (ss_entries s)"
    using slot(1) by (auto simp: ss_entries_def list_eq_iff_nth_eq [of "map _ _"] len1 nth1)
  then have keys1: "ss_keys_ok s1"
    using ko slot i by (simp add: ss_keys_ok_def hm_ok_def len1 nth1 ss_key_digest_def s1)
  have p1: "?p < length (ss_slots s1)" using pn by (simp add: len1)
  note down = ss_sift_down [OF perm1 p1, unfolded s1_def, folded slot(3), folded s'_def, folded s1_def]
  then have same: "ss_same s1 s'" by blast
  show "ss_frame s s'" using ss_same_frame [OF same] by (simp add: ss_frame_def s1_def)
  show "ss_entries s' = (ss_entries s)[i := (sl_key (ss_slots s ! i), sl_entry slot)]"
    using ss_same_entries [OF same] ent1 by simp
  show "ss_inv s'"
    using inv down ss_same_ok [OF same] index1 keys1 ss_same_length [OF same] ss_same_frame [OF same]
    by (simp add: ss_inv_def ss_frame_def len1 s1)
  show "ss_heap s'" if h: "ss_heap s" and le: "e_count (sl_entry (ss_slots s ! i)) \<le> e_count (sl_entry slot)"
  proof -
    have v: "ss_val s1 j = ((ss_val s)(?p := ss_rank slot)) j" if "j < ?n" for j
    proof (cases "j = ?p")
      case True
      then show ?thesis using pn(2) unfolding ss_val_def nth1 s1 by simp
    next
      case False
      then have "ss_min_heap s ! j \<noteq> i" using ss_perm_inj [OF p \<open>j < ?n\<close> pn(1)] pn(2) by metis
      then show ?thesis using False unfolding ss_val_def nth1 s1 by simp
    qed
    have "ss_val s ?p \<le> ss_rank slot" using le pn slot by (simp add: ss_val_def ss_rank_def less_eq_prod_def le_less)
    then have "heap_down ?n ((ss_val s)(?p := ss_rank slot)) ?p"
      using h pn by (intro heap_down_raise) (simp_all add: ss_heap_def)
    then have "heap_down ?n (ss_val s1) ?p"
      using heap_cong(2) [of ?n "ss_val s1" "(ss_val s)(?p := ss_rank slot)" ?p] v pn by blast
    then show ?thesis using down slot(3) by (simp add: len1)
  qed
qed

lemma ss_replace_min:
  fixes cnt err
  assumes inv: "ss_inv s" and ne: "ss_slots s \<noteq> []" and new: "key \<notin> fst ` set (ss_entries s)"
  defines "i \<equiv> ss_min_heap s ! 0"
  shows "\<exists>s'. ss_replace_min s key (ss_key_digest s key) cnt err = Some (s', sl_key (ss_slots s ! i))
    \<and> ss_inv s' \<and> ss_frame s s' \<and> ss_entries s' = (ss_entries s)[i := (key, \<lparr>e_count = cnt, e_error = err\<rparr>)]
    \<and> (ss_heap s \<longrightarrow> ss_heap s')"
proof -
  let ?n = "length (ss_slots s)" and ?d = "ss_key_digest s key" and ?od = "sl_digest (ss_slots s ! i)"
  have p: "ss_perm s" and io: "ss_index_ok s" and ko: "ss_keys_ok s" and hl: "length (ss_min_heap s) = ?n"
    using inv by (auto simp: ss_inv_def ss_perm_def)
  have n: "0 < ?n" using ne by simp
  then have i: "i < ?n" "sl_heap_index (ss_slots s ! i) = 0" using p by (auto simp: i_def ss_perm_def)
  obtain rest where heap: "ss_min_heap s = i # rest" using n hl by (cases "ss_min_heap s") (auto simp: i_def)
  have old: "distinct (ss_indexed (ss_key_index s) d)"
    "set (ss_indexed (ss_key_index s) d) = {j. j < ?n \<and> sl_digest (ss_slots s ! j) = d}" for d
    using io unfolding ss_index_ok_def by blast+
  have "i \<in> set (ss_indexed (ss_key_index s) ?od)" unfolding old using i by simp
  then obtain idx where rem: "ss_remove_from_index s ?od i = Some (s\<lparr>ss_key_index := idx\<rparr>)"
    and idx: "distinct (ss_indexed idx ?od)" "set (ss_indexed idx ?od) = set (ss_indexed (ss_key_index s) ?od) - {i}"
      "\<And>d. d \<noteq> ?od \<Longrightarrow> ss_indexed idx d = ss_indexed (ss_key_index s) d"
    using ss_indexed_remove [OF old(1)] by blast
  have idx': "distinct (ss_indexed idx d) \<and> set (ss_indexed idx d) = {j. j < ?n \<and> j \<noteq> i \<and> sl_digest (ss_slots s ! j) = d}" for d
    by (cases "d = ?od") (use idx old in auto)
  define slot where "slot = (ss_slots s ! i)\<lparr>sl_key := key, sl_digest := ?d, sl_entry := \<lparr>e_count = cnt, e_error = err\<rparr>\<rparr>"
  define s1 where "s1 = ss_add_to_index (s\<lparr>ss_key_index := idx, ss_slots := (ss_slots s)[i := slot]\<rparr>) ?d i"
  have s1: "ss_slots s1 = (ss_slots s)[i := slot]" "ss_min_heap s1 = ss_min_heap s" "ss_hash s1 = ss_hash s"
    "ss_capacity s1 = ss_capacity s" "ss_total_weight s1 = ss_total_weight s" "ss_updates s1 = ss_updates s"
    by (simp_all add: s1_def ss_add_to_index_def Let_def)
  have nth1: "ss_slots s1 ! j = (if j = i then slot else ss_slots s ! j)" for j
    using i by (simp add: s1 nth_list_update)
  have len1: "length (ss_slots s1) = ?n" by (simp add: s1)
  have res: "ss_replace_min s key ?d cnt err = Some (ss_sift_down s1 0, sl_key (ss_slots s ! i))"
    by (simp add: ss_replace_min_def heap rem Let_def s1_def slot_def)
  have hix: "sl_heap_index (ss_slots s1 ! j) = sl_heap_index (ss_slots s ! j)" for j
    by (simp add: nth1 slot_def)
  have perm1: "ss_perm s1" using p unfolding ss_perm_def len1 s1(2) hix .
  have "ss_indexed (ss_key_index s1) d = ss_indexed idx d @ (if d = ?d then [i] else [])" for d
    using ss_indexed_add [of "s\<lparr>ss_key_index := idx, ss_slots := (ss_slots s)[i := slot]\<rparr>" ?d i d] by (simp add: s1_def)
  moreover have "{j. j < ?n \<and> sl_digest (ss_slots s1 ! j) = d}
      = {j. j < ?n \<and> j \<noteq> i \<and> sl_digest (ss_slots s ! j) = d} \<union> (if d = ?d then {i} else {})" for d
    using i by (auto simp: nth1 slot_def)
  ultimately have index1: "ss_index_ok s1"
    using idx' unfolding ss_index_ok_def len1 by auto
  have ent1: "ss_entries s1 = (ss_entries s)[i := (key, \<lparr>e_count = cnt, e_error = err\<rparr>)]"
    by (simp add: ss_entries_def s1 map_update slot_def)
  have "distinct ((map fst (ss_entries s))[i := key])"
    using ko new by (intro distinct_list_update) (auto simp: ss_keys_ok_def hm_ok_def)
  then have "hm_ok (ss_entries s1)" by (simp add: hm_ok_def ent1 map_update)
  then have keys1: "ss_keys_ok s1" using ko by (simp add: ss_keys_ok_def len1 nth1 ss_key_digest_def s1(3) slot_def)
  have n1: "0 < length (ss_slots s1)" using n by (simp add: len1)
  note down = ss_sift_down [OF perm1 n1]
  then have same: "ss_same s1 (ss_sift_down s1 0)" by blast
  have "ss_heap (ss_sift_down s1 0)" if h: "ss_heap s"
  proof -
    have v: "ss_val s1 j = ((ss_val s)(0 := ss_rank slot)) j" if "j < ?n" for j
    proof (cases "j = 0")
      case True
      then show ?thesis unfolding ss_val_def nth1 s1(2) i_def by simp
    next
      case False
      then have "ss_min_heap s ! j \<noteq> i" using ss_perm_inj [OF p \<open>j < ?n\<close> n] i_def by metis
      then show ?thesis using False unfolding ss_val_def nth1 s1 by simp
    qed
    have "heap_down ?n ((ss_val s)(0 := ss_rank slot)) 0" using h by (intro heap_down_root) (simp add: ss_heap_def)
    then have "heap_down ?n (ss_val s1) 0"
      using heap_cong(2) [of ?n "ss_val s1" "(ss_val s)(0 := ss_rank slot)" 0] v n by blast
    then show ?thesis using down by (simp add: len1)
  qed
  moreover have "ss_inv (ss_sift_down s1 0)"
    using inv down ss_same_ok [OF same] index1 keys1 ss_same_length [OF same] ss_same_frame [OF same]
    by (simp add: ss_inv_def ss_frame_def len1 s1)
  moreover have "ss_frame s (ss_sift_down s1 0)" using ss_same_frame [OF same] by (simp add: ss_frame_def s1)
  ultimately show ?thesis using res ss_same_entries [OF same] ent1 by auto
qed

lemma ss_minimum_count:
  assumes "ss_inv s" "ss_heap s" "ss_slots s \<noteq> []"
  shows "ss_min_heap s ! 0 < length (ss_slots s)"
    "ss_minimum_count s = e_count (sl_entry (ss_slots s ! (ss_min_heap s ! 0)))"
    "(k, e) \<in> set (ss_entries s) \<Longrightarrow> ss_minimum_count s \<le> e_count e"
proof -
  let ?n = "length (ss_slots s)"
  have p: "ss_perm s" and n: "0 < ?n" using assms by (auto simp: ss_inv_def)
  then show "ss_min_heap s ! 0 < ?n" by (simp add: ss_perm_def)
  have "ss_min_heap s \<noteq> []" using p n by (auto simp: ss_perm_def)
  then show m: "ss_minimum_count s = e_count (sl_entry (ss_slots s ! (ss_min_heap s ! 0)))"
    by (cases "ss_min_heap s") (simp_all add: ss_minimum_count_def)
  assume "(k, e) \<in> set (ss_entries s)"
  then obtain j where j: "j < ?n" "e = sl_entry (ss_slots s ! j)"
    by (auto simp: ss_entries_def in_set_conv_nth)
  note pos = ss_perm_surj [OF p j(1)]
  have "ss_val s 0 \<le> ss_val s (sl_heap_index (ss_slots s ! j))"
    using assms(2) pos(1) by (intro heap_root_le [of ?n]) (simp_all add: ss_heap_def)
  then show "ss_minimum_count s \<le> e_count e"
    unfolding ss_val_def pos(2) m j(2) ss_rank_def by (auto simp: less_eq_prod_def)
qed

text \<open>\<open>ss_step cap es k w es'\<close>: what one update does to the entries.\<close>

definition ss_step :: "nat \<Rightarrow> (bytes \<times> ss_entry) list \<Rightarrow> bytes \<Rightarrow> u64 \<Rightarrow> (bytes \<times> ss_entry) list \<Rightarrow> bool" where
  "ss_step cap es k w es' \<longleftrightarrow>
     (\<exists>i < length es. fst (es ! i) = k
        \<and> es' = es[i := (k, (snd (es ! i))\<lparr>e_count := e_count (snd (es ! i)) + w\<rparr>)])
   \<or> (k \<notin> fst ` set es \<and> length es < cap \<and> es' = es @ [(k, \<lparr>e_count = w, e_error = 0\<rparr>)])
   \<or> (k \<notin> fst ` set es \<and> length es = cap \<and> (\<exists>i < length es.
        es' = es[i := (k, \<lparr>e_count = e_count (snd (es ! i)) + w, e_error = e_count (snd (es ! i))\<rparr>)]
        \<and> (\<forall>x \<in> set es. e_count (snd (es ! i)) \<le> e_count (snd x))))"

lemma ss_slots_update [simp]:
  "ss_entries (s\<lparr>ss_total_weight := a, ss_updates := b\<rparr>) = ss_entries s"
  "ss_inv (s\<lparr>ss_total_weight := a, ss_updates := b\<rparr>) = ss_inv s"
  "ss_heap (s\<lparr>ss_total_weight := a, ss_updates := b\<rparr>) = ss_heap s"
  "ss_key_digest (s\<lparr>ss_total_weight := a, ss_updates := b\<rparr>) = ss_key_digest s"
  by (simp_all add: ss_entries_def ss_inv_def ss_heap_def ss_perm_def ss_index_ok_def ss_keys_ok_def
      ss_key_digest_def fun_eq_iff ss_val_def [abs_def])

lemma ss_add:
  assumes inv: "ss_inv s"
  shows "\<exists>s'. ss_add s k w = Some s' \<and> ss_inv s' \<and> ss_capacity s' = ss_capacity s \<and> ss_hash s' = ss_hash s
    \<and> ss_total_weight s' = ss_total_weight s + w \<and> ss_updates s' = ss_updates s + 1
    \<and> (ss_heap s \<longrightarrow> (\<forall>x \<in> set (ss_entries s). e_count (snd x) \<le> e_count (snd x) + w) \<longrightarrow> ss_heap s')
    \<and> (ss_heap s \<longrightarrow> ss_step (ss_capacity s) (ss_entries s) k w (ss_entries s'))
    \<and> k \<in> fst ` set (ss_entries s')"
proof -
  define s1 where "s1 = s\<lparr>ss_total_weight := ss_total_weight s + w, ss_updates := ss_updates s + 1\<rparr>"
  have inv1: "ss_inv s1" and ent: "ss_entries s1 = ss_entries s" and h1: "ss_heap s1 = ss_heap s"
    using inv by (simp_all add: s1_def)
  have f1: "ss_capacity s1 = ss_capacity s" "ss_hash s1 = ss_hash s" "ss_slots s1 = ss_slots s"
    "ss_total_weight s1 = ss_total_weight s + w" "ss_updates s1 = ss_updates s + 1" by (simp_all add: s1_def)
  have ok: "ss_index_ok s1" "ss_keys_ok s1" "length (ss_slots s1) \<le> ss_capacity s1" "0 < ss_capacity s1"
    using inv1 by (simp_all add: ss_inv_def)
  have len: "length (ss_entries s) = length (ss_slots s1)" by (simp add: ss_entries_def f1)
  have nth: "ss_entries s ! i = (sl_key (ss_slots s1 ! i), sl_entry (ss_slots s1 ! i))" if "i < length (ss_slots s1)" for i
    using that by (simp add: ss_entries_def f1)
  have frame: "ss_capacity s' = ss_capacity s" "ss_hash s' = ss_hash s"
    "ss_total_weight s' = ss_total_weight s + w" "ss_updates s' = ss_updates s + 1" if "ss_frame s1 s'" for s'
    using that f1 by (simp_all add: ss_frame_def)
  show ?thesis
  proof (cases "ss_find_slot_with_digest s1 k (ss_key_digest s1 k)")
    case (Some i)
    then have i: "i < length (ss_slots s1)" "sl_key (ss_slots s1 ! i) = k" using ss_find_iff(1) [OF ok(1,2)] by auto
    note r = ss_raise_slot [OF inv1 i(1), where w = w]
    let ?slot = "(ss_slots s1 ! i)\<lparr>sl_entry := (sl_entry (ss_slots s1 ! i))\<lparr>e_count := e_count (sl_entry (ss_slots s1 ! i)) + w\<rparr>\<rparr>"
    have add: "ss_add s k w = Some (ss_sift_down (s1\<lparr>ss_slots := (ss_slots s1)[i := ?slot]\<rparr>) (sl_heap_index ?slot))"
      using Some by (simp add: ss_add_def Let_def s1_def)
    have mem: "ss_entries s ! i \<in> set (ss_entries s)" using i len by simp
    have "k \<in> fst ` set ((ss_entries s)[i := (sl_key (ss_slots s1 ! i), sl_entry ?slot)])"
      using set_update_memI [of i "ss_entries s"] i len by force
    then show ?thesis unfolding add
      using r frame [OF r(2)] i mem len nth [OF i(1)] h1 by (auto simp: ss_step_def ent)
  next
    case None
    then have new: "k \<notin> fst ` set (ss_entries s1)" using ss_find_iff(2) [OF ok(1,2)] by simp
    show ?thesis
    proof (cases "length (ss_slots s1) < ss_capacity s1")
      case True
      note r = ss_insert_entry_with_digest [OF inv1 True new, where cnt = w and err = 0]
      have add: "ss_add s k w = Some (ss_insert_entry_with_digest s1 k (ss_key_digest s1 k) w 0)"
        using None True by (simp add: ss_add_def Let_def s1_def)
      show ?thesis unfolding add
        using r frame [OF r(2)] True new len h1 f1(1) by (auto simp: ss_step_def ent)
    next
      case False
      let ?m = "ss_minimum_count s1" and ?i = "ss_min_heap s1 ! 0"
      have ne: "ss_slots s1 \<noteq> []" using False ok(4) by auto
      have i: "?i < length (ss_slots s1)" and m: "?m = e_count (sl_entry (ss_slots s1 ! ?i))"
        using ne inv1 ok(4) by (auto simp: ss_minimum_count_def ss_inv_def ss_perm_def split: list.split)
      obtain s' where s': "ss_replace_min s1 k (ss_key_digest s1 k) (?m + w) ?m = Some (s', sl_key (ss_slots s1 ! ?i))"
        "ss_inv s'" "ss_frame s1 s'" "ss_entries s' = (ss_entries s)[?i := (k, \<lparr>e_count = ?m + w, e_error = ?m\<rparr>)]"
        "ss_heap s1 \<longrightarrow> ss_heap s'"
        using ss_replace_min [OF inv1 ne new] ent by metis
      have add: "ss_add s k w = Some s'"
        using None False s'(1) by (simp add: ss_add_def Let_def s1_def)
      have "ss_step (ss_capacity s) (ss_entries s) k w (ss_entries s')" if "ss_heap s"
      proof -
        have "\<forall>x \<in> set (ss_entries s). ?m \<le> e_count (snd x)"
          using ss_minimum_count(3) [OF inv1 _ ne] that h1 ent by auto
        moreover have "length (ss_entries s) = ss_capacity s" using False ok(3) len f1(1) by simp
        moreover have "?m = e_count (snd (ss_entries s ! ?i))" using nth [OF i] m by simp
        ultimately show ?thesis using s'(4) new ent len i unfolding ss_step_def by auto
      qed
      moreover have "k \<in> fst ` set (ss_entries s')"
        using set_update_memI [of ?i "ss_entries s"] i len unfolding s'(4) by force
      ultimately show ?thesis using add s' frame [OF s'(3)] h1 by auto
    qed
  qed
qed

lemma ss_insert_all:
  assumes "ss_inv s" "ss_heap s" "hm_ok (ss_entries s @ ms)" "length (ss_slots s) + length ms \<le> ss_capacity s"
  defines "s' \<equiv> fold (\<lambda>(key, e) s. ss_insert_entry s key (e_count e) (e_error e)) ms s"
  shows "ss_inv s' \<and> ss_heap s' \<and> ss_frame s s' \<and> ss_entries s' = ss_entries s @ ms"
  using assms(1-4) unfolding s'_def
proof (induction ms arbitrary: s)
  case (Cons m ms)
  obtain k e where m: "m = (k, e)" by (cases m)
  have room: "length (ss_slots s) < ss_capacity s" and new: "k \<notin> fst ` set (ss_entries s)"
    using Cons.prems m by (auto simp: hm_ok_def)
  note r = ss_insert_entry_with_digest [OF Cons.prems(1) room new, where cnt = "e_count e" and err = "e_error e"]
  let ?s = "ss_insert_entry_with_digest s k (ss_key_digest s k) (e_count e) (e_error e)"
  have e: "\<lparr>e_count = e_count e, e_error = e_error e\<rparr> = e" by simp
  have len: "length (ss_slots ?s) = length (ss_slots s) + 1"
    using arg_cong [OF r(3), of length] by (simp add: ss_entries_def)
  have "ss_inv (fold (\<lambda>(key, e) s. ss_insert_entry s key (e_count e) (e_error e)) ms ?s)
    \<and> ss_heap (fold (\<lambda>(key, e) s. ss_insert_entry s key (e_count e) (e_error e)) ms ?s)
    \<and> ss_frame ?s (fold (\<lambda>(key, e) s. ss_insert_entry s key (e_count e) (e_error e)) ms ?s)
    \<and> ss_entries (fold (\<lambda>(key, e) s. ss_insert_entry s key (e_count e) (e_error e)) ms ?s) = ss_entries ?s @ ms"
    using Cons.prems r len m e by (intro Cons.IH) (simp_all add: ss_frame_def)
  then show ?case using r m e by (simp add: ss_insert_entry_def ss_frame_def)
qed (simp add: ss_frame_def)

section \<open>Accuracy\<close>

abbreviation ss_cnt :: "bytes \<times> ss_entry \<Rightarrow> nat" where
  "ss_cnt x \<equiv> unat (e_count (snd x))"

abbreviation ss_err :: "bytes \<times> ss_entry \<Rightarrow> nat" where
  "ss_err x \<equiv> unat (e_error (snd x))"

text \<open>The entries are a valid summary of a stream with per-key totals \<open>t\<close> and weight \<open>n\<close>.\<close>

definition ss_bound :: "nat \<Rightarrow> (bytes \<times> ss_entry) list \<Rightarrow> (bytes \<Rightarrow> nat) \<Rightarrow> nat \<Rightarrow> bool" where
  "ss_bound cap es t n \<longleftrightarrow> sum_list (map ss_cnt es) \<le> n
     \<and> (\<forall>x \<in> set es. ss_err x \<le> ss_cnt x \<and> t (fst x) \<le> ss_cnt x \<and> ss_cnt x \<le> t (fst x) + ss_err x
          \<and> cap * ss_err x \<le> n)
     \<and> (\<forall>k. k \<notin> fst ` set es \<longrightarrow> t k = 0 \<or> length es = cap \<and> (\<forall>x \<in> set es. t k \<le> ss_cnt x))"

definition ss_summ :: "space_saving \<Rightarrow> (bytes \<Rightarrow> nat) \<Rightarrow> nat \<Rightarrow> bool" where
  "ss_summ s t n \<longleftrightarrow> ss_inv s \<and> ss_heap s \<and> unat (ss_total_weight s) = n
     \<and> ss_bound (ss_capacity s) (ss_entries s) t n"

lemma ss_bound_sum: "ss_bound cap es t n \<Longrightarrow> x \<in> set es \<Longrightarrow> ss_cnt x \<le> n"
  unfolding ss_bound_def using member_le_sum_list [of "ss_cnt x" "map ss_cnt es"] by auto

lemma sum_list_cnt_update:
  "i < length es \<Longrightarrow> sum_list (map f (es[i := x])) + f (es ! i) = sum_list (map f es) + f x" for f :: "'a \<Rightarrow> nat"
proof (induction es arbitrary: i)
  case (Cons e es)
  then show ?case by (cases i) (auto simp: add.commute add.left_commute)
qed simp

text \<open>Every entry of a list after replacing position \<open>i\<close>.\<close>

lemma set_list_update_cases: "y \<in> set (xs[i := x]) \<Longrightarrow> y = x \<or> y \<in> set xs"
  using set_update_subset_insert [of xs i x] by auto

lemma ss_bound_found:
  assumes b: "ss_bound cap es t n" and ok: "hm_ok es" and i: "i < length es" "fst (es ! i) = k"
    and w: "n + unat w < 2 ^ 64"
  defines "x \<equiv> (k, (snd (es ! i))\<lparr>e_count := e_count (snd (es ! i)) + w\<rparr>)"
  shows "ss_bound cap (es[i := x]) (t(k := t k + unat w)) (n + unat w)"
proof -
  have mem: "es ! i \<in> set es" using i by simp
  have cnt: "ss_cnt x = ss_cnt (es ! i) + unat w" and err: "ss_err x = ss_err (es ! i)"
    using ss_bound_sum [OF b mem] w by (simp_all add: x_def u64_add_exact)
  have keys: "fst ` set (es[i := x]) = fst ` set es"
  proof -
    have "map fst (es[i := x]) = map fst es" using i by (simp add: map_update x_def) (metis i list_update_id map_update nth_map)
    then show ?thesis by (metis list.set_map)
  qed
  have sum: "sum_list (map ss_cnt (es[i := x])) \<le> n + unat w"
    using sum_list_cnt_update [OF i(1), of ss_cnt x] cnt b by (simp add: ss_bound_def)
  have ent: "ss_err y \<le> ss_cnt y \<and> (t(k := t k + unat w)) (fst y) \<le> ss_cnt y
      \<and> ss_cnt y \<le> (t(k := t k + unat w)) (fst y) + ss_err y \<and> cap * ss_err y \<le> n + unat w"
    if y: "y \<in> set (es[i := x])" for y
  proof (cases "fst y = k")
    case True
    have "hm_ok (es[i := x])"
      using ok keys i by (simp add: hm_ok_def map_update x_def) (metis i list_update_id map_update nth_map)
    then have "y = x" using y True set_update_memI [OF i(1), of x]
      by (metis fst_conv hm_mem_get hm_ok_def i(1) map_of_is_SomeI option.inject prod.collapse x_def hm_get_def)
    then show ?thesis using b mem cnt err i by (auto simp: ss_bound_def x_def intro: trans_le_add1)
  next
    case False
    then have "y \<in> set es" using set_list_update_cases [OF y] by (auto simp: x_def)
    then show ?thesis using b False by (auto simp: ss_bound_def intro: trans_le_add1)
  qed
  have out: "(t(k := t k + unat w)) k' = 0 \<or> length (es[i := x]) = cap
      \<and> (\<forall>y \<in> set (es[i := x]). (t(k := t k + unat w)) k' \<le> ss_cnt y)"
    if k': "k' \<notin> fst ` set (es[i := x])" for k'
  proof -
    have "k' \<notin> fst ` set es" "k' \<noteq> k" using k' keys mem i by auto
    then have "t k' = 0 \<or> length es = cap \<and> (\<forall>y \<in> set es. t k' \<le> ss_cnt y)" using b by (simp add: ss_bound_def)
    moreover have "t k' \<le> ss_cnt y" if "\<forall>y \<in> set es. t k' \<le> ss_cnt y" "y \<in> set (es[i := x])" for y
      using set_list_update_cases [OF that(2)] that(1) cnt mem by (metis trans_le_add1)
    ultimately show ?thesis using \<open>k' \<noteq> k\<close> by auto
  qed
  show ?thesis unfolding ss_bound_def using sum ent out by blast
qed

lemma ss_bound_insert:
  assumes b: "ss_bound cap es t n" and new: "k \<notin> fst ` set es" and room: "length es < cap"
    and w: "n + unat w < 2 ^ 64"
  shows "ss_bound cap (es @ [(k, \<lparr>e_count = w, e_error = 0\<rparr>)]) (t(k := t k + unat w)) (n + unat w)"
proof -
  have z: "t k' = 0" if "k' \<notin> fst ` set es" for k' using b that room by (auto simp: ss_bound_def)
  have ne: "fst x \<noteq> k" if "x \<in> set es" for x using that new by auto
  show ?thesis using b z [OF new] ne z by (auto simp: ss_bound_def intro: trans_le_add1)
qed

lemma ss_bound_replace:
  assumes b: "ss_bound cap es t n" and ok: "hm_ok es" and new: "k \<notin> fst ` set es" and full: "length es = cap"
    and i: "i < length es" and mn: "\<forall>x \<in> set es. e_count (snd (es ! i)) \<le> e_count (snd x)"
    and w: "n + unat w < 2 ^ 64"
  defines "m \<equiv> e_count (snd (es ! i))"
  defines "x \<equiv> (k, \<lparr>e_count = m + w, e_error = m\<rparr>)"
  shows "ss_bound cap (es[i := x]) (t(k := t k + unat w)) (n + unat w)"
proof -
  have mem: "es ! i \<in> set es" using i by simp
  have m: "unat m \<le> ss_cnt y" if "y \<in> set es" for y using mn that by (auto simp: m_def word_le_nat_alt)
  have cnt: "ss_cnt x = unat m + unat w" and err: "ss_err x = unat m" and fx: "fst x = k"
    using ss_bound_sum [OF b mem] w by (simp_all add: x_def m_def u64_add_exact)
  have "cap * unat m = sum_list (map (\<lambda>_. unat m) es)" using full by (simp add: sum_list_triv)
  also have "\<dots> \<le> sum_list (map ss_cnt es)" by (rule sum_list_mono) (use m in auto)
  finally have avg: "cap * unat m \<le> n" using b by (simp add: ss_bound_def)
  have out_le: "t k' \<le> unat m" if "k' \<notin> fst ` set es" for k'
    using b that mem by (auto simp: ss_bound_def m_def)
  have sum: "sum_list (map ss_cnt (es[i := x])) \<le> n + unat w"
    using sum_list_cnt_update [OF i, of ss_cnt x] cnt b by (simp add: ss_bound_def m_def)
  have ge: "unat m \<le> ss_cnt y" if "y \<in> set (es[i := x])" for y
    using set_list_update_cases [OF that] m cnt by (metis le_add1)
  have ent: "ss_err y \<le> ss_cnt y \<and> (t(k := t k + unat w)) (fst y) \<le> ss_cnt y
      \<and> ss_cnt y \<le> (t(k := t k + unat w)) (fst y) + ss_err y \<and> cap * ss_err y \<le> n + unat w"
    if y: "y \<in> set (es[i := x])" for y
  proof (cases "y = x")
    case True
    then show ?thesis using out_le [OF new] cnt err fx avg by simp
  next
    case False
    then have "y \<in> set es" using set_list_update_cases [OF y] by blast
    then show ?thesis using b new by (auto simp: ss_bound_def intro: trans_le_add1)
  qed
  have out: "(t(k := t k + unat w)) k' \<le> unat m" if "k' \<notin> fst ` set (es[i := x])" for k'
  proof -
    have kk: "k' \<noteq> k" using that set_update_memI [OF i, of x] fx by force
    show ?thesis
    proof (cases "k' \<in> fst ` set es")
      case True
      then obtain y where y: "y \<in> set es" "fst y = k'" by auto
      then obtain j where j: "j < length es" "es ! j = y" by (auto simp: in_set_conv_nth)
      then have "j = i" using that y by (metis image_eqI length_list_update nth_list_update_neq nth_mem)
      then have "ss_cnt y = unat m" using j by (simp add: m_def)
      then show ?thesis using b y kk by (auto simp: ss_bound_def)
    next
      case False
      then show ?thesis using out_le kk by simp
    qed
  qed
  have "length (es[i := x]) = cap" using full by simp
  then show ?thesis unfolding ss_bound_def using sum ent order_trans [OF out ge] by blast
qed

lemma ss_summ_update:
  assumes s: "ss_summ s t n" and w: "n + unat w < 2 ^ 64"
  shows "ss_summ (ss_update s k w) (t(k := t k + unat w)) (n + unat w)"
proof -
  let ?es = "ss_entries s"
  have inv: "ss_inv s" and h: "ss_heap s" and tot: "unat (ss_total_weight s) = n"
    and b: "ss_bound (ss_capacity s) ?es t n" using s by (auto simp: ss_summ_def)
  have ok: "hm_ok ?es" using inv by (simp add: ss_inv_def ss_keys_ok_def)
  have le: "e_count (snd x) \<le> e_count (snd x) + w" if "x \<in> set ?es" for x
    using ss_bound_sum [OF b that] w by (simp add: word_le_nat_alt u64_add_exact)
  obtain s' where s': "ss_add s k w = Some s'" "ss_inv s'" "ss_capacity s' = ss_capacity s" "ss_heap s'"
    "ss_total_weight s' = ss_total_weight s + w" "ss_step (ss_capacity s) ?es k w (ss_entries s')"
    using ss_add [OF inv, of k w] h le by blast
  have "ss_bound (ss_capacity s) (ss_entries s') (t(k := t k + unat w)) (n + unat w)"
    using s'(6) unfolding ss_step_def
    using ss_bound_found [OF b ok _ _ w] ss_bound_insert [OF b _ _ w] ss_bound_replace [OF b ok _ _ _ _ w] by auto
  then show ?thesis using s' tot w by (simp add: ss_summ_def ss_update_def u64_add_exact)
qed

subsection \<open>Merging\<close>

text \<open>What a summary says of any key: its entry, or the minimum count when it is full.\<close>

definition ss_floor :: "space_saving \<Rightarrow> u64" where
  "ss_floor s = (if ss_capacity s \<le> length (ss_slots s) then ss_minimum_count s else 0)"

definition ss_hi :: "space_saving \<Rightarrow> bytes \<Rightarrow> u64" where
  "ss_hi s k = (case hm_get (ss_entries s) k of Some e \<Rightarrow> e_count e | None \<Rightarrow> ss_floor s)"

definition ss_lo :: "space_saving \<Rightarrow> bytes \<Rightarrow> u64" where
  "ss_lo s k = (case hm_get (ss_entries s) k of Some e \<Rightarrow> e_error e | None \<Rightarrow> ss_floor s)"

lemma ss_floor_le:
  assumes "ss_summ s t n" "x \<in> set (ss_entries s)"
  shows "unat (ss_floor s) \<le> ss_cnt x"
proof -
  have "ss_slots s \<noteq> []" using assms(2) by (auto simp: ss_entries_def)
  then show ?thesis
    using ss_minimum_count(3) [of s "fst x" "snd x"] assms by (simp add: ss_summ_def ss_floor_def word_le_nat_alt)
qed

lemma ss_floor_full:
  assumes s: "ss_summ s t n"
  shows "0 < unat (ss_floor s) \<Longrightarrow> length (ss_entries s) = ss_capacity s"
    and "ss_capacity s * unat (ss_floor s) \<le> n"
    and "k \<notin> fst ` set (ss_entries s) \<Longrightarrow> t k \<le> unat (ss_floor s)"
proof -
  have inv: "ss_inv s" and h: "ss_heap s" and b: "ss_bound (ss_capacity s) (ss_entries s) t n"
    using s by (auto simp: ss_summ_def)
  have len: "length (ss_entries s) = length (ss_slots s)" "length (ss_slots s) \<le> ss_capacity s"
    using inv by (simp_all add: ss_entries_def ss_inv_def)
  show full: "length (ss_entries s) = ss_capacity s" if "0 < unat (ss_floor s)"
    using that len by (simp add: ss_floor_def split: if_splits)
  have "length (ss_entries s) * unat (ss_floor s) = sum_list (map (\<lambda>_. unat (ss_floor s)) (ss_entries s))"
    by (simp add: sum_list_triv)
  also have "\<dots> \<le> sum_list (map ss_cnt (ss_entries s))" by (rule sum_list_mono) (rule ss_floor_le [OF s])
  finally show "ss_capacity s * unat (ss_floor s) \<le> n"
    using full b by (cases "0 < unat (ss_floor s)") (simp_all add: ss_bound_def)
  assume k: "k \<notin> fst ` set (ss_entries s)"
  show "t k \<le> unat (ss_floor s)"
  proof (cases "t k = 0")
    case False
    then have f: "length (ss_entries s) = ss_capacity s" "\<forall>x \<in> set (ss_entries s). t k \<le> ss_cnt x"
      using b k by (auto simp: ss_bound_def)
    have ne: "ss_slots s \<noteq> []" using f(1) len inv by (auto simp: ss_inv_def)
    note m = ss_minimum_count(1,2) [OF inv h ne]
    have "(sl_key (ss_slots s ! (ss_min_heap s ! 0)), sl_entry (ss_slots s ! (ss_min_heap s ! 0))) \<in> set (ss_entries s)"
      using m(1) by (auto simp: ss_entries_def)
    then show ?thesis using f len m(2) by (auto simp: ss_floor_def)
  qed simp
qed

lemma ss_hi_lo:
  assumes s: "ss_summ s t n"
  shows "t k \<le> unat (ss_hi s k)" "unat (ss_hi s k) \<le> t k + unat (ss_lo s k)" "unat (ss_lo s k) \<le> unat (ss_hi s k)"
    "ss_capacity s * unat (ss_lo s k) \<le> n" "unat (ss_floor s) \<le> unat (ss_hi s k)" "unat (ss_hi s k) \<le> n"
proof -
  have inv: "ss_inv s" and b: "ss_bound (ss_capacity s) (ss_entries s) t n" using s by (auto simp: ss_summ_def)
  have "t k \<le> unat (ss_hi s k) \<and> unat (ss_hi s k) \<le> t k + unat (ss_lo s k) \<and> unat (ss_lo s k) \<le> unat (ss_hi s k)
    \<and> ss_capacity s * unat (ss_lo s k) \<le> n \<and> unat (ss_floor s) \<le> unat (ss_hi s k) \<and> unat (ss_hi s k) \<le> n"
  proof (cases "hm_get (ss_entries s) k")
    case None
    then have k: "k \<notin> fst ` set (ss_entries s)" by (simp add: hm_get_def map_of_eq_None_iff)
    have "unat (ss_floor s) \<le> ss_capacity s * unat (ss_floor s)" using inv by (simp add: ss_inv_def)
    then have "unat (ss_floor s) \<le> n" using ss_floor_full(2) [OF s] by (rule order_trans)
    then show ?thesis using None ss_floor_full(2,3) [OF s] k by (auto simp: ss_hi_def ss_lo_def)
  next
    case (Some e)
    then have "(k, e) \<in> set (ss_entries s)" by (rule hm_get_mem)
    then show ?thesis using Some b ss_floor_le [OF s] ss_bound_sum [OF b] by (auto simp: ss_hi_def ss_lo_def ss_bound_def)
  qed
  then show "t k \<le> unat (ss_hi s k)" "unat (ss_hi s k) \<le> t k + unat (ss_lo s k)" "unat (ss_lo s k) \<le> unat (ss_hi s k)"
    "ss_capacity s * unat (ss_lo s k) \<le> n" "unat (ss_floor s) \<le> unat (ss_hi s k)" "unat (ss_hi s k) \<le> n" by auto
qed

text \<open>Any \<open>capacity\<close> many keys together are charged no more than the counts of a summary.\<close>

lemma ss_hi_sum:
  assumes s: "ss_summ s t n" and K: "finite K" "card K \<le> ss_capacity s"
  shows "(\<Sum>k\<in>K. unat (ss_hi s k)) \<le> n"
proof -
  let ?T = "fst ` set (ss_entries s)" and ?f = "\<lambda>k. unat (ss_hi s k)"
  have inv: "ss_inv s" and b: "ss_bound (ss_capacity s) (ss_entries s) t n" using s by (auto simp: ss_summ_def)
  have ok: "hm_ok (ss_entries s)" using inv by (simp add: ss_inv_def ss_keys_ok_def)
  have tracked: "?f (fst x) = ss_cnt x" if "x \<in> set (ss_entries s)" for x
    using hm_mem_get [OF ok, of "fst x" "snd x"] that by (simp add: ss_hi_def)
  have "sum ?f ?T = sum_list (map ?f (map fst (ss_entries s)))"
    using ok by (simp add: hm_ok_def sum_list_distinct_conv_sum_set del: map_map)
  also have "\<dots> = sum_list (map ss_cnt (ss_entries s))"
    by (rule arg_cong [where f = sum_list]) (use tracked in auto)
  finally have T: "sum ?f ?T \<le> n" using b by (simp add: ss_bound_def)
  have un: "?f k = unat (ss_floor s)" if "k \<notin> ?T" for k
    using that by (simp add: ss_hi_def hm_get_def map_of_eq_None_iff [THEN iffD2])
  have "sum ?f (K - ?T) \<le> sum ?f (?T - K)"
  proof (cases "0 < unat (ss_floor s)")
    case True
    have "card ?T = ss_capacity s"
      using ss_floor_full(1) [OF s True] ok by (metis card_distinct distinct_card hm_ok_def length_map list.set_map)
    then have "card (K - ?T) \<le> card (?T - K)"
      using K card_Diff_subset_Int [of K ?T] card_Diff_subset_Int [of ?T K] by (simp add: Int_commute)
    then have "card (K - ?T) * unat (ss_floor s) \<le> card (?T - K) * unat (ss_floor s)" by simp
    moreover have "sum ?f (K - ?T) = card (K - ?T) * unat (ss_floor s)" using un by simp
    moreover have "card (?T - K) * unat (ss_floor s) \<le> sum ?f (?T - K)"
      by (rule sum_bounded_below [where K = "unat (ss_floor s)", simplified]) (use ss_hi_lo(5) [OF s] in blast)
    ultimately show ?thesis by linarith
  next
    case False
    then show ?thesis using un by simp
  qed
  moreover have "sum ?f K = sum ?f (K \<inter> ?T) + sum ?f (K - ?T)" using K(1) by (rule sum.Int_Diff)
  moreover have "sum ?f ?T = sum ?f (K \<inter> ?T) + sum ?f (?T - K)"
    using sum.Int_Diff [of ?T ?f K] by (simp add: Int_commute)
  ultimately show ?thesis using T by linarith
qed

definition ss_union_keys :: "space_saving \<Rightarrow> space_saving \<Rightarrow> bytes list" where
  "ss_union_keys a b = map fst (ss_entries a) @ filter (\<lambda>k. k \<notin> fst ` set (ss_entries a)) (map fst (ss_entries b))"

definition ss_joint :: "space_saving \<Rightarrow> space_saving \<Rightarrow> bytes \<Rightarrow> bytes \<times> ss_entry" where
  "ss_joint a b k = (k, \<lparr>e_count = ss_hi a k + ss_hi b k, e_error = ss_lo a k + ss_lo b k\<rparr>)"

lemma ss_slot_hi:
  assumes "ss_inv s" "sl \<in> set (ss_slots s)"
  shows "ss_hi s (sl_key sl) = e_count (sl_entry sl)" "ss_lo s (sl_key sl) = e_error (sl_entry sl)"
proof -
  have "(sl_key sl, sl_entry sl) \<in> set (ss_entries s)" using assms(2) by (auto simp: ss_entries_def)
  then have "hm_get (ss_entries s) (sl_key sl) = Some (sl_entry sl)"
    using assms(1) by (intro hm_mem_get) (simp_all add: ss_inv_def ss_keys_ok_def)
  then show "ss_hi s (sl_key sl) = e_count (sl_entry sl)" "ss_lo s (sl_key sl) = e_error (sl_entry sl)"
    by (simp_all add: ss_hi_def ss_lo_def)
qed

lemma ss_get_inv: "ss_inv s \<Longrightarrow> ss_get s k = hm_get (ss_entries s) k"
  by (rule ss_get_entries) (simp_all add: ss_inv_def)

lemma ss_get_None: "ss_inv s \<Longrightarrow> ss_get s k = None \<longleftrightarrow> k \<notin> fst ` set (ss_entries s)"
  unfolding ss_get_inv hm_get_def by (rule map_of_eq_None_iff)

lemma ss_merged_eq:
  assumes a: "ss_inv a" and b: "ss_inv b"
  shows "ss_merged a b = map (ss_joint a b) (ss_union_keys a b)"
proof -
  have 1: "(let (other_count, other_error) =
        (case ss_get b (sl_key slot) of Some e \<Rightarrow> (e_count e, e_error e) | None \<Rightarrow> (ss_floor b, ss_floor b))
      in (sl_key slot, \<lparr>e_count = e_count (sl_entry slot) + other_count, e_error = e_error (sl_entry slot) + other_error\<rparr>))
      = ss_joint a b (sl_key slot)" if "slot \<in> set (ss_slots a)" for slot
    using ss_slot_hi [OF a that] ss_get_inv [OF b, of "sl_key slot"]
    by (auto simp: ss_joint_def ss_hi_def [of b] ss_lo_def [of b] split: option.split)
  have 2: "(sl_key slot, \<lparr>e_count = e_count (sl_entry slot) + ss_floor a, e_error = e_error (sl_entry slot) + ss_floor a\<rparr>)
      = ss_joint a b (sl_key slot)" if "slot \<in> set (ss_slots b)" "ss_get a (sl_key slot) = None" for slot
    using ss_slot_hi [OF b that(1)] that(2) ss_get_inv [OF a, of "sl_key slot"]
    by (simp add: ss_joint_def ss_hi_def [of a] ss_lo_def [of a] add.commute)
  have "map (\<lambda>slot. (sl_key slot, \<lparr>e_count = e_count (sl_entry slot) + ss_floor a, e_error = e_error (sl_entry slot) + ss_floor a\<rparr>))
      (filter (\<lambda>slot. ss_get a (sl_key slot) = None) (ss_slots b))
    = map (ss_joint a b) (map sl_key (filter (\<lambda>slot. ss_get a (sl_key slot) = None) (ss_slots b)))"
    using 2 by simp
  also have "map sl_key (filter (\<lambda>slot. ss_get a (sl_key slot) = None) (ss_slots b))
      = filter (\<lambda>k. k \<notin> fst ` set (ss_entries a)) (map fst (ss_entries b))"
    by (simp add: filter_map comp_def ss_get_None [OF a] ss_entries_def)
  finally show ?thesis
    using 1 by (simp add: ss_merged_def Let_def ss_floor_def [symmetric] ss_union_keys_def ss_entries_def [of a] comp_def)
qed

lemma ss_union_keys:
  assumes "ss_inv a" "ss_inv b"
  shows "distinct (ss_union_keys a b)" "set (ss_union_keys a b) = fst ` set (ss_entries a) \<union> fst ` set (ss_entries b)"
    "length (ss_entries a) \<le> length (ss_union_keys a b)" "length (ss_entries b) \<le> length (ss_union_keys a b)"
proof -
  have d: "distinct (map fst (ss_entries a))" "distinct (map fst (ss_entries b))"
    using assms by (auto simp: ss_inv_def ss_keys_ok_def hm_ok_def)
  then show du: "distinct (ss_union_keys a b)" by (auto simp: ss_union_keys_def)
  show su: "set (ss_union_keys a b) = fst ` set (ss_entries a) \<union> fst ` set (ss_entries b)"
    by (auto simp: ss_union_keys_def)
  show "length (ss_entries a) \<le> length (ss_union_keys a b)" by (simp add: ss_union_keys_def)
  have "card (fst ` set (ss_entries b)) \<le> card (set (ss_union_keys a b))" by (rule card_mono) (auto simp: su)
  then show "length (ss_entries b) \<le> length (ss_union_keys a b)"
    using distinct_card [OF d(2)] distinct_card [OF du] by simp
qed

text \<open>Trimming keeps the largest counts.\<close>

lemma ss_sort_split:
  assumes "x \<in> set (take c (ss_sort es))" "y \<in> set (drop c (ss_sort es))"
  shows "ss_cnt y \<le> ss_cnt x"
proof -
  let ?f = "\<lambda>(k, e). (- uint (e_count e), k)"
  have "sorted (map ?f (take c (ss_sort es) @ drop c (ss_sort es)))" by (simp add: ss_sort_def)
  then have "?f x \<le> ?f y" using assms unfolding map_append sorted_append by fastforce
  then have "uint (e_count (snd y)) \<le> uint (e_count (snd x))"
    by (cases x; cases y) (auto simp: less_eq_prod_def)
  then show ?thesis by (simp add: word_le_nat_alt [symmetric] word_le_def)
qed

lemma ss_bound_merge:
  assumes a: "ss_summ a t n" and b: "ss_summ b t' n'" and cap: "ss_capacity b = ss_capacity a"
    and n: "n + n' < 2 ^ 64"
  defines "ms \<equiv> take (ss_capacity a) (ss_sort (ss_merged a b))"
  shows "hm_ok ms" "length ms \<le> ss_capacity a" "ss_bound (ss_capacity a) ms (\<lambda>k. t k + t' k) (n + n')"
proof -
  let ?c = "ss_capacity a" and ?M = "ss_merged a b" and ?U = "ss_union_keys a b"
  have ia: "ss_inv a" and ib: "ss_inv b" using a b by (auto simp: ss_summ_def)
  note A = ss_hi_lo [OF a] and B = ss_hi_lo [OF b, unfolded cap] and U = ss_union_keys [OF ia ib]
  have M: "?M = map (ss_joint a b) ?U" by (rule ss_merged_eq [OF ia ib])
  have keyM: "map fst ?M = ?U" unfolding M by (simp add: comp_def ss_joint_def)
  have okM: "hm_ok ?M" using U(1) by (simp add: hm_ok_def keyM)
  then have okS: "hm_ok (ss_sort ?M)" by (simp add: ss_sort_def hm_ok_sort_key)
  then show okm: "hm_ok ms" unfolding ms_def hm_ok_def take_map [symmetric] by (rule distinct_take)
  show len: "length ms \<le> ?c" by (simp add: ms_def)
  have sub: "set ms \<subseteq> set ?M" using set_take_subset [of ?c "ss_sort ?M"] by (auto simp: ms_def ss_sort_def)
  have cnt: "ss_cnt y = unat (ss_hi a (fst y)) + unat (ss_hi b (fst y))"
    and err: "ss_err y = unat (ss_lo a (fst y)) + unat (ss_lo b (fst y))" if y: "y \<in> set ?M" for y
  proof -
    obtain k where k: "y = ss_joint a b k" using y unfolding M by auto
    have "unat (ss_hi a k) + unat (ss_hi b k) < 2 ^ 64" "unat (ss_lo a k) + unat (ss_lo b k) < 2 ^ 64"
      using A(3,6) [of k] B(3,6) [of k] n by linarith+
    then show "ss_cnt y = unat (ss_hi a (fst y)) + unat (ss_hi b (fst y))"
      "ss_err y = unat (ss_lo a (fst y)) + unat (ss_lo b (fst y))"
      by (simp_all add: k ss_joint_def u64_add_exact)
  qed
  have "sum_list (map ss_cnt ms) = sum_list (map (\<lambda>k. unat (ss_hi a k) + unat (ss_hi b k)) (map fst ms))"
    by (rule arg_cong [where f = sum_list]) (use cnt sub in auto)
  also have "\<dots> = (\<Sum>k \<in> fst ` set ms. unat (ss_hi a k)) + (\<Sum>k \<in> fst ` set ms. unat (ss_hi b k))"
    using okm by (simp add: hm_ok_def sum_list_distinct_conv_sum_set sum.distrib del: map_map)
  also have "\<dots> \<le> n + n'"
  proof -
    have "card (fst ` set ms) \<le> ?c"
      using card_image_le [of "set ms" fst] card_length [of ms] len by (simp add: order_trans)
    then show ?thesis using ss_hi_sum [OF a, of "fst ` set ms"] ss_hi_sum [OF b, of "fst ` set ms"] cap by simp
  qed
  finally have sum: "sum_list (map ss_cnt ms) \<le> n + n'" .
  have ent: "ss_err y \<le> ss_cnt y \<and> t (fst y) + t' (fst y) \<le> ss_cnt y
      \<and> ss_cnt y \<le> t (fst y) + t' (fst y) + ss_err y \<and> ?c * ss_err y \<le> n + n'" if "y \<in> set ms" for y
    using cnt [of y] err [of y] that sub A [of "fst y"] B [of "fst y"] by (auto simp: add_mult_distrib2)
  have out: "t k + t' k = 0 \<or> length ms = ?c \<and> (\<forall>x \<in> set ms. t k + t' k \<le> ss_cnt x)"
    if k: "k \<notin> fst ` set ms" for k
  proof (cases "k \<in> set ?U")
    case True
    then obtain y where y: "y \<in> set ?M" "fst y = k" using keyM by (metis imageE list.set_map)
    then have "y \<in> set (ss_sort ?M)" "y \<notin> set ms" using k by (auto simp: ss_sort_def)
    then have drop: "y \<in> set (drop ?c (ss_sort ?M))" unfolding ms_def by (metis UnE append_take_drop_id set_append)
    then have "?c < length (ss_sort ?M)" by (metis drop_all empty_iff empty_set not_le_imp_less)
    moreover have "t k + t' k \<le> ss_cnt y" using cnt [OF y(1)] y(2) A(1) [of k] B(1) [of k] by simp
    ultimately show ?thesis using ss_sort_split [OF _ drop] by (force simp: ms_def)
  next
    case False
    then have ka: "k \<notin> fst ` set (ss_entries a)" and kb: "k \<notin> fst ` set (ss_entries b)" using U(2) by auto
    have fl: "t k + t' k \<le> unat (ss_floor a) + unat (ss_floor b)"
      using ss_floor_full(3) [OF a ka] ss_floor_full(3) [OF b kb] by simp
    have ge: "unat (ss_floor a) + unat (ss_floor b) \<le> ss_cnt x" if "x \<in> set ms" for x
      using cnt [of x] that sub A(5) [of "fst x"] B(5) [of "fst x"] by auto
    show ?thesis
    proof (cases "t k + t' k = 0")
      case False
      then have "0 < unat (ss_floor a) \<or> 0 < unat (ss_floor b)" using fl by linarith
      then have "?c \<le> length ?U" using ss_floor_full(1) [OF a] ss_floor_full(1) [OF b] U(3,4) cap by auto
      then have "length ms = ?c" by (simp add: ms_def ss_sort_def M)
      then show ?thesis using fl ge order_trans by blast
    qed simp
  qed
  show "ss_bound ?c ms (\<lambda>k. t k + t' k) (n + n')" unfolding ss_bound_def using sum ent out by blast
qed

lemma ss_cleared:
  assumes "0 < ss_capacity s" "ss_slots s = []" "ss_key_index s = []" "ss_min_heap s = []"
  shows "ss_inv s \<and> ss_heap s \<and> ss_entries s = []"
  using assms by (simp add: ss_inv_def ss_heap_def ss_perm_def ss_index_ok_def ss_keys_ok_def
      ss_entries_def heap_ok_def ss_indexed_def)

lemma ss_merged_ok: "ss_inv a \<Longrightarrow> ss_inv b \<Longrightarrow> hm_ok (ss_sort (ss_merged a b))"
  using ss_union_keys(1) [of a b] unfolding ss_sort_def hm_ok_sort_key
  by (simp add: ss_merged_eq hm_ok_def comp_def ss_joint_def)

definition ss_config :: "space_saving \<Rightarrow> nat \<times> hash_spec" where
  "ss_config s = (ss_capacity s, ss_hash s)"

lemma ss_merge_cases:
  assumes m: "ss_merge_from a b = Inr c" and a: "ss_inv a" and b: "ss_inv b"
  shows "ss_compatibility a = ss_compatibility b" "ss_inv c" "ss_heap c" "ss_config c = ss_config a"
    "ss_total_weight c = ss_total_weight a + ss_total_weight b" "ss_updates c = ss_updates a + ss_updates b"
    "ss_entries c = take (ss_capacity a) (ss_sort (ss_merged a b))"
proof -
  let ?ms = "take (ss_capacity a) (ss_sort (ss_merged a b))"
  let ?z = "a\<lparr>ss_slots := [], ss_key_index := [], ss_min_heap := []\<rparr>"
  let ?f = "fold (\<lambda>(key, e) s. ss_insert_entry s key (e_count e) (e_error e)) ?ms ?z"
  show "ss_compatibility a = ss_compatibility b" using m by (auto simp: ss_merge_from_def rbind_Inr_iff)
  have c: "c = ?f\<lparr>ss_total_weight := ss_total_weight ?f + ss_total_weight b, ss_updates := ss_updates ?f + ss_updates b\<rparr>"
    using m by (auto simp: ss_merge_from_def rbind_Inr_iff Let_def)
  have z: "ss_inv ?z \<and> ss_heap ?z \<and> ss_entries ?z = []" using a by (intro ss_cleared) (simp_all add: ss_inv_def)
  have "hm_ok ?ms" using ss_merged_ok [OF a b] unfolding hm_ok_def take_map [symmetric] by (rule distinct_take)
  then have f: "ss_inv ?f \<and> ss_heap ?f \<and> ss_frame ?z ?f \<and> ss_entries ?f = ?ms"
    using ss_insert_all [of ?z ?ms] z by simp
  show "ss_inv c" "ss_heap c" "ss_entries c = ?ms" using f by (simp_all add: c)
  show "ss_config c = ss_config a" "ss_total_weight c = ss_total_weight a + ss_total_weight b"
    "ss_updates c = ss_updates a + ss_updates b"
    using f by (simp_all add: c ss_frame_def ss_config_def)
qed

lemma ss_summ_merge:
  assumes "ss_summ a t n" "ss_summ b t' n'" "ss_config a = ss_config b" "n + n' < 2 ^ 64" "ss_merge_from a b = Inr c"
  shows "ss_summ c (\<lambda>k. t k + t' k) (n + n')"
proof -
  have i: "ss_inv a" "ss_inv b" using assms(1,2) by (auto simp: ss_summ_def)
  note m = ss_merge_cases [OF assms(5) i]
  have "ss_capacity b = ss_capacity a" "ss_capacity c = ss_capacity a" using assms(3) m(4) by (simp_all add: ss_config_def)
  with ss_bound_merge(3) [OF assms(1,2) _ assms(4)] m assms(1,2,4) show ?thesis
    by (simp add: ss_summ_def u64_add_exact)
qed

lemma ss_compat_config: "ss_config a = ss_config b \<Longrightarrow> ss_compatibility a = ss_compatibility b"
  by (simp add: ss_config_def ss_compatibility_def ss_params_hash_def)

lemma ss_update_simps:
  assumes "ss_inv s"
  shows "ss_inv (ss_update s k v)" "ss_config (ss_update s k v) = ss_config s"
    "ss_updates (ss_update s k v) = ss_updates s + 1" "ss_compatibility (ss_update s k v) = ss_compatibility s"
proof -
  obtain s' where s': "ss_add s k v = Some s'" "ss_inv s'" "ss_config s' = ss_config s" "ss_updates s' = ss_updates s + 1"
    using ss_add [OF assms, of k v] by (auto simp: ss_config_def)
  then show "ss_inv (ss_update s k v)" "ss_config (ss_update s k v) = ss_config s"
    "ss_updates (ss_update s k v) = ss_updates s + 1" by (simp_all add: ss_update_def)
  then show "ss_compatibility (ss_update s k v) = ss_compatibility s" by (blast intro: ss_compat_config)
qed

lemma ss_merge_from_eq:
  "ss_compatibility a = ss_compatibility b \<Longrightarrow> \<exists>c. ss_merge_from a b = Inr c"
  "ss_compatibility a \<noteq> ss_compatibility b \<Longrightarrow>
   ss_merge_from a b = Inl (IncompatibleMerge ''sketches are not merge-compatible'')"
  by (simp_all add: ss_merge_from_def ensure_matches_def Let_def)

lemma ss_reset_simps:
  "ss_config (ss_reset s) = ss_config s" "ss_updates (ss_reset s) = 0"
  "ss_compatibility (ss_reset s) = ss_compatibility s" "ss_inv s \<Longrightarrow> ss_inv (ss_reset s)"
  "ss_summ s t n \<Longrightarrow> ss_inv s"
  using ss_cleared [of "ss_reset s"]
  by (simp_all add: ss_config_def ss_reset_def ss_compatibility_def ss_params_hash_def ss_summ_def ss_inv_def [of s])

lemmas ss_laws = ss_merge_from_eq ss_merge_cases(2,4,6) ss_reset_simps ss_update_simps
  ss_compat_config [OF ss_merge_cases(4)] ss_summ_update ss_summ_merge

interpretation ss: weighted_summary ss_inv ss_update ss_merge_from ss_reset ss_updates
    ss_compatibility ss_config ss_summ
  by unfold_locales (blast intro: ss_laws)+

lemma ss_summ_new: "ss_new cap h = Inr s \<Longrightarrow> ss_summ s (\<lambda>_. 0) 0 \<and> ss_capacity s = cap"
  using ss_cleared [of s] by (auto simp: ss_new_def ss_summ_def ss_bound_def split: if_splits)

text \<open>What a valid summary reports about a key.\<close>

lemma ss_summ_reports:
  assumes summ: "ss_summ s t n"
  shows "case ss_get s k of
      Some e \<Rightarrow> t k \<le> unat (e_count e) \<and> unat (ss_guaranteed e) \<le> t k \<and> ss_capacity s * unat (e_error e) \<le> n
    | None \<Rightarrow> ss_capacity s * t k \<le> n"
proof (cases "ss_get s k")
  case None
  have inv: "ss_inv s" using summ by (simp add: ss_summ_def)
  have "t k \<le> unat (ss_floor s)" using ss_floor_full(3) [OF summ] ss_get_None [OF inv] None by blast
  then have "ss_capacity s * t k \<le> ss_capacity s * unat (ss_floor s)" by simp
  also have "\<dots> \<le> n" using ss_floor_full(2) [OF summ] by simp
  finally show ?thesis using None by simp
next
  case (Some e)
  have inv: "ss_inv s" and b: "ss_bound (ss_capacity s) (ss_entries s) t n" using summ by (auto simp: ss_summ_def)
  have "(k, e) \<in> set (ss_entries s)" using hm_get_mem ss_get_inv [OF inv] Some by metis
  then have "unat (e_error e) \<le> unat (e_count e) \<and> t k \<le> unat (e_count e)
      \<and> unat (e_count e) \<le> t k + unat (e_error e) \<and> ss_capacity s * unat (e_error e) \<le> n"
    using b unfolding ss_bound_def by force
  then show ?thesis using Some by (auto simp: ss_guaranteed_def unat_sub word_le_nat_alt)
qed

text \<open>
  C24: SpaceSaving over any sharding and merging of a stream of total weight \<open>N\<close> below
  \<open>2^64\<close>: the merge succeeds, at most \<open>capacity\<close> keys are tracked, every tracked count is an
  upper bound of the key's true weight that exceeds it by at most the recorded error, the error
  is at most \<open>N / capacity\<close>, and every key whose true weight is above \<open>N / capacity\<close> is tracked.
\<close>

theorem ss_heavy_hitters_are_tracked:
  assumes "ss_new cap h = Inr s0" "weight (xs @ concat xss) < 2 ^ 64"
  shows "\<exists>s. merge_shards ss_update ss_merge_from s0 xs xss = Inr s
    \<and> length (ss_slots s) \<le> cap
    \<and> (\<forall>k. case ss_get s k of
          Some e \<Rightarrow> truth (xs @ concat xss) k \<le> unat (e_count e)
            \<and> unat (ss_guaranteed e) \<le> truth (xs @ concat xss) k
            \<and> cap * unat (e_error e) \<le> weight (xs @ concat xss)
        | None \<Rightarrow> cap * truth (xs @ concat xss) k \<le> weight (xs @ concat xss))"
proof -
  let ?t = "truth (xs @ concat xss)" and ?n = "weight (xs @ concat xss)"
  have s0: "ss_summ s0 (\<lambda>_. 0) 0" "ss_capacity s0 = cap" using ss_summ_new [OF assms(1)] by auto
  obtain s where s: "merge_shards ss_update ss_merge_from s0 xs xss = Inr s" "ss_summ s ?t ?n"
    using ss.summ_merge_shards [OF s0(1) assms(2)] by blast
  have cap: "ss_capacity s = cap"
    using ss.config_merge_shards [OF ss.summ_inv [OF s0(1)] s(1)] s0(2) by (simp add: ss_config_def)
  have inv: "ss_inv s" using s(2) by (simp add: ss_summ_def)
  have "case ss_get s k of
      Some e \<Rightarrow> ?t k \<le> unat (e_count e) \<and> unat (ss_guaranteed e) \<le> ?t k \<and> cap * unat (e_error e) \<le> ?n
    | None \<Rightarrow> cap * ?t k \<le> ?n" for k
    using ss_summ_reports [OF s(2), of k] unfolding cap .
  moreover have "length (ss_slots s) \<le> cap" using inv cap by (simp add: ss_inv_def)
  ultimately show ?thesis using s(1) by blast
qed

theorem ss_heavy_hitters_are_tracked_witness:
  "\<exists>s. merge_shards ss_update ss_merge_from
      \<lparr>ss_capacity = 2, ss_hash = HashSpec_new 7, ss_slots = [], ss_key_index = [], ss_min_heap = [],
       ss_total_weight = 0, ss_updates = 0\<rparr>
      [([1], 9), ([2], 3)] [[([1], 4)], [([3], 1)]] = Inr s \<and> ss_get s [1] \<noteq> None"
  using ss_heavy_hitters_are_tracked [of 2 "HashSpec_new 7"
      "\<lparr>ss_capacity = 2, ss_hash = HashSpec_new 7, ss_slots = [], ss_key_index = [], ss_min_heap = [],
       ss_total_weight = 0, ss_updates = 0\<rparr>"
      "[([1], 9), ([2], 3)]" "[[([1], 4)], [([3], 1)]]"]
  by (auto simp: ss_new_def dest!: spec [of _ "[1]"] split: option.splits)



section \<open>Snapshots\<close>

lemma ss_read_entries_inv:
  assumes "ss_read_entries m r s = Inr s'" "ss_inv s" "ss_heap s" "length (ss_slots s) + m \<le> ss_capacity s"
    and "\<forall>x \<in> set (ss_entries s). ss_err x \<le> ss_cnt x"
  shows "ss_inv s' \<and> ss_heap s' \<and> (\<forall>x \<in> set (ss_entries s'). ss_err x \<le> ss_cnt x)"
  using assms
proof (induction m arbitrary: r s)
  case (Suc m)
  then obtain key cnt err r' where le: "\<not> cnt < err"
    and new: "ss_find_slot_with_digest s key (ss_key_digest s key) = None"
    and rest: "ss_read_entries m r' (ss_insert_entry_with_digest s key (ss_key_digest s key) cnt err) = Inr s'"
    by (auto simp: rbind_Inr_iff Let_def split: if_splits)
  have leu: "unat err \<le> unat cnt" using le by (simp add: not_less word_le_nat_alt)
  have key: "key \<notin> fst ` set (ss_entries s)"
    using ss_find_iff(2) [of s key] Suc.prems(2) new by (simp add: ss_inv_def)
  note ins = ss_insert_entry_with_digest [OF Suc.prems(2) _ key, where cnt = cnt and err = err]
  have room: "length (ss_slots s) < ss_capacity s" using Suc.prems(4) by simp
  have len: "length (ss_slots (ss_insert_entry_with_digest s key (ss_key_digest s key) cnt err)) = length (ss_slots s) + 1"
    using arg_cong [OF ins(3) [OF room], of length] by (simp add: ss_entries_def)
  show ?case
    using Suc.IH [OF rest] ins [OF room] Suc.prems(3,4,5) len leu by (auto simp: ss_frame_def)
qed simp

text \<open>
  Any byte string that \<^verbatim>\<open>from_snapshot\<close> accepts decodes to a summary whose arena,
  digest index and heap are consistent, with at most \<open>capacity\<close> entries and no entry whose
  error exceeds its count.
\<close>

lemma ss_decoded_is_well_formed:
  assumes "ss_from_snapshot bs = Inr s"
  shows "ss_inv s \<and> ss_heap s \<and> (\<forall>(k, e) \<in> set (ss_entries s). e_error e \<le> e_count e)"
proof -
  obtain cap h n r tw u where cap: "0 < cap" "n \<le> cap" and rd: "ss_read_entries n r
      \<lparr>ss_capacity = cap, ss_hash = h, ss_slots = [], ss_key_index = [], ss_min_heap = [],
       ss_total_weight = tw, ss_updates = u\<rparr> = Inr s"
    using assms by (auto simp: ss_from_snapshot_def rbind_Inr_iff ss_new_def Let_def not_less split: if_splits)
  let ?z = "\<lparr>ss_capacity = cap, ss_hash = h, ss_slots = [], ss_key_index = [], ss_min_heap = [],
       ss_total_weight = tw, ss_updates = u\<rparr>"
  have "ss_inv ?z \<and> ss_heap ?z \<and> ss_entries ?z = []" using cap by (intro ss_cleared) simp_all
  then show ?thesis using ss_read_entries_inv [OF rd] cap by (auto simp: word_le_nat_alt)
qed

definition ss_enc_entry :: "bytes \<times> ss_entry \<Rightarrow> bytes" where
  "ss_enc_entry x = wr_lp_bytes (fst x) @ wr_u64 (e_count (snd x)) @ wr_u64 (e_error (snd x))"

lemma length_enc_entries_ge: "20 * length es \<le> length (concat (map ss_enc_entry es))"
  by (induction es) (auto simp: ss_enc_entry_def)

lemma enc_entry_key_le: "e \<in> set es \<Longrightarrow> length (fst e) \<le> length (concat (map ss_enc_entry es))"
  by (induction es) (auto simp: ss_enc_entry_def simp del: length_concat)

lemma ss_read_entries_encoded:
  assumes "rd_rest r = concat (map ss_enc_entry es) @ b" "ss_inv s" "hm_ok (ss_entries s @ es)"
    "length (ss_slots s) + length es \<le> ss_capacity s" "\<And>x. x \<in> set es \<Longrightarrow> ss_err x \<le> ss_cnt x \<and> length (fst x) < 2 ^ 32"
  shows "ss_read_entries (length es) r s =
    Inr (fold (\<lambda>(key, e) s. ss_insert_entry s key (e_count e) (e_error e)) es s)"
  using assms
proof (induction es arbitrary: r s)
  case (Cons x es)
  obtain k e where x: "x = (k, e)" by (cases x)
  have new: "k \<notin> fst ` set (ss_entries s)" and room: "length (ss_slots s) < ss_capacity s"
    using Cons.prems(3,4) x by (auto simp: hm_ok_def)
  have le: "\<not> e_count e < e_error e" and k32: "length k < 2 ^ 32"
    using Cons.prems(5) [of x] x by (simp_all add: word_less_nat_alt)
  let ?tl = "concat (map ss_enc_entry es) @ b"
  have rest: "rd_rest r = wr_lp_bytes k @ wr_u64 (e_count e) @ wr_u64 (e_error e) @ ?tl"
    using Cons.prems(1) by (simp add: x ss_enc_entry_def [of "(k, e)"])
  let ?r1 = "rd_adv (4 + length k) r" and ?r2 = "rd_adv 8 (rd_adv (4 + length k) r)"
  have r1: "rd_lp_bytes r = Inr (k, ?r1)" using rest k32 by (rule rd_lp_bytes_append)
  have e1: "rd_rest ?r1 = wr_u64 (e_count e) @ wr_u64 (e_error e) @ ?tl" by (simp add: rest)
  have e2: "rd_rest ?r2 = wr_u64 (e_error e) @ ?tl" unfolding rd_rest_adv [of 8] e1 by simp
  have e3: "rd_rest (rd_adv 8 ?r2) = ?tl" unfolding rd_rest_adv [of 8 ?r2] e2 by simp
  have find: "ss_find_slot_with_digest s k (ss_key_digest s k) = None"
    using ss_find_iff(2) [of s k] Cons.prems(2) new by (simp add: ss_inv_def)
  note ins = ss_insert_entry_with_digest [OF Cons.prems(2) room new, where cnt = "e_count e" and err = "e_error e"]
  let ?s = "ss_insert_entry_with_digest s k (ss_key_digest s k) (e_count e) (e_error e)"
  have len: "length (ss_slots ?s) = length (ss_slots s) + 1"
    using arg_cong [OF ins(3), of length] by (simp add: ss_entries_def)
  have "ss_read_entries (length es) (rd_adv 8 ?r2) ?s =
      Inr (fold (\<lambda>(key, e) s. ss_insert_entry s key (e_count e) (e_error e)) es ?s)"
    using Cons.prems(3,4,5) ins len x
    by (intro Cons.IH [OF e3]) (simp_all add: ss_frame_def hm_ok_def)
  then show ?case
    using le find by (simp add: x r1 rd_u64_append [OF e1] rd_u64_append [OF e2] ss_insert_entry_def
        del: rd_adv_adv)
qed simp

definition ss_sorted_entries :: "space_saving \<Rightarrow> (bytes \<times> ss_entry) list" where
  "ss_sorted_entries s = map (\<lambda>i. (sl_key (ss_slots s ! i), sl_entry (ss_slots s ! i)))
     (sort_key (\<lambda>i. sl_key (ss_slots s ! i)) [0..<length (ss_slots s)])"

lemma ss_sorted_entries:
  "set (ss_sorted_entries s) = set (ss_entries s)" "length (ss_sorted_entries s) = length (ss_slots s)"
  "ss_inv s \<Longrightarrow> hm_ok (ss_sorted_entries s)"
proof -
  show "set (ss_sorted_entries s) = set (ss_entries s)"
    by (force simp: ss_sorted_entries_def ss_entries_def in_set_conv_nth)
  show "length (ss_sorted_entries s) = length (ss_slots s)" by (simp add: ss_sorted_entries_def)
  assume "ss_inv s"
  then have "distinct (map (\<lambda>i. sl_key (ss_slots s ! i)) [0..<length (ss_slots s)])"
    by (auto simp: ss_inv_def ss_keys_ok_def hm_ok_def ss_entries_def comp_def distinct_conv_nth)
  then show "hm_ok (ss_sorted_entries s)"
    by (simp add: hm_ok_def ss_sorted_entries_def comp_def distinct_map)
qed

text \<open>What a snapshot can hold: lengths are 32-bit fields.\<close>

definition ss_wf :: "space_saving \<Rightarrow> bool" where
  "ss_wf s \<longleftrightarrow> ss_inv s \<and> ss_capacity s < 2 ^ 64 \<and> (\<forall>x \<in> set (ss_entries s). ss_err x \<le> ss_cnt x)
     \<and> 20 + length (concat (map ss_enc_entry (ss_sorted_entries s))) < 2 ^ 32"

lemma ss_decode_encode:
  assumes wf: "ss_wf s"
  shows "\<exists>s'. ss_from_snapshot (ss_to_snapshot s ws we) = Inr s' \<and> ss_inv s' \<and> ss_heap s'
    \<and> ss_config s' = ss_config s \<and> ss_total_weight s' = ss_total_weight s \<and> ss_updates s' = ss_updates s
    \<and> (\<forall>k. ss_get s' k = ss_get s k)"
proof -
  let ?es = "ss_sorted_entries s"
  let ?enc = "concat (map ss_enc_entry ?es)"
  define n where "n = length (ss_slots s)"
  have i: "ss_inv s" "0 < ss_capacity s" "n \<le> ss_capacity s" "hm_ok (ss_entries s)"
    and c: "ss_capacity s < 2 ^ 64" and len: "20 + length ?enc < 2 ^ 32"
    using wf by (simp_all add: ss_wf_def ss_inv_def ss_keys_ok_def n_def)
  have es: "length ?es = n" by (simp add: ss_sorted_entries n_def)
  have n20: "20 * n \<le> length ?enc" using length_enc_entries_ge [of ?es] by (simp add: es)
  have n32: "n < 2 ^ 32" using n20 len by linarith
  have enc: "concat (map (\<lambda>i. let slot = ss_slots s ! i in wr_lp_bytes (sl_key slot) @ wr_u64 (e_count (sl_entry slot))
      @ wr_u64 (e_error (sl_entry slot))) (sort_key (\<lambda>i. sl_key (ss_slots s ! i)) [0..<n])) = ?enc"
    by (simp add: ss_sorted_entries_def ss_enc_entry_def comp_def Let_def n_def)
  define z where "z = \<lparr>ss_capacity = ss_capacity s, ss_hash = ss_hash s, ss_slots = [], ss_key_index = [],
     ss_min_heap = [], ss_total_weight = ss_total_weight s, ss_updates = ss_updates s\<rparr>"
  have z: "ss_inv z \<and> ss_heap z \<and> ss_entries z = []" using i by (intro ss_cleared) (simp_all add: z_def)
  let ?f = "fold (\<lambda>(key, e) s. ss_insert_entry s key (e_count e) (e_error e)) ?es z"
  let ?r = "rd_adv 4 (rd_adv 8 (rd_adv 8 (Reader_new (wr_u64 (ss_total_weight s) @ wr_u64 (ss_updates s)
     @ wr_u32 (word_of_nat n) @ ?enc))))"
  have rest: "rd_rest ?r = ?enc @ []" by (simp del: drop_drop rd_adv_adv)
  have small: "ss_err x \<le> ss_cnt x \<and> length (fst x) < 2 ^ 32" if "x \<in> set ?es" for x
    using wf that enc_entry_key_le [OF that] len by (auto simp: ss_wf_def ss_sorted_entries(1))
  have rd: "ss_read_entries n ?r z = Inr ?f"
    using ss_read_entries_encoded [OF rest _ _ _ small] z i ss_sorted_entries(3) [OF i(1)] es
    by (simp add: z_def)
  have cnt: "rd_check_count n 20 ?r = Inr ()"
    using n20 rest by (simp add: rd_check_count_def rd_remaining_rest del: drop_drop rd_adv_adv length_concat)
  have cap: "unat (word_of_nat (ss_capacity s) :: u64) = ss_capacity s" using c by (rule u64_of_nat_unat)
  have n': "unat (word_of_nat n :: u32) = n" using n32 by (rule u32_of_nat_unat)
  have dec: "ss_from_snapshot (ss_to_snapshot s ws we) = Inr ?f"
    unfolding ss_to_snapshot_def ss_from_snapshot_def Let_def enc [unfolded Let_def] n_def [symmetric]
    using i c n32 n' cap rd cnt len
    by (simp add: read_write_snapshot rd_eqs ss_new_def z_def
        del: drop_drop rd_adv_adv length_concat u32_of_nat_unat u64_of_nat_unat)
  have f: "ss_inv ?f \<and> ss_heap ?f \<and> ss_frame z ?f \<and> ss_entries ?f = ?es"
    using ss_insert_all [of z ?es] z i es ss_sorted_entries(3) [OF i(1)] by (simp add: z_def)
  have "hm_get ?es k = hm_get (ss_entries s) k" for k
    using i(4) ss_sorted_entries(1,3) [of s] i(1) unfolding hm_get_def hm_ok_def
    by (metis map_of_inject_set)
  then have "ss_get ?f k = ss_get s k" for k using f i(1) by (simp add: ss_get_inv)
  with dec f show ?thesis by (auto simp: ss_frame_def z_def ss_config_def)
qed

text \<open>
  A SpaceSaving snapshot decodes to the same summary: configuration, totals and the entry of
  every key, in freshly rebuilt and consistent structures (slot and heap positions are not part
  of the state that is shipped).
\<close>

lemma ss_snapshot_round_trips:
  assumes wf: "ss_wf s"
  shows "\<exists>s'. ss_from_snapshot (ss_to_snapshot s ws we) = Inr s' \<and> ss_inv s' \<and> ss_heap s'
    \<and> ss_config s' = ss_config s \<and> ss_total_weight s' = ss_total_weight s \<and> ss_updates s' = ss_updates s
    \<and> (\<forall>k. ss_get s' k = ss_get s k)"
  by (rule ss_decode_encode [OF wf])

definition ss_sample :: space_saving where
  "ss_sample = ss_update \<lparr>ss_capacity = 2, ss_hash = HashSpec_new 7, ss_slots = [], ss_key_index = [],
     ss_min_heap = [], ss_total_weight = 0, ss_updates = 0\<rparr> [1] 5"

lemma ss_sample_eq:
  "ss_sample = \<lparr>ss_capacity = 2, ss_hash = HashSpec_new 7,
     ss_slots = [\<lparr>sl_key = [1], sl_digest = hash64 [1] (7 XOR 0x5350414345534156),
       sl_entry = \<lparr>e_count = 5, e_error = 0\<rparr>, sl_heap_index = 0\<rparr>],
     ss_key_index = [(hash64 [1] (7 XOR 0x5350414345534156), One 0)],
     ss_min_heap = [0], ss_total_weight = 5, ss_updates = 1\<rparr>"
  by (simp add: ss_sample_def ss_update_def ss_add_def Let_def ss_find_slot_with_digest_def
      ss_insert_entry_with_digest_def ss_add_to_index_def ss_sift_up.simps ss_key_digest_def
      HashSpec_new_def hm_insert_def)

lemma ss_sample_wf: "ss_wf ss_sample"
proof -
  let ?z = "\<lparr>ss_capacity = 2, ss_hash = HashSpec_new 7, ss_slots = [], ss_key_index = [],
     ss_min_heap = [], ss_total_weight = 0, ss_updates = 0\<rparr>"
  have "ss_inv ss_sample" unfolding ss_sample_def by (rule ss_update_simps(1)) (simp add: ss_cleared)
  then show ?thesis
    by (simp add: ss_wf_def) (simp add: ss_sample_eq ss_sorted_entries_def ss_enc_entry_def ss_entries_def)
qed

end
