(* ===== verification/CountMin.thy ===== *)
theory CountMin
  imports SketchTrait
begin

text \<open>
  \<^verbatim>\<open>flowsketch-algos/src/count_min.rs\<close>: the Count-Min sketch, plain and with
  conservative update.  The error analysis in floating point (\<^verbatim>\<open>epsilon\<close>,
  \<^verbatim>\<open>delta\<close>, \<^verbatim>\<open>dimensions_for_error\<close>) and \<^verbatim>\<open>memory_bytes\<close> are not
  modelled; every operation that reads or writes the table is.
\<close>

section \<open>Definitions\<close>

record count_min =
  cm_width :: nat
  cm_depth :: nat
  cm_conservative :: bool
  cm_hash :: hash_spec
  cm_table :: "u64 list"
  cm_total_weight :: u64
  cm_updates :: u64

definition cm_new :: "nat \<Rightarrow> nat \<Rightarrow> bool \<Rightarrow> hash_spec \<Rightarrow> count_min result" where
  "cm_new width depth conservative hash =
     (if width = 0 \<or> depth = 0
      then Inl (InvalidParam ''count-min width and depth must be positive'')
      else Inr \<lparr>cm_width = width, cm_depth = depth, cm_conservative = conservative,
                cm_hash = hash, cm_table = replicate (width * depth) 0,
                cm_total_weight = 0, cm_updates = 0\<rparr>)"

text \<open>\<^verbatim>\<open>row * self.width + rh.index(row, self.width)\<close>\<close>

definition cm_cell :: "count_min \<Rightarrow> row_hashes \<Rightarrow> nat \<Rightarrow> nat" where
  "cm_cell s rh row = row * cm_width s + rh_index rh row (cm_width s)"

text \<open>The minimum loop shared by \<^verbatim>\<open>estimate_u64\<close> and the conservative update.\<close>

definition cm_row_min :: "count_min \<Rightarrow> row_hashes \<Rightarrow> u64" where
  "cm_row_min s rh = fold (\<lambda>row m. min m (cm_table s ! cm_cell s rh row)) [0..<cm_depth s] (- 1)"

definition cm_estimate_u64 :: "count_min \<Rightarrow> bytes \<Rightarrow> u64" where
  "cm_estimate_u64 s key = cm_row_min s (RowHashes_new (cm_hash s) key)"

definition cm_update :: "count_min \<Rightarrow> bytes \<Rightarrow> u64 \<Rightarrow> count_min" where
  "cm_update s key v =
     (let rh = RowHashes_new (cm_hash s) key;
          s = s\<lparr>cm_total_weight := cm_total_weight s + v, cm_updates := cm_updates s + 1\<rparr>
      in if cm_conservative s
         then let target = cm_row_min s rh + v
              in s\<lparr>cm_table := fold (\<lambda>row t.
                    if t ! cm_cell s rh row < target then t[cm_cell s rh row := target] else t)
                  [0..<cm_depth s] (cm_table s)\<rparr>
         else s\<lparr>cm_table := fold (\<lambda>row t. t[cm_cell s rh row := t ! cm_cell s rh row + v])
                  [0..<cm_depth s] (cm_table s)\<rparr>)"

definition cm_params_hash :: "count_min \<Rightarrow> u64" where
  "cm_params_hash s =
     hash64 (wr_u64 (word_of_nat (cm_width s)) @ wr_u64 (word_of_nat (cm_depth s))
       @ wr_u8 (if cm_conservative s then 1 else 0)) 0"

definition cm_compatibility :: "count_min \<Rightarrow> sketch_compatibility" where
  "cm_compatibility s = \<lparr>sc_algorithm = ''count-min'', sc_version = 1, sc_hash = cm_hash s,
     sc_params_hash = cm_params_hash s\<rparr>"

definition cm_merge_from :: "count_min \<Rightarrow> count_min \<Rightarrow> count_min result" where
  "cm_merge_from s other =
     rbind (ensure_matches (cm_compatibility s) (cm_compatibility other)) (\<lambda>_.
       Inr (s\<lparr>cm_table := zip_mut (+) (cm_table s) (cm_table other),
              cm_total_weight := cm_total_weight s + cm_total_weight other,
              cm_updates := cm_updates s + cm_updates other\<rparr>))"

definition cm_reset :: "count_min \<Rightarrow> count_min" where
  "cm_reset s = s\<lparr>cm_table := map (\<lambda>_. 0) (cm_table s), cm_total_weight := 0, cm_updates := 0\<rparr>"

definition cm_to_snapshot :: "count_min \<Rightarrow> u64 \<Rightarrow> u64 \<Rightarrow> bytes" where
  "cm_to_snapshot s ws we =
     write_snapshot \<lparr>sh_version = SNAPSHOT_VERSION, sh_algorithm_id = COUNT_MIN,
         sh_hash = cm_hash s, sh_window_start_nanos = ws, sh_window_end_nanos = we\<rparr>
       (wr_u32 (word_of_nat (cm_width s)) @ wr_u32 (word_of_nat (cm_depth s))
        @ wr_u8 (if cm_conservative s then 1 else 0))
       (wr_u64 (cm_total_weight s) @ wr_u64 (cm_updates s) @ concat (map wr_u64 (cm_table s)))"

text \<open>\<^verbatim>\<open>checked_mul\<close> on a 64-bit \<^verbatim>\<open>usize\<close>.\<close>

definition cm_from_snapshot :: "bytes \<Rightarrow> count_min result" where
  "cm_from_snapshot bs =
     rbind (read_snapshot bs) (\<lambda>(header, params, payload).
     if sh_algorithm_id header \<noteq> COUNT_MIN then Inl (Snapshot ''not a count-min snapshot'') else
     rbind (rd_u32 (Reader_new params)) (\<lambda>(w, p).
     rbind (rd_u32 p) (\<lambda>(d, p).
     rbind (rd_u8 p) (\<lambda>(c, p).
     let width = unat w; depth = unat d; conservative = (c \<noteq> 0) in
     if width = 0 \<or> depth = 0
     then Inl (Snapshot ''count-min snapshot width and depth must be positive'') else
     if 2 ^ 64 \<le> width * depth then Inl (Snapshot ''count-min snapshot table overflows'') else
     rbind (rd_u64 (Reader_new payload)) (\<lambda>(total_weight, r).
     rbind (rd_u64 r) (\<lambda>(updates, r).
     rbind (rd_check_count (width * depth) 8 r) (\<lambda>_.
     rbind (rd_many rd_u64 (width * depth) r) (\<lambda>(table, r).
     Inr \<lparr>cm_width = width, cm_depth = depth, cm_conservative = conservative,
          cm_hash = sh_hash header, cm_table = table,
          cm_total_weight = total_weight, cm_updates = updates\<rparr>))))))))"

section \<open>Invariant\<close>

definition cm_inv :: "count_min \<Rightarrow> bool" where
  "cm_inv s \<longleftrightarrow> 0 < cm_width s \<and> 0 < cm_depth s \<and> length (cm_table s) = cm_width s * cm_depth s"

text \<open>The configuration of a sketch: what must agree for a merge to be meaningful.\<close>

definition cm_config :: "count_min \<Rightarrow> nat \<times> nat \<times> bool \<times> hash_spec" where
  "cm_config s = (cm_width s, cm_depth s, cm_conservative s, cm_hash s)"

abbreviation cm_pos :: "count_min \<Rightarrow> bytes \<Rightarrow> nat \<Rightarrow> nat" where
  "cm_pos s key row \<equiv> cm_cell s (RowHashes_new (cm_hash s) key) row"

lemma cm_cell_less: "cm_inv s \<Longrightarrow> row < cm_depth s \<Longrightarrow> cm_cell s rh row < length (cm_table s)"
  by (auto simp: cm_cell_def cm_inv_def intro: row_major_less)

lemma cm_cell_inj: "cm_inv s \<Longrightarrow> cm_cell s rh r = cm_cell s rh' r' \<Longrightarrow> r = r'"
  unfolding cm_cell_def cm_inv_def
  by (rule row_major_inj [of "rh_index rh r (cm_width s)" "cm_width s" "rh_index rh' r' (cm_width s)"]) simp_all

lemma cm_new_inv: "cm_new w d c h = Inr s \<Longrightarrow> cm_inv s"
  by (auto simp: cm_new_def cm_inv_def split: if_splits)

text \<open>What one update does to the cells: \<open>cm_bump\<close> is the new value of a cell of the key.\<close>

definition cm_bump :: "count_min \<Rightarrow> bytes \<Rightarrow> u64 \<Rightarrow> u64 \<Rightarrow> u64" where
  "cm_bump s key v x =
     (if cm_conservative s then max x (cm_estimate_u64 s key + v) else x + v)"

lemma cm_update_simps [simp]:
  "cm_width (cm_update s k v) = cm_width s" "cm_depth (cm_update s k v) = cm_depth s"
  "cm_conservative (cm_update s k v) = cm_conservative s" "cm_hash (cm_update s k v) = cm_hash s"
  "cm_total_weight (cm_update s k v) = cm_total_weight s + v"
  "cm_updates (cm_update s k v) = cm_updates s + 1"
  by (simp_all add: cm_update_def Let_def)

lemma cm_cell_cong:
  "cm_width s = cm_width s' \<Longrightarrow> cm_cell s rh row = cm_cell s' rh row"
  by (simp add: cm_cell_def)

lemma cm_row_min_cong:
  "cm_width s = cm_width s' \<Longrightarrow> cm_depth s = cm_depth s' \<Longrightarrow> cm_table s = cm_table s' \<Longrightarrow>
   cm_row_min s rh = cm_row_min s' rh"
  by (simp add: cm_row_min_def cm_cell_def)

lemma cm_update_table:
  "cm_table (cm_update s k v) =
     fold (\<lambda>row t. t[cm_pos s k row := cm_bump s k v (t ! cm_pos s k row)]) [0..<cm_depth s] (cm_table s)"
proof -
  let ?s = "s\<lparr>cm_total_weight := cm_total_weight s + v, cm_updates := cm_updates s + 1\<rparr>"
  have cell: "cm_cell ?s = cm_cell s" by (simp add: fun_eq_iff cm_cell_def)
  have rm: "cm_row_min ?s = cm_row_min s" by (simp add: fun_eq_iff cm_row_min_def cm_cell_def)
  have upd: "(if t ! i < tgt then t[i := tgt] else t) = t[i := max (t ! i) tgt]"
    for t :: "u64 list" and i tgt by (auto simp: max_def)
  show ?thesis
    unfolding cm_update_def cm_bump_def Let_def cm_estimate_u64_def cell rm upd by simp
qed

lemma cm_update_length [simp]: "cm_inv s \<Longrightarrow> length (cm_table (cm_update s k v)) = length (cm_table s)"
  unfolding cm_update_table
  by (rule fold_cell_update(1)) (auto intro: cm_cell_less cm_cell_inj)

lemma cm_inv_update [fs_inv]: "cm_inv s \<Longrightarrow> cm_inv (cm_update s k v)"
  using cm_update_length [of s k v] unfolding cm_inv_def by auto

lemma cm_update_hit:
  "cm_inv s \<Longrightarrow> row < cm_depth s \<Longrightarrow>
   cm_table (cm_update s k v) ! cm_pos s k row = cm_bump s k v (cm_table s ! cm_pos s k row)"
  unfolding cm_update_table
  by (rule fold_cell_update(2)) (auto intro: cm_cell_less cm_cell_inj)

lemma cm_update_miss:
  "cm_inv s \<Longrightarrow> (\<And>row. row < cm_depth s \<Longrightarrow> j \<noteq> cm_pos s k row) \<Longrightarrow>
   cm_table (cm_update s k v) ! j = cm_table s ! j"
  unfolding cm_update_table
  by (rule fold_cell_update(3)) (auto intro: cm_cell_less cm_cell_inj)

text \<open>Every cell after an update is the old cell or its bumped value.\<close>

lemma cm_update_nth:
  assumes "cm_inv s"
  obtains (hit) row where "row < cm_depth s" "j = cm_pos s k row"
      "cm_table (cm_update s k v) ! j = cm_bump s k v (cm_table s ! j)"
    | (miss) "\<And>row. row < cm_depth s \<Longrightarrow> j \<noteq> cm_pos s k row"
      "cm_table (cm_update s k v) ! j = cm_table s ! j"
proof (cases "\<exists>row<cm_depth s. j = cm_pos s k row")
  case True
  then show ?thesis using hit assms by (auto simp: cm_update_hit)
next
  case False
  then show ?thesis using miss assms by (auto intro: cm_update_miss)
qed

section \<open>The estimate is the minimum of the key's cells\<close>

lemma fold_min_le:
  "r \<in> set rs \<Longrightarrow> fold (\<lambda>r m. min m (f r)) rs m \<le> f r" for m :: "'a::linorder"
proof (induction rs arbitrary: m)
  case (Cons a rs)
  have "fold (\<lambda>r m. min m (f r)) rs m \<le> m" for m
  proof (induction rs arbitrary: m)
    case (Cons b rs)
    from Cons [of "min m (f b)"] show ?case by simp
  qed simp
  from this [of "min m (f a)"] Cons show ?case by auto
qed simp

lemma fold_min_ge:
  "x \<le> m \<Longrightarrow> (\<And>r. r \<in> set rs \<Longrightarrow> x \<le> f r) \<Longrightarrow> x \<le> fold (\<lambda>r m. min m (f r)) rs m"
  for m :: "'a::linorder"
  by (induction rs arbitrary: m) auto

lemma cm_estimate_le:
  "row < cm_depth s \<Longrightarrow> cm_estimate_u64 s k \<le> cm_table s ! cm_pos s k row"
  unfolding cm_estimate_u64_def cm_row_min_def by (rule fold_min_le) simp

lemma cm_estimate_ge:
  "(\<And>row. row < cm_depth s \<Longrightarrow> x \<le> cm_table s ! cm_pos s k row) \<Longrightarrow> x \<le> cm_estimate_u64 s k"
  unfolding cm_estimate_u64_def cm_row_min_def by (rule fold_min_ge) auto


lemma cm_estimate_ge_nat:
  assumes "cm_inv s" "\<And>row. row < cm_depth s \<Longrightarrow> m \<le> unat (cm_table s ! cm_pos s k row)"
  shows "m \<le> unat (cm_estimate_u64 s k)"
proof -
  have "m \<le> unat (cm_table s ! cm_pos s k 0)" using assms by (simp add: cm_inv_def)
  then have m: "m < 2 ^ 64" by (rule le_less_trans) simp
  then have m': "unat (word_of_nat m :: u64) = m" by (simp add: unat_of_nat take_bit_nat_eq_self)
  then have "(word_of_nat m :: u64) \<le> cm_estimate_u64 s k"
    by (intro cm_estimate_ge) (use assms in \<open>simp add: word_le_nat_alt\<close>)
  with m' show ?thesis by (simp add: word_le_nat_alt)
qed

section \<open>A valid summary of a weighted stream\<close>

definition cm_summ :: "count_min \<Rightarrow> (bytes \<Rightarrow> nat) \<Rightarrow> nat \<Rightarrow> bool" where
  "cm_summ s t n \<longleftrightarrow> cm_inv s \<and> unat (cm_total_weight s) = n
     \<and> (\<forall>k. \<forall>row < cm_depth s. t k \<le> unat (cm_table s ! cm_pos s k row))
     \<and> (\<forall>j < length (cm_table s). unat (cm_table s ! j) \<le> n)"

lemma cm_summ_estimate:
  assumes "cm_summ s t n"
  shows "t k \<le> unat (cm_estimate_u64 s k)" "unat (cm_estimate_u64 s k) \<le> n"
proof -
  have i: "cm_inv s" using assms by (simp add: cm_summ_def)
  show "t k \<le> unat (cm_estimate_u64 s k)"
    using assms by (intro cm_estimate_ge_nat) (auto simp: cm_summ_def)
  have "unat (cm_estimate_u64 s k) \<le> unat (cm_table s ! cm_pos s k 0)"
    using cm_estimate_le [of 0 s k] i by (simp add: cm_inv_def word_le_nat_alt)
  also have "\<dots> \<le> n" using assms cm_cell_less [OF i, of 0] i by (simp add: cm_summ_def cm_inv_def)
  finally show "unat (cm_estimate_u64 s k) \<le> n" .
qed

lemma cm_bump_bounds:
  assumes "cm_summ s t n" "n + unat v < 2 ^ 64" "unat x \<le> n"
  shows "unat x \<le> unat (cm_bump s k v x)" "unat (cm_bump s k v x) \<le> n + unat v"
    and "t k \<le> unat x \<Longrightarrow> t k + unat v \<le> unat (cm_bump s k v x)"
proof -
  have e: "unat (cm_estimate_u64 s k + v) = unat (cm_estimate_u64 s k) + unat v"
    "unat (cm_estimate_u64 s k) \<le> n" "t k \<le> unat (cm_estimate_u64 s k)"
    using cm_summ_estimate [OF assms(1), of k] assms(2) by (auto simp: u64_add_exact)
  have x: "unat (x + v) = unat x + unat v" using assms(2,3) by (auto simp: u64_add_exact)
  show "unat x \<le> unat (cm_bump s k v x)" "unat (cm_bump s k v x) \<le> n + unat v"
    "t k \<le> unat x \<Longrightarrow> t k + unat v \<le> unat (cm_bump s k v x)"
    using e x assms(3) by (auto simp: cm_bump_def word_max_unat)
qed

lemma cm_cell_update [simp]: "cm_cell (cm_update s k v) = cm_cell s"
  by (simp add: fun_eq_iff cm_cell_def)

lemma cm_summ_update:
  assumes s: "cm_summ s t n" and v: "n + unat v < 2 ^ 64"
  shows "cm_summ (cm_update s k v) (t(k := t k + unat v)) (n + unat v)"
proof -
  have i: "cm_inv s" and n: "unat (cm_total_weight s) = n"
    and le: "\<And>j. j < length (cm_table s) \<Longrightarrow> unat (cm_table s ! j) \<le> n"
    and ge: "\<And>k row. row < cm_depth s \<Longrightarrow> t k \<le> unat (cm_table s ! cm_pos s k row)"
    using s by (auto simp: cm_summ_def)
  have up: "unat (cm_table (cm_update s k v) ! j) \<le> n + unat v"
    "unat (cm_table s ! j) \<le> unat (cm_table (cm_update s k v) ! j)" if "j < length (cm_table s)" for j
    using le [OF that] cm_bump_bounds(1,2) [OF s v le [OF that], of k]
    by (cases rule: cm_update_nth [OF i, of j k v]; simp)+
  have "(t(k := t k + unat v)) k' \<le> unat (cm_table (cm_update s k v) ! cm_pos s k' row)"
    if "row < cm_depth s" for k' row
  proof (cases "k' = k")
    case True
    with that i show ?thesis
      using cm_bump_bounds(3) [OF s v le, of "cm_pos s k row" k] ge by (simp add: cm_update_hit cm_cell_less)
  next
    case False
    then show ?thesis using order_trans [OF ge [OF that] up(2) [OF cm_cell_less [OF i that]]] by simp
  qed
  then show ?thesis using i n v up(1) by (auto simp: cm_summ_def cm_inv_update u64_add_exact)
qed

lemma cm_merge_from_cases:
  assumes "cm_merge_from a b = Inr c"
  shows "cm_compatibility a = cm_compatibility b"
    "cm_config c = cm_config a" "cm_table c = zip_mut (+) (cm_table a) (cm_table b)"
    "cm_total_weight c = cm_total_weight a + cm_total_weight b" "cm_updates c = cm_updates a + cm_updates b"
  using assms by (auto simp: cm_merge_from_def rbind_Inr_iff cm_config_def)

lemma cm_inv_merge [fs_inv]: "cm_inv a \<Longrightarrow> cm_merge_from a b = Inr c \<Longrightarrow> cm_inv c"
  using cm_merge_from_cases(2,3) [of a b c] by (simp add: cm_inv_def cm_config_def)

lemma cm_config_iff:
  "cm_config a = cm_config b \<longleftrightarrow> cm_width a = cm_width b \<and> cm_depth a = cm_depth b
     \<and> cm_conservative a = cm_conservative b \<and> cm_hash a = cm_hash b"
  by (simp add: cm_config_def)

lemma cm_compat_config: "cm_config a = cm_config b \<Longrightarrow> cm_compatibility a = cm_compatibility b"
  by (simp add: cm_config_iff cm_compatibility_def cm_params_hash_def)

lemma cm_summ_merge:
  assumes a: "cm_summ a t n" and b: "cm_summ b t' n'" and cfg: "cm_config a = cm_config b"
    and w: "n + n' < 2 ^ 64" and m: "cm_merge_from a b = Inr c"
  shows "cm_summ c (\<lambda>k. t k + t' k) (n + n')"
proof -
  note cfgc = cm_merge_from_cases(2) [OF m] and tot = cm_merge_from_cases(4) [OF m]
  have len: "length (cm_table a) = length (cm_table b)"
    using a b cfg by (auto simp: cm_summ_def cm_inv_def cm_config_iff)
  have cell: "cm_cell b = cm_cell a" "cm_cell c = cm_cell a"
    using cfg cfgc by (auto simp: fun_eq_iff cm_cell_def cm_config_iff)
  have sum: "unat (cm_table c ! j) = unat (cm_table a ! j) + unat (cm_table b ! j)"
    if "j < length (cm_table a)" for j
  proof -
    have "unat (cm_table a ! j) \<le> n" "unat (cm_table b ! j) \<le> n'"
      using a b that len by (auto simp: cm_summ_def)
    then show ?thesis
      using w that len cm_merge_from_cases(3) [OF m] by (auto simp: nth_zip_mut u64_add_exact)
  qed
  have "t k + t' k \<le> unat (cm_table c ! cm_pos a k row)" if "row < cm_depth a" for k row
    using a b cfg sum [OF cm_cell_less, OF _ that] that
    by (auto simp: cm_summ_def cm_config_iff cell intro!: add_mono)
  moreover have "unat (cm_table c ! j) \<le> n + n'" if "j < length (cm_table a)" for j
    using a b sum [OF that] that len by (auto simp: cm_summ_def intro!: add_mono)
  ultimately show ?thesis
    using a b w cfgc tot cm_merge_from_cases(3) [OF m] cm_inv_merge [OF _ m]
    by (auto simp: cm_summ_def cm_config_iff cell u64_add_exact)
qed

lemma cm_summ_new: "cm_new w d c h = Inr s \<Longrightarrow> cm_summ s (\<lambda>_. 0) 0"
  using cm_new_inv [of w d c h s] by (auto simp: cm_summ_def cm_new_def split: if_splits)

lemma cm_inv_reset [fs_inv]: "cm_inv s \<Longrightarrow> cm_inv (cm_reset s)"
  by (simp add: cm_inv_def cm_reset_def)

lemma cm_merge_from_eq:
  "cm_compatibility a = cm_compatibility b \<Longrightarrow> \<exists>c. cm_merge_from a b = Inr c"
  "cm_compatibility a \<noteq> cm_compatibility b \<Longrightarrow>
   cm_merge_from a b = Inl (IncompatibleMerge ''sketches are not merge-compatible'')"
  by (simp_all add: cm_merge_from_def ensure_matches_def)

lemma cm_compat_simps:
  "cm_config (cm_update s k v) = cm_config s" "cm_config (cm_reset s) = cm_config s"
  "cm_updates (cm_reset s) = 0" "cm_summ s t n \<Longrightarrow> cm_inv s"
  by (simp_all add: cm_config_def cm_reset_def cm_summ_def)

lemmas cm_laws = cm_merge_from_eq cm_merge_from_cases(2,5) cm_compat_simps fs_inv
  cm_compat_config [OF cm_compat_simps(1)] cm_compat_config [OF cm_compat_simps(2)]
  cm_compat_config [OF cm_merge_from_cases(2)] cm_update_simps(6) cm_summ_update cm_summ_merge

interpretation cm: weighted_summary cm_inv cm_update cm_merge_from cm_reset cm_updates
    cm_compatibility cm_config cm_summ
  by unfold_locales (blast intro: cm_laws)+

section \<open>Accuracy\<close>

lemma replicate_eqs:
  "replicate 3 x = [x, x, x]" "replicate 4 x = [x, x, x, x]"
  by (simp_all add: eval_nat_numeral)



text \<open>One plain update adds the weight to the key's cells, so it commutes with a merge.\<close>

lemma cm_merge_update:
  assumes "cm_inv b" "cm_config a = cm_config b" "\<not> cm_conservative a" "cm_inv a"
    and "cm_merge_from a b = Inr c"
  shows "cm_merge_from a (cm_update b k v) = Inr (cm_update c k v)"
proof -
  have cfgc: "cm_config c = cm_config a" using cm_merge_from_cases(2) [OF assms(5)] .
  have ic: "cm_inv c" using assms(4,5) by (rule cm_inv_merge)
  have ncb: "\<not> cm_conservative b" "\<not> cm_conservative c"
    using assms(2,3) cfgc by (simp_all add: cm_config_iff)
  have cell: "cm_cell b = cm_cell a" "cm_cell c = cm_cell a"
    using assms(2) cfgc by (auto simp: fun_eq_iff cm_cell_def cm_config_iff)
  have len: "length (cm_table b) = length (cm_table a)"
    using assms(1,2,4) by (simp add: cm_inv_def cm_config_iff)
  have tab: "zip_mut (+) (cm_table a) (cm_table (cm_update b k v)) = cm_table (cm_update c k v)"
  proof (rule nth_equalityI)
    fix j assume "j < length (zip_mut (+) (cm_table a) (cm_table (cm_update b k v)))"
    then have j: "j < length (cm_table a)" by simp
    have c: "cm_table c ! j = cm_table a ! j + cm_table b ! j"
      using cm_merge_from_cases(3) [OF assms(5)] j len by (simp add: nth_zip_mut)
    have pos: "cm_pos b k row = cm_pos c k row" "cm_depth b = cm_depth c" for row
      using assms(2) cfgc cell by (simp_all add: cm_config_iff)
    show "zip_mut (+) (cm_table a) (cm_table (cm_update b k v)) ! j = cm_table (cm_update c k v) ! j"
    proof (cases rule: cm_update_nth [OF assms(1), of j k v, case_names hit miss])
      case (hit row)
      then show ?thesis
        using j len c ic ncb assms(1) pos cm_update_hit [OF ic, of row k v]
        by (simp add: nth_zip_mut cm_bump_def add.assoc)
    next
      case miss
      then show ?thesis
        using j len c ic assms(1) pos cm_update_miss [OF ic, of j k v] by (simp add: nth_zip_mut)
    qed
  qed (use assms(1,4,5) ic len cm_merge_from_cases(3) [OF assms(5)] in simp)
  have "cm_compatibility a = cm_compatibility (cm_update b k v)"
    using cm_compat_config assms(2) cm_compat_simps(1) by metis
  then show ?thesis
    using tab cfgc cm_merge_from_cases(4,5) [OF assms(5)]
    by (simp add: cm_merge_from_def cm_config_iff add.assoc)
qed

lemma cm_merge_empty:
  assumes "cm_inv a" "cm_summ s (\<lambda>_. 0) 0" "cm_config a = cm_config s" "cm_updates s = 0"
  shows "cm_merge_from a s = Inr a"
proof -
  have z: "cm_table s ! j = 0" if "j < length (cm_table a)" for j
    using assms that by (auto simp: cm_summ_def cm_inv_def cm_config_iff unat_eq_zero)
  have len: "length (cm_table s) = length (cm_table a)"
    using assms by (simp add: cm_summ_def cm_inv_def cm_config_iff)
  have "zip_mut (+) (cm_table a) (cm_table s) = cm_table a"
    by (rule nth_equalityI) (simp_all add: nth_zip_mut len z)
  moreover have "cm_total_weight s = 0" using assms(2) by (simp add: cm_summ_def unat_eq_zero)
  ultimately show ?thesis using assms(3,4) cm_compat_config [OF assms(3)] by (simp add: cm_merge_from_def)
qed

lemma cm_merge_feed:
  assumes "cm_inv a" "cm_summ s (\<lambda>_. 0) 0" "cm_config a = cm_config s" "cm_updates s = 0"
    "\<not> cm_conservative s"
  shows "cm_merge_from a (feed cm_update s xs) = Inr (feed cm_update a xs)"
proof (induction xs rule: rev_induct)
  case Nil
  then show ?case using assms cm_merge_empty by simp
next
  case (snoc x xs)
  obtain k v where x: "x = (k, v)" by (cases x)
  have i: "cm_inv s" using assms(2) by (simp add: cm_summ_def)
  show ?case
    using assms(1,3,5) snoc cm.inv_feed [OF i] cm.config_feed [OF i]
    by (simp add: feed_append x cm_config_iff cm_merge_update)
qed

text \<open>
  Plain Count-Min is linear.  Whatever the weights (also when counters wrap), sketching the
  shards of a stream and merging them gives exactly the sketch of the whole stream, field by
  field, so the result does not depend on how the stream was sharded.
\<close>

lemma cm_plain_merge_equals_single_stream:
  assumes "cm_new w d False h = Inr s0"
  shows "merge_shards cm_update cm_merge_from s0 xs xss = Inr (feed cm_update s0 (xs @ concat xss))"
proof -
  have s0: "cm_summ s0 (\<lambda>_. 0) 0" "cm_updates s0 = 0" "\<not> cm_conservative s0" "cm_inv s0"
    using assms cm_summ_new [OF assms] cm_new_inv [OF assms] by (auto simp: cm_new_def split: if_splits)
  have "absorb cm_merge_from (map (feed cm_update s0) xss) a = Inr (feed cm_update a (concat xss))"
    if "cm_inv a" "cm_config a = cm_config s0" for a
    using that
  proof (induction xss arbitrary: a)
    case (Cons ys xss)
    then show ?case using s0 cm.inv_feed cm.config_feed
      by (simp add: cm_merge_feed feed_append)
  qed simp
  from this [OF cm.inv_feed [OF s0(4)] cm.config_feed [OF s0(4)]]
  show ?thesis by (simp add: merge_shards_def feed_append)
qed

text \<open>Conservative update never raises a cell above what plain update would put there.\<close>

definition cm_below :: "count_min \<Rightarrow> count_min \<Rightarrow> bool" where
  "cm_below a b \<longleftrightarrow> cm_width a = cm_width b \<and> cm_depth a = cm_depth b \<and> cm_hash a = cm_hash b
     \<and> cm_conservative a \<and> \<not> cm_conservative b
     \<and> (\<forall>j < length (cm_table a). unat (cm_table a ! j) \<le> unat (cm_table b ! j))"

lemma cm_below_update:
  assumes b: "cm_below a b" and a: "cm_summ a t n" "cm_summ b t' n" and v: "n + unat v < 2 ^ 64"
  shows "cm_below (cm_update a k v) (cm_update b k v)"
proof -
  have ia: "cm_inv a" and ib: "cm_inv b" using a by (simp_all add: cm_summ_def)
  have len: "length (cm_table b) = length (cm_table a)"
    using ia ib b by (simp add: cm_inv_def cm_below_def)
  have pos: "cm_pos b k row = cm_pos a k row" "cm_depth b = cm_depth a" for row
    using b by (simp_all add: cm_below_def cm_cell_def)
  have "unat (cm_table (cm_update a k v) ! j) \<le> unat (cm_table (cm_update b k v) ! j)"
    if j: "j < length (cm_table a)" for j
  proof (cases rule: cm_update_nth [OF ia, of j k v, case_names hit miss])
    case (hit row)
    have xb: "unat (cm_table b ! j) \<le> n" using a(2) j len by (simp add: cm_summ_def)
    have le: "unat (cm_table a ! j) \<le> unat (cm_table b ! j)" using b j by (simp add: cm_below_def)
    have est: "unat (cm_estimate_u64 a k) \<le> unat (cm_table a ! j)"
      using cm_estimate_le [OF hit(1), of k] hit(2) by (simp add: word_le_nat_alt)
    have "cm_table (cm_update b k v) ! j = cm_table b ! j + v"
      using cm_update_hit [OF ib, of row k v] hit pos b by (simp add: cm_bump_def cm_below_def)
    moreover have "unat (cm_table b ! j + v) = unat (cm_table b ! j) + unat v"
      "unat (cm_estimate_u64 a k + v) = unat (cm_estimate_u64 a k) + unat v"
      using xb le est v by (auto intro!: u64_add_exact)
    ultimately show ?thesis
      using hit(3) b le est by (simp add: cm_bump_def cm_below_def word_max_unat)
  next
    case miss
    then show ?thesis using cm_update_miss [OF ib, of j k v] pos b j by (simp add: cm_below_def)
  qed
  then show ?thesis using b ia by (simp add: cm_below_def)
qed

lemma cm_below_feed:
  assumes "cm_below a b" "cm_summ a t n" "cm_summ b t' n" "n + weight xs < 2 ^ 64"
  shows "cm_below (feed cm_update a xs) (feed cm_update b xs)"
  using assms
proof (induction xs arbitrary: a b t t' n)
  case (Cons x xs)
  obtain k v where x: "x = (k, v)" by (cases x)
  have v: "n + unat v < 2 ^ 64" using Cons.prems(4) x by simp
  show ?case
    using Cons.IH [OF cm_below_update cm_summ_update cm_summ_update, OF Cons.prems(1,2,3) v
        Cons.prems(2) v Cons.prems(3) v] Cons.prems(4) by (simp add: x add.assoc)
qed simp

text \<open>
  On the same stream (total weight below \<open>2^64\<close>) the conservative sketch's estimate of
  every key is at most the plain sketch's.
\<close>

lemma cm_conservative_is_at_most_plain:
  assumes "cm_new w d True h = Inr c0" "cm_new w d False h = Inr p0" "weight xs < 2 ^ 64"
  shows "cm_estimate_u64 (feed cm_update c0 xs) k \<le> cm_estimate_u64 (feed cm_update p0 xs) k"
proof (rule cm_estimate_ge)
  have "cm_below c0 p0" using assms(1,2) by (auto simp: cm_new_def cm_below_def split: if_splits)
  from cm_below_feed [OF this cm_summ_new [OF assms(1)] cm_summ_new [OF assms(2)]] assms(3)
  have b: "cm_below (feed cm_update c0 xs) (feed cm_update p0 xs)" by simp
  fix row assume row: "row < cm_depth (feed cm_update p0 xs)"
  have i: "cm_inv (feed cm_update c0 xs)" using cm.inv_feed [OF cm_new_inv [OF assms(1)]] .
  let ?j = "cm_pos (feed cm_update c0 xs) k row"
  have pos: "cm_pos (feed cm_update p0 xs) k row = ?j"
    using b by (simp add: cm_below_def cm_cell_def)
  have row': "row < cm_depth (feed cm_update c0 xs)" using row b by (simp add: cm_below_def)
  have "cm_table (feed cm_update c0 xs) ! ?j \<le> cm_table (feed cm_update p0 xs) ! ?j"
    using b cm_cell_less [OF i row'] by (auto simp: cm_below_def word_le_nat_alt)
  then show "cm_estimate_u64 (feed cm_update c0 xs) k
      \<le> cm_table (feed cm_update p0 xs) ! cm_pos (feed cm_update p0 xs) k row"
    using cm_estimate_le [OF row', of k] unfolding pos by (rule order_trans [rotated])
qed

section \<open>Snapshots\<close>

text \<open>What a snapshot can hold: dimensions and payload length are 32-bit fields.\<close>

definition cm_wf :: "count_min \<Rightarrow> bool" where
  "cm_wf s \<longleftrightarrow> cm_inv s \<and> 16 + 8 * length (cm_table s) < 2 ^ 32"

lemma cm_wf_dims: "cm_wf s \<Longrightarrow> cm_width s < 2 ^ 32 \<and> cm_depth s < 2 ^ 32 \<and> cm_width s * cm_depth s < 2 ^ 32"
proof -
  assume wf: "cm_wf s"
  then have "cm_width s * 1 \<le> cm_width s * cm_depth s" "1 * cm_depth s \<le> cm_width s * cm_depth s"
    unfolding cm_wf_def cm_inv_def by (intro mult_le_mono; simp)+
  with wf show ?thesis unfolding cm_wf_def cm_inv_def by linarith
qed

lemma cm_decode_encode: "cm_wf s \<Longrightarrow> cm_from_snapshot (cm_to_snapshot s ws we) = Inr s"
proof -
  assume wf: "cm_wf s"
  define n where "n = cm_width s * cm_depth s"
  have d: "0 < cm_width s" "0 < cm_depth s" "cm_width s < 2 ^ 32" "cm_depth s < 2 ^ 32"
    and len: "length (cm_table s) = n"
    using cm_wf_dims [OF wf] wf unfolding cm_wf_def cm_inv_def n_def by auto
  have n: "16 + 8 * n < 2 ^ 32" using wf unfolding cm_wf_def len by simp
  have pl: "length (concat (map wr_u64 (cm_table s))) = 8 * n"
    using length_concat_const [of "cm_table s" wr_u64 8] len by simp
  let ?r = "rd_adv 8 (rd_adv 8 (Reader_new (wr_u64 (cm_total_weight s) @ wr_u64 (cm_updates s)
     @ concat (map wr_u64 (cm_table s)))))"
  have many: "rd_many rd_u64 n ?r = Inr (cm_table s, rd_adv (8 * n) ?r)"
    using rd_many_u64 [of ?r "cm_table s" "[]"] len by (simp del: drop_drop rd_adv_adv)
  have cnt: "rd_check_count n 8 ?r = Inr ()"
    using pl by (simp add: rd_check_count_def rd_remaining_rest del: drop_drop rd_adv_adv length_concat)
  show ?thesis
    unfolding cm_to_snapshot_def cm_from_snapshot_def
    using d pl many cnt n
    by (simp add: read_write_snapshot rd_eqs Let_def n_def [symmetric]
        del: drop_drop rd_adv_adv length_concat)
qed

interpretation cm_codec: snapshot_codec cm_wf cm_to_snapshot cm_from_snapshot
  by unfold_locales (rule cm_decode_encode)

text \<open>
  Any byte string that \<^verbatim>\<open>from_snapshot\<close> accepts decodes to a sketch with positive
  dimensions and a table of exactly width times depth counters, so no later index is out of
  range; and the declared table was backed by bytes of the input.
\<close>

lemma cm_decoded_is_well_formed:
  assumes "cm_from_snapshot bs = Inr s"
  shows "cm_inv s \<and> 8 * (cm_width s * cm_depth s) \<le> length bs"
proof -
  obtain h params payload where r: "read_snapshot bs = Inr (h, params, payload)"
    using assms by (auto simp: cm_from_snapshot_def rbind_Inr_iff)
  have pl: "length payload \<le> length bs" using read_snapshot_payload_le [OF r] .
  show ?thesis
    using assms r pl
    by (auto simp: cm_from_snapshot_def cm_inv_def rbind_Inr_iff Let_def rd_check_count_def
        rd_remaining_rest rd_u64_eq dest!: rd_many_length split: if_splits)
qed

text \<open>
  C35: the collector's merge.  The shards of a stream are sketched, encoded, shipped as snapshots
  and merged by \<^verbatim>\<open>merge_all\<close>; when the empty sketch fits the snapshot format this
  succeeds and the merged sketch still bounds every key's true weight from above.
\<close>

theorem cm_merged_snapshots_never_underestimate:
  assumes "cm_new w d c h = Inr s0" "cm_wf s0" "weight (xs @ concat xss) < 2 ^ 64"
  shows "\<exists>s. merge_all cm_from_snapshot cm_merge_from
      (map (\<lambda>ys. cm_to_snapshot (feed cm_update s0 ys) ws we) (xs # xss)) = Inr s
    \<and> unat (cm_total_weight s) = weight (xs @ concat xss)
    \<and> (\<forall>k. truth (xs @ concat xss) k \<le> unat (cm_estimate_u64 s k))"
proof -
  have i: "cm_inv s0" using assms(1) by (rule cm_new_inv)
  have "length (cm_table (feed cm_update s0 ys)) = length (cm_table s0)" for ys
    using i cm.inv_feed [OF i, of ys] cm.config_feed [OF i, of ys] by (simp add: cm_inv_def cm_config_iff)
  then have wf: "cm_wf (feed cm_update s0 ys)" for ys
    using assms(2) cm.inv_feed [OF i, of ys] by (simp add: cm_wf_def)
  obtain s where s: "merge_shards cm_update cm_merge_from s0 xs xss = Inr s"
    "cm_summ s (truth (xs @ concat xss)) (weight (xs @ concat xss))"
    using cm.summ_merge_shards [OF cm_summ_new [OF assms(1)] assms(3)] by blast
  then show ?thesis
    using cm_summ_estimate(1) [OF s(2)] s(2) wf unfolding cm_codec.merge_all_shards [OF wf]
    by (auto simp: cm_summ_def)
qed

theorem cm_merged_snapshots_never_underestimate_witness:
  "\<exists>s. merge_all cm_from_snapshot cm_merge_from
      (map (\<lambda>ys. cm_to_snapshot (feed cm_update
        \<lparr>cm_width = 3, cm_depth = 1, cm_conservative = True, cm_hash = HashSpec_new 9,
         cm_table = [0, 0, 0], cm_total_weight = 0, cm_updates = 0\<rparr> ys) 0 60)
       [[([1], 5)], [([1], 2), ([7, 7], 3)]]) = Inr s
    \<and> 7 \<le> unat (cm_estimate_u64 s [1])"
  using cm_merged_snapshots_never_underestimate [of 3 1 True "HashSpec_new 9"
     "\<lparr>cm_width = 3, cm_depth = 1, cm_conservative = True, cm_hash = HashSpec_new 9,
      cm_table = [0, 0, 0], cm_total_weight = 0, cm_updates = 0\<rparr>"
     "[([1], 5)]" "[[([1], 2), ([7, 7], 3)]]" 0 60]
  by (auto simp: cm_new_def replicate_eqs cm_wf_def cm_inv_def dest!: spec [of _ "[1]"])

end
