(* ===== verification/Hll.thy ===== *)
theory Hll
  imports SketchTrait
begin

text \<open>
  \<^verbatim>\<open>flowsketch-algos/src/hll.rs\<close>: HyperLogLog with its four storage forms (empty, one
  hash, a sorted set of hashes, dense registers), the conversions between them, merging and both
  snapshot directions.  The floating-point part (the Ertl estimator on dense registers,
  \<^verbatim>\<open>precision_for_error\<close>, \<^verbatim>\<open>relative_error\<close>) and
  \<^verbatim>\<open>memory_bytes\<close> are not modelled; \<open>hll_exact_cardinality\<close> is the part of
  \<^verbatim>\<open>cardinality\<close> that answers before the dense form is reached.
\<close>

section \<open>Definitions\<close>

definition MIN_PRECISION :: u8 where "MIN_PRECISION = 4"
definition MAX_PRECISION :: u8 where "MAX_PRECISION = 18"
definition STORAGE_SPARSE :: u8 where "STORAGE_SPARSE = 0"
definition STORAGE_DENSE :: u8 where "STORAGE_DENSE = 1"
definition SPARSE_MEMORY_FRACTION :: nat where "SPARSE_MEMORY_FRACTION = 4"

datatype register_storage =
    Empty
  | Singleton u64
  | Sparse "u64 list"
  | Dense "u8 list"

record hyper_log_log =
  hl_precision :: u8
  hl_hash :: hash_spec
  hl_storage :: register_storage
  hl_updates :: u64

definition precision_ok :: "u8 \<Rightarrow> bool" where
  "precision_ok p \<longleftrightarrow> MIN_PRECISION \<le> p \<and> p \<le> MAX_PRECISION"

definition hll_new :: "u8 \<Rightarrow> hash_spec \<Rightarrow> hyper_log_log result" where
  "hll_new precision hash =
     (if \<not> precision_ok precision then Inl (InvalidParam ''hll precision must be in range'')
      else Inr \<lparr>hl_precision = precision, hl_hash = hash, hl_storage = Empty, hl_updates = 0\<rparr>)"

definition sparse_limit :: "u8 \<Rightarrow> nat" where
  "sparse_limit precision = max (2 ^ unat precision div (SPARSE_MEMORY_FRACTION * 8)) 1"

definition leading_zeros :: "u64 \<Rightarrow> nat" where
  "leading_zeros w = length (takeWhile (\<lambda>i. \<not> bit w i) (rev [0..<64]))"

text \<open>The index and rank that \<^verbatim>\<open>update_register\<close> derives from a hash.\<close>

definition hll_idx :: "u8 \<Rightarrow> u64 \<Rightarrow> nat" where
  "hll_idx precision hash = unat (drop_bit (64 - unat precision) hash)"

definition hll_rho :: "u8 \<Rightarrow> u64 \<Rightarrow> u8" where
  "hll_rho precision hash =
     (let remaining = push_bit (unat precision) hash
      in word_of_nat (min (leading_zeros remaining + 1) (64 - unat precision + 1)))"

definition update_register :: "u8 list \<Rightarrow> u8 \<Rightarrow> u64 \<Rightarrow> u8 list" where
  "update_register registers precision hash =
     (let idx = hll_idx precision hash; rho = hll_rho precision hash
      in if registers ! idx < rho then registers[idx := rho] else registers)"

definition hll_ensure_dense :: "hyper_log_log \<Rightarrow> hyper_log_log" where
  "hll_ensure_dense s =
     (let fill = (\<lambda>hs. Dense (fold (\<lambda>h r. update_register r (hl_precision s) h) hs
                              (replicate (2 ^ unat (hl_precision s)) 0)))
      in case hl_storage s of
           Dense r \<Rightarrow> s
         | Empty \<Rightarrow> s\<lparr>hl_storage := fill []\<rparr>
         | Singleton h \<Rightarrow> s\<lparr>hl_storage := fill [h]\<rparr>
         | Sparse hs \<Rightarrow> s\<lparr>hl_storage := fill hs\<rparr>)"

text \<open>\<^verbatim>\<open>binary_search\<close> on a sorted vector: found, or the position that keeps it sorted.\<close>

definition binary_search :: "u64 list \<Rightarrow> u64 \<Rightarrow> nat option" where
  "binary_search hs h =
     (if h \<in> set hs then None else Some (length (takeWhile (\<lambda>x. x < h) hs)))"

text \<open>The fall-through of the match: go dense, then set the register.\<close>

definition hll_insert_dense :: "hyper_log_log \<Rightarrow> u64 \<Rightarrow> hyper_log_log" where
  "hll_insert_dense s h =
     (let s = hll_ensure_dense s
      in case hl_storage s of
           Dense r \<Rightarrow> s\<lparr>hl_storage := Dense (update_register r (hl_precision s) h)\<rparr>
         | _ \<Rightarrow> s)"

definition hll_insert_hash :: "hyper_log_log \<Rightarrow> u64 \<Rightarrow> hyper_log_log" where
  "hll_insert_hash s h =
     (case hl_storage s of
        Empty \<Rightarrow> s\<lparr>hl_storage := Singleton h\<rparr>
      | Singleton existing \<Rightarrow>
          if existing = h then s
          else if 1 < sparse_limit (hl_precision s)
          then s\<lparr>hl_storage := Sparse (sort [existing, h])\<rparr>
          else hll_insert_dense s h
      | Sparse hs \<Rightarrow>
          (case binary_search hs h of
             None \<Rightarrow> s
           | Some position \<Rightarrow>
               if length hs < sparse_limit (hl_precision s)
               then s\<lparr>hl_storage := Sparse (take position hs @ h # drop position hs)\<rparr>
               else hll_insert_dense s h)
      | Dense r \<Rightarrow> s\<lparr>hl_storage := Dense (update_register r (hl_precision s) h)\<rparr>)"

definition hll_insert :: "hyper_log_log \<Rightarrow> bytes \<Rightarrow> hyper_log_log" where
  "hll_insert s key =
     (let s = s\<lparr>hl_updates := hl_updates s + 1\<rparr>
      in hll_insert_hash s (hash64 key (hs_seed (hl_hash s))))"

text \<open>The trait's \<^verbatim>\<open>update\<close> ignores the weight.\<close>

definition hll_update :: "hyper_log_log \<Rightarrow> bytes \<Rightarrow> u64 \<Rightarrow> hyper_log_log" where
  "hll_update s key v = hll_insert s key"

definition hll_exact_cardinality :: "hyper_log_log \<Rightarrow> nat option" where
  "hll_exact_cardinality s =
     (case hl_storage s of
        Empty \<Rightarrow> Some 0
      | Singleton h \<Rightarrow> Some 1
      | Sparse hs \<Rightarrow> Some (length hs)
      | Dense r \<Rightarrow> None)"

definition hll_params_hash :: "hyper_log_log \<Rightarrow> u64" where
  "hll_params_hash s = hash64 [hl_precision s] 0"

definition hll_compatibility :: "hyper_log_log \<Rightarrow> sketch_compatibility" where
  "hll_compatibility s = \<lparr>sc_algorithm = ''hll'', sc_version = 1, sc_hash = hl_hash s,
     sc_params_hash = hll_params_hash s\<rparr>"

text \<open>\<^verbatim>\<open>if *b > *a { *a = *b }\<close> over the registers.\<close>

definition hll_merge_dense :: "hyper_log_log \<Rightarrow> u8 list \<Rightarrow> hyper_log_log" where
  "hll_merge_dense s theirs =
     (let s = hll_ensure_dense s
      in case hl_storage s of
           Dense mine \<Rightarrow> s\<lparr>hl_storage := Dense (zip_mut (\<lambda>a b. if a < b then b else a) mine theirs)\<rparr>
         | _ \<Rightarrow> s)"

definition hll_merge_from :: "hyper_log_log \<Rightarrow> hyper_log_log \<Rightarrow> hyper_log_log result" where
  "hll_merge_from s other =
     rbind (ensure_matches (hll_compatibility s) (hll_compatibility other)) (\<lambda>_.
       let s' = (case hl_storage other of
           Empty \<Rightarrow> s
         | Singleton h \<Rightarrow> hll_insert_hash s h
         | Sparse hs \<Rightarrow> fold (\<lambda>h s. hll_insert_hash s h) hs s
         | Dense theirs \<Rightarrow> hll_merge_dense s theirs)
       in Inr (s'\<lparr>hl_updates := hl_updates s' + hl_updates other\<rparr>))"

definition hll_reset :: "hyper_log_log \<Rightarrow> hyper_log_log" where
  "hll_reset s = s\<lparr>hl_storage := (case hl_storage s of
       Empty \<Rightarrow> Empty | Singleton h \<Rightarrow> Empty | Sparse hs \<Rightarrow> Sparse []
     | Dense r \<Rightarrow> Dense (map (\<lambda>_. 0) r)), hl_updates := 0\<rparr>"

definition hll_to_snapshot :: "hyper_log_log \<Rightarrow> u64 \<Rightarrow> u64 \<Rightarrow> bytes" where
  "hll_to_snapshot s ws we =
     write_snapshot \<lparr>sh_version = SNAPSHOT_VERSION, sh_algorithm_id = HYPER_LOG_LOG,
         sh_hash = hl_hash s, sh_window_start_nanos = ws, sh_window_end_nanos = we\<rparr>
       (wr_u8 (hl_precision s))
       (wr_u64 (hl_updates s) @
        (case hl_storage s of
           Empty \<Rightarrow> wr_u8 STORAGE_SPARSE @ wr_u32 0
         | Singleton h \<Rightarrow> wr_u8 STORAGE_SPARSE @ wr_u32 1 @ wr_u64 h
         | Sparse hs \<Rightarrow> wr_u8 STORAGE_SPARSE @ wr_u32 (word_of_nat (length hs)) @ concat (map wr_u64 hs)
         | Dense r \<Rightarrow> wr_u8 STORAGE_DENSE @ r))"

text \<open>The loop that reads the sparse hashes and insists on strict order.\<close>

fun rd_sorted_hashes :: "nat \<Rightarrow> reader \<Rightarrow> u64 list \<Rightarrow> (u64 list \<times> reader) result" where
  "rd_sorted_hashes 0 r hashes = Inr (hashes, r)"
| "rd_sorted_hashes (Suc n) r hashes =
     rbind (rd_u64 r) (\<lambda>(h, r).
       if hashes \<noteq> [] \<and> h \<le> last hashes
       then Inl (Snapshot ''hll sparse hashes must be strictly sorted and unique'')
       else rd_sorted_hashes n r (hashes @ [h]))"

definition hll_storage_of :: "u64 list \<Rightarrow> register_storage" where
  "hll_storage_of hashes = (case hashes of [] \<Rightarrow> Empty | [h] \<Rightarrow> Singleton h | _ \<Rightarrow> Sparse hashes)"

definition rd_hll_storage :: "u8 \<Rightarrow> reader \<Rightarrow> (register_storage \<times> reader) result" where
  "rd_hll_storage precision r =
     rbind (rd_u8 r) (\<lambda>(encoding, r).
     if encoding = STORAGE_SPARSE then
       rbind (rd_u32 r) (\<lambda>(n, r).
       if sparse_limit precision < unat n
       then Inl (Snapshot ''hll sparse hash count exceeds limit'') else
       rbind (rd_check_count (unat n) 8 r) (\<lambda>_.
       rbind (rd_sorted_hashes (unat n) r []) (\<lambda>(hashes, r).
       Inr (hll_storage_of hashes, r))))
     else if encoding = STORAGE_DENSE then
       rbind (rd_take (2 ^ unat precision) r) (\<lambda>(registers, r).
       if \<exists>x \<in> set registers. 64 - precision + 1 < x
       then Inl (Snapshot ''hll snapshot register exceeds its maximum'')
       else Inr (Dense registers, r))
     else Inl (Snapshot ''unknown hll storage encoding''))"

definition hll_from_snapshot :: "bytes \<Rightarrow> hyper_log_log result" where
  "hll_from_snapshot bs =
     rbind (read_snapshot bs) (\<lambda>(header, params, payload).
     if sh_algorithm_id header \<noteq> HYPER_LOG_LOG then Inl (Snapshot ''not an hll snapshot'') else
     rbind (rd_u8 (Reader_new params)) (\<lambda>(precision, p).
     if \<not> precision_ok precision then Inl (Snapshot ''hll snapshot precision must be in range'') else
     rbind (rd_u64 (Reader_new payload)) (\<lambda>(updates, r).
     rbind (rd_hll_storage precision r) (\<lambda>(storage, r).
     if rd_remaining r \<noteq> 0 then Inl (Snapshot ''trailing bytes in hll snapshot payload'') else
     Inr \<lparr>hl_precision = precision, hl_hash = sh_hash header, hl_storage = storage,
          hl_updates = updates\<rparr>))))"

section \<open>Registers\<close>

text \<open>What the registers of a set of hashes must hold.\<close>

definition reg_max :: "u8 \<Rightarrow> u64 set \<Rightarrow> nat \<Rightarrow> u8" where
  "reg_max p H j = Max (insert 0 (hll_rho p ` {h \<in> H. hll_idx p h = j}))"

definition regs_ok :: "u8 \<Rightarrow> u64 set \<Rightarrow> u8 list \<Rightarrow> bool" where
  "regs_ok p H r \<longleftrightarrow> finite H \<and> length r = 2 ^ unat p \<and> (\<forall>j < 2 ^ unat p. r ! j = reg_max p H j)"

lemma hll_idx_less: "unat p \<le> 64 \<Longrightarrow> hll_idx p h < 2 ^ unat p"
proof -
  assume p: "unat p \<le> 64"
  have "unat h < 2 ^ 64" using unsigned_less [of h, where 'a = nat] by simp
  then have "unat h < 2 ^ (64 - unat p) * 2 ^ unat p" using p by (simp flip: power_add)
  then have "unat h div 2 ^ (64 - unat p) < 2 ^ unat p"
    by (simp add: less_mult_imp_div_less mult.commute)
  moreover have "take_bit 64 (unat h) = unat h" using \<open>unat h < 2 ^ 64\<close> by (rule take_bit_nat_eq_self)
  ultimately show ?thesis unfolding hll_idx_def unsigned_drop_bit_eq by (simp add: drop_bit_eq_div)
qed

lemma reg_max_insert:
  "finite H \<Longrightarrow> reg_max p (insert h H) j =
     (if hll_idx p h = j then max (hll_rho p h) (reg_max p H j) else reg_max p H j)"
proof -
  assume "finite H"
  then have fin: "finite (hll_rho p ` {h \<in> H. hll_idx p h = j})" by simp
  have "{x \<in> insert h H. hll_idx p x = j} = (if hll_idx p h = j then insert h {x \<in> H. hll_idx p x = j} else {x \<in> H. hll_idx p x = j})"
    by auto
  then show ?thesis using fin by (auto simp: reg_max_def insert_commute [of 0])
qed

lemma reg_max_Un: "finite H \<Longrightarrow> finite H' \<Longrightarrow> reg_max p (H \<union> H') j = max (reg_max p H j) (reg_max p H' j)"
  by (induction H rule: finite_induct)
    (auto simp: reg_max_insert max.assoc, simp add: reg_max_def [of p "{}"] max_absorb2)

lemma regs_ok_empty: "regs_ok p {} (replicate (2 ^ unat p) 0)"
  by (simp add: regs_ok_def reg_max_def)

lemma length_update_register [simp]: "length (update_register r p h) = length r"
  by (simp add: update_register_def Let_def)

lemma regs_ok_update: "regs_ok p H r \<Longrightarrow> regs_ok p (insert h H) (update_register r p h)"
  by (auto simp: regs_ok_def update_register_def Let_def nth_list_update reg_max_insert max_def not_less)

lemma regs_ok_fold: "regs_ok p H r \<Longrightarrow> regs_ok p (set hs \<union> H) (fold (\<lambda>h r. update_register r p h) hs r)"
proof (induction hs arbitrary: H r)
  case (Cons h hs)
  from Cons.IH [OF regs_ok_update [OF Cons.prems, of h]] show ?case by simp
qed simp

lemma regs_ok_merge:
  "regs_ok p H a \<Longrightarrow> regs_ok p H' b \<Longrightarrow> regs_ok p (H \<union> H') (zip_mut (\<lambda>a b. if a < b then b else a) a b)"
  by (auto simp: regs_ok_def nth_zip_mut reg_max_Un max_def)

lemma regs_ok_unique: "regs_ok p H a \<Longrightarrow> regs_ok p H b \<Longrightarrow> a = b"
  by (auto simp: regs_ok_def intro: nth_equalityI)

section \<open>The sketch as a summary of a set of hashes\<close>

definition hll_inv :: "hyper_log_log \<Rightarrow> bool" where
  "hll_inv s \<longleftrightarrow> precision_ok (hl_precision s) \<and>
     (case hl_storage s of
        Sparse hs \<Rightarrow> sorted_wrt (<) hs \<and> length hs \<le> sparse_limit (hl_precision s)
      | Dense r \<Rightarrow> length r = 2 ^ unat (hl_precision s)
          \<and> (\<forall>x \<in> set r. unat x \<le> 64 - unat (hl_precision s) + 1)
      | _ \<Rightarrow> True)"

text \<open>\<open>hll_holds s H\<close>: the sketch has seen exactly the hashes \<open>H\<close>.  Before the dense form it
  stores them all.\<close>

definition hll_holds :: "hyper_log_log \<Rightarrow> u64 set \<Rightarrow> bool" where
  "hll_holds s H \<longleftrightarrow> finite H \<and>
     (case hl_storage s of
        Empty \<Rightarrow> H = {}
      | Singleton h \<Rightarrow> H = {h}
      | Sparse hs \<Rightarrow> H = set hs
      | Dense r \<Rightarrow> regs_ok (hl_precision s) H r)"

lemma hll_updates_irrelevant [simp]:
  "hll_inv (s\<lparr>hl_updates := u\<rparr>) = hll_inv s" "hll_holds (s\<lparr>hl_updates := u\<rparr>) H = hll_holds s H"
  by (cases "hl_storage s"; simp add: hll_inv_def hll_holds_def)+

lemma precision_ok_iff: "precision_ok p \<longleftrightarrow> 4 \<le> unat p \<and> unat p \<le> 18"
  by (simp add: precision_ok_def MIN_PRECISION_def MAX_PRECISION_def word_le_nat_alt)

lemma precision_le: "hll_inv s \<Longrightarrow> unat (hl_precision s) \<le> 64"
  by (simp add: hll_inv_def precision_ok_iff)

lemma hll_rho_le: "precision_ok p \<Longrightarrow> unat (hll_rho p h) \<le> 64 - unat p + 1"
proof -
  assume "precision_ok p"
  then have "min (leading_zeros (push_bit (unat p) h) + 1) (64 - unat p + 1) < 2 ^ 8"
    by (auto simp: precision_ok_iff min_def)
  then have "unat (hll_rho p h) = min (leading_zeros (push_bit (unat p) h) + 1) (64 - unat p + 1)"
    unfolding hll_rho_def Let_def unsigned_of_nat by (simp add: take_bit_nat_eq_self del: of_nat_Suc)
  then show ?thesis by simp
qed

lemma hll_ensure_dense:
  assumes "hll_inv s" "hll_holds s H"
  shows "\<exists>r. hll_ensure_dense s = s\<lparr>hl_storage := Dense r\<rparr> \<and> regs_ok (hl_precision s) H r"
proof (cases "hl_storage s")
  case (Dense r)
  then have "s = s\<lparr>hl_storage := Dense r\<rparr>" by simp
  then show ?thesis using assms(2) Dense unfolding hll_ensure_dense_def hll_holds_def by (auto intro!: exI [of _ r])
qed (use assms regs_ok_fold [OF regs_ok_empty] in
    \<open>auto simp: hll_ensure_dense_def hll_holds_def Let_def intro: regs_ok_update regs_ok_empty\<close>)

lemma regs_ok_bounded: "precision_ok p \<Longrightarrow> regs_ok p H r \<Longrightarrow> x \<in> set r \<Longrightarrow> unat x \<le> 64 - unat p + 1"
proof -
  assume p: "precision_ok p" and r: "regs_ok p H r" and "x \<in> set r"
  then obtain j where j: "j < 2 ^ unat p" "x = reg_max p H j" by (auto simp: regs_ok_def in_set_conv_nth)
  have "finite (insert 0 (hll_rho p ` {h \<in> H. hll_idx p h = j}))" using r by (simp add: regs_ok_def)
  then have "x \<in> insert 0 (hll_rho p ` {h \<in> H. hll_idx p h = j})" using j(2) Max_in unfolding reg_max_def by blast
  then show ?thesis using hll_rho_le [OF p] by auto
qed

text \<open>Both invariant and contents of a sketch with dense registers.\<close>

lemma hll_dense_state:
  assumes "precision_ok (hl_precision s)" "regs_ok (hl_precision s) H r"
  shows "hll_inv (s\<lparr>hl_storage := Dense r\<rparr>) \<and> hll_holds (s\<lparr>hl_storage := Dense r\<rparr>) H"
  using assms regs_ok_bounded [OF assms] by (auto simp: hll_inv_def hll_holds_def regs_ok_def)

lemma hll_insert_dense:
  assumes "hll_inv s" "hll_holds s H"
  shows "\<exists>r. hll_insert_dense s h = s\<lparr>hl_storage := Dense r\<rparr> \<and> regs_ok (hl_precision s) (insert h H) r"
  using hll_ensure_dense [OF assms] by (auto simp: hll_insert_dense_def Let_def intro: regs_ok_update)

lemma sorted_insert_position:
  fixes hs :: "u64 list"
  assumes "sorted_wrt (<) hs" "h \<notin> set hs"
  defines "i \<equiv> length (takeWhile (\<lambda>x. x < h) hs)"
  shows "sorted_wrt (<) (take i hs @ h # drop i hs) \<and> set (take i hs @ h # drop i hs) = insert h (set hs)"
proof -
  have t: "take i hs = takeWhile (\<lambda>x. x < h) hs" and d: "drop i hs = dropWhile (\<lambda>x. x < h) hs"
    by (simp_all add: i_def takeWhile_eq_take [symmetric] dropWhile_eq_drop [symmetric])
  have hi: "h < x" if x: "x \<in> set (dropWhile (\<lambda>x. x < h) hs)" for x
  proof -
    obtain y ys where ys: "dropWhile (\<lambda>x. x < h) hs = y # ys" using x by (cases "dropWhile (\<lambda>x. x < h) hs") auto
    then have "\<not> y < h" using hd_dropWhile [of "\<lambda>x. x < h" hs] by simp
    moreover have "y \<in> set hs" using ys set_dropWhileD [of y "\<lambda>x. x < h" hs] by simp
    ultimately have "h < y" using assms(2) by (metis antisym_conv3)
    moreover have "sorted_wrt (<) (y # ys)" using assms(1) ys sorted_wrt_drop [of "(<)" hs i] d by simp
    ultimately show ?thesis using x ys by auto
  qed
  have lo: "x < h" if "x \<in> set (takeWhile (\<lambda>x. x < h) hs)" for x using set_takeWhileD [OF that] by simp
  have "sorted_wrt (<) (takeWhile (\<lambda>x. x < h) hs @ dropWhile (\<lambda>x. x < h) hs)" using assms(1) by simp
  then have tw: "sorted_wrt (<) (takeWhile (\<lambda>x. x < h) hs)" "sorted_wrt (<) (dropWhile (\<lambda>x. x < h) hs)"
    unfolding sorted_wrt_append by blast+
  have "x < y" if "x \<in> set (takeWhile (\<lambda>x. x < h) hs)" "y \<in> set (h # dropWhile (\<lambda>x. x < h) hs)" for x y
    using lo [OF that(1)] hi [of y] that(2) less_trans [of x h y] by (metis set_ConsD)
  then have s: "sorted_wrt (<) (take i hs @ h # drop i hs)"
    unfolding t d sorted_wrt_append sorted_wrt.simps using tw hi by blast
  have "set hs = set (take i hs) \<union> set (drop i hs)" by (metis append_take_drop_id set_append)
  then show ?thesis using s by auto
qed

lemma hll_insert_hash:
  assumes inv: "hll_inv s" and H: "hll_holds s H"
  shows "hll_inv (hll_insert_hash s h) \<and> hll_holds (hll_insert_hash s h) (insert h H)
    \<and> hl_precision (hll_insert_hash s h) = hl_precision s \<and> hl_hash (hll_insert_hash s h) = hl_hash s
    \<and> hl_updates (hll_insert_hash s h) = hl_updates s"
proof -
  have p: "precision_ok (hl_precision s)" using inv by (simp add: hll_inv_def)
  have dense: ?thesis if "hll_insert_hash s h = hll_insert_dense s h"
    using hll_insert_dense [OF inv H, of h] hll_dense_state [OF p] that by auto
  show ?thesis
  proof (cases "hl_storage s")
    case Empty
    then show ?thesis using H p by (simp add: hll_insert_hash_def hll_inv_def hll_holds_def)
  next
    case (Singleton e)
    show ?thesis
    proof (cases "e \<noteq> h \<and> 1 < sparse_limit (hl_precision s)")
      case True
      then have "sorted_wrt (<) (sort [e, h]) \<and> set (sort [e, h]) = {e, h} \<and> length (sort [e, h]) = 2" by auto
      then show ?thesis using True Singleton H p by (simp add: hll_insert_hash_def hll_inv_def hll_holds_def insert_commute)
    next
      case False
      then show ?thesis using Singleton H inv dense by (auto simp: hll_insert_hash_def hll_inv_def hll_holds_def)
    qed
  next
    case (Sparse hs)
    have hs: "sorted_wrt (<) hs" "length hs \<le> sparse_limit (hl_precision s)" "H = set hs"
      using inv H Sparse by (simp_all add: hll_inv_def hll_holds_def)
    show ?thesis
    proof (cases "h \<in> set hs")
      case True
      then show ?thesis using Sparse inv H hs(3) by (simp add: hll_insert_hash_def binary_search_def insert_absorb)
    next
      case False
      show ?thesis
      proof (cases "length hs < sparse_limit (hl_precision s)")
        case True
        then show ?thesis using Sparse False p hs(3) sorted_insert_position [OF hs(1) False]
          by (simp add: hll_insert_hash_def binary_search_def hll_inv_def hll_holds_def)
      next
        case full: False
        then show ?thesis using Sparse False dense by (simp add: hll_insert_hash_def binary_search_def)
      qed
    qed
  next
    case (Dense r)
    then have "regs_ok (hl_precision s) (insert h H) (update_register r (hl_precision s) h)"
      using H by (auto simp: hll_holds_def intro: regs_ok_update)
    then show ?thesis using Dense hll_dense_state [OF p] by (simp add: hll_insert_hash_def)
  qed
qed

lemma hll_insert_hashes:
  assumes "hll_inv s" "hll_holds s H"
  shows "hll_inv (fold (\<lambda>h s. hll_insert_hash s h) hs s) \<and> hll_holds (fold (\<lambda>h s. hll_insert_hash s h) hs s) (H \<union> set hs)
    \<and> hl_precision (fold (\<lambda>h s. hll_insert_hash s h) hs s) = hl_precision s
    \<and> hl_hash (fold (\<lambda>h s. hll_insert_hash s h) hs s) = hl_hash s
    \<and> hl_updates (fold (\<lambda>h s. hll_insert_hash s h) hs s) = hl_updates s"
  using assms
proof (induction hs arbitrary: s H)
  case (Cons h hs)
  note i = hll_insert_hash [OF Cons.prems, of h]
  from Cons.IH [OF i [THEN conjunct1] i [THEN conjunct2, THEN conjunct1]] i show ?case by simp
qed simp

text \<open>The dense form is only reached with more than \<open>sparse_limit\<close> distinct hashes.\<close>

definition hll_late :: "hyper_log_log \<Rightarrow> u64 set \<Rightarrow> bool" where
  "hll_late s H \<longleftrightarrow> (case hl_storage s of Dense r \<Rightarrow> sparse_limit (hl_precision s) < card H | _ \<Rightarrow> True)"

lemma hll_late_insert_hash:
  assumes "hll_inv s" "hll_holds s H" "hll_late s H"
  shows "hll_late (hll_insert_hash s h) (insert h H)"
proof -
  have fin: "finite H" using assms(2) by (simp add: hll_holds_def)
  have dense: "hll_late (hll_insert_dense s h) (insert h H)" if "sparse_limit (hl_precision s) < card (insert h H)"
    using hll_insert_dense [OF assms(1,2), of h] that by (auto simp: hll_late_def)
  show ?thesis
  proof (cases "hl_storage s")
    case (Singleton e)
    have "1 < card (insert h H)" if "e \<noteq> h" using Singleton assms(2) that by (simp add: hll_holds_def)
    then show ?thesis using Singleton dense by (auto simp: hll_insert_hash_def hll_late_def not_less)
  next
    case (Sparse hs)
    have "card (insert h H) = Suc (length hs)" if "h \<notin> set hs"
      using Sparse assms(1,2) that strict_sorted_iff [of hs] by (simp add: hll_holds_def hll_inv_def distinct_card)
    then have "hll_late (hll_insert_dense s h) (insert h H)"
      if "h \<notin> set hs" "\<not> length hs < sparse_limit (hl_precision s)"
      using dense that by simp
    moreover have "hll_insert_hash s h = hll_insert_dense s h"
      if "h \<notin> set hs" "\<not> length hs < sparse_limit (hl_precision s)"
      using Sparse that by (simp add: hll_insert_hash_def binary_search_def)
    moreover have "\<exists>hs. hl_storage (hll_insert_hash s h) = Sparse hs"
      if "h \<in> set hs \<or> length hs < sparse_limit (hl_precision s)"
      using Sparse that by (auto simp: hll_insert_hash_def binary_search_def)
    ultimately show ?thesis by (cases "h \<in> set hs \<or> length hs < sparse_limit (hl_precision s)") (auto simp: hll_late_def [of "hll_insert_hash s h"])
  next
    case (Dense r)
    then show ?thesis using assms(3) card_insert_le [of H h] by (simp add: hll_insert_hash_def hll_late_def)
  qed (simp add: hll_insert_hash_def hll_late_def)
qed

lemma hll_late_insert_hashes:
  assumes "hll_inv s" "hll_holds s H" "hll_late s H"
  shows "hll_late (fold (\<lambda>h s. hll_insert_hash s h) hs s) (H \<union> set hs)"
  using assms
proof (induction hs arbitrary: s H)
  case (Cons h hs)
  note i = hll_insert_hash [OF Cons.prems(1,2), of h]
  from Cons.IH [OF i [THEN conjunct1] i [THEN conjunct2, THEN conjunct1] hll_late_insert_hash [OF Cons.prems]]
  show ?case by simp
qed simp

lemma hll_late_updates [simp]: "hll_late (s\<lparr>hl_updates := u\<rparr>) H = hll_late s H"
  by (cases "hl_storage s") (simp_all add: hll_late_def)

section \<open>The trait's laws\<close>

text \<open>A sketch that some set of hashes can produce.\<close>

definition hll_good :: "hyper_log_log \<Rightarrow> bool" where
  "hll_good s \<longleftrightarrow> hll_inv s \<and> (\<exists>H. hll_holds s H)"

definition hll_config :: "hyper_log_log \<Rightarrow> u8 \<times> hash_spec" where
  "hll_config s = (hl_precision s, hl_hash s)"

definition hll_summ :: "hyper_log_log \<Rightarrow> bytes set \<Rightarrow> bool" where
  "hll_summ s A \<longleftrightarrow> hll_inv s \<and> hll_holds s ((\<lambda>k. hash64 k (hs_seed (hl_hash s))) ` A)
     \<and> hll_late s ((\<lambda>k. hash64 k (hs_seed (hl_hash s))) ` A)"

lemma hll_merge_storage:
  assumes a: "hll_inv a" "hll_holds a H" and b: "hll_inv b" "hll_holds b H'" "hl_precision b = hl_precision a"
    and m: "hll_merge_from a b = Inr c"
  shows "hll_inv c" "hll_holds c (H \<union> H')" "hll_config c = hll_config a" "hl_updates c = hl_updates a + hl_updates b"
    "hll_late a H \<Longrightarrow> hll_late b H' \<Longrightarrow> hll_late c (H \<union> H')"
proof -
  let ?s = "case hl_storage b of Empty \<Rightarrow> a | Singleton h \<Rightarrow> hll_insert_hash a h
     | Sparse hs \<Rightarrow> fold (\<lambda>h s. hll_insert_hash s h) hs a | Dense theirs \<Rightarrow> hll_merge_dense a theirs"
  have c: "c = ?s\<lparr>hl_updates := hl_updates ?s + hl_updates b\<rparr>"
    using m by (auto simp: hll_merge_from_def rbind_Inr_iff Let_def)
  have "hll_inv ?s \<and> hll_holds ?s (H \<union> H') \<and> hl_precision ?s = hl_precision a \<and> hl_hash ?s = hl_hash a
      \<and> hl_updates ?s = hl_updates a \<and> (hll_late a H \<longrightarrow> hll_late b H' \<longrightarrow> hll_late ?s (H \<union> H'))"
  proof (cases "hl_storage b")
    case Empty
    then show ?thesis using a b by (simp add: hll_holds_def [of b])
  next
    case (Singleton h)
    then show ?thesis using hll_insert_hash [OF a, of h] hll_late_insert_hash [OF a, of h] b
      by (simp add: hll_holds_def [of b])
  next
    case (Sparse hs)
    then show ?thesis using hll_insert_hashes [OF a, of hs] hll_late_insert_hashes [OF a, of hs] b
      by (simp add: hll_holds_def [of b])
  next
    case (Dense theirs)
    obtain r where r: "hll_ensure_dense a = a\<lparr>hl_storage := Dense r\<rparr>" "regs_ok (hl_precision a) H r"
      using hll_ensure_dense [OF a] by blast
    have "regs_ok (hl_precision a) (H \<union> H') (zip_mut (\<lambda>a b. if a < b then b else a) r theirs)"
      using r(2) b Dense by (intro regs_ok_merge) (simp_all add: hll_holds_def [of b])
    moreover have "card H' \<le> card (H \<union> H')" using a(2) b(2) by (intro card_mono) (auto simp: hll_holds_def)
    ultimately show ?thesis using Dense r hll_dense_state a(1) b(3)
      by (simp add: hll_merge_dense_def Let_def hll_inv_def [of a] hll_late_def)
  qed
  then show "hll_inv c" "hll_holds c (H \<union> H')" "hll_config c = hll_config a" "hl_updates c = hl_updates a + hl_updates b"
    "hll_late a H \<Longrightarrow> hll_late b H' \<Longrightarrow> hll_late c (H \<union> H')"
    by (simp_all add: c hll_config_def)
qed

lemma hll_update_step:
  assumes "hll_inv s" "hll_holds s H"
  shows "hll_inv (hll_update s k v)" "hll_holds (hll_update s k v) (insert (hash64 k (hs_seed (hl_hash s))) H)"
    "hll_config (hll_update s k v) = hll_config s" "hl_updates (hll_update s k v) = hl_updates s + 1"
    "hll_late s H \<Longrightarrow> hll_late (hll_update s k v) (insert (hash64 k (hs_seed (hl_hash s))) H)"
proof -
  have "hll_inv (s\<lparr>hl_updates := hl_updates s + 1\<rparr>)" "hll_holds (s\<lparr>hl_updates := hl_updates s + 1\<rparr>) H"
    using assms by simp_all
  from hll_insert_hash [OF this, of "hash64 k (hs_seed (hl_hash s))"]
    hll_late_insert_hash [OF this, of "hash64 k (hs_seed (hl_hash s))"]
  show "hll_inv (hll_update s k v)" "hll_holds (hll_update s k v) (insert (hash64 k (hs_seed (hl_hash s))) H)"
    "hll_config (hll_update s k v) = hll_config s" "hl_updates (hll_update s k v) = hl_updates s + 1"
    "hll_late s H \<Longrightarrow> hll_late (hll_update s k v) (insert (hash64 k (hs_seed (hl_hash s))) H)"
    by (simp_all add: hll_update_def hll_insert_def Let_def hll_config_def)
qed

text \<open>The digest of a one-byte parameter block is injective, so compatible sketches have the
  same precision.\<close>

lemma hll_compat_iff: "hll_compatibility a = hll_compatibility b \<longleftrightarrow> hll_config a = hll_config b"
  using hash64_one_byte [of "[]" _ "[]" 0]
  by (auto simp: hll_compatibility_def hll_params_hash_def hll_config_def)

lemma hll_merge_from_eq:
  "hll_compatibility a = hll_compatibility b \<Longrightarrow> \<exists>c. hll_merge_from a b = Inr c"
  "hll_compatibility a \<noteq> hll_compatibility b \<Longrightarrow>
   hll_merge_from a b = Inl (IncompatibleMerge ''sketches are not merge-compatible'')"
  "hll_merge_from a b = Inr c \<Longrightarrow> hll_config a = hll_config b"
  by (auto simp: hll_merge_from_def ensure_matches_def Let_def hll_compat_iff split: if_splits)

lemma hll_reset_ok:
  "hll_good s \<Longrightarrow> hll_good (hll_reset s)" "hll_config (hll_reset s) = hll_config s" "hl_updates (hll_reset s) = 0"
proof -
  show "hll_config (hll_reset s) = hll_config s" "hl_updates (hll_reset s) = 0"
    by (simp_all add: hll_config_def hll_reset_def)
  assume g: "hll_good s"
  have "map (\<lambda>_. 0) r = replicate (length r) (0::u8)" for r :: "u8 list" by (simp add: map_replicate_const)
  then have "hll_holds (hll_reset s) {}"
    using g regs_ok_empty [of "hl_precision s"]
    by (cases "hl_storage s") (auto simp: hll_holds_def hll_reset_def hll_good_def hll_inv_def)
  moreover have "hll_inv (hll_reset s)"
    using g by (cases "hl_storage s") (auto simp: hll_inv_def hll_reset_def hll_good_def)
  ultimately show "hll_good (hll_reset s)" by (auto simp: hll_good_def)
qed

interpretation hll: set_summary hll_good hll_update hll_merge_from hll_reset hl_updates
    hll_compatibility hll_config hll_summ
proof unfold_locales
  fix s a b c :: hyper_log_log and k v and A B
  show "hll_good (hll_update s k v)" if "hll_good s"
    using that hll_update_step(1,2) unfolding hll_good_def by blast
  show "hll_compatibility (hll_update s k v) = hll_compatibility s" "hll_config (hll_update s k v) = hll_config s"
    "hl_updates (hll_update s k v) = hl_updates s + 1" if "hll_good s"
    using that hll_update_step(3,4) unfolding hll_good_def hll_compat_iff by blast+
  show "hll_good c" "hll_config c = hll_config a" "hll_compatibility c = hll_compatibility a"
    "hl_updates c = hl_updates a + hl_updates b" if "hll_good a" "hll_good b" and m: "hll_merge_from a b = Inr c"
  proof -
    have "hl_precision b = hl_precision a" using hll_merge_from_eq(3) [OF m] by (simp add: hll_config_def)
    then show "hll_good c" "hll_config c = hll_config a" "hll_compatibility c = hll_compatibility a"
      "hl_updates c = hl_updates a + hl_updates b"
      using that hll_merge_storage [of a _ b _ c] unfolding hll_good_def hll_compat_iff by blast+
  qed
  show "hll_good s" if "hll_summ s A" using that by (auto simp: hll_summ_def hll_good_def)
  show "hll_summ (hll_update s k v) (insert k A)" if "hll_summ s A"
    using that hll_update_step [of s _ k v] by (auto simp: hll_summ_def hll_config_def)
  show "hll_summ c (A \<union> B)" if "hll_summ a A" "hll_summ b B" "hll_config a = hll_config b" "hll_merge_from a b = Inr c"
    using that hll_merge_storage [of a _ b _ c] by (auto simp: hll_summ_def hll_config_def image_Un)
  show "hll_compatibility (hll_reset s) = hll_compatibility s" using hll_reset_ok(2) hll_compat_iff by blast
qed (blast intro: hll_merge_from_eq hll_reset_ok)+

lemma hll_summ_new: "hll_new p h = Inr s \<Longrightarrow> hll_summ s {} \<and> hll_config s = (p, h)"
  by (auto simp: hll_new_def hll_summ_def hll_inv_def hll_holds_def hll_config_def hll_late_def split: if_splits)

text \<open>The registers a sketch stands for, whatever its storage form.\<close>

definition hll_registers :: "hyper_log_log \<Rightarrow> u8 list" where
  "hll_registers s = (case hl_storage (hll_ensure_dense s) of Dense r \<Rightarrow> r | _ \<Rightarrow> [])"

lemma hll_registers: "hll_summ s A \<Longrightarrow>
   regs_ok (hl_precision s) ((\<lambda>k. hash64 k (hs_seed (hl_hash s))) ` A) (hll_registers s)"
  using hll_ensure_dense [of s "(\<lambda>k. hash64 k (hs_seed (hl_hash s))) ` A"]
  by (auto simp: hll_summ_def hll_registers_def)

text \<open>
  C27: HyperLogLog is a set union.  For every sharding of a stream, sketching the shards and
  merging succeeds and gives the same registers as sketching the whole stream: register \<open>j\<close> holds
  the maximum of \<open>hll_rho\<close> over the hashes of the distinct keys that select \<open>j\<close> (0 when there is
  none).  Order, repetitions, weights and the storage forms on the way do not matter.
\<close>

theorem hll_merge_is_union:
  assumes "hll_new p h = Inr s0"
  shows "\<exists>s. merge_shards hll_update hll_merge_from s0 xs xss = Inr s
    \<and> hll_registers s = hll_registers (feed hll_update s0 (xs @ concat xss))
    \<and> length (hll_registers s) = 2 ^ unat p
    \<and> (\<forall>j < 2 ^ unat p. hll_registers s ! j =
         Max (insert 0 (hll_rho p ` {x. \<exists>k \<in> fst ` set (xs @ concat xss). x = hash64 k (hs_seed h) \<and> hll_idx p x = j})))"
proof -
  let ?A = "fst ` set (xs @ concat xss)" and ?hash = "\<lambda>k. hash64 k (hs_seed h)"
  have s0: "hll_summ s0 {}" "hll_config s0 = (p, h)" "hll_good s0"
    using hll_summ_new [OF assms] hll.summ_inv by blast+
  obtain s where s: "merge_shards hll_update hll_merge_from s0 xs xss = Inr s" "hll_summ s ?A"
    using hll.summ_merge_shards [OF s0(1)] by blast
  have whole: "hll_summ (feed hll_update s0 (xs @ concat xss)) ?A"
    using hll.summ_feed [OF s0(1), of "xs @ concat xss"] by simp
  have cfg: "hll_config s = (p, h)" "hll_config (feed hll_update s0 (xs @ concat xss)) = (p, h)"
    using hll.config_merge_shards [OF s0(3) s(1)] hll.config_feed [OF s0(3)] s0(2) by auto
  have r: "regs_ok p (?hash ` ?A) (hll_registers s)"
    "regs_ok p (?hash ` ?A) (hll_registers (feed hll_update s0 (xs @ concat xss)))"
    using hll_registers [OF s(2)] hll_registers [OF whole] cfg by (simp_all add: hll_config_def)
  have "{x \<in> ?hash ` ?A. hll_idx p x = j} = {x. \<exists>k \<in> ?A. x = ?hash k \<and> hll_idx p x = j}" for j by auto
  with r s(1) regs_ok_unique [OF r] show ?thesis by (simp add: regs_ok_def reg_max_def)
qed

theorem hll_merge_is_union_witness:
  "\<exists>s. merge_shards hll_update hll_merge_from
      \<lparr>hl_precision = 4, hl_hash = HashSpec_new 5, hl_storage = Empty, hl_updates = 0\<rparr>
      [([1], 1), ([2], 1)] [[([1], 1)], [([3], 9)]] = Inr s \<and> length (hll_registers s) = 16"
  using hll_merge_is_union [of 4 "HashSpec_new 5"
      "\<lparr>hl_precision = 4, hl_hash = HashSpec_new 5, hl_storage = Empty, hl_updates = 0\<rparr>"
      "[([1], 1), ([2], 1)]" "[[([1], 1)], [([3], 9)]]"]
  by (auto simp: hll_new_def precision_ok_iff)

text \<open>
  Small cardinalities are exact.  For every sharding and merging, either the sketch answers
  with the number of distinct hashes of the keys seen (the number of distinct keys when no two
  of them collide), or more than \<open>sparse_limit\<close> distinct hashes have been seen.
\<close>

lemma hll_small_cardinality_is_exact:
  assumes "hll_new p h = Inr s0"
  shows "\<exists>s. merge_shards hll_update hll_merge_from s0 xs xss = Inr s
    \<and> (case hll_exact_cardinality s of
         Some c \<Rightarrow> c = card ((\<lambda>k. hash64 k (hs_seed h)) ` fst ` set (xs @ concat xss))
       | None \<Rightarrow> sparse_limit p < card ((\<lambda>k. hash64 k (hs_seed h)) ` fst ` set (xs @ concat xss)))"
proof -
  let ?A = "fst ` set (xs @ concat xss)" and ?hash = "\<lambda>k. hash64 k (hs_seed h)"
  have s0: "hll_summ s0 {}" "hll_config s0 = (p, h)" "hll_good s0"
    using hll_summ_new [OF assms(1)] hll.summ_inv by blast+
  obtain s where m: "merge_shards hll_update hll_merge_from s0 xs xss = Inr s" and s: "hll_summ s ?A"
    using hll.summ_merge_shards [OF s0(1)] by blast
  have cfg: "hl_hash s = h" "hl_precision s = p"
    using hll.config_merge_shards [OF s0(3) m] s0(2) by (simp_all add: hll_config_def)
  with s have H: "hll_holds s (?hash ` ?A)" and inv: "hll_inv s" and late: "hll_late s (?hash ` ?A)"
    by (simp_all add: hll_summ_def)
  have "case hll_exact_cardinality s of Some c \<Rightarrow> c = card (?hash ` ?A) | None \<Rightarrow> sparse_limit p < card (?hash ` ?A)"
  proof (cases "hl_storage s")
    case (Sparse hs)
    then have "distinct hs" using inv strict_sorted_iff by (auto simp: hll_inv_def)
    then show ?thesis using Sparse H by (simp add: hll_exact_cardinality_def hll_holds_def distinct_card)
  qed (use H late cfg in \<open>auto simp: hll_exact_cardinality_def hll_holds_def hll_late_def\<close>)
  with m show ?thesis by blast
qed

section \<open>Snapshots\<close>

lemma sorted_wrt_snoc_less: "sorted_wrt (<) hs \<Longrightarrow> hs = [] \<or> last hs < h \<Longrightarrow> sorted_wrt (<) (hs @ [h])" for h :: u64
proof -
  assume s: "sorted_wrt (<) hs" and l: "hs = [] \<or> last hs < h"
  have "x < h" if "x \<in> set hs" for x
  proof -
    have ne: "hs \<noteq> []" using that by auto
    have "sorted_wrt (<) (butlast hs @ [last hs])" using s ne by simp
    moreover have "x \<in> set (butlast hs @ [last hs])" using that ne by simp
    ultimately have "x \<le> last hs" unfolding sorted_wrt_append by auto
    then show ?thesis using l ne by (metis order_le_less_trans)
  qed
  then show ?thesis using s by (simp add: sorted_wrt_append)
qed

lemma rd_sorted_hashes_inv:
  assumes "rd_sorted_hashes n r hashes = Inr (hs, r')" "sorted_wrt (<) hashes"
  shows "sorted_wrt (<) hs \<and> length hs = length hashes + n"
  using assms
proof (induction n arbitrary: r hashes)
  case (Suc n)
  then obtain h r1 where ok: "\<not> (hashes \<noteq> [] \<and> h \<le> last hashes)" and rd: "rd_sorted_hashes n r1 (hashes @ [h]) = Inr (hs, r')"
    by (auto simp: rbind_Inr_iff split: if_splits)
  have "sorted_wrt (<) (hashes @ [h])"
    using Suc.prems(2) ok by (intro sorted_wrt_snoc_less) (auto simp: not_le)
  from Suc.IH [OF rd this] show ?case by simp
qed simp

lemma rd_sorted_hashes_encoded:
  assumes "rd_rest r = concat (map wr_u64 hs) @ b" "sorted_wrt (<) (hashes @ hs)"
  shows "rd_sorted_hashes (length hs) r hashes = Inr (hashes @ hs, rd_adv (8 * length hs) r)"
  using assms
proof (induction hs arbitrary: r hashes)
  case (Cons h hs)
  have rd: "rd_u64 r = Inr (h, rd_adv 8 r)" using Cons.prems(1) by (intro rd_u64_append) simp
  have "\<not> h \<le> last hashes" if "hashes \<noteq> []"
    using Cons.prems(2) that last_in_set [OF that] by (auto simp: sorted_wrt_append not_le)
  moreover have "rd_sorted_hashes (length hs) (rd_adv 8 r) (hashes @ [h]) = Inr ((hashes @ [h]) @ hs, rd_adv (8 * length hs) (rd_adv 8 r))"
    using Cons.prems by (intro Cons.IH) simp_all
  ultimately show ?case by (cases "hashes = []") (simp_all add: rd)
qed (simp add: rd_adv_def)

lemma hll_storage_of_inv:
  "sorted_wrt (<) hs \<Longrightarrow> length hs \<le> sparse_limit p \<Longrightarrow> precision_ok p \<Longrightarrow>
   hll_inv \<lparr>hl_precision = p, hl_hash = h, hl_storage = hll_storage_of hs, hl_updates = u\<rparr>"
  by (auto simp: hll_inv_def hll_storage_of_def split: list.split)

lemma max_register: "precision_ok p \<Longrightarrow> unat (64 - p + 1 :: u8) = 64 - unat p + 1"
proof -
  assume p: "precision_ok p"
  have "unat (65 - p :: u8) = 65 - unat p" using p by (subst unat_sub) (simp_all add: precision_ok_iff word_le_nat_alt)
  then show ?thesis using p by (auto simp: precision_ok_iff)
qed

text \<open>
  Any byte string that \<^verbatim>\<open>from_snapshot\<close> accepts decodes to a valid HyperLogLog: a
  supported precision, strictly sorted sparse hashes within the limit, or exactly
  \<open>2^precision\<close> registers none of which exceeds the largest possible rank.
\<close>

lemma hll_decoded_is_well_formed:
  assumes "hll_from_snapshot bs = Inr s"
  shows "hll_inv s"
proof -
  obtain h p u st r r' where p: "precision_ok p" and rd: "rd_hll_storage p r = Inr (st, r')"
    and s: "s = \<lparr>hl_precision = p, hl_hash = h, hl_storage = st, hl_updates = u\<rparr>"
    using assms by (auto simp: hll_from_snapshot_def rbind_Inr_iff split: if_splits)
  from rd consider (sparse) hs r1 n where "st = hll_storage_of hs" "rd_sorted_hashes n r1 [] = Inr (hs, r')" "n \<le> sparse_limit p"
    | (dense) regs r1 where "st = Dense regs" "rd_take (2 ^ unat p) r1 = Inr (regs, r')" "\<forall>x \<in> set regs. \<not> 64 - p + 1 < x"
    by (auto simp: rd_hll_storage_def rbind_Inr_iff not_less split: if_splits)
  then show ?thesis
  proof cases
    case sparse
    then show ?thesis using rd_sorted_hashes_inv [OF sparse(2)] p s by (auto intro: hll_storage_of_inv)
  next
    case dense
    then have "length regs = 2 ^ unat p" using rd_take_consumes by blast
    moreover have "unat x \<le> 64 - unat p + 1" if "x \<in> set regs" for x
      using dense(3) that max_register [OF p] by (auto simp: word_less_nat_alt not_less)
    ultimately show ?thesis using s dense(1) p by (simp add: hll_inv_def)
  qed
qed

text \<open>A sparse vector of length 0 or 1 (left behind by a reset) is stored in the smaller form.\<close>

definition hll_norm :: "register_storage \<Rightarrow> register_storage" where
  "hll_norm st = (case st of Sparse hs \<Rightarrow> hll_storage_of hs | _ \<Rightarrow> st)"

lemma sparse_limit_le: "precision_ok p \<Longrightarrow> sparse_limit p \<le> 2 ^ 18"
proof -
  assume "precision_ok p"
  then have "(2::nat) ^ unat p \<le> 2 ^ 18" by (intro power_increasing) (simp_all add: precision_ok_iff)
  then show ?thesis unfolding sparse_limit_def SPARSE_MEMORY_FRACTION_def by simp
qed

lemma rd_hll_storage_sparse:
  assumes "rd_rest r = wr_u8 STORAGE_SPARSE @ wr_u32 (word_of_nat (length hs)) @ concat (map wr_u64 hs)"
    "sorted_wrt (<) hs" "length hs \<le> sparse_limit p" "precision_ok p"
  shows "rd_hll_storage p r = Inr (hll_storage_of hs, rd_adv (8 * length hs) (rd_adv 4 (rd_adv 1 r)))"
proof -
  let ?r1 = "rd_adv 1 r" and ?r2 = "rd_adv 4 (rd_adv 1 r)"
  have "length hs < 2 ^ 32" using assms(3) sparse_limit_le [OF assms(4)] by simp
  then have n: "unat (word_of_nat (length hs) :: u32) = length hs" by (rule u32_of_nat_unat)
  have e1: "rd_rest ?r1 = wr_u32 (word_of_nat (length hs)) @ concat (map wr_u64 hs)" using assms(1) by simp
  have e2: "rd_rest ?r2 = concat (map wr_u64 hs) @ []" unfolding rd_rest_adv [of 4] e1 by simp
  have cnt: "rd_check_count (length hs) 8 ?r2 = Inr ()"
    using length_concat_const [of hs wr_u64 8] unfolding rd_check_count_def rd_remaining_rest e2
    by (simp del: length_concat)
  show ?thesis
    unfolding rd_hll_storage_def rd_u8_append [OF assms(1)] rbind.simps prod.case rd_u32_append [OF e1] n
    using assms(3) cnt rd_sorted_hashes_encoded [OF e2, of "[]"] assms(2) by simp
qed

lemma rd_hll_storage_dense:
  assumes "rd_rest r = wr_u8 STORAGE_DENSE @ regs" "length regs = 2 ^ unat p"
    "\<forall>x \<in> set regs. unat x \<le> 64 - unat p + 1" "precision_ok p"
  shows "rd_hll_storage p r = Inr (Dense regs, rd_adv (2 ^ unat p) (rd_adv 1 r))"
proof -
  have e1: "rd_rest (rd_adv 1 r) = regs @ []" using assms(1) by simp
  have "\<not> (\<exists>x \<in> set regs. 64 - p + 1 < x)"
    using assms(3) max_register [OF assms(4)] by (auto simp: word_less_nat_alt not_less)
  then show ?thesis
    unfolding rd_hll_storage_def rd_u8_append [OF assms(1)] rbind.simps prod.case
    using rd_take_append [OF e1 assms(2)] by (simp add: STORAGE_SPARSE_def STORAGE_DENSE_def)
qed

lemma hll_decode_encode:
  assumes inv: "hll_inv s"
  shows "hll_from_snapshot (hll_to_snapshot s ws we) = Inr (s\<lparr>hl_storage := hll_norm (hl_storage s)\<rparr>)"
proof -
  let ?p = "hl_precision s"
  have p: "precision_ok ?p" using inv by (simp add: hll_inv_def)
  define enc where "enc = (case hl_storage s of
     Empty \<Rightarrow> wr_u8 STORAGE_SPARSE @ wr_u32 0 | Singleton h \<Rightarrow> wr_u8 STORAGE_SPARSE @ wr_u32 1 @ wr_u64 h
   | Sparse hs \<Rightarrow> wr_u8 STORAGE_SPARSE @ wr_u32 (word_of_nat (length hs)) @ concat (map wr_u64 hs)
   | Dense r \<Rightarrow> wr_u8 STORAGE_DENSE @ r)"
  have pow: "(2::nat) ^ unat ?p \<le> 2 ^ 18" using p by (intro power_increasing) (simp_all add: precision_ok_iff)
  let ?r = "rd_adv 8 (Reader_new (wr_u64 (hl_updates s) @ enc))"
  have rest: "rd_rest ?r = enc" by simp
  have sparse: "\<exists>r'. rd_hll_storage ?p ?r = Inr (hll_storage_of hs, r') \<and> rd_rest r' = [] \<and> length enc < 2 ^ 31"
    if enc': "enc = wr_u8 STORAGE_SPARSE @ wr_u32 (word_of_nat (length hs)) @ concat (map wr_u64 hs)"
      and hs: "sorted_wrt (<) hs" "length hs \<le> sparse_limit ?p" for hs
  proof -
    have len: "length (concat (map wr_u64 hs)) = 8 * length hs" using length_concat_const [of hs wr_u64 8] by simp
    have "length enc < 2 ^ 31" using hs(2) sparse_limit_le [OF p] by (simp add: enc' len del: length_concat)
    moreover note rd_hll_storage_sparse [OF rest [unfolded enc'] hs p]
    moreover have "rd_rest (rd_adv (8 * length hs) (rd_adv 4 (rd_adv 1 ?r))) = []"
      using len by (simp add: enc' del: length_concat)
    ultimately show ?thesis by (simp add: enc')
  qed
  have "\<exists>r'. rd_hll_storage ?p ?r = Inr (hll_norm (hl_storage s), r') \<and> rd_rest r' = [] \<and> length enc < 2 ^ 31"
  proof (cases "hl_storage s")
    case Empty
    then show ?thesis using sparse [of "[]"] by (simp add: enc_def hll_norm_def hll_storage_of_def)
  next
    case (Singleton h)
    have "1 \<le> sparse_limit ?p" by (simp add: sparse_limit_def)
    then show ?thesis using Singleton sparse [of "[h]"] by (simp add: enc_def hll_norm_def hll_storage_of_def)
  next
    case (Sparse hs)
    then show ?thesis using sparse [of hs] inv by (simp add: enc_def hll_norm_def hll_inv_def)
  next
    case (Dense regs)
    then have regs: "length regs = 2 ^ unat ?p" "\<forall>x \<in> set regs. unat x \<le> 64 - unat ?p + 1"
      using inv by (simp_all add: hll_inv_def)
    have enc': "enc = wr_u8 STORAGE_DENSE @ regs" using Dense by (simp add: enc_def)
    have "length enc < 2 ^ 31" using pow regs(1) by (simp add: enc')
    moreover have "rd_rest (rd_adv (2 ^ unat ?p) (rd_adv 1 ?r)) = []" using regs(1) by (simp add: enc')
    ultimately show ?thesis
      using rd_hll_storage_dense [OF rest [unfolded enc'] regs p] Dense by (simp add: enc' hll_norm_def)
  qed
  then obtain r' where st: "rd_hll_storage ?p ?r = Inr (hll_norm (hl_storage s), r')" "rd_rest r' = []" "length enc < 2 ^ 31"
    by blast
  show ?thesis
    unfolding hll_to_snapshot_def hll_from_snapshot_def enc_def [symmetric]
    using st p by (simp add: read_write_snapshot rd_u8_eq rd_u64_eq rd_remaining_rest)
qed

text \<open>
  Every valid HyperLogLog survives a snapshot: the decoded sketch has the same precision,
  hash spec, update count and contents (a sparse vector with fewer than two hashes comes back in
  the smaller storage form).
\<close>

lemma hll_snapshot_round_trips:
  assumes inv: "hll_inv s"
  shows "hll_from_snapshot (hll_to_snapshot s ws we) = Inr (s\<lparr>hl_storage := hll_norm (hl_storage s)\<rparr>)"
  by (rule hll_decode_encode [OF inv])

end
