(* ===== verification/Float64.thy ===== *)
theory Float64
  imports Complex_Main
begin

text \<open>
  Values of \<^verbatim>\<open>f64\<close> under comparison: a rational number, an infinity or NaN.  Every finite
  double is a rational and comparisons of doubles are exact, so the comparisons of the source are
  modelled without rounding; arithmetic on doubles is not modelled.  The order of the type is
  \<^verbatim>\<open>f64::total_cmp\<close> (with one zero and one NaN, the largest value), while \<open>f64_lt\<close> is the
  operator \<open><\<close> of the language, false on NaN.
\<close>

datatype f64 = NegInf | Fin rat | PosInf | NaN

definition f64_lt :: "f64 \<Rightarrow> f64 \<Rightarrow> bool" where
  "f64_lt a b = (case (a, b) of (NaN, _) \<Rightarrow> False | (_, NaN) \<Rightarrow> False | (Fin x, Fin y) \<Rightarrow> x < y
     | (NegInf, NegInf) \<Rightarrow> False | (NegInf, _) \<Rightarrow> True | (PosInf, _) \<Rightarrow> False | (_, PosInf) \<Rightarrow> True | _ \<Rightarrow> False)"

text \<open>\<^verbatim>\<open>x > 0.0 && x < 1.0\<close>\<close>

definition in_unit :: "f64 \<Rightarrow> bool" where
  "in_unit x = (f64_lt (Fin 0) x \<and> f64_lt x (Fin 1))"

text \<open>The rank of the four classes in the total order.\<close>

definition f64_class :: "f64 \<Rightarrow> nat" where
  "f64_class a = (case a of NegInf \<Rightarrow> 0 | Fin _ \<Rightarrow> 1 | PosInf \<Rightarrow> 2 | NaN \<Rightarrow> 3)"

definition f64_val :: "f64 \<Rightarrow> rat" where
  "f64_val a = (case a of Fin x \<Rightarrow> x | _ \<Rightarrow> 0)"

instantiation f64 :: linorder
begin

definition less_eq_f64 :: "f64 \<Rightarrow> f64 \<Rightarrow> bool" where
  "less_eq_f64 a b \<longleftrightarrow> f64_class a < f64_class b \<or> f64_class a = f64_class b \<and> f64_val a \<le> f64_val b"

definition less_f64 :: "f64 \<Rightarrow> f64 \<Rightarrow> bool" where
  "less_f64 a b \<longleftrightarrow> a \<le> b \<and> \<not> b \<le> (a :: f64)"

instance
  by intro_classes
    (auto simp: less_f64_def less_eq_f64_def f64_class_def f64_val_def split: f64.splits)

end

lemma f64_le_Fin [simp]: "Fin x \<le> Fin y \<longleftrightarrow> x \<le> y" "Fin x < Fin y \<longleftrightarrow> x < y"
  by (auto simp: less_f64_def less_eq_f64_def f64_class_def f64_val_def)

lemma in_unit_iff: "in_unit x \<longleftrightarrow> (\<exists>r. x = Fin r \<and> 0 < r \<and> r < 1)"
  by (cases x) (simp_all add: in_unit_def f64_lt_def)

end
