(* ===== verification/HllMap.thy ===== *)
theory HllMap
  imports Hll HashMaps Float64
begin

text \<open>
  \<^verbatim>\<open>flowsketch-algos/src/hll_map.rs\<close>: the bounded map from group keys to HyperLogLogs, with
  lazily refreshed cardinality estimates and eviction of the smallest key.

  The floating-point estimator of dense registers is a parameter \<open>est\<close> (precision and registers
  to the estimated cardinality); every statement holds for all of them.  The standard
  \<^verbatim>\<open>BinaryHeap\<close> is the list of its elements, \<open>heap_pop\<close> removes a smallest one in the order
  of \<^verbatim>\<open>EvictionCandidate\<close>.  A violated \<^verbatim>\<open>expect\<close> is \<open>None\<close>.

  Shown here: the map and its eviction heap stay in step, so no operation panics and the eviction
  loop ends after refreshing each candidate at most once; the evicted key has a fresh estimate
  that is at most every retained estimate; while the map is not full every key's HyperLogLog is
  exactly that of its items; and decoded snapshots satisfy the invariant.
\<close>

section \<open>Definitions\<close>

definition hll_cardinality :: "(u8 \<Rightarrow> u8 list \<Rightarrow> f64) \<Rightarrow> hyper_log_log \<Rightarrow> f64" where
  "hll_cardinality est h = (case hl_storage h of Empty \<Rightarrow> Fin 0 | Singleton _ \<Rightarrow> Fin 1
     | Sparse hs \<Rightarrow> Fin (of_nat (length hs)) | Dense r \<Rightarrow> est (hl_precision h) r)"

record hm_slot =
  sl_hll :: hyper_log_log
  sl_cached :: f64
  sl_dirty :: bool

text \<open>\<^verbatim>\<open>EvictionCandidate\<close>: cardinality and key, smallest first, ties by key.\<close>

type_synonym eviction_candidate = "f64 \<times> bytes"

record hll_map =
  hk_max_keys :: nat
  hk_precision :: u8
  hk_hash :: hash_spec
  hk_map :: "hm_slot hmap"
  hk_eviction :: "eviction_candidate list"
  hk_evicted_keys :: u64
  hk_updates :: u64

definition hk_new :: "nat \<Rightarrow> u8 \<Rightarrow> hash_spec \<Rightarrow> hll_map result" where
  "hk_new max_keys precision hash =
     (if max_keys = 0 then Inl (InvalidParam ''hllmap max_keys must be positive'')
      else rbind (hll_new precision hash) (\<lambda>_.
        Inr \<lparr>hk_max_keys = max_keys, hk_precision = precision, hk_hash = hash, hk_map = [],
             hk_eviction = [], hk_evicted_keys = 0, hk_updates = 0\<rparr>))"

definition heap_pop :: "'a::linorder list \<Rightarrow> ('a \<times> 'a list) option" where
  "heap_pop h = (case h of [] \<Rightarrow> None | x # xs \<Rightarrow> (let m = fold min xs x in Some (m, remove1 m h)))"

fun evict_loop :: "(u8 \<Rightarrow> u8 list \<Rightarrow> f64) \<Rightarrow> nat \<Rightarrow> hll_map \<Rightarrow> hll_map option" where
  "evict_loop est 0 s = None"
| "evict_loop est (Suc fuel) s =
     (case heap_pop (hk_eviction s) of
        None \<Rightarrow> None
      | Some ((cardinality, key), rest) \<Rightarrow>
          (case hm_get (hk_map s) key of
             None \<Rightarrow> evict_loop est fuel (s\<lparr>hk_eviction := rest\<rparr>)
           | Some slot \<Rightarrow>
               if sl_dirty slot \<or> sl_cached slot \<noteq> cardinality
               then let c = hll_cardinality est (sl_hll slot)
                    in evict_loop est fuel (s\<lparr>hk_map := hm_insert key (slot\<lparr>sl_cached := c, sl_dirty := False\<rparr>) (hk_map s),
                         hk_eviction := (c, key) # rest\<rparr>)
               else Some (s\<lparr>hk_map := hm_remove key (hk_map s), hk_eviction := rest,
                            hk_evicted_keys := hk_evicted_keys s + 1\<rparr>)))"

text \<open>The loop refreshes each of the candidates at most once before it finds a clean one.\<close>

definition evict_smallest :: "(u8 \<Rightarrow> u8 list \<Rightarrow> f64) \<Rightarrow> hll_map \<Rightarrow> hll_map option" where
  "evict_smallest est s = evict_loop est (Suc (length (hk_eviction s))) s"

definition hk_insert :: "(u8 \<Rightarrow> u8 list \<Rightarrow> f64) \<Rightarrow> hll_map \<Rightarrow> bytes \<Rightarrow> bytes \<Rightarrow> hll_map option" where
  "hk_insert est s key item =
     (let s = s\<lparr>hk_updates := hk_updates s + 1\<rparr>
      in case hm_get (hk_map s) key of
        Some slot \<Rightarrow> Some (s\<lparr>hk_map := hm_insert key (slot\<lparr>sl_hll := hll_insert (sl_hll slot) item, sl_dirty := True\<rparr>) (hk_map s)\<rparr>)
      | None \<Rightarrow>
          Option.bind (if hk_max_keys s \<le> length (hk_map s) then evict_smallest est s else Some s) (\<lambda>s.
            case hll_new (hk_precision s) (hk_hash s) of
              Inl _ \<Rightarrow> None
            | Inr hll \<Rightarrow> Some (s\<lparr>hk_map := hm_insert key \<lparr>sl_hll = hll_insert hll item, sl_cached = Fin 1, sl_dirty = False\<rparr> (hk_map s),
                hk_eviction := (Fin 1, key) # hk_eviction s\<rparr>)))"

definition hk_cardinality :: "(u8 \<Rightarrow> u8 list \<Rightarrow> f64) \<Rightarrow> hll_map \<Rightarrow> bytes \<Rightarrow> f64 option" where
  "hk_cardinality est s key = map_option (\<lambda>slot. hll_cardinality est (sl_hll slot)) (hm_get (hk_map s) key)"

text \<open>\<^verbatim>\<open>entries\<close> sorts by descending cardinality, ties by key; \<^verbatim>\<open>partial_cmp\<close> and the
  total order agree on numbers.\<close>

definition hk_entries :: "(u8 \<Rightarrow> u8 list \<Rightarrow> f64) \<Rightarrow> hll_map \<Rightarrow> (bytes \<times> f64) list" where
  "hk_entries est s =
     (let all = sort_key fst (map (\<lambda>(k, slot). (k, hll_cardinality est (sl_hll slot))) (hk_map s))
      in rev (sort_key snd (rev all)))"

definition rebuild_eviction_heap :: "(u8 \<Rightarrow> u8 list \<Rightarrow> f64) \<Rightarrow> hll_map \<Rightarrow> hll_map" where
  "rebuild_eviction_heap est s =
     (let m = map (\<lambda>(k, slot). (k, slot\<lparr>sl_cached := hll_cardinality est (sl_hll slot), sl_dirty := False\<rparr>)) (hk_map s)
      in s\<lparr>hk_map := m, hk_eviction := map (\<lambda>(k, slot). (sl_cached slot, k)) m\<rparr>)"

definition hk_params_hash :: "hll_map \<Rightarrow> u64" where
  "hk_params_hash s = hash64 (wr_u64 (word_of_nat (hk_max_keys s)) @ wr_u8 (hk_precision s)) 0"

definition hk_compatibility :: "hll_map \<Rightarrow> sketch_compatibility" where
  "hk_compatibility s = \<lparr>sc_algorithm = ''hllmap'', sc_version = 1, sc_hash = hk_hash s,
     sc_params_hash = hk_params_hash s\<rparr>"

text \<open>One iteration of the merge loop.\<close>

definition hk_merge_slot :: "bytes \<times> hm_slot \<Rightarrow> hm_slot hmap \<Rightarrow> hm_slot hmap result" where
  "hk_merge_slot = (\<lambda>(k, theirs) m. case hm_get m k of
       Some mine \<Rightarrow> rbind (hll_merge_from (sl_hll mine) (sl_hll theirs)) (\<lambda>h.
         Inr (hm_insert k (mine\<lparr>sl_hll := h, sl_dirty := True\<rparr>) m))
     | None \<Rightarrow> Inr (hm_insert k theirs m))"

text \<open>\<^verbatim>\<open>while self.map.len() > self.max_keys\<close>; every eviction removes one key.\<close>

fun evict_excess :: "(u8 \<Rightarrow> u8 list \<Rightarrow> f64) \<Rightarrow> nat \<Rightarrow> hll_map \<Rightarrow> hll_map option" where
  "evict_excess est fuel s =
     (if length (hk_map s) \<le> hk_max_keys s then Some s
      else case fuel of 0 \<Rightarrow> None | Suc n \<Rightarrow> Option.bind (evict_smallest est s) (evict_excess est n))"

declare evict_excess.simps [simp del]

text \<open>The outer option is a panic, the sum the error of the trait.\<close>

definition hk_merge_from :: "(u8 \<Rightarrow> u8 list \<Rightarrow> f64) \<Rightarrow> hll_map \<Rightarrow> hll_map \<Rightarrow> hll_map result option" where
  "hk_merge_from est s other =
     (case rbind (ensure_matches (hk_compatibility s) (hk_compatibility other)) (\<lambda>_. rfold hk_merge_slot (hk_map other) (hk_map s)) of
        Inl e \<Rightarrow> Some (Inl e)
      | Inr m \<Rightarrow>
          map_option (\<lambda>s. Inr (s\<lparr>hk_evicted_keys := hk_evicted_keys s + hk_evicted_keys other,
                                hk_updates := hk_updates s + hk_updates other\<rparr>))
            (let s = rebuild_eviction_heap est (s\<lparr>hk_map := m\<rparr>) in evict_excess est (length (hk_map s)) s))"

definition hk_reset :: "hll_map \<Rightarrow> hll_map" where
  "hk_reset s = s\<lparr>hk_map := [], hk_eviction := [], hk_evicted_keys := 0, hk_updates := 0\<rparr>"

definition hk_to_snapshot :: "hll_map \<Rightarrow> u64 \<Rightarrow> u64 \<Rightarrow> bytes" where
  "hk_to_snapshot s ws we =
     write_snapshot \<lparr>sh_version = SNAPSHOT_VERSION, sh_algorithm_id = HLL_MAP,
         sh_hash = hk_hash s, sh_window_start_nanos = ws, sh_window_end_nanos = we\<rparr>
       (wr_u64 (word_of_nat (hk_max_keys s)) @ wr_u8 (hk_precision s))
       (wr_u64 (hk_updates s) @ wr_u64 (hk_evicted_keys s) @ wr_u32 (word_of_nat (length (hk_map s)))
        @ concat (map (\<lambda>(k, slot). wr_lp_bytes k @ wr_lp_bytes (hll_to_snapshot (sl_hll slot) ws we)) (hm_sorted (hk_map s))))"

text \<open>One entry of a snapshot; the map is filled afterwards in reading order.\<close>

definition rd_hll_entry :: "(u8 \<Rightarrow> u8 list \<Rightarrow> f64) \<Rightarrow> u8 \<Rightarrow> hash_spec \<Rightarrow> reader \<Rightarrow> ((bytes \<times> hm_slot) \<times> reader) result" where
  "rd_hll_entry est precision hash r =
     rbind (rd_lp_bytes r) (\<lambda>(key, r).
     rbind (rd_lp_bytes r) (\<lambda>(inner, r).
     rbind (hll_from_snapshot inner) (\<lambda>hll.
     if hl_precision hll \<noteq> precision
     then Inl (Snapshot ''hllmap inner hll precision does not match outer precision'')
     else if sc_hash (hll_compatibility hll) \<noteq> hash
     then Inl (Snapshot ''hllmap inner hll hash does not match outer hash'')
     else Inr ((key, \<lparr>sl_hll = hll, sl_cached = hll_cardinality est hll, sl_dirty = False\<rparr>), r))))"

definition hk_from_snapshot :: "(u8 \<Rightarrow> u8 list \<Rightarrow> f64) \<Rightarrow> bytes \<Rightarrow> hll_map result" where
  "hk_from_snapshot est bs =
     rbind (read_snapshot bs) (\<lambda>(header, params, payload).
     if sh_algorithm_id header \<noteq> HLL_MAP then Inl (Snapshot ''not an hllmap snapshot'') else
     rbind (rd_u64 (Reader_new params)) (\<lambda>(encoded_max_keys, p).
     let max_keys = unat encoded_max_keys in
     rbind (rd_u8 p) (\<lambda>(precision, p).
     if max_keys = 0 then Inl (Snapshot ''hllmap snapshot max_keys must be positive'') else
     if \<not> precision_ok precision then Inl (Snapshot ''hllmap snapshot precision out of range'') else
     rbind (rd_u64 (Reader_new payload)) (\<lambda>(updates, r).
     rbind (rd_u64 r) (\<lambda>(evicted_keys, r).
     rbind (rd_u32 r) (\<lambda>(n, r).
     if max_keys < unat n then Inl (Snapshot ''hllmap snapshot entry count exceeds max_keys'') else
     rbind (rd_check_count (unat n) (4 + 4) r) (\<lambda>_.
     rbind (rd_many (rd_hll_entry est precision (sh_hash header)) (unat n) r) (\<lambda>(entries, r).
     Inr (rebuild_eviction_heap est \<lparr>hk_max_keys = max_keys, hk_precision = precision, hk_hash = sh_hash header,
        hk_map = fold (\<lambda>(k, slot). hm_insert k slot) entries [], hk_eviction = [],
        hk_evicted_keys = evicted_keys, hk_updates = updates\<rparr>)))))))))"

definition hk_update :: "(u8 \<Rightarrow> u8 list \<Rightarrow> f64) \<Rightarrow> hll_map \<Rightarrow> bytes \<Rightarrow> u64 \<Rightarrow> hll_map option" where
  "hk_update est s key v = hk_insert est s key key"

section \<open>The map and its eviction heap\<close>

definition hk_sync :: "(u8 \<Rightarrow> u8 list \<Rightarrow> f64) \<Rightarrow> hll_map \<Rightarrow> bool" where
  "hk_sync est s \<longleftrightarrow> hm_ok (hk_map s) \<and> distinct (map snd (hk_eviction s))
     \<and> set (map snd (hk_eviction s)) = fst ` set (hk_map s)
     \<and> (\<forall>c k slot. (c, k) \<in> set (hk_eviction s) \<longrightarrow> hm_get (hk_map s) k = Some slot \<longrightarrow>
          sl_cached slot = c \<and> (\<not> sl_dirty slot \<longrightarrow> c = hll_cardinality est (sl_hll slot)))"

text \<open>The HyperLogLog of a key.\<close>

definition hk_hll :: "hll_map \<Rightarrow> bytes \<Rightarrow> hyper_log_log option" where
  "hk_hll s k = map_option sl_hll (hm_get (hk_map s) k)"

definition hk_inv :: "(u8 \<Rightarrow> u8 list \<Rightarrow> f64) \<Rightarrow> hll_map \<Rightarrow> bool" where
  "hk_inv est s \<longleftrightarrow> 0 < hk_max_keys s \<and> precision_ok (hk_precision s) \<and> hk_sync est s
     \<and> length (hk_map s) \<le> hk_max_keys s
     \<and> (\<forall>k h. hk_hll s k = Some h \<longrightarrow> hll_config h = (hk_precision s, hk_hash s))"

text \<open>The keys whose cached estimate is out of date.\<close>

definition hk_dirty :: "hll_map \<Rightarrow> bytes set" where
  "hk_dirty s = {k. \<exists>slot. hm_get (hk_map s) k = Some slot \<and> sl_dirty slot}"

lemma fold_min_mem: "fold min xs x \<in> insert x (set xs) \<and> (\<forall>y \<in> insert x (set xs). fold min xs x \<le> y)"
  for x :: "'a::linorder"
proof -
  have eq: "fold min xs x = Min (insert x (set xs))" using Min.set_eq_fold [of x xs] by simp
  show ?thesis unfolding eq using Min_in [of "insert x (set xs)"] Min_le [of "insert x (set xs)"] by blast
qed

lemma heap_pop_min:
  "heap_pop h = Some (m, rest) \<Longrightarrow> m \<in> set h \<and> (\<forall>x \<in> set h. m \<le> x) \<and> rest = remove1 m h"
  using fold_min_mem [of "tl h" "hd h"] by (cases h) (auto simp: heap_pop_def Let_def)

lemma heap_pop_ex: "h \<noteq> [] \<Longrightarrow> \<exists>m rest. heap_pop h = Some (m, rest)"
  by (cases h) (simp_all add: heap_pop_def Let_def)

lemma hm_keys_get: "k \<in> fst ` set m \<longleftrightarrow> (\<exists>v. hm_get m k = Some v)"
  unfolding hm_get_def by (metis map_of_eq_None_iff not_None_eq)

lemma hm_keys_insert [simp]: "fst ` set (hm_insert k v m) = insert k (fst ` set m)"
  unfolding hm_insert_def by (induction m) auto

lemma hm_keys_remove [simp]: "fst ` set (hm_remove k m) = fst ` set m - {k}"
  unfolding hm_remove_def by auto

lemma hm_length_remove:
  "hm_ok m \<Longrightarrow> k \<in> fst ` set m \<Longrightarrow> Suc (length (hm_remove k m)) = length m"
proof (induction m)
  case (Cons x m)
  obtain k' v where x: "x = (k', v)" by (cases x)
  have out: "hm_remove k m = m" if "k \<notin> fst ` set m"
    using that unfolding hm_remove_def by (induction m) auto
  show ?case using Cons x out by (auto simp: hm_ok_def hm_remove_def)
qed simp

lemma heap_entry_unique: "distinct (map snd h) \<Longrightarrow> (c, k) \<in> set h \<Longrightarrow> (c', k) \<in> set h \<Longrightarrow> c = c'"
proof -
  assume "distinct (map snd h)" "(c, k) \<in> set h" "(c', k) \<in> set h"
  then have "(c, k) = (c', k)" by (intro inj_onD [of snd "set h"]) (simp_all add: distinct_map)
  then show "c = c'" by simp
qed

lemma remove1_heap:
  assumes "distinct (map snd h)" "(c, k) \<in> set h"
  shows "distinct (map snd (remove1 (c, k) h))" "set (map snd (remove1 (c, k) h)) = set (map snd h) - {k}"
proof -
  have d: "distinct h" using assms(1) by (simp add: distinct_map)
  show "distinct (map snd (remove1 (c, k) h))"
    using d inj_on_subset [OF _ set_remove1_subset [of "(c, k)" h], of snd] assms(1) unfolding distinct_map by simp
  have "set (remove1 (c, k) h) = set h - {(c, k)}" using d by (rule set_remove1_eq)
  moreover have "snd ` (set h - {(c, k)}) = snd ` set h - snd ` {(c, k)}"
    using assms by (intro inj_on_image_set_diff [of snd "set h"]) (simp_all add: distinct_map)
  ultimately show "set (map snd (remove1 (c, k) h)) = set (map snd h) - {k}" by simp
qed

text \<open>Popping a dirty candidate, refreshing its slot and pushing it back keeps the two in step
  and leaves one dirty key less.\<close>

lemma hk_sync_refresh:
  assumes sync: "hk_sync est s" and mem: "(c, k) \<in> set (hk_eviction s)" and get: "hm_get (hk_map s) k = Some slot"
  defines "c' \<equiv> hll_cardinality est (sl_hll slot)"
  defines "s' \<equiv> s\<lparr>hk_map := hm_insert k (slot\<lparr>sl_cached := c', sl_dirty := False\<rparr>) (hk_map s),
      hk_eviction := (c', k) # remove1 (c, k) (hk_eviction s)\<rparr>"
  shows "hk_sync est s'" "hk_dirty s' = hk_dirty s - {k}" "hk_hll s' = hk_hll s" "length (hk_map s') = length (hk_map s)"
proof -
  have d: "distinct (map snd (hk_eviction s))" using sync by (simp add: hk_sync_def)
  note r = remove1_heap [OF d mem]
  have keys: "k \<in> fst ` set (hk_map s)" using get by (auto simp: hm_keys_get)
  have rest: "sl_cached sl = c1 \<and> (\<not> sl_dirty sl \<longrightarrow> c1 = hll_cardinality est (sl_hll sl)) \<and> k1 \<noteq> k"
    if "(c1, k1) \<in> set (remove1 (c, k) (hk_eviction s))" "hm_get (hk_map s) k1 = Some sl" for c1 k1 sl
  proof -
    have "(c1, k1) \<in> set (hk_eviction s)" using that(1) by (meson notin_set_remove1)
    moreover have "k1 \<noteq> k" using r(2) that(1) by force
    ultimately show ?thesis using sync that(2) unfolding hk_sync_def by blast
  qed
  show "hk_sync est s'"
  proof (unfold hk_sync_def, intro conjI)
    show "hm_ok (hk_map s')" using sync by (simp add: hk_sync_def s'_def)
    show "distinct (map snd (hk_eviction s'))" using r by (simp add: s'_def)
    show "set (map snd (hk_eviction s')) = fst ` set (hk_map s')"
    proof -
      have "set (map snd (hk_eviction s')) = insert k (fst ` set (hk_map s) - {k})"
        using r(2) sync by (simp add: s'_def hk_sync_def)
      then show ?thesis using keys by (simp add: s'_def insert_absorb)
    qed
    show "\<forall>c k slot. (c, k) \<in> set (hk_eviction s') \<longrightarrow> hm_get (hk_map s') k = Some slot \<longrightarrow>
        sl_cached slot = c \<and> (\<not> sl_dirty slot \<longrightarrow> c = hll_cardinality est (sl_hll slot))"
    proof (intro allI impI)
      fix c1 k1 sl
      assume "(c1, k1) \<in> set (hk_eviction s')" "hm_get (hk_map s') k1 = Some sl"
      then consider "c1 = c'" "k1 = k" | "(c1, k1) \<in> set (remove1 (c, k) (hk_eviction s))"
        and "hm_get (hk_map s') k1 = Some sl" by (auto simp: s'_def)
      then show "sl_cached sl = c1 \<and> (\<not> sl_dirty sl \<longrightarrow> c1 = hll_cardinality est (sl_hll sl))"
      proof cases
        case 1
        then have "sl = slot\<lparr>sl_cached := c', sl_dirty := False\<rparr>"
          using \<open>hm_get (hk_map s') k1 = Some sl\<close> by (simp add: s'_def)
        then show ?thesis using 1(1) by (simp add: c'_def)
      next
        case 2
        have "k1 \<noteq> k" using r(2) 2(1) by force
        then have "hm_get (hk_map s) k1 = Some sl" using 2(2) by (simp add: s'_def)
        then show ?thesis using rest [OF 2(1)] by blast
      qed
    qed
  qed
  show "hk_dirty s' = hk_dirty s - {k}" by (auto simp: hk_dirty_def s'_def)
  show "hk_hll s' = hk_hll s" by (rule ext) (use get in \<open>simp add: hk_hll_def s'_def\<close>)
  show "length (hk_map s') = length (hk_map s)" using get by (simp add: s'_def hm_length_insert)
qed

lemma hk_dirty_finite: "hk_sync est s \<Longrightarrow> finite (hk_dirty s) \<and> card (hk_dirty s) \<le> length (hk_eviction s)"
proof -
  assume sync: "hk_sync est s"
  have sub: "hk_dirty s \<subseteq> set (map snd (hk_eviction s))"
    using sync hm_keys_get [of _ "hk_map s"] by (auto simp: hk_dirty_def hk_sync_def)
  then have "card (hk_dirty s) \<le> card (set (map snd (hk_eviction s)))" by (intro card_mono) simp_all
  also have "\<dots> \<le> length (hk_eviction s)" using card_length [of "map snd (hk_eviction s)"] by simp
  finally show ?thesis using sub finite_subset by auto
qed

text \<open>Cached estimates that are lower bounds of the current ones.\<close>

definition hk_lower :: "(u8 \<Rightarrow> u8 list \<Rightarrow> f64) \<Rightarrow> hll_map \<Rightarrow> bool" where
  "hk_lower est s \<longleftrightarrow> (\<forall>k slot. hm_get (hk_map s) k = Some slot \<longrightarrow> sl_cached slot \<le> hll_cardinality est (sl_hll slot))"

text \<open>What an eviction does: it removes one key, whose estimate is fresh and at most every
  other cached estimate, and changes no HyperLogLog.\<close>

definition evicts :: "(u8 \<Rightarrow> u8 list \<Rightarrow> f64) \<Rightarrow> hll_map \<Rightarrow> bytes \<Rightarrow> hll_map \<Rightarrow> bool" where
  "evicts est s k s' \<longleftrightarrow> hk_sync est s' \<and> (\<exists>h. hk_hll s k = Some h
       \<and> (\<forall>k' slot. hm_get (hk_map s') k' = Some slot \<longrightarrow> hll_cardinality est h \<le> sl_cached slot))
     \<and> (hk_lower est s \<longrightarrow> hk_lower est s')
     \<and> hk_hll s' = (hk_hll s)(k := None) \<and> Suc (length (hk_map s')) = length (hk_map s)
     \<and> hk_evicted_keys s' = hk_evicted_keys s + 1 \<and> hk_updates s' = hk_updates s
     \<and> hk_max_keys s' = hk_max_keys s \<and> hk_precision s' = hk_precision s \<and> hk_hash s' = hk_hash s"

lemma hk_sync_remove:
  assumes sync: "hk_sync est s" and pop: "heap_pop (hk_eviction s) = Some ((c, k), rest)"
    and get: "hm_get (hk_map s) k = Some slot" and clean: "\<not> sl_dirty slot"
  shows "evicts est s k (s\<lparr>hk_map := hm_remove k (hk_map s), hk_eviction := rest, hk_evicted_keys := hk_evicted_keys s + 1\<rparr>)"
proof -
  have d: "distinct (map snd (hk_eviction s))" using sync by (simp add: hk_sync_def)
  have mem: "(c, k) \<in> set (hk_eviction s)" and le: "\<forall>x \<in> set (hk_eviction s). (c, k) \<le> x"
    and rest: "rest = remove1 (c, k) (hk_eviction s)" using heap_pop_min [OF pop] by auto
  note r = remove1_heap [OF d mem]
  have c: "c = hll_cardinality est (sl_hll slot)" using sync mem get clean unfolding hk_sync_def by blast
  let ?s' = "s\<lparr>hk_map := hm_remove k (hk_map s), hk_eviction := rest, hk_evicted_keys := hk_evicted_keys s + 1\<rparr>"
  have sync': "hk_sync est ?s'"
  proof (unfold hk_sync_def, intro conjI)
    show "\<forall>c k slot. (c, k) \<in> set (hk_eviction ?s') \<longrightarrow> hm_get (hk_map ?s') k = Some slot \<longrightarrow>
        sl_cached slot = c \<and> (\<not> sl_dirty slot \<longrightarrow> c = hll_cardinality est (sl_hll slot))"
      using sync set_remove1_subset [of "(c, k)" "hk_eviction s"] unfolding rest hk_sync_def
      by (auto split: if_splits)
  qed (use sync r in \<open>simp_all add: hk_sync_def rest\<close>)
  have min: "hll_cardinality est (sl_hll slot) \<le> sl_cached sl" if "hm_get (hk_map s) k' = Some sl" for k' sl
  proof -
    have "k' \<in> fst ` set (hk_map s)" using that by (auto simp: hm_keys_get)
    then have "k' \<in> snd ` set (hk_eviction s)" using sync unfolding hk_sync_def set_map by simp
    then obtain c' where c': "(c', k') \<in> set (hk_eviction s)" by auto
    then have "sl_cached sl = c'" using sync that unfolding hk_sync_def by blast
    moreover have "c \<le> c'" using le c' by (force simp: less_eq_prod_def)
    ultimately show ?thesis using c by simp
  qed
  have "k \<in> fst ` set (hk_map s)" using get by (auto simp: hm_keys_get)
  then have "Suc (length (hm_remove k (hk_map s))) = length (hk_map s)"
    using sync by (intro hm_length_remove) (auto simp: hk_sync_def)
  moreover have "hk_lower est s \<Longrightarrow> hk_lower est ?s'" by (simp add: hk_lower_def)
  ultimately show ?thesis using sync' get min by (auto simp: evicts_def hk_hll_def fun_eq_iff)
qed

lemma evict_loop_evicts:
  assumes "hk_sync est s" "hk_map s \<noteq> []" "card (hk_dirty s) < fuel"
  shows "\<exists>k s'. evict_loop est fuel s = Some s' \<and> evicts est s k s'"
  using assms
proof (induction fuel arbitrary: s)
  case (Suc fuel)
  have "set (map snd (hk_eviction s)) \<noteq> {}" using Suc.prems(1,2) by (simp add: hk_sync_def)
  then have "hk_eviction s \<noteq> []" by auto
  then obtain c k rest where pop: "heap_pop (hk_eviction s) = Some ((c, k), rest)"
    using heap_pop_ex by (metis surj_pair)
  have mem: "(c, k) \<in> set (hk_eviction s)" and rest: "rest = remove1 (c, k) (hk_eviction s)"
    using heap_pop_min [OF pop] by auto
  have "k \<in> fst ` set (hk_map s)" using Suc.prems(1) mem by (force simp: hk_sync_def)
  then obtain slot where get: "hm_get (hk_map s) k = Some slot" by (auto simp: hm_keys_get)
  have cached: "sl_cached slot = c" using Suc.prems(1) mem get unfolding hk_sync_def by blast
  show ?case
  proof (cases "sl_dirty slot")
    case False
    then show ?thesis using pop get cached hk_sync_remove [OF Suc.prems(1) pop get] by auto
  next
    case True
    let ?c = "hll_cardinality est (sl_hll slot)"
    let ?s = "s\<lparr>hk_map := hm_insert k (slot\<lparr>sl_cached := ?c, sl_dirty := False\<rparr>) (hk_map s), hk_eviction := (?c, k) # rest\<rparr>"
    note ref = hk_sync_refresh [OF Suc.prems(1) mem get, folded rest]
    have "k \<in> hk_dirty s" using True get by (simp add: hk_dirty_def)
    then have "card (hk_dirty s) > 0" using hk_dirty_finite [OF Suc.prems(1)] by (auto simp: card_gt_0_iff)
    then have "card (hk_dirty ?s) < fuel"
      using Suc.prems(3) \<open>k \<in> hk_dirty s\<close> by (simp add: ref(2) card_Diff_singleton)
    moreover have "hk_map ?s \<noteq> []" using ref(4) Suc.prems(2) by (metis length_0_conv)
    ultimately obtain k' s' where s': "evict_loop est fuel ?s = Some s'" "evicts est ?s k' s'"
      using Suc.IH [OF ref(1)] by blast
    have "hk_lower est s \<Longrightarrow> hk_lower est ?s" by (simp add: hk_lower_def)
    then have "evicts est s k' s'" using s'(2) ref(3,4) by (simp add: evicts_def)
    then show ?thesis using s'(1) True pop get by (auto simp: Let_def)
  qed
qed simp

lemma evict_smallest_evicts:
  assumes "hk_sync est s" "hk_map s \<noteq> []"
  shows "\<exists>k s'. evict_smallest est s = Some s' \<and> evicts est s k s'"
  unfolding evict_smallest_def using hk_dirty_finite [OF assms(1)]
  by (intro evict_loop_evicts [OF assms]) simp

section \<open>Insertion\<close>

lemma hll_config_insert_hash [simp]: "hll_config (hll_insert_hash h x) = hll_config h"
  by (auto simp: hll_config_def hll_insert_hash_def hll_insert_dense_def hll_ensure_dense_def Let_def
      split: register_storage.splits option.splits)

lemma hll_config_insert [simp]: "hll_config (hll_insert h x) = hll_config h"
  by (simp add: hll_insert_def Let_def) (simp add: hll_config_def)

lemma hll_config_insert_hashes [simp]: "hll_config (fold (\<lambda>x h. hll_insert_hash h x) hs h) = hll_config h"
  by (induction hs arbitrary: h) simp_all

lemma hll_config_merge: "hll_merge_from a b = Inr c \<Longrightarrow> hll_config c = hll_config a"
proof -
  have 1: "hll_config (h\<lparr>hl_updates := u\<rparr>) = hll_config h" for h u by (simp add: hll_config_def)
  have 2: "hll_config (hll_merge_dense h r) = hll_config h" for h r
    by (auto simp: hll_config_def hll_merge_dense_def hll_ensure_dense_def Let_def split: register_storage.splits)
  show "hll_merge_from a b = Inr c \<Longrightarrow> hll_config c = hll_config a"
    by (auto simp: hll_merge_from_def rbind_Inr_iff 1 2 Let_def split: register_storage.splits)
qed

text \<open>What one insertion does: the key's HyperLogLog gains the item; a new key in a full map
  first evicts one, so at most one other key changes.\<close>

definition hk_base :: "hll_map \<Rightarrow> hyper_log_log" where
  "hk_base s = \<lparr>hl_precision = hk_precision s, hl_hash = hk_hash s, hl_storage = Empty, hl_updates = 0\<rparr>"

lemma hll_new_base: "precision_ok (hk_precision s) \<Longrightarrow> hll_new (hk_precision s) (hk_hash s) = Inr (hk_base s)"
  by (simp add: hll_new_def hk_base_def)

lemma hll_config_base [simp]: "hll_config (hk_base s) = (hk_precision s, hk_hash s)"
  by (simp add: hll_config_def hk_base_def)

lemma hll_cardinality_first: "hll_cardinality est (hll_insert (hk_base s) x) = Fin 1"
  by (simp add: hll_insert_def hk_base_def hll_insert_hash_def hll_cardinality_def Let_def)

lemma hk_sync_add:
  assumes sync: "hk_sync est s" and new: "hm_get (hk_map s) key = None" and fresh: "hll_cardinality est h = Fin 1"
  shows "hk_sync est (s\<lparr>hk_map := hm_insert key \<lparr>sl_hll = h, sl_cached = Fin 1, sl_dirty = False\<rparr> (hk_map s),
      hk_eviction := (Fin 1, key) # hk_eviction s\<rparr>)" (is "hk_sync est ?s")
proof -
  have out: "key \<notin> set (map snd (hk_eviction s))"
    using sync new hm_keys_get [of key "hk_map s"] by (simp add: hk_sync_def)
  show ?thesis
  proof (unfold hk_sync_def, intro conjI allI impI)
    fix c k slot
    assume mem: "(c, k) \<in> set (hk_eviction ?s)" and get: "hm_get (hk_map ?s) k = Some slot"
    have *: "sl_cached slot = c \<and> (\<not> sl_dirty slot \<longrightarrow> c = hll_cardinality est (sl_hll slot))"
    proof (cases "k = key")
      case True
      then have "c = Fin 1" using mem out by (auto simp: image_iff)
      moreover have "slot = \<lparr>sl_hll = h, sl_cached = Fin 1, sl_dirty = False\<rparr>" using get True by simp
      ultimately show ?thesis using fresh by simp
    next
      case False
      then have "(c, k) \<in> set (hk_eviction s)" "hm_get (hk_map s) k = Some slot" using mem get by auto
      then show ?thesis using sync unfolding hk_sync_def by blast
    qed
    then show "sl_cached slot = c" ..
    from * show "\<not> sl_dirty slot \<Longrightarrow> c = hll_cardinality est (sl_hll slot)" by blast
  qed (use sync out in \<open>simp_all add: hk_sync_def\<close>)
qed

lemma hk_sync_touch:
  assumes sync: "hk_sync est s" and get: "hm_get (hk_map s) key = Some slot"
  shows "hk_sync est (s\<lparr>hk_map := hm_insert key (slot\<lparr>sl_hll := h, sl_dirty := True\<rparr>) (hk_map s)\<rparr>)" (is "hk_sync est ?s")
proof (unfold hk_sync_def, intro conjI allI impI)
  have keys: "key \<in> fst ` set (hk_map s)" using get by (auto simp: hm_keys_get)
  then show "set (map snd (hk_eviction ?s)) = fst ` set (hk_map ?s)"
    using sync by (simp add: hk_sync_def insert_absorb)
  fix c k sl
  assume mem: "(c, k) \<in> set (hk_eviction ?s)" and gk: "hm_get (hk_map ?s) k = Some sl"
  have old: "sl_cached slot' = c \<and> (\<not> sl_dirty slot' \<longrightarrow> c = hll_cardinality est (sl_hll slot'))"
    if "hm_get (hk_map s) k = Some slot'" for slot'
    using sync mem that unfolding hk_sync_def by simp
  have *: "sl_cached sl = c \<and> (\<not> sl_dirty sl \<longrightarrow> c = hll_cardinality est (sl_hll sl))"
  proof (cases "k = key")
    case True
    then have "sl = slot\<lparr>sl_hll := h, sl_dirty := True\<rparr>" using gk by simp
    then show ?thesis using old [of slot] get True by simp
  next
    case False
    then show ?thesis using old gk by simp
  qed
  then show "sl_cached sl = c" ..
  from * show "\<not> sl_dirty sl \<Longrightarrow> c = hll_cardinality est (sl_hll sl)" by blast
qed (use sync in \<open>simp_all add: hk_sync_def\<close>)

lemma hk_insert_known:
  assumes inv: "hk_inv est s" and h: "hk_hll s key = Some h"
  shows "\<exists>s'. hk_insert est s key item = Some s' \<and> hk_inv est s' \<and> hk_hll s' = (hk_hll s)(key \<mapsto> hll_insert h item)
     \<and> hk_updates s' = hk_updates s + 1 \<and> hk_evicted_keys s' = hk_evicted_keys s
     \<and> hk_max_keys s' = hk_max_keys s \<and> hk_precision s' = hk_precision s \<and> hk_hash s' = hk_hash s
     \<and> length (hk_map s') = length (hk_map s)"
proof -
  obtain slot where get: "hm_get (hk_map s) key = Some slot" "sl_hll slot = h" using h by (auto simp: hk_hll_def)
  let ?s = "s\<lparr>hk_updates := hk_updates s + 1\<rparr>"
  let ?r = "?s\<lparr>hk_map := hm_insert key (slot\<lparr>sl_hll := hll_insert h item, sl_dirty := True\<rparr>) (hk_map ?s)\<rparr>"
  have "hk_sync est ?s" using inv by (simp add: hk_inv_def hk_sync_def)
  then have sync: "hk_sync est ?r" using get by (intro hk_sync_touch) simp_all
  have hll: "hk_hll ?r = (hk_hll s)(key \<mapsto> hll_insert h item)" by (rule ext) (simp add: hk_hll_def)
  have len: "length (hk_map ?r) = length (hk_map s)" using get by (simp add: hm_length_insert)
  have "hk_inv est ?r" using inv sync hll len h by (auto simp: hk_inv_def)
  then show ?thesis using get hll len by (intro exI [of _ ?r]) (simp add: hk_insert_def Let_def)
qed

lemma hk_insert_new_key:
  fixes item :: bytes
  assumes sync: "hk_sync est s" and p: "precision_ok (hk_precision s)" and new: "hk_hll s key = None"
    and room: "length (hk_map s) < hk_max_keys s"
    and conf: "\<forall>k h. hk_hll s k = Some h \<longrightarrow> hll_config h = (hk_precision s, hk_hash s)"
  defines "h \<equiv> hll_insert (hk_base s) item"
  defines "s' \<equiv> s\<lparr>hk_map := hm_insert key \<lparr>sl_hll = h, sl_cached = Fin 1, sl_dirty = False\<rparr> (hk_map s),
      hk_eviction := (Fin 1, key) # hk_eviction s\<rparr>"
  shows "hk_inv est s'" "hk_hll s' = (hk_hll s)(key \<mapsto> h)" "length (hk_map s') = Suc (length (hk_map s))"
proof -
  have get: "hm_get (hk_map s) key = None" using new by (simp add: hk_hll_def)
  have sync': "hk_sync est s'" unfolding s'_def h_def by (rule hk_sync_add [OF sync get hll_cardinality_first])
  show hll: "hk_hll s' = (hk_hll s)(key \<mapsto> h)" by (rule ext) (simp add: hk_hll_def s'_def)
  show len: "length (hk_map s') = Suc (length (hk_map s))" using get by (simp add: s'_def hm_length_insert)
  have "hk_max_keys s' = hk_max_keys s" "hk_precision s' = hk_precision s" "hk_hash s' = hk_hash s"
    by (simp_all add: s'_def)
  then show "hk_inv est s'" using sync' hll len room p conf by (auto simp: hk_inv_def h_def)
qed

lemma hk_insert_room:
  assumes inv: "hk_inv est s" and new: "hk_hll s key = None" and room: "length (hk_map s) < hk_max_keys s"
  shows "\<exists>s'. hk_insert est s key item = Some s' \<and> hk_inv est s'
     \<and> hk_hll s' = (hk_hll s)(key \<mapsto> hll_insert (hk_base s) item)
     \<and> hk_updates s' = hk_updates s + 1 \<and> hk_evicted_keys s' = hk_evicted_keys s
     \<and> hk_max_keys s' = hk_max_keys s \<and> hk_precision s' = hk_precision s \<and> hk_hash s' = hk_hash s
     \<and> length (hk_map s') = Suc (length (hk_map s))"
proof -
  let ?s = "s\<lparr>hk_updates := hk_updates s + 1\<rparr>"
  have hyp: "hk_sync est ?s" "precision_ok (hk_precision ?s)" "hk_hll ?s key = None"
    "length (hk_map ?s) < hk_max_keys ?s" "\<forall>k h. hk_hll ?s k = Some h \<longrightarrow> hll_config h = (hk_precision ?s, hk_hash ?s)"
    using inv new room by (simp_all add: hk_inv_def hk_sync_def hk_hll_def)
  have base: "hk_base ?s = hk_base s" by (simp add: hk_base_def)
  have hll: "hk_hll ?s = hk_hll s" by (rule ext) (simp add: hk_hll_def)
  have ins: "hk_insert est s key item = Some (?s\<lparr>hk_map := hm_insert key \<lparr>sl_hll = hll_insert (hk_base ?s) item, sl_cached = Fin 1,
      sl_dirty = False\<rparr> (hk_map ?s), hk_eviction := (Fin 1, key) # hk_eviction ?s\<rparr>)"
    using hyp(2-4) hll_new_base [OF hyp(2)] by (simp add: hk_insert_def hk_hll_def base)
  note n = hk_insert_new_key [OF hyp, of item]
  show ?thesis
    by (rule exI, rule conjI, rule ins) (use n in \<open>simp add: hll base\<close>)
qed

lemma hk_insert_full:
  assumes inv: "hk_inv est s" and new: "hk_hll s key = None" and full: "length (hk_map s) = hk_max_keys s"
  shows "\<exists>s' k0 h0. hk_insert est s key item = Some s' \<and> hk_inv est s' \<and> hk_hll s k0 = Some h0
     \<and> hk_hll s' = (hk_hll s)(k0 := None, key \<mapsto> hll_insert (hk_base s) item)
     \<and> (\<forall>k slot. k \<noteq> key \<longrightarrow> hm_get (hk_map s') k = Some slot \<longrightarrow> hll_cardinality est h0 \<le> sl_cached slot)
     \<and> (hk_lower est s \<longrightarrow> hk_lower est s')
     \<and> hk_updates s' = hk_updates s + 1 \<and> hk_evicted_keys s' = hk_evicted_keys s + 1
     \<and> hk_max_keys s' = hk_max_keys s \<and> hk_precision s' = hk_precision s \<and> hk_hash s' = hk_hash s
     \<and> length (hk_map s') = length (hk_map s)"
proof -
  let ?u = "s\<lparr>hk_updates := hk_updates s + 1\<rparr>"
  have "hk_sync est ?u" "hk_map ?u \<noteq> []" using inv full by (auto simp: hk_inv_def hk_sync_def)
  from evict_smallest_evicts [OF this] obtain k0 t where t: "evict_smallest est ?u = Some t" "evicts est ?u k0 t" by blast
  have u: "hk_hll ?u = hk_hll s" by (rule ext) (simp add: hk_hll_def)
  obtain h0 where h0: "hk_hll s k0 = Some h0"
      "\<And>k slot. hm_get (hk_map t) k = Some slot \<Longrightarrow> hll_cardinality est h0 \<le> sl_cached slot"
    using t(2) unfolding evicts_def u by blast
  have tf: "hk_sync est t" "hk_hll t = (hk_hll s)(k0 := None)" "Suc (length (hk_map t)) = length (hk_map s)"
      "hk_evicted_keys t = hk_evicted_keys s + 1" "hk_updates t = hk_updates s + 1"
      "hk_max_keys t = hk_max_keys s" "hk_precision t = hk_precision s" "hk_hash t = hk_hash s"
    using t(2) unfolding evicts_def u by simp_all
  have hyp: "hk_sync est t" "precision_ok (hk_precision t)" "hk_hll t key = None" "length (hk_map t) < hk_max_keys t"
      "\<forall>k h. hk_hll t k = Some h \<longrightarrow> hll_config h = (hk_precision t, hk_hash t)"
    using inv tf new full by (auto simp: hk_inv_def)
  have base: "hk_base t = hk_base s" using tf by (simp add: hk_base_def)
  have ins: "hk_insert est s key item = Some (t\<lparr>hk_map := hm_insert key \<lparr>sl_hll = hll_insert (hk_base t) item, sl_cached = Fin 1,
      sl_dirty = False\<rparr> (hk_map t), hk_eviction := (Fin 1, key) # hk_eviction t\<rparr>)" (is "_ = Some ?s'")
    using new full t(1) hll_new_base [OF hyp(2)] by (simp add: hk_insert_def hk_hll_def base)
  note n = hk_insert_new_key [OF hyp, of item]
  have min: "\<forall>k slot. k \<noteq> key \<longrightarrow> hm_get (hk_map ?s') k = Some slot \<longrightarrow> hll_cardinality est h0 \<le> sl_cached slot"
    using h0(2) by simp
  have "hk_lower est s \<Longrightarrow> hk_lower est ?u" by (simp add: hk_lower_def)
  then have low: "hk_lower est s \<Longrightarrow> hk_lower est ?s'"
    using t(2) hll_cardinality_first [of est t item] by (simp add: evicts_def hk_lower_def)
  show ?thesis
    by (rule exI [of _ ?s'], rule exI [of _ k0], rule exI [of _ h0], intro conjI, rule ins, rule n(1))
      (use n(2,3) min low h0(1) tf base in \<open>simp_all\<close>)
qed

section \<open>Streams\<close>

fun hk_inserts :: "(u8 \<Rightarrow> u8 list \<Rightarrow> f64) \<Rightarrow> (bytes \<times> bytes) list \<Rightarrow> hll_map \<Rightarrow> hll_map option" where
  "hk_inserts est [] s = Some s"
| "hk_inserts est ((k, i) # es) s = Option.bind (hk_insert est s k i) (hk_inserts est es)"

text \<open>The items a key saw, and the HyperLogLog they give.\<close>

definition items_of :: "(bytes \<times> bytes) list \<Rightarrow> bytes \<Rightarrow> bytes list" where
  "items_of es k = map snd (filter (\<lambda>(k', _). k' = k) es)"

definition ideal_hll :: "hll_map \<Rightarrow> (bytes \<times> bytes) list \<Rightarrow> bytes \<Rightarrow> hyper_log_log option" where
  "ideal_hll s es k = (if items_of es k = [] then None else Some (fold (\<lambda>i h. hll_insert h i) (items_of es k) (hk_base s)))"

lemma hk_inserts_append:
  "hk_inserts est (es @ fs) s = Option.bind (hk_inserts est es s) (hk_inserts est fs)"
proof (induction es arbitrary: s)
  case (Cons e es)
  then show ?case by (cases e, cases "hk_insert est s (fst e) (snd e)") simp_all
qed simp

lemma hk_map_length: "hk_sync est s \<Longrightarrow> length (hk_map s) = card {k. hk_hll s k \<noteq> None}"
proof -
  assume "hk_sync est s"
  then have "length (hk_map s) = card (fst ` set (hk_map s))"
    using distinct_card [of "map fst (hk_map s)"] by (simp add: hk_sync_def hm_ok_def)
  moreover have "fst ` set (hk_map s) = {k. hk_hll s k \<noteq> None}"
    using hm_keys_get [of _ "hk_map s"] by (auto simp: hk_hll_def)
  ultimately show ?thesis by simp
qed

lemma ideal_hll_snoc:
  "ideal_hll s (es @ [(k, i)]) = (ideal_hll s es)(k \<mapsto> hll_insert (case ideal_hll s es k of None \<Rightarrow> hk_base s | Some h \<Rightarrow> h) i)"
  by (rule ext) (auto simp: ideal_hll_def items_of_def)

lemma ideal_hll_dom: "{k. ideal_hll s es k \<noteq> None} = fst ` set es"
  by (force simp: ideal_hll_def items_of_def filter_empty_conv)

definition hk_same :: "hll_map \<Rightarrow> hll_map \<Rightarrow> bool" where
  "hk_same s0 s \<longleftrightarrow> hk_max_keys s = hk_max_keys s0 \<and> hk_precision s = hk_precision s0 \<and> hk_hash s = hk_hash s0"

text \<open>Every insertion succeeds and keeps the invariant and the configuration.\<close>

lemma hk_insert_total:
  assumes "hk_inv est s"
  shows "\<exists>s'. hk_insert est s key item = Some s' \<and> hk_inv est s' \<and> hk_same s s' \<and> hk_updates s' = hk_updates s + 1"
proof (cases "hk_hll s key")
  case None
  have "length (hk_map s) < hk_max_keys s \<or> length (hk_map s) = hk_max_keys s" using assms by (auto simp: hk_inv_def)
  then show ?thesis using hk_insert_room [OF assms None] hk_insert_full [OF assms None] unfolding hk_same_def by blast
next
  case (Some h)
  then show ?thesis using hk_insert_known [OF assms Some] unfolding hk_same_def by blast
qed

lemma hk_inserts_total:
  assumes "hk_inv est s"
  shows "\<exists>s'. hk_inserts est es s = Some s' \<and> hk_inv est s' \<and> hk_same s s' \<and> hk_updates s' = hk_updates s + of_nat (length es)"
  using assms
proof (induction es arbitrary: s)
  case Nil
  then show ?case by (simp add: hk_same_def)
next
  case (Cons e es)
  obtain k i where e: "e = (k, i)" by (cases e)
  obtain t where t: "hk_insert est s k i = Some t" "hk_inv est t" "hk_same s t" "hk_updates t = hk_updates s + 1"
    using hk_insert_total [OF Cons.prems] by blast
  obtain s' where "hk_inserts est es t = Some s'" "hk_inv est s'" "hk_same t s'" "hk_updates s' = hk_updates t + of_nat (length es)"
    using Cons.IH [OF t(2)] by blast
  then show ?case using t by (simp add: e hk_same_def)
qed

lemma hk_inserts_exact:
  assumes inv: "hk_inv est s0" and empty: "hk_map s0 = []" and few: "card (fst ` set es) \<le> hk_max_keys s0"
    and run: "hk_inserts est es s0 = Some s"
  shows "hk_hll s = ideal_hll s0 es \<and> hk_evicted_keys s = hk_evicted_keys s0"
  using few run
proof (induction es arbitrary: s rule: rev_induct)
  case Nil
  then show ?case using empty by (auto simp: hk_hll_def ideal_hll_def items_of_def fun_eq_iff)
next
  case (snoc e es)
  obtain k i where e: "e = (k, i)" by (cases e)
  obtain t where t: "hk_inserts est es s0 = Some t" "hk_insert est t k i = Some s"
    using snoc.prems(2) by (auto simp: e hk_inserts_append bind_eq_Some_conv)
  have keys: "card (fst ` set es) \<le> hk_max_keys s0"
    using card_mono [of "fst ` set (es @ [e])" "fst ` set es"] snoc.prems(1) by (simp add: subset_insertI)
  have ih: "hk_hll t = ideal_hll s0 es" "hk_evicted_keys t = hk_evicted_keys s0" using snoc.IH [OF keys t(1)] by auto
  have t': "hk_inv est t" "hk_same s0 t" using hk_inserts_total [OF inv, of es] t(1) by auto
  have base: "hk_base t = hk_base s0" using t'(2) by (simp add: hk_base_def hk_same_def)
  show ?case
  proof (cases "hk_hll t k")
    case None
    have "k \<notin> fst ` set es" using None ih(1) unfolding ideal_hll_dom [of s0 es, symmetric] by simp
    then have "Suc (card (fst ` set es)) \<le> hk_max_keys s0" using snoc.prems(1) e by simp
    then have "length (hk_map t) < hk_max_keys t"
      using hk_map_length [of est t] t' ih(1) ideal_hll_dom [of s0 es] by (simp add: hk_inv_def hk_same_def)
    from hk_insert_room [OF t'(1) None this, of i] show ?thesis
      using t(2) ih None by (simp add: e ideal_hll_snoc base)
  next
    case (Some h)
    from hk_insert_known [OF t'(1) Some, of i] show ?thesis
      using t(2) ih Some by (simp add: e ideal_hll_snoc)
  qed
qed

lemma hk_new_inv:
  "hk_new n p h = Inr s \<Longrightarrow> hk_inv est s \<and> hk_map s = [] \<and> hk_max_keys s = n \<and> hk_evicted_keys s = 0 \<and> hk_updates s = 0"
  by (auto simp: hk_new_def hll_new_def hk_inv_def hk_sync_def hk_hll_def rbind_Inr_iff split: if_splits)

text \<open>
  C30: The keyed distinct counter.  On every stream of (key, item) pairs no insertion panics, the
  map never holds more than \<open>max_keys\<close> keys, and map and eviction heap stay in step; and
  as long as the stream has at most \<open>max_keys\<close> distinct keys nothing is evicted and every key's
  HyperLogLog is exactly the one of its own items in arrival order.  This holds for every
  estimator of dense registers.
\<close>

theorem hk_stream_is_bounded_and_exact:
  assumes "hk_new max_keys p h = Inr s0"
  shows "\<exists>s. hk_inserts est es s0 = Some s \<and> hk_inv est s \<and> length (hk_map s) \<le> max_keys
     \<and> hk_updates s = of_nat (length es)
     \<and> (card (fst ` set es) \<le> max_keys \<longrightarrow> hk_hll s = ideal_hll s0 es \<and> hk_evicted_keys s = 0)"
proof -
  note n = hk_new_inv [OF assms, of est]
  obtain s where s: "hk_inserts est es s0 = Some s" "hk_inv est s" "hk_same s0 s" "hk_updates s = hk_updates s0 + of_nat (length es)"
    using hk_inserts_total [of est s0 es] n by blast
  then show ?thesis using n hk_inserts_exact [of est s0 es s] by (auto simp: hk_inv_def hk_same_def)
qed

theorem hk_stream_is_bounded_and_exact_witness:
  "\<exists>s0 s. hk_new 2 4 (HashSpec_new 0) = Inr s0
     \<and> hk_inserts (\<lambda>_ _. Fin 0) [([1], [7]), ([2], [8]), ([1], [9])] s0 = Some s
     \<and> length (hk_map s) \<le> 2 \<and> hk_updates s = 3
     \<and> hk_hll s [1] = Some (hll_insert (hll_insert (hk_base s0) [7]) [9])"
proof -
  obtain s0 where s0: "hk_new 2 4 (HashSpec_new 0) = Inr s0"
    by (simp add: hk_new_def hll_new_def precision_ok_def MIN_PRECISION_def MAX_PRECISION_def)
  have "ideal_hll s0 [([1], [7]), ([2], [8]), ([1], [9])] [1] = Some (hll_insert (hll_insert (hk_base s0) [7]) [9])"
    by (simp add: ideal_hll_def items_of_def)
  moreover have "card (fst ` set [([1], [7]), ([2], [8]), ([1 :: u8], [9 :: u8])]) \<le> 2" by (simp add: card_insert_if)
  ultimately show ?thesis
    using s0 hk_stream_is_bounded_and_exact [OF s0, of "\<lambda>_ _. Fin 0" "[([1], [7]), ([2], [8]), ([1], [9])]"] by auto
qed

text \<open>
  Eviction.  When a new key arrives at a full map and the cached estimates are lower bounds
  of the current ones, the insertion removes exactly one key, one whose current estimate is at
  most that of every key that stays; every other HyperLogLog is unchanged and the new key starts
  with its item.
\<close>

lemma hk_evicts_a_smallest_key:
  assumes inv: "hk_inv est s" and new: "hk_hll s key = None" and full: "length (hk_map s) = hk_max_keys s"
    and lower: "hk_lower est s"
  shows "\<exists>s' k0 h0. hk_insert est s key item = Some s' \<and> hk_hll s k0 = Some h0
     \<and> hk_hll s' = (hk_hll s)(k0 := None, key \<mapsto> hll_insert (hk_base s) item)
     \<and> (\<forall>k h. hk_hll s k = Some h \<longrightarrow> hll_cardinality est h0 \<le> hll_cardinality est h)
     \<and> hk_evicted_keys s' = hk_evicted_keys s + 1 \<and> length (hk_map s') = hk_max_keys s"
proof -
  obtain s' k0 h0 where s': "hk_insert est s key item = Some s'" "hk_hll s k0 = Some h0"
      "hk_hll s' = (hk_hll s)(k0 := None, key \<mapsto> hll_insert (hk_base s) item)"
      "\<And>k slot. k \<noteq> key \<Longrightarrow> hm_get (hk_map s') k = Some slot \<Longrightarrow> hll_cardinality est h0 \<le> sl_cached slot"
      "hk_lower est s'" "hk_evicted_keys s' = hk_evicted_keys s + 1" "length (hk_map s') = length (hk_map s)"
    using hk_insert_full [OF inv new full, of item] lower by blast
  have "\<forall>k h. hk_hll s k = Some h \<longrightarrow> hll_cardinality est h0 \<le> hll_cardinality est h"
  proof (intro allI impI)
    fix k h
    assume that: "hk_hll s k = Some h"
    show "hll_cardinality est h0 \<le> hll_cardinality est h"
  proof (cases "k = k0")
    case False
    then have "hk_hll s' k = Some h" "k \<noteq> key" using s'(3) that new by auto
    then obtain slot where "hm_get (hk_map s') k = Some slot" "sl_hll slot = h" by (auto simp: hk_hll_def)
    then show ?thesis using s'(4) [OF \<open>k \<noteq> key\<close>] s'(5) unfolding hk_lower_def by (blast intro: order_trans)
    qed (use that s'(2) in simp)
  qed
  then show ?thesis using s'(1-3,6,7) full
    by (intro exI [of _ s'] exI [of _ k0] exI [of _ h0] conjI) simp_all
qed

text \<open>A map with one key and room for one.\<close>

definition hk_full_example :: hll_map where
  "hk_full_example = \<lparr>hk_max_keys = 1, hk_precision = 4, hk_hash = HashSpec_new 0,
     hk_map = [([1], \<lparr>sl_hll = \<lparr>hl_precision = 4, hl_hash = HashSpec_new 0, hl_storage = Singleton 70, hl_updates = 1\<rparr>, sl_cached = Fin 1, sl_dirty = False\<rparr>)],
     hk_eviction = [(Fin 1, [1])], hk_evicted_keys = 0, hk_updates = 1\<rparr>"

section \<open>Merging and decoding\<close>

lemma hk_rebuild_inv:
  assumes "hm_ok (hk_map s)"
  shows "hk_sync est (rebuild_eviction_heap est s)" "hk_hll (rebuild_eviction_heap est s) = hk_hll s"
    "hk_same s (rebuild_eviction_heap est s)" "length (hk_map (rebuild_eviction_heap est s)) = length (hk_map s)"
proof -
  let ?f = "\<lambda>(k :: bytes, slot). (k, slot\<lparr>sl_cached := hll_cardinality est (sl_hll slot), sl_dirty := False\<rparr>)"
  let ?r = "rebuild_eviction_heap est s"
  have m: "hk_map ?r = map ?f (hk_map s)" and ev: "hk_eviction ?r = map (\<lambda>(k, slot). (sl_cached slot, k)) (map ?f (hk_map s))"
    by (simp_all add: rebuild_eviction_heap_def Let_def)
  have keys: "map fst (map ?f (hk_map s)) = map fst (hk_map s)" "map snd (hk_eviction ?r) = map fst (hk_map s)"
    unfolding ev by (simp_all add: case_prod_beta')
  have ok: "hm_ok (hk_map ?r)" using assms(1) unfolding hm_ok_def m keys(1) .
  have get: "hm_get (hk_map ?r) k = map_option (\<lambda>slot. slot\<lparr>sl_cached := hll_cardinality est (sl_hll slot), sl_dirty := False\<rparr>) (hm_get (hk_map s) k)" for k
    unfolding m hm_get_def by (simp add: map_of_map)
  show "hk_hll ?r = hk_hll s" by (rule ext) (simp add: hk_hll_def get option.map_comp comp_def)
  show "hk_same s ?r" "length (hk_map ?r) = length (hk_map s)"
    by (simp_all add: hk_same_def rebuild_eviction_heap_def Let_def)
  show "hk_sync est ?r"
  proof (unfold hk_sync_def, intro conjI allI impI)
    show "set (map snd (hk_eviction ?r)) = fst ` set (hk_map ?r)" using keys m by (metis set_map)
    fix c k slot
    assume mem: "(c, k) \<in> set (hk_eviction ?r)" and g: "hm_get (hk_map ?r) k = Some slot"
    obtain sl where sl: "(k, sl) \<in> set (hk_map ?r)" "c = sl_cached sl" using mem unfolding ev m [symmetric] by auto
    then have "sl = slot" using hm_mem_get [OF ok sl(1)] g by simp
    then show "sl_cached slot = c" "c = hll_cardinality est (sl_hll slot)"
      using sl g by (auto simp: get)
  qed (use ok keys assms(1) in \<open>simp_all add: hm_ok_def\<close>)
qed

lemma evict_excess_ok:
  assumes "hk_sync est s" "length (hk_map s) \<le> fuel + hk_max_keys s"
  shows "\<exists>s'. evict_excess est fuel s = Some s' \<and> hk_sync est s' \<and> hk_same s s' \<and> length (hk_map s') \<le> hk_max_keys s
     \<and> (\<forall>k h. hk_hll s' k = Some h \<longrightarrow> hk_hll s k = Some h) \<and> hk_updates s' = hk_updates s
     \<and> (length (hk_map s) \<le> hk_max_keys s \<longrightarrow> s' = s)"
  using assms
proof (induction fuel arbitrary: s)
  case 0
  then show ?case by (simp add: evict_excess.simps hk_same_def)
next
  case (Suc n)
  show ?case
  proof (cases "length (hk_map s) \<le> hk_max_keys s")
    case True
    then show ?thesis using Suc.prems by (simp add: evict_excess.simps hk_same_def)
  next
    case False
    then have "hk_map s \<noteq> []" by auto
    from evict_smallest_evicts [OF Suc.prems(1) this] obtain k t where
      t: "evict_smallest est s = Some t" "evicts est s k t" by blast
    then have t': "hk_sync est t" "hk_hll t = (hk_hll s)(k := None)" "hk_same s t" "Suc (length (hk_map t)) = length (hk_map s)"
        "hk_updates t = hk_updates s"
      by (simp_all add: evicts_def hk_same_def)
    have "length (hk_map t) \<le> n + hk_max_keys t" using t'(3,4) Suc.prems(2) by (simp add: hk_same_def)
    from Suc.IH [OF t'(1) this] obtain s' where s': "evict_excess est n t = Some s'" "hk_sync est s'" "hk_same t s'"
        "length (hk_map s') \<le> hk_max_keys t" "\<forall>k h. hk_hll s' k = Some h \<longrightarrow> hk_hll t k = Some h" "hk_updates s' = hk_updates t"
      by blast
    have "hk_hll s k' = Some h" if "hk_hll s' k' = Some h" for k' h
    proof -
      have "hk_hll t k' = Some h" using s'(5) that by blast
      then show ?thesis unfolding t'(2) by (simp split: if_splits)
    qed
    then show ?thesis using s' t(1) t'(3,5) False by (simp add: evict_excess.simps hk_same_def)
  qed
qed

text \<open>The keys of one configuration, and what merging slots keeps of it.\<close>

definition slots_of :: "u8 \<times> hash_spec \<Rightarrow> hm_slot hmap \<Rightarrow> bool" where
  "slots_of c m \<longleftrightarrow> hm_ok m \<and> (\<forall>k slot. hm_get m k = Some slot \<longrightarrow> hll_config (sl_hll slot) = c)"

lemma hk_merge_slots:
  assumes "slots_of c m" "\<And>k slot. (k, slot) \<in> set xs \<Longrightarrow> hll_config (sl_hll slot) = c"
  shows "\<exists>m'. rfold hk_merge_slot xs m = Inr m' \<and> slots_of c m' \<and> (\<forall>k. hm_get m' k \<noteq> None \<longleftrightarrow> hm_get m k \<noteq> None \<or> k \<in> fst ` set xs)"
  using assms
proof (induction xs arbitrary: m)
  case (Cons x xs)
  obtain k theirs where x: "x = (k, theirs)" by (cases x)
  have th: "hll_config (sl_hll theirs) = c" using Cons.prems(2) [of k theirs] x by simp
  have "\<exists>m1. hk_merge_slot x m = Inr m1 \<and> slots_of c m1 \<and> (\<forall>k'. hm_get m1 k' \<noteq> None \<longleftrightarrow> hm_get m k' \<noteq> None \<or> k' = k)"
  proof (cases "hm_get m k")
    case None
    then show ?thesis using th Cons.prems(1) by (auto simp: x hk_merge_slot_def slots_of_def)
  next
    case (Some mine)
    then have mine: "hll_config (sl_hll mine) = c" using Cons.prems(1) by (simp add: slots_of_def)
    then obtain h where h: "hll_merge_from (sl_hll mine) (sl_hll theirs) = Inr h"
      using hll_merge_from_eq(1) [of "sl_hll mine" "sl_hll theirs"] th by (auto simp: hll_compat_iff)
    then have "hll_config h = c" using hll_config_merge mine by blast
    then show ?thesis using Some h Cons.prems(1) by (auto simp: x hk_merge_slot_def slots_of_def)
  qed
  then obtain m1 where m1: "hk_merge_slot x m = Inr m1" "slots_of c m1" "\<And>k'. hm_get m1 k' \<noteq> None \<longleftrightarrow> hm_get m k' \<noteq> None \<or> k' = k"
    by blast
  obtain m' where m': "rfold hk_merge_slot xs m1 = Inr m'" "slots_of c m'"
      "\<And>k'. hm_get m' k' \<noteq> None \<longleftrightarrow> hm_get m1 k' \<noteq> None \<or> k' \<in> fst ` set xs"
    using Cons.IH [OF m1(2)] Cons.prems(2) by (metis list.set_intros(2))
  have "hm_get m' k' \<noteq> None \<longleftrightarrow> hm_get m k' \<noteq> None \<or> k' \<in> fst ` set (x # xs)" for k'
    using m'(3) [of k'] m1(3) [of k'] by (auto simp: x)
  then show ?case using m1(1) m'(1,2) by (intro exI [of _ m']) simp
qed simp

lemma hk_slots_of: "hk_inv est s \<Longrightarrow> slots_of (hk_precision s, hk_hash s) (hk_map s)"
proof -
  assume inv: "hk_inv est s"
  have "hll_config (sl_hll slot) = (hk_precision s, hk_hash s)" if "hm_get (hk_map s) k = Some slot" for k slot
    using inv that unfolding hk_inv_def hk_hll_def by (metis option.simps(9))
  then show ?thesis using inv by (simp add: slots_of_def hk_inv_def hk_sync_def)
qed

lemma hk_merge_params:
  assumes a: "hk_inv est a" and b: "hk_inv est b"
    and same: "hk_max_keys b = hk_max_keys a" "hk_precision b = hk_precision a" "hk_hash b = hk_hash a"
  shows "\<exists>c. hk_merge_from est a b = Some (Inr c) \<and> hk_inv est c \<and> hk_same a c \<and> hk_updates c = hk_updates a + hk_updates b
       \<and> (\<forall>k. hk_hll c k \<noteq> None \<longrightarrow> hk_hll a k \<noteq> None \<or> hk_hll b k \<noteq> None)"
proof -
  have conf: "(hk_precision b, hk_hash b) = (hk_precision a, hk_hash a)" "hk_compatibility a = hk_compatibility b"
    using same by (simp_all add: hk_compatibility_def hk_params_hash_def)
  have sb: "hm_ok (hk_map b)" using hk_slots_of [OF b] by (simp add: slots_of_def)
  have xs: "hll_config (sl_hll slot) = (hk_precision a, hk_hash a)" if "(k, slot) \<in> set (hk_map b)" for k slot
    using hk_slots_of [OF b] hm_mem_get [OF sb that] conf(1) unfolding slots_of_def by simp
  obtain m where m: "rfold hk_merge_slot (hk_map b) (hk_map a) = Inr m" "slots_of (hk_precision a, hk_hash a) m"
      "\<And>k. hm_get m k \<noteq> None \<longleftrightarrow> hm_get (hk_map a) k \<noteq> None \<or> k \<in> fst ` set (hk_map b)"
    using hk_merge_slots [OF hk_slots_of [OF a], of "hk_map b"] xs by blast
  let ?m = "a\<lparr>hk_map := m\<rparr>"
  let ?r = "rebuild_eviction_heap est ?m"
  have ok: "hm_ok m" using m(2) by (simp add: slots_of_def)
  have "0 < hk_max_keys ?m" "precision_ok (hk_precision ?m)" using a by (simp_all add: hk_inv_def)
  note r = hk_rebuild_inv [of ?m est]
  have r: "hk_sync est ?r" "hk_hll ?r = hk_hll ?m" "hk_same ?m ?r"
    using r(1-3) ok m(2) a hm_mem_get [OF ok] by (auto simp: slots_of_def hk_inv_def)
  obtain c where c: "evict_excess est (length (hk_map ?r)) ?r = Some c" "hk_sync est c" "hk_same ?r c"
      "length (hk_map c) \<le> hk_max_keys ?r" "\<And>k h. hk_hll c k = Some h \<Longrightarrow> hk_hll ?r k = Some h" "hk_updates c = hk_updates ?r"
    using evict_excess_ok [OF r(1), of "length (hk_map ?r)"] by auto
  have up: "hk_updates ?r = hk_updates a" by (simp add: rebuild_eviction_heap_def Let_def)
  let ?c = "c\<lparr>hk_evicted_keys := hk_evicted_keys c + hk_evicted_keys b, hk_updates := hk_updates c + hk_updates b\<rparr>"
  have same: "hk_max_keys c = hk_max_keys a" "hk_precision c = hk_precision a" "hk_hash c = hk_hash a"
    using c(3) r(3) by (simp_all add: hk_same_def)
  have hc: "hk_hll ?c = hk_hll c" by (rule ext) (simp add: hk_hll_def)
  have conf_c: "hll_config h = (hk_precision a, hk_hash a)" if "hk_hll c k = Some h" for k h
    using c(5) [OF that] m(2) unfolding r(2) by (auto simp: hk_hll_def slots_of_def)
  have inv: "hk_inv est ?c"
    using a c(2,4) conf_c same r(3) unfolding hk_inv_def hc by (simp add: hk_sync_def hk_same_def)
  have keys: "hk_hll a k \<noteq> None \<or> hk_hll b k \<noteq> None" if "hk_hll ?c k \<noteq> None" for k
  proof -
    have "hm_get m k \<noteq> None" using that c(5) [of k] unfolding hc r(2) by (auto simp: hk_hll_def)
    then show ?thesis using m(3) [of k] hm_keys_get [of k "hk_map b"] by (auto simp: hk_hll_def)
  qed
  have "hk_merge_from est a b = Some (Inr ?c)"
    using conf(2) m(1) c(1) by (simp add: hk_merge_from_def ensure_matches_def Let_def)
  moreover have "hk_same a ?c" "hk_updates ?c = hk_updates a + hk_updates b" using same c(6) up
    by (simp_all add: hk_same_def)
  ultimately show ?thesis using inv keys by blast
qed

lemma rd_many_mem:
  "rd_many rd n r = Inr (xs, r') \<Longrightarrow> x \<in> set xs \<Longrightarrow> \<exists>r1 r2. rd r1 = Inr (x, r2)"
  by (induction n arbitrary: r xs) (auto simp: rbind_Inr_iff, blast+)

lemma hm_fold_insert_mem: "(k, v) \<in> set (fold (\<lambda>(k, c). hm_insert k c) es m) \<Longrightarrow> hm_ok m \<Longrightarrow> (k, v) \<in> set m \<union> set es"
proof (induction es arbitrary: m)
  case (Cons e es)
  obtain k' v' where e: "e = (k', v')" by (cases e)
  have "(k, v) \<in> set (hm_insert k' v' m) \<union> set es" using Cons e by auto
  moreover have "(k, v) \<in> set m \<or> (k, v) = e" if "(k, v) \<in> set (hm_insert k' v' m)"
    using hm_mem_get [OF hm_ok_insert [OF Cons.prems(2)] that] hm_get_mem [of m k v] e by (auto split: if_splits)
  ultimately show ?case by auto
qed simp

lemma hk_decoded_inv:
  assumes "hk_from_snapshot est bs = Inr s"
  shows "hk_inv est s"
proof -
  obtain mk p h n r r' es ev u where mk: "0 < unat (mk :: u64)" and p: "precision_ok p" and n: "unat (n :: u32) \<le> unat mk"
    and rd: "rd_many (rd_hll_entry est p h) (unat n) r = Inr (es, r')"
    and s: "s = rebuild_eviction_heap est \<lparr>hk_max_keys = unat mk, hk_precision = p, hk_hash = h,
        hk_map = fold (\<lambda>(k, slot). hm_insert k slot) es [], hk_eviction = [], hk_evicted_keys = ev, hk_updates = u\<rparr>"
    using assms by (auto simp: hk_from_snapshot_def rbind_Inr_iff Let_def not_less split: if_splits)
  let ?m = "fold (\<lambda>(k, slot). hm_insert k slot) es []"
  let ?s = "\<lparr>hk_max_keys = unat mk, hk_precision = p, hk_hash = h, hk_map = ?m, hk_eviction = [], hk_evicted_keys = ev, hk_updates = u\<rparr>"
  have entry: "hll_config (sl_hll slot) = (p, h)" if "(k, slot) \<in> set es" for k slot
    using rd_many_mem [OF rd that]
    by (auto simp: rd_hll_entry_def rbind_Inr_iff hll_config_def hll_compatibility_def split: if_splits)
  have ok: "hm_ok ?m" by (rule hm_ok_fold_insert) simp
  have conf: "hll_config (sl_hll slot) = (p, h)" if "(k, slot) \<in> set ?m" for k slot
    using hm_fold_insert_mem [OF that] entry by auto
  have len: "length ?m \<le> unat mk"
    using length_fold_hm_insert [of es "[]"] rd_many_length [OF rd] n by simp
  note r = hk_rebuild_inv [of ?s est, folded s]
  have "hk_sync est s" "hk_hll s = hk_hll ?s" "hk_same ?s s" "length (hk_map s) = length ?m"
    using r ok mk p conf by (simp_all del: unat_gt_0)
  moreover have "hll_config hl = (p, h)" if "hk_hll ?s k = Some hl" for k hl
    using that conf hm_get_mem by (fastforce simp: hk_hll_def)
  ultimately show ?thesis using mk p len by (simp add: hk_inv_def hk_same_def)
qed

text \<open>
  Collecting keyed distinct counters.  Any byte strings accepted as snapshots decode to maps
  that satisfy the invariant, and two of them with the same parameters always merge: no inner
  merge fails and no eviction panics, the result satisfies the invariant (so it holds at most
  \<open>max_keys\<close> keys), its keys come from one of the two, and it counts the updates of both.
\<close>

lemma hk_decoded_snapshots_merge:
  assumes a: "hk_from_snapshot est as = Inr a" and b: "hk_from_snapshot est bs = Inr b"
    and "hk_max_keys b = hk_max_keys a" "hk_precision b = hk_precision a" "hk_hash b = hk_hash a"
  shows "\<exists>c. hk_merge_from est a b = Some (Inr c) \<and> hk_inv est c \<and> hk_same a c \<and> hk_updates c = hk_updates a + hk_updates b
       \<and> (\<forall>k. hk_hll c k \<noteq> None \<longrightarrow> hk_hll a k \<noteq> None \<or> hk_hll b k \<noteq> None)"
  using hk_merge_params [OF hk_decoded_inv [OF a] hk_decoded_inv [OF b]] assms(3-5) by blast

text \<open>A map with one key, encoded and decoded.\<close>

definition hk_example :: hll_map where
  "hk_example = \<lparr>hk_max_keys = 2, hk_precision = 4, hk_hash = HashSpec_new 0,
     hk_map = [([1], \<lparr>sl_hll = \<lparr>hl_precision = 4, hl_hash = HashSpec_new 0, hl_storage = Singleton 70, hl_updates = 1\<rparr>, sl_cached = Fin 1, sl_dirty = False\<rparr>)],
     hk_eviction = [(Fin 1, [1])], hk_evicted_keys = 0, hk_updates = 1\<rparr>"

lemma hk_example_decodes: "\<exists>a. hk_from_snapshot est (hk_to_snapshot hk_example 0 1) = Inr a \<and> hk_hll a [1] \<noteq> None"
proof -
  let ?h = "\<lparr>hl_precision = 4, hl_hash = HashSpec_new 0, hl_storage = Singleton 70, hl_updates = 1\<rparr>"
  have h: "hll_from_snapshot (hll_to_snapshot ?h 0 1) = Inr ?h"
    using hll_decode_encode [of ?h 0 1] by (simp add: hll_inv_def precision_ok_iff hll_norm_def)
  let ?b = "hll_to_snapshot ?h 0 1"
  have "length ?b < 2 ^ 10" by (simp add: hll_to_snapshot_def write_snapshot_eq length_snapshot_body)
  then have len: "length ?b < 2 ^ 32" "length ?b < 2 ^ 10" by simp_all
  let ?payload = "wr_u64 1 @ wr_u64 0 @ wr_u32 1 @ wr_lp_bytes [1] @ wr_lp_bytes ?b"
  have enc: "hk_to_snapshot hk_example 0 1 = write_snapshot \<lparr>sh_version = SNAPSHOT_VERSION, sh_algorithm_id = HLL_MAP,
         sh_hash = HashSpec_new 0, sh_window_start_nanos = 0, sh_window_end_nanos = 1\<rparr> (wr_u64 2 @ wr_u8 4) ?payload"
    by (simp add: hk_to_snapshot_def hk_example_def hm_sorted_def hm_get_def)
  let ?r = "rd_adv 4 (rd_adv 8 (rd_adv 8 (Reader_new ?payload)))"
  have rest: "rd_rest ?r = wr_lp_bytes [1] @ wr_lp_bytes ?b" by simp
  have k: "rd_lp_bytes ?r = Inr ([1], rd_adv 5 ?r)" using rd_lp_bytes_append [OF rest] by simp
  have v: "rd_lp_bytes (rd_adv 5 ?r) = Inr (?b, rd_adv (4 + length ?b) (rd_adv 5 ?r))"
    using rest len(1) by (intro rd_lp_bytes_append [where b = "[]"]) simp_all
  have many: "rd_many (rd_hll_entry est 4 (HashSpec_new 0)) 1 ?r = Inr ([([1], \<lparr>sl_hll = ?h, sl_cached = Fin 1, sl_dirty = False\<rparr>)],
      rd_adv (4 + length ?b) (rd_adv 5 ?r))"
    by (simp add: rd_hll_entry_def k v h hll_compatibility_def hll_cardinality_def del: rd_adv_adv)
  show ?thesis
    using len many unfolding enc
    by (simp add: hk_from_snapshot_def read_write_snapshot rd_u8_eq rd_u64_eq rd_u32_eq precision_ok_iff rd_check_count_def
        rd_remaining_rest hk_hll_def hm_insert_def rebuild_eviction_heap_def hm_get_def Let_def del: rd_adv_adv)
qed

end
