(* ===== verification/Kll.thy ===== *)
theory Kll
  imports SketchTrait
begin

text \<open>
  \<^verbatim>\<open>flowsketch-algos/src/kll.rs\<close>: the KLL quantile sketch.  The compaction loop is a
  recursion over the level with a termination proof; its random parity is the SplitMix64 state of
  the sketch.  Rank and quantile queries are modelled up to the final floating-point step
  (\<^verbatim>\<open>rank\<close> as its two integer sums, \<^verbatim>\<open>quantile\<close> from its integer target on);
  \<^verbatim>\<open>k_for_error\<close>, \<^verbatim>\<open>rank_error\<close> and \<^verbatim>\<open>memory_bytes\<close> are not modelled.
\<close>

section \<open>Definitions\<close>

definition MIN_LEVEL_CAPACITY :: nat where "MIN_LEVEL_CAPACITY = 8"
definition MAX_LEVELS :: nat where "MAX_LEVELS = 64"
definition CAPACITY_DECAY_NUM :: nat where "CAPACITY_DECAY_NUM = 2"
definition CAPACITY_DECAY_DEN :: nat where "CAPACITY_DECAY_DEN = 3"

record kll_sketch =
  kl_k :: nat
  kl_hash :: hash_spec
  kl_levels :: "u64 list list"
  kl_n :: u64
  kl_rng_state :: u64
  kl_updates :: u64

definition kll_new :: "nat \<Rightarrow> hash_spec \<Rightarrow> kll_sketch result" where
  "kll_new k hash =
     (if k < MIN_LEVEL_CAPACITY then Inl (InvalidParam ''kll k must be >= 8'')
      else Inr \<lparr>kl_k = k, kl_hash = hash, kl_levels = [[]], kl_n = 0,
                kl_rng_state = splitmix64 (hs_seed hash XOR 0x6B6C6C00), kl_updates = 0\<rparr>)"

definition kll_capacity :: "kll_sketch \<Rightarrow> nat \<Rightarrow> nat" where
  "kll_capacity s level =
     (let depth = length (kl_levels s) - 1 - level;
          cap = ((\<lambda>cap. cap * CAPACITY_DECAY_NUM div CAPACITY_DECAY_DEN) ^^ depth) (kl_k s)
      in max cap MIN_LEVEL_CAPACITY)"

definition kll_next_bit :: "kll_sketch \<Rightarrow> bool \<times> kll_sketch" where
  "kll_next_bit s = (let r = splitmix64 (kl_rng_state s) in (r AND 1 = 1, s\<lparr>kl_rng_state := r\<rparr>))"

text \<open>\<^verbatim>\<open>step_by(2)\<close>\<close>

fun step_by2 :: "'a list \<Rightarrow> 'a list" where
  "step_by2 [] = []"
| "step_by2 [x] = [x]"
| "step_by2 (x # y # xs) = x # step_by2 xs"

text \<open>The body of the loop for a level over its capacity.\<close>

definition kll_compact :: "kll_sketch \<Rightarrow> nat \<Rightarrow> kll_sketch" where
  "kll_compact s level =
     (let s = (if level + 1 = length (kl_levels s) then s\<lparr>kl_levels := kl_levels s @ [[]]\<rparr> else s);
          buf = sort (kl_levels s ! level);
          s = s\<lparr>kl_levels := (kl_levels s)[level := []]\<rparr>;
          (odd, s) = kll_next_bit s;
          promoted = step_by2 (drop (if odd then 1 else 0) buf)
      in s\<lparr>kl_levels := (kl_levels s)[level + 1 := kl_levels s ! (level + 1) @ promoted]\<rparr>)"

lemma length_step_by2: "length (step_by2 xs) = (length xs + 1) div 2"
  by (induction xs rule: step_by2.induct) auto

text \<open>The levels after a compaction, in two parts.\<close>

lemma kll_compact_levels:
  assumes "level < length (kl_levels s)"
  obtains promoted off where "off \<le> 1" "promoted = step_by2 (drop off (sort (kl_levels s ! level)))"
    "kl_levels (kll_compact s level) =
      (if level + 1 = length (kl_levels s) then (kl_levels s)[level := []] @ [promoted]
       else (kl_levels s)[level := [], level + 1 := kl_levels s ! (level + 1) @ promoted])"
proof -
  define off :: nat where "off = (if splitmix64 (kl_rng_state s) AND 1 = 1 then 1 else 0)"
  have "kl_levels (kll_compact s level) =
      (if level + 1 = length (kl_levels s)
       then (kl_levels s)[level := []] @ [step_by2 (drop off (sort (kl_levels s ! level)))]
       else (kl_levels s)[level := [], level + 1 := kl_levels s ! (level + 1) @ step_by2 (drop off (sort (kl_levels s ! level)))])"
    using assms by (auto simp: kll_compact_def kll_next_bit_def Let_def off_def nth_append list_update_append nth_list_update)
  then show ?thesis using that [of off] by (simp add: off_def)
qed

definition kll_measure :: "kll_sketch \<Rightarrow> nat \<Rightarrow> nat" where
  "kll_measure s level = sum_list (map length (drop level (kl_levels s))) + (length (kl_levels s) - level)"

lemma kll_compact_measure:
  assumes l: "level < length (kl_levels s)" and over: "kll_capacity s level < length (kl_levels s ! level)"
  shows "kll_measure (kll_compact s level) (level + 1) < kll_measure s level"
proof -
  obtain promoted off where p: "promoted = step_by2 (drop off (sort (kl_levels s ! level)))"
    and lv: "kl_levels (kll_compact s level) =
      (if level + 1 = length (kl_levels s) then (kl_levels s)[level := []] @ [promoted]
       else (kl_levels s)[level := [], level + 1 := kl_levels s ! (level + 1) @ promoted])"
    using kll_compact_levels [OF l] by metis
  have m: "8 < length (kl_levels s ! level)"
    using over by (simp add: kll_capacity_def Let_def MIN_LEVEL_CAPACITY_def)
  have "length promoted < length (kl_levels s ! level)" using m by (simp add: p length_step_by2)
  moreover have d: "drop level (kl_levels s) = kl_levels s ! level # drop (level + 1) (kl_levels s)"
    using l by (simp add: Cons_nth_drop_Suc)
  moreover have "drop (level + 1) (kl_levels s) = kl_levels s ! (level + 1) # drop (level + 2) (kl_levels s)"
    if "level + 1 \<noteq> length (kl_levels s)"
    using l that Cons_nth_drop_Suc [of "level + 1" "kl_levels s"] by simp
  ultimately show ?thesis using l
    by (cases "level + 1 = length (kl_levels s)") (auto simp: kll_measure_def lv drop_update_swap)
qed

function kll_compress_from :: "kll_sketch \<Rightarrow> nat \<Rightarrow> kll_sketch" where
  "kll_compress_from s level =
     (if level < length (kl_levels s) then
        if length (kl_levels s ! level) \<le> kll_capacity s level
        then kll_compress_from s (level + 1)
        else kll_compress_from (kll_compact s level) (level + 1)
      else s)"
  by auto

termination
proof (relation "measure (\<lambda>(s, level). kll_measure s level)")
  fix s :: kll_sketch and level
  assume l: "level < length (kl_levels s)"
  show "((s, level + 1), s, level) \<in> measure (\<lambda>(s, level). kll_measure s level)"
    using l by (simp add: kll_measure_def Cons_nth_drop_Suc [OF l, symmetric] diff_less_mono2 add_less_le_mono)
  show "((kll_compact s level, level + 1), s, level) \<in> measure (\<lambda>(s, level). kll_measure s level)"
    if "\<not> length (kl_levels s ! level) \<le> kll_capacity s level"
    using kll_compact_measure [OF l] that by (simp add: not_le)
qed simp

declare kll_compress_from.simps [simp del]

definition kll_compress :: "kll_sketch \<Rightarrow> kll_sketch" where
  "kll_compress s = kll_compress_from s 0"

definition kll_insert :: "kll_sketch \<Rightarrow> u64 \<Rightarrow> kll_sketch" where
  "kll_insert s v =
     kll_compress (s\<lparr>kl_n := kl_n s + 1, kl_updates := kl_updates s + 1,
       kl_levels := (kl_levels s)[0 := kl_levels s ! 0 @ [v]]\<rparr>)"

text \<open>The trait's \<^verbatim>\<open>update\<close> takes the value, not the key.\<close>

definition kll_update :: "kll_sketch \<Rightarrow> bytes \<Rightarrow> u64 \<Rightarrow> kll_sketch" where
  "kll_update s key v = kll_insert s v"

text \<open>The weighted items, in the order the queries visit them.\<close>

definition kll_weighted :: "kll_sketch \<Rightarrow> (u64 \<times> u64) list" where
  "kll_weighted s = concat (map (\<lambda>level. map (\<lambda>v. (v, push_bit level 1)) (kl_levels s ! level)) [0..<length (kl_levels s)])"

text \<open>\<^verbatim>\<open>quantile\<close> after its target rank has been computed.\<close>

fun kll_scan :: "u64 \<Rightarrow> u64 \<Rightarrow> (u64 \<times> u64) list \<Rightarrow> u64 option" where
  "kll_scan target acc [] = None"
| "kll_scan target acc ((v, w) # rest) = (if target \<le> acc + w then Some v else kll_scan target (acc + w) rest)"

definition kll_quantile_at :: "kll_sketch \<Rightarrow> u64 \<Rightarrow> u64 option" where
  "kll_quantile_at s target =
     (if kl_n s = 0 then None
      else let weighted = sort_key fst (kll_weighted s)
           in case kll_scan target 0 weighted of
                Some v \<Rightarrow> Some v
              | None \<Rightarrow> if weighted = [] then None else Some (fst (last weighted)))"

text \<open>The two sums of \<^verbatim>\<open>rank\<close>: the weight at or below the value and the total weight.\<close>

definition kll_rank_sums :: "kll_sketch \<Rightarrow> u64 \<Rightarrow> u64 \<times> u64" where
  "kll_rank_sums s value =
     fold (\<lambda>(v, w) (le, total). (if v \<le> value then le + w else le, total + w)) (kll_weighted s) (0, 0)"

definition kll_params_hash :: "kll_sketch \<Rightarrow> u64" where
  "kll_params_hash s = hash64 (le_bytes 8 (word_of_nat (kl_k s) :: u64)) 0"

definition kll_compatibility :: "kll_sketch \<Rightarrow> sketch_compatibility" where
  "kll_compatibility s = \<lparr>sc_algorithm = ''kll'', sc_version = 1, sc_hash = kl_hash s,
     sc_params_hash = kll_params_hash s\<rparr>"

text \<open>\<^verbatim>\<open>while self.levels.len() < n { push }\<close> and the level-wise \<^verbatim>\<open>extend_from_slice\<close>.\<close>

definition kll_pad :: "nat \<Rightarrow> u64 list list \<Rightarrow> u64 list list" where
  "kll_pad n levels = levels @ replicate (n - length levels) []"

definition kll_merge_from :: "kll_sketch \<Rightarrow> kll_sketch \<Rightarrow> kll_sketch result" where
  "kll_merge_from s other =
     rbind (ensure_matches (kll_compatibility s) (kll_compatibility other)) (\<lambda>_.
       Inr (kll_compress (s\<lparr>
         kl_levels := zip_mut (@) (kll_pad (length (kl_levels other)) (kl_levels s)) (kl_levels other),
         kl_n := kl_n s + kl_n other,
         kl_updates := kl_updates s + kl_updates other,
         kl_rng_state := splitmix64 (kl_rng_state s XOR kl_rng_state other)\<rparr>)))"

definition kll_reset :: "kll_sketch \<Rightarrow> kll_sketch" where
  "kll_reset s = s\<lparr>kl_levels := [[]], kl_n := 0, kl_updates := 0\<rparr>"

definition wr_level :: "u64 list \<Rightarrow> bytes" where
  "wr_level level = wr_u32 (word_of_nat (length level)) @ concat (map wr_u64 level)"

definition kll_to_snapshot :: "kll_sketch \<Rightarrow> u64 \<Rightarrow> u64 \<Rightarrow> bytes" where
  "kll_to_snapshot s ws we =
     write_snapshot \<lparr>sh_version = SNAPSHOT_VERSION, sh_algorithm_id = KLL,
         sh_hash = kl_hash s, sh_window_start_nanos = ws, sh_window_end_nanos = we\<rparr>
       (wr_u64 (word_of_nat (kl_k s)))
       (wr_u64 (kl_n s) @ wr_u64 (kl_rng_state s) @ wr_u64 (kl_updates s)
        @ wr_u32 (word_of_nat (length (kl_levels s))) @ concat (map wr_level (kl_levels s)))"

definition rd_level :: "reader \<Rightarrow> (u64 list \<times> reader) result" where
  "rd_level r =
     rbind (rd_u32 r) (\<lambda>(len, r).
     rbind (rd_check_count (unat len) 8 r) (\<lambda>_. rd_many rd_u64 (unat len) r))"

definition kll_from_snapshot :: "bytes \<Rightarrow> kll_sketch result" where
  "kll_from_snapshot bs =
     rbind (read_snapshot bs) (\<lambda>(header, params, payload).
     if sh_algorithm_id header \<noteq> KLL then Inl (Snapshot ''not a kll snapshot'') else
     rbind (rd_u64 (Reader_new params)) (\<lambda>(encoded_k, p).
     let k = unat encoded_k in
     if k < MIN_LEVEL_CAPACITY then Inl (Snapshot ''kll snapshot k must be >= 8'') else
     rbind (rd_u64 (Reader_new payload)) (\<lambda>(n, r).
     rbind (rd_u64 r) (\<lambda>(rng_state, r).
     rbind (rd_u64 r) (\<lambda>(updates, r).
     rbind (rd_u32 r) (\<lambda>(num_levels, r).
     if MAX_LEVELS < unat num_levels then Inl (Snapshot ''kll snapshot has too many levels'') else
     rbind (rd_check_count (unat num_levels) 4 r) (\<lambda>_.
     rbind (rd_many rd_level (unat num_levels) r) (\<lambda>(levels, r).
     Inr \<lparr>kl_k = k, kl_hash = sh_hash header, kl_levels = (if levels = [] then [[]] else levels),
          kl_n = n, kl_rng_state = rng_state, kl_updates = updates\<rparr>))))))))"

section \<open>Weighted ranks and compaction\<close>

definition kll_inv :: "kll_sketch \<Rightarrow> bool" where
  "kll_inv s \<longleftrightarrow> kl_levels s \<noteq> [] \<and> MIN_LEVEL_CAPACITY \<le> kl_k s"

definition num_le :: "u64 \<Rightarrow> u64 list \<Rightarrow> nat" where
  "num_le v xs = length (filter (\<lambda>x. x \<le> v) xs)"

text \<open>The weight of the items at or below \<open>v\<close>: an item of level \<open>l\<close> stands for \<open>2^l\<close> inputs.\<close>

definition kll_le :: "u64 list list \<Rightarrow> u64 \<Rightarrow> nat" where
  "kll_le levels v = (\<Sum>l < length levels. 2 ^ l * num_le v (levels ! l))"

lemma num_le_simps [simp]:
  "num_le v [] = 0" "num_le v (x # xs) = (if x \<le> v then 1 else 0) + num_le v xs"
  "num_le v (xs @ ys) = num_le v xs + num_le v ys"
  by (simp_all add: num_le_def)

lemma num_le_sort [simp]: "num_le v (sort xs) = num_le v xs"
  by (simp add: num_le_def filter_sort)

lemma num_le_zero: "sorted (x # xs) \<Longrightarrow> \<not> x \<le> v \<Longrightarrow> num_le v xs = 0"
  by (auto simp: num_le_def filter_empty_conv)

lemma num_le_step_by2: "sorted xs \<Longrightarrow> num_le v (step_by2 xs) = (num_le v xs + 1) div 2"
proof (induction xs rule: step_by2.induct)
  case (3 x y xs)
  then have IH: "num_le v (step_by2 xs) = (num_le v xs + 1) div 2" by simp
  have xy: "x \<le> y" "sorted (y # xs)" "sorted (x # y # xs)" using 3 by auto
  show ?case
  proof (cases "y \<le> v")
    case True
    then show ?thesis using IH xy(1) by (simp add: order_trans)
  next
    case False
    then have "num_le v xs = 0" using num_le_zero [OF xy(2)] by simp
    then show ?thesis using IH False by simp
  qed
qed auto

text \<open>Promoting every other item of a sorted buffer at twice the weight moves the rank of any
  value by at most one unit of the buffer's weight.\<close>

lemma num_le_promoted:
  assumes "off \<le> 1" "promoted = step_by2 (drop off (sort xs))"
  shows "\<bar>2 * int (num_le v promoted) - int (num_le v xs)\<bar> \<le> 1"
proof -
  have "num_le v promoted = (num_le v (drop off (sort xs)) + 1) div 2"
    unfolding assms(2) by (rule num_le_step_by2) simp
  moreover have "num_le v (drop off (sort xs)) = num_le v xs - off"
  proof (cases "off = 1")
    case True
    show ?thesis
    proof (cases "sort xs")
      case Nil
      then show ?thesis using num_le_sort [of v xs] by simp
    next
      case (Cons y ys)
      then have n: "num_le v xs = (if y \<le> v then 1 else 0) + num_le v ys" using num_le_sort [of v xs] by simp
      have "sorted (y # ys)" using Cons by (metis sorted_sort)
      then show ?thesis using n num_le_zero [of y ys v] Cons True by auto
    qed
  next
    case False
    then show ?thesis using assms(1) by (cases off) auto
  qed
  ultimately show ?thesis using assms(1) by (cases "num_le v xs") auto
qed

lemma kll_le_update:
  assumes "i < length levels"
  shows "kll_le (levels[i := xs]) v + 2 ^ i * num_le v (levels ! i) = kll_le levels v + 2 ^ i * num_le v xs"
proof -
  have "kll_le (levels[i := xs]) v = 2 ^ i * num_le v xs + (\<Sum>l \<in> {..<length levels} - {i}. 2 ^ l * num_le v (levels ! l))"
    using assms by (simp add: kll_le_def sum.remove [of _ i] nth_list_update)
  moreover have "kll_le levels v = 2 ^ i * num_le v (levels ! i) + (\<Sum>l \<in> {..<length levels} - {i}. 2 ^ l * num_le v (levels ! l))"
    using assms by (simp add: kll_le_def sum.remove [of _ i])
  ultimately show ?thesis by simp
qed

lemma kll_le_snoc: "kll_le (levels @ [xs]) v = kll_le levels v + 2 ^ length levels * num_le v xs"
  by (simp add: kll_le_def nth_append)

lemma kll_compact_rank:
  assumes l: "level < length (kl_levels s)"
  shows "\<bar>int (kll_le (kl_levels (kll_compact s level)) v) - int (kll_le (kl_levels s) v)\<bar> \<le> 2 ^ level"
proof -
  let ?L = "kl_levels s" and ?x = "kl_levels s ! level"
  obtain promoted off where off: "off \<le> 1" and p: "promoted = step_by2 (drop off (sort ?x))"
    and lv: "kl_levels (kll_compact s level) =
      (if level + 1 = length ?L then ?L[level := []] @ [promoted]
       else ?L[level := [], level + 1 := ?L ! (level + 1) @ promoted])"
    using kll_compact_levels [OF l] by metis
  have e: "kll_le (?L[level := []]) v + 2 ^ level * num_le v ?x = kll_le ?L v"
    using kll_le_update [OF l, of "[]" v] by simp
  have "kll_le (kl_levels (kll_compact s level)) v + 2 ^ level * num_le v ?x
      = kll_le ?L v + 2 ^ (level + 1) * num_le v promoted"
  proof (cases "level + 1 = length ?L")
    case True
    then show ?thesis using e by (simp add: lv kll_le_snoc)
  next
    case False
    then have l1: "level + 1 < length (?L[level := []])" using l by simp
    have "(?L[level := []]) ! (level + 1) = ?L ! (level + 1)" by simp
    with kll_le_update [OF l1, of "?L ! (level + 1) @ promoted" v] e False show ?thesis
      by (simp add: lv add_mult_distrib2)
  qed
  from arg_cong [OF this, of int] have "int (kll_le (kl_levels (kll_compact s level)) v) - int (kll_le ?L v)
      = 2 ^ level * (2 * int (num_le v promoted) - int (num_le v ?x))"
    by (simp add: algebra_simps)
  then show ?thesis using num_le_promoted [OF off p, of v] by (simp add: abs_mult)
qed

text \<open>The weight of the compactions of one pass, with the same control flow as the loop.\<close>

function kll_compress_err :: "kll_sketch \<Rightarrow> nat \<Rightarrow> nat" where
  "kll_compress_err s level =
     (if level < length (kl_levels s) then
        if length (kl_levels s ! level) \<le> kll_capacity s level
        then kll_compress_err s (level + 1)
        else 2 ^ level + kll_compress_err (kll_compact s level) (level + 1)
      else 0)"
  by auto

termination
proof (relation "measure (\<lambda>(s, level). kll_measure s level)")
  fix s :: kll_sketch and level
  assume l: "level < length (kl_levels s)"
  show "((s, level + 1), s, level) \<in> measure (\<lambda>(s, level). kll_measure s level)"
    using l by (simp add: kll_measure_def Cons_nth_drop_Suc [OF l, symmetric] diff_less_mono2 add_less_le_mono)
  show "((kll_compact s level, level + 1), s, level) \<in> measure (\<lambda>(s, level). kll_measure s level)"
    if "\<not> length (kl_levels s ! level) \<le> kll_capacity s level"
    using kll_compact_measure [OF l] that by (simp add: not_le)
qed simp

declare kll_compress_err.simps [simp del]

lemma kll_compress_rank:
  "\<bar>int (kll_le (kl_levels (kll_compress_from s level)) v) - int (kll_le (kl_levels s) v)\<bar>
     \<le> int (kll_compress_err s level)"
proof (induction s level rule: kll_compress_from.induct)
  case (1 s level)
  note c = kll_compress_from.simps [of s level] kll_compress_err.simps [of s level]
  show ?case
  proof (cases "level < length (kl_levels s) \<and> \<not> length (kl_levels s ! level) \<le> kll_capacity s level")
    case True
    have "\<bar>int (kll_le (kl_levels (kll_compress_from (kll_compact s level) (level + 1))) v)
        - int (kll_le (kl_levels (kll_compact s level)) v)\<bar> \<le> int (kll_compress_err (kll_compact s level) (level + 1))"
      using 1(2) True by blast
    then show ?thesis using True kll_compact_rank [of level s v] by (simp add: c)
  next
    case False
    then show ?thesis using 1(1) by (auto simp: c)
  qed
qed


section \<open>Space\<close>

definition kll_within :: "kll_sketch \<Rightarrow> bool" where
  "kll_within s \<longleftrightarrow> (\<forall>l < length (kl_levels s). length (kl_levels s ! l) \<le> kll_capacity s l)"

lemma kll_compact_simps:
  assumes "level < length (kl_levels s)"
  shows "length (kl_levels (kll_compact s level)) = (if level + 1 = length (kl_levels s) then length (kl_levels s) + 1 else length (kl_levels s))"
    "kl_levels (kll_compact s level) ! level = []"
    "l \<noteq> level \<Longrightarrow> l \<noteq> level + 1 \<Longrightarrow> l < length (kl_levels s) \<Longrightarrow> kl_levels (kll_compact s level) ! l = kl_levels s ! l"
    "kl_k (kll_compact s level) = kl_k s" "kl_hash (kll_compact s level) = kl_hash s"
    "kl_n (kll_compact s level) = kl_n s" "kl_updates (kll_compact s level) = kl_updates s"
proof -
  obtain promoted where lv: "kl_levels (kll_compact s level) =
      (if level + 1 = length (kl_levels s) then (kl_levels s)[level := []] @ [promoted]
       else (kl_levels s)[level := [], level + 1 := kl_levels s ! (level + 1) @ promoted])"
    using kll_compact_levels [OF assms] by metis
  show "length (kl_levels (kll_compact s level)) = (if level + 1 = length (kl_levels s) then length (kl_levels s) + 1 else length (kl_levels s))"
    "kl_levels (kll_compact s level) ! level = []"
    "l \<noteq> level \<Longrightarrow> l \<noteq> level + 1 \<Longrightarrow> l < length (kl_levels s) \<Longrightarrow> kl_levels (kll_compact s level) ! l = kl_levels s ! l"
    using assms by (auto simp: lv nth_append)
  show "kl_k (kll_compact s level) = kl_k s" "kl_hash (kll_compact s level) = kl_hash s"
    "kl_n (kll_compact s level) = kl_n s" "kl_updates (kll_compact s level) = kl_updates s"
    by (simp_all add: kll_compact_def kll_next_bit_def Let_def)
qed

text \<open>What holds when the loop reaches \<open>level\<close> after an insert: only that level may be over its
  capacity, and if it is, every level below has just been emptied.\<close>

lemma kll_compress_within:
  assumes "\<And>l. l < length (kl_levels s) \<Longrightarrow> l \<noteq> level \<Longrightarrow> length (kl_levels s ! l) \<le> kll_capacity s l"
    and "\<And>l. level < length (kl_levels s) \<Longrightarrow> kll_capacity s level < length (kl_levels s ! level) \<Longrightarrow> l < level \<Longrightarrow> kl_levels s ! l = []"
  shows "kll_within (kll_compress_from s level)"
  using assms
proof (induction s level rule: kll_compress_from.induct)
  case (1 s level)
  note c = kll_compress_from.simps [of s level]
  show ?case
  proof (cases "level < length (kl_levels s)")
    case l: True
    show ?thesis
    proof (cases "length (kl_levels s ! level) \<le> kll_capacity s level")
      case True
      then have all: "length (kl_levels s ! i) \<le> kll_capacity s i" if "i < length (kl_levels s)" for i
        using 1(3) [of i] that by (cases "i = level") auto
      have "kll_within (kll_compress_from s (level + 1))"
        using all by (intro 1(1) [OF l True]) (auto simp: not_less [symmetric])
      then show ?thesis using l True by (simp add: c)
    next
      case False
      let ?s = "kll_compact s level"
      note cs = kll_compact_simps [OF l]
      have empty: "kl_levels ?s ! i = []" if "i < level + 1" for i
        using that cs(2) cs(3) [of i] 1(4) [of i] False l by (cases "i = level") auto
      have "length (kl_levels ?s ! i) \<le> kll_capacity ?s i" if i: "i < length (kl_levels ?s)" "i \<noteq> level + 1" for i
      proof (cases "i < level + 1")
        case True
        then show ?thesis using empty by simp
      next
        case above: False
        then have "level + 1 \<noteq> length (kl_levels s)" using i cs(1) l by (auto split: if_splits)
        then have len: "length (kl_levels ?s) = length (kl_levels s)" using cs(1) by simp
        have "kll_capacity ?s i = kll_capacity s i" by (simp add: kll_capacity_def len cs(4))
        then show ?thesis using 1(3) [of i] cs(3) [of i] above i len by auto
      qed
      then have "kll_within (kll_compress_from ?s (level + 1))"
        using empty by (intro 1(2) [OF l False]) auto
      then show ?thesis using l False by (simp add: c)
    qed
  next
    case False
    then show ?thesis using 1(3) by (auto simp: c kll_within_def)
  qed
qed

text \<open>
  Space bound.  An insert keeps every level within its capacity, also when the pass adds
  levels and so shrinks the capacities of the levels below.
\<close>

lemma kll_insert_keeps_capacity:
  assumes "kll_inv s" "kll_within s"
  shows "kll_within (kll_insert s x)"
  unfolding kll_insert_def kll_compress_def
proof (rule kll_compress_within)
  let ?s = "s\<lparr>kl_n := kl_n s + 1, kl_updates := kl_updates s + 1, kl_levels := (kl_levels s)[0 := kl_levels s ! 0 @ [x]]\<rparr>"
  fix l assume l: "l < length (kl_levels ?s)" "l \<noteq> 0"
  have "kll_capacity ?s l = kll_capacity s l" by (simp add: kll_capacity_def)
  then show "length (kl_levels ?s ! l) \<le> kll_capacity ?s l" using l assms(2) by (simp add: kll_within_def)
qed simp


section \<open>Quantile queries\<close>

definition wsum :: "u64 \<Rightarrow> (u64 \<times> u64) list \<Rightarrow> nat" where
  "wsum v xs = (\<Sum>(x, w) \<leftarrow> xs. if x \<le> v then unat w else 0)"

lemma wsum_simps [simp]:
  "wsum v [] = 0" "wsum v ((x, w) # xs) = (if x \<le> v then unat w else 0) + wsum v xs"
  "wsum v (xs @ ys) = wsum v xs + wsum v ys"
  by (simp_all add: wsum_def)

lemma wsum_sort_key: "wsum v (sort_key f xs) = wsum v xs"
proof -
  have "wsum v (insort_key f x ys) = wsum v [x] + wsum v ys" for x ys
    by (induction ys) (auto simp: wsum_def)
  then show ?thesis by (induction xs) (auto simp: wsum_def)
qed

lemma wsum_above: "(\<And>x w. (x, w) \<in> set xs \<Longrightarrow> \<not> x \<le> v) \<Longrightarrow> wsum v xs = 0"
proof (induction xs)
  case (Cons y ys)
  then show ?case using Cons.prems [of "fst y" "snd y"] by (cases y) auto
qed simp

lemma kll_scan_spec:
  assumes "sorted (map fst xs)" "unat acc < unat target" "unat target \<le> unat acc + wsum (- 1) xs"
    "unat acc + wsum (- 1) xs < 2 ^ 64"
  shows "\<exists>v \<in> fst ` set xs. kll_scan target acc xs = Some v \<and> unat target \<le> unat acc + wsum v xs
    \<and> (\<forall>u < v. unat acc + wsum u xs < unat target)"
  using assms
proof (induction xs arbitrary: acc)
  case (Cons x xs)
  obtain v w where x: "x = (v, w)" by (cases x)
  have sum: "unat (acc + w) = unat acc + unat w" using Cons.prems(4) x by (simp add: u64_add_exact)
  have ge: "v \<le> y" if "(y, w') \<in> set xs" for y w' using Cons.prems(1) x that by force
  show ?case
  proof (cases "target \<le> acc + w")
    case True
    have "wsum u (x # xs) = 0" if "u < v" for u
      using that ge by (intro wsum_above) (auto simp: x not_le dest: order_less_le_trans)
    then show ?thesis using True Cons.prems(2) sum by (auto simp: x word_le_nat_alt)
  next
    case False
    then have "unat (acc + w) < unat target" by (simp add: word_less_nat_alt not_le)
    from Cons.IH [OF _ this] Cons.prems x sum obtain v' where v': "v' \<in> fst ` set xs" "kll_scan target (acc + w) xs = Some v'"
      "unat target \<le> unat acc + unat w + wsum v' xs" "\<forall>u < v'. unat acc + unat w + wsum u xs < unat target"
      by auto
    have "v \<le> v'" using v'(1) ge by auto
    moreover have "unat acc + wsum u (x # xs) < unat target" if "u < v'" for u
      using v'(4) that by (auto simp: x)
    ultimately show ?thesis using False v' by (auto simp: x intro!: bexI [of _ v'])
  qed
qed simp

lemma wsum_map: "wsum v (map (\<lambda>x. (x, w)) xs) = unat w * num_le v xs"
  by (induction xs) auto

lemma unat_push_bit_one: "l < 64 \<Longrightarrow> unat (push_bit l 1 :: u64) = 2 ^ l"
proof -
  assume "l < 64"
  then have "(2::nat) ^ l < 2 ^ 64" by (intro power_strict_increasing) simp_all
  then have "unat (word_of_nat (2 ^ l) :: u64) = 2 ^ l" by (rule u64_of_nat_unat)
  then show ?thesis by (simp add: push_bit_eq_mult)
qed

lemma wsum_weighted:
  assumes "length (kl_levels s) \<le> MAX_LEVELS"
  shows "wsum v (kll_weighted s) = kll_le (kl_levels s) v"
proof -
  have "wsum v (concat (map (\<lambda>l. map (\<lambda>x. (x, push_bit l 1)) (kl_levels s ! l)) [0..<n])) = (\<Sum>l < n. 2 ^ l * num_le v (kl_levels s ! l))"
    if "n \<le> length (kl_levels s)" for n
    using that assms
  proof (induction n)
    case (Suc n)
    then show ?case using unat_push_bit_one [of n] by (simp add: wsum_map MAX_LEVELS_def)
  qed simp
  then show ?thesis by (simp add: kll_weighted_def kll_le_def)
qed

text \<open>
  The quantile scan returns an item of the sketch at the requested rank: the weight at or
  below it reaches the target, and the weight at or below anything smaller does not.
\<close>

lemma kll_quantile_has_target_rank:
  assumes "length (kl_levels s) \<le> MAX_LEVELS" "kl_n s \<noteq> 0"
    and "0 < unat target" "unat target \<le> kll_le (kl_levels s) (- 1)" "kll_le (kl_levels s) (- 1) < 2 ^ 64"
  shows "\<exists>v \<in> \<Union> (set ` set (kl_levels s)). kll_quantile_at s target = Some v
    \<and> unat target \<le> kll_le (kl_levels s) v \<and> (\<forall>u < v. kll_le (kl_levels s) u < unat target)"
proof -
  let ?w = "sort_key fst (kll_weighted s)"
  have eq: "wsum v ?w = kll_le (kl_levels s) v" for v by (simp add: wsum_sort_key wsum_weighted [OF assms(1)])
  obtain v where v: "v \<in> fst ` set ?w" "kll_scan target 0 ?w = Some v" "unat target \<le> kll_le (kl_levels s) v"
    "\<forall>u < v. kll_le (kl_levels s) u < unat target"
    using kll_scan_spec [of ?w 0 target] assms(3-5) by (auto simp: eq)
  have "v \<in> \<Union> (set ` set (kl_levels s))" using v(1) by (force simp: kll_weighted_def)
  moreover have "kll_quantile_at s target = Some v" using v(2) assms(2) by (simp add: kll_quantile_at_def Let_def)
  ultimately show ?thesis using v by blast
qed

section \<open>The trait's laws\<close>

definition kll_config :: "kll_sketch \<Rightarrow> nat \<times> hash_spec" where
  "kll_config s = (kl_k s, kl_hash s)"

lemma kll_compress_frame:
  "kll_config (kll_compress_from s level) = kll_config s \<and> kl_n (kll_compress_from s level) = kl_n s
   \<and> kl_updates (kll_compress_from s level) = kl_updates s
   \<and> (kl_levels s \<noteq> [] \<longrightarrow> kl_levels (kll_compress_from s level) \<noteq> [])"
proof (induction s level rule: kll_compress_from.induct)
  case (1 s level)
  have "kl_levels (kll_compact s level) \<noteq> []" if "level < length (kl_levels s)"
    using kll_compact_simps(1) [OF that] that by (metis length_0_conv less_nat_zero_code Suc_eq_plus1 nat.distinct(1))
  then show ?case
    using 1 kll_compact_simps(4-7) [of level s]
    by (subst (1 2 3 4) kll_compress_from.simps) (auto simp: kll_config_def)
qed

lemma kll_update_laws:
  "kll_config (kll_update s k v) = kll_config s" "kl_updates (kll_update s k v) = kl_updates s + 1"
  "kll_inv s \<Longrightarrow> kll_inv (kll_update s k v)"
  using kll_compress_frame [of "s\<lparr>kl_n := kl_n s + 1, kl_updates := kl_updates s + 1,
       kl_levels := (kl_levels s)[0 := kl_levels s ! 0 @ [v]]\<rparr>" 0]
  by (simp_all add: kll_update_def kll_insert_def kll_compress_def kll_config_def kll_inv_def)

lemma kll_merge_laws:
  assumes "kll_merge_from a b = Inr c"
  shows "kll_config c = kll_config a" "kl_updates c = kl_updates a + kl_updates b" "kl_n c = kl_n a + kl_n b"
    "kll_inv a \<Longrightarrow> kll_inv c"
proof -
  let ?s = "a\<lparr>kl_levels := zip_mut (@) (kll_pad (length (kl_levels b)) (kl_levels a)) (kl_levels b),
     kl_n := kl_n a + kl_n b, kl_updates := kl_updates a + kl_updates b,
     kl_rng_state := splitmix64 (kl_rng_state a XOR kl_rng_state b)\<rparr>"
  have c: "c = kll_compress_from ?s 0" using assms by (auto simp: kll_merge_from_def rbind_Inr_iff kll_compress_def)
  have "zip_mut (@) (kll_pad (length (kl_levels b)) (kl_levels a)) (kl_levels b) \<noteq> []" if "kl_levels a \<noteq> []"
    using that by (metis kll_pad_def append_is_Nil_conv length_0_conv length_zip_mut)
  then show "kll_config c = kll_config a" "kl_updates c = kl_updates a + kl_updates b" "kl_n c = kl_n a + kl_n b"
    "kll_inv a \<Longrightarrow> kll_inv c"
    using kll_compress_frame [of ?s 0] by (simp_all add: c kll_config_def kll_inv_def)
qed

lemma kll_compat_config: "kll_config a = kll_config b \<Longrightarrow> kll_compatibility a = kll_compatibility b"
  by (simp add: kll_config_def kll_compatibility_def kll_params_hash_def)

lemma kll_merge_from_eq:
  "kll_compatibility a = kll_compatibility b \<Longrightarrow> \<exists>c. kll_merge_from a b = Inr c"
  "kll_compatibility a \<noteq> kll_compatibility b \<Longrightarrow>
   kll_merge_from a b = Inl (IncompatibleMerge ''sketches are not merge-compatible'')"
  by (simp_all add: kll_merge_from_def ensure_matches_def)

lemma kll_reset_laws:
  "kll_inv s \<Longrightarrow> kll_inv (kll_reset s)" "kll_config (kll_reset s) = kll_config s" "kl_updates (kll_reset s) = 0"
  by (simp_all add: kll_inv_def kll_reset_def kll_config_def)

interpretation kll: configured_sketch kll_inv kll_update kll_merge_from kll_reset kl_updates
    kll_compatibility kll_config
  by unfold_locales (blast intro: kll_update_laws kll_merge_laws kll_reset_laws kll_merge_from_eq
      kll_compat_config)+

text \<open>Merging first concatenates the levels, which loses no rank; then one pass compresses.\<close>

lemma kll_le_zip:
  assumes "length ys \<le> length xs"
  shows "kll_le (zip_mut (@) xs ys) v = kll_le xs v + kll_le ys v"
proof -
  have nth: "zip_mut (@) xs ys ! i = (if i < length ys then xs ! i @ ys ! i else xs ! i)" if "i < length xs" for i
    using that assms by (induction "(@) :: u64 list \<Rightarrow> _" xs ys arbitrary: i rule: zip_mut.induct) (auto simp: nth_Cons')
  have "kll_le ys v = (\<Sum>l < length xs. if l < length ys then 2 ^ l * num_le v (ys ! l) else 0)"
    unfolding kll_le_def using assms by (intro sum.mono_neutral_cong_left) auto
  moreover have "kll_le (zip_mut (@) xs ys) v
      = (\<Sum>l < length xs. 2 ^ l * num_le v (xs ! l) + (if l < length ys then 2 ^ l * num_le v (ys ! l) else 0))"
    unfolding kll_le_def by (rule sum.cong) (auto simp: nth add_mult_distrib2)
  ultimately show ?thesis by (simp add: kll_le_def sum.distrib)
qed

lemma kll_le_pad: "kll_le (kll_pad n levels) v = kll_le levels v"
proof -
  have "kll_le (levels @ replicate m []) v = kll_le levels v" for m
  proof (induction m)
    case (Suc m)
    have "levels @ replicate (Suc m) [] = (levels @ replicate m []) @ [[]]" by (simp add: replicate_append_same)
    then show ?case using Suc by (simp only: kll_le_snoc) simp
  qed simp
  then show ?thesis by (simp add: kll_pad_def)
qed



section \<open>Snapshots\<close>

text \<open>What a snapshot can hold: at most \<open>MAX_LEVELS\<close> levels, and 32-bit lengths.\<close>

definition kll_wf :: "kll_sketch \<Rightarrow> bool" where
  "kll_wf s \<longleftrightarrow> kll_inv s \<and> kl_k s < 2 ^ 64 \<and> length (kl_levels s) \<le> MAX_LEVELS
     \<and> 28 + length (concat (map wr_level (kl_levels s))) < 2 ^ 32"

lemma length_wr_level: "length (wr_level l) = 4 + 8 * length l"
  using length_concat_const [of l wr_u64 8] by (simp add: wr_level_def del: length_concat)

lemma rd_level_append:
  assumes "length l < 2 ^ 32" "rd_rest r = wr_level l @ b"
  shows "rd_level r = Inr (l, rd_adv (length (wr_level l)) r)"
proof -
  have e: "rd_rest r = wr_u32 (word_of_nat (length l)) @ concat (map wr_u64 l) @ b"
    using assms(2) by (simp add: wr_level_def)
  have e1: "rd_rest (rd_adv 4 r) = concat (map wr_u64 l) @ b" by (simp add: e)
  have n: "unat (word_of_nat (length l) :: u32) = length l" using assms(1) by (rule u32_of_nat_unat)
  have cnt: "rd_check_count (length l) 8 (rd_adv 4 r) = Inr ()"
    using length_concat_const [of l wr_u64 8] unfolding rd_check_count_def rd_remaining_rest e1
    by (simp del: length_concat)
  show ?thesis
    unfolding rd_level_def rd_u32_append [OF e] rbind.simps prod.case n cnt rd_many_u64 [OF e1]
    by (simp add: length_wr_level)
qed

lemma length_level_le: "l \<in> set ls \<Longrightarrow> length l \<le> length (concat (map wr_level ls))"
  by (induction ls) (auto simp: length_wr_level simp del: length_concat)

lemma kll_decode_encode: "kll_wf s \<Longrightarrow> kll_from_snapshot (kll_to_snapshot s ws we) = Inr s"
proof -
  assume wf: "kll_wf s"
  let ?enc = "concat (map wr_level (kl_levels s))"
  define n where "n = length (kl_levels s)"
  have d: "kl_levels s \<noteq> []" "8 \<le> kl_k s" "kl_k s < 2 ^ 64" "n \<le> 64" "28 + length ?enc < 2 ^ 32"
    using wf unfolding kll_wf_def kll_inv_def n_def MAX_LEVELS_def MIN_LEVEL_CAPACITY_def by blast+
  have n: "unat (word_of_nat n :: u32) = n" using d(4) by (intro u32_of_nat_unat) simp
  have k: "unat (word_of_nat (kl_k s) :: u64) = kl_k s" using d(3) by (rule u64_of_nat_unat)
  let ?r = "rd_adv 4 (rd_adv 8 (rd_adv 8 (rd_adv 8 (Reader_new (wr_u64 (kl_n s) @ wr_u64 (kl_rng_state s)
     @ wr_u64 (kl_updates s) @ wr_u32 (word_of_nat n) @ ?enc)))))"
  have rest: "rd_rest ?r = ?enc @ []" by (simp del: drop_drop rd_adv_adv)
  have small: "length l < 2 ^ 32" if "l \<in> set (kl_levels s)" for l
    using length_level_le [OF that] d(5) by linarith
  have many: "rd_many rd_level n ?r = Inr (kl_levels s, rd_adv (length ?enc) ?r)"
    unfolding n_def using small by (intro rd_many_append [OF _ rest [unfolded n_def]] rd_level_append)
  have "4 * length ls \<le> length (concat (map wr_level ls))" for ls
    by (induction ls) (auto simp: length_wr_level simp del: length_concat)
  from this [of "kl_levels s"] have "n \<le> length ?enc div 4" by (simp add: n_def less_eq_div_iff_mult_less_eq mult.commute del: length_concat)
  then have cnt: "rd_check_count n 4 ?r = Inr ()"
    unfolding rd_check_count_def rd_remaining_rest rest by (simp del: length_concat)
  show ?thesis
    unfolding kll_to_snapshot_def kll_from_snapshot_def n_def [symmetric]
    using d many cnt n k
    by (simp add: read_write_snapshot rd_eqs Let_def MIN_LEVEL_CAPACITY_def MAX_LEVELS_def
        del: drop_drop rd_adv_adv length_concat u32_of_nat_unat u64_of_nat_unat)
qed

interpretation kll_codec: snapshot_codec kll_wf kll_to_snapshot kll_from_snapshot
  by unfold_locales (rule kll_decode_encode)

text \<open>
  A KLL sketch survives a snapshot exactly, random state included, so the restored sketch
  makes the same compaction choices; and any bytes that decode at all give a sketch with at
  least one and at most \<open>MAX_LEVELS\<close> levels, so every weight \<open>1 << level\<close> is in range.
\<close>

lemma kll_snapshot_round_trips:
  "(kll_wf s \<longrightarrow> kll_from_snapshot (kll_to_snapshot s ws we) = Inr s)
   \<and> (kll_from_snapshot bs = Inr s' \<longrightarrow> kll_inv s' \<and> length (kl_levels s') \<le> MAX_LEVELS)"
proof (intro conjI impI)
  assume "kll_wf s"
  then show "kll_from_snapshot (kll_to_snapshot s ws we) = Inr s" by (rule kll_codec.decode_encode)
next
  assume "kll_from_snapshot bs = Inr s'"
  then show "kll_inv s'" "length (kl_levels s') \<le> MAX_LEVELS"
    by (auto simp: kll_from_snapshot_def rbind_Inr_iff Let_def kll_inv_def not_less MAX_LEVELS_def
        dest!: rd_many_length split: if_splits)
qed

end
