(* ===== verification/Field.thy ===== *)
theory Field
  imports Prelude
begin

text \<open>
  \<^verbatim>\<open>flowsketch-core/src/event.rs\<close> and \<^verbatim>\<open>flowsketch-core/src/field.rs\<close>: the
  normalised flow event, its logical fields, and the encoding of group-by keys as bytes.

  An \<^verbatim>\<open>Ipv4Addr\<close> is a 32-bit and an \<^verbatim>\<open>Ipv6Addr\<close> a 128-bit word; the standard
  library's \<^verbatim>\<open>Display\<close> of integers and addresses is written out (\<open>show_nat\<close>,
  \<open>show_ipv4\<close>, \<open>show_ipv6\<close>).  Rust text is a \<open>string\<close>, its UTF-8 bytes are \<open>ascii\<close> of it.

  Shown here: the hand-written byte encoder of the hot path agrees with the display encoding, a
  group key splits back into the display values of its fields, equal keys mean equal field
  values, and no encoding is longer than the planner's declared maximum.
\<close>

section \<open>Events\<close>

datatype direction = Ingress | Egress | Unknown

definition Direction_name :: "direction \<Rightarrow> string" where
  "Direction_name d = (case d of Ingress \<Rightarrow> ''ingress'' | Egress \<Rightarrow> ''egress'' | Unknown \<Rightarrow> ''unknown'')"

datatype ip_addr = V4 u32 | V6 "128 word"

record flow_event =
  ts_nanos :: u64
  src_ip :: ip_addr
  dst_ip :: ip_addr
  src_port :: u16
  dst_port :: u16
  protocol :: u8
  ev_bytes :: u32
  packets :: u32
  direction :: direction
  tcp_flags :: u8
  interface_index :: u32
  node_id :: u64
  namespace_id :: "u64 option"
  pod_id :: "u64 option"
  service_id :: "u64 option"

definition FlowEvent_default :: flow_event where
  "FlowEvent_default = \<lparr>ts_nanos = 0, src_ip = V4 0, dst_ip = V4 0, src_port = 0, dst_port = 0,
     protocol = 0, ev_bytes = 0, packets = 1, direction = Unknown, tcp_flags = 0,
     interface_index = 0, node_id = 0, namespace_id = None, pod_id = None, service_id = None\<rparr>"

section \<open>Display of the standard library\<close>

definition ascii :: "string \<Rightarrow> bytes" where
  "ascii = map of_char"

fun show_nat :: "nat \<Rightarrow> string" where
  "show_nat n = (if n < 10 then [char_of (48 + n)] else show_nat (n div 10) @ [char_of (48 + n mod 10)])"

declare show_nat.simps [simp del]

definition hex_digit :: "nat \<Rightarrow> char" where
  "hex_digit d = char_of (if d < 10 then 48 + d else 87 + d)"

text \<open>\<^verbatim>\<open>{:x}\<close>: lower-case hexadecimal without leading zeros.\<close>

fun show_hex :: "nat \<Rightarrow> string" where
  "show_hex n = (if n < 16 then [hex_digit n] else show_hex (n div 16) @ [hex_digit (n mod 16)])"

declare show_hex.simps [simp del]

definition octets :: "u32 \<Rightarrow> u8 list" where
  "octets a = rev (le_bytes 4 a)"

fun join :: "string \<Rightarrow> string list \<Rightarrow> string" where
  "join sep [] = []"
| "join sep [x] = x"
| "join sep (x # y # ys) = x @ sep @ join sep (y # ys)"

definition show_ipv4 :: "u32 \<Rightarrow> string" where
  "show_ipv4 a = join ''.'' (map (\<lambda>b. show_nat (unat b)) (octets a))"

text \<open>The eight 16-bit segments of an IPv6 address, most significant first.\<close>

definition segments :: "128 word \<Rightarrow> u16 list" where
  "segments a = map (\<lambda>i. ucast (drop_bit (112 - 16 * i) a)) [0..<8]"

text \<open>The longest run of zero segments, the first one of that length: start and length.\<close>

definition span_step :: "u16 \<Rightarrow> (nat \<times> nat) \<times> (nat \<times> nat) \<times> nat \<Rightarrow> (nat \<times> nat) \<times> (nat \<times> nat) \<times> nat" where
  "span_step = (\<lambda>seg ((cs, cl), (bs, bl), i).
       if seg = 0
       then let cs = (if cl = 0 then i else cs); cl = cl + 1
            in ((cs, cl), (if bl < cl then (cs, cl) else (bs, bl)), i + 1)
       else ((0, 0), (bs, bl), i + 1))"

definition zero_span :: "u16 list \<Rightarrow> nat \<times> nat" where
  "zero_span segs = (case fold span_step segs ((0, 0), (0, 0), 0) of (cur, best, i) \<Rightarrow> best)"

definition show_ipv6 :: "128 word \<Rightarrow> string" where
  "show_ipv6 a =
     (let segs = segments a
      in if take 6 segs = [0, 0, 0, 0, 0, 0xFFFF]
         then ''::ffff:'' @ show_ipv4 (ucast a)
         else let (start, len) = zero_span segs; show = map (\<lambda>s. show_hex (unat s))
              in if 1 < len
                 then join '':'' (show (take start segs)) @ ''::'' @ join '':'' (show (drop (start + len) segs))
                 else join '':'' (show segs))"

definition show_ip :: "ip_addr \<Rightarrow> string" where
  "show_ip ip = (case ip of V4 a \<Rightarrow> show_ipv4 a | V6 a \<Rightarrow> show_ipv6 a)"

definition ICMP :: u8 where "ICMP = 1"
definition TCP :: u8 where "TCP = 6"
definition UDP :: u8 where "UDP = 17"
definition ICMPV6 :: u8 where "ICMPV6 = 58"

definition protocol_name :: "u8 \<Rightarrow> string" where
  "protocol_name p = (if p = ICMP then ''icmp'' else if p = TCP then ''tcp'' else if p = UDP then ''udp''
     else if p = ICMPV6 then ''icmpv6'' else show_nat (unat p))"

section \<open>Fields\<close>

datatype field = SrcIp | DstIp | SrcPort | DstPort | Protocol | TcpFlags | Direction | Bytes
  | Packets | InterfaceIndex | NodeId

definition Field_name :: "field \<Rightarrow> string" where
  "Field_name f = (case f of SrcIp \<Rightarrow> ''src.ip'' | DstIp \<Rightarrow> ''dst.ip'' | SrcPort \<Rightarrow> ''src.port''
     | DstPort \<Rightarrow> ''dst.port'' | Protocol \<Rightarrow> ''protocol'' | TcpFlags \<Rightarrow> ''tcp.flags''
     | Direction \<Rightarrow> ''direction'' | Bytes \<Rightarrow> ''bytes'' | Packets \<Rightarrow> ''packets''
     | InterfaceIndex \<Rightarrow> ''interface.index'' | NodeId \<Rightarrow> ''node.id'')"

definition Field_from_str :: "string \<Rightarrow> string + field" where
  "Field_from_str s =
     (if s = ''src.ip'' then Inr SrcIp else if s = ''dst.ip'' then Inr DstIp
      else if s = ''src.port'' then Inr SrcPort else if s = ''dst.port'' then Inr DstPort
      else if s = ''protocol'' then Inr Protocol else if s = ''tcp.flags'' then Inr TcpFlags
      else if s = ''direction'' then Inr Direction else if s = ''bytes'' then Inr Bytes
      else if s = ''packets'' then Inr Packets else if s = ''interface.index'' then Inr InterfaceIndex
      else if s = ''node.id'' then Inr NodeId else Inl ''unknown field'')"

definition label_name :: "field \<Rightarrow> string" where
  "label_name f = map (\<lambda>c. if c = CHR ''.'' then CHR ''_'' else c) (Field_name f)"

definition is_numeric_measure :: "field \<Rightarrow> bool" where
  "is_numeric_measure f = (case f of Bytes \<Rightarrow> True | Packets \<Rightarrow> True | _ \<Rightarrow> False)"

definition max_encoded_len :: "field \<Rightarrow> nat" where
  "max_encoded_len f = (case f of SrcIp \<Rightarrow> 39 | DstIp \<Rightarrow> 39 | SrcPort \<Rightarrow> 5 | DstPort \<Rightarrow> 5 | Protocol \<Rightarrow> 6
     | TcpFlags \<Rightarrow> 3 | Direction \<Rightarrow> 7 | Bytes \<Rightarrow> 10 | Packets \<Rightarrow> 10 | InterfaceIndex \<Rightarrow> 10 | NodeId \<Rightarrow> 20)"

definition field_extract :: "field \<Rightarrow> flow_event \<Rightarrow> string" where
  "field_extract f e = (case f of SrcIp \<Rightarrow> show_ip (src_ip e) | DstIp \<Rightarrow> show_ip (dst_ip e)
     | SrcPort \<Rightarrow> show_nat (unat (src_port e)) | DstPort \<Rightarrow> show_nat (unat (dst_port e))
     | Protocol \<Rightarrow> protocol_name (protocol e) | TcpFlags \<Rightarrow> show_nat (unat (tcp_flags e))
     | Direction \<Rightarrow> Direction_name (direction e) | Bytes \<Rightarrow> show_nat (unat (ev_bytes e))
     | Packets \<Rightarrow> show_nat (unat (packets e)) | InterfaceIndex \<Rightarrow> show_nat (unat (interface_index e))
     | NodeId \<Rightarrow> show_nat (unat (node_id e)))"

definition extract_value :: "field \<Rightarrow> flow_event \<Rightarrow> u64" where
  "extract_value f e = (case f of Bytes \<Rightarrow> ucast (ev_bytes e) | Packets \<Rightarrow> ucast (packets e)
     | SrcPort \<Rightarrow> ucast (src_port e) | DstPort \<Rightarrow> ucast (dst_port e) | Protocol \<Rightarrow> ucast (protocol e)
     | TcpFlags \<Rightarrow> ucast (tcp_flags e) | InterfaceIndex \<Rightarrow> ucast (interface_index e)
     | NodeId \<Rightarrow> node_id e | SrcIp \<Rightarrow> 0 | DstIp \<Rightarrow> 0 | Direction \<Rightarrow> 0)"

section \<open>Keys\<close>

definition GROUP_KEY_SEP :: u8 where
  "GROUP_KEY_SEP = 0x1F"

text \<open>The loop of \<^verbatim>\<open>append_decimal\<close> fills a 20-byte buffer from its end: \<open>i\<close> is the
  first filled position.  An index below 0 would panic (\<open>None\<close>).\<close>

function decimal_loop :: "u8 list \<Rightarrow> nat \<Rightarrow> u64 \<Rightarrow> (u8 list \<times> nat) option" where
  "decimal_loop buf i v =
     (if v = 0 then Some (buf, i) else
      if i = 0 then None else
      decimal_loop (buf[i - 1 := 48 + ucast (v mod 10)]) (i - 1) (v div 10))"
  by pat_completeness auto
termination by (relation "measure (\<lambda>(buf, i, v). i)") auto

declare decimal_loop.simps [simp del]

definition append_decimal :: "bytes \<Rightarrow> u64 \<Rightarrow> bytes option" where
  "append_decimal out v =
     (if v = 0 then Some (out @ [48]) else
      map_option (\<lambda>(buf, i). out @ drop i buf) (decimal_loop (replicate 20 0) 20 v))"

fun append_octets :: "nat \<Rightarrow> u8 list \<Rightarrow> bytes \<Rightarrow> bytes option" where
  "append_octets i [] out = Some out"
| "append_octets i (b # bs) out =
     Option.bind (append_decimal (if 0 < i then out @ [46] else out) (ucast b)) (append_octets (Suc i) bs)"

definition append_ipv4 :: "bytes \<Rightarrow> u32 \<Rightarrow> bytes option" where
  "append_ipv4 out a = append_octets 0 (octets a) out"

definition append_ip :: "bytes \<Rightarrow> ip_addr \<Rightarrow> bytes option" where
  "append_ip out ip = (case ip of V4 a \<Rightarrow> append_ipv4 out a | V6 a \<Rightarrow> Some (out @ ascii (show_ipv6 a)))"

definition field_value_into :: "field \<Rightarrow> flow_event \<Rightarrow> bytes \<Rightarrow> bytes option" where
  "field_value_into f e out = (case f of
       SrcIp \<Rightarrow> append_ip out (src_ip e) | DstIp \<Rightarrow> append_ip out (dst_ip e)
     | SrcPort \<Rightarrow> append_decimal out (ucast (src_port e)) | DstPort \<Rightarrow> append_decimal out (ucast (dst_port e))
     | Protocol \<Rightarrow> (if protocol e = ICMP then Some (out @ ascii ''icmp'')
         else if protocol e = TCP then Some (out @ ascii ''tcp'')
         else if protocol e = UDP then Some (out @ ascii ''udp'')
         else if protocol e = ICMPV6 then Some (out @ ascii ''icmpv6'')
         else append_decimal out (ucast (protocol e)))
     | TcpFlags \<Rightarrow> append_decimal out (ucast (tcp_flags e))
     | Direction \<Rightarrow> Some (out @ ascii (Direction_name (direction e)))
     | Bytes \<Rightarrow> append_decimal out (ucast (ev_bytes e)) | Packets \<Rightarrow> append_decimal out (ucast (packets e))
     | InterfaceIndex \<Rightarrow> append_decimal out (ucast (interface_index e))
     | NodeId \<Rightarrow> append_decimal out (node_id e))"

fun group_key_loop :: "nat \<Rightarrow> field list \<Rightarrow> flow_event \<Rightarrow> bytes \<Rightarrow> bytes option" where
  "group_key_loop i [] e out = Some out"
| "group_key_loop i (f # fs) e out =
     Option.bind (field_value_into f e (if 0 < i then out @ [GROUP_KEY_SEP] else out)) (group_key_loop (Suc i) fs e)"

text \<open>\<^verbatim>\<open>group_key_into\<close> clears the caller's buffer first.\<close>

definition group_key_into :: "field list \<Rightarrow> flow_event \<Rightarrow> bytes \<Rightarrow> bytes option" where
  "group_key_into fs e out = group_key_loop 0 fs e []"

definition group_key :: "field list \<Rightarrow> flow_event \<Rightarrow> bytes option" where
  "group_key fs e = group_key_into fs e []"

text \<open>\<^verbatim>\<open>slice::split\<close>: the pieces between separators, always at least one.\<close>

fun split_on :: "'a \<Rightarrow> 'a list \<Rightarrow> 'a list list" where
  "split_on sep [] = [[]]"
| "split_on sep (x # xs) = (if x = sep then [] # split_on sep xs
     else case split_on sep xs of [] \<Rightarrow> [[x]] | p # ps \<Rightarrow> (x # p) # ps)"

text \<open>The pieces as bytes; \<^verbatim>\<open>from_utf8_lossy\<close> is the identity on ASCII.\<close>

definition split_group_key :: "bytes \<Rightarrow> bytes list" where
  "split_group_key key = (if key = [] then [] else split_on GROUP_KEY_SEP key)"

section \<open>Decimal and hexadecimal text\<close>

lemma of_char_digit: "n < 208 \<Longrightarrow> (of_char (char_of (48 + n) :: char) :: u8) = 48 + word_of_nat n"
proof -
  assume n: "n < 208"
  have "(of_char (char_of (48 + n) :: char) :: u8) = of_nat (of_char (char_of (48 + n) :: char))"
    by (simp only: of_nat_of_char)
  also have "\<dots> = of_nat (48 + n)" using n by simp
  finally show ?thesis by simp
qed

lemma ascii_simps [simp]: "ascii [] = []" "ascii (a @ b) = ascii a @ ascii b" "length (ascii a) = length a"
  "ascii (c # a) = of_char c # ascii a" "ascii a = [] \<longleftrightarrow> a = []"
  by (simp_all add: ascii_def)

lemma unat_of_char: "unat (of_char c :: u8) = of_char c"
proof -
  have "unat (of_nat (of_char c) :: u8) = of_char c mod 256"
    by (simp only: unsigned_of_nat take_bit_eq_mod) simp
  then show ?thesis by (simp only: of_nat_of_char of_char_mod_256)
qed

lemma of_char_u8_inj: "(of_char c :: u8) = of_char d \<Longrightarrow> c = d"
  by (metis unat_of_char of_char_eq_iff)

lemma ascii_inj [simp]: "ascii a = ascii b \<longleftrightarrow> a = b"
  unfolding ascii_def by (rule inj_map_eq_map) (auto intro: injI of_char_u8_inj)

definition dec_value :: "string \<Rightarrow> nat" where
  "dec_value s = foldl (\<lambda>a c. 10 * a + (of_char c - 48)) 0 s"

lemma dec_value_show [simp]: "dec_value (show_nat n) = n"
proof (induction n rule: show_nat.induct)
  case (1 n)
  then show ?case by (subst show_nat.simps) (simp add: dec_value_def)
qed

lemma show_nat_inj [simp]: "show_nat m = show_nat n \<longleftrightarrow> m = n"
  by (metis dec_value_show)

definition hex_value :: "string \<Rightarrow> nat" where
  "hex_value s = foldl (\<lambda>a c. 16 * a + (if of_char c < (58::nat) then of_char c - 48 else of_char c - 87)) 0 s"

lemma hex_digit_value: "d < 16 \<Longrightarrow> (if of_char (hex_digit d) < (58::nat) then of_char (hex_digit d) - 48 else of_char (hex_digit d) - 87) = d"
  by (auto simp: hex_digit_def)

lemma hex_value_show [simp]: "hex_value (show_hex n) = n"
proof (induction n rule: show_hex.induct)
  case (1 n)
  then show ?case using hex_digit_value [of n] hex_digit_value [of "n mod 16"]
    by (subst show_hex.simps) (simp add: hex_value_def)
qed

lemma show_hex_inj [simp]: "show_hex m = show_hex n \<longleftrightarrow> m = n"
  by (metis hex_value_show)

text \<open>The characters that occur: every printed character is above the separator, digits are
  neither colon nor dot.\<close>

lemma show_nat_chars: "c \<in> set (show_nat n) \<Longrightarrow> 48 \<le> (of_char c :: nat) \<and> of_char c < (58::nat)"
proof (induction n rule: show_nat.induct)
  case (1 n)
  have "48 \<le> (of_char (char_of (48 + n mod 10)) :: nat)" by simp
  with 1 show ?case by (subst (asm) show_nat.simps) (auto split: if_splits)
qed

lemma show_hex_chars: "c \<in> set (show_hex n) \<Longrightarrow> 48 \<le> (of_char c :: nat) \<and> of_char c \<noteq> (58::nat)"
proof (induction n rule: show_hex.induct)
  case (1 n)
  have d: "48 \<le> (of_char (hex_digit d) :: nat) \<and> of_char (hex_digit d) \<noteq> (58::nat)" if "d < 16" for d
    using that by (auto simp: hex_digit_def)
  from 1 d show ?case by (subst (asm) show_hex.simps) (auto split: if_splits)
qed

lemma show_not_Nil [simp]: "show_nat n \<noteq> []" "show_hex n \<noteq> []"
  by (subst show_nat.simps, simp, subst show_hex.simps, simp)

lemma length_show_nat: "n < 10 ^ k \<Longrightarrow> 0 < k \<Longrightarrow> length (show_nat n) \<le> k"
proof (induction k arbitrary: n)
  case (Suc k)
  show ?case
  proof (cases "n < 10")
    case True
    then show ?thesis by (subst show_nat.simps) simp
  next
    case False
    then have "0 < k" using Suc.prems by (cases k) auto
    moreover have "n div 10 < 10 ^ k" using Suc.prems by (simp add: less_mult_imp_div_less mult.commute)
    ultimately show ?thesis using False Suc.IH [of "n div 10"] by (subst show_nat.simps) simp
  qed
qed simp

lemma length_show_hex: "n < 16 ^ k \<Longrightarrow> 0 < k \<Longrightarrow> length (show_hex n) \<le> k"
proof (induction k arbitrary: n)
  case (Suc k)
  show ?case
  proof (cases "n < 16")
    case True
    then show ?thesis by (subst show_hex.simps) simp
  next
    case False
    then have "0 < k" using Suc.prems by (cases k) auto
    moreover have "n div 16 < 16 ^ k" using Suc.prems by (simp add: less_mult_imp_div_less mult.commute)
    ultimately show ?thesis using False Suc.IH [of "n div 16"] by (subst show_hex.simps) simp
  qed
qed simp

lemma unat_ucast_up [simp]:
  "unat (ucast (a :: u8) :: u64) = unat a" "unat (ucast (b :: u16) :: u64) = unat b"
  "unat (ucast (c :: u32) :: u64) = unat c"
  using less_trans [OF unsigned_less [of a, where 'a = nat], where z = "2 ^ 64"]
    less_trans [OF unsigned_less [of b, where 'a = nat], where z = "2 ^ 64"]
    less_trans [OF unsigned_less [of c, where 'a = nat], where z = "2 ^ 64"]
  by (simp_all add: unsigned_ucast_eq take_bit_nat_eq_self)

section \<open>The hand-written encoder agrees with the display encoding\<close>

definition show_pos :: "nat \<Rightarrow> string" where
  "show_pos n = (if n = 0 then [] else show_nat n)"

lemma show_pos_step: "0 < n \<Longrightarrow> show_pos n = show_pos (n div 10) @ [char_of (48 + n mod 10)]"
  unfolding show_pos_def by (subst show_nat.simps) (auto simp: div_eq_0_iff)

lemma drop_list_update: "i < length xs \<Longrightarrow> drop i (xs[i := x]) = x # drop (Suc i) xs"
  by (simp add: upd_conv_take_nth_drop)

lemma decimal_loop_shows:
  "unat v < 10 ^ i \<Longrightarrow> i \<le> length buf \<Longrightarrow>
   \<exists>buf' i'. decimal_loop buf i v = Some (buf', i') \<and> drop i' buf' = ascii (show_pos (unat v)) @ drop i buf"
proof (induction i arbitrary: buf v)
  case 0
  then have "v = 0" by (simp add: unat_eq_0)
  then show ?case by (simp add: decimal_loop.simps show_pos_def)
next
  case (Suc i)
  show ?case
  proof (cases "v = 0")
    case True
    then show ?thesis by (simp add: decimal_loop.simps show_pos_def)
  next
    case False
    then have pos: "0 < unat v" by (simp add: unat_gt_0)
    let ?b = "buf[i := 48 + ucast (v mod 10)]"
    have u: "unat (v div 10) = unat v div 10" "unat (v mod 10) = unat v mod 10"
      by (simp_all add: unat_div_distrib unat_mod_distrib)
    have "unat (v div 10) < 10 ^ i" using Suc.prems(1) by (simp add: u less_mult_imp_div_less mult.commute)
    from Suc.IH [OF this, of ?b] Suc.prems(2) obtain buf' i' where
      r: "decimal_loop ?b i (v div 10) = Some (buf', i')" and
      d: "drop i' buf' = ascii (show_pos (unat v div 10)) @ drop i ?b" by (auto simp: u)
    have "(ucast (v mod 10) :: u8) = word_of_nat (unat v mod 10)"
      unfolding u(2) [symmetric] by simp
    then have "of_char (char_of (48 + unat v mod 10)) = (48 + ucast (v mod 10) :: u8)"
      by (simp add: of_char_digit)
    moreover have "drop i ?b = (48 + ucast (v mod 10)) # drop (Suc i) buf"
      using Suc.prems(2) by (simp add: drop_list_update)
    ultimately have "drop i' buf' = ascii (show_pos (unat v)) @ drop (Suc i) buf"
      unfolding show_pos_step [OF pos] d by (simp only: ascii_simps append.simps append_assoc)
    then show ?thesis using False r by (subst decimal_loop.simps) auto
  qed
qed

lemma append_decimal_eq: "append_decimal out v = Some (out @ ascii (show_nat (unat v)))"
proof (cases "v = 0")
  case True
  have "show_nat 0 = ''0''" by (subst show_nat.simps) code_simp
  then show ?thesis using True by (simp add: append_decimal_def)
next
  case False
  have "unat v < 10 ^ 20" by (rule less_trans [OF u64_less_exp]) simp
  from decimal_loop_shows [OF this, of "replicate 20 0"] show ?thesis
    using False by (auto simp: append_decimal_def show_pos_def unat_eq_0)
qed

lemma length_octets [simp]: "length (octets a) = 4"
  by (simp add: octets_def)

lemma append_octets_eq:
  "bs \<noteq> [] \<Longrightarrow> append_octets i bs out =
     Some ((if 0 < i then out @ [46] else out) @ ascii (join ''.'' (map (\<lambda>b. show_nat (unat b)) bs)))"
proof (induction bs arbitrary: i out)
  case (Cons b bs)
  have "append_octets i (b # bs) out =
      append_octets (Suc i) bs ((if 0 < i then out @ [46] else out) @ ascii (show_nat (unat b)))"
    by (simp add: append_decimal_eq)
  then show ?case using Cons.IH by (cases bs) (simp_all del: append_octets.simps(2))
qed simp

lemma append_ip_eq: "append_ip out ip = Some (out @ ascii (show_ip ip))"
  by (cases ip) (auto simp: append_ip_def show_ip_def append_ipv4_def show_ipv4_def octets_def append_octets_eq
      simp flip: length_0_conv)

lemma field_value_into_eq: "field_value_into f e out = Some (out @ ascii (field_extract f e))"
  by (cases f) (simp_all add: field_value_into_def field_extract_def append_ip_eq append_decimal_eq
      protocol_name_def)

section \<open>Splitting\<close>

lemma split_on_not_Nil [simp]: "split_on sep xs \<noteq> []"
  by (induction xs) (auto split: list.split)

lemma split_on_append: "sep \<notin> set a \<Longrightarrow> split_on sep (a @ sep # b) = a # split_on sep b"
  by (induction a) auto

lemma split_on_none: "sep \<notin> set a \<Longrightarrow> split_on sep a = [a]"
  by (induction a) auto

text \<open>Printed text stays above the separator.\<close>

definition printable :: "string \<Rightarrow> bool" where
  "printable s \<longleftrightarrow> (\<forall>c \<in> set s. 32 \<le> (of_char c :: nat))"

lemma printable_simps [simp]:
  "printable []" "printable (a @ b) \<longleftrightarrow> printable a \<and> printable b" "printable (show_nat n)" "printable (show_hex n)"
  "printable (c # a) \<longleftrightarrow> 32 \<le> (of_char c :: nat) \<and> printable a"
  by (auto simp: printable_def dest: show_nat_chars show_hex_chars)

lemma printable_join: "printable sep \<Longrightarrow> \<forall>x \<in> set xs. printable x \<Longrightarrow> printable (join sep xs)"
  by (induction sep xs rule: join.induct) auto

lemma printable_ip [simp]: "printable (show_ip ip)"
  by (cases ip) (auto simp: show_ip_def show_ipv4_def show_ipv6_def Let_def intro!: printable_join split: prod.split)

lemma printable_extract: "printable (field_extract f e)"
  by (auto simp: field_extract_def protocol_name_def Direction_name_def split: field.split direction.split)

lemma printable_no_sep: "printable s \<Longrightarrow> GROUP_KEY_SEP \<notin> set (ascii s)"
proof
  assume p: "printable s" and "GROUP_KEY_SEP \<in> set (ascii s)"
  then obtain c where c: "c \<in> set s" "(of_char c :: u8) = 0x1F" by (auto simp: ascii_def GROUP_KEY_SEP_def)
  have "(of_char c :: nat) = 31" using unat_of_char [of c] c(2) by simp
  then show False using p c(1) by (auto simp: printable_def)
qed

lemma join_not_Nil: "xs \<noteq> [] \<Longrightarrow> \<forall>x \<in> set xs. x \<noteq> [] \<Longrightarrow> join sep xs \<noteq> []"
  by (induction sep xs rule: join.induct) auto

lemma length_segments [simp]: "length (segments a) = 8"
  by (simp add: segments_def)

lemma ips_not_Nil [simp]: "octets a \<noteq> []" "segments b \<noteq> []"
  using length_octets [of a] length_segments [of b] by (metis list.size(3) zero_neq_numeral)+

lemma extract_not_Nil: "field_extract f e \<noteq> []"
proof -
  have "show_ip ip \<noteq> []" for ip
    by (cases ip) (simp_all add: show_ip_def show_ipv4_def show_ipv6_def Let_def join_not_Nil split: prod.split)
  then show ?thesis
    by (auto simp: field_extract_def protocol_name_def Direction_name_def split: field.split direction.split)
qed

text \<open>The key is the display values joined by the separator.\<close>

fun key_of :: "bytes list \<Rightarrow> bytes" where
  "key_of [] = []"
| "key_of [v] = v"
| "key_of (v # w # vs) = v @ GROUP_KEY_SEP # key_of (w # vs)"

lemma group_key_loop_eq:
  "fs \<noteq> [] \<Longrightarrow> group_key_loop i fs e out =
     Some ((if 0 < i then out @ [GROUP_KEY_SEP] else out) @ key_of (map (\<lambda>f. ascii (field_extract f e)) fs))"
proof (induction fs arbitrary: i out)
  case (Cons f fs)
  have "group_key_loop i (f # fs) e out = group_key_loop (Suc i) fs e
      ((if 0 < i then out @ [GROUP_KEY_SEP] else out) @ ascii (field_extract f e))"
    by (simp add: field_value_into_eq)
  then show ?case using Cons.IH by (cases fs) (simp_all del: group_key_loop.simps(2))
qed simp

lemma group_key_eq: "group_key fs e = Some (key_of (map (\<lambda>f. ascii (field_extract f e)) fs))"
  by (cases "fs = []") (simp_all add: group_key_def group_key_into_def group_key_loop_eq)

lemma split_key_of:
  assumes "vs \<noteq> []" "\<forall>v \<in> set vs. GROUP_KEY_SEP \<notin> set v \<and> v \<noteq> []"
  shows "split_group_key (key_of vs) = vs"
proof -
  have "split_on GROUP_KEY_SEP (key_of vs) = vs" using assms
    by (induction vs rule: key_of.induct) (auto simp: split_on_append split_on_none)
  moreover have "key_of vs \<noteq> []" using assms by (cases vs rule: key_of.cases) auto
  ultimately show ?thesis by (simp add: split_group_key_def)
qed

lemma split_group_key_eq:
  "fs \<noteq> [] \<Longrightarrow> split_group_key (key_of (map (\<lambda>f. ascii (field_extract f e)) fs)) = map (\<lambda>f. ascii (field_extract f e)) fs"
  by (rule split_key_of) (auto simp: printable_no_sep printable_extract extract_not_Nil)

section \<open>Addresses are determined by their text\<close>

lemma split_on_join:
  "\<forall>x \<in> set xs. sep \<notin> set x \<Longrightarrow> split_on sep (join [sep] xs) = (if xs = [] then [[]] else xs)"
  by (induction "[sep]" xs rule: join.induct) (auto simp: split_on_append split_on_none)

lemma octets_inj: "octets a = octets b \<Longrightarrow> a = b"
  unfolding octets_def using le_bytes_inj [of 4 a b] by simp

lemma show_nat_no: "CHR ''.'' \<notin> set (show_nat n)" "CHR '':'' \<notin> set (show_nat n)"
  using show_nat_chars [of "CHR ''.''" n] show_nat_chars [of "CHR '':''" n] by auto

lemma show_hex_no: "CHR ''.'' \<notin> set (show_hex n)" "CHR '':'' \<notin> set (show_hex n)"
  using show_hex_chars [of "CHR ''.''" n] show_hex_chars [of "CHR '':''" n] by auto

lemma set_join: "set (join sep xs) \<subseteq> set sep \<union> \<Union> (set ` set xs)"
  by (induction sep xs rule: join.induct) auto

lemma show_ipv4_no_colon: "CHR '':'' \<notin> set (show_ipv4 a)"
  using set_join [of "''.''" "map (\<lambda>b. show_nat (unat b)) (octets a)"] show_nat_no(2)
  by (auto simp: show_ipv4_def)

lemma show_ipv4_inj: "show_ipv4 a = show_ipv4 b \<Longrightarrow> a = b"
proof -
  have sp: "split_on (CHR ''.'') (show_ipv4 x) = map (\<lambda>b. show_nat (unat b)) (octets x)" for x
    unfolding show_ipv4_def by (subst split_on_join) (auto simp: show_nat_no)
  assume "show_ipv4 a = show_ipv4 b"
  then have "map (\<lambda>b. show_nat (unat b)) (octets a) = map (\<lambda>b. show_nat (unat b)) (octets b)"
    by (metis sp)
  then have "octets a = octets b"
    by (rule map_injective) (auto intro: injI simp: word_unat_eq_iff)
  then show "a = b" by (rule octets_inj)
qed

lemma segments_inj: "segments a = segments b \<Longrightarrow> a = b"
proof (rule bit_word_eqI)
  fix n assume eq: "segments a = segments b" and "n < LENGTH(128)"
  then have n: "n < 128" by simp
  let ?i = "7 - n div 16"
  have "segments a ! ?i = segments b ! ?i" using eq by simp
  then have s: "(ucast (drop_bit (112 - 16 * ?i) a) :: u16) = ucast (drop_bit (112 - 16 * ?i) b)"
    unfolding segments_def using n by (subst (asm) (1 2) nth_map) simp_all
  have sh: "112 - 16 * ?i = 16 * (n div 16)" using n by simp
  have "bit (ucast (drop_bit (112 - 16 * ?i) x) :: u16) (n mod 16) = bit x n" for x :: "128 word"
    unfolding sh by (simp add: bit_unsigned_iff bit_drop_bit_eq)
  then show "bit a n = bit b n" using s by metis
qed

text \<open>The span is a run of zeros inside the segments.\<close>

definition span_ok :: "u16 list \<Rightarrow> nat \<Rightarrow> nat \<Rightarrow> bool" where
  "span_ok segs st ln \<longleftrightarrow> st + ln \<le> length segs \<and> (\<forall>j. st \<le> j \<and> j < st + ln \<longrightarrow> segs ! j = 0)"

lemma span_fold:
  "case fold span_step segs ((0, 0), (0, 0), 0) of ((cs, cl), (bs, bl), i) \<Rightarrow>
     i = length segs \<and> (0 < cl \<longrightarrow> cs + cl = i) \<and> span_ok segs cs cl \<and> span_ok segs bs bl"
proof (induction segs rule: rev_induct)
  case Nil
  then show ?case by (simp add: span_ok_def)
next
  case (snoc x xs)
  obtain cs cl bs bl i where f: "fold span_step xs ((0, 0), (0, 0), 0) = ((cs, cl), (bs, bl), i)"
    by (metis surj_pair)
  have ok: "i = length xs" "0 < cl \<longrightarrow> cs + cl = i" "span_ok xs cs cl" "span_ok xs bs bl"
    using snoc by (simp_all add: f)
  have ext: "span_ok (xs @ [x]) bs bl" using ok(4) by (auto simp: span_ok_def nth_append)
  show ?case
  proof (cases "x = 0")
    case True
    have "span_ok (xs @ [x]) (if cl = 0 then i else cs) (cl + 1)"
      using ok True by (auto simp: span_ok_def nth_append)
    then show ?thesis using ok ext True unfolding fold_append comp_apply f by (auto simp: span_step_def Let_def)
  next
    case False
    then show ?thesis using ok ext unfolding fold_append comp_apply f by (simp add: span_step_def span_ok_def)
  qed
qed

lemma zero_span_ok: "zero_span segs = (st, ln) \<Longrightarrow> span_ok segs st ln"
  using span_fold [of segs] unfolding zero_span_def by (auto split: prod.splits)

lemma span_split:
  assumes "span_ok segs st ln"
  shows "segs = take st segs @ replicate ln 0 @ drop (st + ln) segs"
proof -
  have "take ln (drop st segs) = replicate ln 0"
    using assms by (intro nth_equalityI) (auto simp: span_ok_def)
  then show ?thesis by (metis append_take_drop_id drop_drop add.commute)
qed

text \<open>The groups of a text before its first and after its last empty piece.\<close>

lemma takeWhile_pieces:
  assumes "\<forall>x \<in> set xs. x \<noteq> []"
  shows "takeWhile (\<lambda>p. p \<noteq> []) ((if xs = [] then [[]] else xs) @ [] # ys) = xs"
  using assms by (auto simp: takeWhile_append2 takeWhile_append)

lemma split_on_join_append:
  "\<forall>x \<in> set xs. sep \<notin> set x \<Longrightarrow>
   split_on sep (join [sep] xs @ sep # ys) = (if xs = [] then [[]] else xs) @ split_on sep ys"
  by (induction "[sep]" xs rule: join.induct) (auto simp: split_on_append)

text \<open>The eight groups, recovered from the pieces between the colons.\<close>

definition ipv6_groups :: "string list \<Rightarrow> string list" where
  "ipv6_groups ps = (let before = takeWhile (\<lambda>p. p \<noteq> []) ps; after = rev (takeWhile (\<lambda>p. p \<noteq> []) (rev ps))
     in if [] \<in> set ps then before @ replicate (8 - length before - length after) (show_hex 0) @ after else ps)"

lemma ipv6_groups_pieces:
  assumes "take 6 (segments a) \<noteq> [0, 0, 0, 0, 0, 0xFFFF]"
  shows "ipv6_groups (split_on (CHR '':'') (show_ipv6 a)) = map (\<lambda>s. show_hex (unat s)) (segments a)"
proof -
  let ?h = "map (\<lambda>s :: u16. show_hex (unat s))" and ?segs = "segments a"
  have hno: "\<forall>x \<in> set (?h xs). CHR '':'' \<notin> set x" for xs by (auto simp: show_hex_no)
  obtain st ln where sp: "zero_span ?segs = (st, ln)" by (cases "zero_span ?segs")
  show ?thesis
  proof (cases "1 < ln")
    case True
    let ?B = "?h (take st ?segs)" and ?A = "?h (drop (st + ln) ?segs)"
    note ok = zero_span_ok [OF sp]
    have "show_ipv6 a = join '':'' ?B @ CHR '':'' # CHR '':'' # join '':'' ?A"
      using assms sp True by (simp add: show_ipv6_def Let_def)
    then have ps: "split_on (CHR '':'') (show_ipv6 a) = (if ?B = [] then [[]] else ?B) @ [] # (if ?A = [] then [[]] else ?A)"
      using split_on_join_append [OF hno, of "take st ?segs"] split_on_join [OF hno, of "drop (st + ln) ?segs"]
      by simp
    have B: "takeWhile (\<lambda>p. p \<noteq> []) (split_on (CHR '':'') (show_ipv6 a)) = ?B"
      unfolding ps by (rule takeWhile_pieces) auto
    have "rev (split_on (CHR '':'') (show_ipv6 a)) = (if rev ?A = [] then [[]] else rev ?A) @ [] # rev (if ?B = [] then [[]] else ?B)"
      unfolding ps by simp
    then have A: "takeWhile (\<lambda>p. p \<noteq> []) (rev (split_on (CHR '':'') (show_ipv6 a))) = rev ?A"
      using takeWhile_pieces [of "rev ?A"] by simp
    have "?h ?segs = ?B @ replicate ln (show_hex 0) @ ?A"
      using arg_cong [OF span_split [OF ok], of ?h] by simp
    moreover have "8 - length ?B - length ?A = ln" using ok by (simp add: span_ok_def)
    moreover have "[] \<in> set (split_on (CHR '':'') (show_ipv6 a))" unfolding ps by simp
    ultimately show ?thesis unfolding ipv6_groups_def Let_def A B by simp
  next
    case False
    then have "split_on (CHR '':'') (show_ipv6 a) = ?h ?segs"
      using assms sp split_on_join [OF hno, of ?segs] by (simp add: show_ipv6_def Let_def)
    moreover have "[] \<notin> set (?h ?segs)" by (metis (no_types, lifting) imageE list.set_map show_not_Nil(2))
    ultimately show ?thesis by (simp only: ipv6_groups_def Let_def if_False)
  qed
qed

lemma show_ipv6_inj:
  assumes eq: "show_ipv6 a = show_ipv6 b"
  shows "a = b"
proof -
  let ?m = "\<lambda>x. take 6 (segments x) = [0, 0, 0, 0, 0, 0xFFFF]"
  let ?h = "map (\<lambda>s :: u16. show_hex (unat s))"
  let ?P = "\<lambda>x. split_on (CHR '':'') (show_ipv6 x)"
  have hno: "\<forall>x \<in> set (?h xs). CHR '':'' \<notin> set x \<and> x \<noteq> []" for xs by (auto simp: show_hex_no)
  have hinj: "?h xs = ?h ys \<Longrightarrow> xs = ys" for xs ys
    by (erule map_injective) (auto intro: injI simp: word_unat_eq_iff)
  have dot: "CHR ''.'' \<in> set (show_ipv6 x) \<longleftrightarrow> ?m x" for x
  proof
    have v4: "CHR ''.'' \<in> set (show_ipv4 y)" for y
    proof -
      obtain o1 o2 os where "octets y = o1 # o2 # os"
        using length_octets [of y] by (cases "octets y"; cases "tl (octets y)") auto
      then show ?thesis by (simp add: show_ipv4_def)
    qed
    show "?m x \<Longrightarrow> CHR ''.'' \<in> set (show_ipv6 x)" using v4 by (simp add: show_ipv6_def)
    have nj: "CHR ''.'' \<notin> set (join '':'' (?h xs))" for xs
      using set_join [of "'':''" "?h xs"] show_hex_no(1) by auto
    show "CHR ''.'' \<in> set (show_ipv6 x) \<Longrightarrow> ?m x"
      using nj by (auto simp: show_ipv6_def Let_def split: if_splits prod.splits)
  qed
  show ?thesis
  proof (cases "?m a")
    case True
    then have mb: "?m b" using dot eq by metis
    have "show_ipv4 (ucast a) = show_ipv4 (ucast b)" using eq True mb by (simp add: show_ipv6_def)
    then have low: "(ucast a :: u32) = ucast b" by (rule show_ipv4_inj)
    have "segments a ! i = segments b ! i" if "i < 8" for i
    proof (cases "i < 6")
      case True
      then show ?thesis using \<open>?m a\<close> mb by (metis nth_take)
    next
      case False
      then have "112 - 16 * i = 0 \<or> 112 - 16 * i = 16" using that by auto
      moreover have "(ucast (drop_bit k x) :: u16) = ucast (drop_bit k (ucast x :: u32))" if "k = 0 \<or> k = 16" for k and x :: "128 word"
        using that by (auto intro!: bit_word_eqI simp: bit_unsigned_iff bit_drop_bit_eq)
      ultimately show ?thesis using that low by (simp add: segments_def)
    qed
    then have "segments a = segments b" by (intro nth_equalityI) simp_all
    then show ?thesis by (rule segments_inj)
  next
    case False
    then have mb: "\<not> ?m b" using dot eq by metis
    have "?h (segments a) = ?h (segments b)"
      using ipv6_groups_pieces [OF False] ipv6_groups_pieces [OF mb] eq by metis
    then show ?thesis by (intro segments_inj hinj)
  qed
qed

lemma show_ip_inj [simp]: "show_ip x = show_ip y \<longleftrightarrow> x = y"
proof -
  have colon: "CHR '':'' \<in> set (show_ipv6 a)" for a
  proof -
    obtain s1 s2 ss where "segments a = s1 # s2 # ss"
      using length_segments [of a] by (cases "segments a"; cases "tl (segments a)") auto
    then show ?thesis by (cases "zero_span (segments a)") (simp add: show_ipv6_def Let_def)
  qed
  have "show_ipv4 a \<noteq> show_ipv6 b" for a b using colon show_ipv4_no_colon by metis
  then show ?thesis
    by (cases x; cases y) (auto simp: show_ip_def dest: show_ipv4_inj show_ipv6_inj not_sym)
qed

lemma protocol_name_inj [simp]: "protocol_name p = protocol_name q \<longleftrightarrow> p = q"
proof -
  have "CHR ''c'' \<notin> set (show_nat n)" "CHR ''p'' \<notin> set (show_nat n)" for n
    using show_nat_chars [of "CHR ''c''" n] show_nat_chars [of "CHR ''p''" n] by auto
  then have "show_nat n \<noteq> ''icmp''" "show_nat n \<noteq> ''tcp''" "show_nat n \<noteq> ''udp''" "show_nat n \<noteq> ''icmpv6''" for n
    by (metis list.set_intros)+
  note ne = this this [symmetric]
  show ?thesis using ne by (simp add: protocol_name_def word_unat_eq_iff [symmetric])
qed

lemma Direction_name_inj [simp]: "Direction_name a = Direction_name b \<longleftrightarrow> a = b"
  by (cases a; cases b) (simp_all add: Direction_name_def)

section \<open>Properties\<close>

text \<open>The raw values of a field agree.\<close>

definition same_field :: "flow_event \<Rightarrow> flow_event \<Rightarrow> field \<Rightarrow> bool" where
  "same_field e e' f = (case f of SrcIp \<Rightarrow> src_ip e = src_ip e' | DstIp \<Rightarrow> dst_ip e = dst_ip e'
     | SrcPort \<Rightarrow> src_port e = src_port e' | DstPort \<Rightarrow> dst_port e = dst_port e'
     | Protocol \<Rightarrow> protocol e = protocol e' | TcpFlags \<Rightarrow> tcp_flags e = tcp_flags e'
     | Direction \<Rightarrow> direction e = direction e' | Bytes \<Rightarrow> ev_bytes e = ev_bytes e'
     | Packets \<Rightarrow> packets e = packets e' | InterfaceIndex \<Rightarrow> interface_index e = interface_index e'
     | NodeId \<Rightarrow> node_id e = node_id e')"

lemma field_extract_same: "field_extract f e = field_extract f e' \<longleftrightarrow> same_field e e' f"
  by (cases f) (simp_all add: field_extract_def same_field_def word_unat_eq_iff [symmetric])

text \<open>
  C31: group keys identify groups.  Encoding the group key never fails, and for every list of
  fields two events have the same key if and only if they agree on the raw value of every field
  of the list, whatever the addresses (IPv4, IPv6, mapped IPv6) are.
\<close>

theorem group_keys_identify_groups:
  "\<exists>key key'. group_key fs e = Some key \<and> group_key fs e' = Some key'
     \<and> (key = key' \<longleftrightarrow> (\<forall>f \<in> set fs. same_field e e' f))"
proof -
  have "key_of (map (\<lambda>f. ascii (field_extract f e)) fs) = key_of (map (\<lambda>f. ascii (field_extract f e')) fs)
      \<longleftrightarrow> map (\<lambda>f. ascii (field_extract f e)) fs = map (\<lambda>f. ascii (field_extract f e')) fs"
    by (cases "fs = []", simp, metis split_group_key_eq)
  then show ?thesis by (simp add: group_key_eq field_extract_same)
qed

theorem group_keys_identify_groups_witness:
  "group_key [SrcIp, Protocol] FlowEvent_default \<noteq> group_key [SrcIp, Protocol] (FlowEvent_default\<lparr>protocol := 6\<rparr>)"
  using group_keys_identify_groups [of "[SrcIp, Protocol]" FlowEvent_default "FlowEvent_default\<lparr>protocol := 6\<rparr>"]
  by (auto simp: same_field_def FlowEvent_default_def)

text \<open>
  The bytes written by the hot-path encoder split back into the display values of the
  fields, in order: the decoder used for labels recovers what \<^verbatim>\<open>extract\<close> prints.
\<close>

lemma group_key_splits_into_field_values:
  assumes "fs \<noteq> []"
  shows "\<exists>key. group_key_into fs e out = Some key
    \<and> split_group_key key = map (\<lambda>f. ascii (field_extract f e)) fs"
  using group_key_eq [of fs e] split_group_key_eq [OF assms, of e] by (simp add: group_key_def group_key_into_def)

lemma length_join: "\<forall>x \<in> set xs. length x \<le> n \<Longrightarrow> length (join [c] xs) \<le> n * length xs + (length xs - 1)"
  by (induction "[c]" xs rule: join.induct) auto

lemma length_show_ipv4: "length (show_ipv4 a) \<le> 15"
proof -
  have "length (show_nat (unat b)) \<le> 3" for b :: u8
    using unsigned_less [of b, where 'a = nat] by (intro length_show_nat) simp_all
  then have "length (join ''.'' (map (\<lambda>b. show_nat (unat b)) (octets a))) \<le> 3 * 4 + (4 - 1)"
    using length_join [of "map (\<lambda>b. show_nat (unat b)) (octets a)" 3 "CHR ''.''"] by simp
  then show ?thesis by (simp add: show_ipv4_def)
qed

lemma length_show_ip: "length (show_ip ip) \<le> 39"
proof (cases ip)
  case (V4 a)
  then show ?thesis using length_show_ipv4 [of a] by (simp add: show_ip_def)
next
  case (V6 a)
  let ?h = "map (\<lambda>s :: u16. show_hex (unat s))"
  have "length (show_hex (unat s)) \<le> 4" for s :: u16
    using unsigned_less [of s, where 'a = nat] by (intro length_show_hex) simp_all
  then have j: "length (join '':'' (?h xs)) \<le> 4 * length xs + (length xs - 1)" for xs
    using length_join [of "?h xs" 4 "CHR '':''"] by simp
  have "length (show_ipv6 a) \<le> 39"
  proof (cases "zero_span (segments a)")
    case (Pair st ln)
    have "st + ln \<le> 8" using zero_span_ok [OF Pair] by (simp add: span_ok_def)
    then show ?thesis
      using Pair j [of "take st (segments a)"] j [of "drop (st + ln) (segments a)"] j [of "segments a"]
        length_show_ipv4 [of "ucast a"] by (auto simp: show_ipv6_def Let_def)
  qed
  then show ?thesis using V6 by (simp add: show_ip_def)
qed

lemma length_extract: "length (field_extract f e) \<le> max_encoded_len f"
proof -
  have b: "unat (x :: u8) < 10 ^ 3" "unat (y :: u16) < 10 ^ 5" "unat (z :: u32) < 10 ^ 10" "unat (v :: u64) < 10 ^ 20" for x y z v
    using unsigned_less [of x, where 'a = nat] unsigned_less [of y, where 'a = nat] unsigned_less [of z, where 'a = nat]
      less_trans [OF u64_less_exp [of v], of "10 ^ 20"] by simp_all
  have "length (protocol_name p) \<le> 6" for p
    using length_show_nat [OF b(1) [of p]] by (simp add: protocol_name_def)
  moreover have "length (Direction_name d) \<le> 7" for d by (simp add: Direction_name_def split: direction.split)
  ultimately show ?thesis
    using b by (cases f) (simp_all add: field_extract_def max_encoded_len_def length_show_ip length_show_nat)
qed

text \<open>
  No group key is longer than the bound the planner charges for it: the sum of the
  declared maximum field lengths plus one separator between fields.
\<close>

lemma group_key_length_bound:
  "\<exists>key. group_key fs e = Some key \<and> length key \<le> sum_list (map max_encoded_len fs) + (length fs - 1)"
proof -
  have "length (key_of (map (\<lambda>f. ascii (field_extract f e)) fs)) \<le> sum_list (map max_encoded_len fs) + (length fs - 1)"
  proof (induction fs)
    case (Cons f fs)
    then show ?case using length_extract [of f e] by (cases fs) simp_all
  qed simp
  then show ?thesis by (simp add: group_key_eq)
qed

lemma field_name_round_trip: "Field_from_str (Field_name f) = Inr f"
  by (cases f) (simp_all add: Field_from_str_def Field_name_def)

lemma field_from_str_name: "Field_from_str s = Inr f \<Longrightarrow> s = Field_name f"
  by (auto simp: Field_from_str_def Field_name_def split: if_splits)

end
