(* ===== verification/QueryIr.thy ===== *)
theory QueryIr
  imports Field Float64
begin

text \<open>
  \<^verbatim>\<open>flowsketch-ir/src/logical.rs\<close>, \<^verbatim>\<open>physical.rs\<close> and \<^verbatim>\<open>yaml.rs\<close>: logical
  queries, physical sketch configurations and the validation of a deserialised query document.

  The deserialiser (serde and \<^verbatim>\<open>serde_yaml\<close>) is a parameter that yields a \<open>raw_query\<close>.
  Text is ASCII.  Floats are only compared (\<^verbatim>\<open>Float64\<close>). A \<^verbatim>\<open>usize\<close> is 64 bits wide.

  Shown here: what \<^verbatim>\<open>into_logical\<close> accepts is a valid query, and durations printed by
  \<^verbatim>\<open>humanize_nanos\<close> are parsed back exactly.
\<close>

section \<open>Logical queries\<close>

record window_spec =
  size_nanos :: u64
  slide_nanos :: u64

definition tumbling :: "u64 \<Rightarrow> window_spec" where
  "tumbling sz = \<lparr>size_nanos = sz, slide_nanos = sz\<rparr>"

text \<open>Division by a zero slide panics.\<close>

definition bucket_count :: "window_spec \<Rightarrow> nat option" where
  "bucket_count w = (if slide_nanos w = 0 then None else Some (unat (max (size_nanos w div slide_nanos w) 1)))"

definition humanize_nanos :: "u64 \<Rightarrow> string" where
  "humanize_nanos n =
     (if n mod 3600000000000 = 0 \<and> 3600000000000 \<le> n then show_nat (unat (n div 3600000000000)) @ ''h''
      else if n mod 60000000000 = 0 \<and> 120000000000 \<le> n then show_nat (unat (n div 60000000000)) @ ''m''
      else if n mod 1000000000 = 0 then show_nat (unat (n div 1000000000)) @ ''s''
      else if n mod 1000000 = 0 then show_nat (unat (n div 1000000)) @ ''ms''
      else show_nat (unat n) @ ''ns'')"

record error_spec =
  epsilon :: f64
  delta :: f64

text \<open>The doubles nearest to 0.001 and 0.01.\<close>

definition ErrorSpec_default :: error_spec where
  "ErrorSpec_default = \<lparr>epsilon = Fin (1152921504606847 / 1152921504606846976),
     delta = Fin (5764607523034235 / 576460752303423488)\<rparr>"

datatype measure =
    Count
  | Sum field
  | HeavyHitters field nat
  | DistinctCount field
  | Entropy field
  | Quantile field f64

definition Measure_name :: "measure \<Rightarrow> string" where
  "Measure_name m = (case m of Count \<Rightarrow> ''count'' | Sum _ \<Rightarrow> ''sum'' | HeavyHitters _ _ \<Rightarrow> ''heavy_hitters''
     | DistinctCount _ \<Rightarrow> ''distinct_count'' | Entropy _ \<Rightarrow> ''entropy'' | Quantile _ _ \<Rightarrow> ''quantile'')"

record predicate =
  p_protocol :: "u8 option"
  p_dst_ports :: "u16 list"
  p_src_ports :: "u16 list"
  p_interfaces :: "u32 list"

definition Predicate_default :: predicate where
  "Predicate_default = \<lparr>p_protocol = None, p_dst_ports = [], p_src_ports = [], p_interfaces = []\<rparr>"

definition Predicate_matches :: "predicate \<Rightarrow> flow_event \<Rightarrow> bool" where
  "Predicate_matches p e =
     (if (case p_protocol p of Some q \<Rightarrow> protocol e \<noteq> q | None \<Rightarrow> False) then False
      else if p_dst_ports p \<noteq> [] \<and> dst_port e \<notin> set (p_dst_ports p) then False
      else if p_src_ports p \<noteq> [] \<and> src_port e \<notin> set (p_src_ports p) then False
      else if p_interfaces p \<noteq> [] \<and> interface_index e \<notin> set (p_interfaces p) then False
      else True)"

definition Predicate_is_empty :: "predicate \<Rightarrow> bool" where
  "Predicate_is_empty p = (p_protocol p = None \<and> p_dst_ports p = [] \<and> p_src_ports p = [] \<and> p_interfaces p = [])"

record alert_spec =
  alert_gt :: "f64 option"
  alert_lt :: "f64 option"

definition alert_fires :: "alert_spec \<Rightarrow> f64 \<Rightarrow> bool" where
  "alert_fires a v = ((case alert_gt a of Some t \<Rightarrow> f64_lt t v | None \<Rightarrow> False)
     \<or> (case alert_lt a of Some t \<Rightarrow> f64_lt v t | None \<Rightarrow> False))"

definition alert_is_empty :: "alert_spec \<Rightarrow> bool" where
  "alert_is_empty a = (alert_gt a = None \<and> alert_lt a = None)"

record export_spec =
  prometheus :: bool
  max_series :: nat

definition ExportSpec_default :: export_spec where
  "ExportSpec_default = \<lparr>prometheus = True, max_series = 1000\<rparr>"

record logical_query =
  lq_name :: string
  lq_filter :: predicate
  lq_group_by :: "field list"
  lq_measure :: measure
  lq_window :: window_spec
  lq_error :: error_spec
  lq_alert :: alert_spec
  lq_export :: export_spec
  lq_max_memory_bytes :: u64

section \<open>Physical sketches\<close>

datatype physical_sketch =
    PCountMin nat nat bool
  | PCountSketch nat nat
  | PSpaceSaving nat
  | PMisraGries nat
  | PHyperLogLog u8
  | PHllMap nat u8
  | PKll nat
  | PComposite "physical_sketch list"

fun algorithm_name :: "physical_sketch \<Rightarrow> string" where
  "algorithm_name (PCountMin _ _ _) = ''count-min''"
| "algorithm_name (PCountSketch _ _) = ''count-sketch''"
| "algorithm_name (PSpaceSaving _) = ''spacesaving''"
| "algorithm_name (PMisraGries _) = ''misra-gries''"
| "algorithm_name (PHyperLogLog _) = ''hll''"
| "algorithm_name (PHllMap _ _) = ''hllmap''"
| "algorithm_name (PKll _) = ''kll''"
| "algorithm_name (PComposite stages) = join ''+'' (map algorithm_name stages)"

text \<open>All arithmetic is 64-bit and wraps; \<^verbatim>\<open>1u64 << precision\<close> shifts by \<open>precision mod 64\<close>.\<close>

fun estimated_memory_bytes :: "physical_sketch \<Rightarrow> nat \<Rightarrow> u64" where
  "estimated_memory_bytes (PCountMin w d _) kb = word_of_nat (w * d) * 8 + 64"
| "estimated_memory_bytes (PCountSketch w d) kb = word_of_nat (w * d) * 8 + 64"
| "estimated_memory_bytes (PSpaceSaving c) kb = word_of_nat c * (word_of_nat kb + 192) + 128"
| "estimated_memory_bytes (PMisraGries c) kb = word_of_nat c * (word_of_nat kb + 16 + 48) + 64"
| "estimated_memory_bytes (PHyperLogLog p) kb = push_bit (unat p mod 64) 1 + 64"
| "estimated_memory_bytes (PHllMap k p) kb =
     word_of_nat k * (push_bit (unat p mod 64) 1 + 2 * word_of_nat kb + 48 + 32) + 64"
| "estimated_memory_bytes (PKll k) kb = word_of_nat k * 3 * 8 + 64"
| "estimated_memory_bytes (PComposite stages) kb = sum_list (map (\<lambda>s. estimated_memory_bytes s kb) stages)"

fun describe :: "physical_sketch \<Rightarrow> string" where
  "describe (PCountMin w d c) = ''CountMin(width='' @ show_nat w @ '', depth='' @ show_nat d @ '', conservative=''
     @ (if c then ''true'' else ''false'') @ '')''"
| "describe (PCountSketch w d) = ''CountSketch(width='' @ show_nat w @ '', depth='' @ show_nat d @ '')''"
| "describe (PSpaceSaving c) = ''SpaceSaving(capacity='' @ show_nat c @ '')''"
| "describe (PMisraGries c) = ''MisraGries(capacity='' @ show_nat c @ '')''"
| "describe (PHyperLogLog p) = ''HyperLogLog(precision='' @ show_nat (unat p) @ '')''"
| "describe (PHllMap k p) = ''HLLMap(max_keys='' @ show_nat k @ '', precision='' @ show_nat (unat p) @ '')''"
| "describe (PKll k) = ''KLL(k='' @ show_nat k @ '')''"
| "describe (PComposite stages) = ''Composite['' @ join '' + '' (map describe stages) @ '']''"

section \<open>The query document\<close>

datatype query_parse_error = Yaml string | Invalid string

type_synonym 'a parsed = "query_parse_error + 'a"

datatype yaml_value = YString string | YNumber "u64 option" | YOther

datatype ports = One u16 | Many "u16 list"

definition ports_into_vec :: "ports \<Rightarrow> u16 list" where
  "ports_into_vec p = (case p of One x \<Rightarrow> [x] | Many xs \<Rightarrow> xs)"

record raw_window =
  rw_size :: string
  rw_slide :: "string option"

record raw_match =
  rm_protocol :: "yaml_value option"
  rm_dst_port :: "ports option"
  rm_src_port :: "ports option"
  rm_interfaces :: "u32 list option"

record raw_error =
  re_epsilon :: "f64 option"
  re_delta :: "f64 option"

record raw_measure =
  ms_type :: string
  ms_value :: "string option"
  ms_field :: "string option"
  ms_limit :: "nat option"
  ms_q :: "f64 option"
  ms_error :: "raw_error option"

record raw_export =
  rx_prometheus :: "bool option"
  rx_max_series :: "nat option"

record raw_query =
  rq_name :: string
  rq_window :: raw_window
  rq_match :: "raw_match option"
  rq_group_by :: "string list"
  rq_measure :: raw_measure
  rq_alert_if :: "alert_spec option"
  rq_export :: "raw_export option"
  rq_max_memory :: "string option option"

subsection \<open>Text helpers of the standard library\<close>

definition is_space :: "char \<Rightarrow> bool" where
  "is_space c = (let n = of_char c :: nat in n = 32 \<or> 9 \<le> n \<and> n \<le> 13)"

definition trim :: "string \<Rightarrow> string" where
  "trim s = rev (dropWhile is_space (rev (dropWhile is_space s)))"

definition is_digit :: "char \<Rightarrow> bool" where
  "is_digit c = (let n = of_char c :: nat in 48 \<le> n \<and> n \<le> 57)"

definition is_alnum :: "char \<Rightarrow> bool" where
  "is_alnum c = (let n = of_char c :: nat in 48 \<le> n \<and> n \<le> 57 \<or> 65 \<le> n \<and> n \<le> 90 \<or> 97 \<le> n \<and> n \<le> 122)"

definition ascii_lower :: "char \<Rightarrow> char" where
  "ascii_lower c = (let n = of_char c :: nat in if 65 \<le> n \<and> n \<le> 90 then char_of (n + 32) else c)"

text \<open>\<^verbatim>\<open>str::parse\<close> for an unsigned integer of at most \<open>m\<close>: an optional plus sign, then one
  or more digits.\<close>

definition parse_uint :: "nat \<Rightarrow> string \<Rightarrow> nat option" where
  "parse_uint m s =
     (let ds = (case s of c # cs \<Rightarrow> (if c = CHR ''+'' then cs else s) | [] \<Rightarrow> [])
      in if ds = [] \<or> \<not> list_all is_digit ds \<or> m < dec_value ds then None else Some (dec_value ds))"

definition protocol_parse :: "string \<Rightarrow> u8 option" where
  "protocol_parse s =
     (let l = map ascii_lower s
      in if l = ''icmp'' then Some ICMP else if l = ''tcp'' then Some TCP
         else if l = ''udp'' then Some UDP else if l = ''icmpv6'' then Some ICMPV6
         else map_option word_of_nat (parse_uint 255 l))"

text \<open>\<^verbatim>\<open>s.find(|c| !c.is_ascii_digit())\<close> and \<^verbatim>\<open>split_at\<close>: \<open>None\<close> when every
  character is a digit.\<close>

definition split_unit :: "string \<Rightarrow> (string \<times> string) option" where
  "split_unit s = (let num = takeWhile is_digit s in
     if length num = length s then None else Some (num, drop (length num) s))"

definition parse_scaled :: "(string \<Rightarrow> u64 option) \<Rightarrow> string \<Rightarrow> u64 parsed" where
  "parse_scaled scale s0 =
     (let s = trim s0 in
      case split_unit s of
        None \<Rightarrow> Inl (Invalid ''missing a unit'')
      | Some (num, unit) \<Rightarrow>
          (case parse_uint (2 ^ 64 - 1) num of
             None \<Rightarrow> Inl (Invalid ''invalid number'')
           | Some n \<Rightarrow>
               (case scale unit of
                  None \<Rightarrow> Inl (Invalid ''unknown unit'')
                | Some k \<Rightarrow> Inr (word_of_nat n * k))))"

definition duration_scale :: "string \<Rightarrow> u64 option" where
  "duration_scale u =
     (if u = ''ns'' then Some 1 else if u = ''us'' then Some 1000 else if u = ''ms'' then Some 1000000
      else if u = ''s'' then Some 1000000000 else if u = ''m'' then Some (60 * 1000000000)
      else if u = ''h'' then Some (3600 * 1000000000) else None)"

definition memory_scale :: "string \<Rightarrow> u64 option" where
  "memory_scale u =
     (if u = ''B'' then Some 1 else if u = ''KiB'' then Some 1024 else if u = ''MiB'' then Some (1024 * 1024)
      else if u = ''GiB'' then Some (1024 * 1024 * 1024) else None)"

definition parse_duration :: "string \<Rightarrow> u64 parsed" where
  "parse_duration s = parse_scaled duration_scale s"

definition parse_memory :: "string \<Rightarrow> u64 parsed" where
  "parse_memory s = parse_scaled memory_scale s"

subsection \<open>Validation, in the order of the source\<close>

definition MAX_QUERY_NAME_BYTES :: nat where
  "MAX_QUERY_NAME_BYTES = 256"

definition DEFAULT_MAX_MEMORY_BYTES :: u64 where
  "DEFAULT_MAX_MEMORY_BYTES = 128 * 1024 * 1024"

definition check_name :: "string \<Rightarrow> unit parsed" where
  "check_name s =
     (if trim s = [] then Inl (Invalid ''query name is empty'')
      else if MAX_QUERY_NAME_BYTES < length s then Inl (Invalid ''query name is too long'')
      else if \<not> list_all (\<lambda>c. is_alnum c \<or> c = CHR ''_'' \<or> c = CHR ''-'') s
      then Inl (Invalid ''query name must be alphanumeric'') else Inr ())"

definition window_of :: "raw_window \<Rightarrow> window_spec parsed" where
  "window_of w =
     rbind (parse_duration (rw_size w)) (\<lambda>size.
     rbind (case rw_slide w of Some s \<Rightarrow> parse_duration s | None \<Rightarrow> Inr size) (\<lambda>slide.
     if slide = 0 \<or> size = 0 then Inl (Invalid ''window size and slide must be positive'')
     else if size < slide then Inl (Invalid ''window slide must not exceed window size'')
     else if size mod slide \<noteq> 0 then Inl (Invalid ''window size must be a multiple of slide'')
     else Inr \<lparr>size_nanos = size, slide_nanos = slide\<rparr>))"

definition invalid_field :: "string + field \<Rightarrow> field parsed" where
  "invalid_field r = (case r of Inl e \<Rightarrow> Inl (Invalid e) | Inr f \<Rightarrow> Inr f)"

fun parse_fields :: "string list \<Rightarrow> field list parsed" where
  "parse_fields [] = Inr []"
| "parse_fields (s # ss) = rbind (invalid_field (Field_from_str s)) (\<lambda>f. rbind (parse_fields ss) (\<lambda>fs. Inr (f # fs)))"

definition group_by_of :: "string list \<Rightarrow> field list parsed" where
  "group_by_of ss = rbind (parse_fields ss) (\<lambda>fs.
     if distinct fs then Inr fs else Inl (Invalid ''groupBy contains duplicate field''))"

definition protocol_of :: "yaml_value option \<Rightarrow> u8 option parsed" where
  "protocol_of v = (case v of
       None \<Rightarrow> Inr None
     | Some (YString s) \<Rightarrow> (case protocol_parse s of None \<Rightarrow> Inl (Invalid ''unknown protocol'') | Some p \<Rightarrow> Inr (Some p))
     | Some (YNumber None) \<Rightarrow> Inl (Invalid ''protocol number must be 0-255'')
     | Some (YNumber (Some n)) \<Rightarrow> if 255 < n then Inl (Invalid ''protocol number must be 0-255'') else Inr (Some (ucast n))
     | Some YOther \<Rightarrow> Inl (Invalid ''protocol must be a name or number''))"

definition filter_of :: "raw_match option \<Rightarrow> predicate parsed" where
  "filter_of r = (case r of None \<Rightarrow> Inr Predicate_default
     | Some m \<Rightarrow> rbind (protocol_of (rm_protocol m)) (\<lambda>proto.
         Inr \<lparr>p_protocol = proto,
              p_dst_ports = (case rm_dst_port m of None \<Rightarrow> [] | Some p \<Rightarrow> ports_into_vec p),
              p_src_ports = (case rm_src_port m of None \<Rightarrow> [] | Some p \<Rightarrow> ports_into_vec p),
              p_interfaces = (case rm_interfaces m of None \<Rightarrow> [] | Some xs \<Rightarrow> xs)\<rparr>))"

text \<open>0.0163 as a double.\<close>

definition default_epsilon :: "string \<Rightarrow> f64" where
  "default_epsilon ty = (if ty = ''distinct_count'' then Fin (4698155131272901 / 288230376151711744)
     else epsilon ErrorSpec_default)"

definition error_of :: "raw_measure \<Rightarrow> error_spec parsed" where
  "error_of m =
     (let err = (case ms_error m of
          None \<Rightarrow> \<lparr>epsilon = default_epsilon (ms_type m), delta = delta ErrorSpec_default\<rparr>
        | Some e \<Rightarrow> \<lparr>epsilon = (case re_epsilon e of None \<Rightarrow> default_epsilon (ms_type m) | Some x \<Rightarrow> x),
                     delta = (case re_delta e of None \<Rightarrow> delta ErrorSpec_default | Some x \<Rightarrow> x)\<rparr>)
      in if \<not> in_unit (epsilon err) then Inl (Invalid ''error.epsilon must be in (0, 1)'')
         else if \<not> in_unit (delta err) then Inl (Invalid ''error.delta must be in (0, 1)'')
         else Inr err)"

definition parse_field :: "string option \<Rightarrow> field parsed" where
  "parse_field n = (case n of None \<Rightarrow> Inl (Invalid ''measure type requires a field'')
     | Some s \<Rightarrow> invalid_field (Field_from_str s))"

definition measure_of :: "raw_measure \<Rightarrow> measure parsed" where
  "measure_of m =
     (if ms_type m = ''count'' then Inr Count
      else if ms_type m = ''sum'' then
        rbind (parse_field (case ms_value m of Some v \<Rightarrow> Some v | None \<Rightarrow> ms_field m)) (\<lambda>v.
        if \<not> is_numeric_measure v then Inl (Invalid ''sum requires a numeric field'') else Inr (Sum v))
      else if ms_type m = ''heavy_hitters'' then
        rbind (parse_field (ms_value m)) (\<lambda>v.
        if \<not> is_numeric_measure v then Inl (Invalid ''heavy_hitters requires a numeric value field'') else
        let limit = (case ms_limit m of None \<Rightarrow> 100 | Some l \<Rightarrow> l) in
        if limit = 0 then Inl (Invalid ''heavy_hitters limit must be positive'') else Inr (HeavyHitters v limit))
      else if ms_type m = ''distinct_count'' then rbind (parse_field (ms_field m)) (\<lambda>f. Inr (DistinctCount f))
      else if ms_type m = ''entropy'' then rbind (parse_field (ms_field m)) (\<lambda>f. Inr (Entropy f))
      else if ms_type m = ''quantile'' then
        rbind (parse_field (ms_field m)) (\<lambda>f.
        if \<not> is_numeric_measure f then Inl (Invalid ''quantile requires a numeric field'')
        else Inr (Quantile f (case ms_q m of None \<Rightarrow> Fin (1 / 2) | Some q \<Rightarrow> q)))
      else Inl (Invalid ''unknown measure type''))"

definition check_measure :: "measure \<Rightarrow> field list \<Rightarrow> unit parsed" where
  "check_measure m gs =
     (if (case m of HeavyHitters _ _ \<Rightarrow> gs = [] | _ \<Rightarrow> False) then Inl (Invalid ''heavy_hitters requires groupBy fields'')
      else case m of DistinctCount f \<Rightarrow>
          if f \<in> set gs then Inl (Invalid ''distinct_count field must not also appear in groupBy'') else Inr ()
        | _ \<Rightarrow> Inr ())"

definition export_of :: "raw_export option \<Rightarrow> export_spec parsed" where
  "export_of r =
     (let x = (case r of None \<Rightarrow> ExportSpec_default
        | Some e \<Rightarrow> \<lparr>prometheus = (case rx_prometheus e of None \<Rightarrow> prometheus ExportSpec_default | Some b \<Rightarrow> b),
                     max_series = (case rx_max_series e of None \<Rightarrow> max_series ExportSpec_default | Some n \<Rightarrow> n)\<rparr>)
      in if max_series x = 0 then Inl (Invalid ''export.maxSeries must be positive'') else Inr x)"

definition max_memory_of :: "string option option \<Rightarrow> u64 parsed" where
  "max_memory_of r = (case Option.bind r id of None \<Rightarrow> Inr DEFAULT_MAX_MEMORY_BYTES | Some s \<Rightarrow> parse_memory s)"

definition into_logical :: "raw_query \<Rightarrow> logical_query parsed" where
  "into_logical raw =
     rbind (check_name (rq_name raw)) (\<lambda>_.
     rbind (window_of (rq_window raw)) (\<lambda>w.
     rbind (group_by_of (rq_group_by raw)) (\<lambda>gs.
     rbind (filter_of (rq_match raw)) (\<lambda>flt.
     rbind (error_of (rq_measure raw)) (\<lambda>err.
     rbind (measure_of (rq_measure raw)) (\<lambda>m.
     rbind (check_measure m gs) (\<lambda>_.
     let alert = (case rq_alert_if raw of None \<Rightarrow> \<lparr>alert_gt = None, alert_lt = None\<rparr> | Some a \<Rightarrow> a) in
     rbind (export_of (rq_export raw)) (\<lambda>x.
     rbind (max_memory_of (rq_max_memory raw)) (\<lambda>mem.
     Inr \<lparr>lq_name = rq_name raw, lq_filter = flt, lq_group_by = gs, lq_measure = m, lq_window = w,
          lq_error = err, lq_alert = alert, lq_export = x, lq_max_memory_bytes = mem\<rparr>)))))))))"

definition parse_query_yaml :: "(string \<Rightarrow> string + raw_query) \<Rightarrow> string \<Rightarrow> logical_query parsed" where
  "parse_query_yaml from_str yaml = (case from_str yaml of Inl e \<Rightarrow> Inl (Yaml e) | Inr raw \<Rightarrow> into_logical raw)"

section \<open>Durations\<close>

lemma is_digit_chars: "c \<in> set (show_nat n) \<Longrightarrow> is_digit c"
  using show_nat_chars [of c n] by (auto simp: is_digit_def)

lemma digit_not_space: "is_digit c \<Longrightarrow> \<not> is_space c"
  by (auto simp: is_digit_def is_space_def Let_def)

lemma trim_id:
  assumes "s \<noteq> []" "\<not> is_space (hd s)" "\<not> is_space (last s)"
  shows "trim s = s"
proof -
  have "dropWhile is_space s = s" using assms(1,2) by (cases s) auto
  moreover have "dropWhile is_space (rev s) = rev s"
    using assms(1,3) by (cases s rule: rev_cases) auto
  ultimately show ?thesis by (simp add: trim_def)
qed

lemma split_unit_show:
  assumes "u \<noteq> []" "\<not> is_digit (hd u)"
  shows "split_unit (show_nat n @ u) = Some (show_nat n, u)"
proof -
  have "takeWhile is_digit (show_nat n @ u) = show_nat n"
    using assms by (subst takeWhile_append2) (auto simp: is_digit_chars takeWhile_eq_Nil_iff)
  then show ?thesis using assms(1) by (simp add: split_unit_def)
qed

lemma parse_uint_show: "n \<le> m \<Longrightarrow> parse_uint m (show_nat n) = Some n"
proof -
  assume n: "n \<le> m"
  obtain c cs where s: "show_nat n = c # cs" using show_not_Nil(1) [of n] by (cases "show_nat n") auto
  have "is_digit c" using is_digit_chars [of c n] s by simp
  then have "c \<noteq> CHR ''+''" by (auto simp: is_digit_def)
  then show ?thesis using n dec_value_show [of n] is_digit_chars [of _ n]
    by (simp add: parse_uint_def s Let_def list_all_iff)
qed

lemma parse_scaled_show:
  assumes "u \<noteq> []" "\<not> is_digit (hd u)" "\<not> is_space (last u)" "scale u = Some k" "n < 2 ^ 64"
  shows "parse_scaled scale (show_nat n @ u) = Inr (word_of_nat n * k)"
proof -
  have "hd (show_nat n @ u) \<in> set (show_nat n)" by (cases "show_nat n") simp_all
  then have "\<not> is_space (hd (show_nat n @ u))" using is_digit_chars digit_not_space by blast
  then have "trim (show_nat n @ u) = show_nat n @ u" using assms(1,3) by (intro trim_id) simp_all
  then show ?thesis
    using assms split_unit_show [OF assms(1,2)] parse_uint_show [of n "2 ^ 64 - 1"]
    by (simp add: parse_scaled_def)
qed

lemma parse_duration_show:
  assumes "duration_scale u = Some k" "n < 2 ^ 64"
  shows "parse_duration (show_nat n @ u) = Inr (word_of_nat n * k)"
proof -
  have "u \<in> {''ns'', ''us'', ''ms'', ''s'', ''m'', ''h''}"
    using assms(1) by (simp add: duration_scale_def split: if_splits)
  then have "u \<noteq> [] \<and> \<not> is_digit (hd u) \<and> \<not> is_space (last u)"
    by (auto simp: is_digit_def is_space_def)
  then show ?thesis unfolding parse_duration_def using assms by (intro parse_scaled_show) auto
qed

lemma parse_humanize: "parse_duration (humanize_nanos n) = Inr n"
proof -
  have "word_of_nat (unat (n div c)) * c = n" if "n mod c = 0" for c :: u64
    using div_mult_mod_eq [of n c] that by simp
  moreover have "parse_duration (show_nat (unat m) @ u) = Inr (m * k)" if "duration_scale u = Some k" for m k u
    using parse_duration_show [OF that, of "unat m"] by simp
  ultimately show ?thesis
    by (simp add: humanize_nanos_def duration_scale_def)
qed

text \<open>
  A duration printed for labels and explain output is parsed back exactly, for every
  64-bit number of nanoseconds.
\<close>

lemma humanized_duration_parses_back: "parse_duration (humanize_nanos n) = Inr n"
  by (rule parse_humanize)

text \<open>A size whose product with its unit exceeds 64 bits is accepted with the wrapped value.\<close>

lemma parse_memory_wraps: "parse_memory ''17179869184GiB'' = Inr 0"
  by (simp add: parse_memory_def parse_scaled_def trim_def is_space_def split_unit_def is_digit_def parse_uint_def
      dec_value_def memory_scale_def Let_def)

section \<open>Accepted queries are valid\<close>

definition measure_ok :: "measure \<Rightarrow> field list \<Rightarrow> bool" where
  "measure_ok m gs = (case m of Count \<Rightarrow> True | Sum v \<Rightarrow> is_numeric_measure v
     | HeavyHitters v l \<Rightarrow> is_numeric_measure v \<and> 0 < l \<and> gs \<noteq> [] | DistinctCount f \<Rightarrow> f \<notin> set gs
     | Entropy f \<Rightarrow> True | Quantile f q \<Rightarrow> is_numeric_measure f)"

definition window_ok :: "window_spec \<Rightarrow> bool" where
  "window_ok w \<longleftrightarrow> 0 < slide_nanos w \<and> slide_nanos w \<le> size_nanos w \<and> size_nanos w mod slide_nanos w = 0"

definition query_ok :: "logical_query \<Rightarrow> bool" where
  "query_ok q \<longleftrightarrow> lq_name q \<noteq> [] \<and> length (lq_name q) \<le> MAX_QUERY_NAME_BYTES
     \<and> (\<forall>c \<in> set (lq_name q). is_alnum c \<or> c = CHR ''_'' \<or> c = CHR ''-'')
     \<and> window_ok (lq_window q) \<and> distinct (lq_group_by q) \<and> measure_ok (lq_measure q) (lq_group_by q)
     \<and> in_unit (epsilon (lq_error q)) \<and> in_unit (delta (lq_error q)) \<and> 0 < max_series (lq_export q)"

lemma window_of_ok: "window_of r = Inr w \<Longrightarrow> window_ok w"
  by (auto simp: window_of_def window_ok_def rbind_Inr_iff not_less word_neq_0_conv
      split: if_splits del: mod_0_imp_dvd)

lemma measure_of_ok: "measure_of r = Inr m \<Longrightarrow> check_measure m gs = Inr u \<Longrightarrow> measure_ok m gs"
  by (auto simp: measure_of_def check_measure_def measure_ok_def rbind_Inr_iff Let_def split: if_splits)

lemma check_name_ok:
  "check_name s = Inr u \<Longrightarrow> s \<noteq> [] \<and> length s \<le> MAX_QUERY_NAME_BYTES
     \<and> (\<forall>c \<in> set s. is_alnum c \<or> c = CHR ''_'' \<or> c = CHR ''-'')"
  by (auto simp: check_name_def trim_def list_all_iff split: if_splits)

lemma error_of_ok: "error_of r = Inr e \<Longrightarrow> in_unit (epsilon e) \<and> in_unit (delta e)"
  by (auto simp: error_of_def Let_def split: if_splits)

lemma export_of_ok: "export_of r = Inr x \<Longrightarrow> 0 < max_series x"
  by (auto simp: export_of_def Let_def split: if_splits)

lemma group_by_of_ok: "group_by_of r = Inr gs \<Longrightarrow> distinct gs"
  by (auto simp: group_by_of_def rbind_Inr_iff split: if_splits)

lemma into_logical_ok: "into_logical raw = Inr q \<Longrightarrow> query_ok q"
  by (auto simp: into_logical_def rbind_Inr_iff query_ok_def Let_def
      dest!: check_name_ok window_of_ok error_of_ok export_of_ok group_by_of_ok measure_of_ok)

lemma bucket_count_ok:
  assumes "window_ok w"
  shows "\<exists>n. bucket_count w = Some n \<and> 0 < n \<and> n * unat (slide_nanos w) = unat (size_nanos w)"
proof -
  have w: "0 < unat (slide_nanos w)" "unat (slide_nanos w) \<le> unat (size_nanos w)"
    using assms by (auto simp: window_ok_def word_less_nat_alt word_le_nat_alt)
  have "unat (size_nanos w mod slide_nanos w) = 0" using assms by (simp add: window_ok_def)
  then have d: "unat (slide_nanos w) dvd unat (size_nanos w)" by (simp add: unat_mod_distrib dvd_eq_mod_eq_0)
  have "1 \<le> unat (size_nanos w) div unat (slide_nanos w)" using w div_le_mono [OF w(2), of "unat (slide_nanos w)"] by simp
  then show ?thesis
    using w d by (auto simp: bucket_count_def word_max_unat max_absorb1 unat_div_distrib unat_gt_0 [symmetric])
qed

text \<open>
  C38: every query the YAML layer accepts, whatever the deserialiser returns, is valid: a usable
  name, a window that is a whole positive number of slides (so the bucket ring is exact and its
  division cannot panic), distinct group-by fields, a measure whose fields have the right type
  and do not clash with the grouping, error parameters in (0,1) and a positive series cap.
\<close>

theorem accepted_query_is_valid:
  assumes "parse_query_yaml from_str yaml = Inr q"
  shows "query_ok q \<and> (\<exists>n. bucket_count (lq_window q) = Some n \<and> 0 < n
    \<and> n * unat (slide_nanos (lq_window q)) = unat (size_nanos (lq_window q)))"
proof -
  obtain raw where "into_logical raw = Inr q"
    using assms by (auto simp: parse_query_yaml_def split: sum.splits)
  then have "query_ok q" by (rule into_logical_ok)
  then show ?thesis using bucket_count_ok [of "lq_window q"] by (auto simp: query_ok_def)
qed

definition sample_raw :: raw_query where
  "sample_raw = \<lparr>rq_name = ''flows'', rq_window = \<lparr>rw_size = humanize_nanos 60000000000, rw_slide = Some (humanize_nanos 10000000000)\<rparr>,
     rq_match = None, rq_group_by = [''src.ip''],
     rq_measure = \<lparr>ms_type = ''heavy_hitters'', ms_value = Some ''bytes'', ms_field = None, ms_limit = None,
       ms_q = None, ms_error = None\<rparr>, rq_alert_if = None, rq_export = None, rq_max_memory = None\<rparr>"

lemma sample_raw_accepted: "\<exists>q. into_logical sample_raw = Inr q"
proof -
  have d: "parse_duration (humanize_nanos n) = Inr n" for n by (rule parse_humanize)
  show ?thesis
    by (simp add: into_logical_def sample_raw_def check_name_def trim_def is_space_def is_alnum_def
        MAX_QUERY_NAME_BYTES_def window_of_def d group_by_of_def invalid_field_def Field_from_str_def filter_of_def
        error_of_def default_epsilon_def ErrorSpec_default_def in_unit_def f64_lt_def measure_of_def parse_field_def
        is_numeric_measure_def check_measure_def export_of_def ExportSpec_default_def max_memory_of_def Let_def)
qed

theorem accepted_query_is_valid_witness:
  "\<exists>q. parse_query_yaml (\<lambda>_. Inr sample_raw) ''doc'' = Inr q \<and> query_ok q"
  using sample_raw_accepted accepted_query_is_valid [of "\<lambda>_. Inr sample_raw" "''doc''"]
  by (auto simp: parse_query_yaml_def)

end
