(* ===== verification/Planner.thy ===== *)
theory Planner
  imports QueryIr
begin

text \<open>
  \<^verbatim>\<open>flowsketch-planner/src/lib.rs\<close>: the compilation of a logical query into a physical
  plan, or its rejection.  The floating-point formulas (ceilings of quotients and logarithms) are
  a record of functions \<open>float_ops\<close> that the planner is given; the clamps around them, the memory
  arithmetic (64-bit, wrapping) and every decision are modelled.  Texts keep their fixed part;
  \<^verbatim>\<open>explain\<close> and \<^verbatim>\<open>format_bytes\<close> are presentation only.

  Shown here: an accepted plan whose estimate does not overflow fits the memory budget and never
  exports more series than the cap; stored keys fit the key length the plan charges; grouped
  distinct counts are sized so that the final budget check cannot reject them; and the two inputs
  on which the 64-bit estimate wraps.
\<close>

section \<open>Definitions\<close>

datatype plan_error = Rejected string string

datatype error_kind = AdditiveOverestimate | Relative | CandidateUpperBound | RankError | Heuristic

definition ErrorKind_name :: "error_kind \<Rightarrow> string" where
  "ErrorKind_name k = (case k of AdditiveOverestimate \<Rightarrow> ''additive-overestimate'' | Relative \<Rightarrow> ''relative''
     | CandidateUpperBound \<Rightarrow> ''candidate-upper-bound'' | RankError \<Rightarrow> ''rank-error'' | Heuristic \<Rightarrow> ''heuristic'')"

record physical_plan =
  pp_sketch :: physical_sketch
  pp_window_buckets :: nat
  pp_pending_window_capacity :: nat
  pp_estimated_memory_bytes :: u64
  pp_estimated_state_memory_bytes :: u64
  pp_export_series_upper_bound :: nat
  pp_error_kind :: error_kind
  pp_error_contract :: string
  pp_warnings :: "string list"

record plan =
  plan_query :: logical_query
  plan_physical :: physical_plan

text \<open>Results of the floating-point formulas: \<^verbatim>\<open>(E / epsilon).ceil() as usize\<close>,
  \<^verbatim>\<open>(1.0 / (delta - floor)).ln().ceil() as usize\<close>, \<^verbatim>\<open>(1.0 / epsilon).ceil() as usize\<close>,
  \<^verbatim>\<open>m.log2().ceil() as i64\<close>, \<^verbatim>\<open>(2.3 / epsilon).ceil() as usize\<close>, and whether the
  achieved error exceeds the requested one.\<close>

record float_ops =
  fo_width :: "f64 \<Rightarrow> nat"
  fo_depth :: "f64 \<Rightarrow> nat"
  fo_recip :: "f64 \<Rightarrow> nat"
  fo_log2 :: "f64 \<Rightarrow> int"
  fo_kll :: "f64 \<Rightarrow> nat"
  fo_hll_worse :: "u8 \<Rightarrow> f64 \<Rightarrow> bool"
  fo_kll_worse :: "nat \<Rightarrow> f64 \<Rightarrow> bool"

definition clamp :: "'a::linorder \<Rightarrow> 'a \<Rightarrow> 'a \<Rightarrow> 'a" where
  "clamp lo hi x = (if x < lo then lo else if hi < x then hi else x)"

text \<open>\<^verbatim>\<open>usize\<close> multiplication wraps at 64 bits.\<close>

definition usize_mul :: "nat \<Rightarrow> nat \<Rightarrow> nat" where
  "usize_mul a b = a * b mod 2 ^ 64"

definition maximum_stored_key_bytes :: "logical_query \<Rightarrow> nat" where
  "maximum_stored_key_bytes q =
     (let fs = (case lq_measure q of Entropy f \<Rightarrow> [f] | Quantile _ _ \<Rightarrow> [] | _ \<Rightarrow> lq_group_by q)
      in sum_list (map max_encoded_len fs) + (length fs - 1))"

definition count_min_dimensions :: "float_ops \<Rightarrow> f64 \<Rightarrow> f64 \<Rightarrow> string + nat \<times> nat" where
  "count_min_dimensions fp eps dlt =
     (if \<not> (in_unit eps \<and> in_unit dlt) then Inl ''epsilon and delta must be in (0, 1)''
      else if \<not> f64_lt (Fin (1 / 18446744073709551616)) dlt
      then Inl ''delta must exceed the fsk1 hash confidence floor''
      else Inr (fo_width fp eps, max 1 (fo_depth fp dlt)))"

definition hll_precision_for_error :: "float_ops \<Rightarrow> f64 \<Rightarrow> u8" where
  "hll_precision_for_error fp eps = word_of_int (clamp 4 18 (fo_log2 fp eps))"

definition kll_k_for_error :: "float_ops \<Rightarrow> f64 \<Rightarrow> nat" where
  "kll_k_for_error fp eps = clamp 8 65536 (fo_kll fp eps)"

text \<open>The sketch, the kind and text of its error contract, the series bound and the warnings.\<close>

type_synonym choice = "physical_sketch \<times> error_kind \<times> string \<times> nat \<times> string list"

definition plan_counting :: "float_ops \<Rightarrow> logical_query \<Rightarrow> string + choice" where
  "plan_counting fp q =
     rbind (count_min_dimensions fp (epsilon (lq_error q)) (delta (lq_error q))) (\<lambda>(width, depth).
     let tracker = clamp 256 65536 (usize_mul (max_series (lq_export q)) 4)
     in Inr (PComposite [PSpaceSaving tracker, PCountMin width depth True], AdditiveOverestimate,
          ''estimates never underestimate'', max_series (lq_export q), []))"

definition plan_heavy_hitters :: "float_ops \<Rightarrow> logical_query \<Rightarrow> nat \<Rightarrow> choice" where
  "plan_heavy_hitters fp q limit =
     (let capacity = clamp 256 (2 ^ 20) (max (fo_recip fp (epsilon (lq_error q))) (usize_mul limit 4))
      in (PSpaceSaving capacity, CandidateUpperBound, ''tracked counts are upper bounds'',
          min limit (max_series (lq_export q)),
          if max_series (lq_export q) < limit then [''heavy_hitters limit exceeds export.maxSeries; export cap wins''] else []))"

definition per_key_bytes :: "u8 \<Rightarrow> nat \<Rightarrow> u64" where
  "per_key_bytes precision key_bytes = push_bit (unat precision) 1 + 2 * word_of_nat key_bytes + 48 + 32"

text \<open>\<^verbatim>\<open>per_sketch_budget.saturating_sub(64).checked_div(per_key_bytes).unwrap_or(0)\<close>\<close>

definition budgeted_max_keys :: "u64 \<Rightarrow> u64 \<Rightarrow> u64 \<Rightarrow> nat" where
  "budgeted_max_keys mem resident per_key =
     (let per_sketch = mem div resident
      in if per_key = 0 then 0 else unat ((if per_sketch < 64 then 0 else per_sketch - 64) div per_key))"

definition plan_distinct :: "float_ops \<Rightarrow> logical_query \<Rightarrow> u64 \<Rightarrow> nat \<Rightarrow> string + choice" where
  "plan_distinct fp q resident key_bytes =
     (let eps = epsilon (lq_error q); precision = hll_precision_for_error fp eps; ms = max_series (lq_export q);
          w = (if fo_hll_worse fp precision eps then [''requested epsilon is tighter than the best supported HLL precision''] else [])
      in if lq_group_by q = []
         then Inr (PHyperLogLog precision, Relative, ''relative standard error'', 1, w)
         else
           let preferred = clamp 1024 65536 (usize_mul ms 4);
               budgeted = budgeted_max_keys (lq_max_memory_bytes q) resident (per_key_bytes precision key_bytes);
               minimum = min ms preferred
           in if budgeted < minimum
              then Inl ''resources.maxMemory can retain too few grouped HLL keys''
              else let max_keys = min preferred budgeted
                   in Inr (PHllMap max_keys precision, Relative, ''per-group relative standard error'', min ms max_keys,
                        w @ (if max_keys < preferred then [''HLLMap key retention reduced''] else [])))"

definition plan_entropy :: "float_ops \<Rightarrow> logical_query \<Rightarrow> string + choice" where
  "plan_entropy fp q =
     (if lq_group_by q \<noteq> [] then Inl ''grouped entropy is not supported yet''
      else let capacity = clamp 256 65536 (fo_recip fp (epsilon (lq_error q)));
               precision = hll_precision_for_error fp (default_epsilon ''distinct_count'')
           in Inr (PComposite [PSpaceSaving capacity, PHyperLogLog precision], Heuristic, ''heuristic'', 1, []))"

definition plan_quantile :: "float_ops \<Rightarrow> logical_query \<Rightarrow> f64 \<Rightarrow> string + choice" where
  "plan_quantile fp q x =
     (if lq_group_by q \<noteq> [] then Inl ''grouped quantile is not supported yet''
      else if \<not> ((x = Fin 0 \<or> f64_lt (Fin 0) x) \<and> (x = Fin 1 \<or> f64_lt x (Fin 1)))
      then Inl ''quantile q must be in [0, 1]''
      else let k = kll_k_for_error fp (epsilon (lq_error q))
           in Inr (PKll k, RankError, ''returned value's true rank is near the requested quantile'', 1,
                if fo_kll_worse fp k (epsilon (lq_error q)) then [''requested rank error is tighter than the largest supported KLL''] else []))"

definition plan_choice :: "float_ops \<Rightarrow> logical_query \<Rightarrow> u64 \<Rightarrow> nat \<Rightarrow> string + choice" where
  "plan_choice fp q resident key_bytes = (case lq_measure q of
       Count \<Rightarrow> plan_counting fp q
     | Sum _ \<Rightarrow> plan_counting fp q
     | HeavyHitters _ limit \<Rightarrow> Inr (plan_heavy_hitters fp q limit)
     | DistinctCount _ \<Rightarrow> plan_distinct fp q resident key_bytes
     | Entropy _ \<Rightarrow> plan_entropy fp q
     | Quantile _ x \<Rightarrow> plan_quantile fp q x)"

text \<open>\<open>None\<close> is the panic of \<^verbatim>\<open>bucket_count\<close> on a zero slide.\<close>

definition plan_of :: "float_ops \<Rightarrow> logical_query \<Rightarrow> (plan_error + plan) option" where
  "plan_of fp q =
     map_option (\<lambda>buckets.
       let resident = word_of_nat buckets + word_of_nat buckets + 1 :: u64;
           key_bytes = maximum_stored_key_bytes q;
           reject = (\<lambda>reason. Inl (Rejected (lq_name q) reason))
       in if lq_group_by q \<noteq> [] \<and> alert_lt (lq_alert q) \<noteq> None
          then reject ''alertIf.lt is not sound for grouped queries''
          else case plan_choice fp q resident key_bytes of
            Inl reason \<Rightarrow> reject reason
          | Inr (sketch, kind, contract, series, warnings) \<Rightarrow>
              let per_bucket = estimated_memory_bytes sketch key_bytes;
                  total = per_bucket * resident
              in if lq_max_memory_bytes q < total then reject ''plan needs more than resources.maxMemory''
                 else Inr \<lparr>plan_query = q, plan_physical = \<lparr>pp_sketch = sketch, pp_window_buckets = buckets,
                   pp_pending_window_capacity = buckets, pp_estimated_memory_bytes = total,
                   pp_estimated_state_memory_bytes = per_bucket, pp_export_series_upper_bound = series,
                   pp_error_kind = kind, pp_error_contract = contract,
                   pp_warnings = warnings @ (if list_ex (\<lambda>f. f = SrcIp \<or> f = DstIp) (lq_group_by q)
                     then [''raw IP labels can create high series cardinality in Prometheus''] else [])\<rparr>\<rparr>)
       (bucket_count (lq_window q))"

lemma unat_of_nat_u64: "n < 2 ^ 64 \<Longrightarrow> unat (word_of_nat n :: u64) = n"
  by (simp add: unsigned_of_nat take_bit_nat_eq_self)

lemma unat_less_u64: "unat (a :: u64) < 2 ^ 64"
  by simp

section \<open>Memory in unbounded arithmetic\<close>

fun memory_nat :: "physical_sketch \<Rightarrow> nat \<Rightarrow> nat" where
  "memory_nat (PCountMin w d _) kb = w * d * 8 + 64"
| "memory_nat (PCountSketch w d) kb = w * d * 8 + 64"
| "memory_nat (PSpaceSaving c) kb = c * (kb + 192) + 128"
| "memory_nat (PMisraGries c) kb = c * (kb + 16 + 48) + 64"
| "memory_nat (PHyperLogLog p) kb = 2 ^ (unat p mod 64) + 64"
| "memory_nat (PHllMap k p) kb = k * (2 ^ (unat p mod 64) + 2 * kb + 48 + 32) + 64"
| "memory_nat (PKll k) kb = k * 3 * 8 + 64"
| "memory_nat (PComposite stages) kb = sum_list (map (\<lambda>s. memory_nat s kb) stages)"

lemma push_bit_one_nat: "(push_bit n 1 :: u64) = word_of_nat (2 ^ n)"
  by (simp add: push_bit_eq_mult)

text \<open>The 64-bit estimate is the exact one reduced modulo \<open>2^64\<close>.\<close>

lemma estimated_memory_word: "estimated_memory_bytes s kb = word_of_nat (memory_nat s kb)"
proof (induction s kb rule: estimated_memory_bytes.induct)
  case (8 stages kb)
  then have "sum_list (map (\<lambda>s. estimated_memory_bytes s kb) stages) = sum_list (map (\<lambda>s. word_of_nat (memory_nat s kb)) stages)"
    by (intro arg_cong [where f = sum_list] map_cong) auto
  also have "\<dots> = word_of_nat (sum_list (map (\<lambda>s. memory_nat s kb) stages))"
    by (induction stages) simp_all
  finally show ?case by simp
qed (simp_all add: push_bit_eq_mult algebra_simps)

lemma plan_of_Inr:
  assumes "plan_of fp q = Some (Inr p)"
  obtains n kind contract warnings where
    "bucket_count (lq_window q) = Some n" "plan_query p = q"
    "pp_window_buckets (plan_physical p) = n" "pp_pending_window_capacity (plan_physical p) = n"
    "plan_choice fp q (word_of_nat n + word_of_nat n + 1) (maximum_stored_key_bytes q)
       = Inr (pp_sketch (plan_physical p), kind, contract, pp_export_series_upper_bound (plan_physical p), warnings)"
    "pp_estimated_memory_bytes (plan_physical p)
       = word_of_nat (memory_nat (pp_sketch (plan_physical p)) (maximum_stored_key_bytes q) * (2 * n + 1))"
    "pp_estimated_memory_bytes (plan_physical p) \<le> lq_max_memory_bytes q"
    "lq_group_by q = [] \<or> alert_lt (lq_alert q) = None"
proof -
  obtain n where n: "bucket_count (lq_window q) = Some n" using assms by (auto simp: plan_of_def)
  have "word_of_nat n + word_of_nat n + 1 = (word_of_nat (2 * n + 1) :: u64)" by simp
  then have mem: "estimated_memory_bytes s kb * (word_of_nat n + word_of_nat n + 1) = word_of_nat (memory_nat s kb * (2 * n + 1))" for s kb
    by (simp only: estimated_memory_word of_nat_mult)
  show ?thesis
    using assms n that unfolding plan_of_def n option.map Let_def mem
    by (auto simp: not_less split: if_splits sum.splits)
qed

lemma series_bound:
  assumes "plan_choice fp q r kb = Inr (sketch, kind, contract, series, warnings)" "0 < max_series (lq_export q)"
  shows "series \<le> max_series (lq_export q)"
  using assms by (cases "lq_measure q")
    (auto simp: plan_choice_def plan_counting_def plan_heavy_hitters_def plan_distinct_def plan_entropy_def
      plan_quantile_def rbind_Inr_iff Let_def split: if_splits)

text \<open>
  C32: an accepted plan fits the operator's budget.  When the exact estimate of the plan is below
  \<open>2^64\<close> (otherwise the 64-bit arithmetic wraps), the memory of every open bucket, every pending
  completed window and the merge scratch copy together is at most \<^verbatim>\<open>maxMemory\<close>; the plan
  has exactly as many buckets and pending slots as the window has slides; and it never promises to
  export more series than \<^verbatim>\<open>maxSeries\<close>.
\<close>

theorem accepted_plan_fits_budget:
  assumes "query_ok q" "plan_of fp q = Some (Inr p)"
    and "memory_nat (pp_sketch (plan_physical p)) (maximum_stored_key_bytes q)
      * (2 * pp_window_buckets (plan_physical p) + 1) < 2 ^ 64"
  shows "memory_nat (pp_sketch (plan_physical p)) (maximum_stored_key_bytes q)
      * (pp_window_buckets (plan_physical p) + pp_pending_window_capacity (plan_physical p) + 1)
      \<le> unat (lq_max_memory_bytes q)
    \<and> pp_window_buckets (plan_physical p) * unat (slide_nanos (lq_window q)) = unat (size_nanos (lq_window q))
    \<and> pp_export_series_upper_bound (plan_physical p) \<le> max_series (lq_export q)"
proof -
  obtain n kind contract warnings where p: "bucket_count (lq_window q) = Some n"
    "pp_window_buckets (plan_physical p) = n" "pp_pending_window_capacity (plan_physical p) = n"
    "plan_choice fp q (word_of_nat n + word_of_nat n + 1) (maximum_stored_key_bytes q)
       = Inr (pp_sketch (plan_physical p), kind, contract, pp_export_series_upper_bound (plan_physical p), warnings)"
    "pp_estimated_memory_bytes (plan_physical p)
       = word_of_nat (memory_nat (pp_sketch (plan_physical p)) (maximum_stored_key_bytes q) * (2 * n + 1))"
    "pp_estimated_memory_bytes (plan_physical p) \<le> lq_max_memory_bytes q"
    using plan_of_Inr [OF assms(2)] by metis
  let ?m = "memory_nat (pp_sketch (plan_physical p)) (maximum_stored_key_bytes q) * (2 * n + 1)"
  have "?m < 2 ^ 64" using assms(3) p(2) by simp
  then have "unat (word_of_nat ?m :: u64) = ?m" by (rule unat_of_nat_u64)
  then have "?m \<le> unat (lq_max_memory_bytes q)" using p(5,6) by (simp only: word_le_nat_alt)
  moreover have "n + n + 1 = 2 * n + 1" by simp
  moreover have "pp_export_series_upper_bound (plan_physical p) \<le> max_series (lq_export q)"
    using series_bound [OF p(4)] assms(1) by (simp add: query_ok_def)
  moreover have "n * unat (slide_nanos (lq_window q)) = unat (size_nanos (lq_window q))"
    using bucket_count_ok [of "lq_window q"] assms(1) p(1) by (auto simp: query_ok_def)
  ultimately show ?thesis by (simp only: p(2,3))
qed

definition sample_floats :: float_ops where
  "sample_floats = \<lparr>fo_width = \<lambda>_. 10, fo_depth = \<lambda>_. 2, fo_recip = \<lambda>_. 1000, fo_log2 = \<lambda>_. 12, fo_kll = \<lambda>_. 200,
     fo_hll_worse = \<lambda>_ _. False, fo_kll_worse = \<lambda>_ _. False\<rparr>"

definition sample_query :: logical_query where
  "sample_query = \<lparr>lq_name = ''q'', lq_filter = Predicate_default, lq_group_by = [SrcIp], lq_measure = Count,
     lq_window = \<lparr>size_nanos = 60, slide_nanos = 10\<rparr>, lq_error = \<lparr>epsilon = Fin (1/100), delta = Fin (1/100)\<rparr>,
     lq_alert = \<lparr>alert_gt = None, alert_lt = None\<rparr>, lq_export = ExportSpec_default,
     lq_max_memory_bytes = DEFAULT_MAX_MEMORY_BYTES\<rparr>"

lemma sample_query_ok: "query_ok sample_query"
  by (simp add: query_ok_def sample_query_def MAX_QUERY_NAME_BYTES_def is_alnum_def window_ok_def measure_ok_def
      in_unit_def f64_lt_def ExportSpec_default_def)

lemma sample_query_planned:
  "\<exists>p. plan_of sample_floats sample_query = Some (Inr p) \<and> pp_window_buckets (plan_physical p) = 6
     \<and> pp_sketch (plan_physical p) = PComposite [PSpaceSaving 4000, PCountMin 10 2 True]"
  by (simp add: plan_of_def plan_choice_def plan_counting_def sample_query_def sample_floats_def bucket_count_def
      count_min_dimensions_def in_unit_def f64_lt_def ExportSpec_default_def usize_mul_def clamp_def
      maximum_stored_key_bytes_def max_encoded_len_def DEFAULT_MAX_MEMORY_BYTES_def Let_def)

theorem accepted_plan_fits_budget_witness:
  "\<exists>p. plan_of sample_floats sample_query = Some (Inr p)
     \<and> pp_export_series_upper_bound (plan_physical p) \<le> 1000"
proof -
  obtain p where p: "plan_of sample_floats sample_query = Some (Inr p)" "pp_window_buckets (plan_physical p) = 6"
    "pp_sketch (plan_physical p) = PComposite [PSpaceSaving 4000, PCountMin 10 2 True]"
    using sample_query_planned by blast
  have "pp_export_series_upper_bound (plan_physical p) \<le> max_series (lq_export sample_query)"
    using accepted_plan_fits_budget [OF sample_query_ok p(1)]
    by (simp add: p(2,3) maximum_stored_key_bytes_def sample_query_def max_encoded_len_def)
  then show ?thesis using p(1) by (simp add: sample_query_def ExportSpec_default_def)
qed

section \<open>Keys fit what the plan charges\<close>

lemma max_encoded_len_le: "max_encoded_len f \<le> 39"
  by (cases f) (simp_all add: max_encoded_len_def)

lemma fields_finite: "distinct fs \<Longrightarrow> length fs \<le> 11" for fs :: "field list"
proof -
  assume d: "distinct fs"
  let ?all = "[SrcIp, DstIp, SrcPort, DstPort, Protocol, TcpFlags, Direction, Bytes, Packets, InterfaceIndex, NodeId]"
  have "x \<in> set ?all" for x by (cases x) simp_all
  then have "set fs \<subseteq> set ?all" by blast
  then have "card (set fs) \<le> card (set ?all)" by (rule card_mono [rotated]) simp
  also have "card (set ?all) \<le> length ?all" by (rule card_length)
  finally show "length fs \<le> 11" using distinct_card [OF d] by simp
qed

lemma key_bytes_le: "query_ok q \<Longrightarrow> maximum_stored_key_bytes q \<le> 439"
proof -
  assume q: "query_ok q"
  have le: "sum_list (map max_encoded_len fs) + (length fs - 1) \<le> 439" if l: "length fs \<le> 11" for fs
  proof -
    have "sum_list (map max_encoded_len fs) \<le> length fs * 39"
      using sum_list_mono [of fs max_encoded_len "\<lambda>_. 39"] max_encoded_len_le by (simp add: sum_list_triv)
    then show ?thesis using l by linarith
  qed
  define fs where "fs = (case lq_measure q of Entropy f \<Rightarrow> [f] | Quantile _ _ \<Rightarrow> [] | _ \<Rightarrow> lq_group_by q)"
  have "length fs \<le> 11" using fields_finite [of "lq_group_by q"] q
    by (simp add: fs_def query_ok_def split: measure.split)
  then show ?thesis using le [of fs] by (simp add: maximum_stored_key_bytes_def Let_def fs_def)
qed

section \<open>Grouped distinct counts\<close>

lemma hll_precision_range:
  "4 \<le> unat (hll_precision_for_error fp e) \<and> unat (hll_precision_for_error fp e) \<le> 18"
proof -
  have c: "4 \<le> clamp 4 18 x \<and> clamp 4 18 x \<le> 18" for x :: int by (auto simp: clamp_def)
  have "unat (word_of_int (clamp 4 18 x) :: u8) = nat (clamp 4 18 x)" for x
  proof -
    have "0 \<le> clamp 4 18 x" "clamp 4 18 x < 2 ^ 8" using c [of x] by auto
    then show ?thesis by (simp add: unsigned_of_int take_bit_int_eq_self)
  qed
  then show ?thesis using c [of "fo_log2 fp e"] by (auto simp: hll_precision_for_error_def)
qed

text \<open>The number of keys the budget allows, in exact arithmetic.\<close>

lemma hllmap_budget:
  assumes k: "0 < k" "k \<le> budgeted_max_keys mem resident pk" and pk: "0 < unat pk"
  shows "(k * unat pk + 64) * unat resident \<le> unat mem"
proof -
  define b where "b = mem div resident"
  have pk': "pk \<noteq> 0" using pk by auto
  have ge: "64 \<le> b"
    using k pk' by (cases "b < 64") (auto simp: budgeted_max_keys_def Let_def b_def)
  then have "unat (b - 64) = unat b - 64" by (simp add: unat_sub)
  moreover have "k \<le> unat ((b - 64) div pk)"
    using k(2) ge pk' by (simp add: budgeted_max_keys_def Let_def b_def not_less [symmetric])
  ultimately have "k \<le> (unat b - 64) div unat pk" by (simp add: unat_div_distrib)
  then have "k * unat pk \<le> unat b - 64" using pk by (simp add: less_eq_div_iff_mult_less_eq)
  moreover have "64 \<le> unat b" using ge by (simp add: word_le_nat_alt)
  ultimately have "k * unat pk + 64 \<le> unat b" by simp
  then have "(k * unat pk + 64) * unat resident \<le> unat b * unat resident" by (rule mult_le_mono1)
  also have "\<dots> \<le> unat mem" by (simp add: b_def unat_div_distrib)
  finally show ?thesis .
qed

text \<open>
  Grouped distinct counts are sized to the budget.  For a valid grouped distinct-count query
  without an \<^verbatim>\<open>lt\<close> alert, planning either rejects it because the budget cannot retain the
  exported series, or accepts it with a bounded map that holds at least that many keys at a
  precision between 4 and 18; the final memory check never rejects it.
\<close>

lemma grouped_distinct_fits_by_construction:
  assumes "query_ok q" "lq_measure q = DistinctCount f" "lq_group_by q \<noteq> []" "alert_lt (lq_alert q) = None"
    and "bucket_count (lq_window q) = Some n" "2 * n + 1 < 2 ^ 64"
  shows "plan_of fp q = Some (Inl (Rejected (lq_name q) ''resources.maxMemory can retain too few grouped HLL keys''))
    \<or> (\<exists>p k prec. plan_of fp q = Some (Inr p) \<and> pp_sketch (plan_physical p) = PHllMap k prec
        \<and> min (max_series (lq_export q)) 1024 \<le> k \<and> k \<le> 65536 \<and> 4 \<le> unat prec \<and> unat prec \<le> 18
        \<and> pp_estimated_memory_bytes (plan_physical p) \<le> lq_max_memory_bytes q)"
proof -
  let ?kb = "maximum_stored_key_bytes q" and ?prec = "hll_precision_for_error fp (epsilon (lq_error q))"
  let ?ms = "max_series (lq_export q)" and ?r = "word_of_nat n + word_of_nat n + 1 :: u64"
  let ?pref = "clamp 1024 65536 (usize_mul ?ms 4)"
  let ?pk = "per_key_bytes ?prec ?kb"
  let ?bud = "budgeted_max_keys (lq_max_memory_bytes q) ?r ?pk"
  have ms: "0 < ?ms" using assms(1) by (simp add: query_ok_def)
  have pref: "1024 \<le> ?pref" "?pref \<le> 65536" by (auto simp: clamp_def)
  have prec: "4 \<le> unat ?prec" "unat ?prec \<le> 18" using hll_precision_range by blast+
  have small: "2 ^ unat ?prec + 2 * ?kb + 48 + 32 < (2 ^ 64 :: nat)"
  proof -
    have "(2::nat) ^ unat ?prec \<le> 2 ^ 18" using prec(2) by (rule power_increasing) simp
    then show ?thesis using key_bytes_le [OF assms(1)] by simp
  qed
  have pkw: "?pk = word_of_nat (2 ^ unat ?prec + 2 * ?kb + 48 + 32)" by (simp add: per_key_bytes_def push_bit_one_nat)
  have pk: "unat ?pk = 2 ^ unat ?prec + 2 * ?kb + 48 + 32" unfolding pkw using small by (rule unat_of_nat_u64)
  have rw: "?r = word_of_nat (2 * n + 1)" by simp
  have r: "unat ?r = 2 * n + 1" unfolding rw using assms(6) by (rule unat_of_nat_u64)
  show ?thesis
  proof (cases "?bud < min ?ms ?pref")
    case True
    then have "plan_choice fp q ?r ?kb = Inl ''resources.maxMemory can retain too few grouped HLL keys''"
      unfolding plan_choice_def plan_distinct_def Let_def using assms(2,3) by (simp only: measure.case if_False if_True)
    then show ?thesis using assms(4,5) by (simp add: plan_of_def)
  next
    case False
    let ?k = "min ?pref ?bud"
    obtain w where c: "plan_choice fp q ?r ?kb = Inr (PHllMap ?k ?prec, Relative, ''per-group relative standard error'', min ?ms ?k, w)"
      unfolding plan_choice_def plan_distinct_def Let_def using assms(2,3) False by (simp only: measure.case if_False if_True)
    have k: "0 < ?k" "?k \<le> ?bud" "min ?ms 1024 \<le> ?k" using False ms pref by auto
    have "(?k * unat ?pk + 64) * unat ?r \<le> unat (lq_max_memory_bytes q)"
      by (rule hllmap_budget [OF k(1,2)]) (simp add: pk)
    then have le: "memory_nat (PHllMap ?k ?prec) ?kb * (2 * n + 1) \<le> unat (lq_max_memory_bytes q)"
      using prec(2) by (simp only: pk r memory_nat.simps) simp
    then have "unat (word_of_nat (memory_nat (PHllMap ?k ?prec) ?kb * (2 * n + 1)) :: u64) \<le> unat (lq_max_memory_bytes q)"
      using unat_of_nat_u64 [OF le_less_trans [OF le unat_less_u64]]
      by (simp only:)
    then have "estimated_memory_bytes (PHllMap ?k ?prec) ?kb * ?r \<le> lq_max_memory_bytes q"
      unfolding rw estimated_memory_word of_nat_mult [symmetric] word_le_nat_alt .
    then show ?thesis using assms(3-5) c k(3) pref(2) prec
      by (intro disjI2) (simp add: plan_of_def Let_def not_less del: estimated_memory_bytes.simps)
  qed
qed

section \<open>Where the estimate wraps\<close>

text \<open>A table of \<open>2^61\<close> counters needs \<open>2^64\<close> bytes; the 64-bit estimate of the whole plan is
  a few hundred kilobytes and the query is accepted.\<close>

lemma huge_plan_accepted:
  "\<exists>p. plan_of (sample_floats\<lparr>fo_width := \<lambda>_. 2 ^ 61, fo_depth := \<lambda>_. 1\<rparr>) sample_query = Some (Inr p)
     \<and> 2 ^ 64 \<le> memory_nat (pp_sketch (plan_physical p)) (maximum_stored_key_bytes sample_query)"
  by (simp add: plan_of_def plan_choice_def plan_counting_def sample_query_def sample_floats_def bucket_count_def
      count_min_dimensions_def in_unit_def f64_lt_def ExportSpec_default_def usize_mul_def clamp_def
      maximum_stored_key_bytes_def max_encoded_len_def DEFAULT_MAX_MEMORY_BYTES_def Let_def)

end
