(* ===== verification/QueryState.thy ===== *)
theory QueryState
  imports SpaceSaving CountMin HllMap Kll Planner
begin

text \<open>
  \<^verbatim>\<open>flowsketch-runtime/src/lib.rs\<close>, first part: \<^verbatim>\<open>QueryState\<close>, the sketches one window bucket
  keeps for a query, and \<^verbatim>\<open>WindowState\<close>, a window's state as it is exported, received and
  merged across nodes.

  An \<open>outcome\<close> is a call that may panic (\<open>None\<close>), fail (\<open>Inl\<close>) or return.  A failing merge
  leaves its first argument in an unspecified state; every caller in the runtime merges into a
  private copy and drops it on failure, so the model returns no state then.

  The locale \<open>mergeable_state\<close> is the contract the runtime relies on: building gives an empty
  state, an update adds one input, a merge of two states of one plan succeeds and joins the
  inputs.  It is interpreted on the states of every executable plan.
\<close>

section \<open>Panics and errors\<close>

type_synonym 'a outcome = "'a result option"

definition pbind :: "('e + 'a) option \<Rightarrow> ('a \<Rightarrow> ('e + 'b) option) \<Rightarrow> ('e + 'b) option" where
  "pbind m f = (case m of None \<Rightarrow> None | Some (Inl e) \<Rightarrow> Some (Inl e) | Some (Inr x) \<Rightarrow> f x)"

lemma pbind_simps [simp]:
  "pbind None f = None" "pbind (Some (Inl e)) f = Some (Inl e)" "pbind (Some (Inr x)) f = f x"
  by (simp_all add: pbind_def)

fun pfold :: "('a \<Rightarrow> 's \<Rightarrow> ('e + 's) option) \<Rightarrow> 'a list \<Rightarrow> 's \<Rightarrow> ('e + 's) option" where
  "pfold f [] s = Some (Inr s)"
| "pfold f (x # xs) s = pbind (f x s) (pfold f xs)"

section \<open>Query states\<close>

definition SPACESAVING :: string where "SPACESAVING = ''spacesaving''"
definition COUNT_MIN_NAME :: string where "COUNT_MIN_NAME = ''count-min''"
definition KEYS_SPACESAVING :: string where "KEYS_SPACESAVING = ''keys-spacesaving''"
definition HLLMAP :: string where "HLLMAP = ''hllmap''"
definition HLL :: string where "HLL = ''hll''"
definition KLL_NAME :: string where "KLL_NAME = ''kll''"
definition HEAD_SPACESAVING :: string where "HEAD_SPACESAVING = ''head-spacesaving''"
definition TAIL_HLL :: string where "TAIL_HLL = ''tail-hll''"

datatype query_state =
    QHeavyHitters space_saving
  | QCounter count_min space_saving
  | QDistinctPerKey hll_map
  | QDistinctGlobal hyper_log_log
  | QQuantile kll_sketch
  | QEntropy space_saving hyper_log_log

definition qs_build :: "physical_sketch \<Rightarrow> hash_spec \<Rightarrow> query_state result" where
  "qs_build sk hash = (case sk of
       PSpaceSaving capacity \<Rightarrow> rbind (ss_new capacity hash) (\<lambda>ss. Inr (QHeavyHitters ss))
     | PHllMap max_keys precision \<Rightarrow> rbind (hk_new max_keys precision hash) (\<lambda>m. Inr (QDistinctPerKey m))
     | PHyperLogLog precision \<Rightarrow> rbind (hll_new precision hash) (\<lambda>hll. Inr (QDistinctGlobal hll))
     | PKll k \<Rightarrow> rbind (kll_new k hash) (\<lambda>kll. Inr (QQuantile kll))
     | PComposite stages \<Rightarrow> (case stages of
           [PSpaceSaving capacity, PCountMin width depth conservative] \<Rightarrow>
             rbind (cm_new width depth conservative hash) (\<lambda>cm.
             rbind (ss_new capacity hash) (\<lambda>keys. Inr (QCounter cm keys)))
         | [PSpaceSaving capacity, PHyperLogLog precision] \<Rightarrow>
             rbind (ss_new capacity hash) (\<lambda>ss.
             rbind (hll_new precision hash) (\<lambda>hll. Inr (QEntropy ss hll)))
         | _ \<Rightarrow> Inl (InvalidParam ''runtime cannot execute composite plan''))
     | _ \<Rightarrow> Inl (InvalidParam ''runtime cannot execute plan''))"

fun qs_update :: "(u8 \<Rightarrow> u8 list \<Rightarrow> f64) \<Rightarrow> query_state \<Rightarrow> bytes \<Rightarrow> u64 \<Rightarrow> bytes \<Rightarrow> query_state option" where
  "qs_update est (QHeavyHitters ss) key w item = map_option QHeavyHitters (ss_add ss key w)"
| "qs_update est (QCounter cm keys) key w item =
     map_option (QCounter (cm_update cm key w)) (ss_add keys key w)"
| "qs_update est (QDistinctPerKey m) key w item = map_option QDistinctPerKey (hk_insert est m key item)"
| "qs_update est (QDistinctGlobal hll) key w item = Some (QDistinctGlobal (hll_insert hll item))"
| "qs_update est (QQuantile kll) key w item = Some (QQuantile (kll_insert kll w))"
| "qs_update est (QEntropy ss hll) key w item =
     map_option (\<lambda>ss. QEntropy ss (hll_insert hll item)) (ss_add ss item 1)"

fun qs_merge_from :: "(u8 \<Rightarrow> u8 list \<Rightarrow> f64) \<Rightarrow> query_state \<Rightarrow> query_state \<Rightarrow> query_state outcome" where
  "qs_merge_from est (QHeavyHitters a) (QHeavyHitters b) =
     Some (rbind (ss_merge_from a b) (\<lambda>c. Inr (QHeavyHitters c)))"
| "qs_merge_from est (QCounter a ka) (QCounter b kb) =
     Some (rbind (cm_merge_from a b) (\<lambda>c. rbind (ss_merge_from ka kb) (\<lambda>k. Inr (QCounter c k))))"
| "qs_merge_from est (QDistinctPerKey a) (QDistinctPerKey b) =
     pbind (hk_merge_from est a b) (\<lambda>c. Some (Inr (QDistinctPerKey c)))"
| "qs_merge_from est (QDistinctGlobal a) (QDistinctGlobal b) =
     Some (rbind (hll_merge_from a b) (\<lambda>c. Inr (QDistinctGlobal c)))"
| "qs_merge_from est (QQuantile a) (QQuantile b) =
     Some (rbind (kll_merge_from a b) (\<lambda>c. Inr (QQuantile c)))"
| "qs_merge_from est (QEntropy a ha) (QEntropy b hb) =
     Some (rbind (ss_merge_from a b) (\<lambda>c. rbind (hll_merge_from ha hb) (\<lambda>h. Inr (QEntropy c h))))"
| "qs_merge_from est _ _ = Some (Inl (IncompatibleMerge ''mismatched query state kinds''))"

fun qs_update_count :: "query_state \<Rightarrow> u64" where
  "qs_update_count (QHeavyHitters ss) = ss_updates ss"
| "qs_update_count (QCounter cm keys) = cm_updates cm"
| "qs_update_count (QDistinctPerKey m) = hk_updates m"
| "qs_update_count (QDistinctGlobal hll) = hl_updates hll"
| "qs_update_count (QQuantile kll) = kl_updates kll"
| "qs_update_count (QEntropy ss hll) = ss_updates ss"

fun to_snapshots :: "query_state \<Rightarrow> u64 \<Rightarrow> u64 \<Rightarrow> (string \<times> bytes) list" where
  "to_snapshots (QHeavyHitters ss) ws we = [(SPACESAVING, ss_to_snapshot ss ws we)]"
| "to_snapshots (QCounter cm keys) ws we =
     [(COUNT_MIN_NAME, cm_to_snapshot cm ws we), (KEYS_SPACESAVING, ss_to_snapshot keys ws we)]"
| "to_snapshots (QDistinctPerKey m) ws we = [(HLLMAP, hk_to_snapshot m ws we)]"
| "to_snapshots (QDistinctGlobal hll) ws we = [(HLL, hll_to_snapshot hll ws we)]"
| "to_snapshots (QQuantile kll) ws we = [(KLL_NAME, kll_to_snapshot kll ws we)]"
| "to_snapshots (QEntropy ss hll) ws we =
     [(HEAD_SPACESAVING, ss_to_snapshot ss ws we), (TAIL_HLL, hll_to_snapshot hll ws we)]"

definition component_names :: "physical_sketch \<Rightarrow> string list result" where
  "component_names sk = (case sk of
       PSpaceSaving _ \<Rightarrow> Inr [SPACESAVING]
     | PHllMap _ _ \<Rightarrow> Inr [HLLMAP]
     | PHyperLogLog _ \<Rightarrow> Inr [HLL]
     | PKll _ \<Rightarrow> Inr [KLL_NAME]
     | PComposite stages \<Rightarrow> (case stages of
           [PSpaceSaving _, PCountMin _ _ _] \<Rightarrow> Inr [COUNT_MIN_NAME, KEYS_SPACESAVING]
         | [PSpaceSaving _, PHyperLogLog _] \<Rightarrow> Inr [HEAD_SPACESAVING, TAIL_HLL]
         | _ \<Rightarrow> Inl (InvalidParam ''runtime cannot execute composite plan''))
     | _ \<Rightarrow> Inl (InvalidParam ''runtime cannot execute plan''))"

text \<open>The map of components is the list of its entries, in insertion order.\<close>

definition get_component :: "(string \<times> bytes) list \<Rightarrow> string \<Rightarrow> bytes result" where
  "get_component components name = (case map_of components name of
       None \<Rightarrow> Inl (Snapshot ''missing component snapshot'') | Some bs \<Rightarrow> Inr bs)"

definition from_snapshots ::
  "(u8 \<Rightarrow> u8 list \<Rightarrow> f64) \<Rightarrow> physical_sketch \<Rightarrow> (string \<times> bytes) list \<Rightarrow> query_state result" where
  "from_snapshots est sk components = (case sk of
       PSpaceSaving _ \<Rightarrow> rbind (get_component components SPACESAVING) (\<lambda>bs.
         rbind (ss_from_snapshot bs) (\<lambda>ss. Inr (QHeavyHitters ss)))
     | PHllMap _ _ \<Rightarrow> rbind (get_component components HLLMAP) (\<lambda>bs.
         rbind (hk_from_snapshot est bs) (\<lambda>m. Inr (QDistinctPerKey m)))
     | PHyperLogLog _ \<Rightarrow> rbind (get_component components HLL) (\<lambda>bs.
         rbind (hll_from_snapshot bs) (\<lambda>hll. Inr (QDistinctGlobal hll)))
     | PKll _ \<Rightarrow> rbind (get_component components KLL_NAME) (\<lambda>bs.
         rbind (kll_from_snapshot bs) (\<lambda>kll. Inr (QQuantile kll)))
     | PComposite stages \<Rightarrow> (case stages of
           [PSpaceSaving _, PCountMin _ _ _] \<Rightarrow>
             rbind (get_component components COUNT_MIN_NAME) (\<lambda>bs.
             rbind (cm_from_snapshot bs) (\<lambda>cm.
             rbind (get_component components KEYS_SPACESAVING) (\<lambda>bs.
             rbind (ss_from_snapshot bs) (\<lambda>keys. Inr (QCounter cm keys)))))
         | [PSpaceSaving _, PHyperLogLog _] \<Rightarrow>
             rbind (get_component components HEAD_SPACESAVING) (\<lambda>bs.
             rbind (ss_from_snapshot bs) (\<lambda>ss.
             rbind (get_component components TAIL_HLL) (\<lambda>bs.
             rbind (hll_from_snapshot bs) (\<lambda>hll. Inr (QEntropy ss hll)))))
         | _ \<Rightarrow> Inl (InvalidParam ''runtime cannot execute composite plan''))
     | _ \<Rightarrow> Inl (InvalidParam ''runtime cannot execute plan''))"

section \<open>Window states\<close>

record window_state =
  ws_state :: query_state
  ws_start :: u64
  ws_end :: u64

record query_window_state =
  qws_name :: string
  qws_state :: window_state

record snapshot_export =
  se_query_name :: string
  se_component :: string
  se_bytes :: bytes

text \<open>One iteration of the validation loop of \<^verbatim>\<open>from_components\<close>: the window seen so far and the
  components accepted so far.\<close>

definition accept_component ::
  "string list \<Rightarrow> string \<times> bytes \<Rightarrow> (u64 \<times> u64) option \<times> (string \<times> bytes) list \<Rightarrow>
   ((u64 \<times> u64) option \<times> (string \<times> bytes) list) result" where
  "accept_component expected = (\<lambda>(name, bs) (window, by_name).
     if name \<notin> set expected then Inl (Snapshot ''unexpected component snapshot'')
     else if map_of by_name name \<noteq> None then Inl (Snapshot ''duplicate component snapshot'')
     else rbind (read_snapshot bs) (\<lambda>(header, _, _).
       let w = (sh_window_start_nanos header, sh_window_end_nanos header)
       in case window of
            None \<Rightarrow> Inr (Some w, (name, bs) # by_name)
          | Some prev \<Rightarrow> if prev \<noteq> w then Inl (IncompatibleMerge ''component covers another window than its siblings'')
                         else Inr (Some prev, (name, bs) # by_name)))"

definition from_components ::
  "(u8 \<Rightarrow> u8 list \<Rightarrow> f64) \<Rightarrow> plan \<Rightarrow> hash_spec \<Rightarrow> (string \<times> bytes) list \<Rightarrow> window_state outcome" where
  "from_components est plan hash components =
     (let sk = pp_sketch (plan_physical plan) in
      pbind (Some (component_names sk)) (\<lambda>expected.
      pbind (Some (rfold (accept_component expected) components (None, []))) (\<lambda>(window, by_name).
      case window of
        None \<Rightarrow> Some (Inl (Snapshot ''no component snapshots given''))
      | Some (start, end') \<Rightarrow>
          pbind (Some (from_snapshots est sk by_name)) (\<lambda>parsed.
          pbind (Some (qs_build sk hash)) (\<lambda>state.
          pbind (qs_merge_from est state parsed) (\<lambda>state.
          Some (Inr \<lparr>ws_state = state, ws_start = start, ws_end = end'\<rparr>)))))))"

definition ws_merge_from :: "(u8 \<Rightarrow> u8 list \<Rightarrow> f64) \<Rightarrow> window_state \<Rightarrow> window_state \<Rightarrow> window_state outcome" where
  "ws_merge_from est w other =
     (if (ws_start w, ws_end w) \<noteq> (ws_start other, ws_end other)
      then Some (Inl (IncompatibleMerge ''window mismatch''))
      else pbind (qs_merge_from est (ws_state w) (ws_state other)) (\<lambda>st. Some (Inr (w\<lparr>ws_state := st\<rparr>))))"

definition snapshot_exports :: "window_state \<Rightarrow> string \<Rightarrow> snapshot_export list" where
  "snapshot_exports w name =
     map (\<lambda>(component, bs). \<lparr>se_query_name = name, se_component = component, se_bytes = bs\<rparr>)
       (to_snapshots (ws_state w) (ws_start w) (ws_end w))"

section \<open>The contract of a mergeable state\<close>

locale mergeable_state =
  fixes build :: "'q result"
    and update :: "'q \<Rightarrow> 'e \<Rightarrow> 'q option"
    and merge_from :: "'q \<Rightarrow> 'q \<Rightarrow> 'q outcome"
    and holds :: "'q \<Rightarrow> 'e list \<Rightarrow> bool"
  assumes build: "build = Inr q \<Longrightarrow> holds q []"
    and update: "holds q es \<Longrightarrow> \<exists>q'. update q e = Some q' \<and> holds q' (es @ [e])"
    and merge: "holds a es \<Longrightarrow> holds b fs \<Longrightarrow> \<exists>c. merge_from a b = Some (Inr c) \<and> holds c (es @ fs)"
begin

text \<open>Merging any number of states, left to right, succeeds and joins their inputs.\<close>

lemma merge_fold:
  assumes "holds a es" "list_all2 holds qs ess"
  shows "\<exists>c. pfold (\<lambda>b a. merge_from a b) qs a = Some (Inr c) \<and> holds c (es @ concat ess)"
  using assms(2,1)
proof (induction qs ess arbitrary: a es rule: list_all2_induct)
  case (Cons q qs e ess)
  obtain c where c: "merge_from a q = Some (Inr c)" "holds c (es @ e)" using merge [OF Cons.prems Cons.hyps(1)] by blast
  from Cons.IH [OF c(2)] c(1) show ?case by simp
qed simp

end

text \<open>An input: group key, weight and distinct item.\<close>

type_synonym qs_input = "bytes \<times> u64 \<times> bytes"

definition weighted :: "qs_input list \<Rightarrow> (bytes \<times> u64) list" where
  "weighted xs = map (\<lambda>(k, w, d). (k, w)) xs"

definition item_counts :: "qs_input list \<Rightarrow> (bytes \<times> u64) list" where
  "item_counts xs = map (\<lambda>(k, w, d). (d, 1)) xs"

lemma weighted_simps [simp]: "weighted [] = []" "weighted (xs @ ys) = weighted xs @ weighted ys"
  "weighted [(k, w, d)] = [(k, w)]" "length (weighted xs) = length xs"
  by (simp_all add: weighted_def)

lemma item_counts_simps [simp]: "item_counts [] = []" "item_counts (xs @ ys) = item_counts xs @ item_counts ys"
  "item_counts [(k, w, d)] = [(d, 1)]" "length (item_counts xs) = length xs"
  by (simp_all add: item_counts_def)

text \<open>What the sketches of a plan hold after a stream: the invariants and configurations always,
  the weighted summaries as long as the total weight is below \<open>2^64\<close>.\<close>

definition ss_has :: "nat \<Rightarrow> hash_spec \<Rightarrow> space_saving \<Rightarrow> (bytes \<times> u64) list \<Rightarrow> bool" where
  "ss_has cap h s ys \<longleftrightarrow> ss_inv s \<and> ss_config s = (cap, h) \<and> ss_updates s = of_nat (length ys)
     \<and> (weight ys < 2 ^ 64 \<longrightarrow> ss_summ s (truth ys) (weight ys))"

definition cm_has :: "nat \<times> nat \<times> bool \<times> hash_spec \<Rightarrow> count_min \<Rightarrow> (bytes \<times> u64) list \<Rightarrow> bool" where
  "cm_has conf s ys \<longleftrightarrow> cm_inv s \<and> cm_config s = conf \<and> cm_updates s = of_nat (length ys)
     \<and> (weight ys < 2 ^ 64 \<longrightarrow> cm_summ s (truth ys) (weight ys))"

definition hll_has :: "u8 \<Rightarrow> hash_spec \<Rightarrow> hyper_log_log \<Rightarrow> bytes list \<Rightarrow> bool" where
  "hll_has p h s ds \<longleftrightarrow> hll_summ s (set ds) \<and> hll_config s = (p, h) \<and> hl_updates s = of_nat (length ds)"

fun qs_holds :: "(u8 \<Rightarrow> u8 list \<Rightarrow> f64) \<Rightarrow> physical_sketch \<Rightarrow> hash_spec \<Rightarrow> query_state \<Rightarrow> qs_input list \<Rightarrow> bool" where
  "qs_holds est sk h (QHeavyHitters ss) xs = (\<exists>cap. sk = PSpaceSaving cap \<and> ss_has cap h ss (weighted xs))"
| "qs_holds est sk h (QDistinctPerKey m) xs = (\<exists>mk p. sk = PHllMap mk p
     \<and> hk_inv est m \<and> hk_max_keys m = mk \<and> hk_precision m = p \<and> hk_hash m = h \<and> hk_updates m = of_nat (length xs))"
| "qs_holds est sk h (QDistinctGlobal hll) xs = (\<exists>p. sk = PHyperLogLog p \<and> hll_has p h hll (map (\<lambda>(k, w, d). d) xs))"
| "qs_holds est sk h (QQuantile kll) xs = (\<exists>k. sk = PKll k
     \<and> kll_inv kll \<and> kll_config kll = (k, h) \<and> kl_updates kll = of_nat (length xs))"
| "qs_holds est sk h (QCounter cm keys) xs = (\<exists>cap w d c. sk = PComposite [PSpaceSaving cap, PCountMin w d c]
     \<and> cm_has (w, d, c, h) cm (weighted xs) \<and> ss_has cap h keys (weighted xs))"
| "qs_holds est sk h (QEntropy ss hll) xs = (\<exists>cap p. sk = PComposite [PSpaceSaving cap, PHyperLogLog p]
     \<and> ss_has cap h ss (item_counts xs) \<and> hll_has p h hll (map (\<lambda>(k, w, d). d) xs))"

lemma truth_snoc: "truth (ys @ [(k, w)]) = (truth ys)(k := truth ys k + unat w)"
  by (rule ext) simp

lemma ss_has_add:
  assumes "ss_has cap h s ys"
  shows "\<exists>s'. ss_add s k w = Some s' \<and> ss_has cap h s' (ys @ [(k, w)])"
proof -
  have inv: "ss_inv s" using assms by (simp add: ss_has_def)
  obtain s' where s': "ss_add s k w = Some s'" "ss_inv s'" "ss_updates s' = ss_updates s + 1"
      "ss_capacity s' = ss_capacity s" "ss_hash s' = ss_hash s"
    using ss_add [OF inv] by blast
  have up: "ss_update s k w = s'" using s'(1) by (simp add: ss_update_def)
  have "ss_summ s' (truth (ys @ [(k, w)])) (weight (ys @ [(k, w)]))" if "weight (ys @ [(k, w)]) < 2 ^ 64"
  proof -
    have "ss_summ s (truth ys) (weight ys)" using assms that by (simp add: ss_has_def)
    from ss.summ_update [OF this, of w k] that up show ?thesis unfolding truth_snoc by simp
  qed
  then show ?thesis using s' assms by (simp add: ss_has_def ss_config_def)
qed

lemma ss_has_merge:
  assumes a: "ss_has cap h a ys" and b: "ss_has cap h b zs"
  shows "\<exists>c. ss_merge_from a b = Inr c \<and> ss_has cap h c (ys @ zs)"
proof -
  have inv: "ss_inv a" "ss_inv b" and conf: "ss_config a = ss_config b" using a b by (simp_all add: ss_has_def)
  then have "ss_compatibility a = ss_compatibility b"
    by (simp add: ss_compatibility_def ss_config_def ss_params_hash_def)
  then obtain c where c: "ss_merge_from a b = Inr c" using ss.merge_compatible [OF inv] by blast
  have "ss_summ c (truth (ys @ zs)) (weight (ys @ zs))" if "weight (ys @ zs) < 2 ^ 64"
  proof -
    have "ss_summ a (truth ys) (weight ys)" "ss_summ b (truth zs) (weight zs)" using a b that by (simp_all add: ss_has_def)
    from ss.summ_merge [OF this conf _ c] that have "ss_summ c (\<lambda>k. truth ys k + truth zs k) (weight ys + weight zs)" by simp
    moreover have "(\<lambda>k. truth ys k + truth zs k) = truth (ys @ zs)" by (rule ext) simp
    ultimately show ?thesis by simp
  qed
  then show ?thesis using c ss.inv_merge [OF inv c] ss.config_merge [OF inv c] ss.count_merge [OF inv c] a b
    by (simp add: ss_has_def)
qed

lemma cm_has_update: "cm_has conf s ys \<Longrightarrow> cm_has conf (cm_update s k w) (ys @ [(k, w)])"
  using cm.inv_update cm.config_update cm.count_update cm.summ_update [of s "truth ys" "weight ys" w k]
  by (simp add: cm_has_def truth_snoc del: truth_simps)

lemma cm_has_merge:
  assumes a: "cm_has conf a ys" and b: "cm_has conf b zs"
  shows "\<exists>c. cm_merge_from a b = Inr c \<and> cm_has conf c (ys @ zs)"
proof -
  have inv: "cm_inv a" "cm_inv b" and conf: "cm_config a = cm_config b" using a b by (simp_all add: cm_has_def)
  then have "cm_compatibility a = cm_compatibility b"
    by (simp add: cm_compatibility_def cm_config_def cm_params_hash_def)
  then obtain c where c: "cm_merge_from a b = Inr c" using cm.merge_compatible [OF inv] by blast
  have "cm_summ c (truth (ys @ zs)) (weight (ys @ zs))" if "weight (ys @ zs) < 2 ^ 64"
  proof -
    have "cm_summ a (truth ys) (weight ys)" "cm_summ b (truth zs) (weight zs)" using a b that by (simp_all add: cm_has_def)
    from cm.summ_merge [OF this conf _ c] that have "cm_summ c (\<lambda>k. truth ys k + truth zs k) (weight ys + weight zs)" by simp
    moreover have "(\<lambda>k. truth ys k + truth zs k) = truth (ys @ zs)" by (rule ext) simp
    ultimately show ?thesis by simp
  qed
  then show ?thesis using c cm.inv_merge [OF inv c] cm.config_merge [OF inv c] cm.count_merge [OF inv c] a b
    by (simp add: cm_has_def)
qed

lemma hll_has_insert: "hll_has p h s ds \<Longrightarrow> hll_has p h (hll_insert s d) (ds @ [d])"
  using hll.summ_update [of s "set ds" d 1] hll.config_update [of s d 1] hll.count_update [of s d 1] hll.summ_inv [of s "set ds"]
  by (simp add: hll_has_def hll_update_def)

lemma hll_has_merge:
  assumes a: "hll_has p h a ds" and b: "hll_has p h b es"
  shows "\<exists>c. hll_merge_from a b = Inr c \<and> hll_has p h c (ds @ es)"
proof -
  have summ: "hll_summ a (set ds)" "hll_summ b (set es)" and conf: "hll_config a = hll_config b"
    using a b by (simp_all add: hll_has_def)
  note inv = hll.summ_inv [OF summ(1)] hll.summ_inv [OF summ(2)]
  obtain c where c: "hll_merge_from a b = Inr c" using hll.merge_compatible [OF inv] conf hll_compat_iff by blast
  then show ?thesis using hll.summ_merge [OF summ conf c] hll.config_merge [OF inv c] hll.count_merge [OF inv c] a b
    by (simp add: hll_has_def)
qed

lemma truth_Nil: "truth [] = (\<lambda>_. 0)"
  by (rule ext) simp

lemma ss_has_new: "ss_new cap h = Inr s \<Longrightarrow> ss_has cap h s []"
proof -
  assume new: "ss_new cap h = Inr s"
  then have "ss_config s = (cap, h)" "ss_updates s = 0" by (auto simp: ss_new_def ss_config_def split: if_splits)
  then show ?thesis using ss_summ_new [OF new] ss.summ_inv by (auto simp: ss_has_def truth_Nil)
qed

lemma cm_has_new: "cm_new w d c h = Inr s \<Longrightarrow> cm_has (w, d, c, h) s []"
proof -
  assume new: "cm_new w d c h = Inr s"
  then have "cm_config s = (w, d, c, h)" "cm_updates s = 0" by (auto simp: cm_new_def cm_config_def split: if_splits)
  then show ?thesis using cm_summ_new [OF new] cm.summ_inv by (auto simp: cm_has_def truth_Nil)
qed

lemma hll_has_new: "hll_new p h = Inr s \<Longrightarrow> hll_has p h s []"
  using hll_summ_new [of p h s] by (auto simp: hll_has_def hll_new_def split: if_splits)

text \<open>The states an executable plan can build.\<close>

lemma qs_build_cases:
  assumes "qs_build sk h = Inr q"
  obtains (heavy_hitters) cap ss where "sk = PSpaceSaving cap" "ss_new cap h = Inr ss" "q = QHeavyHitters ss"
  | (per_key) mk p m where "sk = PHllMap mk p" "hk_new mk p h = Inr m" "q = QDistinctPerKey m"
  | (global) p hll where "sk = PHyperLogLog p" "hll_new p h = Inr hll" "q = QDistinctGlobal hll"
  | (quantile) k kll where "sk = PKll k" "kll_new k h = Inr kll" "q = QQuantile kll"
  | (counter) cap w d c cm ss where "sk = PComposite [PSpaceSaving cap, PCountMin w d c]" "cm_new w d c h = Inr cm"
      "ss_new cap h = Inr ss" "q = QCounter cm ss"
  | (entropy) cap p ss hll where "sk = PComposite [PSpaceSaving cap, PHyperLogLog p]" "ss_new cap h = Inr ss"
      "hll_new p h = Inr hll" "q = QEntropy ss hll"
  using assms unfolding qs_build_def
  by (cases sk) (simp_all add: rbind_Inr_iff split: list.split_asm physical_sketch.split_asm, auto)

lemma qs_holds_cases:
  assumes "qs_holds est sk h q xs"
  obtains (heavy_hitters) cap ss where "sk = PSpaceSaving cap" "q = QHeavyHitters ss"
  | (per_key) mk p m where "sk = PHllMap mk p" "q = QDistinctPerKey m"
  | (global) p hll where "sk = PHyperLogLog p" "q = QDistinctGlobal hll"
  | (quantile) k kll where "sk = PKll k" "q = QQuantile kll"
  | (counter) cap w d c cm ss where "sk = PComposite [PSpaceSaving cap, PCountMin w d c]" "q = QCounter cm ss"
  | (entropy) cap p ss hll where "sk = PComposite [PSpaceSaving cap, PHyperLogLog p]" "q = QEntropy ss hll"
  using assms by (cases q) auto

text \<open>The three laws.\<close>

lemma qs_build_holds:
  assumes "qs_build sk h = Inr q"
  shows "qs_holds est sk h q []"
  using assms
proof (cases rule: qs_build_cases)
  case (per_key mk p m)
  then have "hk_precision m = p" "hk_hash m = h" by (auto simp: hk_new_def rbind_Inr_iff split: if_splits)
  then show ?thesis using per_key hk_new_inv [OF per_key(2), of est] by simp
next
  case (quantile k kll)
  then show ?thesis by (auto simp: kll_new_def kll_inv_def kll_config_def split: if_splits)
qed (simp_all add: ss_has_new cm_has_new hll_has_new)

lemma qs_update_holds:
  assumes q: "qs_holds est sk h q xs"
  shows "\<exists>q'. qs_update est q k w d = Some q' \<and> qs_holds est sk h q' (xs @ [(k, w, d)])"
  using q
proof (cases rule: qs_holds_cases)
  case (heavy_hitters cap ss)
  then show ?thesis using ss_has_add [of cap h ss "weighted xs" k w] q by auto
next
  case (per_key mk p m)
  then have "hk_inv est m" using q by simp
  from hk_insert_total [OF this, of k d] show ?thesis using per_key q by (auto simp: hk_same_def)
next
  case (quantile n kll)
  then show ?thesis using q kll.inv_update [of kll k w] kll.config_update [of kll k w] kll.count_update [of kll k w]
    by (simp add: kll_update_def)
next
  case (counter cap wd dp c cm ss)
  then show ?thesis using q ss_has_add [of cap h ss "weighted xs" k w] cm_has_update by auto
next
  case (entropy cap p ss hll)
  then show ?thesis using q ss_has_add [of cap h ss "item_counts xs" d 1] hll_has_insert by auto
next
  case (global p hll)
  then show ?thesis using q hll_has_insert by simp
qed

lemma qs_merge_holds:
  assumes a: "qs_holds est sk h a xs" and b: "qs_holds est sk h b ys"
  shows "\<exists>c. qs_merge_from est a b = Some (Inr c) \<and> qs_holds est sk h c (xs @ ys)"
  using a
proof (cases rule: qs_holds_cases)
  case (heavy_hitters cap ss)
  with b obtain t where "b = QHeavyHitters t" by (cases rule: qs_holds_cases) simp_all
  then show ?thesis using heavy_hitters a b ss_has_merge [of cap h ss "weighted xs" t "weighted ys"] by auto
next
  case (per_key mk p m)
  with b obtain t where t: "b = QDistinctPerKey t" by (cases rule: qs_holds_cases) simp_all
  then show ?thesis using per_key a b hk_merge_params [of est m t] by (auto simp: hk_same_def)
next
  case (global p hll)
  with b obtain t where "b = QDistinctGlobal t" by (cases rule: qs_holds_cases) simp_all
  then show ?thesis using global a b hll_has_merge [of p h hll _ t] by fastforce
next
  case (quantile n kll)
  with b obtain t where t: "b = QQuantile t" by (cases rule: qs_holds_cases) simp_all
  have inv: "kll_inv kll" "kll_inv t" "kll_config kll = kll_config t" using quantile t a b by simp_all
  then obtain c where c: "kll_merge_from kll t = Inr c"
    using kll.merge_compatible kll_compat_config by metis
  then show ?thesis using quantile t a b kll.inv_merge [OF inv(1,2) c] kll.config_merge [OF inv(1,2) c] kll.count_merge [OF inv(1,2) c]
    by simp
next
  case (counter cap wd dp c cm ss)
  with b obtain t u where "b = QCounter t u" by (cases rule: qs_holds_cases) simp_all
  then show ?thesis using counter a b ss_has_merge [of cap h ss "weighted xs" u "weighted ys"]
      cm_has_merge [of "(wd, dp, c, h)" cm "weighted xs" t "weighted ys"] by auto
next
  case (entropy cap p ss hll)
  with b obtain t u where "b = QEntropy t u" by (cases rule: qs_holds_cases) simp_all
  then show ?thesis using entropy a b ss_has_merge [of cap h ss "item_counts xs" t "item_counts ys"]
      hll_has_merge [of p h hll _ u] by fastforce
qed

interpretation qs: mergeable_state "qs_build sk h" "\<lambda>q (k, w, d). qs_update est q k w d" "qs_merge_from est" "qs_holds est sk h"
  for est sk h
  by unfold_locales (auto intro: qs_build_holds qs_update_holds qs_merge_holds)

end
