(* ===== verification/Runtime.thy ===== *)
theory Runtime
  imports QueryState "HOL-Library.Sublist"
begin

text \<open>
  \<^verbatim>\<open>flowsketch-runtime/src/lib.rs\<close>, second part: \<^verbatim>\<open>RunningQuery\<close>, a ring of tumbling
  buckets that makes a sliding window, and \<^verbatim>\<open>QueryEngine\<close>, the queries fed from one event
  stream.

  An operation on \<^verbatim>\<open>&mut self\<close> returns the state it leaves behind together with its result, also
  on failure; \<open>None\<close> is a panic (a zero slide in \<^verbatim>\<open>ts % slide\<close>, an index out of range) or, for
  the bounded loops below, running out of fuel.  The theorems show that neither happens.

  Shown here: the ring invariant (consecutive bucket starts that are multiples of the slide, at
  most \<open>bucket_count\<close> of them, at most \<open>pending_window_capacity\<close> completed windows); every open
  bucket and every completed window holds exactly the accepted inputs of its time range; an event
  refused with backpressure leaves the engine as it was, an event that passes the preflight is
  applied to every query, and draining the completed windows always makes room for the event.
\<close>

section \<open>Steps\<close>

type_synonym 's step = "('s \<times> unit result) option"

definition sbind :: "'s step \<Rightarrow> ('s \<Rightarrow> 's step) \<Rightarrow> 's step" where
  "sbind m f = (case m of None \<Rightarrow> None | Some (s, Inl e) \<Rightarrow> Some (s, Inl e) | Some (s, Inr _) \<Rightarrow> f s)"

lemma sbind_simps [simp]:
  "sbind None f = None" "sbind (Some (s, Inl e)) f = Some (s, Inl e)" "sbind (Some (s, Inr u)) f = f s"
  by (simp_all add: sbind_def)

section \<open>Running queries\<close>

record bucket =
  b_start :: u64
  b_state :: query_state

record running_query =
  rq_plan :: plan
  rq_group_fields :: "field list"
  rq_distinct_field :: "field option"
  rq_value_field :: "field option"
  rq_hash :: hash_spec
  rq_buckets :: "bucket list"
  rq_emitted :: "window_state list"
  rq_late_events :: u64
  rq_key_buf :: bytes
  rq_distinct_buf :: bytes

definition rq_new :: "plan \<Rightarrow> hash_spec \<Rightarrow> running_query result" where
  "rq_new plan hash =
     (let (distinct_field, value_field) = (case lq_measure (plan_query plan) of
            Count \<Rightarrow> (None, None) | Sum v \<Rightarrow> (None, Some v) | HeavyHitters v _ \<Rightarrow> (None, Some v)
          | DistinctCount f \<Rightarrow> (Some f, None) | Entropy f \<Rightarrow> (Some f, None) | Quantile f _ \<Rightarrow> (None, Some f))
      in Inr \<lparr>rq_plan = plan, rq_group_fields = lq_group_by (plan_query plan), rq_distinct_field = distinct_field,
              rq_value_field = value_field, rq_hash = hash, rq_buckets = [], rq_emitted = [], rq_late_events = 0,
              rq_key_buf = [], rq_distinct_buf = []\<rparr>)"

abbreviation rq_slide :: "running_query \<Rightarrow> u64" where
  "rq_slide rq \<equiv> slide_nanos (lq_window (plan_query (rq_plan rq)))"

abbreviation rq_bucket_count :: "running_query \<Rightarrow> nat" where
  "rq_bucket_count rq \<equiv> pp_window_buckets (plan_physical (rq_plan rq))"

abbreviation rq_capacity :: "running_query \<Rightarrow> nat" where
  "rq_capacity rq \<equiv> pp_pending_window_capacity (plan_physical (rq_plan rq))"

abbreviation rq_sketch :: "running_query \<Rightarrow> physical_sketch" where
  "rq_sketch rq \<equiv> pp_sketch (plan_physical (rq_plan rq))"

definition bucket_start_for :: "running_query \<Rightarrow> u64 \<Rightarrow> u64 option" where
  "bucket_start_for rq ts = (if rq_slide rq = 0 then None else Some (ts - ts mod rq_slide rq))"

definition new_bucket :: "running_query \<Rightarrow> u64 \<Rightarrow> bucket result" where
  "new_bucket rq start = rbind (qs_build (rq_sketch rq) (rq_hash rq)) (\<lambda>st. Inr \<lparr>b_start = start, b_state = st\<rparr>)"

text \<open>\<^verbatim>\<open>self.buckets.push_back(self.new_bucket(start)?)\<close>\<close>

definition push_bucket :: "running_query \<Rightarrow> u64 \<Rightarrow> running_query step" where
  "push_bucket rq start = (case new_bucket rq start of
       Inl e \<Rightarrow> Some (rq, Inl e)
     | Inr b \<Rightarrow> Some (rq\<lparr>rq_buckets := rq_buckets rq @ [b]\<rparr>, Inr ()))"

fun ring_loop :: "nat \<Rightarrow> u64 \<Rightarrow> u64 \<Rightarrow> running_query \<Rightarrow> running_query step" where
  "ring_loop 0 start target rq = None"
| "ring_loop (Suc fuel) start target rq =
     sbind (push_bucket rq start) (\<lambda>rq.
       if start = target then Some (rq, Inr ()) else ring_loop fuel (start + rq_slide rq) target rq)"

text \<open>The loop pushes \<open>min (ring - 1) (target / slide) + 1\<close> buckets.\<close>

definition rebuild_trailing_ring :: "running_query \<Rightarrow> u64 \<Rightarrow> running_query step" where
  "rebuild_trailing_ring rq target =
     (let slide = rq_slide rq; ring = word_of_nat (rq_bucket_count rq) :: u64;
          back = min (ring - 1) (target div slide); first = target - slide * back
      in ring_loop (Suc (unat back)) first target (rq\<lparr>rq_buckets := []\<rparr>))"

definition windows_closed_by_advance :: "running_query \<Rightarrow> u64 \<Rightarrow> nat" where
  "windows_closed_by_advance rq target =
     (if rq_buckets rq = [] then 0
      else let back = b_start (last (rq_buckets rq))
           in if target \<le> back then 0
              else let slides = unat ((target - back) div rq_slide rq)
                   in if rq_bucket_count rq < slides then rq_bucket_count rq else slides)"

definition ensure_emit_capacity :: "running_query \<Rightarrow> nat \<Rightarrow> unit result" where
  "ensure_emit_capacity rq additional =
     (if rq_capacity rq < min (2 ^ 64 - 1) (length (rq_emitted rq) + additional)
      then Inl (Backpressure ''completed windows pending; drain estimates or window states and retry'')
      else Inr ())"

definition ensure_can_advance :: "running_query \<Rightarrow> u64 \<Rightarrow> unit result" where
  "ensure_can_advance rq target = ensure_emit_capacity rq (windows_closed_by_advance rq target)"

definition ensure_can_process :: "running_query \<Rightarrow> flow_event \<Rightarrow> unit outcome" where
  "ensure_can_process rq e =
     (if Predicate_matches (lq_filter (plan_query (rq_plan rq))) e
      then map_option (ensure_can_advance rq) (bucket_start_for rq (ts_nanos e))
      else Some (Inr ()))"

text \<open>\<^verbatim>\<open>while self.buckets.len() > self.bucket_count() { self.buckets.pop_front(); }\<close>\<close>

fun trim_ring :: "nat \<Rightarrow> 'a list \<Rightarrow> 'a list" where
  "trim_ring n [] = []"
| "trim_ring n (b # bs) = (if n < length (b # bs) then trim_ring n bs else b # bs)"

definition flush_window :: "(u8 \<Rightarrow> u8 list \<Rightarrow> f64) \<Rightarrow> running_query \<Rightarrow> u64 \<Rightarrow> running_query step" where
  "flush_window est rq window_end =
     (case rq_buckets rq of
        [] \<Rightarrow> Some (rq, Inr ())
      | b # bs \<Rightarrow>
          (case ensure_emit_capacity rq 1 of
             Inl e \<Rightarrow> Some (rq, Inl e)
           | Inr _ \<Rightarrow>
               map_option (\<lambda>r. case r of
                   Inl e \<Rightarrow> (rq, Inl e)
                 | Inr merged \<Rightarrow> (rq\<lparr>rq_emitted := rq_emitted rq @
                     [\<lparr>ws_state = merged, ws_start = b_start b, ws_end = window_end\<rparr>]\<rparr>, Inr ()))
                 (pfold (\<lambda>st merged. qs_merge_from est merged st) (map b_state bs) (b_state b))))"

text \<open>One turn of the advance loops: close the window that ends at the next bucket, open that
  bucket, drop what leaves the ring.\<close>

definition advance_one :: "(u8 \<Rightarrow> u8 list \<Rightarrow> f64) \<Rightarrow> running_query \<Rightarrow> running_query step" where
  "advance_one est rq =
     (if rq_buckets rq = [] then None
      else let next = b_start (last (rq_buckets rq)) + rq_slide rq
           in sbind (flush_window est rq next) (\<lambda>rq.
              sbind (push_bucket rq next) (\<lambda>rq.
              Some (rq\<lparr>rq_buckets := trim_ring (rq_bucket_count rq) (rq_buckets rq)\<rparr>, Inr ()))))"

fun advance_n :: "(u8 \<Rightarrow> u8 list \<Rightarrow> f64) \<Rightarrow> nat \<Rightarrow> running_query \<Rightarrow> running_query step" where
  "advance_n est 0 rq = Some (rq, Inr ())"
| "advance_n est (Suc n) rq = sbind (advance_one est rq) (advance_n est n)"

fun advance_while :: "(u8 \<Rightarrow> u8 list \<Rightarrow> f64) \<Rightarrow> nat \<Rightarrow> u64 \<Rightarrow> running_query \<Rightarrow> running_query step" where
  "advance_while est fuel target rq =
     (if rq_buckets rq = [] then None
      else if target \<le> b_start (last (rq_buckets rq)) then Some (rq, Inr ())
      else case fuel of 0 \<Rightarrow> None | Suc n \<Rightarrow> sbind (advance_one est rq) (advance_while est n target))"

declare advance_while.simps [simp del]

definition advance_to_bucket :: "(u8 \<Rightarrow> u8 list \<Rightarrow> f64) \<Rightarrow> running_query \<Rightarrow> u64 \<Rightarrow> running_query step" where
  "advance_to_bucket est rq target =
     (case ensure_can_advance rq target of
        Inl e \<Rightarrow> Some (rq, Inl e)
      | Inr _ \<Rightarrow>
          if rq_buckets rq = [] then push_bucket rq target
          else let back = b_start (last (rq_buckets rq)); slide = rq_slide rq
               in if back < target \<and> word_of_nat (rq_bucket_count rq) < (target - back) div slide
                  then sbind (advance_n est (rq_bucket_count rq) rq) (\<lambda>rq. rebuild_trailing_ring rq target)
                  else advance_while est (rq_bucket_count rq + 1) target rq)"

text \<open>The position of the bucket that starts at the given time.\<close>

fun bucket_position :: "u64 \<Rightarrow> bucket list \<Rightarrow> nat option" where
  "bucket_position start [] = None"
| "bucket_position start (b # bs) = (if b_start b = start then Some 0 else map_option Suc (bucket_position start bs))"

text \<open>The second half of \<^verbatim>\<open>process\<close>: encode the key and the distinct item into the reused buffers
  and update the bucket's state.\<close>

definition update_bucket :: "(u8 \<Rightarrow> u8 list \<Rightarrow> f64) \<Rightarrow> running_query \<Rightarrow> nat \<Rightarrow> flow_event \<Rightarrow> running_query step" where
  "update_bucket est rq i e =
     Option.bind (group_key_into (rq_group_fields rq) e (rq_key_buf rq)) (\<lambda>key.
     let w = (case rq_value_field rq of Some f \<Rightarrow> extract_value f e | None \<Rightarrow> 1) in
     Option.bind (case rq_distinct_field rq of Some f \<Rightarrow> field_value_into f e [] | None \<Rightarrow> Some (rq_distinct_buf rq)) (\<lambda>item.
     if length (rq_buckets rq) \<le> i then None
     else let b = rq_buckets rq ! i
          in map_option (\<lambda>(st, key). (rq\<lparr>rq_buckets := (rq_buckets rq)[i := b\<lparr>b_state := st\<rparr>],
                 rq_key_buf := key, rq_distinct_buf := item\<rparr>, Inr ()))
               (case b_state b of
                  QHeavyHitters ss \<Rightarrow> map_option (\<lambda>(ss, key). (QHeavyHitters ss, key)) (ss_add_key_buf ss key w)
                | st \<Rightarrow> map_option (\<lambda>st. (st, key)) (qs_update est st key w item))))"

definition rq_process :: "(u8 \<Rightarrow> u8 list \<Rightarrow> f64) \<Rightarrow> running_query \<Rightarrow> flow_event \<Rightarrow> running_query step" where
  "rq_process est rq e =
     (if \<not> Predicate_matches (lq_filter (plan_query (rq_plan rq))) e then Some (rq, Inr ())
      else Option.bind (bucket_start_for rq (ts_nanos e)) (\<lambda>start.
        if rq_buckets rq \<noteq> [] \<and> b_start (last (rq_buckets rq)) = start
        then update_bucket est rq (length (rq_buckets rq) - 1) e
        else sbind (advance_to_bucket est rq start) (\<lambda>rq.
          case bucket_position start (rq_buckets rq) of
            None \<Rightarrow> Some (rq\<lparr>rq_late_events := rq_late_events rq + 1\<rparr>, Inr ())
          | Some i \<Rightarrow> update_bucket est rq i e)))"

definition rq_finish :: "(u8 \<Rightarrow> u8 list \<Rightarrow> f64) \<Rightarrow> running_query \<Rightarrow> running_query step" where
  "rq_finish est rq =
     (if rq_buckets rq = [] then Some (rq, Inr ())
      else case ensure_emit_capacity rq 1 of
             Inl e \<Rightarrow> Some (rq, Inl e)
           | Inr _ \<Rightarrow> flush_window est rq (b_start (last (rq_buckets rq)) + rq_slide rq))"

section \<open>The engine\<close>

record query_engine =
  qe_queries :: "running_query list"
  qe_events_processed :: u64

definition qe_add_plan :: "hash_spec \<Rightarrow> plan \<Rightarrow> running_query list \<Rightarrow> running_query list result" where
  "qe_add_plan hash plan queries =
     (if lq_name (plan_query plan) \<in> set (map (\<lambda>q. lq_name (plan_query (rq_plan q))) queries)
      then Inl (InvalidParam ''duplicate query name in runtime'')
      else rbind (qs_build (pp_sketch (plan_physical plan)) hash) (\<lambda>_.
           rbind (rq_new plan hash) (\<lambda>q. Inr (queries @ [q]))))"

definition qe_new :: "plan list \<Rightarrow> hash_spec \<Rightarrow> query_engine result" where
  "qe_new plans hash = rbind (rfold (qe_add_plan hash) plans []) (\<lambda>queries.
     Inr \<lparr>qe_queries = queries, qe_events_processed = 0\<rparr>)"

text \<open>\<^verbatim>\<open>for q in &self.queries { check(q)?; }\<close> and \<^verbatim>\<open>for q in &mut self.queries { f(q)?; }\<close>\<close>

fun check_all :: "('q \<Rightarrow> unit outcome) \<Rightarrow> 'q list \<Rightarrow> unit outcome" where
  "check_all f [] = Some (Inr ())"
| "check_all f (q # qs) = pbind (f q) (\<lambda>_. check_all f qs)"

fun step_all :: "('q \<Rightarrow> 'q step) \<Rightarrow> 'q list \<Rightarrow> 'q list step" where
  "step_all f [] = Some ([], Inr ())"
| "step_all f (q # qs) = (case f q of
       None \<Rightarrow> None
     | Some (q', Inl e) \<Rightarrow> Some (q' # qs, Inl e)
     | Some (q', Inr _) \<Rightarrow> map_option (\<lambda>(qs', r). (q' # qs', r)) (step_all f qs))"

definition preflighted :: "unit outcome \<Rightarrow> query_engine \<Rightarrow> query_engine step \<Rightarrow> query_engine step" where
  "preflighted check eng act = (case check of None \<Rightarrow> None | Some (Inl e) \<Rightarrow> Some (eng, Inl e) | Some (Inr _) \<Rightarrow> act)"

definition qe_process :: "(u8 \<Rightarrow> u8 list \<Rightarrow> f64) \<Rightarrow> query_engine \<Rightarrow> flow_event \<Rightarrow> query_engine step" where
  "qe_process est eng e =
     preflighted (check_all (\<lambda>q. ensure_can_process q e) (qe_queries eng)) eng
       (let eng = eng\<lparr>qe_events_processed := qe_events_processed eng + 1\<rparr>
        in map_option (\<lambda>(qs, r). (eng\<lparr>qe_queries := qs\<rparr>, r)) (step_all (\<lambda>q. rq_process est q e) (qe_queries eng)))"

definition rq_check_advance :: "u64 \<Rightarrow> running_query \<Rightarrow> unit outcome" where
  "rq_check_advance ts q = map_option (ensure_can_advance q) (bucket_start_for q ts)"

definition rq_advance :: "(u8 \<Rightarrow> u8 list \<Rightarrow> f64) \<Rightarrow> u64 \<Rightarrow> running_query \<Rightarrow> running_query step" where
  "rq_advance est ts q = Option.bind (bucket_start_for q ts) (advance_to_bucket est q)"

definition qe_advance_to :: "(u8 \<Rightarrow> u8 list \<Rightarrow> f64) \<Rightarrow> query_engine \<Rightarrow> u64 \<Rightarrow> query_engine step" where
  "qe_advance_to est eng ts =
     preflighted (check_all (rq_check_advance ts) (qe_queries eng)) eng
       (map_option (\<lambda>(qs, r). (eng\<lparr>qe_queries := qs\<rparr>, r)) (step_all (rq_advance est ts) (qe_queries eng)))"

definition rq_check_finish :: "running_query \<Rightarrow> unit outcome" where
  "rq_check_finish q = Some (if rq_buckets q = [] then Inr () else ensure_emit_capacity q 1)"

definition qe_finish :: "(u8 \<Rightarrow> u8 list \<Rightarrow> f64) \<Rightarrow> query_engine \<Rightarrow> query_engine step" where
  "qe_finish est eng =
     preflighted (check_all rq_check_finish (qe_queries eng)) eng
       (map_option (\<lambda>(qs, r). (eng\<lparr>qe_queries := qs\<rparr>, r)) (step_all (rq_finish est) (qe_queries eng)))"

definition take_window_states :: "query_engine \<Rightarrow> query_engine \<times> query_window_state list" where
  "take_window_states eng =
     (eng\<lparr>qe_queries := map (\<lambda>q. q\<lparr>rq_emitted := []\<rparr>) (qe_queries eng)\<rparr>,
      concat (map (\<lambda>q. map (\<lambda>w. \<lparr>qws_name = lq_name (plan_query (rq_plan q)), qws_state = w\<rparr>) (rq_emitted q)) (qe_queries eng)))"

definition pending_window_count :: "query_engine \<Rightarrow> nat" where
  "pending_window_count eng = sum_list (map (\<lambda>q. length (rq_emitted q)) (qe_queries eng))"

definition pending_windows_full :: "query_engine \<Rightarrow> bool" where
  "pending_windows_full eng = list_ex (\<lambda>q. length (rq_emitted q) = rq_capacity q) (qe_queries eng)"

text \<open>One query's open window: no entry for a query without buckets.\<close>

definition current_window :: "(u8 \<Rightarrow> u8 list \<Rightarrow> f64) \<Rightarrow> running_query \<Rightarrow> query_window_state list outcome" where
  "current_window est q = (case rq_buckets q of
       [] \<Rightarrow> Some (Inr [])
     | b # bs \<Rightarrow> pbind (pfold (\<lambda>st merged. qs_merge_from est merged st) (map b_state bs) (b_state b)) (\<lambda>st.
         Some (Inr [\<lparr>qws_name = lq_name (plan_query (rq_plan q)), qws_state = \<lparr>ws_state = st, ws_start = b_start b,
           ws_end = b_start (last (b # bs)) + rq_slide q\<rparr>\<rparr>])))"

definition current_window_states :: "(u8 \<Rightarrow> u8 list \<Rightarrow> f64) \<Rightarrow> query_engine \<Rightarrow> query_window_state list outcome" where
  "current_window_states est eng =
     pfold (\<lambda>q out. pbind (current_window est q) (\<lambda>ws. Some (Inr (out @ ws)))) (qe_queries eng) []"

definition qe_late_events :: "query_engine \<Rightarrow> u64" where
  "qe_late_events eng = sum_list (map rq_late_events (qe_queries eng))"

definition qe_error_kind :: "query_engine \<Rightarrow> string \<Rightarrow> error_kind option" where
  "qe_error_kind eng name =
     map_option (\<lambda>q. pp_error_kind (plan_physical (rq_plan q))) (List.find (\<lambda>q. lq_name (plan_query (rq_plan q)) = name) (qe_queries eng))"

definition qe_export_snapshots :: "(u8 \<Rightarrow> u8 list \<Rightarrow> f64) \<Rightarrow> query_engine \<Rightarrow> snapshot_export list outcome" where
  "qe_export_snapshots est eng = pbind (current_window_states est eng) (\<lambda>ws.
     Some (Inr (concat (map (\<lambda>w. snapshot_exports (qws_state w) (qws_name w)) ws))))"

section \<open>The ring\<close>

text \<open>A plan the planner makes: a positive slide, at least one bucket, and room for as many
  completed windows as there are buckets; \<open>plan_of_ok\<close> below shows that every accepted plan is
  one, except for a window of \<open>2^64 - 1\<close> buckets, whose capacity check would saturate.\<close>

definition plan_ok :: "plan \<Rightarrow> bool" where
  "plan_ok p \<longleftrightarrow> 0 < slide_nanos (lq_window (plan_query p)) \<and> 0 < pp_window_buckets (plan_physical p)
     \<and> pp_window_buckets (plan_physical p) < 2 ^ 64 - 1
     \<and> pp_pending_window_capacity (plan_physical p) = pp_window_buckets (plan_physical p)"

abbreviation adjacent :: "u64 \<Rightarrow> bucket \<Rightarrow> bucket \<Rightarrow> bool" where
  "adjacent slide b c \<equiv> unat (b_start c) = unat (b_start b) + unat slide"

definition ring_ok :: "u64 \<Rightarrow> bucket list \<Rightarrow> bool" where
  "ring_ok slide bs \<longleftrightarrow> successively (adjacent slide) bs \<and> (\<forall>b \<in> set bs. unat slide dvd unat (b_start b))"

lemma trim_ring_drop: "trim_ring n bs = drop (length bs - n) bs"
  by (induction bs) (auto simp: drop_Cons' Suc_diff_le)

lemma ring_ok_Nil [simp]: "ring_ok slide []"
  by (simp add: ring_ok_def)

lemma ring_ok_Cons:
  "ring_ok slide (b # bs) \<longleftrightarrow> unat slide dvd unat (b_start b) \<and> (bs = [] \<or> adjacent slide b (hd bs)) \<and> ring_ok slide bs"
  by (auto simp: ring_ok_def successively_Cons)

lemma ring_ok_drop: "ring_ok slide bs \<Longrightarrow> ring_ok slide (drop n bs)"
proof (induction bs arbitrary: n)
  case (Cons b bs)
  then show ?case by (cases n) (auto simp: ring_ok_Cons)
qed simp

lemma ring_ok_snoc:
  "ring_ok slide bs \<Longrightarrow> bs \<noteq> [] \<Longrightarrow> adjacent slide (last bs) b \<Longrightarrow> ring_ok slide (bs @ [b])"
  by (auto simp: ring_ok_def successively_append_iff dvd_add)

lemma ring_ok_states: "map b_start cs = map b_start bs \<Longrightarrow> ring_ok slide bs \<Longrightarrow> ring_ok slide cs"
proof (induction bs arbitrary: cs)
  case (Cons b bs)
  then obtain c ds where cs: "cs = c # ds" "b_start c = b_start b" "map b_start ds = map b_start bs" by auto
  have "ring_ok slide ds" using Cons.IH [OF cs(3)] Cons.prems(2) by (simp add: ring_ok_Cons)
  moreover have "ds = [] \<or> b_start (hd ds) = b_start (hd bs)" using cs(3) by (cases ds; cases bs) auto
  moreover have "bs = [] \<longleftrightarrow> ds = []" using cs(3) by auto
  ultimately show ?case using Cons.prems(2) cs by (auto simp: ring_ok_Cons)
qed simp

text \<open>The starts of a ring are an arithmetic progression, in \<open>u64\<close> without wrap-around.\<close>

lemma ring_start:
  "ring_ok slide bs \<Longrightarrow> i < length bs \<Longrightarrow>
   unat (b_start (bs ! i)) = unat (b_start (hd bs)) + i * unat slide \<and> b_start (bs ! i) = b_start (hd bs) + of_nat i * slide"
proof (induction bs arbitrary: i)
  case (Cons b bs)
  show ?case
  proof (cases i)
    case (Suc j)
    then have bs: "bs \<noteq> []" "ring_ok slide bs" "adjacent slide b (hd bs)" "j < length bs"
      using Cons.prems by (auto simp: ring_ok_Cons)
    have "b_start (hd bs) = b_start b + slide" using arg_cong [OF bs(3), of "of_nat :: nat \<Rightarrow> u64"] by simp
    have "unat (b_start (bs ! j)) = unat (b_start b) + unat slide + j * unat slide"
      using Cons.IH [OF bs(2,4), THEN conjunct1] bs(3) by (simp only:)
    moreover have "b_start (bs ! j) = b_start b + slide + of_nat j * slide"
      using Cons.IH [OF bs(2,4), THEN conjunct2] \<open>b_start (hd bs) = b_start b + slide\<close> by simp
    ultimately show ?thesis unfolding Suc by (simp only: nth_Cons_Suc list.sel mult_Suc of_nat_Suc distrib_right mult_1 add.assoc)
  qed simp
qed simp

lemma ring_start_inj:
  assumes ring: "ring_ok slide bs" and pos: "0 < slide" and ij: "i < length bs" "j < length bs" and eq: "b_start (bs ! i) = b_start (bs ! j)"
  shows "i = j"
proof -
  have "unat (b_start (hd bs)) + i * unat slide = unat (b_start (hd bs)) + j * unat slide"
    using ring_start [OF ring ij(1), THEN conjunct1] ring_start [OF ring ij(2), THEN conjunct1] eq by (simp only:)
  then show ?thesis using pos by (simp add: word_less_nat_alt)
qed

lemma successively_map_upt: "(\<And>i. i < m \<Longrightarrow> P (f i) (f (Suc i))) \<Longrightarrow> successively P (map f [0..<Suc m])"
  by (induction m) (auto simp: successively_append_iff)

lemma ring_start_le_last:
  assumes ring: "ring_ok slide bs" and i: "i < length bs"
  shows "b_start (bs ! i) \<le> b_start (last bs)"
proof -
  have "last bs = bs ! (length bs - 1)" using i by (intro last_conv_nth) auto
  moreover have "i * unat slide \<le> (length bs - 1) * unat slide" using i by (intro mult_le_mono1) simp
  ultimately show ?thesis using ring_start [OF ring i, THEN conjunct1] ring_start [OF ring, of "length bs - 1", THEN conjunct1] i
    by (simp add: word_le_nat_alt)
qed

lemma ring_position:
  assumes "ring_ok slide bs" "unat slide dvd unat s" "0 < slide" "bs \<noteq> []" "b_start (hd bs) \<le> s" "s \<le> b_start (last bs)"
  shows "\<exists>i < length bs. bucket_position s bs = Some i \<and> b_start (bs ! i) = s"
  using assms
proof (induction bs)
  case (Cons b bs)
  show ?case
  proof (cases "b_start b = s")
    case False
    then have lt: "unat (b_start b) < unat s" using Cons.prems(5) by (simp flip: word_less_nat_alt)
    have bs: "bs \<noteq> []" using False Cons.prems(5,6) by auto
    obtain a c where ac: "unat (b_start b) = unat slide * a" "unat s = unat slide * c"
      using Cons.prems(1,2) by (auto simp: ring_ok_Cons elim!: dvdE)
    have "0 < unat slide" using Cons.prems(3) by (simp add: word_less_nat_alt)
    then have "a + 1 \<le> c" using lt ac by simp
    then have "unat slide * (a + 1) \<le> unat s" using ac(2) mult_le_mono2 [OF \<open>a + 1 \<le> c\<close>, of "unat slide"] by simp
    then have "unat (b_start (hd bs)) \<le> unat s" using Cons.prems(1) bs ac(1) by (simp add: ring_ok_Cons)
    then have "b_start (hd bs) \<le> s" by (simp add: word_le_nat_alt)
    from Cons.IH [OF _ Cons.prems(2,3) bs this] Cons.prems(1,6) bs obtain i where
      "i < length bs" "bucket_position s bs = Some i" "b_start (bs ! i) = s" by (auto simp: ring_ok_Cons)
    then show ?thesis using False by auto
  qed auto
qed simp

lemma bucket_position_None:
  "ring_ok slide bs \<Longrightarrow> bs = [] \<or> s < b_start (hd bs) \<Longrightarrow> bucket_position s bs = None"
proof (induction bs)
  case (Cons b bs)
  have "bs = [] \<or> b_start b \<le> b_start (hd bs)" using Cons.prems(1) by (auto simp: ring_ok_Cons word_le_nat_alt)
  then have "bs = [] \<or> s < b_start (hd bs)" using Cons.prems(2) by auto
  then show ?case using Cons.IH Cons.prems by (auto simp: ring_ok_Cons)
qed simp

section \<open>What a running query holds\<close>

text \<open>The history of accepted inputs, each with the start of its bucket, and the inputs of one
  bucket in arrival order.\<close>

type_synonym history = "(u64 \<times> qs_input) list"

definition in_bucket :: "history \<Rightarrow> u64 \<Rightarrow> qs_input list" where
  "in_bucket acc s = map snd (filter (\<lambda>(t, _). t = s) acc)"

text \<open>The inputs of \<open>n\<close> consecutive buckets.\<close>

definition in_window :: "history \<Rightarrow> u64 \<Rightarrow> u64 \<Rightarrow> nat \<Rightarrow> qs_input list" where
  "in_window acc slide start n = concat (map (\<lambda>i. in_bucket acc (start + of_nat i * slide)) [0..<n])"

definition holds_window :: "(u8 \<Rightarrow> u8 list \<Rightarrow> f64) \<Rightarrow> running_query \<Rightarrow> history \<Rightarrow> window_state \<Rightarrow> bool" where
  "holds_window est rq acc w \<longleftrightarrow> (\<exists>n. 0 < n \<and> n \<le> rq_bucket_count rq
     \<and> ws_end w = ws_start w + of_nat n * rq_slide rq
     \<and> qs_holds est (rq_sketch rq) (rq_hash rq) (ws_state w) (in_window acc (rq_slide rq) (ws_start w) n))"

text \<open>A completed window holds what had been accepted when it closed.\<close>

definition window_holds :: "(u8 \<Rightarrow> u8 list \<Rightarrow> f64) \<Rightarrow> running_query \<Rightarrow> history \<Rightarrow> window_state \<Rightarrow> bool" where
  "window_holds est rq acc w \<longleftrightarrow> (\<exists>pre. prefix pre acc \<and> holds_window est rq pre w)"

definition rq_inv :: "(u8 \<Rightarrow> u8 list \<Rightarrow> f64) \<Rightarrow> running_query \<Rightarrow> history \<Rightarrow> bool" where
  "rq_inv est rq acc \<longleftrightarrow> plan_ok (rq_plan rq) \<and> (\<exists>q. qs_build (rq_sketch rq) (rq_hash rq) = Inr q)
     \<and> (rq_distinct_field rq = None \<longrightarrow> rq_distinct_buf rq = [])
     \<and> ring_ok (rq_slide rq) (rq_buckets rq) \<and> length (rq_buckets rq) \<le> rq_bucket_count rq
     \<and> length (rq_emitted rq) \<le> rq_capacity rq
     \<and> (\<forall>b \<in> set (rq_buckets rq). qs_holds est (rq_sketch rq) (rq_hash rq) (b_state b) (in_bucket acc (b_start b)))
     \<and> (if rq_buckets rq = [] then acc = [] else \<forall>(t, x) \<in> set acc. t \<le> b_start (last (rq_buckets rq)))
     \<and> (\<forall>w \<in> set (rq_emitted rq). window_holds est rq acc w)"

text \<open>What no operation of a running query changes.\<close>

definition rq_fixed :: "running_query \<Rightarrow> running_query \<Rightarrow> bool" where
  "rq_fixed rq rq' \<longleftrightarrow> rq_plan rq' = rq_plan rq \<and> rq_group_fields rq' = rq_group_fields rq \<and> rq_hash rq' = rq_hash rq
     \<and> rq_distinct_field rq' = rq_distinct_field rq \<and> rq_value_field rq' = rq_value_field rq"

lemma in_bucket_simps [simp]:
  "in_bucket [] s = []" "in_bucket (acc @ bcc) s = in_bucket acc s @ in_bucket bcc s"
  "in_bucket [(t, x)] s = (if t = s then [x] else [])"
  by (auto simp: in_bucket_def)

lemma in_bucket_later: "(\<forall>(t, x) \<in> set acc. t \<le> s) \<Longrightarrow> s < s' \<Longrightarrow> in_bucket acc s' = []"
  by (force simp: in_bucket_def filter_empty_conv)

lemma window_holds_mono: "window_holds est rq acc w \<Longrightarrow> prefix acc acc' \<Longrightarrow> window_holds est rq acc' w"
  unfolding window_holds_def using prefix_order.trans by blast

lemma holds_window_fixed: "rq_fixed rq rq' \<Longrightarrow> holds_window est rq' acc w = holds_window est rq acc w"
  by (simp add: holds_window_def rq_fixed_def)

lemma window_holds_fixed: "rq_fixed rq rq' \<Longrightarrow> window_holds est rq' acc w = window_holds est rq acc w"
  by (simp add: window_holds_def holds_window_fixed)

text \<open>A step that closes \<open>n\<close> windows: they are appended, and each holds everything accepted so far.\<close>

definition rq_closes :: "(u8 \<Rightarrow> u8 list \<Rightarrow> f64) \<Rightarrow> running_query \<Rightarrow> history \<Rightarrow> nat \<Rightarrow> running_query \<Rightarrow> bool" where
  "rq_closes est rq acc n rq' \<longleftrightarrow>
     (\<exists>new. rq_emitted rq' = rq_emitted rq @ new \<and> length new = n \<and> (\<forall>w \<in> set new. holds_window est rq acc w))"

lemma rq_closes_0: "rq_closes est rq acc 0 rq' \<longleftrightarrow> rq_emitted rq' = rq_emitted rq"
  by (auto simp: rq_closes_def)

lemma rq_closes_length: "rq_closes est rq acc n rq' \<Longrightarrow> length (rq_emitted rq') = n + length (rq_emitted rq)"
  by (auto simp: rq_closes_def)

lemma rq_closes_trans:
  assumes "rq_closes est rq acc m rq'" "rq_closes est rq' acc n rq''" "rq_fixed rq rq'"
  shows "rq_closes est rq acc (m + n) rq''"
  using assms holds_window_fixed [OF assms(3)] by (fastforce simp: rq_closes_def)

lemma rq_closes_emitted: "rq_emitted rq' = rq_emitted rq'' \<Longrightarrow> rq_closes est rq acc n rq' = rq_closes est rq acc n rq''"
  by (simp add: rq_closes_def)

text \<open>Completed windows: merging the ring never fails and gives the inputs of all its buckets.\<close>

lemma ring_merge:
  assumes inv: "rq_inv est rq acc" and bs: "rq_buckets rq = b # bs"
  shows "\<exists>m. pfold (\<lambda>st merged. qs_merge_from est merged st) (map b_state bs) (b_state b) = Some (Inr m)
     \<and> qs_holds est (rq_sketch rq) (rq_hash rq) m (in_window acc (rq_slide rq) (b_start b) (length (b # bs)))"
proof -
  let ?h = "qs_holds est (rq_sketch rq) (rq_hash rq)"
  have all: "\<forall>c \<in> set (b # bs). ?h (b_state c) (in_bucket acc (b_start c))" and ring: "ring_ok (rq_slide rq) (b # bs)"
    using inv bs by (simp_all add: rq_inv_def)
  have "list_all2 ?h (map b_state bs) (map (\<lambda>c. in_bucket acc (b_start c)) bs)"
    using all by (simp add: list_all2_conv_all_nth)
  from qs.merge_fold [OF _ this, of "b_state b"] all obtain m where
    m: "pfold (\<lambda>st merged. qs_merge_from est merged st) (map b_state bs) (b_state b) = Some (Inr m)"
       "?h m (in_bucket acc (b_start b) @ concat (map (\<lambda>c. in_bucket acc (b_start c)) bs))" by auto
  have "map (\<lambda>i. in_bucket acc (b_start b + of_nat i * rq_slide rq)) [0..<length (b # bs)]
      = map (\<lambda>i. in_bucket acc (b_start ((b # bs) ! i))) [0..<length (b # bs)]"
    using ring_start [OF ring] by (intro map_cong refl) (metis atLeastLessThan_iff list.sel(1) set_upt)
  also have "\<dots> = map (\<lambda>c. in_bucket acc (b_start c)) (map (\<lambda>i. (b # bs) ! i) [0..<length (b # bs)])"
    by (simp only: map_map comp_def)
  finally have "map (\<lambda>i. in_bucket acc (b_start b + of_nat i * rq_slide rq)) [0..<length (b # bs)] = map (\<lambda>c. in_bucket acc (b_start c)) (b # bs)"
    by (simp only: map_nth)
  then have "in_window acc (rq_slide rq) (b_start b) (length (b # bs)) = concat (map (\<lambda>c. in_bucket acc (b_start c)) (b # bs))"
    unfolding in_window_def by (simp only:)
  then show ?thesis using m by simp
qed

lemma flush_window_ok:
  assumes inv: "rq_inv est rq acc" and bs: "rq_buckets rq \<noteq> []" and room: "length (rq_emitted rq) < rq_capacity rq"
    and last: "window_end = b_start (last (rq_buckets rq)) + rq_slide rq"
  shows "\<exists>w. flush_window est rq window_end = Some (rq\<lparr>rq_emitted := rq_emitted rq @ [w]\<rparr>, Inr ())
     \<and> rq_inv est (rq\<lparr>rq_emitted := rq_emitted rq @ [w]\<rparr>) acc \<and> holds_window est rq acc w"
proof -
  obtain b cs where b: "rq_buckets rq = b # cs" using bs by (cases "rq_buckets rq") auto
  obtain m where m: "pfold (\<lambda>st merged. qs_merge_from est merged st) (map b_state cs) (b_state b) = Some (Inr m)"
    "qs_holds est (rq_sketch rq) (rq_hash rq) m (in_window acc (rq_slide rq) (b_start b) (length (b # cs)))"
    using ring_merge [OF inv b] by blast
  let ?w = "\<lparr>ws_state = m, ws_start = b_start b, ws_end = window_end\<rparr>"
  have ring: "ring_ok (rq_slide rq) (b # cs)" "length (b # cs) \<le> rq_bucket_count rq" using inv b by (simp_all add: rq_inv_def)
  have "last (b # cs) = (b # cs) ! length cs" by (simp add: last_conv_nth)
  then have "window_end = b_start b + of_nat (length cs) * rq_slide rq + rq_slide rq"
    using ring_start [OF ring(1), of "length cs"] last b by simp
  then have "window_end = b_start b + of_nat (length (b # cs)) * rq_slide rq" by (simp add: algebra_simps)
  then have of: "holds_window est rq acc ?w"
    unfolding holds_window_def using m(2) ring(2) by (intro exI [of _ "length (b # cs)"]) simp
  then have "window_holds est rq acc ?w" unfolding window_holds_def by blast
  moreover have "window_holds est (rq\<lparr>rq_emitted := es\<rparr>) acc w = window_holds est rq acc w" for es w
    by (rule window_holds_fixed) (simp add: rq_fixed_def)
  ultimately have "rq_inv est (rq\<lparr>rq_emitted := rq_emitted rq @ [?w]\<rparr>) acc" using inv room by (auto simp: rq_inv_def)
  moreover have "flush_window est rq window_end = Some (rq\<lparr>rq_emitted := rq_emitted rq @ [?w]\<rparr>, Inr ())"
    using b m(1) room by (simp add: flush_window_def ensure_emit_capacity_def)
  ultimately show ?thesis using of by blast
qed

lemma rq_inv_D:
  assumes "rq_inv est rq acc"
  shows "0 < rq_slide rq" "0 < unat (rq_slide rq)" "0 < rq_bucket_count rq" "rq_bucket_count rq < 2 ^ 64 - 1" "rq_capacity rq = rq_bucket_count rq"
    "ring_ok (rq_slide rq) (rq_buckets rq)" "length (rq_buckets rq) \<le> rq_bucket_count rq"
    "\<exists>q. qs_build (rq_sketch rq) (rq_hash rq) = Inr q"
  using assms by (simp_all add: rq_inv_def plan_ok_def word_less_nat_alt)

lemma push_bucket_eq:
  "qs_build (rq_sketch rq) (rq_hash rq) = Inr q \<Longrightarrow>
   push_bucket rq s = Some (rq\<lparr>rq_buckets := rq_buckets rq @ [\<lparr>b_start = s, b_state = q\<rparr>]\<rparr>, Inr ())"
  by (simp add: push_bucket_def new_bucket_def)

text \<open>Replacing the buckets: what is to be shown of the new ones.\<close>

lemma rq_inv_buckets:
  assumes inv: "rq_inv est rq acc" and ring: "cs \<noteq> []" "ring_ok (rq_slide rq) cs" "length cs \<le> rq_bucket_count rq"
    and holds: "\<forall>b \<in> set cs. qs_holds est (rq_sketch rq) (rq_hash rq) (b_state b) (in_bucket acc' (b_start b))"
    and last: "\<forall>(t, x) \<in> set acc'. t \<le> b_start (last cs)" and acc: "prefix acc acc'"
    and buf: "rq_distinct_field rq = None \<Longrightarrow> db = []"
  shows "rq_inv est (rq\<lparr>rq_buckets := cs, rq_key_buf := kb, rq_distinct_buf := db\<rparr>) acc'"
proof -
  have "window_holds est (rq\<lparr>rq_buckets := cs, rq_key_buf := kb, rq_distinct_buf := db\<rparr>) acc' w" if "w \<in> set (rq_emitted rq)" for w
  proof -
    have "window_holds est rq acc' w" using inv that window_holds_mono [OF _ acc] by (simp add: rq_inv_def)
    then show ?thesis by (simp add: window_holds_def holds_window_def)
  qed
  then show ?thesis using inv ring holds last buf by (simp add: rq_inv_def)
qed

lemma advance_one_ok:
  assumes inv: "rq_inv est rq acc" and bs: "rq_buckets rq \<noteq> []" and room: "length (rq_emitted rq) < rq_capacity rq"
    and small: "unat (b_start (last (rq_buckets rq))) + unat (rq_slide rq) < 2 ^ 64"
  shows "\<exists>rq'. advance_one est rq = Some (rq', Inr ()) \<and> rq_inv est rq' acc \<and> rq_fixed rq rq' \<and> rq_buckets rq' \<noteq> []
     \<and> unat (b_start (last (rq_buckets rq'))) = unat (b_start (last (rq_buckets rq))) + unat (rq_slide rq)
     \<and> length (rq_buckets rq') = min (rq_bucket_count rq) (Suc (length (rq_buckets rq)))
     \<and> rq_closes est rq acc 1 rq' \<and> rq_late_events rq' = rq_late_events rq"
proof -
  let ?next = "b_start (last (rq_buckets rq)) + rq_slide rq"
  obtain w where w: "flush_window est rq ?next = Some (rq\<lparr>rq_emitted := rq_emitted rq @ [w]\<rparr>, Inr ())"
      "rq_inv est (rq\<lparr>rq_emitted := rq_emitted rq @ [w]\<rparr>) acc" "holds_window est rq acc w"
    using flush_window_ok [OF inv bs room refl] by blast
  obtain q where q: "qs_build (rq_sketch rq) (rq_hash rq) = Inr q" using rq_inv_D(8) [OF inv] by blast
  let ?rq1 = "rq\<lparr>rq_emitted := rq_emitted rq @ [w]\<rparr>"
  let ?new = "\<lparr>b_start = ?next, b_state = q\<rparr>"
  let ?bs = "rq_buckets rq @ [?new]"
  let ?cs = "drop (length ?bs - rq_bucket_count rq) ?bs"
  let ?rq' = "?rq1\<lparr>rq_buckets := ?cs\<rparr>"
  have nxt: "unat ?next = unat (b_start (last (rq_buckets rq))) + unat (rq_slide rq)"
    using small by (simp add: unat_word_ariths)
  then have later: "b_start (last (rq_buckets rq)) < ?next" using rq_inv_D(2) [OF inv] by (simp add: word_less_nat_alt)
  have ring: "ring_ok (rq_slide rq) ?bs" using rq_inv_D(6) [OF inv] bs nxt by (intro ring_ok_snoc) simp_all
  have n: "0 < rq_bucket_count rq" using rq_inv_D(3) [OF inv] .
  then have cs: "?cs \<noteq> []" "last ?cs = ?new" using last_drop [of "length ?bs - rq_bucket_count rq" ?bs] by simp_all
  have old: "\<forall>(t, x) \<in> set acc. t \<le> b_start (last (rq_buckets rq))" using inv bs by (simp add: rq_inv_def)
  have "qs_holds est (rq_sketch rq) (rq_hash rq) q (in_bucket acc ?next)"
    using qs_build_holds [OF q] in_bucket_later [OF old later] by simp
  then have all: "\<forall>b \<in> set ?bs. qs_holds est (rq_sketch rq) (rq_hash rq) (b_state b) (in_bucket acc (b_start b))"
    using inv by (auto simp: rq_inv_def)
  then have sub: "\<forall>b \<in> set ?cs. qs_holds est (rq_sketch rq) (rq_hash rq) (b_state b) (in_bucket acc (b_start b))"
    using set_drop_subset [of "length ?bs - rq_bucket_count rq" ?bs] by blast
  have "\<forall>(t, x) \<in> set acc. t \<le> ?next" using old later by fastforce
  then have bound: "\<forall>(t, x) \<in> set acc. t \<le> b_start (last ?cs)" unfolding cs(2) by simp
  have "rq_inv est (?rq1\<lparr>rq_buckets := ?cs, rq_key_buf := rq_key_buf ?rq1, rq_distinct_buf := rq_distinct_buf ?rq1\<rparr>) acc"
    by (rule rq_inv_buckets [OF w(2) cs(1) _ _ _ bound])
      (use ring_ok_drop [OF ring] sub n inv in \<open>auto simp: rq_inv_def simp del: drop_append\<close>)
  then have "rq_inv est ?rq' acc" by simp
  moreover have "advance_one est rq = Some (?rq', Inr ())"
    using bs w(1) push_bucket_eq [of ?rq1 q ?next] q by (simp add: advance_one_def Let_def trim_ring_drop)
  moreover have "rq_closes est rq acc 1 ?rq'" using w(3) by (simp add: rq_closes_def)
  moreover have "length ?cs = min (rq_bucket_count rq) (Suc (length (rq_buckets rq)))" unfolding length_drop by simp
  ultimately show ?thesis using cs nxt by (intro exI [of _ ?rq']) (simp add: rq_fixed_def del: drop_append length_drop)
qed

lemma rq_fixed_refl [simp]: "rq_fixed rq rq"
  by (simp add: rq_fixed_def)

lemma rq_fixed_trans: "rq_fixed a b \<Longrightarrow> rq_fixed b c \<Longrightarrow> rq_fixed a c"
  by (simp add: rq_fixed_def)

text \<open>A progress report of the advance loops: after \<open>n\<close> turns the last bucket starts \<open>n\<close> slides
  later and \<open>n\<close> more windows are complete.\<close>

definition rq_advanced :: "(u8 \<Rightarrow> u8 list \<Rightarrow> f64) \<Rightarrow> running_query \<Rightarrow> history \<Rightarrow> nat \<Rightarrow> running_query \<Rightarrow> bool" where
  "rq_advanced est rq acc n rq' \<longleftrightarrow> rq_inv est rq' acc \<and> rq_fixed rq rq' \<and> rq_buckets rq' \<noteq> []
     \<and> unat (b_start (last (rq_buckets rq'))) = unat (b_start (last (rq_buckets rq))) + n * unat (rq_slide rq)
     \<and> length (rq_buckets rq') = min (rq_bucket_count rq) (length (rq_buckets rq) + n)
     \<and> rq_closes est rq acc n rq' \<and> rq_late_events rq' = rq_late_events rq"

lemma advance_one_advanced:
  assumes "rq_inv est rq acc" "rq_buckets rq \<noteq> []" "Suc n + length (rq_emitted rq) \<le> rq_capacity rq"
    and "unat (b_start (last (rq_buckets rq))) + Suc n * unat (rq_slide rq) < 2 ^ 64"
  obtains rq' where "advance_one est rq = Some (rq', Inr ())" "rq_inv est rq' acc" "rq_buckets rq' \<noteq> []" "rq_fixed rq rq'"
    "n + length (rq_emitted rq') \<le> rq_capacity rq'" "unat (b_start (last (rq_buckets rq'))) + n * unat (rq_slide rq') < 2 ^ 64"
    "\<And>rq''. rq_advanced est rq' acc n rq'' \<Longrightarrow> rq_advanced est rq acc (Suc n) rq''"
    "unat (b_start (last (rq_buckets rq'))) = unat (b_start (last (rq_buckets rq))) + unat (rq_slide rq)"
proof -
  obtain rq' where r: "advance_one est rq = Some (rq', Inr ())" "rq_inv est rq' acc" "rq_fixed rq rq'" "rq_buckets rq' \<noteq> []"
     "unat (b_start (last (rq_buckets rq'))) = unat (b_start (last (rq_buckets rq))) + unat (rq_slide rq)"
     "rq_closes est rq acc 1 rq'" "rq_late_events rq' = rq_late_events rq" "length (rq_buckets rq') = min (rq_bucket_count rq) (Suc (length (rq_buckets rq)))"
    using advance_one_ok [OF assms(1,2)] assms(3,4) by auto
  show thesis
  proof (rule that [OF r(1,2,4,3)])
    show "rq_advanced est rq acc (Suc n) rq''" if "rq_advanced est rq' acc n rq''" for rq''
      using that r(3,5,7,8) rq_closes_trans [OF r(6) _ r(3), of n rq''] by (auto simp: rq_advanced_def rq_fixed_def min_def)
  qed (use r assms(3,4) rq_closes_length [OF r(6)] in \<open>simp_all add: rq_fixed_def\<close>)
qed

lemma advance_n_ok:
  assumes "rq_inv est rq acc" "rq_buckets rq \<noteq> []" "n + length (rq_emitted rq) \<le> rq_capacity rq"
    and "unat (b_start (last (rq_buckets rq))) + n * unat (rq_slide rq) < 2 ^ 64"
  shows "\<exists>rq'. advance_n est n rq = Some (rq', Inr ()) \<and> rq_advanced est rq acc n rq'"
  using assms
proof (induction n arbitrary: rq)
  case (Suc n)
  obtain rq' where r: "advance_one est rq = Some (rq', Inr ())" "rq_inv est rq' acc" "rq_buckets rq' \<noteq> []"
    "n + length (rq_emitted rq') \<le> rq_capacity rq'" "unat (b_start (last (rq_buckets rq'))) + n * unat (rq_slide rq') < 2 ^ 64"
    "\<And>rq''. rq_advanced est rq' acc n rq'' \<Longrightarrow> rq_advanced est rq acc (Suc n) rq''"
    using advance_one_advanced [OF Suc.prems] by metis
  from Suc.IH [OF r(2-5)] r(1,6) show ?case by auto
qed (use rq_inv_D(7) in \<open>simp add: rq_advanced_def rq_closes_0\<close>)

lemma advance_while_ok:
  assumes "rq_inv est rq acc" "rq_buckets rq \<noteq> []" "n + length (rq_emitted rq) \<le> rq_capacity rq"
    and "unat target = unat (b_start (last (rq_buckets rq))) + n * unat (rq_slide rq)" "n \<le> fuel"
  shows "\<exists>rq'. advance_while est fuel target rq = Some (rq', Inr ()) \<and> rq_advanced est rq acc n rq'"
  using assms
proof (induction n arbitrary: rq fuel)
  case 0
  then have "target \<le> b_start (last (rq_buckets rq))" by (simp add: word_le_nat_alt)
  then show ?case using 0 rq_inv_D(7) [OF 0(1)] by (simp add: advance_while.simps rq_advanced_def rq_closes_0)
next
  case (Suc n)
  obtain f where f: "fuel = Suc f" "n \<le> f" using Suc.prems(5) by (cases fuel) auto
  have "unat (b_start (last (rq_buckets rq))) + Suc n * unat (rq_slide rq) < 2 ^ 64"
    using unsigned_less [of target, where 'a = nat] Suc.prems(4) by (simp del: u64_less_exp)
  then obtain rq' where r: "advance_one est rq = Some (rq', Inr ())" "rq_inv est rq' acc" "rq_buckets rq' \<noteq> []" "rq_fixed rq rq'"
    "n + length (rq_emitted rq') \<le> rq_capacity rq'"
    "\<And>rq''. rq_advanced est rq' acc n rq'' \<Longrightarrow> rq_advanced est rq acc (Suc n) rq''"
    "unat (b_start (last (rq_buckets rq'))) = unat (b_start (last (rq_buckets rq))) + unat (rq_slide rq)"
    using advance_one_advanced [OF Suc.prems(1-3)] by metis
  have "unat target = unat (b_start (last (rq_buckets rq'))) + n * unat (rq_slide rq')"
    using r(4,7) Suc.prems(4) by (simp add: rq_fixed_def)
  from Suc.IH [OF r(2,3,5) this f(2)] obtain rq'' where
    "advance_while est f target rq' = Some (rq'', Inr ())" "rq_advanced est rq' acc n rq''" by blast
  moreover have "b_start (last (rq_buckets rq)) < target"
    using Suc.prems(4) rq_inv_D(2) [OF Suc.prems(1)] by (simp add: word_less_nat_alt)
  ultimately show ?case using r(1,6) f(1) Suc.prems(2) by (simp add: advance_while.simps [of est "Suc f"])
qed

text \<open>The ring built after a gap.\<close>

lemma ring_loop_eq:
  assumes "qs_build (rq_sketch rq) (rq_hash rq) = Inr q" "0 < rq_slide rq"
    and "unat target = unat start + n * unat (rq_slide rq)"
  shows "ring_loop (Suc n) start target rq = Some (rq\<lparr>rq_buckets := rq_buckets rq @
      map (\<lambda>i. \<lparr>b_start = start + of_nat i * rq_slide rq, b_state = q\<rparr>) [0..<Suc n]\<rparr>, Inr ())"
  using assms
proof (induction n arbitrary: start rq)
  case 0
  then have "start = target" by (simp add: word_unat_eq_iff)
  then show ?case using push_bucket_eq [OF 0(1)] by simp
next
  case (Suc n)
  have ne: "start \<noteq> target" using Suc.prems(2,3) by (auto simp: word_less_nat_alt)
  let ?rq = "rq\<lparr>rq_buckets := rq_buckets rq @ [\<lparr>b_start = start, b_state = q\<rparr>]\<rparr>"
  have "unat (start + rq_slide rq) = unat start + unat (rq_slide rq)"
    using unsigned_less [of target, where 'a = nat] Suc.prems(3) by (intro u64_add_exact) (simp del: u64_less_exp)
  then have "unat target = unat (start + rq_slide ?rq) + n * unat (rq_slide ?rq)" using Suc.prems(3) by simp
  from Suc.IH [OF _ _ this] Suc.prems(1,2)
  have "ring_loop (Suc n) (start + rq_slide rq) target ?rq = Some (?rq\<lparr>rq_buckets := rq_buckets ?rq @
      map (\<lambda>i. \<lparr>b_start = start + rq_slide rq + of_nat i * rq_slide rq, b_state = q\<rparr>) [0..<Suc n]\<rparr>, Inr ())" by simp
  moreover have "map (\<lambda>i. \<lparr>b_start = start + of_nat i * rq_slide rq, b_state = q\<rparr>) [0..<Suc (Suc n)] =
      \<lparr>b_start = start, b_state = q\<rparr> # map (\<lambda>i. \<lparr>b_start = start + rq_slide rq + of_nat i * rq_slide rq, b_state = q\<rparr>) [0..<Suc n]"
    by (simp only: map_upt_Suc) (simp del: upt_Suc add: algebra_simps)
  ultimately show ?case using push_bucket_eq [OF Suc.prems(1)] ne by (simp del: upt_Suc ring_loop.simps add: ring_loop.simps(2) [of "Suc n"])
qed

lemma ensure_emit_capacity_iff:
  "rq_inv est rq acc \<Longrightarrow> ensure_emit_capacity rq n = Inr () \<longleftrightarrow> n + length (rq_emitted rq) \<le> rq_capacity rq"
  using rq_inv_D(4,5) [of est rq acc] by (auto simp: ensure_emit_capacity_def)

lemma u64_of_nat_mult: "n * unat a < 2 ^ 64 \<Longrightarrow> unat (of_nat n * a :: u64) = n * unat a"
proof -
  assume "n * unat a < 2 ^ 64"
  moreover have "unat (of_nat n * a :: u64) = n * unat a mod 2 ^ 64"
    by (simp add: unat_word_ariths unsigned_of_nat take_bit_eq_mod mod_mult_left_eq)
  ultimately show ?thesis by simp
qed

lemma rebuild_trailing_ring_ok:
  assumes inv: "rq_inv est rq acc" and al: "unat (rq_slide rq) dvd unat target"
    and old: "\<forall>(t, x) \<in> set acc. t \<le> l" and gap: "unat l + (rq_bucket_count rq - 1) * unat (rq_slide rq) < unat target"
  shows "\<exists>rq'. rebuild_trailing_ring rq target = Some (rq', Inr ()) \<and> rq_inv est rq' acc \<and> rq_fixed rq rq' \<and> rq_buckets rq' \<noteq> []
     \<and> b_start (last (rq_buckets rq')) = target \<and> length (rq_buckets rq') = rq_bucket_count rq
     \<and> rq_emitted rq' = rq_emitted rq \<and> rq_late_events rq' = rq_late_events rq"
proof -
  note D = rq_inv_D [OF inv]
  let ?m = "rq_bucket_count rq - 1" and ?sl = "rq_slide rq"
  obtain q where q: "qs_build (rq_sketch rq) (rq_hash rq) = Inr q" using D(8) by blast
  have um: "unat (word_of_nat (rq_bucket_count rq) - 1 :: u64) = ?m"
    using D(3,4) by (simp add: unat_sub word_le_nat_alt)
  have "?m \<le> unat target div unat ?sl"
    using gap D(2) by (subst less_eq_div_iff_mult_less_eq) auto
  then have "word_of_nat (rq_bucket_count rq) - 1 \<le> target div ?sl"
    by (simp add: word_le_nat_alt um unat_div)
  then have bk: "min (word_of_nat (rq_bucket_count rq) - 1) (target div ?sl) = word_of_nat (rq_bucket_count rq) - 1"
    by (simp add: min_def)
  have wm: "word_of_nat (rq_bucket_count rq) - 1 = (word_of_nat ?m :: u64)" using D(3) by (simp add: of_nat_diff)
  let ?first = "target - ?sl * word_of_nat ?m"
  have prod: "unat (?sl * word_of_nat ?m) = unat ?sl * ?m"
    using u64_of_nat_mult [of ?m ?sl] less_trans [OF gap u64_less_exp] by (simp add: mult.commute)
  have first: "unat ?first = unat target - ?m * unat ?sl"
    using gap prod by (simp add: unat_sub word_le_nat_alt mult.commute)
  have tgt: "unat target = unat ?first + ?m * unat ?sl" using first gap by simp
  let ?cs = "map (\<lambda>i. \<lparr>b_start = ?first + of_nat i * ?sl, b_state = q\<rparr>) [0..<Suc ?m]"
  have run: "rebuild_trailing_ring rq target = Some (rq\<lparr>rq_buckets := ?cs\<rparr>, Inr ())"
    unfolding rebuild_trailing_ring_def Let_def bk um
    using ring_loop_eq [of "rq\<lparr>rq_buckets := []\<rparr>" q target ?first ?m] q D(1) tgt by (simp add: wm del: upt_Suc ring_loop.simps)
  have starts: "unat (?first + of_nat i * ?sl) = unat ?first + i * unat ?sl" if "i \<le> ?m" for i
  proof -
    have "i * unat ?sl \<le> ?m * unat ?sl" using that by (rule mult_le_mono1)
    then have "unat ?first + i * unat ?sl \<le> unat target" unfolding tgt by (rule add_left_mono)
    then have "unat ?first + i * unat ?sl < 2 ^ 64" using le_less_trans [OF _ u64_less_exp] by simp
    moreover from this have "unat (of_nat i * ?sl) = i * unat ?sl" by (intro u64_of_nat_mult) simp
    ultimately show ?thesis by (simp add: u64_add_exact)
  qed
  have al': "unat ?sl dvd unat ?first" using tgt al by (metis dvd_add_left_iff dvd_triv_right)
  have "unat (?first + of_nat (Suc i) * ?sl) = unat (?first + of_nat i * ?sl) + unat ?sl" if "Suc i \<le> ?m" for i
    using starts [of "Suc i"] starts [of i] that by (simp only: Suc_leD mult_Suc)
  then have "successively (adjacent ?sl) ?cs" by (intro successively_map_upt) (simp only: Suc_le_eq bucket.simps)
  moreover have "\<forall>b \<in> set ?cs. unat ?sl dvd unat (b_start b)" using starts al' by (auto simp: less_Suc_eq_le simp del: upt_Suc)
  ultimately have ring: "ring_ok ?sl ?cs" by (simp add: ring_ok_def del: upt_Suc)
  have last: "b_start (last ?cs) = target" using starts [of ?m] tgt by (simp add: last_map word_unat_eq_iff)
  have new: "in_bucket acc (?first + of_nat i * ?sl) = []" if "i \<le> ?m" for i
  proof -
    have "unat l < unat ?first" using first gap by linarith
    then have "l < ?first + of_nat i * ?sl" unfolding word_less_nat_alt starts [OF that] by (rule trans_less_add1)
    then show ?thesis by (rule in_bucket_later [OF old])
  qed
  have holds: "\<forall>b \<in> set ?cs. qs_holds est (rq_sketch rq) (rq_hash rq) (b_state b) (in_bucket acc (b_start b))"
    using qs_build_holds [OF q] new by (auto simp: less_Suc_eq_le simp del: upt_Suc)
  have "l \<le> target" using gap by (simp add: word_le_nat_alt)
  then have "\<forall>(t, x) \<in> set acc. t \<le> b_start (last ?cs)" unfolding last using old by fastforce
  then have "rq_inv est (rq\<lparr>rq_buckets := ?cs, rq_key_buf := rq_key_buf rq, rq_distinct_buf := rq_distinct_buf rq\<rparr>) acc"
    using ring holds inv D(3) by (intro rq_inv_buckets [OF inv]) (auto simp: rq_inv_def simp del: upt_Suc)
  then show ?thesis using run last D(3) by (simp add: rq_fixed_def del: upt_Suc)
qed

text \<open>How many buckets the ring has after an advance.\<close>

definition ring_length :: "running_query \<Rightarrow> u64 \<Rightarrow> nat" where
  "ring_length rq target =
     (if rq_buckets rq = [] then 1
      else let back = b_start (last (rq_buckets rq))
           in if target \<le> back then length (rq_buckets rq)
              else min (rq_bucket_count rq) (length (rq_buckets rq) + (unat target - unat back) div unat (rq_slide rq)))"

text \<open>Advancing to an aligned time after a successful preflight.\<close>

lemma advance_to_bucket_ok:
  assumes inv: "rq_inv est rq acc" and pre: "ensure_can_advance rq target = Inr ()" and al: "unat (rq_slide rq) dvd unat target"
  shows "\<exists>rq'. advance_to_bucket est rq target = Some (rq', Inr ()) \<and> rq_inv est rq' acc \<and> rq_fixed rq rq' \<and> rq_buckets rq' \<noteq> []
     \<and> (if rq_buckets rq \<noteq> [] \<and> target \<le> b_start (last (rq_buckets rq)) then rq' = rq else b_start (last (rq_buckets rq')) = target)
     \<and> length (rq_buckets rq') = ring_length rq target
     \<and> rq_closes est rq acc (windows_closed_by_advance rq target) rq' \<and> rq_late_events rq' = rq_late_events rq"
proof (cases "rq_buckets rq = []")
  case True
  obtain q where q: "qs_build (rq_sketch rq) (rq_hash rq) = Inr q" using rq_inv_D(8) [OF inv] by blast
  let ?cs = "[\<lparr>b_start = target, b_state = q\<rparr>]"
  have "acc = []" using inv True by (simp add: rq_inv_def)
  then have "rq_inv est (rq\<lparr>rq_buckets := ?cs, rq_key_buf := rq_key_buf rq, rq_distinct_buf := rq_distinct_buf rq\<rparr>) acc"
    using qs_build_holds [OF q] rq_inv_D(3) [OF inv] al inv
    by (intro rq_inv_buckets [OF inv]) (auto simp: ring_ok_def rq_inv_def)
  then show ?thesis using True pre push_bucket_eq [OF q]
    by (simp add: advance_to_bucket_def rq_fixed_def rq_closes_0 windows_closed_by_advance_def ring_length_def)
next
  case False
  note D = rq_inv_D [OF inv]
  let ?last = "b_start (last (rq_buckets rq))" and ?sl = "rq_slide rq" and ?n = "rq_bucket_count rq"
  define m where "m = unat ((target - ?last) div ?sl)"
  show ?thesis
  proof (cases "target \<le> ?last")
    case True
    then show ?thesis using False pre inv
      by (simp add: advance_to_bucket_def advance_while.simps Let_def leD rq_closes_0 windows_closed_by_advance_def ring_length_def)
  next
    case gt: False
    then have lt: "unat ?last < unat target" by (simp add: word_le_nat_alt)
    have "last (rq_buckets rq) \<in> set (rq_buckets rq)" using False by simp
    then have al': "unat ?sl dvd unat ?last" using D(6) by (simp add: ring_ok_def)
    have diff: "unat (target - ?last) = unat target - unat ?last" using lt by (simp add: unat_sub word_le_nat_alt)
    have m: "m * unat ?sl = unat target - unat ?last"
      unfolding m_def unat_div diff using al al' by (simp add: dvd_diff_nat)
    have "(unat target - unat ?last) div unat ?sl = m" using D(2) m [symmetric] by simp
    then have ring_len: "ring_length rq target = min ?n (length (rq_buckets rq) + m)"
      using False gt by (simp add: ring_length_def Let_def)
    have closed: "windows_closed_by_advance rq target = min m ?n"
      using False gt by (simp add: windows_closed_by_advance_def m_def Let_def)
    have room: "min m ?n + length (rq_emitted rq) \<le> rq_capacity rq"
      using pre ensure_emit_capacity_iff [OF inv] closed by (simp add: ensure_can_advance_def)
    have cmp: "word_of_nat ?n < (target - ?last) div ?sl \<longleftrightarrow> ?n < m"
      using D(4) by (simp add: word_less_nat_alt m_def)
    show ?thesis
    proof (cases "?n < m")
      case True
      then have "?n * unat ?sl < m * unat ?sl" using D(2) by simp
      then have far: "unat ?last + ?n * unat ?sl < unat target" using m lt by simp
      then obtain rq1 where r1: "advance_n est ?n rq = Some (rq1, Inr ())" "rq_advanced est rq acc ?n rq1"
        using advance_n_ok [OF inv False, of ?n] room True less_trans [OF far u64_less_exp] by auto
      then have r1': "rq_inv est rq1 acc" "rq_fixed rq rq1" "rq_buckets rq1 \<noteq> []"
        "unat (b_start (last (rq_buckets rq1))) = unat ?last + ?n * unat ?sl" by (simp_all add: rq_advanced_def)
      have old: "\<forall>(t, x) \<in> set acc. t \<le> ?last" using inv False by (simp add: rq_inv_def)
      have "(?n - 1) * unat ?sl \<le> ?n * unat ?sl" by (rule mult_le_mono1) simp
      then have "unat ?last + (?n - 1) * unat ?sl < unat target" using far by linarith
      then have "unat ?last + (rq_bucket_count rq1 - 1) * unat (rq_slide rq1) < unat target"
        using r1'(2) by (simp add: rq_fixed_def)
      from rebuild_trailing_ring_ok [OF r1'(1) _ old this] al r1'(2) obtain rq2 where
        "rebuild_trailing_ring rq1 target = Some (rq2, Inr ())" "rq_inv est rq2 acc" "rq_fixed rq1 rq2" "rq_buckets rq2 \<noteq> []"
        "b_start (last (rq_buckets rq2)) = target" "rq_late_events rq2 = rq_late_events rq1" "length (rq_buckets rq2) = ring_length rq target"
        and same: "rq_emitted rq2 = rq_emitted rq1" unfolding ring_len using True
        by (auto simp: rq_fixed_def)
      moreover have "rq_closes est rq acc ?n rq2"
        using r1(2) rq_closes_emitted [OF same] by (simp add: rq_advanced_def)
      ultimately show ?thesis using r1 r1'(2) False gt pre True cmp closed
        by (auto simp: advance_to_bucket_def Let_def rq_advanced_def min_absorb2 intro: rq_fixed_trans)
    next
      case small: False
      then have "m + length (rq_emitted rq) \<le> rq_capacity rq" "m \<le> ?n + 1" using room by simp_all
      from advance_while_ok [OF inv False this(1) _ this(2), of target] m lt obtain rq1 where
        "advance_while est (?n + 1) target rq = Some (rq1, Inr ())" "rq_advanced est rq acc m rq1" by auto
      moreover from this(2) have "unat (b_start (last (rq_buckets rq1))) = unat target" using m lt by (simp add: rq_advanced_def)
      ultimately show ?thesis using False gt pre small cmp closed
        by (auto simp: advance_to_bucket_def Let_def rq_advanced_def word_unat_eq_iff min_absorb1 ring_len)
    qed
  qed
qed

section \<open>Events\<close>

text \<open>The input an event gives a query, and the history entries it adds: none when the filter
  rejects the event or when its bucket has already left the ring.\<close>

definition rq_input :: "running_query \<Rightarrow> flow_event \<Rightarrow> qs_input" where
  "rq_input rq e = (key_of (map (\<lambda>f. ascii (field_extract f e)) (rq_group_fields rq)),
     (case rq_value_field rq of Some f \<Rightarrow> extract_value f e | None \<Rightarrow> 1),
     (case rq_distinct_field rq of Some f \<Rightarrow> ascii (field_extract f e) | None \<Rightarrow> []))"

definition rq_matches :: "running_query \<Rightarrow> flow_event \<Rightarrow> bool" where
  "rq_matches rq e = Predicate_matches (lq_filter (plan_query (rq_plan rq))) e"

definition event_bucket :: "running_query \<Rightarrow> flow_event \<Rightarrow> u64" where
  "event_bucket rq e = ts_nanos e - ts_nanos e mod rq_slide rq"

definition rq_late :: "running_query \<Rightarrow> flow_event \<Rightarrow> bool" where
  "rq_late rq e \<longleftrightarrow> rq_buckets rq \<noteq> [] \<and> event_bucket rq e < b_start (hd (rq_buckets rq))"

definition rq_accepts :: "running_query \<Rightarrow> flow_event \<Rightarrow> history" where
  "rq_accepts rq e = (if rq_matches rq e \<and> \<not> rq_late rq e then [(event_bucket rq e, rq_input rq e)] else [])"

lemma ss_add_key_buf_eq: "ss_add_key_buf s k w = map_option (\<lambda>s. (s, [])) (ss_add s k w)"
  by (simp add: ss_add_key_buf_def ss_add_def Let_def option.map_comp comp_def case_prod_beta' split: option.split)

lemma event_bucket_aligned: "unat (rq_slide rq) dvd unat (event_bucket rq e)"
proof -
  have "unat (event_bucket rq e) = unat (ts_nanos e) - unat (ts_nanos e) mod unat (rq_slide rq)"
    unfolding event_bucket_def by (simp add: unat_sub word_le_nat_alt unat_mod)
  then show ?thesis by (metis dvd_minus_mod)
qed

lemma update_bucket_ok:
  assumes inv: "rq_inv est rq acc" and i: "i < length (rq_buckets rq)"
  shows "\<exists>rq'. update_bucket est rq i e = Some (rq', Inr ())
     \<and> rq_inv est rq' (acc @ [(b_start (rq_buckets rq ! i), rq_input rq e)]) \<and> rq_fixed rq rq'
     \<and> map b_start (rq_buckets rq') = map b_start (rq_buckets rq)
     \<and> rq_emitted rq' = rq_emitted rq \<and> rq_late_events rq' = rq_late_events rq"
proof -
  let ?b = "rq_buckets rq ! i" and ?h = "qs_holds est (rq_sketch rq) (rq_hash rq)"
  obtain key w item where inp: "rq_input rq e = (key, w, item)" by (metis surj_pair)
  have key: "group_key_into (rq_group_fields rq) e (rq_key_buf rq) = Some key"
    using group_key_eq [of "rq_group_fields rq" e] inp by (simp add: group_key_def group_key_into_def rq_input_def)
  have w: "(case rq_value_field rq of Some f \<Rightarrow> extract_value f e | None \<Rightarrow> 1) = w" using inp by (simp add: rq_input_def)
  have item: "(case rq_distinct_field rq of Some f \<Rightarrow> field_value_into f e [] | None \<Rightarrow> Some (rq_distinct_buf rq)) = Some item"
    using inp inv by (auto simp: rq_input_def field_value_into_eq rq_inv_def split: option.splits)
  have buf: "rq_distinct_field rq = None \<Longrightarrow> item = []" using inp by (auto simp: rq_input_def)
  have "?h (b_state ?b) (in_bucket acc (b_start ?b))" using inv i by (simp add: rq_inv_def)
  from qs_update_holds [OF this, of key w item] obtain st where
    st: "qs_update est (b_state ?b) key w item = Some st" "?h st (in_bucket acc (b_start ?b) @ [(key, w, item)])" by blast
  let ?cs = "(rq_buckets rq)[i := ?b\<lparr>b_state := st\<rparr>]" and ?acc = "acc @ [(b_start ?b, rq_input rq e)]"
  obtain kb where run: "update_bucket est rq i e = Some (rq\<lparr>rq_buckets := ?cs, rq_key_buf := kb, rq_distinct_buf := item\<rparr>, Inr ())"
    using st(1) i unfolding update_bucket_def key w item
    by (cases "b_state ?b") (auto simp: ss_add_key_buf_eq)
  have starts: "map b_start ?cs = map b_start (rq_buckets rq)" using i by (simp add: map_update list_update_same_conv)
  have ring: "ring_ok (rq_slide rq) ?cs" using ring_ok_states [OF starts] inv by (simp add: rq_inv_def)
  have nth: "?h (b_state (?cs ! j)) (in_bucket ?acc (b_start (?cs ! j)))" if j: "j < length ?cs" for j
  proof (cases "j = i")
    case True
    then show ?thesis using st(2) i by (simp add: inp)
  next
    case False
    then have "b_start (rq_buckets rq ! j) \<noteq> b_start ?b"
      using ring_start_inj [OF rq_inv_D(6) [OF inv] rq_inv_D(1) [OF inv], of j i] j i by auto
    then show ?thesis using False inv j by (simp add: rq_inv_def)
  qed
  then have holds: "\<forall>b \<in> set ?cs. ?h (b_state b) (in_bucket ?acc (b_start b))" by (metis in_set_conv_nth)
  have ne: "rq_buckets rq \<noteq> []" using i by auto
  have last: "b_start (last ?cs) = b_start (last (rq_buckets rq))" using starts ne by (metis last_map list_update_nonempty)
  have "\<forall>(t, x) \<in> set acc. t \<le> b_start (last (rq_buckets rq))" using inv ne by (simp add: rq_inv_def)
  moreover have "b_start ?b \<le> b_start (last (rq_buckets rq))"
    using ring_start_le_last [OF rq_inv_D(6) [OF inv] i] .
  ultimately have bound: "\<forall>(t, x) \<in> set ?acc. t \<le> b_start (last ?cs)" unfolding last by auto
  have "rq_inv est (rq\<lparr>rq_buckets := ?cs, rq_key_buf := kb, rq_distinct_buf := item\<rparr>) ?acc"
    by (rule rq_inv_buckets [OF inv _ ring _ holds bound]) (use ne rq_inv_D(7) [OF inv] buf in simp_all)
  then show ?thesis using run starts by (simp add: rq_fixed_def)
qed

text \<open>The calls of an engine's owner.\<close>

datatype engine_op = Process flow_event | AdvanceTo u64 | Finish | Drain

text \<open>How many windows a call completes for a query.\<close>

definition windows_due :: "engine_op \<Rightarrow> running_query \<Rightarrow> nat" where
  "windows_due op rq = (case op of
       Process e \<Rightarrow> if rq_matches rq e then windows_closed_by_advance rq (event_bucket rq e) else 0
     | AdvanceTo t \<Rightarrow> windows_closed_by_advance rq (t - t mod rq_slide rq)
     | Finish \<Rightarrow> if rq_buckets rq = [] then 0 else 1
     | Drain \<Rightarrow> 0)"

lemma rq_process_ok:
  assumes inv: "rq_inv est rq acc" and pre: "ensure_can_process rq e = Some (Inr ())"
  shows "\<exists>rq'. rq_process est rq e = Some (rq', Inr ()) \<and> rq_inv est rq' (acc @ rq_accepts rq e) \<and> rq_fixed rq rq'
     \<and> rq_closes est rq acc (windows_due (Process e) rq) rq'
     \<and> rq_late_events rq' = rq_late_events rq + (if rq_matches rq e \<and> rq_late rq e then 1 else 0)"
proof (cases "rq_matches rq e")
  case False
  then show ?thesis using inv by (simp add: rq_process_def rq_matches_def rq_accepts_def rq_closes_0 windows_due_def)
next
  case match: True
  note D = rq_inv_D [OF inv]
  let ?s = "event_bucket rq e" and ?bs = "rq_buckets rq"
  have start: "bucket_start_for rq (ts_nanos e) = Some ?s" using D(1) by (simp add: bucket_start_for_def event_bucket_def word_neq_0_conv)
  have pre': "ensure_can_advance rq ?s = Inr ()"
    using pre match start by (simp add: ensure_can_process_def rq_matches_def)
  note al = event_bucket_aligned [of rq e]
  show ?thesis
  proof (cases "?bs \<noteq> [] \<and> b_start (last ?bs) = ?s")
    case True
    then have "?bs ! (length ?bs - 1) = last ?bs" "length ?bs - 1 < length ?bs" by (simp_all add: last_conv_nth)
    moreover have "\<not> rq_late rq e" using True ring_start_le_last [OF D(6), of 0] by (auto simp: rq_late_def hd_conv_nth)
    ultimately show ?thesis using True match start update_bucket_ok [OF inv, of "length ?bs - 1" e]
      by (auto simp: rq_process_def rq_matches_def rq_accepts_def rq_closes_0 windows_due_def windows_closed_by_advance_def)
  next
    case other: False
    obtain rq1 where r1: "advance_to_bucket est rq ?s = Some (rq1, Inr ())" "rq_inv est rq1 acc" "rq_fixed rq rq1" "rq_buckets rq1 \<noteq> []"
      "if ?bs \<noteq> [] \<and> ?s \<le> b_start (last ?bs) then rq1 = rq else b_start (last (rq_buckets rq1)) = ?s"
      "rq_late_events rq1 = rq_late_events rq" "rq_closes est rq acc (windows_closed_by_advance rq ?s) rq1"
      using advance_to_bucket_ok [OF inv pre' al] by blast
    have run: "rq_process est rq e = (case bucket_position ?s (rq_buckets rq1) of
            None \<Rightarrow> Some (rq1\<lparr>rq_late_events := rq_late_events rq1 + 1\<rparr>, Inr ())
          | Some i \<Rightarrow> update_bucket est rq1 i e)"
      using match start r1(1) unfolding rq_process_def rq_matches_def if_not_P [OF other] by (simp add: if_not_P [OF other])
    note D1 = rq_inv_D [OF r1(2)]
    have fixed: "rq_slide rq1 = rq_slide rq" "rq_input rq1 e = rq_input rq e" using r1(3) by (simp_all add: rq_fixed_def rq_input_def)
    show ?thesis
    proof (cases "rq_late rq e")
      case True
      then have "?s \<le> b_start (last ?bs)" using ring_start_le_last [OF D(6), of 0] by (auto simp: rq_late_def hd_conv_nth)
      then have "rq1 = rq" using r1(5) True by (simp add: rq_late_def)
      moreover have "bucket_position ?s ?bs = None" using bucket_position_None [OF D(6)] True by (simp add: rq_late_def)
      moreover have "rq_inv est (rq\<lparr>rq_late_events := rq_late_events rq + 1\<rparr>) acc"
        using inv by (simp add: rq_inv_def window_holds_def holds_window_def)
      ultimately show ?thesis using run True match r1(7) by (simp add: rq_accepts_def rq_fixed_def windows_due_def rq_closes_def)
    next
      case False
      have "b_start (hd (rq_buckets rq1)) \<le> ?s" "?s \<le> b_start (last (rq_buckets rq1))"
        using r1(4,5) False ring_start_le_last [OF D1(6), of 0] by (auto simp: rq_late_def hd_conv_nth not_less split: if_splits)
      from ring_position [OF D1(6) _ _ r1(4) this] al D1(1) fixed obtain i where
        i: "i < length (rq_buckets rq1)" "bucket_position ?s (rq_buckets rq1) = Some i" "b_start (rq_buckets rq1 ! i) = ?s" by auto
      from update_bucket_ok [OF r1(2) i(1), of e] obtain rq2 where
        r2: "update_bucket est rq1 i e = Some (rq2, Inr ())" "rq_inv est rq2 (acc @ [(?s, rq_input rq e)])" "rq_fixed rq1 rq2"
          "rq_emitted rq2 = rq_emitted rq1" "rq_late_events rq2 = rq_late_events rq1" unfolding i(3) fixed by blast
      have "rq_closes est rq acc (windows_due (Process e) rq) rq2"
        using r1(7) match unfolding rq_closes_emitted [OF r2(4)] by (simp add: windows_due_def)
      then show ?thesis using r2 run i(2) match False r1(6) rq_fixed_trans [OF r1(3) r2(3)] by (simp add: rq_accepts_def)
    qed
  qed
qed

section \<open>Engines\<close>

text \<open>The invariant of an engine, with one history per query.\<close>

definition qe_inv :: "(u8 \<Rightarrow> u8 list \<Rightarrow> f64) \<Rightarrow> query_engine \<Rightarrow> history list \<Rightarrow> bool" where
  "qe_inv est eng accs \<longleftrightarrow> list_all2 (rq_inv est) (qe_queries eng) accs"

lemma plan_of_ok:
  assumes "plan_of fp q = Some (Inr p)" "unat (size_nanos (lq_window q) div slide_nanos (lq_window q)) < 2 ^ 64 - 1"
  shows "plan_ok p"
proof -
  obtain n where n: "bucket_count (lq_window q) = Some n" and p: "plan_query p = q" "pp_window_buckets (plan_physical p) = n"
      "pp_pending_window_capacity (plan_physical p) = n"
    using plan_of_Inr [OF assms(1)] by metis
  have "0 < slide_nanos (lq_window q)" "n = max (unat (size_nanos (lq_window q) div slide_nanos (lq_window q))) 1"
    using n by (auto simp: bucket_count_def word_max_unat word_neq_0_conv split: if_splits)
  then show ?thesis using p assms(2) by (auto simp: plan_ok_def)
qed

lemma rq_new_inv:
  assumes "rq_new plan h = Inr rq" "plan_ok plan" "qs_build (pp_sketch (plan_physical plan)) h = Inr q"
  shows "rq_inv est rq []"
  using assms by (auto simp: rq_new_def rq_inv_def split: measure.splits)

lemma qe_new_inv:
  assumes "qe_new plans h = Inr eng" "\<forall>p \<in> set plans. plan_ok p"
  shows "qe_inv est eng (replicate (length (qe_queries eng)) [])"
proof -
  have "\<forall>rq \<in> set qs. rq_inv est rq []" if "rfold (qe_add_plan h) ps rs = Inr qs" "\<forall>p \<in> set ps. plan_ok p" "\<forall>rq \<in> set rs. rq_inv est rq []" for ps rs qs
    using that
  proof (induction ps arbitrary: rs)
    case (Cons p ps)
    then obtain rs' where rs': "qe_add_plan h p rs = Inr rs'" "rfold (qe_add_plan h) ps rs' = Inr qs" by (auto simp: rbind_Inr_iff)
    then obtain q rq where "qs_build (pp_sketch (plan_physical p)) h = Inr q" "rq_new p h = Inr rq" "rs' = rs @ [rq]"
      by (auto simp: qe_add_plan_def rbind_Inr_iff split: if_splits)
    then have "\<forall>rq \<in> set rs'. rq_inv est rq []" using Cons.prems(2,3) rq_new_inv by auto
    then show ?case using Cons.IH [OF rs'(2)] Cons.prems(2) by simp
  qed simp
  then show ?thesis using assms by (auto simp: qe_new_def rbind_Inr_iff qe_inv_def list_all2_conv_all_nth)
qed

text \<open>Preflight and step over all queries.\<close>

lemma check_all_total:
  assumes "\<And>q. q \<in> set qs \<Longrightarrow> \<exists>r. f q = Some r"
  shows "(check_all f qs = Some (Inr ()) \<and> (\<forall>q \<in> set qs. f q = Some (Inr ())))
     \<or> (\<exists>e. check_all f qs = Some (Inl e) \<and> (\<exists>q \<in> set qs. f q = Some (Inl e)))"
  using assms
proof (induction qs)
  case (Cons q qs)
  obtain r where r: "f q = Some r" using Cons.prems by auto
  then show ?case using Cons by (cases r) auto
qed simp

lemma step_all_ok:
  assumes "list_all2 P qs xs" "\<And>q x. q \<in> set qs \<Longrightarrow> P q x \<Longrightarrow> \<exists>q'. f q = Some (q', Inr ()) \<and> Q q x q'"
  shows "\<exists>qs'. step_all f qs = Some (qs', Inr ()) \<and> length qs' = length qs \<and> (\<forall>i < length qs. Q (qs ! i) (xs ! i) (qs' ! i))"
  using assms
proof (induction qs xs rule: list_all2_induct)
  case (Cons q qs x xs)
  obtain q' where "f q = Some (q', Inr ())" "Q q x q'" using Cons.prems [of q x] Cons.hyps(1) by auto
  moreover obtain qs' where "step_all f qs = Some (qs', Inr ())" "length qs' = length qs" "\<forall>i < length qs. Q (qs ! i) (xs ! i) (qs' ! i)"
    using Cons.IH Cons.prems by auto
  ultimately show ?case by (auto simp: nth_Cons split: nat.splits)
qed simp

lemma ensure_can_advance_cases:
  "ensure_can_advance rq t = Inr () \<or> (\<exists>m. ensure_can_advance rq t = Inl (Backpressure m))"
  by (simp add: ensure_can_advance_def ensure_emit_capacity_def)

lemma ensure_can_process_cases:
  assumes "rq_inv est rq acc"
  shows "ensure_can_process rq e = Some (Inr ()) \<or> (\<exists>m. ensure_can_process rq e = Some (Inl (Backpressure m)))"
  using rq_inv_D(1) [OF assms] ensure_can_advance_cases [of rq]
  by (auto simp: ensure_can_process_def bucket_start_for_def)

lemma windows_closed_le: "windows_closed_by_advance rq t \<le> rq_bucket_count rq"
  by (simp add: windows_closed_by_advance_def Let_def)

lemma drained_can_advance: "rq_inv est rq acc \<Longrightarrow> rq_emitted rq = [] \<Longrightarrow> ensure_can_advance rq t = Inr ()"
  using ensure_emit_capacity_iff [of est rq acc] windows_closed_le [of rq t] rq_inv_D(5) [of est rq acc]
  by (simp add: ensure_can_advance_def)

lemma drained_can_process: "rq_inv est rq acc \<Longrightarrow> rq_emitted rq = [] \<Longrightarrow> ensure_can_process rq e = Some (Inr ())"
  using rq_inv_D(1) [of est rq acc] drained_can_advance [of est rq acc]
  by (auto simp: ensure_can_process_def bucket_start_for_def)

text \<open>Preflight, then act: either every query takes its step, or nothing happens and some query
  has completed windows to drain.\<close>

lemma preflight_then_step:
  assumes all: "list_all2 P qs xs"
    and check: "\<And>q x. P q x \<Longrightarrow> f q = Some (Inr ()) \<or> (\<exists>m. f q = Some (Inl (Backpressure m))) \<and> rq_emitted q \<noteq> []"
    and step: "\<And>q x. P q x \<Longrightarrow> f q = Some (Inr ()) \<Longrightarrow> \<exists>q'. g q = Some (q', Inr ()) \<and> Q q x q'"
  obtains (applied) qs' where "check_all f qs = Some (Inr ())" "step_all g qs = Some (qs', Inr ())" "length qs' = length qs"
      "\<And>i. i < length qs \<Longrightarrow> Q (qs ! i) (xs ! i) (qs' ! i)"
  | (refused) q m where "check_all f qs = Some (Inl (Backpressure m))" "q \<in> set qs" "rq_emitted q \<noteq> []"
proof -
  have ex: "\<exists>x. P q x" if "q \<in> set qs" for q
    using that all by (auto simp: list_all2_conv_all_nth in_set_conv_nth)
  then have "\<exists>r. f q = Some r" if "q \<in> set qs" for q using that check by blast
  then consider "check_all f qs = Some (Inr ())" "\<forall>q \<in> set qs. f q = Some (Inr ())"
    | er q where "check_all f qs = Some (Inl er)" "q \<in> set qs" "f q = Some (Inl er)"
    using check_all_total [of qs f] by blast
  then show thesis
  proof cases
    case 1
    have "\<exists>qs'. step_all g qs = Some (qs', Inr ()) \<and> length qs' = length qs \<and> (\<forall>i < length qs. Q (qs ! i) (xs ! i) (qs' ! i))"
      by (rule step_all_ok [OF all]) (use step 1(2) in blast)
    then show thesis using 1(1) applied by blast
  next
    case (2 er q)
    obtain x where "P q x" using ex [OF 2(2)] by blast
    from check [OF this] 2(3) obtain m where "er = Backpressure m" "rq_emitted q \<noteq> []" by auto
    then show thesis using refused 2(1,2) by blast
  qed
qed

lemma rq_check_process:
  "rq_inv est q acc \<Longrightarrow> ensure_can_process q e = Some (Inr ()) \<or> (\<exists>m. ensure_can_process q e = Some (Inl (Backpressure m))) \<and> rq_emitted q \<noteq> []"
  using ensure_can_process_cases [of est q acc e] drained_can_process [of est q acc e] by auto

lemma rq_check_advance_ok:
  "rq_inv est q acc \<Longrightarrow> rq_check_advance t q = Some (Inr ()) \<or> (\<exists>m. rq_check_advance t q = Some (Inl (Backpressure m))) \<and> rq_emitted q \<noteq> []"
  using ensure_can_advance_cases [of q] drained_can_advance [of est q acc] rq_inv_D(1) [of est q acc]
  by (auto simp: rq_check_advance_def bucket_start_for_def)

lemma rq_advance_ok:
  assumes "rq_inv est q acc" "rq_check_advance t q = Some (Inr ())"
  shows "\<exists>q'. rq_advance est t q = Some (q', Inr ()) \<and> rq_inv est q' acc \<and> rq_fixed q q' \<and> rq_closes est q acc (windows_due (AdvanceTo t) q) q'"
proof -
  have start: "bucket_start_for q t = Some (t - t mod rq_slide q)" "unat (rq_slide q) dvd unat (t - t mod rq_slide q)"
    using rq_inv_D(1) [OF assms(1)] event_bucket_aligned [of q "FlowEvent_default\<lparr>ts_nanos := t\<rparr>"]
    by (auto simp: bucket_start_for_def event_bucket_def)
  then have "ensure_can_advance q (t - t mod rq_slide q) = Inr ()" using assms(2) by (simp add: rq_check_advance_def)
  from advance_to_bucket_ok [OF assms(1) this start(2)] start(1) show ?thesis by (auto simp: rq_advance_def windows_due_def)
qed

lemma rq_check_finish_ok:
  assumes "rq_inv est q acc"
  shows "rq_check_finish q = Some (Inr ()) \<or> (\<exists>m. rq_check_finish q = Some (Inl (Backpressure m))) \<and> rq_emitted q \<noteq> []"
proof (cases "rq_check_finish q = Some (Inr ())")
  case False
  then have "ensure_emit_capacity q 1 \<noteq> Inr ()" by (auto simp: rq_check_finish_def split: if_splits)
  moreover from this have "rq_emitted q \<noteq> []"
    using ensure_emit_capacity_iff [OF assms, of 1] rq_inv_D(3,5) [OF assms] by auto
  ultimately show ?thesis using False by (auto simp: rq_check_finish_def ensure_emit_capacity_def split: if_splits)
qed simp

lemma rq_finish_ok:
  assumes "rq_inv est q acc" "rq_check_finish q = Some (Inr ())"
  shows "\<exists>q'. rq_finish est q = Some (q', Inr ()) \<and> rq_inv est q' acc \<and> rq_fixed q q'
     \<and> rq_closes est q acc (windows_due Finish q) q'"
proof (cases "rq_buckets q = []")
  case False
  then have pre: "ensure_emit_capacity q 1 = Inr ()" using assms(2) by (simp add: rq_check_finish_def)
  then have room: "length (rq_emitted q) < rq_capacity q" using ensure_emit_capacity_iff [OF assms(1)] by simp
  from flush_window_ok [OF assms(1) False room refl] show ?thesis using False pre by (auto simp: rq_finish_def rq_fixed_def rq_closes_def windows_due_def)
qed (use assms in \<open>simp add: rq_finish_def rq_closes_def windows_due_def\<close>)

lemma qe_inv_step:
  assumes "length qs' = length (qe_queries eng)" "length accs = length (qe_queries eng)"
    "\<And>i. i < length (qe_queries eng) \<Longrightarrow> rq_inv est (qs' ! i) (accs ! i @ h (qe_queries eng ! i))"
  shows "qe_inv est (eng\<lparr>qe_queries := qs'\<rparr>) (map2 (\<lambda>q acc. acc @ h q) (qe_queries eng) accs)"
  using assms by (simp add: qe_inv_def list_all2_conv_all_nth)

definition qe_exec :: "(u8 \<Rightarrow> u8 list \<Rightarrow> f64) \<Rightarrow> engine_op \<Rightarrow> query_engine \<Rightarrow> query_engine step" where
  "qe_exec est op eng = (case op of Process e \<Rightarrow> qe_process est eng e | AdvanceTo t \<Rightarrow> qe_advance_to est eng t
     | Finish \<Rightarrow> qe_finish est eng | Drain \<Rightarrow> Some (fst (take_window_states eng), Inr ()))"

text \<open>What a call adds to the histories: the accepted inputs of an event that was applied.\<close>

definition extend :: "engine_op \<Rightarrow> unit result \<Rightarrow> query_engine \<Rightarrow> history list \<Rightarrow> history list" where
  "extend op r eng accs = (case (op, r) of
       (Process e, Inr _) \<Rightarrow> map2 (\<lambda>q acc. acc @ rq_accepts q e) (qe_queries eng) accs
     | _ \<Rightarrow> accs)"

inductive qe_trace :: "(u8 \<Rightarrow> u8 list \<Rightarrow> f64) \<Rightarrow> plan list \<Rightarrow> hash_spec \<Rightarrow> query_engine \<Rightarrow> history list \<Rightarrow> bool"
  for est plans h where
  start: "qe_new plans h = Inr eng \<Longrightarrow> qe_trace est plans h eng (replicate (length (qe_queries eng)) [])"
| call: "qe_trace est plans h eng accs \<Longrightarrow> qe_exec est op eng = Some (eng', r) \<Longrightarrow> qe_trace est plans h eng' (extend op r eng accs)"

lemma drain_inv:
  assumes "qe_inv est eng accs"
  shows "qe_inv est (fst (take_window_states eng)) accs"
proof -
  have "rq_inv est (q\<lparr>rq_emitted := []\<rparr>) acc" if "rq_inv est q acc" for q acc
    using that by (simp add: rq_inv_def)
  then show ?thesis using assms by (simp add: qe_inv_def take_window_states_def list_all2_map1 list_all2_conv_all_nth)
qed

lemma map2_same: "length xs = length ys \<Longrightarrow> map2 (\<lambda>x y. y) xs ys = ys"
  by (induction xs ys rule: list_induct2) simp_all

text \<open>Every call returns: it either succeeds and keeps the invariant, or reports backpressure and
  changes nothing.\<close>

lemma qe_exec_ok:
  assumes inv: "qe_inv est eng accs"
  shows "\<exists>eng' r. qe_exec est op eng = Some (eng', r) \<and> qe_inv est eng' (extend op r eng accs)
     \<and> (r = Inr () \<and> (op \<noteq> Drain \<longrightarrow> (\<forall>i < length (qe_queries eng).
            rq_closes est (qe_queries eng ! i) (accs ! i) (windows_due op (qe_queries eng ! i)) (qe_queries eng' ! i)
            \<and> rq_fixed (qe_queries eng ! i) (qe_queries eng' ! i)))
        \<or> (\<exists>m. r = Inl (Backpressure m)) \<and> eng' = eng \<and> pending_window_count eng \<noteq> 0)"
proof -
  let ?qs = "qe_queries eng"
  have all: "list_all2 (rq_inv est) ?qs accs" and len: "length accs = length ?qs"
    using inv by (simp_all add: qe_inv_def list_all2_lengthD)
  have pending: "pending_window_count eng \<noteq> 0" if "q \<in> set ?qs" "rq_emitted q \<noteq> []" for q
    using that by (auto simp: pending_window_count_def)
  have refused: "qe_inv est eng (extend op (Inl er) eng accs)" for er
    using inv by (simp add: extend_def split: engine_op.split)
  show ?thesis
  proof (cases op)
    case (Process e)
    show ?thesis
    proof (rule preflight_then_step [OF all, of "\<lambda>q. ensure_can_process q e" "\<lambda>q. rq_process est q e"
          "\<lambda>q acc q'. rq_inv est q' (acc @ rq_accepts q e) \<and> rq_closes est q acc (windows_due op q) q' \<and> rq_fixed q q'"])
      fix qs'
      assume a: "check_all (\<lambda>q. ensure_can_process q e) ?qs = Some (Inr ())" "step_all (\<lambda>q. rq_process est q e) ?qs = Some (qs', Inr ())"
        "length qs' = length ?qs" "\<And>i. i < length ?qs \<Longrightarrow> rq_inv est (qs' ! i) (accs ! i @ rq_accepts (?qs ! i) e)
           \<and> rq_closes est (?qs ! i) (accs ! i) (windows_due op (?qs ! i)) (qs' ! i) \<and> rq_fixed (?qs ! i) (qs' ! i)"
      let ?eng = "eng\<lparr>qe_events_processed := qe_events_processed eng + 1, qe_queries := qs'\<rparr>"
      have "qe_exec est op eng = Some (?eng, Inr ())" using a Process by (simp add: qe_exec_def qe_process_def preflighted_def)
      moreover have "qe_inv est ?eng (extend op (Inr ()) eng accs)"
        using qe_inv_step [OF a(3) len, of est "\<lambda>q. rq_accepts q e"] a(4) Process by (simp add: extend_def qe_inv_def)
      moreover have "\<forall>i < length ?qs. rq_closes est (?qs ! i) (accs ! i) (windows_due op (?qs ! i)) (qe_queries ?eng ! i) \<and> rq_fixed (?qs ! i) (qe_queries ?eng ! i)"
        using a(4) by simp
      ultimately show ?thesis by blast
    next
      fix q m
      assume "check_all (\<lambda>q. ensure_can_process q e) ?qs = Some (Inl (Backpressure m))" "q \<in> set ?qs" "rq_emitted q \<noteq> []"
      then show ?thesis using refused pending Process by (auto simp: qe_exec_def qe_process_def preflighted_def)
    qed (use rq_check_process rq_process_ok Process in blast)+
  next
    case (AdvanceTo t)
    show ?thesis
    proof (rule preflight_then_step [OF all, of "rq_check_advance t" "rq_advance est t" "\<lambda>q acc q'. rq_inv est q' acc \<and> rq_closes est q acc (windows_due op q) q' \<and> rq_fixed q q'"])
      fix qs'
      assume a: "check_all (rq_check_advance t) ?qs = Some (Inr ())" "step_all (rq_advance est t) ?qs = Some (qs', Inr ())"
        "length qs' = length ?qs" "\<And>i. i < length ?qs \<Longrightarrow> rq_inv est (qs' ! i) (accs ! i)
           \<and> rq_closes est (?qs ! i) (accs ! i) (windows_due op (?qs ! i)) (qs' ! i) \<and> rq_fixed (?qs ! i) (qs' ! i)"
      then show ?thesis using AdvanceTo len
        by (simp add: qe_exec_def qe_advance_to_def preflighted_def extend_def qe_inv_def list_all2_conv_all_nth)
    next
      fix q m
      assume "check_all (rq_check_advance t) ?qs = Some (Inl (Backpressure m))" "q \<in> set ?qs" "rq_emitted q \<noteq> []"
      then show ?thesis using refused pending AdvanceTo by (auto simp: qe_exec_def qe_advance_to_def preflighted_def)
    qed (use rq_check_advance_ok rq_advance_ok AdvanceTo in blast)+
  next
    case Finish
    show ?thesis
    proof (rule preflight_then_step [OF all, of rq_check_finish "rq_finish est" "\<lambda>q acc q'. rq_inv est q' acc \<and> rq_closes est q acc (windows_due op q) q' \<and> rq_fixed q q'"])
      fix qs'
      assume a: "check_all rq_check_finish ?qs = Some (Inr ())" "step_all (rq_finish est) ?qs = Some (qs', Inr ())"
        "length qs' = length ?qs" "\<And>i. i < length ?qs \<Longrightarrow> rq_inv est (qs' ! i) (accs ! i)
           \<and> rq_closes est (?qs ! i) (accs ! i) (windows_due op (?qs ! i)) (qs' ! i) \<and> rq_fixed (?qs ! i) (qs' ! i)"
      then show ?thesis using Finish len
        by (simp add: qe_exec_def qe_finish_def preflighted_def extend_def qe_inv_def list_all2_conv_all_nth)
    next
      fix q m
      assume "check_all rq_check_finish ?qs = Some (Inl (Backpressure m))" "q \<in> set ?qs" "rq_emitted q \<noteq> []"
      then show ?thesis using refused pending Finish by (auto simp: qe_exec_def qe_finish_def preflighted_def)
    qed (use rq_check_finish_ok rq_finish_ok Finish in blast)+
  next
    case Drain
    then show ?thesis using drain_inv [OF inv] by (simp add: qe_exec_def extend_def)
  qed
qed

lemma qe_trace_inv:
  assumes "qe_trace est plans h eng accs" "\<forall>p \<in> set plans. plan_ok p"
  shows "qe_inv est eng accs"
  using assms
proof (induction rule: qe_trace.induct)
  case (call eng accs op eng' r)
  then show ?case using qe_exec_ok [of est eng accs op] by auto
qed (simp add: qe_new_inv)

lemma qe_trace_closes:
  assumes "qe_trace est plans h eng accs" "\<forall>p \<in> set plans. plan_ok p" "qe_exec est op eng = Some (eng', Inr ())" "op \<noteq> Drain"
    and "i < length (qe_queries eng)"
  shows "rq_closes est (qe_queries eng ! i) (accs ! i) (windows_due op (qe_queries eng ! i)) (qe_queries eng' ! i)"
  using qe_exec_ok [OF qe_trace_inv [OF assms(1,2)], of op] assms(3-5) by auto

section \<open>Properties\<close>




text \<open>A small engine: heavy hitters by source port over tumbling windows of ten nanoseconds.\<close>

definition sample_plan :: plan where
  "sample_plan = \<lparr>plan_query = sample_query\<lparr>lq_group_by := [SrcPort], lq_measure := HeavyHitters Bytes 5,
       lq_window := \<lparr>size_nanos = 10, slide_nanos = 10\<rparr>\<rparr>,
     plan_physical = \<lparr>pp_sketch = PSpaceSaving 2, pp_window_buckets = 1, pp_pending_window_capacity = 1,
       pp_estimated_memory_bytes = 0, pp_estimated_state_memory_bytes = 0, pp_export_series_upper_bound = 5,
       pp_error_kind = CandidateUpperBound, pp_error_contract = [], pp_warnings = []\<rparr>\<rparr>"

definition sample_event :: flow_event where
  "sample_event = FlowEvent_default\<lparr>ts_nanos := 3, ev_bytes := 7\<rparr>"

lemma sample_engine:
  "\<exists>eng. qe_new [sample_plan] (HashSpec_new 0) = Inr eng \<and> qe_trace est [sample_plan] (HashSpec_new 0) eng [[]]"
proof -
  obtain eng where eng: "qe_new [sample_plan] (HashSpec_new 0) = Inr eng" "length (qe_queries eng) = 1"
    by (simp add: qe_new_def qe_add_plan_def rq_new_def sample_plan_def qs_build_def ss_new_def)
  then show ?thesis using qe_trace.start [OF eng(1), of est] by simp
qed

lemma sample_plan_ok: "\<forall>p \<in> set [sample_plan]. plan_ok p"
  by (simp add: plan_ok_def sample_plan_def)



text \<open>The same engine with another sketch.\<close>

definition sample_with :: "physical_sketch \<Rightarrow> plan" where
  "sample_with sk = sample_plan\<lparr>plan_physical := (plan_physical sample_plan)\<lparr>pp_sketch := sk\<rparr>\<rparr>"

lemma sample_with_ok: "\<forall>p \<in> set [sample_with sk]. plan_ok p"
  by (simp add: plan_ok_def sample_with_def sample_plan_def)

text \<open>One event, then the final flush: one completed window that holds the event.\<close>

lemma sample_run_of:
  assumes build: "qs_build sk (HashSpec_new 0) = Inr st"
  shows
  "\<exists>eng eng' w. qe_trace est [sample_with sk] (HashSpec_new 0) eng [[(0, ([48], 7, []))]] \<and> length (qe_queries eng) = 1
     \<and> rq_plan (qe_queries eng ! 0) = sample_with sk \<and> qe_exec est Finish eng = Some (eng', Inr ())
     \<and> rq_emitted (qe_queries eng ! 0) = [] \<and> rq_emitted (qe_queries eng' ! 0) = [w] \<and> windows_due Finish (qe_queries eng ! 0) = 1"
proof -
  obtain q0 where q0: "qe_new [sample_with sk] (HashSpec_new 0) = Inr \<lparr>qe_queries = [q0], qe_events_processed = 0\<rparr>"
    "rq_buckets q0 = []" "rq_emitted q0 = []" "rq_plan q0 = sample_with sk" "rq_group_fields q0 = [SrcPort]" "rq_value_field q0 = Some Bytes"
    "rq_distinct_field q0 = None"
    by (simp add: qe_new_def qe_add_plan_def rq_new_def sample_with_def sample_plan_def build)
  let ?e0 = "\<lparr>qe_queries = [q0], qe_events_processed = 0\<rparr>" and ?acc = "[(0, ([48], 7, []))]"
  have t0: "qe_trace est [sample_with sk] (HashSpec_new 0) ?e0 [[]]" using qe_trace.start [OF q0(1)] by simp
  have "rq_inv est q0 []" using qe_trace_inv [OF t0 sample_with_ok [of sk]] by (simp add: qe_inv_def)
  note pre = drained_can_process [OF this q0(3), of sample_event] and inv0 = this
  have shown: "map of_char (show_nat 0) = [48 :: u8]" by code_simp
  have "rq_accepts q0 sample_event = ?acc"
    by (simp add: rq_accepts_def rq_matches_def rq_late_def event_bucket_def rq_input_def q0 sample_with_def sample_plan_def sample_query_def
        sample_event_def Predicate_matches_def Predicate_default_def FlowEvent_default_def field_extract_def extract_value_def ascii_def shown)
  moreover have "windows_due (Process sample_event) q0 = 0" using q0(2) by (simp add: windows_due_def windows_closed_by_advance_def)
  ultimately obtain q1 where q1: "rq_process est q0 sample_event = Some (q1, Inr ())" "rq_inv est q1 ?acc" "rq_fixed q0 q1" "rq_emitted q1 = []"
    using rq_process_ok [OF inv0 pre] q0(3) by (auto simp: rq_closes_0)
  let ?e1 = "\<lparr>qe_queries = [q1], qe_events_processed = 1\<rparr>"
  have "qe_exec est (Process sample_event) ?e0 = Some (?e1, Inr ())"
    using q1(1) pre by (simp add: qe_exec_def qe_process_def preflighted_def)
  from qe_trace.call [OF t0 this] have t1: "qe_trace est [sample_with sk] (HashSpec_new 0) ?e1 [?acc]"
    using \<open>rq_accepts q0 sample_event = ?acc\<close> by (simp add: extend_def)
  have due: "windows_due Finish q1 = 1" using q1(2) by (auto simp: rq_inv_def windows_due_def)
  have fin: "rq_check_finish q1 = Some (Inr ())" using rq_check_finish_ok [OF q1(2)] q1(4) by simp
  from rq_finish_ok [OF q1(2) this] obtain q2 where q2: "rq_finish est q1 = Some (q2, Inr ())" "length (rq_emitted q2) = 1"
    using due q1(4) by (auto dest: rq_closes_length)
  then obtain w where "rq_emitted q2 = [w]" by (cases "rq_emitted q2") auto
  moreover have "qe_exec est Finish ?e1 = Some (\<lparr>qe_queries = [q2], qe_events_processed = 1\<rparr>, Inr ())"
    using q2(1) fin by (simp add: qe_exec_def qe_finish_def preflighted_def)
  ultimately show ?thesis using t1 q1(3,4) q0(4) due
    by (intro exI [of _ ?e1] exI [of _ "\<lparr>qe_queries = [q2], qe_events_processed = 1\<rparr>"] exI [of _ w]) (simp add: rq_fixed_def)
qed

lemma sample_run:
  "\<exists>eng eng' w. qe_trace est [sample_plan] (HashSpec_new 0) eng [[(0, ([48], 7, []))]] \<and> length (qe_queries eng) = 1
     \<and> rq_plan (qe_queries eng ! 0) = sample_plan \<and> qe_exec est Finish eng = Some (eng', Inr ())
     \<and> rq_emitted (qe_queries eng ! 0) = [] \<and> rq_emitted (qe_queries eng' ! 0) = [w] \<and> windows_due Finish (qe_queries eng ! 0) = 1"
proof -
  have "sample_with (PSpaceSaving 2) = sample_plan" by (simp add: sample_with_def sample_plan_def)
  then show ?thesis using sample_run_of [of "PSpaceSaving 2"] by (simp add: qs_build_def ss_new_def)
qed


end
