(* ===== verification/Exchange.thy ===== *)
theory Exchange
  imports QueryState "HOL-Library.Multiset"
begin

text \<open>
  Windows between processes: what \<^verbatim>\<open>WindowState::from_components\<close> makes of the component
  snapshots another process exported.  Whatever the bytes, it returns; the snapshots of a window
  that fits the format give back a state that holds the same inputs.
\<close>

section \<open>No bytes make it panic\<close>

text \<open>A merge of keyed distinct counters needs no more than a map without duplicate keys to
  return; configurations that differ are errors.\<close>

fun qs_safe :: "query_state \<Rightarrow> bool" where
  "qs_safe (QDistinctPerKey m) = hm_ok (hk_map m)"
| "qs_safe _ = True"

lemma hk_merge_slot_ok: "hk_merge_slot x m = Inr m' \<Longrightarrow> hm_ok m \<Longrightarrow> hm_ok m'"
  by (auto simp: hk_merge_slot_def rbind_Inr_iff split: prod.splits option.splits)

lemma hk_merge_total:
  assumes "hm_ok (hk_map a)"
  shows "\<exists>r. hk_merge_from est a b = Some r \<and> (\<forall>c. r = Inr c \<longrightarrow> hm_ok (hk_map c))"
proof (cases "rbind (ensure_matches (hk_compatibility a) (hk_compatibility b)) (\<lambda>_. rfold hk_merge_slot (hk_map b) (hk_map a))")
  case (Inr m)
  then have "hm_ok m" using assms by (auto simp: rbind_Inr_iff intro: rfold_invariant [where P = hm_ok] hk_merge_slot_ok)
  then have sync: "hk_sync est (rebuild_eviction_heap est (a\<lparr>hk_map := m\<rparr>))" by (intro hk_rebuild_inv(1)) simp
  from evict_excess_ok [OF this, of "length (hk_map (rebuild_eviction_heap est (a\<lparr>hk_map := m\<rparr>)))"] obtain c where
    "evict_excess est (length (hk_map (rebuild_eviction_heap est (a\<lparr>hk_map := m\<rparr>)))) (rebuild_eviction_heap est (a\<lparr>hk_map := m\<rparr>)) = Some c" "hk_sync est c"
    by auto
  then show ?thesis using Inr by (simp add: hk_merge_from_def Let_def hk_sync_def)
qed (simp add: hk_merge_from_def)

lemma qs_merge_total:
  assumes "qs_safe a"
  shows "\<exists>r. qs_merge_from est a b = Some r \<and> (\<forall>c. r = Inr c \<longrightarrow> qs_safe c)"
proof (cases "\<exists>m m'. a = QDistinctPerKey m \<and> b = QDistinctPerKey m'")
  case True
  then obtain m m' where ab: "a = QDistinctPerKey m" "b = QDistinctPerKey m'" by blast
  then obtain r where r: "hk_merge_from est m m' = Some r" "\<forall>c. r = Inr c \<longrightarrow> hm_ok (hk_map c)"
    using assms hk_merge_total [of m est m'] by auto
  then show ?thesis using ab by (cases r) simp_all
next
  case False
  then show ?thesis by (cases a; cases b) (auto simp: rbind_Inr_iff)
qed

lemma ws_merge_total:
  assumes "qs_safe (ws_state w)"
  shows "\<exists>r. ws_merge_from est w v = Some r \<and> (\<forall>c. r = Inr c \<longrightarrow> qs_safe (ws_state c) \<and> ws_start c = ws_start w \<and> ws_end c = ws_end w)"
proof -
  obtain r where r: "qs_merge_from est (ws_state w) (ws_state v) = Some r" "\<forall>c. r = Inr c \<longrightarrow> qs_safe c"
    using qs_merge_total [OF assms] by blast
  then show ?thesis by (cases r) (simp_all add: ws_merge_from_def)
qed

lemma qs_build_safe: "qs_build sk h = Inr q \<Longrightarrow> qs_safe q"
  by (erule qs_build_cases) (auto simp: hk_new_def rbind_Inr_iff split: if_splits)

lemma from_components_total:
  "\<exists>r. from_components est plan h cs = Some r \<and> (\<forall>w. r = Inr w \<longrightarrow> qs_safe (ws_state w))"
proof -
  let ?sk = "pp_sketch (plan_physical plan)"
  have "\<exists>r. pbind (Some (qs_build ?sk h)) (\<lambda>state. pbind (qs_merge_from est state parsed) (\<lambda>state.
          Some (Inr \<lparr>ws_state = state, ws_start = s, ws_end = e\<rparr>))) = Some r \<and> (\<forall>w. r = Inr w \<longrightarrow> qs_safe (ws_state w))" for parsed s e
  proof (cases "qs_build ?sk h")
    case (Inr q)
    obtain r where r: "qs_merge_from est q parsed = Some r" "\<forall>c. r = Inr c \<longrightarrow> qs_safe c"
      using qs_merge_total [OF qs_build_safe [OF Inr]] by blast
    then show ?thesis using Inr by (cases r) simp_all
  qed simp
  then show ?thesis unfolding from_components_def Let_def pbind_def
    by (auto split: option.split sum.split)
qed

section \<open>Snapshots of a window\<close>

lemma rd_advances:
  "rd_take n r = Inr (x, r') \<Longrightarrow> r' = rd_adv n r" "rd_u8 r = Inr (a, r') \<Longrightarrow> r' = rd_adv 1 r"
  "rd_u16 r = Inr (b, r') \<Longrightarrow> r' = rd_adv 2 r" "rd_u64 r = Inr (d, r') \<Longrightarrow> r' = rd_adv 8 r"
  by (simp_all add: rd_eqs split: if_splits)

lemma written_window:
  assumes "read_snapshot (write_snapshot h p q) = Inr (h', p', q')"
  shows "sh_window_start_nanos h' = sh_window_start_nanos h" "sh_window_end_nanos h' = sh_window_end_nanos h"
proof -
  have fam: "hs_family (sh_hash h) = Fsk1" by (cases "hs_family (sh_hash h)")
  let ?body = "snapshot_body h p q"
  have "read_body ?body = Inr (h', p', q')"
    using assms unfolding write_snapshot_eq by (subst (asm) read_snapshot_split) (simp_all add: length_snapshot_body)
  then obtain r0 r1 r2 r3 r4 r5 where "rd_take 4 (Reader_new ?body) = Inr (MAGIC, r0)" "rd_u16 r0 = Inr (sh_version h', r1)"
    and rd: "rd_u16 r1 = Inr (sh_algorithm_id h', r2)" "rd_u8 r2 = Inr (0, r3)" "rd_u64 r3 = Inr (hs_seed (sh_hash h'), r4)"
      "rd_u16 r4 = Inr (hs_version (sh_hash h'), r5)"
      "\<exists>r6 r7. rd_u64 r5 = Inr (sh_window_start_nanos h', r6) \<and> rd_u64 r6 = Inr (sh_window_end_nanos h', r7)"
    by (auto simp: read_body_def rbind_Inr_iff split: if_splits)
  then have r5: "r5 = rd_adv 2 (rd_adv 8 (rd_adv 1 (rd_adv 2 (rd_adv 2 (rd_adv 4 (Reader_new ?body))))))"
    by (blast dest: rd_advances)
  have "rd_rest r5 = wr_u64 (sh_window_start_nanos h) @ wr_u64 (sh_window_end_nanos h) @ wr_lp_bytes p @ wr_lp_bytes q"
    unfolding r5 snapshot_body_def by (simp del: drop_drop rd_adv_adv)
  then show "sh_window_start_nanos h' = sh_window_start_nanos h" "sh_window_end_nanos h' = sh_window_end_nanos h"
    using rd(5) by (auto simp: rd_u64_eq split: if_splits)
qed

text \<open>Decoders and encoders of the same window.\<close>

lemma rd_many_map:
  assumes "\<And>x r b. x \<in> set xs \<Longrightarrow> rd_rest r = enc x @ b \<Longrightarrow> rd r = Inr (dec x, rd_adv (length (enc x)) r)"
    and "rd_rest r = concat (map enc xs) @ b"
  shows "rd_many rd (length xs) r = Inr (map dec xs, rd_adv (length (concat (map enc xs))) r)"
  using assms
proof (induction xs arbitrary: r)
  case Nil
  then show ?case by (simp add: rd_adv_def)
next
  case (Cons x xs)
  have 1: "rd r = Inr (dec x, rd_adv (length (enc x)) r)"
    using Cons.prems by (intro Cons.prems(1) [where b = "concat (map enc xs) @ b"]) simp_all
  have 2: "rd_many rd (length xs) (rd_adv (length (enc x)) r)
      = Inr (map dec xs, rd_adv (length (concat (map enc xs))) (rd_adv (length (enc x)) r))"
    using Cons.prems by (intro Cons.IH) auto
  show ?case by (simp add: 1 2 del: length_concat)
qed

definition hk_enc :: "u64 \<Rightarrow> u64 \<Rightarrow> bytes \<times> hm_slot \<Rightarrow> bytes" where
  "hk_enc ws we = (\<lambda>(k, slot). wr_lp_bytes k @ wr_lp_bytes (hll_to_snapshot (sl_hll slot) ws we))"

text \<open>A keyed counter that fits the format.\<close>

definition hk_fits :: "(u8 \<Rightarrow> u8 list \<Rightarrow> f64) \<Rightarrow> u64 \<Rightarrow> u64 \<Rightarrow> hll_map \<Rightarrow> bool" where
  "hk_fits est ws we s \<longleftrightarrow> hk_inv est s \<and> (\<forall>x \<in> set (hk_map s). hll_inv (sl_hll (snd x))) \<and> hk_max_keys s < 2 ^ 64
     \<and> 20 + length (concat (map (hk_enc ws we) (hm_sorted (hk_map s)))) < 2 ^ 32"

text \<open>The slot a decoder rebuilds: the HyperLogLog in its smallest storage form, with a fresh cache.\<close>

definition hk_dec :: "(u8 \<Rightarrow> u8 list \<Rightarrow> f64) \<Rightarrow> bytes \<times> hm_slot \<Rightarrow> bytes \<times> hm_slot" where
  "hk_dec est = (\<lambda>(k, slot). let hll = (sl_hll slot)\<lparr>hl_storage := hll_norm (hl_storage (sl_hll slot))\<rparr>
     in (k, \<lparr>sl_hll = hll, sl_cached = hll_cardinality est hll, sl_dirty = False\<rparr>))"

lemma rd_hll_entry_append:
  assumes inv: "hll_inv (sl_hll (snd x))" and conf: "hll_config (sl_hll (snd x)) = (p, h)"
    and rest: "rd_rest r = hk_enc ws we x @ b" and len: "length (hk_enc ws we x) < 2 ^ 32"
  shows "rd_hll_entry est p h r = Inr (hk_dec est x, rd_adv (length (hk_enc ws we x)) r)"
proof -
  obtain k slot where x: "x = (k, slot)" by (cases x)
  let ?b = "hll_to_snapshot (sl_hll slot) ws we"
  have l: "length k < 2 ^ 32" "length ?b < 2 ^ 32" using len by (simp_all add: hk_enc_def x)
  have rest': "rd_rest r = wr_lp_bytes k @ wr_lp_bytes ?b @ b" using rest by (simp add: hk_enc_def x)
  then have rest1: "rd_rest (rd_adv (4 + length k) r) = wr_lp_bytes ?b @ b" by simp
  show ?thesis using rd_lp_bytes_append [OF rest' l(1)] rd_lp_bytes_append [OF rest1 l(2)] hll_decode_encode [OF inv, of ws we] conf
    by (simp add: x rd_hll_entry_def hk_enc_def hk_dec_def hll_config_def hll_compatibility_def add.assoc Let_def)
qed

lemma hm_sorted_mem: "hm_ok m \<Longrightarrow> x \<in> set (hm_sorted m) \<Longrightarrow> x \<in> set m"
  by (metis hm_get_mem hm_get_sorted hm_mem_get hm_ok_sorted surj_pair)

lemma hk_decode_encode:
  assumes fits: "hk_fits est ws we s"
  shows "\<exists>s'. hk_from_snapshot est (hk_to_snapshot s ws we) = Inr s' \<and> hk_same s s' \<and> hk_updates s' = hk_updates s"
proof -
  let ?es = "hm_sorted (hk_map s)"
  let ?enc = "concat (map (hk_enc ws we) ?es)"
  let ?p = "hk_precision s" and ?h = "hk_hash s"
  define n where "n = length (hk_map s)"
  have inv: "hk_inv est s" and mk: "hk_max_keys s < 2 ^ 64" and len: "20 + length ?enc < 2 ^ 32" using fits by (simp_all add: hk_fits_def)
  have ok: "hm_ok (hk_map s)" and pos: "0 < hk_max_keys s" "n \<le> hk_max_keys s" and p: "precision_ok ?p"
    using inv by (simp_all add: hk_inv_def hk_sync_def n_def)
  have es: "length ?es = n" by (simp add: n_def)
  have ge: "8 * length xs \<le> length (concat (map (hk_enc ws we) xs))" for xs by (induction xs) (auto simp: hk_enc_def split: prod.splits)
  have n8: "8 * n \<le> length ?enc" using ge [of ?es] unfolding es .
  then have n32: "n < 2 ^ 32" using len by linarith
  have one: "length (hk_enc ws we x) \<le> length ?enc" if "x \<in> set ?es" for x
    using that member_le_sum_list [of "length (hk_enc ws we x)" "map (length \<circ> hk_enc ws we) ?es"] by (simp add: length_concat comp_def)
  have entry: "rd_hll_entry est ?p ?h r = Inr (hk_dec est x, rd_adv (length (hk_enc ws we x)) r)"
    if x: "x \<in> set ?es" and r: "rd_rest r = hk_enc ws we x @ b" for x r b
  proof -
    have mem: "x \<in> set (hk_map s)" using hm_sorted_mem [OF ok x] .
    have "hk_hll s (fst x) = Some (sl_hll (snd x))" using hm_mem_get [OF ok, of "fst x" "snd x"] mem by (simp add: hk_hll_def)
    then have "hll_config (sl_hll (snd x)) = (?p, ?h)" "hll_inv (sl_hll (snd x))"
      using inv fits mem by (simp_all add: hk_inv_def hk_fits_def)
    then show ?thesis using rd_hll_entry_append [OF _ _ r] one [OF x] len by simp
  qed
  let ?payload = "wr_u64 (hk_updates s) @ wr_u64 (hk_evicted_keys s) @ wr_u32 (word_of_nat n) @ ?enc"
  let ?r = "rd_adv 4 (rd_adv 8 (rd_adv 8 (Reader_new ?payload)))"
  have rest: "rd_rest ?r = ?enc @ []" by (simp del: drop_drop rd_adv_adv)
  have many: "rd_many (rd_hll_entry est ?p ?h) n ?r = Inr (map (hk_dec est) ?es, rd_adv (length ?enc) ?r)"
    using rd_many_map [OF entry rest] unfolding es .
  have cnt: "rd_check_count n 8 ?r = Inr ()"
    using n8 rest by (simp add: rd_check_count_def rd_remaining_rest del: drop_drop rd_adv_adv length_concat)
  have w: "unat (word_of_nat (hk_max_keys s) :: u64) = hk_max_keys s" "unat (word_of_nat n :: u32) = n"
    using mk n32 by (simp_all del: u64_of_nat_unat u32_of_nat_unat add: u64_of_nat_unat u32_of_nat_unat)
  have enc: "hk_to_snapshot s ws we = write_snapshot \<lparr>sh_version = SNAPSHOT_VERSION, sh_algorithm_id = HLL_MAP,
         sh_hash = ?h, sh_window_start_nanos = ws, sh_window_end_nanos = we\<rparr> (wr_u64 (word_of_nat (hk_max_keys s)) @ wr_u8 ?p) ?payload"
    by (simp add: hk_to_snapshot_def hk_enc_def n_def)
  show ?thesis
    using many cnt w pos p len unfolding enc hk_from_snapshot_def
    by (simp add: read_write_snapshot rd_u8_eq rd_u64_eq rd_u32_eq hk_same_def rebuild_eviction_heap_def Let_def
        del: drop_drop rd_adv_adv length_concat u64_of_nat_unat u32_of_nat_unat)
qed

section \<open>A window is received as it was sent\<close>

text \<open>The states whose snapshots fit the format: the lengths of the parts stay below \<open>2^32\<close>, and
  counts have not wrapped below their errors.\<close>

fun state_fits :: "(u8 \<Rightarrow> u8 list \<Rightarrow> f64) \<Rightarrow> u64 \<Rightarrow> u64 \<Rightarrow> query_state \<Rightarrow> bool" where
  "state_fits est ws we (QHeavyHitters ss) = ss_wf ss"
| "state_fits est ws we (QCounter cm keys) = (cm_wf cm \<and> ss_wf keys)"
| "state_fits est ws we (QDistinctPerKey m) = hk_fits est ws we m"
| "state_fits est ws we (QDistinctGlobal hll) = True"
| "state_fits est ws we (QQuantile kll) = kll_wf kll"
| "state_fits est ws we (QEntropy ss hll) = ss_wf ss"

lemma ss_bound_cong:
  assumes "hm_ok es" "hm_ok fs" "\<And>k. hm_get es k = hm_get fs k"
  shows "ss_bound cap es t n = ss_bound cap fs t n"
proof -
  have "set es = set fs" using assms by (metis hm_get_mem hm_mem_get subrelI subset_antisym)
  moreover have "distinct es" "distinct fs" using assms(1,2) by (simp_all add: hm_ok_def distinct_map)
  ultimately have m: "mset es = mset fs" by (simp add: set_eq_iff_mset_eq_distinct)
  then have "mset (map ss_cnt es) = mset (map ss_cnt fs)" "length es = length fs"
    by (metis mset_map, metis mset_eq_length)
  then have "sum_list (map ss_cnt es) = sum_list (map ss_cnt fs)" by (metis sum_mset_sum_list)
  then show ?thesis using \<open>set es = set fs\<close> \<open>length es = length fs\<close> by (simp add: ss_bound_def)
qed

lemma ss_received:
  assumes has: "ss_has cap h s ys" and wf: "ss_wf s"
  shows "\<exists>s'. ss_from_snapshot (ss_to_snapshot s ws we) = Inr s' \<and> ss_has cap h s' ys"
proof -
  obtain s' where s': "ss_from_snapshot (ss_to_snapshot s ws we) = Inr s'" "ss_inv s'" "ss_heap s'" "ss_config s' = ss_config s"
      "ss_total_weight s' = ss_total_weight s" "ss_updates s' = ss_updates s" "\<And>k. ss_get s' k = ss_get s k"
    using ss_decode_encode [OF wf] by blast
  have inv: "ss_inv s" using wf by (simp add: ss_wf_def)
  have ok: "hm_ok (ss_entries s)" "hm_ok (ss_entries s')" using inv s'(2) by (simp_all add: ss_inv_def ss_keys_ok_def)
  have "hm_get (ss_entries s') k = hm_get (ss_entries s) k" for k using s'(7) ss_get_inv [OF inv] ss_get_inv [OF s'(2)] by simp
  from ss_bound_cong [OF ok(2,1) this] have "ss_summ s t n \<Longrightarrow> ss_summ s' t n" for t n
    using s'(2-5) by (simp add: ss_summ_def ss_config_def)
  then show ?thesis using has s' by (auto simp: ss_has_def)
qed

lemma hll_received:
  assumes has: "hll_has p h s ds"
  shows "\<exists>s'. hll_from_snapshot (hll_to_snapshot s ws we) = Inr s' \<and> hll_has p h s' ds"
proof -
  let ?s = "s\<lparr>hl_storage := hll_norm (hl_storage s)\<rparr>"
  have inv: "hll_inv s" using has by (simp add: hll_has_def hll_summ_def)
  have norm: "hll_holds ?s H" "hll_late ?s H" "hll_inv ?s" if "hll_holds s H" "hll_late s H" for H
    using that inv
    by (auto simp: hll_holds_def hll_late_def hll_inv_def hll_norm_def hll_storage_of_def split: register_storage.splits list.splits)
  have "hll_summ s (set ds)" using has by (simp add: hll_has_def)
  then have "hll_summ ?s (set ds)" using norm [of "(\<lambda>k. hash64 k (hs_seed (hl_hash s))) ` set ds"] unfolding hll_summ_def by simp
  then have "hll_has p h ?s ds" using has by (simp add: hll_has_def hll_config_def)
  then show ?thesis using hll_decode_encode [OF inv] by blast
qed

text \<open>The window bounds of an accepted snapshot are the ones it was written with.\<close>

definition covers :: "bytes \<Rightarrow> u64 \<Rightarrow> u64 \<Rightarrow> bool" where
  "covers bs ws we \<longleftrightarrow> (\<exists>h p q. read_snapshot bs = Inr (h, p, q) \<and> sh_window_start_nanos h = ws \<and> sh_window_end_nanos h = we)"

lemma coversI:
  assumes "bs = write_snapshot h p q" "read_snapshot bs = Inr x" "sh_window_start_nanos h = ws" "sh_window_end_nanos h = we"
  shows "covers bs ws we"
proof -
  obtain h' p' q' where x: "x = (h', p', q')" by (cases x)
  show ?thesis using assms written_window [of h p q h' p' q'] by (auto simp: covers_def x)
qed

lemma snapshots_cover:
  "ss_from_snapshot (ss_to_snapshot s ws we) = Inr s' \<Longrightarrow> covers (ss_to_snapshot s ws we) ws we"
  "cm_from_snapshot (cm_to_snapshot c ws we) = Inr c' \<Longrightarrow> covers (cm_to_snapshot c ws we) ws we"
  "hll_from_snapshot (hll_to_snapshot l ws we) = Inr l' \<Longrightarrow> covers (hll_to_snapshot l ws we) ws we"
  "kll_from_snapshot (kll_to_snapshot k ws we) = Inr k' \<Longrightarrow> covers (kll_to_snapshot k ws we) ws we"
  "hk_from_snapshot est (hk_to_snapshot m ws we) = Inr m' \<Longrightarrow> covers (hk_to_snapshot m ws we) ws we"
  unfolding ss_to_snapshot_def cm_to_snapshot_def hll_to_snapshot_def kll_to_snapshot_def hk_to_snapshot_def Let_def
    ss_from_snapshot_def cm_from_snapshot_def hll_from_snapshot_def kll_from_snapshot_def hk_from_snapshot_def rbind_Inr_iff
  by (elim exE conjE, erule coversI [OF refl], simp, simp)+

lemma accept_one: "covers bs ws we \<Longrightarrow> rfold (accept_component [n]) [(n, bs)] (None, []) = Inr (Some (ws, we), [(n, bs)])"
  by (auto simp: accept_component_def covers_def)

lemma accept_two:
  "n \<noteq> m \<Longrightarrow> covers bs ws we \<Longrightarrow> covers cs ws we \<Longrightarrow>
   rfold (accept_component [n, m]) [(n, bs), (m, cs)] (None, []) = Inr (Some (ws, we), [(m, cs), (n, bs)])"
  by (auto simp: accept_component_def covers_def)

lemma from_components_accepts:
  assumes "component_names (pp_sketch (plan_physical plan)) = Inr names"
    and "rfold (accept_component names) cs (None, []) = Inr (Some (ws, we), by_name)"
    and "from_snapshots est (pp_sketch (plan_physical plan)) by_name = Inr parsed"
    and "qs_build (pp_sketch (plan_physical plan)) h = Inr q0"
    and "qs_holds est (pp_sketch (plan_physical plan)) h parsed xs"
  shows "\<exists>w. from_components est plan h cs = Some (Inr w) \<and> ws_start w = ws \<and> ws_end w = we
     \<and> qs_holds est (pp_sketch (plan_physical plan)) h (ws_state w) xs"
proof -
  obtain c where "qs_merge_from est q0 parsed = Some (Inr c)" "qs_holds est (pp_sketch (plan_physical plan)) h c ([] @ xs)"
    using qs_merge_holds [OF qs_build_holds [OF assms(4)] assms(5)] by blast
  then show ?thesis using assms(1-4) by (simp add: from_components_def)
qed

lemmas component_name_defs = SPACESAVING_def COUNT_MIN_NAME_def KEYS_SPACESAVING_def HLLMAP_def HLL_def KLL_NAME_def
  HEAD_SPACESAVING_def TAIL_HLL_def

lemma window_received:
  assumes holds: "qs_holds est (pp_sketch (plan_physical plan)) h q xs" and fits: "state_fits est ws we q"
    and build: "qs_build (pp_sketch (plan_physical plan)) h = Inr q0"
  shows "\<exists>w. from_components est plan h (to_snapshots q ws we) = Some (Inr w) \<and> ws_start w = ws \<and> ws_end w = we
     \<and> qs_holds est (pp_sketch (plan_physical plan)) h (ws_state w) xs"
  using holds
proof (cases rule: qs_holds_cases)
  case (heavy_hitters cap ss)
  then obtain s' where s': "ss_from_snapshot (ss_to_snapshot ss ws we) = Inr s'" "ss_has cap h s' (weighted xs)"
    using holds fits ss_received [of cap h ss "weighted xs" ws we] by auto
  show ?thesis unfolding heavy_hitters(2) to_snapshots.simps
    by (rule from_components_accepts [OF _ accept_one [OF snapshots_cover(1) [OF s'(1)]] _ build, where parsed = "QHeavyHitters s'"])
      (use heavy_hitters s' snapshots_cover(1) [OF s'(1)] in \<open>simp_all add: component_names_def from_snapshots_def get_component_def\<close>)
next
  case (per_key mk p m)
  then obtain s' where s': "hk_from_snapshot est (hk_to_snapshot m ws we) = Inr s'" "hk_same m s'" "hk_updates s' = hk_updates m"
    using fits hk_decode_encode [of est ws we m] by auto
  show ?thesis unfolding per_key(2) to_snapshots.simps
    by (rule from_components_accepts [OF _ accept_one [OF snapshots_cover(5) [OF s'(1)]] _ build, where parsed = "QDistinctPerKey s'"])
      (use per_key s' holds snapshots_cover(5) [OF s'(1)] hk_decoded_inv [OF s'(1)] in
        \<open>simp_all add: component_names_def from_snapshots_def get_component_def hk_same_def\<close>)
next
  case (global p hll)
  then obtain s' where s': "hll_from_snapshot (hll_to_snapshot hll ws we) = Inr s'" "hll_has p h s' (map (\<lambda>(k, w, d). d) xs)"
    using holds hll_received [of p h hll _ ws we] by auto
  show ?thesis unfolding global(2) to_snapshots.simps
    by (rule from_components_accepts [OF _ accept_one [OF snapshots_cover(3) [OF s'(1)]] _ build, where parsed = "QDistinctGlobal s'"])
      (use global s' snapshots_cover(3) [OF s'(1)] in \<open>simp_all add: component_names_def from_snapshots_def get_component_def\<close>)
next
  case (quantile k kll)
  then have s': "kll_from_snapshot (kll_to_snapshot kll ws we) = Inr kll" using fits kll_decode_encode by simp
  show ?thesis unfolding quantile(2) to_snapshots.simps
    by (rule from_components_accepts [OF _ accept_one [OF snapshots_cover(4) [OF s']] _ build, where parsed = "QQuantile kll"])
      (use quantile s' holds snapshots_cover(4) [OF s'] in \<open>simp_all add: component_names_def from_snapshots_def get_component_def\<close>)
next
  case (counter cap wd dp c cm ss)
  then have c': "cm_from_snapshot (cm_to_snapshot cm ws we) = Inr cm" using fits cm_decode_encode by simp
  obtain s' where s': "ss_from_snapshot (ss_to_snapshot ss ws we) = Inr s'" "ss_has cap h s' (weighted xs)"
    using counter holds fits ss_received [of cap h ss "weighted xs" ws we] by auto
  show ?thesis unfolding counter(2) to_snapshots.simps
    by (rule from_components_accepts [OF _ accept_two [OF _ snapshots_cover(2) [OF c'] snapshots_cover(1) [OF s'(1)]] _ build, where parsed = "QCounter cm s'"])
      (use counter c' s' holds snapshots_cover(2) [OF c'] snapshots_cover(1) [OF s'(1)] in
        \<open>simp_all add: component_names_def from_snapshots_def get_component_def component_name_defs\<close>)
next
  case (entropy cap p ss hll)
  then obtain s' where s': "ss_from_snapshot (ss_to_snapshot ss ws we) = Inr s'" "ss_has cap h s' (item_counts xs)"
    using holds fits ss_received [of cap h ss "item_counts xs" ws we] by auto
  obtain l' where l': "hll_from_snapshot (hll_to_snapshot hll ws we) = Inr l'" "hll_has p h l' (map (\<lambda>(k, w, d). d) xs)"
    using entropy holds hll_received [of p h hll _ ws we] by auto
  show ?thesis unfolding entropy(2) to_snapshots.simps
    by (rule from_components_accepts [OF _ accept_two [OF _ snapshots_cover(1) [OF s'(1)] snapshots_cover(3) [OF l'(1)]] _ build, where parsed = "QEntropy s' l'"])
      (use entropy l' s' holds snapshots_cover(1) [OF s'(1)] snapshots_cover(3) [OF l'(1)] in
        \<open>simp_all add: component_names_def from_snapshots_def get_component_def component_name_defs\<close>)
qed

end
