(* ===== verification/PushBatch.thy ===== *)
theory PushBatch
  imports SnapshotFormat Field QueryIr
begin

text \<open>
  \<^verbatim>\<open>flowsketch-gateway/src/batch.rs\<close>: the \<open>FSKB\<close> envelope in which an agent pushes the component
  snapshots of its windows to the gateway.

  A Rust string is a \<open>string\<close> whose characters are its UTF-8 bytes, so \<open>ascii\<close> gives its bytes.
  \<open>utf8_decode\<close> is the well-formedness check of \<^verbatim>\<open>String::from_utf8\<close>, and \<open>is_whitespace\<close>
  the property \<^verbatim>\<open>str::trim\<close> strips by.
\<close>

section \<open>Text\<close>

definition is_cont :: "u8 \<Rightarrow> bool" where
  "is_cont b \<longleftrightarrow> 0x80 \<le> b \<and> b \<le> 0xBF"

definition cont_bits :: "u8 \<Rightarrow> nat" where
  "cont_bits b = unat b mod 64"

fun utf8_decode :: "bytes \<Rightarrow> nat list option" where
  "utf8_decode [] = Some []"
| "utf8_decode (b # bs) =
     (if b < 0x80 then map_option ((#) (unat b)) (utf8_decode bs)
      else if 0xC2 \<le> b \<and> b \<le> 0xDF then
        (case bs of c # cs \<Rightarrow>
           if is_cont c then map_option ((#) (unat b mod 32 * 64 + cont_bits c)) (utf8_decode cs) else None
         | [] \<Rightarrow> None)
      else if 0xE0 \<le> b \<and> b \<le> 0xEF then
        (case bs of c # d # ds \<Rightarrow>
           if is_cont c \<and> is_cont d \<and> (b = 0xE0 \<longrightarrow> 0xA0 \<le> c) \<and> (b = 0xED \<longrightarrow> c \<le> 0x9F)
           then map_option ((#) (unat b mod 16 * 4096 + cont_bits c * 64 + cont_bits d)) (utf8_decode ds) else None
         | _ \<Rightarrow> None)
      else if 0xF0 \<le> b \<and> b \<le> 0xF4 then
        (case bs of c # d # e # es \<Rightarrow>
           if is_cont c \<and> is_cont d \<and> is_cont e \<and> (b = 0xF0 \<longrightarrow> 0x90 \<le> c) \<and> (b = 0xF4 \<longrightarrow> c \<le> 0x8F)
           then map_option ((#) (unat b mod 8 * 262144 + cont_bits c * 4096 + cont_bits d * 64 + cont_bits e)) (utf8_decode es)
           else None
         | _ \<Rightarrow> None)
      else None)"

definition is_whitespace :: "nat \<Rightarrow> bool" where
  "is_whitespace c \<longleftrightarrow> 0x09 \<le> c \<and> c \<le> 0x0D \<or> c = 0x20 \<or> c = 0x85 \<or> c = 0xA0 \<or> c = 0x1680
     \<or> 0x2000 \<le> c \<and> c \<le> 0x200A \<or> c = 0x2028 \<or> c = 0x2029 \<or> c = 0x202F \<or> c = 0x205F \<or> c = 0x3000"

definition text_of :: "bytes \<Rightarrow> string" where
  "text_of = map (\<lambda>b. char_of (unat b))"

lemma of_char_char_of [simp]: "(of_char (char_of (unat b)) :: u8) = b"
proof -
  have "(of_char (char_of (unat b)) :: u8) = of_nat (of_char (char_of (unat b) :: char))" by (rule of_nat_of_char [symmetric])
  also have "(of_char (char_of (unat b) :: char) :: nat) = unat b"
    using unsigned_less [of b, where 'a = nat] by simp
  finally show ?thesis by simp
qed

lemma char_of_of_char [simp]: "char_of (unat (of_char c :: u8)) = c"
proof -
  have "unat (of_char c :: u8) = of_char c"
    using of_nat_of_char [of c, where 'a = u8, symmetric] by (simp add: unsigned_of_nat take_bit_eq_mod)
  then show ?thesis by simp
qed

lemma ascii_text_of [simp]: "ascii (text_of bs) = bs"
  by (induction bs) (simp_all add: ascii_def text_of_def)

lemma text_of_ascii [simp]: "text_of (ascii s) = s"
  by (induction s) (simp_all add: ascii_def text_of_def)

lemma length_ascii [simp]: "length (ascii s) = length s"
  by (simp add: ascii_def)

section \<open>Batches\<close>

definition BATCH_MAGIC :: bytes where
  "BATCH_MAGIC = ascii ''FSKB''"

definition BATCH_VERSION :: u16 where
  "BATCH_VERSION = 1"

definition MAX_ENTRIES :: nat where
  "MAX_ENTRIES = 4096"

definition MAX_NODE_NAME_BYTES :: nat where
  "MAX_NODE_NAME_BYTES = 253"

definition MAX_COMPONENT_NAME_BYTES :: nat where
  "MAX_COMPONENT_NAME_BYTES = 128"

record push_entry =
  pe_query_name :: string
  pe_component :: string
  pe_snapshot :: bytes

record push_batch =
  pb_node :: string
  pb_entries :: "push_entry list"

definition wr_entry :: "push_entry \<Rightarrow> bytes" where
  "wr_entry e = wr_lp_bytes (ascii (pe_query_name e)) @ wr_lp_bytes (ascii (pe_component e)) @ wr_lp_bytes (pe_snapshot e)"

definition batch_encode :: "push_batch \<Rightarrow> bytes" where
  "batch_encode b =
     (let buf = BATCH_MAGIC @ wr_u16 BATCH_VERSION @ wr_lp_bytes (ascii (pb_node b))
          @ wr_u32 (word_of_nat (length (pb_entries b))) @ concat (map wr_entry (pb_entries b))
      in buf @ wr_u64 (hash64 buf 0))"

definition utf8_bounded :: "bytes \<Rightarrow> nat \<Rightarrow> string result" where
  "utf8_bounded bs max_bytes =
     (if bs = [] then Inl (Snapshot ''push batch identifier must not be empty'')
      else if max_bytes < length bs then Inl (Snapshot ''push batch identifier is too long'')
      else case utf8_decode bs of
             None \<Rightarrow> Inl (Snapshot ''push batch identifier is not UTF-8'')
           | Some cs \<Rightarrow> if list_all is_whitespace cs then Inl (Snapshot ''push batch identifier must not be blank'')
                        else Inr (text_of bs))"

definition rd_entry :: "reader \<Rightarrow> (push_entry \<times> reader) result" where
  "rd_entry r =
     rbind (rd_lp_bytes r) (\<lambda>(q, r).
     rbind (utf8_bounded q MAX_QUERY_NAME_BYTES) (\<lambda>query_name.
     rbind (rd_lp_bytes r) (\<lambda>(c, r).
     rbind (utf8_bounded c MAX_COMPONENT_NAME_BYTES) (\<lambda>component.
     rbind (rd_lp_bytes r) (\<lambda>(snapshot, r).
     Inr (\<lparr>pe_query_name = query_name, pe_component = component, pe_snapshot = snapshot\<rparr>, r))))))"

text \<open>The part of \<^verbatim>\<open>decode\<close> after the checksum has been verified.\<close>

definition decode_body :: "bytes \<Rightarrow> push_batch result" where
  "decode_body body =
     rbind (rd_take 4 (Reader_new body)) (\<lambda>(magic, r).
     if magic \<noteq> BATCH_MAGIC then Inl (Snapshot ''bad magic (expected FSKB)'') else
     rbind (rd_u16 r) (\<lambda>(version, r).
     if version \<noteq> BATCH_VERSION then Inl (Snapshot ''unsupported push batch version'') else
     rbind (rd_lp_bytes r) (\<lambda>(n, r).
     rbind (utf8_bounded n MAX_NODE_NAME_BYTES) (\<lambda>node.
     rbind (rd_u32 r) (\<lambda>(count, r).
     if MAX_ENTRIES < unat count then Inl (Snapshot ''push batch declares too many entries'') else
     rbind (rd_many rd_entry (unat count) r) (\<lambda>(entries, r).
     if rd_remaining r \<noteq> 0 then Inl (Snapshot ''trailing bytes after push batch entries'') else
     Inr \<lparr>pb_node = node, pb_entries = entries\<rparr>))))))"

definition batch_decode :: "bytes \<Rightarrow> push_batch result" where
  "batch_decode bs =
     (if length bs < 4 + 2 + 4 + 4 + 8 then Inl (Snapshot ''push batch too short'')
      else let body = take (length bs - 8) bs; tail = drop (length bs - 8) bs in
        if hash64 body 0 \<noteq> le_word tail then Inl (Snapshot ''push batch checksum mismatch'')
        else decode_body body)"

section \<open>The batches of the format\<close>

definition ident_ok :: "nat \<Rightarrow> string \<Rightarrow> bool" where
  "ident_ok n s \<longleftrightarrow> s \<noteq> [] \<and> length s \<le> n \<and> (\<exists>cs. utf8_decode (ascii s) = Some cs \<and> \<not> list_all is_whitespace cs)"

definition entry_ok :: "push_entry \<Rightarrow> bool" where
  "entry_ok e \<longleftrightarrow> ident_ok MAX_QUERY_NAME_BYTES (pe_query_name e) \<and> ident_ok MAX_COMPONENT_NAME_BYTES (pe_component e)
     \<and> length (pe_snapshot e) < 2 ^ 32"

definition batch_ok :: "push_batch \<Rightarrow> bool" where
  "batch_ok b \<longleftrightarrow> ident_ok MAX_NODE_NAME_BYTES (pb_node b) \<and> length (pb_entries b) \<le> MAX_ENTRIES \<and> (\<forall>e \<in> set (pb_entries b). entry_ok e)"

lemma utf8_bounded_iff: "utf8_bounded bs n = Inr s \<longleftrightarrow> ascii s = bs \<and> ident_ok n s"
proof -
  have "ascii s = bs \<longleftrightarrow> s = text_of bs" by auto
  then show ?thesis by (auto simp: utf8_bounded_def ident_ok_def text_of_def split: option.splits if_splits)
qed

lemma utf8_bounded_ascii [simp]: "ident_ok n s \<Longrightarrow> utf8_bounded (ascii s) n = Inr s"
  by (simp add: utf8_bounded_iff)

definition batch_body :: "push_batch \<Rightarrow> bytes" where
  "batch_body b = BATCH_MAGIC @ wr_u16 BATCH_VERSION @ wr_lp_bytes (ascii (pb_node b))
     @ wr_u32 (word_of_nat (length (pb_entries b))) @ concat (map wr_entry (pb_entries b))"

lemma batch_encode_eq: "batch_encode b = batch_body b @ wr_u64 (hash64 (batch_body b) 0)"
  by (simp add: batch_encode_def batch_body_def)

lemma length_BATCH_MAGIC [simp]: "length BATCH_MAGIC = 4"
  by (simp add: BATCH_MAGIC_def)

lemma length_batch_body: "14 \<le> length (batch_body b)"
  by (simp add: batch_body_def)

lemma batch_decode_split:
  "14 \<le> length body \<Longrightarrow> length tail = 8 \<Longrightarrow> batch_decode (body @ tail) =
     (if hash64 body 0 \<noteq> le_word tail then Inl (Snapshot ''push batch checksum mismatch'') else decode_body body)"
  by (simp add: batch_decode_def)

lemma ident_ok_small: "ident_ok n s \<Longrightarrow> n < 2 ^ 32 \<Longrightarrow> length (ascii s) < 2 ^ 32"
  by (auto simp: ident_ok_def)

lemma rd_entry_append:
  assumes "entry_ok e" "rd_rest r = wr_entry e @ b"
  shows "rd_entry r = Inr (e, rd_adv (length (wr_entry e)) r)"
proof -
  have small: "length (ascii (pe_query_name e)) < 2 ^ 32" "length (ascii (pe_component e)) < 2 ^ 32" "length (pe_snapshot e) < 2 ^ 32"
    using assms(1) by (auto simp: entry_ok_def MAX_QUERY_NAME_BYTES_def MAX_COMPONENT_NAME_BYTES_def dest: ident_ok_small)
  note step = rd_lp_bytes_append [OF _ small(1)] rd_lp_bytes_append [OF _ small(2)] rd_lp_bytes_append [OF _ small(3)]
  let ?c = "wr_lp_bytes (ascii (pe_component e))" and ?s = "wr_lp_bytes (pe_snapshot e)"
  let ?r1 = "rd_adv (4 + length (pe_query_name e)) r" and ?r2 = "rd_adv (4 + length (pe_component e)) (rd_adv (4 + length (pe_query_name e)) r)"
  have rest: "rd_rest r = wr_lp_bytes (ascii (pe_query_name e)) @ ?c @ ?s @ b" using assms(2) by (simp add: wr_entry_def)
  then have rest1: "rd_rest ?r1 = ?c @ ?s @ b" by simp
  then have rest2: "rd_rest ?r2 = ?s @ b" by (simp del: rd_adv_adv)
  show ?thesis using step(1) [OF rest] step(2) [OF rest1] step(3) [OF rest2] assms(1)
    by (simp add: rd_entry_def entry_ok_def wr_entry_def add.assoc)
qed

lemma rd_entry_consumes:
  assumes "rd_entry r = Inr (e, r')"
  shows "rd_rest r = wr_entry e @ rd_rest r' \<and> entry_ok e"
  using assms
  by (auto simp: rd_entry_def rbind_Inr_iff utf8_bounded_iff wr_entry_def entry_ok_def dest!: rd_lp_bytes_consumes)

lemma decode_body_encode:
  assumes ok: "batch_ok b"
  shows "decode_body (batch_body b) = Inr b"
proof -
  define n where "n = length (pb_node b)"
  have node: "length (ascii (pb_node b)) < 2 ^ 32" and idn: "ident_ok MAX_NODE_NAME_BYTES (pb_node b)"
    and es: "\<And>e. e \<in> set (pb_entries b) \<Longrightarrow> entry_ok e" and len: "length (pb_entries b) \<le> MAX_ENTRIES"
    using ok by (auto simp: batch_ok_def MAX_NODE_NAME_BYTES_def dest: ident_ok_small)
  have cnt: "unat (word_of_nat (length (pb_entries b)) :: u32) = length (pb_entries b)"
    using len by (intro u32_of_nat_unat) (simp add: MAX_ENTRIES_def)
  let ?r0 = "rd_adv 2 (rd_adv 4 (Reader_new (batch_body b)))"
  let ?r1 = "rd_adv (4 + length (ascii (pb_node b))) ?r0"
  let ?r2 = "rd_adv 4 ?r1"
  have rest0: "rd_rest ?r0 = wr_lp_bytes (ascii (pb_node b)) @ wr_u32 (word_of_nat (length (pb_entries b))) @ concat (map wr_entry (pb_entries b))"
    by (simp add: batch_body_def del: rd_adv_adv)
  then have rest1: "rd_rest ?r1 = wr_u32 (word_of_nat (length (pb_entries b))) @ concat (map wr_entry (pb_entries b))"
    unfolding rd_rest_adv [of _ ?r0] rest0 by simp
  have rest2: "rd_rest ?r2 = concat (map wr_entry (pb_entries b)) @ []" unfolding rd_rest_adv [of _ ?r1] rest1 by simp
  have many: "rd_many rd_entry (length (pb_entries b)) ?r2 = Inr (pb_entries b, rd_adv (length (concat (map wr_entry (pb_entries b)))) ?r2)"
    by (rule rd_many_append [OF _ rest2]) (use rd_entry_append es in blast)
  have rem: "rd_remaining (rd_adv (length (concat (map wr_entry (pb_entries b)))) ?r2) = 0"
    unfolding rd_remaining_rest rd_rest_adv [of "length (concat (map wr_entry (pb_entries b)))"] rest2 by simp
  have magic: "rd_take 4 (Reader_new (batch_body b)) = Inr (BATCH_MAGIC, rd_adv 4 (Reader_new (batch_body b)))"
    by (rule rd_take_append [where b = "drop 4 (batch_body b)"]) (simp_all add: batch_body_def)
  have ver: "rd_u16 (rd_adv 4 (Reader_new (batch_body b))) = Inr (BATCH_VERSION, ?r0)"
    by (rule rd_u16_append [where b = "drop 6 (batch_body b)"]) (simp add: batch_body_def)
  show ?thesis unfolding decode_body_def
    by (simp only: magic ver rd_lp_bytes_append [OF rest0 node] rd_u32_append [OF rest1] rbind.simps prod.case utf8_bounded_ascii [OF idn]
        cnt many rem not_less [THEN iffD2, OF len] if_False simp_thms) (cases b, simp)
qed

lemma decode_body_Inr:
  assumes "decode_body body = Inr b"
  shows "batch_ok b \<and> body = batch_body b"
proof -
  obtain r0 r1 r2 r3 r4 n count where rd: "rd_take 4 (Reader_new body) = Inr (BATCH_MAGIC, r0)" "rd_u16 r0 = Inr (BATCH_VERSION, r1)"
    "rd_lp_bytes r1 = Inr (n, r2)" "utf8_bounded n MAX_NODE_NAME_BYTES = Inr (pb_node b)" "rd_u32 r2 = Inr (count, r3)"
    "\<not> MAX_ENTRIES < unat count" "rd_many rd_entry (unat count) r3 = Inr (pb_entries b, r4)" "rd_remaining r4 = 0"
    using assms by (auto simp: decode_body_def rbind_Inr_iff split: if_splits)
  have es: "rd_rest r3 = concat (map wr_entry (pb_entries b))" "\<forall>e \<in> set (pb_entries b). entry_ok e" "length (pb_entries b) = unat count"
    using rd_many_consumes [of rd_entry wr_entry entry_ok, OF rd_entry_consumes rd(7)] rd(8) by (simp_all add: rd_remaining_rest)
  have "body = batch_body b"
    using rd_take_consumes [OF rd(1)] rd_u16_consumes [OF rd(2)] rd_lp_bytes_consumes [OF rd(3)] rd_u32_consumes [OF rd(5)] es(1,3) rd(4)
    by (simp add: batch_body_def utf8_bounded_iff)
  then show ?thesis using es rd(4,6) by (simp add: batch_ok_def utf8_bounded_iff)
qed

text \<open>
  C33: The envelope is canonical.  \<^verbatim>\<open>decode\<close> accepts exactly the byte strings that \<^verbatim>\<open>encode\<close> writes for
  batches whose identifiers are non-blank UTF-8 within their bounds and which have at most
  \<open>MAX_ENTRIES\<close> entries, and it returns that batch: every such batch round-trips, and no two byte
  strings decode to the same batch.
\<close>

theorem push_batch_is_canonical: "batch_decode bs = Inr b \<longleftrightarrow> batch_ok b \<and> batch_encode b = bs"
proof
  assume dec: "batch_decode bs = Inr b"
  define body tail where "body = take (length bs - 8) bs" and "tail = drop (length bs - 8) bs"
  have bs: "bs = body @ tail" "length tail = 8" and h: "hash64 body 0 = le_word tail" and d: "decode_body body = Inr b"
    using dec by (auto simp: batch_decode_def Let_def body_def tail_def split: if_splits)
  have "wr_u64 (le_word tail) = tail" unfolding wr_u64_def using bs(2) by (simp add: le_bytes_le_word)
  then show "batch_ok b \<and> batch_encode b = bs" using decode_body_Inr [OF d] bs(1) h by (simp add: batch_encode_eq)
next
  assume "batch_ok b \<and> batch_encode b = bs"
  then show "batch_decode bs = Inr b"
    using decode_body_encode [of b] length_batch_body [of b] batch_decode_split [of "batch_body b" "wr_u64 (hash64 (batch_body b) 0)"]
    by (auto simp: batch_encode_eq)
qed

text \<open>
  Changing any one byte of an encoded batch, in the envelope, in a snapshot or in the
  checksum, makes \<^verbatim>\<open>decode\<close> fail with the checksum error.
\<close>

lemma corrupt_push_batch_is_rejected:
  assumes "i < length (batch_encode b)" "x \<noteq> batch_encode b ! i"
  shows "batch_decode ((batch_encode b)[i := x]) = Inl (Snapshot ''push batch checksum mismatch'')"
  using checksum_detects [OF batch_encode_eq assms] length_batch_body [of b] by (auto simp: batch_decode_split)

end
