(* ===== verification/BTreeMap.thy ===== *)
theory BTreeMap
  imports Prelude
begin

text \<open>
  \<^verbatim>\<open>std::collections::BTreeMap\<close> and \<^verbatim>\<open>BTreeSet\<close> as lists in ascending key order, which is
  their iteration order.  Lookup is \<open>map_of\<close>; insertion keeps the order and replaces the value
  of a key that is present.
\<close>

section \<open>Operations\<close>

fun bt_insert :: "'k::linorder \<Rightarrow> 'v \<Rightarrow> ('k \<times> 'v) list \<Rightarrow> ('k \<times> 'v) list" where
  "bt_insert k v [] = [(k, v)]"
| "bt_insert k v ((k', v') # m) =
     (if k < k' then (k, v) # (k', v') # m else if k = k' then (k, v) # m else (k', v') # bt_insert k v m)"

definition bt_remove :: "'k \<Rightarrow> ('k \<times> 'v) list \<Rightarrow> ('k \<times> 'v) list" where
  "bt_remove k m = filter (\<lambda>(k', _). k' \<noteq> k) m"

text \<open>\<^verbatim>\<open>m.entry(k).or_insert(v)\<close>, followed by an update of the value.\<close>

definition bt_update :: "'k::linorder \<Rightarrow> 'v \<Rightarrow> ('v \<Rightarrow> 'v) \<Rightarrow> ('k \<times> 'v) list \<Rightarrow> ('k \<times> 'v) list" where
  "bt_update k v f m = bt_insert k (f (case map_of m k of None \<Rightarrow> v | Some v \<Rightarrow> v)) m"

definition bt_ok :: "('k::linorder \<times> 'v) list \<Rightarrow> bool" where
  "bt_ok m \<longleftrightarrow> sorted_wrt (<) (map fst m)"

section \<open>Laws\<close>

lemma bt_ok_simps [simp]: "bt_ok []" "bt_ok ((k, v) # m) \<longleftrightarrow> (\<forall>k' \<in> fst ` set m. k < k') \<and> bt_ok m"
  by (auto simp: bt_ok_def)

lemma bt_ok_distinct: "bt_ok m \<Longrightarrow> distinct (map fst m)"
  by (induction m) (auto simp: bt_ok_def)

lemma bt_keys_insert [simp]: "fst ` set (bt_insert k v m) = insert k (fst ` set m)"
  by (induction k v m rule: bt_insert.induct) auto

lemma bt_ok_insert [simp]: "bt_ok m \<Longrightarrow> bt_ok (bt_insert k v m)"
  by (induction k v m rule: bt_insert.induct) auto

lemma bt_ok_filter [simp]: "bt_ok m \<Longrightarrow> bt_ok (filter P m)"
  by (induction m) auto

lemma bt_ok_remove [simp]: "bt_ok m \<Longrightarrow> bt_ok (bt_remove k m)"
  by (simp add: bt_remove_def)

lemma bt_get_insert [simp]: "map_of (bt_insert k v m) k' = (if k' = k then Some v else map_of m k')"
  by (induction k v m rule: bt_insert.induct) auto

lemma bt_get_remove [simp]: "map_of (bt_remove k m) k' = (if k' = k then None else map_of m k')"
  by (induction m) (auto simp: bt_remove_def)

lemma bt_get_update: "map_of (bt_update k v f m) k' =
    (if k' = k then Some (f (case map_of m k of None \<Rightarrow> v | Some v \<Rightarrow> v)) else map_of m k')"
  by (simp add: bt_update_def)

lemma bt_ok_update [simp]: "bt_ok m \<Longrightarrow> bt_ok (bt_update k v f m)"
  by (simp add: bt_update_def)

lemma bt_mem_get: "bt_ok m \<Longrightarrow> (k, v) \<in> set m \<longleftrightarrow> map_of m k = Some v"
  using bt_ok_distinct map_of_eq_Some_iff [of m k v] by blast

lemma bt_insert_not_Nil [simp]: "bt_insert k v m \<noteq> []"
  by (cases "(k, v, m)" rule: bt_insert.cases) (simp_all split: if_split)

text \<open>What an insertion or a removal changes in a part of the map that does not hold the key.\<close>

lemma filter_bt_insert: "bt_ok m \<Longrightarrow> (\<And>v. \<not> P (k, v)) \<Longrightarrow> filter P (bt_insert k v m) = filter P m"
  by (induction k v m rule: bt_insert.induct) auto

lemma filter_bt_remove: "(\<And>v. \<not> P (k, v)) \<Longrightarrow> filter P (bt_remove k m) = filter P m"
  by (induction m) (auto simp: bt_remove_def)

lemma map_bt_insert: "map (\<lambda>(k, v). (k, f v)) (bt_insert k v m) = bt_insert k (f v) (map (\<lambda>(k, v). (k, f v)) m)"
  by (induction k v m rule: bt_insert.induct) auto

lemma map_bt_remove: "map (\<lambda>(k, v). (k, f v)) (bt_remove k m) = bt_remove k (map (\<lambda>(k, v). (k, f v)) m)"
  by (induction m) (auto simp: bt_remove_def)

lemma bt_insert_same: "bt_ok m \<Longrightarrow> map_of m k = Some v \<Longrightarrow> bt_insert k v m = m"
proof (induction k v m rule: bt_insert.induct)
  case (2 k v k' v' m)
  have "k' < k" if "map_of m k = Some v" using that 2(2) by (force dest: map_of_SomeD)
  then show ?case using 2 by (auto split: if_splits)
qed simp

text \<open>Sums over the values.\<close>

definition bt_sum :: "('v \<Rightarrow> nat) \<Rightarrow> ('k \<times> 'v) list \<Rightarrow> nat" where
  "bt_sum f m = (\<Sum>(k, v) \<leftarrow> m. f v)"

lemma bt_sum_simps [simp]: "bt_sum f [] = 0" "bt_sum f ((k, v) # m) = f v + bt_sum f m"
  "bt_sum f (m @ m') = bt_sum f m + bt_sum f m'"
  by (simp_all add: bt_sum_def)

lemma bt_sum_insert:
  "bt_ok m \<Longrightarrow> bt_sum f (bt_insert k v m) + (case map_of m k of None \<Rightarrow> 0 | Some v \<Rightarrow> f v) = bt_sum f m + f v"
proof (induction k v m rule: bt_insert.induct)
  case (2 k v k' v' m)
  have none: "map_of m k = None" if "k \<le> k'" using that 2(2) by (force simp: map_of_eq_None_iff)
  then show ?case using 2 by (auto simp: order.strict_implies_order)
qed simp

lemma bt_sum_remove:
  "bt_ok m \<Longrightarrow> bt_sum f (bt_remove k m) + (case map_of m k of None \<Rightarrow> 0 | Some v \<Rightarrow> f v) = bt_sum f m"
proof (induction m)
  case (Cons x m)
  obtain k' v' where x: "x = (k', v')" by (cases x)
  have "bt_remove k' m = m" using Cons.prems x by (force simp: bt_remove_def filter_id_conv)
  moreover have "map_of m k' = None" using Cons.prems x by (force simp: map_of_eq_None_iff)
  ultimately show ?case using Cons x by (auto simp: bt_remove_def)
qed (simp add: bt_remove_def)

lemma bt_sum_mem: "map_of m k = Some v \<Longrightarrow> f v \<le> bt_sum f m"
  by (induction m) (auto split: if_splits)

section \<open>Sets\<close>

lemma insort_insert_ok: "sorted xs \<and> distinct xs \<Longrightarrow> sorted (insort_insert x xs) \<and> distinct (insort_insert x xs)"
  by (simp add: sorted_insort_insert distinct_insort_insert)

text \<open>A loop that may panic.\<close>

fun ofold :: "('a \<Rightarrow> 's \<Rightarrow> 's option) \<Rightarrow> 'a list \<Rightarrow> 's \<Rightarrow> 's option" where
  "ofold f [] s = Some s"
| "ofold f (x # xs) s = Option.bind (f x s) (ofold f xs)"

lemma ofold_total:
  assumes "P s" "\<And>x s. x \<in> set xs \<Longrightarrow> P s \<Longrightarrow> \<exists>s'. f x s = Some s' \<and> P s'"
  shows "\<exists>s'. ofold f xs s = Some s' \<and> P s'"
  using assms
proof (induction xs arbitrary: s)
  case (Cons x xs)
  obtain s1 where "f x s = Some s1" "P s1" using Cons.prems by force
  then show ?case using Cons.IH [of s1] Cons.prems(2) by auto
qed simp

lemma ofold_filter:
  assumes "\<And>x s. x \<in> set xs \<Longrightarrow> \<not> P x \<Longrightarrow> f x s = Some s"
  shows "ofold f xs s = ofold f (filter P xs) s"
  using assms
proof (induction xs arbitrary: s)
  case (Cons x xs)
  then show ?case by (cases "f x s") auto
qed simp

end
