(* ===== verification/Gateway.thy ===== *)
theory Gateway
  imports Exchange PushBatch BTreeMap "HOL-Library.Char_ord"
begin

text \<open>
  \<^verbatim>\<open>flowsketch-gateway/src/state.rs\<close>: the latest window of every node and query, its admission
  under the node and byte limits, the fixed-shard merge cache and the merged cluster windows.

  The data lives behind one mutex and every call takes it once, so a sequence of calls is an order
  of the critical sections; the health counters are atomic additions outside of it.  Instants and
  durations are natural numbers.  Each \<^verbatim>\<open>elapsed()\<close> reads the clock anew: \<open>clock query node\<close> is the
  reading for that entry, and \<^verbatim>\<open>elapsed\<close> saturates at zero as the subtraction of naturals does.

  The record \<open>gateway_env\<close> holds what the model is parametric in: the estimator of dense
  registers and the bytes a window state occupies (\<^verbatim>\<open>memory_bytes\<close>, allocator capacities).
\<close>

section \<open>State\<close>

record gateway_env =
  ge_est :: "u8 \<Rightarrow> u8 list \<Rightarrow> f64"
  ge_mem :: "window_state \<Rightarrow> u64"

type_synonym clock = "string \<Rightarrow> string \<Rightarrow> nat"

record node_window =
  nw_received :: nat
  nw_state :: window_state

definition MERGE_CACHE_SHARDS :: nat where
  "MERGE_CACHE_SHARDS = 16"

record query_merge_cache =
  mc_target :: "(u64 \<times> u64) option"
  mc_shard_states :: "window_state option list"
  mc_shard_nodes :: "nat list"
  mc_final_state :: "window_state option"

definition QueryMergeCache_default :: query_merge_cache where
  "QueryMergeCache_default = \<lparr>mc_target = None, mc_shard_states = [], mc_shard_nodes = [], mc_final_state = None\<rparr>"

type_synonym per_node = "(string \<times> node_window) list"
type_synonym changed = "(string \<times> nat list) list"

record gateway_data =
  gd_nodes :: "(string \<times> per_node) list"
  gd_merge_cache :: "(string \<times> query_merge_cache) list"
  gd_retained_sketch_bytes :: u64

definition GatewayData_default :: gateway_data where
  "GatewayData_default = \<lparr>gd_nodes = [], gd_merge_cache = [], gd_retained_sketch_bytes = 0\<rparr>"

text \<open>The reasons for which a query state is rejected; the code formats them as text.\<close>

datatype rejection =
    NotConfigured string
  | Incompatible string sketch_error
  | CapacityFull string
  | AccountingOverflow string
  | BudgetExceeded string

record apply_result =
  ar_accepted :: nat
  ar_rejected :: "rejection list"

record gateway_state =
  gs_plans :: "plan list"
  gs_hash :: hash_spec
  gs_stale_after :: nat
  gs_max_nodes :: nat
  gs_max_retained_sketch_bytes :: u64
  gs_data :: gateway_data
  gs_pushes_total :: u64
  gs_snapshots_accepted :: u64
  gs_snapshots_rejected :: u64
  gs_node_admission_rejections :: u64
  gs_sketch_budget_rejections :: u64
  gs_body_budget_rejections :: u64
  gs_merge_cache_shard_rebuilds :: u64

record merged_query =
  mq_query_name :: string
  mq_nodes_known :: nat
  mq_nodes_merged :: nat
  mq_window_end_nanos :: u64
  mq_state :: "window_state option"

text \<open>The asserts of the constructor panic.\<close>

definition gs_new :: "plan list \<Rightarrow> hash_spec \<Rightarrow> nat \<Rightarrow> nat \<Rightarrow> u64 \<Rightarrow> gateway_state option" where
  "gs_new plans hash stale_after max_nodes max_bytes =
     (if max_nodes = 0 \<or> max_bytes = 0 then None
      else Some \<lparr>gs_plans = plans, gs_hash = hash, gs_stale_after = stale_after, gs_max_nodes = max_nodes,
        gs_max_retained_sketch_bytes = max_bytes, gs_data = GatewayData_default, gs_pushes_total = 0, gs_snapshots_accepted = 0,
        gs_snapshots_rejected = 0, gs_node_admission_rejections = 0, gs_sketch_budget_rejections = 0,
        gs_body_budget_rejections = 0, gs_merge_cache_shard_rebuilds = 0\<rparr>)"

section \<open>Eviction, selection and the merge cache\<close>

definition merge_shard :: "string \<Rightarrow> nat" where
  "merge_shard node = unat (hash64 (ascii node) 0) mod MERGE_CACHE_SHARDS"

definition saturating_sub :: "u64 \<Rightarrow> u64 \<Rightarrow> u64" where
  "saturating_sub a b = (if a < b then 0 else a - b)"

definition mark_changed :: "string \<Rightarrow> nat \<Rightarrow> changed \<Rightarrow> changed" where
  "mark_changed query shard changed = bt_update query [] (insort_insert shard) changed"

definition stale_nodes :: "clock \<Rightarrow> nat \<Rightarrow> string \<Rightarrow> per_node \<Rightarrow> string list" where
  "stale_nodes clock cutoff query per_node =
     map fst (filter (\<lambda>(node, window). cutoff \<le> clock query node - nw_received window) per_node)"

text \<open>The body of the loop over the stale nodes of a query.\<close>

definition evict_node :: "gateway_env \<Rightarrow> string \<Rightarrow> string \<Rightarrow> per_node \<times> u64 \<times> changed \<Rightarrow> per_node \<times> u64 \<times> changed" where
  "evict_node env query node = (\<lambda>(per_node, retained, changed).
     (bt_remove node per_node,
      (case map_of per_node node of None \<Rightarrow> retained | Some window \<Rightarrow> saturating_sub retained (ge_mem env (nw_state window))),
      mark_changed query (merge_shard node) changed))"

definition evict_query ::
  "gateway_env \<Rightarrow> clock \<Rightarrow> nat \<Rightarrow> string \<times> per_node \<Rightarrow> (string \<times> per_node) list \<times> u64 \<times> changed \<Rightarrow> (string \<times> per_node) list \<times> u64 \<times> changed" where
  "evict_query env clock cutoff = (\<lambda>(query, per_node) (nodes, retained, changed).
     let (per_node, retained, changed) =
           fold (evict_node env query) (stale_nodes clock cutoff query per_node) (per_node, retained, changed)
     in (nodes @ [(query, per_node)], retained, changed))"

definition evict_stale :: "gateway_env \<Rightarrow> clock \<Rightarrow> nat \<Rightarrow> gateway_data \<Rightarrow> gateway_data \<times> changed" where
  "evict_stale env clock cutoff data =
     (let (nodes, retained, changed) = fold (evict_query env clock cutoff) (gd_nodes data) ([], gd_retained_sketch_bytes data, [])
      in (data\<lparr>gd_nodes := filter (\<lambda>(_, per_node). per_node \<noteq> []) nodes, gd_retained_sketch_bytes := retained\<rparr>, changed))"

definition unique_node_count :: "(string \<times> per_node) list \<Rightarrow> nat" where
  "unique_node_count nodes = length (fold insort_insert (concat (map (\<lambda>(_, per_node). map fst per_node) nodes)) [])"

text \<open>\<^verbatim>\<open>max_by\<close> on the votes: the most votes, ties to the smallest start.  \<^verbatim>\<open>max_by\<close> keeps the later
  of two equal elements.\<close>

definition vote_better :: "u64 \<times> nat \<Rightarrow> u64 \<times> nat \<Rightarrow> bool" where
  "vote_better a b \<longleftrightarrow> snd a < snd b \<or> snd a = snd b \<and> fst b \<le> fst a"

definition max_vote :: "u64 \<times> nat \<Rightarrow> (u64 \<times> nat) option \<Rightarrow> (u64 \<times> nat) option" where
  "max_vote b acc = (case acc of None \<Rightarrow> Some b | Some a \<Rightarrow> if vote_better a b then Some b else Some a)"

definition selected_window :: "per_node \<Rightarrow> (u64 \<times> u64) option" where
  "selected_window per_node =
     (case map (\<lambda>(_, window). ws_end (nw_state window)) per_node of
        [] \<Rightarrow> None
      | e # es \<Rightarrow>
          let max_end = fold max es e;
              start_votes = fold (\<lambda>(_, window) votes.
                if ws_end (nw_state window) = max_end then bt_update (ws_start (nw_state window)) 0 Suc votes else votes) per_node []
          in map_option (\<lambda>(start, _). (start, max_end)) (fold max_vote start_votes None))"

text \<open>What a merge that fails leaves in its first argument.  Every sketch compares parameters first
  and then cannot fail, except that a keyed counter merges key by key, and a query state of two
  sketches merges one after the other.\<close>

fun hk_merged_until :: "(bytes \<times> hm_slot) list \<Rightarrow> hm_slot hmap \<Rightarrow> hm_slot hmap" where
  "hk_merged_until [] m = m"
| "hk_merged_until (x # xs) m = (case hk_merge_slot x m of Inl _ \<Rightarrow> m | Inr m' \<Rightarrow> hk_merged_until xs m')"

definition hk_left :: "hll_map \<Rightarrow> hll_map \<Rightarrow> hll_map" where
  "hk_left a b = (if hk_compatibility a = hk_compatibility b then a\<lparr>hk_map := hk_merged_until (hk_map b) (hk_map a)\<rparr> else a)"

fun qs_left :: "query_state \<Rightarrow> query_state \<Rightarrow> query_state" where
  "qs_left (QDistinctPerKey a) (QDistinctPerKey b) = QDistinctPerKey (hk_left a b)"
| "qs_left (QCounter a ka) (QCounter b kb) = (case cm_merge_from a b of Inl _ \<Rightarrow> QCounter a ka | Inr c \<Rightarrow> QCounter c ka)"
| "qs_left (QEntropy a ha) (QEntropy b hb) = (case ss_merge_from a b of Inl _ \<Rightarrow> QEntropy a ha | Inr c \<Rightarrow> QEntropy c ha)"
| "qs_left a b = a"

definition ws_left :: "window_state \<Rightarrow> window_state \<Rightarrow> window_state" where
  "ws_left w v = (if (ws_start w, ws_end w) \<noteq> (ws_start v, ws_end v) then w else w\<lparr>ws_state := qs_left (ws_state w) (ws_state v)\<rparr>)"

text \<open>One node of the loop of \<^verbatim>\<open>merge_cache_shard\<close>; a failed merge is not counted.\<close>

definition merge_node ::
  "gateway_env \<Rightarrow> u64 \<times> u64 \<Rightarrow> nat \<Rightarrow> string \<times> node_window \<Rightarrow> window_state option \<times> nat \<Rightarrow> (window_state option \<times> nat) option" where
  "merge_node env target shard = (\<lambda>(node, window) (merged, count).
     if merge_shard node \<noteq> shard \<or> (ws_start (nw_state window), ws_end (nw_state window)) \<noteq> target then Some (merged, count)
     else case merged of
       None \<Rightarrow> Some (Some (nw_state window), 1)
     | Some state \<Rightarrow> map_option (\<lambda>r. case r of
           Inr state \<Rightarrow> (Some state, count + 1)
         | Inl _ \<Rightarrow> (Some (ws_left state (nw_state window)), count)) (ws_merge_from (ge_est env) state (nw_state window)))"

definition merge_cache_shard :: "gateway_env \<Rightarrow> per_node \<Rightarrow> u64 \<times> u64 \<Rightarrow> nat \<Rightarrow> (window_state option \<times> nat) option" where
  "merge_cache_shard env per_node target shard = ofold (merge_node env target shard) per_node (None, 0)"

text \<open>The loop over the shards to rebuild; an index out of range panics.\<close>

definition rebuild_shard :: "gateway_env \<Rightarrow> per_node \<Rightarrow> u64 \<times> u64 \<Rightarrow> nat \<Rightarrow> query_merge_cache \<Rightarrow> query_merge_cache option" where
  "rebuild_shard env per_node target shard cache =
     Option.bind (merge_cache_shard env per_node target shard) (\<lambda>(state, count).
       if length (mc_shard_states cache) \<le> shard \<or> length (mc_shard_nodes cache) \<le> shard then None
       else Some (cache\<lparr>mc_shard_states := (mc_shard_states cache)[shard := state], mc_shard_nodes := (mc_shard_nodes cache)[shard := count]\<rparr>))"

definition refresh_query_cache :: "gateway_env \<Rightarrow> gateway_data \<Rightarrow> string \<Rightarrow> nat list \<Rightarrow> (gateway_data \<times> nat) option" where
  "refresh_query_cache env data query changed_shards =
     (case Option.bind (map_of (gd_nodes data) query) (\<lambda>per_node. map_option (Pair per_node) (selected_window per_node)) of
        None \<Rightarrow> Some (data\<lparr>gd_merge_cache := bt_remove query (gd_merge_cache data)\<rparr>, 0)
      | Some (per_node, target) \<Rightarrow>
          let cache = (case map_of (gd_merge_cache data) query of None \<Rightarrow> QueryMergeCache_default | Some c \<Rightarrow> c);
              rebuild_all = mc_target cache \<noteq> Some target \<or> length (mc_shard_states cache) \<noteq> MERGE_CACHE_SHARDS
                \<or> length (mc_shard_nodes cache) \<noteq> MERGE_CACHE_SHARDS;
              cache = (if rebuild_all then cache\<lparr>mc_target := Some target, mc_shard_states := replicate MERGE_CACHE_SHARDS None,
                mc_shard_nodes := replicate MERGE_CACHE_SHARDS 0\<rparr> else cache);
              shards = (if rebuild_all then [0..<MERGE_CACHE_SHARDS] else changed_shards)
          in map_option (\<lambda>cache. (data\<lparr>gd_merge_cache := bt_insert query
                 (if shards \<noteq> [] then cache\<lparr>mc_final_state := None\<rparr> else cache) (gd_merge_cache data)\<rparr>, length shards))
               (ofold (rebuild_shard env per_node target) shards cache))"

definition refresh_changed_caches :: "gateway_env \<Rightarrow> gateway_data \<Rightarrow> changed \<Rightarrow> (gateway_data \<times> nat) option" where
  "refresh_changed_caches env data changed =
     ofold (\<lambda>(query, shards) (data, rebuilds). map_option (\<lambda>(data, n). (data, rebuilds + n)) (refresh_query_cache env data query shards))
       changed (data, 0)"

text \<open>The first step of every call that reads the data: drop what is stale and repair the caches.\<close>

definition expire :: "gateway_env \<Rightarrow> clock \<Rightarrow> nat \<Rightarrow> gateway_data \<Rightarrow> (gateway_data \<times> nat) option" where
  "expire env clock stale_after data =
     (let (data, stale_changes) = evict_stale env clock stale_after data in refresh_changed_caches env data stale_changes)"

section \<open>Pushes\<close>

definition group_entries :: "push_entry list \<Rightarrow> (string \<times> (string \<times> bytes) list) list" where
  "group_entries entries =
     fold (\<lambda>e. bt_update (pe_query_name e) [] (\<lambda>cs. cs @ [(pe_component e, pe_snapshot e)])) entries []"

definition validate_query ::
  "gateway_env \<Rightarrow> gateway_state \<Rightarrow> string \<times> (string \<times> bytes) list \<Rightarrow> rejection list \<times> (string \<times> window_state) list
   \<Rightarrow> (rejection list \<times> (string \<times> window_state) list) option" where
  "validate_query env gs = (\<lambda>(query, components) (rejected, validated).
     case find (\<lambda>p. lq_name (plan_query p) = query) (gs_plans gs) of
       None \<Rightarrow> Some (rejected @ [NotConfigured query], validated)
     | Some plan \<Rightarrow> map_option (\<lambda>r. case r of
           Inr state \<Rightarrow> (rejected, validated @ [(query, state)])
         | Inl e \<Rightarrow> (rejected @ [Incompatible query e], validated)) (from_components (ge_est env) plan (gs_hash gs) components))"

record admission =
  ad_data :: gateway_data
  ad_changed :: changed
  ad_accepted :: nat
  ad_budget_rejections :: nat
  ad_rejected :: "rejection list"

definition checked_replace :: "u64 \<Rightarrow> u64 \<Rightarrow> u64 \<Rightarrow> u64 option" where
  "checked_replace retained old new =
     (if retained < old then None
      else if 2 ^ 64 \<le> unat (retained - old) + unat new then None else Some (retained - old + new))"

text \<open>The body of the admission loop.\<close>

definition admit :: "gateway_env \<Rightarrow> u64 \<Rightarrow> nat \<Rightarrow> string \<Rightarrow> string \<times> window_state \<Rightarrow> admission \<Rightarrow> admission" where
  "admit env max_bytes now node = (\<lambda>(query, state) ad.
     let data = ad_data ad;
         per_node = (case map_of (gd_nodes data) query of None \<Rightarrow> [] | Some pn \<Rightarrow> pn);
         previous = map_option nw_state (map_of per_node node)
     in if (case previous of None \<Rightarrow> False | Some w \<Rightarrow> ws_end state < ws_end w)
        then ad\<lparr>ad_data := data\<lparr>gd_nodes := bt_insert query
               (case map_of per_node node of None \<Rightarrow> per_node | Some w \<Rightarrow> bt_insert node (w\<lparr>nw_received := now\<rparr>) per_node) (gd_nodes data)\<rparr>,
             ad_accepted := ad_accepted ad + 1\<rparr>
        else let old_bytes = (case previous of None \<Rightarrow> 0 | Some w \<Rightarrow> ge_mem env w)
             in case checked_replace (gd_retained_sketch_bytes data) old_bytes (ge_mem env state) of
                  None \<Rightarrow> ad\<lparr>ad_budget_rejections := ad_budget_rejections ad + 1, ad_rejected := ad_rejected ad @ [AccountingOverflow query]\<rparr>
                | Some projected \<Rightarrow>
                    if max_bytes < projected
                    then ad\<lparr>ad_budget_rejections := ad_budget_rejections ad + 1, ad_rejected := ad_rejected ad @ [BudgetExceeded query]\<rparr>
                    else ad\<lparr>ad_data := data\<lparr>gd_retained_sketch_bytes := projected,
                             gd_nodes := bt_insert query (bt_insert node \<lparr>nw_received = now, nw_state = state\<rparr> per_node) (gd_nodes data)\<rparr>,
                           ad_changed := mark_changed query (merge_shard node) (ad_changed ad),
                           ad_accepted := ad_accepted ad + 1\<rparr>)"

text \<open>The critical section: expire, check the node limit, admit.  The result counts cache rebuilds
  and full-gateway rejections.\<close>

definition admit_all ::
  "gateway_env \<Rightarrow> clock \<Rightarrow> nat \<Rightarrow> gateway_state \<Rightarrow> string \<Rightarrow> (string \<times> window_state) list \<Rightarrow> rejection list
   \<Rightarrow> (admission \<times> nat \<times> nat) option" where
  "admit_all env clock now gs node validated rejected =
     (let start = \<lparr>ad_data = gs_data gs, ad_changed = [], ad_accepted = 0, ad_budget_rejections = 0, ad_rejected = rejected\<rparr> in
      if validated = [] then Some (start, 0, 0)
      else Option.bind (expire env clock (gs_stale_after gs) (gs_data gs)) (\<lambda>(data, rebuilds).
        let known = list_ex (\<lambda>(_, per_node). map_of per_node node \<noteq> None) (gd_nodes data)
        in if \<not> known \<and> gs_max_nodes gs \<le> unique_node_count (gd_nodes data)
           then Some (start\<lparr>ad_data := data, ad_rejected := rejected @ map (\<lambda>(query, _). CapacityFull query) validated\<rparr>, rebuilds, 1)
           else let ad = fold (admit env (gs_max_retained_sketch_bytes gs) now node) validated (start\<lparr>ad_data := data\<rparr>)
                in map_option (\<lambda>(data, n). (ad\<lparr>ad_data := data\<rparr>, rebuilds + n, 0)) (refresh_changed_caches env (ad_data ad) (ad_changed ad))))"

definition apply_batch :: "gateway_env \<Rightarrow> clock \<Rightarrow> nat \<Rightarrow> push_batch \<Rightarrow> gateway_state \<Rightarrow> (gateway_state \<times> apply_result) option" where
  "apply_batch env clock now batch gs =
     Option.bind (ofold (validate_query env gs) (group_entries (pb_entries batch)) ([], [])) (\<lambda>(rejected, validated).
     map_option (\<lambda>(ad, rebuilds, full).
       (gs\<lparr>gs_data := ad_data ad,
           gs_pushes_total := gs_pushes_total gs + 1,
           gs_node_admission_rejections := gs_node_admission_rejections gs + of_nat full,
           gs_sketch_budget_rejections := gs_sketch_budget_rejections gs + of_nat (ad_budget_rejections ad),
           gs_merge_cache_shard_rebuilds := gs_merge_cache_shard_rebuilds gs + of_nat rebuilds,
           gs_snapshots_accepted := gs_snapshots_accepted gs + of_nat (ad_accepted ad),
           gs_snapshots_rejected := gs_snapshots_rejected gs + of_nat (length (ad_rejected ad))\<rparr>,
        \<lparr>ar_accepted = ad_accepted ad, ar_rejected = ad_rejected ad\<rparr>)) (admit_all env clock now gs (pb_node batch) validated rejected))"

section \<open>Merged windows\<close>

text \<open>The loop that merges the shard summaries; the outer option is a panic.\<close>

fun merge_final :: "gateway_env \<Rightarrow> window_state list \<Rightarrow> window_state option \<Rightarrow> window_state option option" where
  "merge_final env [] acc = Some acc"
| "merge_final env (s # ss) None = merge_final env ss (Some s)"
| "merge_final env (s # ss) (Some state) =
     Option.bind (ws_merge_from (ge_est env) state s) (\<lambda>r. case r of Inl _ \<Rightarrow> Some None | Inr state \<Rightarrow> merge_final env ss (Some state))"

definition merged_query_of ::
  "gateway_env \<Rightarrow> plan \<Rightarrow> gateway_data \<times> merged_query list \<Rightarrow> (gateway_data \<times> merged_query list) option" where
  "merged_query_of env plan = (\<lambda>(data, out).
     let query = lq_name (plan_query plan) in
     case (map_of (gd_nodes data) query, map_of (gd_merge_cache data) query) of
       (Some per_node, Some cache) \<Rightarrow>
         (case mc_target cache of
            None \<Rightarrow> Some (data, out)
          | Some (_, window_end) \<Rightarrow>
              let nodes_known = length per_node; nodes_merged = sum_list (mc_shard_nodes cache)
              in map_option (\<lambda>cache.
                   (data\<lparr>gd_merge_cache := bt_insert query cache (gd_merge_cache data)\<rparr>,
                    out @ [\<lparr>mq_query_name = query, mq_nodes_known = nodes_known, mq_nodes_merged = nodes_merged,
                      mq_window_end_nanos = window_end,
                      mq_state = (if nodes_merged = nodes_known then mc_final_state cache else None)\<rparr>]))
                   (if nodes_merged = nodes_known \<and> mc_final_state cache = None
                    then map_option (\<lambda>final. cache\<lparr>mc_final_state := final\<rparr>)
                      (merge_final env (List.map_filter id (mc_shard_states cache)) None)
                    else Some cache))
     | _ \<Rightarrow> Some (data, out))"

definition merged :: "gateway_env \<Rightarrow> clock \<Rightarrow> gateway_state \<Rightarrow> (gateway_state \<times> merged_query list) option" where
  "merged env clock gs =
     Option.bind (expire env clock (gs_stale_after gs) (gs_data gs)) (\<lambda>(data, rebuilds).
     map_option (\<lambda>(data, out).
       (gs\<lparr>gs_data := data, gs_merge_cache_shard_rebuilds := gs_merge_cache_shard_rebuilds gs + of_nat rebuilds\<rparr>, out))
       (ofold (merged_query_of env) (gs_plans gs) (data, [])))"

record node_view =
  nv_node :: string
  nv_window_start_nanos :: u64
  nv_window_end_nanos :: u64
  nv_sketch_bytes :: u64
  nv_update_count :: u64
  nv_age :: nat

text \<open>\<^verbatim>\<open>nodes_json\<close>, before it is rendered.\<close>

definition nodes_view :: "gateway_env \<Rightarrow> clock \<Rightarrow> clock \<Rightarrow> gateway_state \<Rightarrow> (gateway_state \<times> (string \<times> node_view list) list) option" where
  "nodes_view env clock clock' gs =
     map_option (\<lambda>(data, rebuilds).
       (gs\<lparr>gs_data := data, gs_merge_cache_shard_rebuilds := gs_merge_cache_shard_rebuilds gs + of_nat rebuilds\<rparr>,
        map (\<lambda>(query, per_node). (query, map (\<lambda>(node, nw). \<lparr>nv_node = node, nv_window_start_nanos = ws_start (nw_state nw),
          nv_window_end_nanos = ws_end (nw_state nw), nv_sketch_bytes = ge_mem env (nw_state nw),
          nv_update_count = qs_update_count (ws_state (nw_state nw)), nv_age = clock' query node - nw_received nw\<rparr>) per_node)) (gd_nodes data)))
       (expire env clock (gs_stale_after gs) (gs_data gs))"

section \<open>Selecting the window\<close>

text \<open>What the merge reads of the nodes: names and states, not arrival times.\<close>

definition view :: "per_node \<Rightarrow> (string \<times> window_state) list" where
  "view per_node = map (\<lambda>(n, w). (n, nw_state w)) per_node"

definition bounds :: "window_state \<Rightarrow> u64 \<times> u64" where
  "bounds w = (ws_start w, ws_end w)"

lemma view_simps [simp]: "view [] = []" "view pn = [] \<longleftrightarrow> pn = []" "length (view pn) = length pn"
  by (simp_all add: view_def)

text \<open>How many nodes report a window.\<close>

definition reporting :: "per_node \<Rightarrow> u64 \<times> u64 \<Rightarrow> nat" where
  "reporting per_node b = length (filter (\<lambda>(n, w). bounds (nw_state w) = b) per_node)"

lemma reporting_view: "reporting pn b = length (filter (\<lambda>(n, w). bounds w = b) (view pn))"
  by (simp add: reporting_def view_def filter_map comp_def case_prod_beta')

definition count_vote :: "u64 \<Rightarrow> string \<times> node_window \<Rightarrow> (u64 \<times> nat) list \<Rightarrow> (u64 \<times> nat) list" where
  "count_vote e = (\<lambda>(_, window) votes.
     if ws_end (nw_state window) = e then bt_update (ws_start (nw_state window)) 0 Suc votes else votes)"

lemma votes_ok: "bt_ok votes \<Longrightarrow> bt_ok (fold (count_vote e) pn votes)"
  by (induction pn arbitrary: votes) (auto simp: count_vote_def)

lemma votes_count:
  "map_of (fold (count_vote e) pn votes) s =
    (if reporting pn (s, e) = 0 then map_of votes s
     else Some (reporting pn (s, e) + (case map_of votes s of None \<Rightarrow> 0 | Some v \<Rightarrow> v)))"
proof (induction pn arbitrary: votes)
  case (Cons x pn)
  obtain n w where x: "x = (n, w)" by (cases x)
  have "reporting (x # pn) (s, e) = (if bounds (nw_state w) = (s, e) then 1 else 0) + reporting pn (s, e)"
    by (simp add: reporting_def x)
  then show ?case unfolding fold_simps Cons.IH by (auto simp: x count_vote_def bounds_def bt_get_update split: option.splits)
qed (simp add: reporting_def)

lemma max_vote_simps [simp]: "max_vote b None = Some b" "max_vote b (Some a) = (if vote_better a b then Some b else Some a)"
  by (simp_all add: max_vote_def)

lemma max_vote_fold:
  assumes "fold max_vote vs acc = Some b"
  shows "(b \<in> set vs \<or> acc = Some b) \<and> (\<forall>a \<in> set vs. a = b \<or> vote_better a b) \<and> (\<forall>a. acc = Some a \<longrightarrow> a = b \<or> vote_better a b)"
  using assms
proof (induction vs arbitrary: acc)
  case (Cons v vs)
  have tr: "vote_better x z" if "vote_better x y" "vote_better y z" for x y z using that by (auto simp: vote_better_def)
  have tot: "vote_better x y \<or> vote_better y x" for x y by (auto simp: vote_better_def)
  show ?case
  proof (cases acc)
    case None
    then show ?thesis using Cons.IH [of "Some v"] Cons.prems by auto
  next
    case (Some a)
    show ?thesis
    proof (cases "vote_better a v")
      case True
      then have "fold max_vote vs (Some v) = Some b" using Cons.prems Some True by simp
      from Cons.IH [OF this] have "b \<in> set vs \<or> v = b" "\<forall>a \<in> set vs. a = b \<or> vote_better a b" "v = b \<or> vote_better v b" by simp_all
      then show ?thesis using True Some tr [OF True, of b] by auto
    next
      case False
      then have "vote_better v a" using tot by blast
      moreover have "fold max_vote vs (Some a) = Some b" using Cons.prems Some False by simp
      moreover from Cons.IH [OF this] have "b \<in> set vs \<or> a = b" "\<forall>a \<in> set vs. a = b \<or> vote_better a b" "a = b \<or> vote_better a b" by simp_all
      ultimately show ?thesis using Some tr [of v a b] by auto
    qed
  qed
qed simp

lemma max_vote_some: "fold max_vote vs (Some a) \<noteq> None"
  by (induction vs arbitrary: a) auto

lemma fold_max_mem: "fold max xs x \<in> insert x (set xs) \<and> (\<forall>y \<in> insert x (set xs). y \<le> fold max xs x)" for x :: "'a::linorder"
proof (induction xs arbitrary: x)
  case (Cons y ys)
  have "fold max (y # ys) x \<in> insert (max y x) (set ys)" "\<forall>z \<in> insert (max y x) (set ys). z \<le> fold max (y # ys) x"
    using Cons.IH [of "max y x"] by simp_all
  then show ?case by (cases "y \<le> x") (auto simp: max_absorb1 max_absorb2)
qed simp

lemma selected_window_votes:
  assumes "pn \<noteq> []"
  shows "\<exists>e. (\<exists>(n, w) \<in> set pn. ws_end (nw_state w) = e) \<and> (\<forall>(n, w) \<in> set pn. ws_end (nw_state w) \<le> e)
     \<and> selected_window pn = map_option (\<lambda>(start, _). (start, e)) (fold max_vote (fold (count_vote e) pn []) None)"
proof -
  obtain x es where ends: "map (\<lambda>(_, window). ws_end (nw_state window)) pn = x # es" using assms by (cases pn) auto
  let ?e = "fold max es x"
  have "set (x # es) = (\<lambda>(_, window). ws_end (nw_state window)) ` set pn" using ends by (metis set_map)
  then have "\<exists>p \<in> set pn. (\<lambda>(_, window). ws_end (nw_state window)) p = ?e" "\<forall>p \<in> set pn. (\<lambda>(_, window). ws_end (nw_state window)) p \<le> ?e"
    using fold_max_mem [of es x] by (metis (no_types, lifting) imageE list.simps(15), metis (no_types, lifting) imageI list.simps(15))
  moreover have "selected_window pn = map_option (\<lambda>(start, _). (start, ?e)) (fold max_vote (fold (count_vote ?e) pn []) None)"
    unfolding selected_window_def ends Let_def by (simp add: count_vote_def Let_def)
  ultimately show ?thesis by fastforce
qed

text \<open>The selected window is the newest; among the starts reported for that end it is the one with
  the most nodes, and on a tie the earliest.\<close>

definition selects :: "per_node \<Rightarrow> u64 \<times> u64 \<Rightarrow> bool" where
  "selects pn t \<longleftrightarrow> 0 < reporting pn t \<and> (\<forall>(n, w) \<in> set pn. ws_end (nw_state w) \<le> snd t)
     \<and> (\<forall>s. reporting pn (s, snd t) < reporting pn t \<or> reporting pn (s, snd t) = reporting pn t \<and> fst t \<le> s)"

lemma selected_window_selects:
  assumes "pn \<noteq> []"
  shows "\<exists>t. selected_window pn = Some t \<and> selects pn t"
proof -
  obtain e where e: "\<exists>(n, w) \<in> set pn. ws_end (nw_state w) = e" "\<forall>(n, w) \<in> set pn. ws_end (nw_state w) \<le> e"
    "selected_window pn = map_option (\<lambda>(start, _). (start, e)) (fold max_vote (fold (count_vote e) pn []) None)"
    using selected_window_votes [OF assms] by blast
  let ?vs = "fold (count_vote e) pn []"
  have mem: "(s, c) \<in> set ?vs \<longleftrightarrow> c = reporting pn (s, e) \<and> 0 < c" for s c
  proof -
    have "(s, c) \<in> set ?vs \<longleftrightarrow> map_of ?vs s = Some c" by (intro bt_mem_get votes_ok) simp
    then show ?thesis unfolding votes_count by (auto split: if_splits)
  qed
  obtain n w where nw: "(n, w) \<in> set pn" "ws_end (nw_state w) = e" using e(1) by blast
  then have "(n, w) \<in> set (filter (\<lambda>(n, w'). bounds (nw_state w') = (ws_start (nw_state w), e)) pn)" by (simp add: bounds_def)
  then have pos: "0 < reporting pn (ws_start (nw_state w), e)" unfolding reporting_def by (rule length_pos_if_in_set)
  then have "(ws_start (nw_state w), reporting pn (ws_start (nw_state w), e)) \<in> set ?vs" using mem by blast
  then have "?vs \<noteq> []" by auto
  then obtain v vs where "?vs = v # vs" by (cases ?vs) auto
  then have "fold max_vote ?vs None = fold max_vote vs (Some v)" by simp
  then obtain b where b: "fold max_vote ?vs None = Some b" using max_vote_some [of vs v] by auto
  obtain s c where sc: "b = (s, c)" by (cases b)
  have best: "(s, c) \<in> set ?vs" "\<forall>a \<in> set ?vs. a = (s, c) \<or> vote_better a (s, c)" using max_vote_fold [OF b] sc by simp_all
  have c: "c = reporting pn (s, e)" "0 < c" using best(1) mem by auto
  have maxi: "reporting pn (s', e) < c \<or> reporting pn (s', e) = c \<and> s \<le> s'" for s'
  proof (cases "0 < reporting pn (s', e)")
    case True
    then have "(s', reporting pn (s', e)) \<in> set ?vs" using mem by simp
    then have "(s', reporting pn (s', e)) = (s, c) \<or> vote_better (s', reporting pn (s', e)) (s, c)" using best(2) by blast
    then show ?thesis by (auto simp: vote_better_def)
  qed (use c(2) in simp)
  have "selects pn (s, e)" unfolding selects_def using c e(2) maxi by (simp flip: c(1))
  then show ?thesis using e(3) b sc by simp
qed

lemma selects_unique: "selects pn t \<Longrightarrow> selects pn t' \<Longrightarrow> t = t'"
proof -
  have le: "snd t \<le> snd t'" if t: "selects pn t" and t': "selects pn t'" for t t'
  proof -
    have "filter (\<lambda>(n, w). bounds (nw_state w) = t) pn \<noteq> []" using t unfolding selects_def reporting_def by fastforce
    then obtain n w where "(n, w) \<in> set pn" "bounds (nw_state w) = t" by (auto simp: filter_empty_conv)
    then show ?thesis using t' by (auto simp: selects_def bounds_def)
  qed
  assume a: "selects pn t" "selects pn t'"
  then have e: "snd t = snd t'" using le by (metis order_antisym)
  have t: "t = (fst t, snd t')" "t' = (fst t', snd t')" using e by (metis prod.collapse)+
  have "reporting pn t < reporting pn t' \<or> reporting pn t = reporting pn t' \<and> fst t' \<le> fst t"
    using a(2) t(1) unfolding selects_def by metis
  moreover have "reporting pn t' < reporting pn t \<or> reporting pn t' = reporting pn t \<and> fst t \<le> fst t'"
    using a(1) t(2) e unfolding selects_def by metis
  ultimately have "fst t = fst t'" by (metis less_imp_not_less less_irrefl order_antisym)
  then show ?thesis using e by (simp add: prod_eq_iff)
qed

lemma selected_window_iff: "selected_window pn = Some t \<longleftrightarrow> pn \<noteq> [] \<and> selects pn t"
proof (cases "pn = []")
  case False
  then show ?thesis using selected_window_selects [OF False] selects_unique [of pn] by (metis option.inject)
qed (simp add: selected_window_def)

end
