(* ===== verification/GatewayMerge.thy ===== *)
theory GatewayMerge
  imports Gateway
begin

text \<open>
  The merge cache of the gateway.  A shard summary depends only on the nodes of its shard that
  report the target window, so rebuilding the shards whose nodes changed restores the whole cache;
  a cluster window is exported only when it is the merge of the windows of all live nodes.
\<close>

section \<open>Merge trees\<close>

text \<open>The states that arise from a list of window states by merging neighbours, in any grouping.\<close>

inductive merge_of :: "(u8 \<Rightarrow> u8 list \<Rightarrow> f64) \<Rightarrow> window_state list \<Rightarrow> window_state \<Rightarrow> bool" for est where
  leaf: "merge_of est [w] w"
| node: "merge_of est ws a \<Longrightarrow> merge_of est vs b \<Longrightarrow> ws_merge_from est a b = Some (Inr c) \<Longrightarrow> merge_of est (ws @ vs) c"

lemma ws_merge_bounds: "ws_merge_from est a b = Some (Inr c) \<Longrightarrow> bounds c = bounds a \<and> bounds b = bounds a"
proof -
  assume m: "ws_merge_from est a b = Some (Inr c)"
  then have eq: "bounds b = bounds a" by (auto simp: ws_merge_from_def bounds_def split: if_splits)
  have "\<exists>st. c = a\<lparr>ws_state := st\<rparr>"
    using m by (auto simp: ws_merge_from_def pbind_def split: if_splits option.splits sum.splits)
  then show ?thesis using eq by (auto simp: bounds_def)
qed

lemma merge_of_bounds: "merge_of est ws w \<Longrightarrow> ws \<noteq> [] \<and> (\<forall>v \<in> set ws. bounds v = bounds w)"
  by (induction rule: merge_of.induct) (auto dest: ws_merge_bounds)

lemma ws_merge_holds:
  assumes "qs_holds est sk h (ws_state a) xs" "qs_holds est sk h (ws_state b) ys" "bounds a = bounds b"
  shows "\<exists>c. ws_merge_from est a b = Some (Inr c) \<and> qs_holds est sk h (ws_state c) (xs @ ys) \<and> bounds c = bounds a"
proof -
  obtain st where "qs_merge_from est (ws_state a) (ws_state b) = Some (Inr st)" "qs_holds est sk h st (xs @ ys)"
    using qs_merge_holds [OF assms(1,2)] by blast
  then show ?thesis using assms(3) by (simp add: ws_merge_from_def bounds_def)
qed

text \<open>A merge tree of states that hold inputs holds all of them, whatever its grouping.\<close>

lemma merge_of_holds:
  assumes "merge_of est ws w" "list_all2 (\<lambda>v xs. qs_holds est sk h (ws_state v) xs) ws xss"
  shows "qs_holds est sk h (ws_state w) (concat xss)"
  using assms
proof (induction arbitrary: xss rule: merge_of.induct)
  case (leaf w)
  then show ?case by (auto simp: list_all2_Cons1)
next
  case (node ws a vs b c)
  then obtain xs ys where xss: "xss = xs @ ys" "list_all2 (\<lambda>v xs. qs_holds est sk h (ws_state v) xs) ws xs"
    "list_all2 (\<lambda>v xs. qs_holds est sk h (ws_state v) xs) vs ys" by (auto simp: list_all2_append1)
  have "qs_holds est sk h (ws_state a) (concat xs)" "qs_holds est sk h (ws_state b) (concat ys)"
    using node.IH xss(2,3) by auto
  moreover have "bounds a = bounds b" using ws_merge_bounds [OF node.hyps(3)] by simp
  ultimately show ?case using ws_merge_holds [of est sk h a _ b] node.hyps(3) xss(1) by fastforce
qed

section \<open>Shard summaries\<close>

text \<open>The part of the view a shard summary reads.\<close>

definition shard_part :: "u64 \<times> u64 \<Rightarrow> nat \<Rightarrow> (string \<times> window_state) list \<Rightarrow> window_state list" where
  "shard_part t s v = map snd (filter (\<lambda>(n, w). merge_shard n = s \<and> bounds w = t) v)"

definition merge_one :: "gateway_env \<Rightarrow> window_state \<Rightarrow> window_state option \<times> nat \<Rightarrow> (window_state option \<times> nat) option" where
  "merge_one env w = (\<lambda>(merged, count). case merged of
       None \<Rightarrow> Some (Some w, 1)
     | Some state \<Rightarrow> map_option (\<lambda>r. case r of Inr state \<Rightarrow> (Some state, count + 1) | Inl _ \<Rightarrow> (Some (ws_left state w), count))
         (ws_merge_from (ge_est env) state w))"

lemma ofold_map: "ofold f (map g xs) s = ofold (\<lambda>x. f (g x)) xs s"
proof (induction xs arbitrary: s)
  case (Cons x xs)
  then show ?case by (cases "f (g x) s") auto
qed simp

lemma ofold_cong: "(\<And>x s. x \<in> set xs \<Longrightarrow> f x s = g x s) \<Longrightarrow> ofold f xs s = ofold g xs s"
proof (induction xs arbitrary: s)
  case (Cons x xs)
  then show ?case by (cases "g x s") auto
qed simp

lemma merge_cache_shard_eq:
  "merge_cache_shard env pn t s = ofold (merge_one env) (shard_part t s (view pn)) (None, 0)"
proof -
  let ?P = "\<lambda>(n, w). merge_shard n = s \<and> bounds (nw_state w) = t"
  have "merge_cache_shard env pn t s = ofold (merge_node env t s) (filter ?P pn) (None, 0)"
    unfolding merge_cache_shard_def by (rule ofold_filter) (auto simp: merge_node_def bounds_def split: if_splits)
  also have "\<dots> = ofold (\<lambda>x. merge_one env (nw_state (snd x))) (filter ?P pn) (None, 0)"
    by (rule ofold_cong) (auto simp: merge_node_def merge_one_def bounds_def split: option.split)
  also have "\<dots> = ofold (merge_one env) (map (\<lambda>x. nw_state (snd x)) (filter ?P pn)) (None, 0)" by (simp add: ofold_map)
  also have "map (\<lambda>x. nw_state (snd x)) (filter ?P pn) = shard_part t s (view pn)"
    by (simp add: shard_part_def view_def filter_map comp_def case_prod_beta')
  finally show ?thesis .
qed

text \<open>A summary never counts more nodes than it read; when it counts all of them it is their merge.\<close>

lemma merge_shard_count:
  assumes "ofold (merge_one env) ws (acc, k) = Some (m, c)"
    and "acc = None \<longrightarrow> k = 0" and "k = length us \<Longrightarrow> acc = None \<and> us = [] \<or> (\<exists>a. acc = Some a \<and> merge_of (ge_est env) us a)"
    and "k \<le> length us" "acc = None \<longrightarrow> us = []"
  shows "c \<le> length us + length ws \<and> (c = length us + length ws \<longrightarrow>
     (m = None \<and> us @ ws = [] \<or> (\<exists>a. m = Some a \<and> merge_of (ge_est env) (us @ ws) a)))"
  using assms
proof (induction ws arbitrary: acc k us)
  case (Cons w ws)
  obtain acc1 k1 where s1: "merge_one env w (acc, k) = Some (acc1, k1)" "ofold (merge_one env) ws (acc1, k1) = Some (m, c)"
    using Cons.prems(1) by (auto simp: bind_eq_Some_conv)
  have "(acc1 = None \<longrightarrow> k1 = 0) \<and> (k1 = length (us @ [w]) \<longrightarrow> acc1 = None \<and> us @ [w] = [] \<or> (\<exists>a. acc1 = Some a \<and> merge_of (ge_est env) (us @ [w]) a))
     \<and> k1 \<le> length (us @ [w]) \<and> (acc1 = None \<longrightarrow> us @ [w] = [])"
  proof (cases acc)
    case None
    then have "us = []" "acc1 = Some w" "k1 = 1" using Cons.prems(5) s1(1) by (auto simp: merge_one_def)
    then show ?thesis using merge_of.leaf by simp
  next
    case (Some a)
    then obtain r where r: "ws_merge_from (ge_est env) a w = Some r" using s1(1) by (auto simp: merge_one_def)
    show ?thesis
    proof (cases r)
      case (Inl e)
      then have "acc1 = Some (ws_left a w)" "k1 = k" using s1(1) Some r by (auto simp: merge_one_def)
      then show ?thesis using Cons.prems(4) by simp
    next
      case (Inr b)
      then have b: "acc1 = Some b" "k1 = k + 1" using s1(1) Some r by (auto simp: merge_one_def)
      have "merge_of (ge_est env) (us @ [w]) b" if "k = length us"
        using Cons.prems(3) [OF that] Some r Inr by (auto intro: merge_of.node merge_of.leaf)
      then show ?thesis using b Cons.prems(4) by simp
    qed
  qed
  then have "c \<le> length (us @ [w]) + length ws \<and> (c = length (us @ [w]) + length ws \<longrightarrow>
     (m = None \<and> (us @ [w]) @ ws = [] \<or> (\<exists>a. m = Some a \<and> merge_of (ge_est env) ((us @ [w]) @ ws) a)))"
    by (intro Cons.IH [OF s1(2)]) auto
  then show ?case by simp
qed auto

lemma merge_cache_shard_count:
  assumes "merge_cache_shard env pn t s = Some (m, c)"
  shows "c \<le> length (shard_part t s (view pn))"
    and "c = length (shard_part t s (view pn)) \<Longrightarrow> (case m of None \<Rightarrow> shard_part t s (view pn) = []
      | Some a \<Rightarrow> merge_of (ge_est env) (shard_part t s (view pn)) a)"
  using merge_shard_count [of env "shard_part t s (view pn)" None 0 m c "[]"] assms
  by (auto simp: merge_cache_shard_eq split: option.split)

text \<open>Merging returns, whatever the states are, and states of one plan all merge.\<close>

lemma hk_merged_until_ok: "hm_ok m \<Longrightarrow> hm_ok (hk_merged_until xs m)"
  by (induction xs m rule: hk_merged_until.induct) (auto split: sum.splits dest: hk_merge_slot_ok)

lemma ws_left_safe: "qs_safe (ws_state w) \<Longrightarrow> qs_safe (ws_state (ws_left w v))"
proof -
  have "qs_safe a \<Longrightarrow> qs_safe (qs_left a b)" for a b
    by (induction a b rule: qs_left.induct) (auto simp: hk_left_def hk_merged_until_ok split: sum.splits)
  then show "qs_safe (ws_state w) \<Longrightarrow> qs_safe (ws_state (ws_left w v))" by (simp add: ws_left_def)
qed

definition all_safe :: "per_node \<Rightarrow> bool" where
  "all_safe pn \<longleftrightarrow> (\<forall>(n, w) \<in> set pn. qs_safe (ws_state (nw_state w)))"

definition opt_safe :: "window_state option \<Rightarrow> bool" where
  "opt_safe m \<longleftrightarrow> (\<forall>w. m = Some w \<longrightarrow> qs_safe (ws_state w))"

lemma merge_one_total:
  assumes "opt_safe m" "qs_safe (ws_state w)"
  shows "\<exists>m' c'. merge_one env w (m, c) = Some (m', c') \<and> opt_safe m'"
proof (cases m)
  case (Some a)
  then obtain r where r: "ws_merge_from (ge_est env) a w = Some r" "\<forall>c. r = Inr c \<longrightarrow> qs_safe (ws_state c)"
    using assms(1) ws_merge_total [of a "ge_est env" w] by (auto simp: opt_safe_def)
  then show ?thesis using Some assms(1) ws_left_safe by (cases r) (auto simp: merge_one_def opt_safe_def)
qed (use assms in \<open>simp add: merge_one_def opt_safe_def\<close>)

lemma merge_cache_shard_total:
  assumes "all_safe pn"
  shows "\<exists>m c. merge_cache_shard env pn t s = Some (m, c) \<and> opt_safe m"
proof -
  have part: "\<forall>w \<in> set (shard_part t s (view pn)). qs_safe (ws_state w)"
    using assms by (auto simp: shard_part_def view_def all_safe_def)
  have "\<exists>r. ofold (merge_one env) (shard_part t s (view pn)) (None, 0) = Some r \<and> opt_safe (fst r)"
  proof (rule ofold_total)
    fix w and x :: "window_state option \<times> nat"
    assume "w \<in> set (shard_part t s (view pn))" "opt_safe (fst x)"
    then show "\<exists>r. merge_one env w x = Some r \<and> opt_safe (fst r)"
      using part merge_one_total [of "fst x" w env "snd x"] by auto
  qed (simp add: opt_safe_def)
  then show ?thesis by (auto simp: merge_cache_shard_eq)
qed

lemma merge_final_total:
  "\<forall>w \<in> set ws. qs_safe (ws_state w) \<Longrightarrow> opt_safe acc \<Longrightarrow> \<exists>r. merge_final env ws acc = Some r \<and> opt_safe r"
proof (induction ws arbitrary: acc)
  case (Cons w ws)
  show ?case
  proof (cases acc)
    case None
    then show ?thesis using Cons by (auto simp: opt_safe_def)
  next
    case (Some a)
    then obtain r where r: "ws_merge_from (ge_est env) a w = Some r" "\<forall>c. r = Inr c \<longrightarrow> qs_safe (ws_state c)"
      using Cons.prems(2) ws_merge_total [of a "ge_est env" w] by (auto simp: opt_safe_def)
    then show ?thesis using Some Cons by (cases r) (auto simp: opt_safe_def)
  qed
qed simp

text \<open>The final merge of summaries that are merge trees is one.\<close>

lemma merge_final_tree:
  assumes "merge_final env ws acc = Some (Some f)" "list_all2 (merge_of (ge_est env)) uss ws"
    and "acc = None \<Longrightarrow> us = []" "\<And>a. acc = Some a \<Longrightarrow> merge_of (ge_est env) us a"
  shows "merge_of (ge_est env) (us @ concat uss) f"
  using assms(2,1,3,4)
proof (induction uss ws arbitrary: acc us rule: list_all2_induct)
  case Nil
  then show ?case by simp
next
  case (Cons vs uss w ws)
  show ?case
  proof (cases acc)
    case None
    then show ?thesis using Cons.IH [of "Some w" vs] Cons.prems Cons.hyps by simp
  next
    case (Some a)
    then obtain r where r: "ws_merge_from (ge_est env) a w = Some r" using Cons.prems(1) by (auto simp: bind_eq_Some_conv)
    then obtain b where b: "ws_merge_from (ge_est env) a w = Some (Inr b)" "merge_final env ws (Some b) = Some (Some f)"
      using Cons.prems(1) Some by (cases r) auto
    then have "merge_of (ge_est env) (us @ vs) b" using Cons.prems(3) [OF Some] Cons.hyps by (auto intro: merge_of.node)
    then show ?thesis using Cons.IH [OF b(2), of "us @ vs"] by simp
  qed
qed

text \<open>States that hold inputs and cover one window always merge.\<close>

definition holding :: "(u8 \<Rightarrow> u8 list \<Rightarrow> f64) \<Rightarrow> physical_sketch \<Rightarrow> hash_spec \<Rightarrow> u64 \<times> u64 \<Rightarrow> window_state \<Rightarrow> bool" where
  "holding est sk h t w \<longleftrightarrow> bounds w = t \<and> (\<exists>xs. qs_holds est sk h (ws_state w) xs)"

lemma holding_merge: "holding est sk h t a \<Longrightarrow> holding est sk h t b \<Longrightarrow> \<exists>c. ws_merge_from est a b = Some (Inr c) \<and> holding est sk h t c"
  unfolding holding_def using ws_merge_holds by metis

lemma merge_shard_all:
  assumes "\<forall>w \<in> set ws. holding (ge_est env) sk h t w" "\<And>a. acc = Some a \<Longrightarrow> holding (ge_est env) sk h t a" "acc = None \<Longrightarrow> k = 0"
  shows "\<exists>m. ofold (merge_one env) ws (acc, k) = Some (m, k + length ws) \<and> (\<forall>a. m = Some a \<longrightarrow> holding (ge_est env) sk h t a)"
  using assms
proof (induction ws arbitrary: acc k)
  case (Cons w ws)
  have "\<exists>b. merge_one env w (acc, k) = Some (Some b, k + 1) \<and> holding (ge_est env) sk h t b"
  proof (cases acc)
    case None
    then show ?thesis using Cons.prems by (simp add: merge_one_def)
  next
    case (Some a)
    then obtain b where "ws_merge_from (ge_est env) a w = Some (Inr b)" "holding (ge_est env) sk h t b"
      using holding_merge [of "ge_est env" sk h t a w] Cons.prems by auto
    then show ?thesis using Some by (simp add: merge_one_def)
  qed
  then obtain b where b: "merge_one env w (acc, k) = Some (Some b, k + 1)" "holding (ge_est env) sk h t b" by blast
  from Cons.IH [of "Some b" "k + 1"] Cons.prems(1) b show ?case by auto
qed simp

lemma merge_final_all:
  assumes "\<forall>w \<in> set ws. holding (ge_est env) sk h t w" "\<And>a. acc = Some a \<Longrightarrow> holding (ge_est env) sk h t a" "acc \<noteq> None \<or> ws \<noteq> []"
  shows "\<exists>f. merge_final env ws acc = Some (Some f)"
  using assms
proof (induction ws arbitrary: acc)
  case (Cons w ws)
  show ?case
  proof (cases acc)
    case None
    then show ?thesis using Cons.IH [of "Some w"] Cons.prems(1) by simp
  next
    case (Some a)
    then obtain b where "ws_merge_from (ge_est env) a w = Some (Inr b)" "holding (ge_est env) sk h t b"
      using holding_merge [of "ge_est env" sk h t a w] Cons.prems by auto
    then show ?thesis using Some Cons.IH [of "Some b"] Cons.prems(1) by simp
  qed
qed auto

section \<open>A coherent cache\<close>

lemma MERGE_CACHE_SHARDS_simp [simp]: "MERGE_CACHE_SHARDS = 16"
  by (simp add: MERGE_CACHE_SHARDS_def)

lemma merge_shard_less [simp]: "merge_shard n < 16"
  by (simp add: merge_shard_def)

definition coherent :: "gateway_env \<Rightarrow> per_node \<Rightarrow> query_merge_cache \<Rightarrow> bool" where
  "coherent env pn c \<longleftrightarrow> (\<exists>t. mc_target c = Some t \<and> selected_window pn = Some t
     \<and> length (mc_shard_states c) = 16 \<and> length (mc_shard_nodes c) = 16
     \<and> (\<forall>s < 16. merge_cache_shard env pn t s = Some (mc_shard_states c ! s, mc_shard_nodes c ! s))
     \<and> (\<forall>f. mc_final_state c = Some f \<longrightarrow> merge_final env (List.map_filter id (mc_shard_states c)) None = Some (Some f)))"

definition cache_for :: "gateway_env \<Rightarrow> per_node \<Rightarrow> query_merge_cache option \<Rightarrow> bool" where
  "cache_for env pn c \<longleftrightarrow> (if pn = [] then c = None else \<exists>c'. c = Some c' \<and> coherent env pn c')"

text \<open>Two node maps that differ at most in the given shards.\<close>

definition agree :: "nat set \<Rightarrow> per_node \<Rightarrow> per_node \<Rightarrow> bool" where
  "agree S pn pn' \<longleftrightarrow> (S = {} \<longrightarrow> view pn = view pn')
     \<and> (\<forall>s. s \<notin> S \<longrightarrow> filter (\<lambda>(n, w). merge_shard n = s) (view pn) = filter (\<lambda>(n, w). merge_shard n = s) (view pn'))"

lemma agree_refl [simp]: "agree S pn pn"
  by (simp add: agree_def)

lemma agree_view: "view pn = view pn' \<Longrightarrow> agree S pn pn'"
  by (simp add: agree_def)

lemma agree_trans: "agree S a b \<Longrightarrow> agree T b c \<Longrightarrow> agree (S \<union> T) a c"
  by (simp add: agree_def)

lemma agree_mono: "agree S a b \<Longrightarrow> S \<subseteq> T \<Longrightarrow> agree T a b"
  by (auto simp: agree_def)

lemma shard_part_agree:
  assumes "agree S pn pn'" "s \<notin> S"
  shows "shard_part t s (view pn) = shard_part t s (view pn')"
proof -
  have "filter (\<lambda>(n, w). merge_shard n = s \<and> bounds w = t) v = filter (\<lambda>(n, w). bounds w = t) (filter (\<lambda>(n, w). merge_shard n = s) v)" for v
    by (simp add: case_prod_beta' conj_commute)
  moreover have "filter (\<lambda>(n, w). merge_shard n = s) (view pn) = filter (\<lambda>(n, w). merge_shard n = s) (view pn')"
    using assms by (simp add: agree_def)
  ultimately show ?thesis unfolding shard_part_def by (simp only:)
qed

lemma selected_window_view: "view pn = view pn' \<Longrightarrow> selected_window pn = selected_window pn'"
proof -
  assume v: "view pn = view pn'"
  have ends: "(\<forall>(n, w) \<in> set qn. ws_end (nw_state w) \<le> e) \<longleftrightarrow> (\<forall>(n, w) \<in> set (view qn). ws_end w \<le> e)" for qn e
    by (auto simp: view_def)
  have "selects pn t \<longleftrightarrow> selects pn' t" for t unfolding selects_def reporting_view ends v ..
  moreover have "pn = [] \<longleftrightarrow> pn' = []" using v view_simps(2) by metis
  ultimately have "selected_window pn = Some t \<longleftrightarrow> selected_window pn' = Some t" for t by (simp add: selected_window_iff)
  then show ?thesis by (cases "selected_window pn'") (metis option.exhaust option.distinct(1), metis)
qed

lemma cache_for_view:
  assumes "view pn = view pn'"
  shows "cache_for env pn c = cache_for env pn' c"
proof -
  have "pn = [] \<longleftrightarrow> pn' = []" using assms view_simps(2) by metis
  then show ?thesis unfolding cache_for_def coherent_def merge_cache_shard_eq assms selected_window_view [OF assms] by simp
qed

text \<open>Rebuilding a list of shards.\<close>

lemma rebuild_shards:
  assumes "all_safe pn" "\<forall>s \<in> set shards. s < 16" "length (mc_shard_states c) = 16" "length (mc_shard_nodes c) = 16"
  shows "\<exists>c'. ofold (rebuild_shard env pn t) shards c = Some c' \<and> mc_target c' = mc_target c \<and> mc_final_state c' = mc_final_state c
     \<and> length (mc_shard_states c') = 16 \<and> length (mc_shard_nodes c') = 16
     \<and> (\<forall>s < 16. if s \<in> set shards then merge_cache_shard env pn t s = Some (mc_shard_states c' ! s, mc_shard_nodes c' ! s)
          else mc_shard_states c' ! s = mc_shard_states c ! s \<and> mc_shard_nodes c' ! s = mc_shard_nodes c ! s)"
  using assms(2-4)
proof (induction shards arbitrary: c)
  case (Cons s shards)
  obtain m k where mk: "merge_cache_shard env pn t s = Some (m, k)" using merge_cache_shard_total [OF assms(1)] by blast
  let ?c = "c\<lparr>mc_shard_states := (mc_shard_states c)[s := m], mc_shard_nodes := (mc_shard_nodes c)[s := k]\<rparr>"
  have one: "rebuild_shard env pn t s c = Some ?c" using mk Cons.prems by (simp add: rebuild_shard_def)
  obtain c' where c': "ofold (rebuild_shard env pn t) shards ?c = Some c'" "mc_target c' = mc_target ?c" "mc_final_state c' = mc_final_state ?c"
     "length (mc_shard_states c') = 16" "length (mc_shard_nodes c') = 16"
     "\<forall>i < 16. if i \<in> set shards then merge_cache_shard env pn t i = Some (mc_shard_states c' ! i, mc_shard_nodes c' ! i)
          else mc_shard_states c' ! i = mc_shard_states ?c ! i \<and> mc_shard_nodes c' ! i = mc_shard_nodes ?c ! i"
    using Cons.IH [of ?c] Cons.prems by auto
  have "if i \<in> set (s # shards) then merge_cache_shard env pn t i = Some (mc_shard_states c' ! i, mc_shard_nodes c' ! i)
        else mc_shard_states c' ! i = mc_shard_states c ! i \<and> mc_shard_nodes c' ! i = mc_shard_nodes c ! i" if "i < 16" for i
    using c'(6) that mk Cons.prems by (cases "i \<in> set shards"; cases "i = s") auto
  then show ?case using one c' by auto
qed auto

text \<open>The nodes of a query, none when it has no entry.\<close>

definition nodes_at :: "(string \<times> per_node) list \<Rightarrow> string \<Rightarrow> per_node" where
  "nodes_at nodes q = (case map_of nodes q of None \<Rightarrow> [] | Some pn \<Rightarrow> pn)"

lemma refresh_query_cache_ok:
  assumes safe: "all_safe (nodes_at (gd_nodes data) q)" and ne: "map_of (gd_nodes data) q \<noteq> Some []"
    and old: "cache_for env pn0 (map_of (gd_merge_cache data) q)"
    and agree: "agree (set shards) pn0 (nodes_at (gd_nodes data) q)" and small: "\<forall>s \<in> set shards. s < 16"
  shows "\<exists>c n. refresh_query_cache env data q shards = Some (data\<lparr>gd_merge_cache := c\<rparr>, n)
     \<and> (\<forall>q'. q' \<noteq> q \<longrightarrow> map_of c q' = map_of (gd_merge_cache data) q') \<and> (bt_ok (gd_merge_cache data) \<longrightarrow> bt_ok c)
     \<and> cache_for env (nodes_at (gd_nodes data) q) (map_of c q)"
proof (cases "map_of (gd_nodes data) q")
  case None
  then show ?thesis by (intro exI [of _ "bt_remove q (gd_merge_cache data)"]) (simp add: refresh_query_cache_def cache_for_def nodes_at_def)
next
  case (Some pn)
  then have pn: "pn \<noteq> []" "all_safe pn" "agree (set shards) pn0 pn" using safe ne agree by (auto simp: nodes_at_def)
  obtain t where t: "selected_window pn = Some t" using selected_window_selects [OF pn(1)] by blast
  define cache where "cache = (case map_of (gd_merge_cache data) q of None \<Rightarrow> QueryMergeCache_default | Some c \<Rightarrow> c)"
  define all where "all \<longleftrightarrow> mc_target cache \<noteq> Some t \<or> length (mc_shard_states cache) \<noteq> 16 \<or> length (mc_shard_nodes cache) \<noteq> 16"
  define cache1 where "cache1 = (if all then cache\<lparr>mc_target := Some t, mc_shard_states := replicate 16 None, mc_shard_nodes := replicate 16 0\<rparr> else cache)"
  define todo where "todo = (if all then [0..<16] else shards)"
  have c1: "mc_target cache1 = Some t" "length (mc_shard_states cache1) = 16" "length (mc_shard_nodes cache1) = 16"
    by (auto simp: cache1_def all_def)
  have "\<forall>s \<in> set todo. s < 16" using small by (simp add: todo_def)
  from rebuild_shards [OF pn(2) this c1(2,3), of env t] obtain c2 where
    c2: "ofold (rebuild_shard env pn t) todo cache1 = Some c2" "mc_target c2 = Some t" "mc_final_state c2 = mc_final_state cache1"
      "length (mc_shard_states c2) = 16" "length (mc_shard_nodes c2) = 16"
      "\<And>s. s < 16 \<Longrightarrow> if s \<in> set todo then merge_cache_shard env pn t s = Some (mc_shard_states c2 ! s, mc_shard_nodes c2 ! s)
          else mc_shard_states c2 ! s = mc_shard_states cache1 ! s \<and> mc_shard_nodes c2 ! s = mc_shard_nodes cache1 ! s"
    using c1(1) by auto
  let ?c3 = "if todo \<noteq> [] then c2\<lparr>mc_final_state := None\<rparr> else c2"
  have run: "refresh_query_cache env data q shards = Some (data\<lparr>gd_merge_cache := bt_insert q ?c3 (gd_merge_cache data)\<rparr>, length todo)"
  proof -
    have "Option.bind (map_of (gd_nodes data) q) (\<lambda>per_node. map_option (Pair per_node) (selected_window per_node)) = Some (pn, t)"
      using Some t by simp
    then show ?thesis unfolding refresh_query_cache_def Let_def MERGE_CACHE_SHARDS_def
      using c2(1) by (simp only: option.case prod.case flip: cache_def all_def) (simp only: option.simps flip: cache1_def todo_def)
  qed
  have old': "coherent env pn0 cache" if "\<not> all"
  proof -
    have "mc_target cache = Some t" using that by (simp add: all_def)
    then have "map_of (gd_merge_cache data) q = Some cache" by (auto simp: cache_def QueryMergeCache_default_def split: option.splits)
    then show ?thesis using old by (auto simp: cache_for_def split: if_splits)
  qed
  have shards_ok: "merge_cache_shard env pn t s = Some (mc_shard_states c2 ! s, mc_shard_nodes c2 ! s)" if s: "s < 16" for s
  proof (cases "s \<in> set todo")
    case False
    then have nall: "\<not> all" and out: "s \<notin> set shards" using s by (auto simp: todo_def split: if_splits)
    have "merge_cache_shard env pn0 t s = Some (mc_shard_states cache ! s, mc_shard_nodes cache ! s)"
      using old' [OF nall] nall s by (auto simp: coherent_def all_def)
    moreover have "merge_cache_shard env pn0 t s = merge_cache_shard env pn t s"
      unfolding merge_cache_shard_eq using shard_part_agree [OF pn(3) out] by simp
    ultimately show ?thesis using c2(6) [OF s] False nall by (simp add: cache1_def)
  qed (use c2(6) [OF s] in simp)
  have final: "merge_final env (List.map_filter id (mc_shard_states c2)) None = Some (Some f)" if f: "todo = []" "mc_final_state c2 = Some f" for f
  proof -
    have nall: "\<not> all" using f(1) by (auto simp: todo_def split: if_splits)
    then have eq: "c2 = cache" using c2(1) f(1) by (simp add: cache1_def)
    then show ?thesis using old' [OF nall] f(2) by (auto simp: coherent_def)
  qed
  have "coherent env pn ?c3"
    unfolding coherent_def by (intro exI [of _ t]) (use c2(2,4,5) t shards_ok final in auto)
  then show ?thesis using run pn(1) Some by (auto simp: cache_for_def nodes_at_def)
qed

text \<open>The nodes of the gateway: no query without nodes, names in order, states that merge without
  panicking.\<close>

definition nodes_ok :: "(string \<times> per_node) list \<Rightarrow> bool" where
  "nodes_ok nodes \<longleftrightarrow> bt_ok nodes \<and> (\<forall>(q, pn) \<in> set nodes. pn \<noteq> [] \<and> bt_ok pn \<and> all_safe pn)"

lemma nodes_ok_at:
  assumes "nodes_ok nodes"
  shows "bt_ok (nodes_at nodes q)" "all_safe (nodes_at nodes q)" "map_of nodes q \<noteq> Some []"
proof -
  have "pn \<noteq> [] \<and> bt_ok pn \<and> all_safe pn" if "map_of nodes q = Some pn" for pn
    using assms map_of_SomeD [OF that] by (auto simp: nodes_ok_def)
  then show "bt_ok (nodes_at nodes q)" "all_safe (nodes_at nodes q)" "map_of nodes q \<noteq> Some []"
    by (cases "map_of nodes q"; simp add: nodes_at_def all_safe_def)+
qed

definition caches_ok :: "gateway_env \<Rightarrow> gateway_data \<Rightarrow> bool" where
  "caches_ok env data \<longleftrightarrow> bt_ok (gd_merge_cache data) \<and> (\<forall>q. cache_for env (nodes_at (gd_nodes data) q) (map_of (gd_merge_cache data) q))"

text \<open>The shards marked as changed for a query.\<close>

definition marked :: "changed \<Rightarrow> string \<Rightarrow> nat set" where
  "marked changed q = (case map_of changed q of None \<Rightarrow> {} | Some s \<Rightarrow> set s)"

definition marks_ok :: "changed \<Rightarrow> bool" where
  "marks_ok changed \<longleftrightarrow> bt_ok changed \<and> (\<forall>q. \<forall>s \<in> marked changed q. s < 16)"

lemma marked_mark: "marked (mark_changed q s changed) q' = (if q' = q then insert s (marked changed q) else marked changed q')"
  by (auto simp: marked_def mark_changed_def bt_get_update set_insort_insert split: option.splits)

lemma marks_ok_mark: "marks_ok changed \<Longrightarrow> s < 16 \<Longrightarrow> marks_ok (mark_changed q s changed)"
  unfolding marks_ok_def marked_mark by (auto simp: mark_changed_def)

lemma marks_ok_Nil [simp]: "marks_ok []" "marked [] q = {}"
  by (simp_all add: marks_ok_def marked_def)

text \<open>After a change of the nodes, refreshing the marked shards repairs every cache.\<close>

lemma refresh_all:
  assumes "nodes_ok (gd_nodes data)" "distinct (map fst changed)"
    and "\<And>q sh. (q, sh) \<in> set changed \<Longrightarrow> cache_for env (old q) (map_of (gd_merge_cache data) q)
        \<and> agree (set sh) (old q) (nodes_at (gd_nodes data) q) \<and> (\<forall>s \<in> set sh. s < 16)"
  shows "\<exists>c n. ofold (\<lambda>(query, shards) (data, rebuilds). map_option (\<lambda>(data, n). (data, rebuilds + n)) (refresh_query_cache env data query shards))
       changed (data, k) = Some (data\<lparr>gd_merge_cache := c\<rparr>, n) \<and> (bt_ok (gd_merge_cache data) \<longrightarrow> bt_ok c)
     \<and> (\<forall>q. if q \<in> fst ` set changed then cache_for env (nodes_at (gd_nodes data) q) (map_of c q) else map_of c q = map_of (gd_merge_cache data) q)"
  using assms
proof (induction changed arbitrary: data k)
  case Nil
  then show ?case by (intro exI [of _ "gd_merge_cache data"]) simp
next
  case (Cons x changed)
  obtain q sh where x: "x = (q, sh)" by (cases x)
  note at = nodes_ok_at [OF Cons.prems(1)]
  have q: "cache_for env (old q) (map_of (gd_merge_cache data) q)" "agree (set sh) (old q) (nodes_at (gd_nodes data) q)" "\<forall>s \<in> set sh. s < 16"
    using Cons.prems(3) [of q sh] x by auto
  obtain c n where c: "refresh_query_cache env data q sh = Some (data\<lparr>gd_merge_cache := c\<rparr>, n)"
     "\<And>q'. q' \<noteq> q \<Longrightarrow> map_of c q' = map_of (gd_merge_cache data) q'" "bt_ok (gd_merge_cache data) \<longrightarrow> bt_ok c"
     "cache_for env (nodes_at (gd_nodes data) q) (map_of c q)"
    using refresh_query_cache_ok [OF at(2,3) q] by blast
  let ?d = "data\<lparr>gd_merge_cache := c\<rparr>"
  have out: "q \<notin> fst ` set changed" "distinct (map fst changed)" using Cons.prems(2) x by auto
  have "cache_for env (old q') (map_of (gd_merge_cache ?d) q') \<and> agree (set sh') (old q') (nodes_at (gd_nodes ?d) q') \<and> (\<forall>s \<in> set sh'. s < 16)"
    if "(q', sh') \<in> set changed" for q' sh'
  proof -
    have "q' \<noteq> q" using that out(1) by force
    then show ?thesis using Cons.prems(3) [of q' sh'] that c(2) by simp
  qed
  note pre = this
  have "nodes_ok (gd_nodes ?d)" using Cons.prems(1) by simp
  from Cons.IH [OF this out(2) pre, of "k + n"] obtain c' n' where
    c0: "ofold (\<lambda>(query, shards) (data, rebuilds). map_option (\<lambda>(data, n). (data, rebuilds + n)) (refresh_query_cache env data query shards))
       changed (?d, k + n) = Some (?d\<lparr>gd_merge_cache := c'\<rparr>, n')" "bt_ok (gd_merge_cache ?d) \<longrightarrow> bt_ok c'"
     "\<forall>q'. if q' \<in> fst ` set changed then cache_for env (nodes_at (gd_nodes ?d) q') (map_of c' q') else map_of c' q' = map_of (gd_merge_cache ?d) q'"
    by blast
  have c': "bt_ok c \<longrightarrow> bt_ok c'"
     "\<forall>q'. if q' \<in> fst ` set changed then cache_for env (nodes_at (gd_nodes data) q') (map_of c' q') else map_of c' q' = map_of c q'"
    using c0(2,3) by (simp_all cong: if_cong)
  have "if q' \<in> fst ` set (x # changed) then cache_for env (nodes_at (gd_nodes data) q') (map_of c' q')
      else map_of c' q' = map_of (gd_merge_cache data) q'" for q'
    using spec [OF c'(2), of q'] c(2,4) out(1) x by (cases "q' = q") (auto split: if_splits)
  then show ?case using c(1,3) c0(1) c'(1) x by (intro exI [of _ c'] exI [of _ n']) auto
qed

lemma refresh_changed_caches_ok:
  assumes nodes: "nodes_ok (gd_nodes data)" and bt: "bt_ok (gd_merge_cache data)"
    and old: "\<And>q. cache_for env (old q) (map_of (gd_merge_cache data) q)"
    and agree: "\<And>q. agree (marked changed q) (old q) (nodes_at (gd_nodes data) q)" and marks: "marks_ok changed"
  shows "\<exists>c n. refresh_changed_caches env data changed = Some (data\<lparr>gd_merge_cache := c\<rparr>, n) \<and> caches_ok env (data\<lparr>gd_merge_cache := c\<rparr>)"
proof -
  have bt': "bt_ok changed" using marks by (simp add: marks_ok_def)
  have m: "marked changed q = set sh" if "(q, sh) \<in> set changed" for q sh
    using that bt_mem_get [OF bt', of q sh] by (simp add: marked_def)
  have pre: "cache_for env (old q) (map_of (gd_merge_cache data) q) \<and> agree (set sh) (old q) (nodes_at (gd_nodes data) q) \<and> (\<forall>s \<in> set sh. s < 16)"
    if "(q, sh) \<in> set changed" for q sh
    using old agree [of q] marks m [OF that] by (auto simp: marks_ok_def)
  obtain c n where c: "refresh_changed_caches env data changed = Some (data\<lparr>gd_merge_cache := c\<rparr>, n)" "bt_ok c"
     "\<And>q. if q \<in> fst ` set changed then cache_for env (nodes_at (gd_nodes data) q) (map_of c q) else map_of c q = map_of (gd_merge_cache data) q"
    using refresh_all [OF nodes bt_ok_distinct [OF bt'] pre, of 0] bt unfolding refresh_changed_caches_def by blast
  have "cache_for env (nodes_at (gd_nodes data) q) (map_of c q)" for q
  proof (cases "q \<in> fst ` set changed")
    case False
    then have "map_of changed q = None" by (simp add: map_of_eq_None_iff)
    then have "marked changed q = {}" by (simp add: marked_def)
    then have v: "view (old q) = view (nodes_at (gd_nodes data) q)" using agree [of q] by (simp add: agree_def)
    have "map_of c q = map_of (gd_merge_cache data) q" using c(3) [of q] False by simp
    then show ?thesis using old [of q] cache_for_view [OF v, of env "map_of c q"] by argo
  qed (use c(3) [of q] in simp)
  then have "caches_ok env (data\<lparr>gd_merge_cache := c\<rparr>)" using c(2) by (simp add: caches_ok_def)
  then show ?thesis using c(1) by blast
qed

end
