(* ===== verification/GatewayRuns.thy ===== *)
theory GatewayRuns
  imports GatewayMerge
begin

text \<open>
  Whole calls of the gateway: eviction, admission under the node and byte limits, and the
  invariant of every state the gateway reaches by pushes and reads.
\<close>

section \<open>Accounting\<close>

definition window_bytes :: "gateway_env \<Rightarrow> node_window \<Rightarrow> nat" where
  "window_bytes env w = unat (ge_mem env (nw_state w))"

definition bytes_of :: "gateway_env \<Rightarrow> (string \<times> per_node) list \<Rightarrow> nat" where
  "bytes_of env nodes = bt_sum (bt_sum (window_bytes env)) nodes"

text \<open>The nodes with a window for some query.\<close>

definition node_names :: "(string \<times> per_node) list \<Rightarrow> string set" where
  "node_names nodes = (\<Union>(q, pn) \<in> set nodes. fst ` set pn)"

lemma insort_insert_all: "sorted acc \<and> distinct acc \<Longrightarrow>
    sorted (fold insort_insert xs acc) \<and> distinct (fold insort_insert xs acc) \<and> set (fold insort_insert xs acc) = set xs \<union> set acc"
proof (induction xs arbitrary: acc)
  case (Cons x xs)
  then show ?case using Cons.IH [OF insort_insert_ok] by (simp add: set_insort_insert)
qed simp

lemma unique_node_count_names: "unique_node_count nodes = card (node_names nodes)"
proof -
  have "set (concat (map (\<lambda>(_, pn). map fst pn) nodes)) = node_names nodes" by (auto simp: node_names_def)
  then show ?thesis unfolding unique_node_count_def
    using insort_insert_all [of "[]" "concat (map (\<lambda>(_, pn). map fst pn) nodes)"] by (metis distinct_card distinct.simps(1) sorted0 sup_bot.right_neutral list.set(1))
qed

lemma finite_node_names [simp]: "finite (node_names nodes)"
  by (auto simp: node_names_def)

lemma node_names_at: "bt_ok nodes \<Longrightarrow> n \<in> node_names nodes \<longleftrightarrow> (\<exists>q. map_of (nodes_at nodes q) n \<noteq> None)"
proof
  assume ok: "bt_ok nodes"
  show "\<exists>q. map_of (nodes_at nodes q) n \<noteq> None" if names: "n \<in> node_names nodes"
  proof -
    obtain q pn where qn: "(q, pn) \<in> set nodes" "n \<in> fst ` set pn" using names by (auto simp: node_names_def)
    then have "map_of nodes q = Some pn" using bt_mem_get [OF ok] by blast
    then have "map_of (nodes_at nodes q) n \<noteq> None" using qn(2) by (simp add: nodes_at_def map_of_eq_None_iff)
    then show ?thesis ..
  qed
  show "n \<in> node_names nodes" if at: "\<exists>q. map_of (nodes_at nodes q) n \<noteq> None"
  proof -
    obtain q where q: "map_of (nodes_at nodes q) n \<noteq> None" using at ..
    then obtain pn where pn: "map_of nodes q = Some pn" by (cases "map_of nodes q") (simp_all add: nodes_at_def)
    then have "n \<in> fst ` set pn" using q by (simp add: nodes_at_def map_of_eq_None_iff)
    then show ?thesis using map_of_SomeD [OF pn] by (auto simp: node_names_def)
  qed
qed

section \<open>Eviction\<close>

definition is_fresh :: "clock \<Rightarrow> nat \<Rightarrow> string \<Rightarrow> string \<times> node_window \<Rightarrow> bool" where
  "is_fresh clock cutoff q = (\<lambda>(n, w). clock q n - nw_received w < cutoff)"

lemma evict_nodes:
  assumes "bt_ok pn" "unat r = bt_sum (window_bytes env) pn + rest" "marks_ok ch"
  shows "\<exists>r' ch'. fold (evict_node env q) ns (pn, r, ch) = (filter (\<lambda>(n, w). n \<notin> set ns) pn, r', ch')
     \<and> unat r' = bt_sum (window_bytes env) (filter (\<lambda>(n, w). n \<notin> set ns) pn) + rest \<and> marks_ok ch'
     \<and> (\<forall>q'. marked ch' q' = (if q' = q then marked ch q \<union> merge_shard ` set ns else marked ch q'))"
  using assms
proof (induction ns arbitrary: pn r ch)
  case (Cons n ns)
  let ?r = "case map_of pn n of None \<Rightarrow> r | Some w \<Rightarrow> saturating_sub r (ge_mem env (nw_state w))"
  have "bt_sum (window_bytes env) (bt_remove n pn) + (case map_of pn n of None \<Rightarrow> 0 | Some w \<Rightarrow> window_bytes env w) = bt_sum (window_bytes env) pn"
    using bt_sum_remove [OF Cons.prems(1)] .
  moreover have "unat (saturating_sub r (ge_mem env (nw_state w))) = unat r - window_bytes env w" for w
    by (auto simp: saturating_sub_def unat_sub word_less_nat_alt word_le_nat_alt window_bytes_def)
  ultimately have r: "unat ?r = bt_sum (window_bytes env) (bt_remove n pn) + rest"
    using Cons.prems(2) by (cases "map_of pn n") simp_all
  have split: "filter (\<lambda>(n', w). n' \<notin> set ns) (bt_remove n pn) = filter (\<lambda>(n', w). n' \<notin> set (n # ns)) pn"
    by (simp add: bt_remove_def case_prod_beta' conj_commute)
  have step: "evict_node env q n (pn, r, ch) = (bt_remove n pn, ?r, mark_changed q (merge_shard n) ch)" by (simp add: evict_node_def)
  have ok: "bt_ok (bt_remove n pn)" "marks_ok (mark_changed q (merge_shard n) ch)" using Cons.prems(1,3) by (simp_all add: marks_ok_mark)
  from Cons.IH [OF ok(1) r ok(2)] obtain r' ch' where
    "fold (evict_node env q) ns (bt_remove n pn, ?r, mark_changed q (merge_shard n) ch) = (filter (\<lambda>(n', w). n' \<notin> set (n # ns)) pn, r', ch')"
    "unat r' = bt_sum (window_bytes env) (filter (\<lambda>(n', w). n' \<notin> set (n # ns)) pn) + rest" "marks_ok ch'"
    "\<forall>q'. marked ch' q' = (if q' = q then marked (mark_changed q (merge_shard n) ch) q \<union> merge_shard ` set ns
       else marked (mark_changed q (merge_shard n) ch) q')"
    unfolding split by blast
  then show ?case unfolding fold_simps step by (intro exI [of _ r'] exI [of _ ch'] conjI) (auto simp: marked_mark)
qed simp

lemma not_stale: "bt_ok pn \<Longrightarrow> filter (\<lambda>(n, w). n \<notin> set (stale_nodes clock cutoff q pn)) pn = filter (is_fresh clock cutoff q) pn"
proof (rule filter_cong)
  fix x assume ok: "bt_ok pn" and x: "x \<in> set pn"
  obtain n w where nw: "x = (n, w)" by (cases x)
  have "w' = w" if "(n, w') \<in> set pn" for w' using that x nw bt_mem_get [OF ok] by (metis option.inject)
  moreover have "n \<in> set (stale_nodes clock cutoff q pn) \<longleftrightarrow> (\<exists>w'. (n, w') \<in> set pn \<and> \<not> is_fresh clock cutoff q (n, w'))"
    by (auto simp: stale_nodes_def is_fresh_def not_less image_iff)
  ultimately have "n \<in> set (stale_nodes clock cutoff q pn) \<longleftrightarrow> \<not> is_fresh clock cutoff q (n, w)" using x nw by blast
  then show "(case x of (n, w) \<Rightarrow> n \<notin> set (stale_nodes clock cutoff q pn)) \<longleftrightarrow> is_fresh clock cutoff q x" using nw by simp
qed simp

lemma agree_filter: "agree (merge_shard ` set ns) pn (filter (\<lambda>(n, w). n \<notin> set ns) pn)"
proof -
  have "view (filter (\<lambda>(n, w). n \<notin> set ns) pn) = filter (\<lambda>(n, w). n \<notin> set ns) (view pn)"
    by (simp add: view_def filter_map comp_def case_prod_beta')
  moreover have "filter (\<lambda>(n, w). merge_shard n = s) (filter (\<lambda>(n, w). n \<notin> set ns) v) = filter (\<lambda>(n, w). merge_shard n = s) v"
    if "s \<notin> merge_shard ` set ns" for s and v :: "(string \<times> window_state) list"
    unfolding filter_filter using that by (intro filter_cong) auto
  ultimately show ?thesis by (simp add: agree_def)
qed

definition fresh_nodes :: "clock \<Rightarrow> nat \<Rightarrow> (string \<times> per_node) list \<Rightarrow> (string \<times> per_node) list" where
  "fresh_nodes clock cutoff nodes = map (\<lambda>(q, pn). (q, filter (is_fresh clock cutoff q) pn)) nodes"

lemma evict_queries:
  assumes "\<forall>(q, pn) \<in> set nodes. bt_ok pn" "unat r = bytes_of env out + bytes_of env nodes" "marks_ok ch" "distinct (map fst nodes)"
    and "\<forall>q \<in> fst ` set nodes. marked ch q = {}"
  shows "\<exists>r' ch'. fold (evict_query env clock cutoff) nodes (out, r, ch) = (out @ fresh_nodes clock cutoff nodes, r', ch')
     \<and> unat r' = bytes_of env (out @ fresh_nodes clock cutoff nodes) \<and> marks_ok ch'
     \<and> (\<forall>q. marked ch' q = (case map_of nodes q of None \<Rightarrow> marked ch q | Some pn \<Rightarrow> merge_shard ` set (stale_nodes clock cutoff q pn)))"
  using assms
proof (induction nodes arbitrary: out r ch)
  case (Cons x nodes)
  obtain q pn where x: "x = (q, pn)" by (cases x)
  let ?ns = "stale_nodes clock cutoff q pn" and ?pn = "filter (is_fresh clock cutoff q) pn"
  have ok: "bt_ok pn" and r: "unat r = bt_sum (window_bytes env) pn + (bytes_of env out + bytes_of env nodes)" and q: "marked ch q = {}"
    using Cons.prems(1,2,5) x by (auto simp: bytes_of_def)
  obtain r1 ch1 where one: "fold (evict_node env q) ?ns (pn, r, ch) = (?pn, r1, ch1)"
    "unat r1 = bt_sum (window_bytes env) ?pn + (bytes_of env out + bytes_of env nodes)" "marks_ok ch1"
    "\<And>q'. marked ch1 q' = (if q' = q then merge_shard ` set ?ns else marked ch q')"
    using evict_nodes [OF ok r Cons.prems(3), of q ?ns] q unfolding not_stale [OF ok] by auto
  have step: "evict_query env clock cutoff x (out, r, ch) = (out @ [(q, ?pn)], r1, ch1)" using one(1) x by (simp add: evict_query_def)
  have r1: "unat r1 = bytes_of env (out @ [(q, ?pn)]) + bytes_of env nodes" using one(2) by (simp add: bytes_of_def)
  have out: "q \<notin> fst ` set nodes" "distinct (map fst nodes)" "\<forall>(q, pn) \<in> set nodes. bt_ok pn" using Cons.prems(1,4) x by auto
  have "\<forall>q' \<in> fst ` set nodes. marked ch1 q' = {}" using one(4) Cons.prems(5) out(1) x by auto
  from Cons.IH [OF out(3) r1 one(3) out(2) this] obtain r' ch' where
    IH: "fold (evict_query env clock cutoff) nodes (out @ [(q, ?pn)], r1, ch1) = ((out @ [(q, ?pn)]) @ fresh_nodes clock cutoff nodes, r', ch')"
    "unat r' = bytes_of env ((out @ [(q, ?pn)]) @ fresh_nodes clock cutoff nodes)" "marks_ok ch'"
    "\<And>q'. marked ch' q' = (case map_of nodes q' of None \<Rightarrow> marked ch1 q' | Some pn \<Rightarrow> merge_shard ` set (stale_nodes clock cutoff q' pn))"
    by blast
  have fr: "(out @ [(q, ?pn)]) @ fresh_nodes clock cutoff nodes = out @ fresh_nodes clock cutoff (x # nodes)" using x by (simp add: fresh_nodes_def)
  have "map_of nodes q = None" using out(1) by (simp add: map_of_eq_None_iff)
  then have "marked ch' q' = (case map_of (x # nodes) q' of None \<Rightarrow> marked ch q' | Some pn \<Rightarrow> merge_shard ` set (stale_nodes clock cutoff q' pn))" for q'
    using IH(4) [of q'] one(4) [of q'] x by (cases "q' = q") (auto split: option.split)
  then show ?case unfolding fold_simps step using IH(1-3) unfolding fr by blast
qed (simp add: fresh_nodes_def bytes_of_def)

lemma map_of_fresh: "map_of (fresh_nodes clock cutoff nodes) q = map_option (filter (is_fresh clock cutoff q)) (map_of nodes q)"
  by (induction nodes) (auto simp: fresh_nodes_def)

lemma bytes_of_nonempty: "bytes_of env (filter (\<lambda>(_, pn). pn \<noteq> []) nodes) = bytes_of env nodes"
  by (induction nodes) (auto simp: bytes_of_def)

lemma nodes_at_nonempty: "bt_ok nodes \<Longrightarrow> nodes_at (filter (\<lambda>(_, pn). pn \<noteq> []) nodes) q = nodes_at nodes q"
proof (induction nodes)
  case (Cons x nodes)
  obtain k pn where x: "x = (k, pn)" by (cases x)
  have "map_of nodes k = None" using Cons.prems x by (force simp: map_of_eq_None_iff)
  then have "map_of (filter (\<lambda>(_, pn). pn \<noteq> []) nodes) k = None" by (force simp: map_of_eq_None_iff)
  moreover have "nodes_at (filter (\<lambda>(_, pn). pn \<noteq> []) nodes) q = nodes_at nodes q" using Cons x by simp
  ultimately show ?case using x by (auto simp: nodes_at_def)
qed simp

lemma all_safe_filter [simp]: "all_safe pn \<Longrightarrow> all_safe (filter P pn)"
  by (auto simp: all_safe_def)

text \<open>What eviction does: each query keeps exactly its fresh nodes, the retained bytes stay exact,
  and the marked shards are those of the nodes that left.\<close>

lemma evict_stale_spec:
  assumes ok: "nodes_ok (gd_nodes data)" and bytes: "unat (gd_retained_sketch_bytes data) = bytes_of env (gd_nodes data)"
  shows "\<exists>data' ch. evict_stale env clock cutoff data = (data', ch) \<and> nodes_ok (gd_nodes data') \<and> gd_merge_cache data' = gd_merge_cache data
     \<and> unat (gd_retained_sketch_bytes data') = bytes_of env (gd_nodes data') \<and> marks_ok ch
     \<and> gd_nodes data' = filter (\<lambda>(_, pn). pn \<noteq> []) (fresh_nodes clock cutoff (gd_nodes data))
     \<and> (\<forall>q. nodes_at (gd_nodes data') q = filter (is_fresh clock cutoff q) (nodes_at (gd_nodes data) q))
     \<and> (\<forall>q. agree (marked ch q) (nodes_at (gd_nodes data) q) (nodes_at (gd_nodes data') q))"
proof -
  let ?nodes = "gd_nodes data" and ?f = "fresh_nodes clock cutoff (gd_nodes data)"
  have bt: "bt_ok ?nodes" and pns: "\<forall>(q, pn) \<in> set ?nodes. bt_ok pn" using ok by (auto simp: nodes_ok_def)
  have "unat (gd_retained_sketch_bytes data) = bytes_of env [] + bytes_of env ?nodes" using bytes by (simp add: bytes_of_def)
  from evict_queries [OF pns this marks_ok_Nil(1) bt_ok_distinct [OF bt], of clock cutoff] obtain r' ch where
    ev: "fold (evict_query env clock cutoff) ?nodes ([], gd_retained_sketch_bytes data, []) = (?f, r', ch)"
    "unat r' = bytes_of env ?f" "marks_ok ch"
    "\<And>q. marked ch q = (case map_of ?nodes q of None \<Rightarrow> {} | Some pn \<Rightarrow> merge_shard ` set (stale_nodes clock cutoff q pn))"
    by (auto cong: option.case_cong)
  let ?kept = "filter (\<lambda>(_, pn). pn \<noteq> []) ?f"
  have btf: "bt_ok ?f" using bt by (simp add: fresh_nodes_def bt_ok_def comp_def case_prod_beta')
  have keep: "nodes_at ?kept q = filter (is_fresh clock cutoff q) (nodes_at ?nodes q)" for q
    unfolding nodes_at_nonempty [OF btf] by (simp add: nodes_at_def map_of_fresh split: option.split)
  have "nodes_ok ?kept" using ok btf by (auto simp: nodes_ok_def fresh_nodes_def)
  moreover have "agree (marked ch q) (nodes_at ?nodes q) (nodes_at ?kept q)" for q
  proof (cases "map_of ?nodes q")
    case None
    then show ?thesis unfolding keep by (simp add: nodes_at_def)
  next
    case (Some pn)
    then have "bt_ok pn" using nodes_ok_at(1) [OF ok, of q] by (simp add: nodes_at_def)
    then show ?thesis unfolding keep using Some ev(4) [of q] agree_filter [of "stale_nodes clock cutoff q pn" pn] by (simp add: nodes_at_def not_stale)
  qed
  moreover have "unat r' = bytes_of env ?kept" using ev(2) by (simp add: bytes_of_nonempty)
  ultimately show ?thesis using ev(1,3) keep by (simp add: evict_stale_def)
qed

section \<open>The invariant of the data\<close>

definition data_ok :: "gateway_env \<Rightarrow> gateway_data \<Rightarrow> bool" where
  "data_ok env data \<longleftrightarrow> nodes_ok (gd_nodes data) \<and> unat (gd_retained_sketch_bytes data) = bytes_of env (gd_nodes data)"

definition node_at :: "gateway_data \<Rightarrow> string \<Rightarrow> string \<Rightarrow> node_window option" where
  "node_at data q n = map_of (nodes_at (gd_nodes data) q) n"

lemma map_of_filter_ok: "bt_ok pn \<Longrightarrow> map_of (filter P pn) n = Some w \<longleftrightarrow> map_of pn n = Some w \<and> P (n, w)"
  using bt_mem_get [of "filter P pn" n w] bt_mem_get [of pn n w] by auto

lemma expire_ok:
  assumes "data_ok env data" "caches_ok env data"
  shows "\<exists>data' n. expire env clock cutoff data = Some (data', n) \<and> data_ok env data' \<and> caches_ok env data'
     \<and> gd_nodes data' = filter (\<lambda>(_, pn). pn \<noteq> []) (fresh_nodes clock cutoff (gd_nodes data))
     \<and> (\<forall>q. nodes_at (gd_nodes data') q = filter (is_fresh clock cutoff q) (nodes_at (gd_nodes data) q))"
proof -
  obtain d ch where ev: "evict_stale env clock cutoff data = (d, ch)" "nodes_ok (gd_nodes d)" "gd_merge_cache d = gd_merge_cache data"
     "unat (gd_retained_sketch_bytes d) = bytes_of env (gd_nodes d)" "marks_ok ch"
     "gd_nodes d = filter (\<lambda>(_, pn). pn \<noteq> []) (fresh_nodes clock cutoff (gd_nodes data))"
     "\<And>q. nodes_at (gd_nodes d) q = filter (is_fresh clock cutoff q) (nodes_at (gd_nodes data) q)"
     "\<And>q. agree (marked ch q) (nodes_at (gd_nodes data) q) (nodes_at (gd_nodes d) q)"
    using evict_stale_spec [of data env clock cutoff] assms(1) unfolding data_ok_def by blast
  have "bt_ok (gd_merge_cache d)" "\<And>q. cache_for env (nodes_at (gd_nodes data) q) (map_of (gd_merge_cache d) q)"
    using assms(2) ev(3) by (simp_all add: caches_ok_def)
  from refresh_changed_caches_ok [OF ev(2) this(1) this(2) ev(8) ev(5)] obtain c n where
    "refresh_changed_caches env d ch = Some (d\<lparr>gd_merge_cache := c\<rparr>, n)" "caches_ok env (d\<lparr>gd_merge_cache := c\<rparr>)" by blast
  then show ?thesis using ev(1,2,4,6,7) by (simp add: expire_def data_ok_def)
qed

lemma fresh_node: "bt_ok pn \<Longrightarrow> map_of (filter (is_fresh clock cutoff q) pn) n = Some w \<longleftrightarrow> map_of pn n = Some w \<and> clock q n - nw_received w < cutoff"
  by (simp add: map_of_filter_ok is_fresh_def)

text \<open>Fewer entries, fewer names.\<close>

lemma node_names_mono:
  assumes "bt_ok nodes" "bt_ok nodes'" "\<And>q n. map_of (nodes_at nodes q) n \<noteq> None \<Longrightarrow> map_of (nodes_at nodes' q) n \<noteq> None \<or> n = m"
  shows "node_names nodes \<subseteq> insert m (node_names nodes')"
  using assms(3) unfolding subset_iff insert_iff node_names_at [OF assms(1)] node_names_at [OF assms(2)] by blast

section \<open>Admission\<close>

lemma checked_replace_exact:
  "checked_replace r old new = Some p \<Longrightarrow> unat old \<le> unat r \<and> unat p + unat old = unat r + unat new"
proof -
  assume "checked_replace r old new = Some p"
  then have ge: "unat old \<le> unat r" and fit: "unat (r - old) + unat new < 2 ^ 64" and p: "p = r - old + new"
    by (auto simp: checked_replace_def word_less_nat_alt split: if_splits)
  have "unat (r - old) = unat r - unat old" using ge by (simp add: unat_sub word_le_nat_alt)
  moreover have "unat p = unat (r - old) + unat new" unfolding p using fit by (simp add: unat_word_ariths)
  ultimately show ?thesis using ge by simp
qed

lemma bytes_of_insert:
  assumes "bt_ok nodes"
  shows "bytes_of env (bt_insert q pn nodes) + bt_sum (window_bytes env) (nodes_at nodes q) = bytes_of env nodes + bt_sum (window_bytes env) pn"
  using bt_sum_insert [OF assms, of "bt_sum (window_bytes env)" q pn] by (auto simp: bytes_of_def nodes_at_def split: option.splits)

lemma nodes_at_insert: "nodes_at (bt_insert q pn nodes) q' = (if q' = q then pn else nodes_at nodes q')"
  by (simp add: nodes_at_def)

lemma mem_bt_insert: "(q', v') \<in> set (bt_insert q v m) \<Longrightarrow> (q', v') = (q, v) \<or> (q', v') \<in> set m"
  by (induction q v m rule: bt_insert.induct) (auto split: if_splits)

lemma all_safe_insert: "all_safe pn \<Longrightarrow> qs_safe (ws_state (nw_state w)) \<Longrightarrow> all_safe (bt_insert n w pn)"
  by (auto simp: all_safe_def dest!: mem_bt_insert)

lemma nodes_ok_insert:
  assumes "nodes_ok nodes" "pn \<noteq> []" "bt_ok pn" "all_safe pn"
  shows "nodes_ok (bt_insert q pn nodes)"
  using assms by (auto simp: nodes_ok_def dest!: mem_bt_insert)

lemma agree_insert:
  assumes "bt_ok pn"
  shows "agree {merge_shard n} pn (bt_insert n w pn)"
proof -
  have ok: "bt_ok (view pn)" using assms by (simp add: view_def bt_ok_def comp_def case_prod_beta')
  have "view (bt_insert n w pn) = bt_insert n (nw_state w) (view pn)" using map_bt_insert [of nw_state] by (simp add: view_def)
  then show ?thesis using filter_bt_insert [OF ok] by (simp add: agree_def)
qed

text \<open>Refreshing the arrival time of an entry changes nothing a merge reads.\<close>

lemma touch_view:
  assumes "bt_ok pn" "map_of pn n = Some w"
  shows "view (bt_insert n (w\<lparr>nw_received := now\<rparr>) pn) = view pn"
proof -
  have ok: "bt_ok (view pn)" using assms by (simp add: view_def bt_ok_def comp_def case_prod_beta')
  have "map_of (view pn) n = Some (nw_state w)" using assms(2) by (simp add: view_def map_of_map)
  then have "bt_insert n (nw_state w) (view pn) = view pn" using bt_insert_same [OF ok] by simp
  then show ?thesis using map_bt_insert [of nw_state n "w\<lparr>nw_received := now\<rparr>" pn] by (simp add: view_def)
qed

lemma window_bytes_view: "bt_sum (window_bytes env) pn = bt_sum (\<lambda>w. unat (ge_mem env w)) (view pn)"
  by (induction pn) (auto simp: view_def window_bytes_def)

text \<open>The query a rejection is about.\<close>

fun rejected_query :: "rejection \<Rightarrow> string" where
  "rejected_query (NotConfigured q) = q"
| "rejected_query (Incompatible q e) = q"
| "rejected_query (CapacityFull q) = q"
| "rejected_query (AccountingOverflow q) = q"
| "rejected_query (BudgetExceeded q) = q"

text \<open>What becomes of the entry of a node that pushes a state: a newer entry only gets a new
  arrival time, any other is replaced.\<close>

definition pushed_over :: "nat \<Rightarrow> window_state \<Rightarrow> node_window option \<Rightarrow> node_window \<Rightarrow> bool" where
  "pushed_over now st old new \<longleftrightarrow>
     (case old of
        None \<Rightarrow> new = \<lparr>nw_received = now, nw_state = st\<rparr>
      | Some w \<Rightarrow> new = (if ws_end st < ws_end (nw_state w) then w\<lparr>nw_received := now\<rparr> else \<lparr>nw_received = now, nw_state = st\<rparr>))"

definition admit_inv :: "gateway_env \<Rightarrow> u64 \<Rightarrow> (string \<Rightarrow> per_node) \<Rightarrow> admission \<Rightarrow> bool" where
  "admit_inv env max_bytes old ad \<longleftrightarrow> data_ok env (ad_data ad) \<and> gd_retained_sketch_bytes (ad_data ad) \<le> max_bytes \<and> marks_ok (ad_changed ad)
     \<and> (\<forall>q. agree (marked (ad_changed ad) q) (old q) (nodes_at (gd_nodes (ad_data ad)) q))"

text \<open>Storing a node map for a query.\<close>

lemma put_ok:
  assumes inv: "admit_inv env m old ad" and pn: "pn \<noteq> []" "bt_ok pn" "all_safe pn"
    and r: "unat r + bt_sum (window_bytes env) (nodes_at (gd_nodes (ad_data ad)) q) = unat (gd_retained_sketch_bytes (ad_data ad)) + bt_sum (window_bytes env) pn" "r \<le> m"
    and ch: "marks_ok ch" "\<And>q'. marked ch q' = marked (ad_changed ad) q' \<union> (if q' = q then S else {})"
    and ag: "agree S (nodes_at (gd_nodes (ad_data ad)) q) pn"
  shows "admit_inv env m old (ad\<lparr>ad_data := (ad_data ad)\<lparr>gd_retained_sketch_bytes := r, gd_nodes := bt_insert q pn (gd_nodes (ad_data ad))\<rparr>, ad_changed := ch\<rparr>)"
proof -
  have ok: "nodes_ok (gd_nodes (ad_data ad))" "unat (gd_retained_sketch_bytes (ad_data ad)) = bytes_of env (gd_nodes (ad_data ad))"
    using inv by (simp_all add: admit_inv_def data_ok_def)
  then have bt: "bt_ok (gd_nodes (ad_data ad))" by (simp add: nodes_ok_def)
  have "unat r = bytes_of env (bt_insert q pn (gd_nodes (ad_data ad)))" using bytes_of_insert [OF bt, of env q pn] r(1) ok(2) by linarith
  moreover have "agree (marked ch q') (old q') (nodes_at (bt_insert q pn (gd_nodes (ad_data ad))) q')" for q'
  proof (cases "q' = q")
    case True
    then have "agree (marked ch q) (old q) pn" using agree_trans [OF _ ag, of "marked (ad_changed ad) q" "old q"] inv ch(2) by (simp add: admit_inv_def)
    then show ?thesis using True by (simp add: nodes_at_insert)
  qed (use inv ch(2) in \<open>simp add: nodes_at_insert admit_inv_def\<close>)
  ultimately show ?thesis using nodes_ok_insert [OF ok(1) pn] r(2) ch(1) by (simp add: admit_inv_def data_ok_def)
qed

text \<open>The effect of admitting one state: it is accepted and stored over the entry of its node, or
  rejected and nothing changes.\<close>

definition admit_effect :: "nat \<Rightarrow> string \<Rightarrow> string \<Rightarrow> window_state \<Rightarrow> admission \<Rightarrow> admission \<Rightarrow> bool" where
  "admit_effect now node q st ad ad' \<longleftrightarrow> gd_merge_cache (ad_data ad') = gd_merge_cache (ad_data ad)
     \<and> (\<forall>q' n. (q', n) \<noteq> (q, node) \<longrightarrow> node_at (ad_data ad') q' n = node_at (ad_data ad) q' n)
     \<and> (ad_rejected ad' = ad_rejected ad \<and> ad_accepted ad' = ad_accepted ad + 1
          \<and> (\<exists>w. node_at (ad_data ad') q node = Some w \<and> pushed_over now st (node_at (ad_data ad) q node) w)
        \<or> (\<exists>rej. ad_rejected ad' = ad_rejected ad @ [rej] \<and> rejected_query rej = q) \<and> ad_accepted ad' = ad_accepted ad
          \<and> node_at (ad_data ad') q node = node_at (ad_data ad) q node)"

lemma admit_touch:
  assumes inv: "admit_inv env m old ad" and w: "map_of (nodes_at (gd_nodes (ad_data ad)) q) node = Some w" "ws_end st < ws_end (nw_state w)"
  shows "admit_inv env m old (admit env m now node (q, st) ad) \<and> admit_effect now node q st ad (admit env m now node (q, st) ad)"
proof -
  let ?data = "ad_data ad"
  let ?pn = "nodes_at (gd_nodes ?data) q"
  have pn: "bt_ok ?pn" "all_safe ?pn" using nodes_ok_at inv by (auto simp: admit_inv_def data_ok_def)
  let ?pn' = "bt_insert node (w\<lparr>nw_received := now\<rparr>) ?pn"
  let ?ad = "ad\<lparr>ad_data := ?data\<lparr>gd_retained_sketch_bytes := gd_retained_sketch_bytes ?data, gd_nodes := bt_insert q ?pn' (gd_nodes ?data)\<rparr>, ad_changed := ad_changed ad\<rparr>"
  have res: "admit env m now node (q, st) ad = ?ad\<lparr>ad_accepted := ad_accepted ad + 1\<rparr>"
    unfolding admit_def Let_def using w by (simp flip: nodes_at_def)
  have v: "view ?pn' = view ?pn" using touch_view [OF pn(1) w(1)] .
  have "qs_safe (ws_state (nw_state w))" using pn(2) map_of_SomeD [OF w(1)] by (auto simp: all_safe_def)
  then have "admit_inv env m old ?ad" using inv v pn
    by (intro put_ok [where S = "{}"]) (auto simp: admit_inv_def window_bytes_view all_safe_insert intro: agree_view)
  then have "admit_inv env m old (?ad\<lparr>ad_accepted := ad_accepted ad + 1\<rparr>)" by (simp add: admit_inv_def)
  moreover have "admit_effect now node q st ad (?ad\<lparr>ad_accepted := ad_accepted ad + 1\<rparr>)"
    using w by (auto simp: admit_effect_def node_at_def nodes_at_insert pushed_over_def)
  ultimately show ?thesis unfolding res ..
qed

lemma admit_store:
  assumes inv: "admit_inv env m old ad" and safe: "qs_safe (ws_state st)"
    and w: "\<And>w. map_of (nodes_at (gd_nodes (ad_data ad)) q) node = Some w \<Longrightarrow> \<not> ws_end st < ws_end (nw_state w)"
  shows "admit_inv env m old (admit env m now node (q, st) ad) \<and> admit_effect now node q st ad (admit env m now node (q, st) ad)"
proof -
  let ?data = "ad_data ad"
  let ?pn = "nodes_at (gd_nodes ?data) q"
  let ?old = "case map_option nw_state (map_of ?pn node) of None \<Rightarrow> 0 | Some w \<Rightarrow> ge_mem env w"
  let ?w = "\<lparr>nw_received = now, nw_state = st\<rparr>"
  have pn: "bt_ok ?pn" "all_safe ?pn" using nodes_ok_at inv by (auto simp: admit_inv_def data_ok_def)
  have not: "\<not> (case map_option nw_state (map_of ?pn node) of None \<Rightarrow> False | Some w \<Rightarrow> ws_end st < ws_end w)"
    using w by (cases "map_of ?pn node") auto
  have res: "admit env m now node (q, st) ad =
     (case checked_replace (gd_retained_sketch_bytes ?data) ?old (ge_mem env st) of
        None \<Rightarrow> ad\<lparr>ad_budget_rejections := ad_budget_rejections ad + 1, ad_rejected := ad_rejected ad @ [AccountingOverflow q]\<rparr>
      | Some projected \<Rightarrow>
          if m < projected then ad\<lparr>ad_budget_rejections := ad_budget_rejections ad + 1, ad_rejected := ad_rejected ad @ [BudgetExceeded q]\<rparr>
          else ad\<lparr>ad_data := ?data\<lparr>gd_retained_sketch_bytes := projected, gd_nodes := bt_insert q (bt_insert node ?w ?pn) (gd_nodes ?data)\<rparr>,
                 ad_changed := mark_changed q (merge_shard node) (ad_changed ad), ad_accepted := ad_accepted ad + 1\<rparr>)"
    unfolding admit_def Let_def using not by (simp only: prod.case if_False flip: nodes_at_def)
  have rejected: "admit_inv env m old (ad\<lparr>ad_budget_rejections := k, ad_rejected := r\<rparr>)" for k r using inv by (simp add: admit_inv_def)
  show ?thesis
  proof (cases "checked_replace (gd_retained_sketch_bytes ?data) ?old (ge_mem env st)")
    case None
    then show ?thesis unfolding res using rejected by (simp add: admit_effect_def)
  next
    case (Some p)
    show ?thesis
    proof (cases "m < p")
      case True
      then show ?thesis unfolding res Some using rejected by (simp add: admit_effect_def)
    next
      case False
      let ?ad = "ad\<lparr>ad_data := ?data\<lparr>gd_retained_sketch_bytes := p, gd_nodes := bt_insert q (bt_insert node ?w ?pn) (gd_nodes ?data)\<rparr>,
        ad_changed := mark_changed q (merge_shard node) (ad_changed ad)\<rparr>"
      have sum: "bt_sum (window_bytes env) (bt_insert node ?w ?pn) + unat ?old = bt_sum (window_bytes env) ?pn + unat (ge_mem env st)"
        using bt_sum_insert [OF pn(1), of "window_bytes env" node ?w] by (cases "map_of ?pn node") (simp_all add: window_bytes_def)
      have "admit_inv env m old ?ad"
      proof (rule put_ok [OF inv, where S = "{merge_shard node}"])
        show "unat p + bt_sum (window_bytes env) ?pn = unat (gd_retained_sketch_bytes ?data) + bt_sum (window_bytes env) (bt_insert node ?w ?pn)"
          using checked_replace_exact [OF Some] sum by linarith
        show "marks_ok (mark_changed q (merge_shard node) (ad_changed ad))" using inv by (intro marks_ok_mark) (simp_all add: admit_inv_def)
      qed (use False pn safe in \<open>simp_all add: all_safe_insert marked_mark agree_insert\<close>)
      then have "admit_inv env m old (?ad\<lparr>ad_accepted := ad_accepted ad + 1\<rparr>)" by (simp add: admit_inv_def)
      moreover have "pushed_over now st (map_of ?pn node) ?w" using w by (auto simp: pushed_over_def split: option.split)
      then have "admit_effect now node q st ad (?ad\<lparr>ad_accepted := ad_accepted ad + 1\<rparr>)"
        by (auto simp: admit_effect_def node_at_def nodes_at_insert)
      ultimately show ?thesis unfolding res Some using False by simp
    qed
  qed
qed

lemma admit_step:
  assumes "admit_inv env m old ad" "qs_safe (ws_state st)"
  shows "admit_inv env m old (admit env m now node (q, st) ad) \<and> admit_effect now node q st ad (admit env m now node (q, st) ad)"
  using admit_touch [OF assms(1)] admit_store [OF assms] by blast

text \<open>What became of one query of a batch, given the data before and after and the rejections.\<close>

definition stored :: "nat \<Rightarrow> string \<Rightarrow> gateway_data \<Rightarrow> gateway_data \<Rightarrow> string \<Rightarrow> window_state \<Rightarrow> bool" where
  "stored now node d d' q st \<longleftrightarrow> (\<exists>w. node_at d' q node = Some w \<and> pushed_over now st (node_at d q node) w)"

definition refused :: "string \<Rightarrow> gateway_data \<Rightarrow> gateway_data \<Rightarrow> rejection list \<Rightarrow> string \<Rightarrow> bool" where
  "refused node d d' rejected q \<longleftrightarrow> (\<exists>rej \<in> set rejected. rejected_query rej = q) \<and> node_at d' q node = node_at d q node"

lemma admit_fold:
  assumes "admit_inv env m old ad" "\<forall>(q, st) \<in> set vs. qs_safe (ws_state st)" "distinct (map fst vs)"
  shows "let ad' = fold (admit env m now node) vs ad in admit_inv env m old ad'
     \<and> gd_merge_cache (ad_data ad') = gd_merge_cache (ad_data ad) \<and> set (ad_rejected ad) \<subseteq> set (ad_rejected ad')
     \<and> ad_accepted ad' + length (ad_rejected ad') = ad_accepted ad + length (ad_rejected ad) + length vs
     \<and> (\<forall>q n. n \<noteq> node \<or> q \<notin> fst ` set vs \<longrightarrow> node_at (ad_data ad') q n = node_at (ad_data ad) q n)
     \<and> (\<forall>(q, st) \<in> set vs. stored now node (ad_data ad) (ad_data ad') q st \<or> refused node (ad_data ad) (ad_data ad') (ad_rejected ad') q)"
  using assms
proof (induction vs arbitrary: ad)
  case (Cons x vs)
  obtain q st where x: "x = (q, st)" by (cases x)
  let ?ad = "admit env m now node (q, st) ad"
  let ?ad' = "fold (admit env m now node) vs ?ad"
  have one: "admit_inv env m old ?ad" and ef: "admit_effect now node q st ad ?ad" using admit_step [OF Cons.prems(1)] Cons.prems(2) x by auto
  have vs: "\<forall>(q, st) \<in> set vs. qs_safe (ws_state st)" "distinct (map fst vs)" "q \<notin> fst ` set vs" using Cons.prems(2,3) x by auto
  note IH = Cons.IH [OF one vs(1,2), unfolded Let_def]
  have other: "node_at (ad_data ?ad) q' n = node_at (ad_data ad) q' n" if "(q', n) \<noteq> (q, node)" for q' n using ef that by (simp add: admit_effect_def)
  have same: "node_at (ad_data ?ad') q' n = node_at (ad_data ?ad) q' n" if "n \<noteq> node \<or> q' \<notin> fst ` set vs" for q' n using IH that by blast
  have rej: "set (ad_rejected ad) \<subseteq> set (ad_rejected ?ad)" using ef by (auto simp: admit_effect_def)
  have rej': "set (ad_rejected ?ad) \<subseteq> set (ad_rejected ?ad')" using IH by blast
  have head: "stored now node (ad_data ad) (ad_data ?ad') q st \<or> refused node (ad_data ad) (ad_data ?ad') (ad_rejected ?ad') q"
  proof -
    have "stored now node (ad_data ad) (ad_data ?ad) q st \<or> refused node (ad_data ad) (ad_data ?ad) (ad_rejected ?ad) q"
      using ef by (auto simp: admit_effect_def stored_def refused_def)
    then show ?thesis unfolding stored_def refused_def using same [of node q] vs(3) rej' by auto
  qed
  have rest: "stored now node (ad_data ad) (ad_data ?ad') q' st' \<or> refused node (ad_data ad) (ad_data ?ad') (ad_rejected ?ad') q'"
    if mem: "(q', st') \<in> set vs" for q' st'
  proof -
    have "q' \<noteq> q" using mem vs(3) by force
    moreover have "stored now node (ad_data ?ad) (ad_data ?ad') q' st' \<or> refused node (ad_data ?ad) (ad_data ?ad') (ad_rejected ?ad') q'"
      using IH mem by blast
    ultimately show ?thesis unfolding stored_def refused_def using other [of q' node] by simp
  qed
  have count: "ad_accepted ?ad' + length (ad_rejected ?ad') = ad_accepted ad + length (ad_rejected ad) + length (x # vs)"
    using IH ef by (auto simp: admit_effect_def)
  have all: "\<forall>(q, st) \<in> set (x # vs). stored now node (ad_data ad) (ad_data ?ad') q st \<or> refused node (ad_data ad) (ad_data ?ad') (ad_rejected ?ad') q"
    using head rest x by auto
  have keep: "node_at (ad_data ?ad') q' n = node_at (ad_data ad) q' n" if "n \<noteq> node \<or> q' \<notin> fst ` set (x # vs)" for q' n
    using other [of q' n] same [of n q'] that x by auto
  have "gd_merge_cache (ad_data ?ad') = gd_merge_cache (ad_data ad)" using IH ef by (simp add: admit_effect_def)
  then show ?case unfolding Let_def fold_simps x using IH count all keep rej rej' unfolding x by blast
qed simp

section \<open>Validation\<close>

lemma group_entries_ok [simp]: "bt_ok (group_entries es)"
proof -
  have "bt_ok m \<Longrightarrow> bt_ok (fold (\<lambda>e. bt_update (pe_query_name e) [] (\<lambda>cs. cs @ [(pe_component e, pe_snapshot e)])) es m)" for m
    by (induction es arbitrary: m) simp_all
  then show ?thesis by (simp add: group_entries_def)
qed

text \<open>A query of the batch that decodes for a configured plan.\<close>

definition decodes :: "gateway_env \<Rightarrow> gateway_state \<Rightarrow> string \<Rightarrow> (string \<times> bytes) list \<Rightarrow> window_state \<Rightarrow> bool" where
  "decodes env gs q cs st \<longleftrightarrow> (\<exists>plan. find (\<lambda>p. lq_name (plan_query p) = q) (gs_plans gs) = Some plan
     \<and> from_components (ge_est env) plan (gs_hash gs) cs = Some (Inr st))"

lemma decodes_safe: "decodes env gs q cs st \<Longrightarrow> qs_safe (ws_state st)"
  unfolding decodes_def using from_components_total by (metis option.inject)

lemma validate_step:
  "\<exists>rej val. validate_query env gs (q, cs) (r, v) = Some (r @ rej, v @ val)
    \<and> (val = [] \<and> (\<exists>x. rej = [x] \<and> rejected_query x = q) \<or> rej = [] \<and> (\<exists>st. val = [(q, st)] \<and> decodes env gs q cs st))"
proof (cases "find (\<lambda>p. lq_name (plan_query p) = q) (gs_plans gs)")
  case None
  then show ?thesis by (simp add: validate_query_def)
next
  case (Some plan)
  obtain x where x: "from_components (ge_est env) plan (gs_hash gs) cs = Some x" using from_components_total by blast
  then show ?thesis using Some by (cases x) (simp_all add: validate_query_def decodes_def)
qed

lemma validate_all:
  assumes "distinct (map fst groups)"
  shows "\<exists>rej val. ofold (validate_query env gs) groups (r, v) = Some (r @ rej, v @ val) \<and> length rej + length val = length groups
     \<and> fst ` set val \<subseteq> fst ` set groups \<and> distinct (map fst val)
     \<and> (\<forall>(q, st) \<in> set val. \<exists>cs. (q, cs) \<in> set groups \<and> decodes env gs q cs st)
     \<and> (\<forall>(q, cs) \<in> set groups. q \<in> fst ` set val \<or> (\<exists>x \<in> set rej. rejected_query x = q))"
  using assms
proof (induction groups arbitrary: r v)
  case (Cons x groups)
  obtain q cs where x: "x = (q, cs)" by (cases x)
  obtain rej1 val1 where one: "validate_query env gs (q, cs) (r, v) = Some (r @ rej1, v @ val1)"
    "val1 = [] \<and> (\<exists>x. rej1 = [x] \<and> rejected_query x = q) \<or> rej1 = [] \<and> (\<exists>st. val1 = [(q, st)] \<and> decodes env gs q cs st)"
    using validate_step [of env gs q cs r v] by blast
  obtain rej val where IH: "ofold (validate_query env gs) groups (r @ rej1, v @ val1) = Some ((r @ rej1) @ rej, (v @ val1) @ val)"
     "length rej + length val = length groups" "fst ` set val \<subseteq> fst ` set groups" "distinct (map fst val)"
     "\<forall>(q, st) \<in> set val. \<exists>cs. (q, cs) \<in> set groups \<and> decodes env gs q cs st"
     "\<forall>(q, cs) \<in> set groups. q \<in> fst ` set val \<or> (\<exists>x \<in> set rej. rejected_query x = q)"
    using Cons.IH [of "r @ rej1" "v @ val1"] Cons.prems by auto
  have q: "q \<notin> fst ` set val" using Cons.prems IH(3) x by auto
  have run: "ofold (validate_query env gs) (x # groups) (r, v) = Some (r @ (rej1 @ rej), v @ (val1 @ val))" using one(1) IH(1) x by simp
  show ?case
  proof (intro exI [of _ "rej1 @ rej"] exI [of _ "val1 @ val"] conjI)
    show "length (rej1 @ rej) + length (val1 @ val) = length (x # groups)" using one(2) IH(2) by auto
    show "\<forall>(q, st) \<in> set (val1 @ val). \<exists>cs. (q, cs) \<in> set (x # groups) \<and> decodes env gs q cs st" using one(2) IH(5) x by fastforce
    show "\<forall>(q, cs) \<in> set (x # groups). q \<in> fst ` set (val1 @ val) \<or> (\<exists>x \<in> set (rej1 @ rej). rejected_query x = q)"
      using one(2) IH(6) x by fastforce
    show "distinct (map fst (val1 @ val))" using one(2) IH(4) q by force
  qed (use run one(2) IH(3) x in auto)
qed simp

section \<open>Pushes\<close>

definition gw_inv :: "gateway_env \<Rightarrow> gateway_state \<Rightarrow> bool" where
  "gw_inv env gs \<longleftrightarrow> data_ok env (gs_data gs) \<and> caches_ok env (gs_data gs)
     \<and> gd_retained_sketch_bytes (gs_data gs) \<le> gs_max_retained_sketch_bytes gs \<and> unique_node_count (gd_nodes (gs_data gs)) \<le> gs_max_nodes gs"

text \<open>Exactly the entries older than the limit are gone.\<close>

definition expired :: "clock \<Rightarrow> nat \<Rightarrow> gateway_data \<Rightarrow> gateway_data \<Rightarrow> bool" where
  "expired clock cutoff d d' \<longleftrightarrow>
     (\<forall>q n w. node_at d' q n = Some w \<longleftrightarrow> node_at d q n = Some w \<and> clock q n - nw_received w < cutoff)"

lemma data_ok_bt: "data_ok env data \<Longrightarrow> bt_ok (gd_nodes data)"
  by (simp add: data_ok_def nodes_ok_def)

lemma node_names_node_at: "data_ok env data \<Longrightarrow> n \<in> node_names (gd_nodes data) \<longleftrightarrow> (\<exists>q. node_at data q n \<noteq> None)"
  unfolding node_at_def using data_ok_bt node_names_at by blast

lemma names_after_expiry:
  assumes "data_ok env d" "data_ok env d'" "expired clock cutoff d d'"
  shows "card (node_names (gd_nodes d')) \<le> card (node_names (gd_nodes d))"
proof (rule card_mono)
  show "node_names (gd_nodes d') \<subseteq> node_names (gd_nodes d)"
    unfolding subset_iff node_names_node_at [OF assms(1)] node_names_node_at [OF assms(2)] using assms(3) by (auto simp: expired_def)
qed simp

lemma bytes_after_expiry:
  assumes "data_ok env d" "data_ok env d'" "gd_nodes d' = filter (\<lambda>(_, pn). pn \<noteq> []) (fresh_nodes clock cutoff (gd_nodes d))"
  shows "gd_retained_sketch_bytes d' \<le> gd_retained_sketch_bytes d"
proof -
  have le: "bt_sum f (filter P pn) \<le> bt_sum f pn" for P and f :: "node_window \<Rightarrow> nat" and pn by (induction pn) auto
  have "bytes_of env (fresh_nodes clock cutoff nodes) \<le> bytes_of env nodes" for nodes
    by (induction nodes) (auto simp: bytes_of_def fresh_nodes_def intro!: add_mono le)
  then have "bytes_of env (gd_nodes d') \<le> bytes_of env (gd_nodes d)" unfolding assms(3) bytes_of_nonempty .
  then show ?thesis using assms(1,2) by (simp add: data_ok_def word_le_nat_alt)
qed

lemma expire_inv:
  assumes "gw_inv env gs"
  shows "\<exists>d n. expire env clock (gs_stale_after gs) (gs_data gs) = Some (d, n) \<and> gw_inv env (gs\<lparr>gs_data := d\<rparr>)
     \<and> expired clock (gs_stale_after gs) (gs_data gs) d"
proof -
  have ok: "data_ok env (gs_data gs)" "caches_ok env (gs_data gs)" using assms by (simp_all add: gw_inv_def)
  from expire_ok [OF this, of clock "gs_stale_after gs"] obtain d n where d: "expire env clock (gs_stale_after gs) (gs_data gs) = Some (d, n)"
    "data_ok env d" "caches_ok env d" "gd_nodes d = filter (\<lambda>(_, pn). pn \<noteq> []) (fresh_nodes clock (gs_stale_after gs) (gd_nodes (gs_data gs)))"
    "\<And>q. nodes_at (gd_nodes d) q = filter (is_fresh clock (gs_stale_after gs) q) (nodes_at (gd_nodes (gs_data gs)) q)" by blast
  have "bt_ok (nodes_at (gd_nodes (gs_data gs)) q)" for q using ok(1) nodes_ok_at(1) by (simp add: data_ok_def)
  then have ex: "expired clock (gs_stale_after gs) (gs_data gs) d" unfolding expired_def node_at_def d(5) by (simp add: fresh_node)
  have "unique_node_count (gd_nodes d) \<le> gs_max_nodes gs"
    using names_after_expiry [OF ok(1) d(2) ex] assms by (simp add: gw_inv_def unique_node_count_names)
  moreover have "gd_retained_sketch_bytes d \<le> gs_max_retained_sketch_bytes gs"
    using order.trans [OF bytes_after_expiry [OF ok(1) d(2,4)]] assms by (simp add: gw_inv_def)
  ultimately show ?thesis using d(1-3) ex by (simp add: gw_inv_def)
qed

text \<open>Whether the node is known, as the code asks.\<close>

lemma known_node: "data_ok env d \<Longrightarrow> list_ex (\<lambda>(_, pn). map_of pn node \<noteq> None) (gd_nodes d) \<longleftrightarrow> node \<in> node_names (gd_nodes d)"
  by (auto simp: list_ex_iff node_names_def map_of_eq_None_iff split: prod.splits)

lemma admit_names:
  assumes ok: "data_ok env d" "data_ok env d'" and other: "\<And>q n. n \<noteq> node \<Longrightarrow> node_at d' q n = node_at d q n"
    and room: "node \<in> node_names (gd_nodes d) \<or> unique_node_count (gd_nodes d) < k" and le: "unique_node_count (gd_nodes d) \<le> k"
  shows "unique_node_count (gd_nodes d') \<le> k"
proof -
  have "node_names (gd_nodes d') \<subseteq> insert node (node_names (gd_nodes d))"
    unfolding subset_iff insert_iff node_names_node_at [OF ok(1)] node_names_node_at [OF ok(2)] using other by metis
  then have "card (node_names (gd_nodes d')) \<le> card (insert node (node_names (gd_nodes d)))" by (intro card_mono) simp_all
  then show ?thesis using room le by (auto simp: unique_node_count_names card_insert_if split: if_splits)
qed

lemma admit_all_ok:
  assumes inv: "gw_inv env gs" and vs: "\<forall>(q, st) \<in> set vs. qs_safe (ws_state st)" "distinct (map fst vs)"
  shows "\<exists>ad n k d. admit_all env clock now gs node vs rejected = Some (ad, n, k) \<and> gw_inv env (gs\<lparr>gs_data := ad_data ad\<rparr>)
     \<and> (d = gs_data gs \<or> expired clock (gs_stale_after gs) (gs_data gs) d)
     \<and> ad_accepted ad + length (ad_rejected ad) = length rejected + length vs \<and> set rejected \<subseteq> set (ad_rejected ad)
     \<and> (\<forall>q n. n \<noteq> node \<or> q \<notin> fst ` set vs \<longrightarrow> node_at (ad_data ad) q n = node_at d q n)
     \<and> (\<forall>(q, st) \<in> set vs. stored now node d (ad_data ad) q st \<or> refused node d (ad_data ad) (ad_rejected ad) q)"
proof (cases "vs = []")
  case True
  then show ?thesis using inv
    by (intro exI [of _ "\<lparr>ad_data = gs_data gs, ad_changed = [], ad_accepted = 0, ad_budget_rejections = 0, ad_rejected = rejected\<rparr>"]
        exI [of _ 0] exI [of _ "gs_data gs"]) (simp add: admit_all_def)
next
  case False
  obtain d n where d: "expire env clock (gs_stale_after gs) (gs_data gs) = Some (d, n)" "gw_inv env (gs\<lparr>gs_data := d\<rparr>)"
    "expired clock (gs_stale_after gs) (gs_data gs) d" using expire_inv [OF inv] by blast
  have ok: "data_ok env d" "caches_ok env d" "gd_retained_sketch_bytes d \<le> gs_max_retained_sketch_bytes gs" "unique_node_count (gd_nodes d) \<le> gs_max_nodes gs"
    using d(2) by (simp_all add: gw_inv_def)
  let ?start = "\<lparr>ad_data = d, ad_changed = [], ad_accepted = 0, ad_budget_rejections = 0, ad_rejected = rejected\<rparr>"
  let ?full = "node \<notin> node_names (gd_nodes d) \<and> gs_max_nodes gs \<le> unique_node_count (gd_nodes d)"
  let ?ad = "fold (admit env (gs_max_retained_sketch_bytes gs) now node) vs ?start"
  have run: "admit_all env clock now gs node vs rejected =
     (if ?full then Some (?start\<lparr>ad_rejected := rejected @ map (\<lambda>(query, _). CapacityFull query) vs\<rparr>, n, 1)
      else map_option (\<lambda>(data, k). (?ad\<lparr>ad_data := data\<rparr>, n + k, 0)) (refresh_changed_caches env (ad_data ?ad) (ad_changed ?ad)))"
    using False d(1) known_node [OF ok(1)] by (simp add: admit_all_def Let_def)
  show ?thesis
  proof (cases ?full)
    case True
    have "refused node d d (rejected @ map (\<lambda>(query, _). CapacityFull query) vs) q" if "(q, st) \<in> set vs" for q st
    proof -
      have "CapacityFull q \<in> set (map (\<lambda>(query, _). CapacityFull query) vs)" using that by force
      then show ?thesis unfolding refused_def by force
    qed
    then show ?thesis using run True d(2,3)
      by (intro exI [of _ "?start\<lparr>ad_rejected := rejected @ map (\<lambda>(query, _). CapacityFull query) vs\<rparr>"] exI [of _ n] exI [of _ 1] exI [of _ d]) auto
  next
    case False
    let ?old = "\<lambda>q. nodes_at (gd_nodes d) q"
    have "admit_inv env (gs_max_retained_sketch_bytes gs) ?old ?start" using ok by (simp add: admit_inv_def)
    note ad = admit_fold [OF this vs, of now node, unfolded Let_def, simplified]
    have ai: "data_ok env (ad_data ?ad)" "gd_retained_sketch_bytes (ad_data ?ad) \<le> gs_max_retained_sketch_bytes gs" "marks_ok (ad_changed ?ad)"
      "\<And>q. agree (marked (ad_changed ?ad) q) (?old q) (nodes_at (gd_nodes (ad_data ?ad)) q)" using ad by (simp_all add: admit_inv_def)
    have cache: "gd_merge_cache (ad_data ?ad) = gd_merge_cache d" using ad by simp
    have other: "node_at (ad_data ?ad) q n = node_at d q n" if "n \<noteq> node \<or> q \<notin> fst ` set vs" for q n using ad that by blast
    have "nodes_ok (gd_nodes (ad_data ?ad))" "bt_ok (gd_merge_cache (ad_data ?ad))"
      "\<And>q. cache_for env (?old q) (map_of (gd_merge_cache (ad_data ?ad)) q)" using ai(1) ok(2) cache by (simp_all add: data_ok_def caches_ok_def)
    from refresh_changed_caches_ok [OF this ai(4,3)] obtain c k where
      c: "refresh_changed_caches env (ad_data ?ad) (ad_changed ?ad) = Some ((ad_data ?ad)\<lparr>gd_merge_cache := c\<rparr>, k)"
        "caches_ok env ((ad_data ?ad)\<lparr>gd_merge_cache := c\<rparr>)" by blast
    let ?d = "(ad_data ?ad)\<lparr>gd_merge_cache := c\<rparr>"
    have at: "node_at ?d = node_at (ad_data ?ad)" by (intro ext) (simp add: node_at_def)
    have "unique_node_count (gd_nodes (ad_data ?ad)) \<le> gs_max_nodes gs"
      by (rule admit_names [OF ok(1) ai(1)]) (use other False ok(4) in auto)
    then have "gw_inv env (gs\<lparr>gs_data := ?d\<rparr>)" using c(2) ai(1,2) by (simp add: gw_inv_def data_ok_def)
    then show ?thesis using run False c(1) d(3) ad other
      by (intro exI [of _ "?ad\<lparr>ad_data := ?d\<rparr>"] exI [of _ "n + k"] exI [of _ 0] exI [of _ d]) (simp add: at stored_def refused_def)
  qed
qed

lemma gw_inv_cong:
  assumes "gw_inv env (gs\<lparr>gs_data := d\<rparr>)" "gs_data gs' = d" "gs_max_nodes gs' = gs_max_nodes gs"
    "gs_max_retained_sketch_bytes gs' = gs_max_retained_sketch_bytes gs"
  shows "gw_inv env gs'"
  using assms by (simp add: gw_inv_def)

lemma apply_batch_ok:
  assumes inv: "gw_inv env gs"
  shows "\<exists>gs' res d. apply_batch env clock now batch gs = Some (gs', res) \<and> gw_inv env gs'
     \<and> (d = gs_data gs \<or> expired clock (gs_stale_after gs) (gs_data gs) d)
     \<and> ar_accepted res + length (ar_rejected res) = length (group_entries (pb_entries batch))
     \<and> (\<forall>q n. n \<noteq> pb_node batch \<or> q \<notin> fst ` set (group_entries (pb_entries batch)) \<longrightarrow> node_at (gs_data gs') q n = node_at d q n)
     \<and> (\<forall>(q, cs) \<in> set (group_entries (pb_entries batch)).
          (\<exists>st. decodes env gs q cs st \<and> stored now (pb_node batch) d (gs_data gs') q st)
          \<or> refused (pb_node batch) d (gs_data gs') (ar_rejected res) q)"
proof -
  let ?g = "group_entries (pb_entries batch)"
  have dist: "distinct (map fst ?g)" using bt_ok_distinct by force
  from validate_all [OF this, of env gs "[]" "[]"] obtain rej val where v: "ofold (validate_query env gs) ?g ([], []) = Some (rej, val)"
     "length rej + length val = length ?g" "fst ` set val \<subseteq> fst ` set ?g" "distinct (map fst val)"
     "\<forall>(q, st) \<in> set val. \<exists>cs. (q, cs) \<in> set ?g \<and> decodes env gs q cs st"
     "\<forall>(q, cs) \<in> set ?g. q \<in> fst ` set val \<or> (\<exists>x \<in> set rej. rejected_query x = q)" by auto
  have safe: "\<forall>(q, st) \<in> set val. qs_safe (ws_state st)" using v(5) decodes_safe by blast
  obtain ad n k d where ad: "admit_all env clock now gs (pb_node batch) val rej = Some (ad, n, k)" "gw_inv env (gs\<lparr>gs_data := ad_data ad\<rparr>)"
     "d = gs_data gs \<or> expired clock (gs_stale_after gs) (gs_data gs) d"
     "ad_accepted ad + length (ad_rejected ad) = length rej + length val" "set rej \<subseteq> set (ad_rejected ad)"
     "\<And>q n. n \<noteq> pb_node batch \<or> q \<notin> fst ` set val \<Longrightarrow> node_at (ad_data ad) q n = node_at d q n"
     "\<forall>(q, st) \<in> set val. stored now (pb_node batch) d (ad_data ad) q st \<or> refused (pb_node batch) d (ad_data ad) (ad_rejected ad) q"
    using admit_all_ok [OF inv safe v(4), of clock now "pb_node batch" rej] by blast
  have each: "(\<exists>st. decodes env gs q cs st \<and> stored now (pb_node batch) d (ad_data ad) q st) \<or> refused (pb_node batch) d (ad_data ad) (ad_rejected ad) q"
    if mem: "(q, cs) \<in> set ?g" for q cs
  proof (cases "q \<in> fst ` set val")
    case True
    then obtain st where st: "(q, st) \<in> set val" by auto
    then obtain cs' where cs': "(q, cs') \<in> set ?g" "decodes env gs q cs' st" using v(5) by blast
    then have "cs' = cs" using mem dist by (metis eq_key_imp_eq_value)
    then show ?thesis using st cs' ad(7) by blast
  next
    case False
    then show ?thesis using v(6) mem ad(5) ad(6) [of "pb_node batch" q] unfolding refused_def by blast
  qed
  obtain gs' where gs': "apply_batch env clock now batch gs = Some (gs', \<lparr>ar_accepted = ad_accepted ad, ar_rejected = ad_rejected ad\<rparr>)"
    "gs_data gs' = ad_data ad" "gs_max_nodes gs' = gs_max_nodes gs" "gs_max_retained_sketch_bytes gs' = gs_max_retained_sketch_bytes gs"
    using v(1) ad(1) by (simp add: apply_batch_def)
  have "node_at (ad_data ad) q n = node_at d q n" if "n \<noteq> pb_node batch \<or> q \<notin> fst ` set ?g" for q n
    using ad(6) [of n q] that v(3) by blast
  moreover have "\<forall>(q, cs) \<in> set ?g. (\<exists>st. decodes env gs q cs st \<and> stored now (pb_node batch) d (ad_data ad) q st)
     \<or> refused (pb_node batch) d (ad_data ad) (ad_rejected ad) q" using each by blast
  ultimately show ?thesis using gs'(1,2) gw_inv_cong [OF ad(2) gs'(2-4)] ad(3,4) v(2)
    by (intro exI [of _ gs'] exI [of _ "\<lparr>ar_accepted = ad_accepted ad, ar_rejected = ad_rejected ad\<rparr>"] exI [of _ d]) simp
qed

section \<open>Cluster windows\<close>

lemma shard_parts_mset: "(\<Sum>s < 16. mset (shard_part t s v)) = mset (map snd (filter (\<lambda>(n, w). bounds w = t) v))"
proof (induction v)
  case (Cons x v)
  obtain n w where x: "x = (n, w)" by (cases x)
  have "mset (shard_part t s (x # v)) = (if s = merge_shard n then if bounds w = t then {#w#} else {#} else {#}) + mset (shard_part t s v)" for s
    by (auto simp: shard_part_def x)
  then have "(\<Sum>s < 16. mset (shard_part t s (x # v))) = (if bounds w = t then {#w#} else {#}) + (\<Sum>s < 16. mset (shard_part t s v))"
    by (simp add: sum.distrib sum.delta)
  then show ?case using Cons.IH x by simp
qed (simp add: shard_part_def)

lemma shard_parts_length: "(\<Sum>s < 16. length (shard_part t s v)) = length (filter (\<lambda>(n, w). bounds w = t) v)"
proof -
  have "(\<Sum>s < 16. length (shard_part t s v)) = size (\<Sum>s < 16. mset (shard_part t s v))" by (simp add: size_multiset_sum)
  then show ?thesis unfolding shard_parts_mset by (simp only: size_mset length_map)
qed

lemma shard_parts_concat: "mset (concat (map (\<lambda>s. shard_part t s v) [0..<16])) = (\<Sum>s < 16. mset (shard_part t s v))"
  by (simp add: mset_concat comp_def interv_sum_list_conv_sum_set_nat atLeast0LessThan del: upt_rec_numeral upt_conv_Cons)

lemma map_filter_id: "List.map_filter id [] = []" "List.map_filter id (None # ms) = List.map_filter id ms"
  "List.map_filter id (Some a # ms) = a # List.map_filter id ms"
  by (simp_all add: List.map_filter_def)

lemma map_filter_id_trees:
  assumes "list_all2 (\<lambda>ws m. case m of None \<Rightarrow> ws = [] | Some a \<Rightarrow> merge_of est ws a) parts ms"
  shows "\<exists>uss. list_all2 (merge_of est) uss (List.map_filter id ms) \<and> concat uss = concat parts"
  using assms
proof (induction parts ms rule: list_all2_induct)
  case (Cons ws parts m ms)
  then obtain uss where uss: "list_all2 (merge_of est) uss (List.map_filter id ms)" "concat uss = concat parts" by blast
  show ?case
  proof (cases m)
    case None
    then have "ws = []" using Cons.hyps by simp
    then show ?thesis unfolding None map_filter_id using uss by auto
  next
    case (Some a)
    then have "merge_of est ws a" using Cons.hyps by simp
    then show ?thesis unfolding Some map_filter_id using uss by (intro exI [of _ "ws # uss"]) simp
  qed
qed (simp add: map_filter_id)

text \<open>The nodes a coherent cache has merged; when these are all, every node reports the target
  window and the summaries merge all of them.\<close>

lemma coherent_count:
  assumes "coherent env pn c" "mc_target c = Some t"
  shows "sum_list (mc_shard_nodes c) \<le> length (filter (\<lambda>(n, w). bounds w = t) (view pn))"
    and "sum_list (mc_shard_nodes c) = length pn \<Longrightarrow> (\<forall>w \<in> set (map snd (view pn)). bounds w = t)
      \<and> list_all2 (\<lambda>ws m. case m of None \<Rightarrow> ws = [] | Some a \<Rightarrow> merge_of (ge_est env) ws a)
           (map (\<lambda>s. shard_part t s (view pn)) [0..<16]) (mc_shard_states c)"
proof -
  have c: "length (mc_shard_states c) = 16" "length (mc_shard_nodes c) = 16"
    "\<And>s. s < 16 \<Longrightarrow> merge_cache_shard env pn t s = Some (mc_shard_states c ! s, mc_shard_nodes c ! s)"
    using assms by (auto simp: coherent_def)
  note cnt = merge_cache_shard_count [OF c(3)]
  have sum: "sum_list (mc_shard_nodes c) = (\<Sum>s < 16. mc_shard_nodes c ! s)"
    using c(2) by (simp add: sum_list_sum_nth atLeast0LessThan)
  have "(\<Sum>s < 16. mc_shard_nodes c ! s) \<le> (\<Sum>s < 16. length (shard_part t s (view pn)))" by (rule sum_mono) (use cnt(1) in simp)
  then show le: "sum_list (mc_shard_nodes c) \<le> length (filter (\<lambda>(n, w). bounds w = t) (view pn))"
    unfolding sum shard_parts_length .
  assume all: "sum_list (mc_shard_nodes c) = length pn"
  have len: "length (filter (\<lambda>(n, w). bounds w = t) (view pn)) = length (view pn)"
    using le all length_filter_le [of "\<lambda>(n, w). bounds w = t" "view pn"] by simp
  then have every: "\<forall>(n, w) \<in> set (view pn). bounds w = t" by (metis (no_types, lifting) filter_True length_filter_less less_irrefl case_prodI2)
  have eq: "mc_shard_nodes c ! s = length (shard_part t s (view pn))" if s: "s < 16" for s
  proof (rule ccontr)
    assume ne: "mc_shard_nodes c ! s \<noteq> length (shard_part t s (view pn))"
    have "(\<Sum>s < 16. mc_shard_nodes c ! s) < (\<Sum>s < 16. length (shard_part t s (view pn)))"
      by (rule sum_strict_mono_ex1) (use cnt(1) s ne in \<open>auto intro!: bexI [of _ s] simp: order_less_le\<close>)
    then show False unfolding shard_parts_length using sum all len by simp
  qed
  have "case mc_shard_states c ! s of None \<Rightarrow> shard_part t s (view pn) = [] | Some a \<Rightarrow> merge_of (ge_est env) (shard_part t s (view pn)) a" if "s < 16" for s
    using cnt(2) [OF that eq [OF that]] .
  then have "list_all2 (\<lambda>ws m. case m of None \<Rightarrow> ws = [] | Some a \<Rightarrow> merge_of (ge_est env) ws a)
      (map (\<lambda>s. shard_part t s (view pn)) [0..<16]) (mc_shard_states c)"
    using c(1) by (intro list_all2_all_nthI) (simp_all del: upt_rec_numeral cong: option.case_cong)
  then show "(\<forall>w \<in> set (map snd (view pn)). bounds w = t) \<and> list_all2 (\<lambda>ws m. case m of None \<Rightarrow> ws = [] | Some a \<Rightarrow> merge_of (ge_est env) ws a)
           (map (\<lambda>s. shard_part t s (view pn)) [0..<16]) (mc_shard_states c)" using every by auto
qed

lemma coherent_final:
  assumes "coherent env pn c" "sum_list (mc_shard_nodes c) = length pn" "merge_final env (List.map_filter id (mc_shard_states c)) None = Some (Some f)"
  shows "\<exists>ws. mset ws = mset (map snd (view pn)) \<and> merge_of (ge_est env) ws f"
proof -
  obtain t where t: "mc_target c = Some t" using assms(1) by (auto simp: coherent_def)
  note all = coherent_count(2) [OF assms(1) t assms(2)]
  from map_filter_id_trees [OF conjunct2 [OF all]] obtain uss where
    uss: "list_all2 (merge_of (ge_est env)) uss (List.map_filter id (mc_shard_states c))" "concat uss = concat (map (\<lambda>s. shard_part t s (view pn)) [0..<16])"
    by blast
  have "merge_of (ge_est env) ([] @ concat uss) f" by (rule merge_final_tree [OF assms(3) uss(1)]) simp_all
  moreover have "mset (concat uss) = mset (map snd (view pn))"
  proof -
    have "filter (\<lambda>(n, w). bounds w = t) (view pn) = view pn" using all by (intro filter_True) auto
    then show ?thesis unfolding uss(2) shard_parts_concat shard_parts_mset by simp
  qed
  ultimately show ?thesis by auto
qed

text \<open>Nodes that all hold inputs of one window for one sketch are all merged.\<close>

lemma coherent_complete:
  assumes coh: "coherent env pn c" and ne: "pn \<noteq> []" and hold: "\<forall>w \<in> set (map snd (view pn)). holding (ge_est env) sk h t w"
  shows "sum_list (mc_shard_nodes c) = length pn" "\<exists>f. merge_final env (List.map_filter id (mc_shard_states c)) None = Some (Some f)"
proof -
  obtain t' where t': "mc_target c = Some t'" "selected_window pn = Some t'" using coh by (auto simp: coherent_def)
  then have "0 < reporting pn t'" by (simp add: selected_window_iff selects_def)
  then have "filter (\<lambda>(n, w). bounds w = t') (view pn) \<noteq> []" by (auto simp: reporting_view)
  then obtain n w where "(n, w) \<in> set (view pn)" "bounds w = t'" by (auto simp: filter_empty_conv)
  then have "t' = t" using hold by (force simp: holding_def)
  then have t: "mc_target c = Some t" using t' by simp
  have c: "length (mc_shard_states c) = 16" "length (mc_shard_nodes c) = 16"
    "\<And>s. s < 16 \<Longrightarrow> merge_cache_shard env pn t s = Some (mc_shard_states c ! s, mc_shard_nodes c ! s)"
    using coh t by (auto simp: coherent_def)
  have part: "\<forall>w \<in> set (shard_part t s (view pn)). holding (ge_est env) sk h t w" for s using hold by (auto simp: shard_part_def)
  have shard: "mc_shard_nodes c ! s = length (shard_part t s (view pn)) \<and> (\<forall>a. mc_shard_states c ! s = Some a \<longrightarrow> holding (ge_est env) sk h t a)" if "s < 16" for s
    using merge_shard_all [OF part, of None 0 s] c(3) [OF that] by (auto simp: merge_cache_shard_eq)
  have "filter (\<lambda>(n, w). bounds w = t) (view pn) = view pn" using hold by (intro filter_True) (force simp: holding_def)
  then have "(\<Sum>s < 16. mc_shard_nodes c ! s) = length pn" using shard shard_parts_length [of t "view pn"] by simp
  then show sum: "sum_list (mc_shard_nodes c) = length pn" using c(2) by (simp add: sum_list_sum_nth atLeast0LessThan)
  have all: "\<forall>w \<in> set (List.map_filter id (mc_shard_states c)). holding (ge_est env) sk h t w"
    using shard c(1) by (auto simp: List.map_filter_def in_set_conv_nth)
  have "List.map_filter id (mc_shard_states c) \<noteq> []"
  proof
    assume "List.map_filter id (mc_shard_states c) = []"
    moreover from map_filter_id_trees [OF conjunct2 [OF coherent_count(2) [OF coh t sum]]] obtain uss where
      "list_all2 (merge_of (ge_est env)) uss (List.map_filter id (mc_shard_states c))" "concat uss = concat (map (\<lambda>s. shard_part t s (view pn)) [0..<16])"
      by blast
    ultimately have "mset (concat (map (\<lambda>s. shard_part t s (view pn)) [0..<16])) = {#}" by simp
    then show False unfolding shard_parts_concat shard_parts_mset
      using \<open>filter (\<lambda>(n, w). bounds w = t) (view pn) = view pn\<close> ne by simp
  qed
  then show "\<exists>f. merge_final env (List.map_filter id (mc_shard_states c)) None = Some (Some f)" by (intro merge_final_all [OF all]) simp_all
qed

text \<open>What a merged window of a query tells about its nodes: its end is that of the selected window;
  a state is exported only when it merges the windows of all nodes, and it is exported whenever
  they all hold inputs for one sketch and one window.\<close>

definition exports :: "gateway_env \<Rightarrow> per_node \<Rightarrow> merged_query \<Rightarrow> bool" where
  "exports env pn mq \<longleftrightarrow> mq_nodes_known mq = length pn \<and> mq_nodes_merged mq \<le> length pn
     \<and> (\<exists>start. selected_window pn = Some (start, mq_window_end_nanos mq) \<and> mq_nodes_merged mq \<le> reporting pn (start, mq_window_end_nanos mq))
     \<and> (\<forall>f. mq_state mq = Some f \<longrightarrow> mq_nodes_merged mq = length pn
          \<and> (\<exists>ws. mset ws = mset (map snd (view pn)) \<and> merge_of (ge_est env) ws f))
     \<and> (\<forall>sk h t. (\<forall>w \<in> set (map snd (view pn)). holding (ge_est env) sk h t w) \<longrightarrow> mq_state mq \<noteq> None)"

lemma coherent_summary_safe:
  assumes "coherent env pn c" "all_safe pn"
  shows "\<forall>w \<in> set (List.map_filter id (mc_shard_states c)). qs_safe (ws_state w)"
proof -
  obtain t where "length (mc_shard_states c) = 16" "\<And>s. s < 16 \<Longrightarrow> merge_cache_shard env pn t s = Some (mc_shard_states c ! s, mc_shard_nodes c ! s)"
    using assms(1) by (auto simp: coherent_def)
  then have "opt_safe (mc_shard_states c ! s)" if "s < 16" for s using merge_cache_shard_total [OF assms(2), of env t s] that by auto
  then show ?thesis using \<open>length (mc_shard_states c) = 16\<close> by (auto simp: List.map_filter_def in_set_conv_nth opt_safe_def)
qed

lemma merged_query_ok:
  fixes plan :: plan
  assumes ok: "data_ok env data" "caches_ok env data"
  defines "q \<equiv> lq_name (plan_query plan)"
  shows "\<exists>c new. merged_query_of env plan (data, out) = Some (data\<lparr>gd_merge_cache := c\<rparr>, out @ new)
     \<and> caches_ok env (data\<lparr>gd_merge_cache := c\<rparr>) \<and> map mq_query_name new = filter (\<lambda>q. nodes_at (gd_nodes data) q \<noteq> []) [q]
     \<and> (\<forall>mq \<in> set new. exports env (nodes_at (gd_nodes data) (mq_query_name mq)) mq)"
proof (cases "map_of (gd_nodes data) q")
  case None
  have "data\<lparr>gd_merge_cache := gd_merge_cache data\<rparr> = data" by simp
  then show ?thesis using None ok(2) unfolding merged_query_of_def Let_def q_def [symmetric]
    by (intro exI [of _ "gd_merge_cache data"] exI [of _ "[]"]) (simp add: nodes_at_def)
next
  case (Some pn)
  have at: "nodes_at (gd_nodes data) q = pn" using Some by (simp add: nodes_at_def)
  have pn: "pn \<noteq> []" "all_safe pn" using nodes_ok_at [of "gd_nodes data" q] ok(1) Some at by (auto simp: data_ok_def)
  obtain c where c: "map_of (gd_merge_cache data) q = Some c" "coherent env pn c"
    using ok(2) at pn(1) unfolding caches_ok_def cache_for_def by metis
  obtain t where t: "mc_target c = Some t" "selected_window pn = Some t" using c(2) by (auto simp: coherent_def)
  obtain ts te where te: "t = (ts, te)" by (cases t)
  let ?fin = "merge_final env (List.map_filter id (mc_shard_states c)) None"
  let ?sum = "sum_list (mc_shard_nodes c)"
  obtain r where r: "?fin = Some r" using merge_final_total [OF coherent_summary_safe [OF c(2) pn(2)], of None env] by (auto simp: opt_safe_def)
  have fin: "r = Some f" if "mc_final_state c = Some f" for f using c(2) that r by (auto simp: coherent_def)
  let ?c = "if ?sum = length pn then c\<lparr>mc_final_state := r\<rparr> else c"
  have "c\<lparr>mc_final_state := r\<rparr> = c" if "mc_final_state c \<noteq> None" using that fin by (cases "mc_final_state c") auto
  then have store: "(if ?sum = length pn \<and> mc_final_state c = None then map_option (\<lambda>final. c\<lparr>mc_final_state := final\<rparr>) ?fin else Some c) = Some ?c"
    using r by auto
  let ?mq = "\<lparr>mq_query_name = q, mq_nodes_known = length pn, mq_nodes_merged = ?sum, mq_window_end_nanos = te,
     mq_state = (if ?sum = length pn then mc_final_state ?c else None)\<rparr>"
  have run: "merged_query_of env plan (data, out) = Some (data\<lparr>gd_merge_cache := bt_insert q ?c (gd_merge_cache data)\<rparr>, out @ [?mq])"
    unfolding merged_query_of_def Let_def using Some c(1) t(1) te store by (simp flip: q_def)
  have "coherent env pn ?c" using c(2) r by (auto simp: coherent_def)
  then have "cache_for env (nodes_at (gd_nodes data) q') (map_of (bt_insert q ?c (gd_merge_cache data)) q')" for q'
    using ok(2) at pn(1) unfolding caches_ok_def by (cases "q' = q") (simp_all add: cache_for_def)
  then have caches: "caches_ok env (data\<lparr>gd_merge_cache := bt_insert q ?c (gd_merge_cache data)\<rparr>)" using ok(2) by (simp add: caches_ok_def)
  have le: "?sum \<le> reporting pn t" using coherent_count(1) [OF c(2) t(1)] by (simp add: reporting_view)
  then have "?sum \<le> length pn" unfolding reporting_def using length_filter_le order_trans by blast
  then have "exports env pn ?mq" unfolding exports_def
    using le t(2) te coherent_final [OF c(2)] coherent_complete [OF c(2) pn(1)] r by (auto split: if_splits)
  then show ?thesis using run caches at pn(1) by (intro exI [of _ "bt_insert q ?c (gd_merge_cache data)"] exI [of _ "[?mq]"]) simp
qed

lemma merged_plans:
  assumes "data_ok env data" "caches_ok env data"
  shows "\<exists>c new. ofold (merged_query_of env) plans (data, out) = Some (data\<lparr>gd_merge_cache := c\<rparr>, out @ new)
     \<and> caches_ok env (data\<lparr>gd_merge_cache := c\<rparr>)
     \<and> map mq_query_name new = filter (\<lambda>q. nodes_at (gd_nodes data) q \<noteq> []) (map (\<lambda>p. lq_name (plan_query p)) plans)
     \<and> (\<forall>mq \<in> set new. exports env (nodes_at (gd_nodes data) (mq_query_name mq)) mq)"
  using assms
proof (induction plans arbitrary: data out)
  case Nil
  have "data\<lparr>gd_merge_cache := gd_merge_cache data\<rparr> = data" by simp
  then show ?case using Nil.prems by (intro exI [of _ "gd_merge_cache data"] exI [of _ "[]"]) simp
next
  case (Cons plan plans)
  obtain c new where one: "merged_query_of env plan (data, out) = Some (data\<lparr>gd_merge_cache := c\<rparr>, out @ new)" "caches_ok env (data\<lparr>gd_merge_cache := c\<rparr>)"
     "map mq_query_name new = filter (\<lambda>q. nodes_at (gd_nodes data) q \<noteq> []) [lq_name (plan_query plan)]"
     "\<forall>mq \<in> set new. exports env (nodes_at (gd_nodes data) (mq_query_name mq)) mq"
    using merged_query_ok [OF Cons.prems] by blast
  let ?d = "data\<lparr>gd_merge_cache := c\<rparr>"
  have "data_ok env ?d" using Cons.prems(1) by (simp add: data_ok_def)
  from Cons.IH [OF this one(2), of "out @ new"] obtain c' new' where
    rest: "ofold (merged_query_of env) plans (?d, out @ new) = Some (?d\<lparr>gd_merge_cache := c'\<rparr>, (out @ new) @ new')"
     "caches_ok env (?d\<lparr>gd_merge_cache := c'\<rparr>)"
     "map mq_query_name new' = filter (\<lambda>q. nodes_at (gd_nodes ?d) q \<noteq> []) (map (\<lambda>p. lq_name (plan_query p)) plans)"
     "\<forall>mq \<in> set new'. exports env (nodes_at (gd_nodes ?d) (mq_query_name mq)) mq" by blast
  have "map mq_query_name (new @ new') = filter (\<lambda>q. nodes_at (gd_nodes data) q \<noteq> []) (map (\<lambda>p. lq_name (plan_query p)) (plan # plans))"
    using one(3) rest(3) by simp
  then show ?case using one(1,4) rest(1,2,4) by (intro exI [of _ c'] exI [of _ "new @ new'"]) auto
qed

text \<open>The windows of a query at the gateway.\<close>

definition windows_at :: "gateway_state \<Rightarrow> string \<Rightarrow> per_node" where
  "windows_at gs q = nodes_at (gd_nodes (gs_data gs)) q"

lemma merged_ok:
  assumes inv: "gw_inv env gs"
  shows "\<exists>gs' out. merged env clock gs = Some (gs', out) \<and> gw_inv env gs' \<and> expired clock (gs_stale_after gs) (gs_data gs) (gs_data gs')
     \<and> map mq_query_name out = filter (\<lambda>q. windows_at gs' q \<noteq> []) (map (\<lambda>p. lq_name (plan_query p)) (gs_plans gs))
     \<and> (\<forall>mq \<in> set out. exports env (windows_at gs' (mq_query_name mq)) mq)"
proof -
  obtain d n where d: "expire env clock (gs_stale_after gs) (gs_data gs) = Some (d, n)" "gw_inv env (gs\<lparr>gs_data := d\<rparr>)"
    "expired clock (gs_stale_after gs) (gs_data gs) d" using expire_inv [OF inv] by blast
  have ok: "data_ok env d" "caches_ok env d" using d(2) by (simp_all add: gw_inv_def)
  obtain c out where c: "ofold (merged_query_of env) (gs_plans gs) (d, []) = Some (d\<lparr>gd_merge_cache := c\<rparr>, out)" "caches_ok env (d\<lparr>gd_merge_cache := c\<rparr>)"
     "map mq_query_name out = filter (\<lambda>q. nodes_at (gd_nodes d) q \<noteq> []) (map (\<lambda>p. lq_name (plan_query p)) (gs_plans gs))"
     "\<forall>mq \<in> set out. exports env (nodes_at (gd_nodes d) (mq_query_name mq)) mq"
    using merged_plans [OF ok, of "gs_plans gs" "[]"] by auto
  let ?gs = "gs\<lparr>gs_data := d\<lparr>gd_merge_cache := c\<rparr>, gs_merge_cache_shard_rebuilds := gs_merge_cache_shard_rebuilds gs + of_nat n\<rparr>"
  have "merged env clock gs = Some (?gs, out)" using d(1) c(1) by (simp add: merged_def)
  moreover have "gw_inv env ?gs" using d(2) c(2) by (simp add: gw_inv_def data_ok_def)
  moreover have "expired clock (gs_stale_after gs) (gs_data gs) (gs_data ?gs)" using d(3) by (simp add: expired_def node_at_def)
  ultimately show ?thesis using c(3,4) by (intro exI [of _ ?gs] exI [of _ out]) (simp add: windows_at_def)
qed

lemma nodes_view_ok:
  assumes inv: "gw_inv env gs"
  shows "\<exists>gs' out. nodes_view env clock clock' gs = Some (gs', out) \<and> gw_inv env gs' \<and> expired clock (gs_stale_after gs) (gs_data gs) (gs_data gs')"
proof -
  obtain d n where d: "expire env clock (gs_stale_after gs) (gs_data gs) = Some (d, n)" "gw_inv env (gs\<lparr>gs_data := d\<rparr>)"
    "expired clock (gs_stale_after gs) (gs_data gs) d" using expire_inv [OF inv] by blast
  then show ?thesis by (auto simp: nodes_view_def gw_inv_def)
qed

section \<open>Reachable gateways\<close>

text \<open>A gateway after its construction and any calls, in the order they took the lock.\<close>

inductive gw_reach :: "gateway_env \<Rightarrow> gateway_state \<Rightarrow> bool" for env where
  start: "gs_new plans h stale_after max_nodes max_bytes = Some gs \<Longrightarrow> gw_reach env gs"
| push: "gw_reach env gs \<Longrightarrow> apply_batch env clock now batch gs = Some (gs', res) \<Longrightarrow> gw_reach env gs'"
| read: "gw_reach env gs \<Longrightarrow> merged env clock gs = Some (gs', out) \<Longrightarrow> gw_reach env gs'"
| list: "gw_reach env gs \<Longrightarrow> nodes_view env clock clock' gs = Some (gs', out) \<Longrightarrow> gw_reach env gs'"

lemma gw_reach_inv: "gw_reach env gs \<Longrightarrow> gw_inv env gs"
proof (induction rule: gw_reach.induct)
  case (start plans h stale_after max_nodes max_bytes gs)
  then have gs: "gs_data gs = GatewayData_default" by (auto simp: gs_new_def split: if_splits)
  show ?case by (simp add: gw_inv_def gs GatewayData_default_def data_ok_def caches_ok_def nodes_ok_def nodes_at_def bytes_of_def
      cache_for_def unique_node_count_def)
next
  case (push gs clock now batch gs' res)
  then show ?case using apply_batch_ok [OF push.IH, of clock now batch] by auto
next
  case (read gs clock gs' out)
  then show ?case using merged_ok [OF read.IH, of clock] by auto
next
  case (list gs clock clock' gs' out)
  then show ?case using nodes_view_ok [OF list.IH, of clock clock'] by auto
qed

section \<open>Properties\<close>



text \<open>
  C5: A cluster window covers all live nodes.  Reading a reachable gateway first drops exactly the
  stale windows and then reports, in the order of the plans, every configured query that has nodes.
  Whatever pushes, evictions and partial cache rebuilds came before, a reported state is the merge,
  in some grouping, of the windows of all nodes of the query, which then all have the bounds of the
  selected window; when the nodes do not all report that window or some do not merge, no state is
  reported.  When they all hold inputs of one sketch and one window a state is reported.
\<close>

theorem cluster_windows_cover_all_nodes:
  assumes "gw_reach env gs"
  shows "\<exists>gs' out. merged env clock gs = Some (gs', out) \<and> expired clock (gs_stale_after gs) (gs_data gs) (gs_data gs')
     \<and> map mq_query_name out = filter (\<lambda>q. windows_at gs' q \<noteq> []) (map (\<lambda>p. lq_name (plan_query p)) (gs_plans gs))
     \<and> (\<forall>mq \<in> set out. let pn = windows_at gs' (mq_query_name mq) in
          mq_nodes_known mq = length pn \<and> mq_nodes_merged mq \<le> length pn
          \<and> (\<exists>start. selected_window pn = Some (start, mq_window_end_nanos mq) \<and> mq_nodes_merged mq \<le> reporting pn (start, mq_window_end_nanos mq))
          \<and> (\<forall>f. mq_state mq = Some f \<longrightarrow> mq_nodes_merged mq = length pn
               \<and> (\<exists>ws. mset ws = mset (map snd (view pn)) \<and> merge_of (ge_est env) ws f))
          \<and> (\<forall>sk h t. (\<forall>w \<in> set (map snd (view pn)). holding (ge_est env) sk h t w) \<longrightarrow> mq_state mq \<noteq> None))"
  using merged_ok [OF gw_reach_inv [OF assms], of clock] unfolding exports_def Let_def by blast

text \<open>
  C39: The selected window.  A query with nodes always has one.  It is the newest end any node
  reports; among the starts reported with that end it is the one with the most nodes, and on a tie
  the earliest.  No other window has these properties.
\<close>

theorem selected_window_is_the_majority:
  "selected_window pn = Some t \<longleftrightarrow>
     0 < reporting pn t \<and> (\<forall>(n, w) \<in> set pn. ws_end (nw_state w) \<le> snd t)
     \<and> (\<forall>s. reporting pn (s, snd t) < reporting pn t \<or> reporting pn (s, snd t) = reporting pn t \<and> fst t \<le> s)"
  unfolding selected_window_iff selects_def by (auto simp: reporting_def)

section \<open>A small gateway\<close>

text \<open>One plan, one node that has pushed a window with one input.\<close>

definition gw_env :: gateway_env where
  "gw_env = \<lparr>ge_est = \<lambda>_ _. Fin 0, ge_mem = \<lambda>_. 1\<rparr>"

definition gw_plan :: plan where
  "gw_plan = \<lparr>plan_query = sample_query,
     plan_physical = \<lparr>pp_sketch = PSpaceSaving 2, pp_window_buckets = 1, pp_pending_window_capacity = 1,
       pp_estimated_memory_bytes = 0, pp_estimated_state_memory_bytes = 0, pp_export_series_upper_bound = 5,
       pp_error_kind = CandidateUpperBound, pp_error_contract = [], pp_warnings = []\<rparr>\<rparr>"

definition gw_batch :: push_batch where
  "gw_batch = \<lparr>pb_node = ''n'', pb_entries = [\<lparr>pe_query_name = ''q'', pe_component = SPACESAVING, pe_snapshot = ss_to_snapshot ss_sample 0 60\<rparr>]\<rparr>"

lemma gw_state_received:
  "\<exists>st. from_components est gw_plan (HashSpec_new 7) [(SPACESAVING, ss_to_snapshot ss_sample 0 60)] = Some (Inr st)
     \<and> bounds st = (0, 60) \<and> qs_holds est (PSpaceSaving 2) (HashSpec_new 7) (ws_state st) [([1], 5, [])]"
proof -
  have sk: "pp_sketch (plan_physical gw_plan) = PSpaceSaving 2" by (simp add: gw_plan_def)
  obtain z where z: "ss_new 2 (HashSpec_new 7) = Inr z" "z = \<lparr>ss_capacity = 2, ss_hash = HashSpec_new 7, ss_slots = [], ss_key_index = [],
     ss_min_heap = [], ss_total_weight = 0, ss_updates = 0\<rparr>" by (simp add: ss_new_def)
  obtain s where s: "ss_add z [1] 5 = Some s" "ss_has 2 (HashSpec_new 7) s ([] @ [([1], 5)])"
    using ss_has_add [OF ss_has_new [OF z(1)], of "[1]" 5] by blast
  have "s = ss_sample" using s(1) by (simp add: ss_sample_def ss_update_def z(2))
  then have "qs_holds est (PSpaceSaving 2) (HashSpec_new 7) (QHeavyHitters ss_sample) [([1], 5, [])]" using s(2) by simp
  from window_received [of est gw_plan "HashSpec_new 7" "QHeavyHitters ss_sample" _ 0 60 "QHeavyHitters z", unfolded sk, OF this] show ?thesis
    using ss_sample_wf z(1) by (auto simp: qs_build_def bounds_def)
qed

lemma gw_groups: "group_entries (pb_entries gw_batch) = [(''q'', [(SPACESAVING, ss_to_snapshot ss_sample 0 60)])]"
  by (simp add: group_entries_def gw_batch_def bt_update_def)

lemma gw_start: "\<exists>gs. gs_new [gw_plan] (HashSpec_new 7) 10 3 100 = Some gs \<and> gw_reach env gs \<and> gs_plans gs = [gw_plan] \<and> gs_stale_after gs = 10
    \<and> gs_hash gs = HashSpec_new 7 \<and> gs_data gs = GatewayData_default \<and> gs_max_nodes gs = 3 \<and> gs_max_retained_sketch_bytes gs = 100"
  using gw_reach.start [of "[gw_plan]" "HashSpec_new 7" 10 3 100 _ env] by (simp add: gs_new_def)

lemma gw_pushed:
  assumes st: "from_components (ge_est gw_env) gw_plan (HashSpec_new 7) [(SPACESAVING, ss_to_snapshot ss_sample 0 60)] = Some (Inr st)"
  shows "\<exists>gs. gw_reach gw_env gs \<and> gs_plans gs = [gw_plan] \<and> gs_stale_after gs = 10 \<and> windows_at gs ''q'' = [(''n'', \<lparr>nw_received = 5, nw_state = st\<rparr>)]"
proof -
  obtain gs where gs: "gw_reach gw_env gs" "gs_plans gs = [gw_plan]" "gs_hash gs = HashSpec_new 7" "gs_data gs = GatewayData_default"
    "gs_max_nodes gs = 3" "gs_max_retained_sketch_bytes gs = 100" "gs_stale_after gs = 10" using gw_start [of gw_env] by blast
  have val: "ofold (validate_query gw_env gs) (group_entries (pb_entries gw_batch)) ([], []) = Some ([], [(''q'', st)])"
    unfolding gw_groups using gs(2,3) st by (simp add: validate_query_def gw_plan_def sample_query_def)
  have ex: "expire gw_env (\<lambda>_ _. 0) (gs_stale_after gs) GatewayData_default = Some (GatewayData_default, 0)"
    by (simp add: expire_def evict_stale_def GatewayData_default_def refresh_changed_caches_def)
  have ok: "data_ok gw_env GatewayData_default" "caches_ok gw_env GatewayData_default" using gw_reach_inv [OF gs(1)] gs(4) by (simp_all add: gw_inv_def)
  let ?w = "\<lparr>nw_received = 5, nw_state = st\<rparr>"
  let ?d = "GatewayData_default\<lparr>gd_retained_sketch_bytes := 1, gd_nodes := [(''q'', [(''n'', ?w)])]\<rparr>"
  obtain c n where c: "refresh_changed_caches gw_env ?d [(''q'', [merge_shard ''n''])] = Some (?d\<lparr>gd_merge_cache := c\<rparr>, n)"
  proof -
    have "nodes_ok (gd_nodes ?d)" using from_components_total [of "ge_est gw_env" gw_plan "HashSpec_new 7"] st
      by (auto simp: nodes_ok_def all_safe_def) (metis option.inject)
    moreover have "agree (marked [(''q'', [merge_shard ''n''])] q) (nodes_at [] q) (nodes_at (gd_nodes ?d) q)" for q
      using agree_insert [of "[]" "''n''" ?w] by (simp add: marked_def nodes_at_def)
    moreover have "marks_ok [(''q'', [merge_shard ''n''])]" by (simp add: marks_ok_def marked_def)
    ultimately show ?thesis using that refresh_changed_caches_ok [of ?d gw_env "nodes_at []" "[(''q'', [merge_shard ''n''])]"] ok(2)
      by (auto simp: caches_ok_def GatewayData_default_def)
  qed
  have adm: "admit gw_env 100 5 ''n'' (''q'', st) \<lparr>ad_data = GatewayData_default, ad_changed = [], ad_accepted = 0, ad_budget_rejections = 0, ad_rejected = []\<rparr>
     = \<lparr>ad_data = ?d, ad_changed = [(''q'', [merge_shard ''n''])], ad_accepted = 1, ad_budget_rejections = 0, ad_rejected = []\<rparr>"
    by (simp add: admit_def GatewayData_default_def checked_replace_def gw_env_def mark_changed_def bt_update_def Let_def insort_insert_key_def)
  have count: "unique_node_count [] = 0" by (simp add: unique_node_count_def)
  have "\<exists>gs' res. apply_batch gw_env (\<lambda>_ _. 0) 5 gw_batch gs = Some (gs', res) \<and> gs_data gs' = ?d\<lparr>gd_merge_cache := c\<rparr> \<and> gs_plans gs' = gs_plans gs \<and> gs_stale_after gs' = 10"
    unfolding apply_batch_def val using gs ex adm c
    by (simp add: admit_all_def gw_batch_def GatewayData_default_def Let_def count)
  then obtain gs' res where gs': "apply_batch gw_env (\<lambda>_ _. 0) 5 gw_batch gs = Some (gs', res)" "gs_data gs' = ?d\<lparr>gd_merge_cache := c\<rparr>" "gs_plans gs' = gs_plans gs" "gs_stale_after gs' = 10"
    by blast
  then show ?thesis using gw_reach.push [OF gs(1) gs'(1)] gs(2) by (intro exI [of _ gs']) (simp add: windows_at_def nodes_at_def)
qed

lemma gw_sample:
  "\<exists>gs st. gw_reach gw_env gs \<and> gs_plans gs = [gw_plan] \<and> gs_stale_after gs = 10 \<and> windows_at gs ''q'' = [(''n'', \<lparr>nw_received = 5, nw_state = st\<rparr>)]
     \<and> bounds st = (0, 60) \<and> qs_holds (ge_est gw_env) (PSpaceSaving 2) (HashSpec_new 7) (ws_state st) [([1], 5, [])]"
  using gw_state_received [of "ge_est gw_env"] gw_pushed by blast



text \<open>Reading the small gateway in time reports the window of its node.\<close>

lemma gw_read:
  assumes ex: "expired (\<lambda>_ _. 7) (gs_stale_after gs) (gs_data gs) (gs_data gs')" and stale: "2 < gs_stale_after gs"
    and ok: "gw_inv env gs" "gw_inv env gs'" and w: "windows_at gs ''q'' = [(''n'', \<lparr>nw_received = 5, nw_state = st\<rparr>)]"
  shows "windows_at gs' ''q'' = [(''n'', \<lparr>nw_received = 5, nw_state = st\<rparr>)]"
proof -
  let ?pn = "windows_at gs' ''q''"
  have "map_of ?pn n = Some x \<longleftrightarrow> (n, x) = (''n'', \<lparr>nw_received = 5, nw_state = st\<rparr>)" for n x
    using ex stale w by (auto simp: expired_def node_at_def windows_at_def)
  moreover have bt: "bt_ok ?pn" using ok(2) nodes_ok_at(1) by (simp add: gw_inv_def data_ok_def windows_at_def)
  ultimately have "set ?pn = {(''n'', \<lparr>nw_received = 5, nw_state = st\<rparr>)}" using bt_mem_get [OF bt] by auto
  moreover have "distinct ?pn" using bt_ok_distinct [OF bt] by (simp add: distinct_map)
  ultimately show ?thesis by (metis distinct_card card_1_singleton_iff length_Suc_conv length_0_conv One_nat_def list.set_intros(1) singletonD)
qed

lemma gw_reported:
  assumes gs: "gw_reach gw_env gs" "gs_plans gs = [gw_plan]" "gs_stale_after gs = 10"
    "windows_at gs ''q'' = [(''n'', \<lparr>nw_received = 5, nw_state = st\<rparr>)]"
    "bounds st = (0, 60)" "qs_holds (ge_est gw_env) (PSpaceSaving 2) (HashSpec_new 7) (ws_state st) [([1], 5, [])]"
  shows "\<exists>gs' mq f. merged gw_env (\<lambda>_ _. 7) gs = Some (gs', [mq]) \<and> mq_query_name mq = ''q'' \<and> mq_state mq = Some f
     \<and> windows_at gs' ''q'' = [(''n'', \<lparr>nw_received = 5, nw_state = st\<rparr>)]"
proof -
  obtain gs' out where out: "merged gw_env (\<lambda>_ _. 7) gs = Some (gs', out)" "expired (\<lambda>_ _. 7) (gs_stale_after gs) (gs_data gs) (gs_data gs')"
     "map mq_query_name out = filter (\<lambda>q. windows_at gs' q \<noteq> []) (map (\<lambda>p. lq_name (plan_query p)) (gs_plans gs))"
     "\<forall>mq \<in> set out. exports gw_env (windows_at gs' (mq_query_name mq)) mq"
    using merged_ok [OF gw_reach_inv [OF gs(1)], of "\<lambda>_ _. 7"] by blast
  have w: "windows_at gs' ''q'' = [(''n'', \<lparr>nw_received = 5, nw_state = st\<rparr>)]"
    using gw_read [OF out(2) _ gw_reach_inv [OF gs(1)] gw_reach_inv [OF gw_reach.read [OF gs(1) out(1)]] gs(4)] gs(3) by simp
  have "map mq_query_name out = [''q'']" unfolding out(3) gs(2) by (simp add: gw_plan_def sample_query_def w)
  then obtain mq where mq: "out = [mq]" "mq_query_name mq = ''q''" by auto
  have "holding (ge_est gw_env) (PSpaceSaving 2) (HashSpec_new 7) (0, 60) st" using gs(5,6) by (auto simp: holding_def)
  then have "\<forall>w \<in> set (map snd (view (windows_at gs' (mq_query_name mq)))). holding (ge_est gw_env) (PSpaceSaving 2) (HashSpec_new 7) (0, 60) w"
    by (simp add: mq(2) w view_def)
  then have "mq_state mq \<noteq> None" using out(4) mq(1) unfolding exports_def by (metis list.set_intros(1))
  then show ?thesis using out(1) mq w by auto
qed

theorem cluster_windows_cover_all_nodes_witness:
  "\<exists>gs gs' mq f. gw_reach gw_env gs \<and> merged gw_env (\<lambda>_ _. 7) gs = Some (gs', [mq]) \<and> mq_state mq = Some f \<and> mq_nodes_merged mq = 1"
proof -
  obtain gs st where gs: "gw_reach gw_env gs" "gs_plans gs = [gw_plan]" "gs_stale_after gs = 10"
    "windows_at gs ''q'' = [(''n'', \<lparr>nw_received = 5, nw_state = st\<rparr>)]"
    "bounds st = (0, 60)" "qs_holds (ge_est gw_env) (PSpaceSaving 2) (HashSpec_new 7) (ws_state st) [([1], 5, [])]" using gw_sample by blast
  obtain gs' mq f where out: "merged gw_env (\<lambda>_ _. 7) gs = Some (gs', [mq])" "mq_query_name mq = ''q''" "mq_state mq = Some f"
     "windows_at gs' ''q'' = [(''n'', \<lparr>nw_received = 5, nw_state = st\<rparr>)]" using gw_reported [OF gs] by blast
  from cluster_windows_cover_all_nodes [OF gs(1), of "\<lambda>_ _. 7"] have "mq_nodes_merged mq = length (windows_at gs' ''q'')"
    using out(1,2,3) unfolding Let_def by (auto simp: exports_def)
  then show ?thesis using gs(1) out by auto
qed

text \<open>Three nodes, two of which agree on the start of the newest window.\<close>

theorem selected_window_is_the_majority_witness:
  "selected_window (map (\<lambda>(n, s). (n, \<lparr>nw_received = 0, nw_state = \<lparr>ws_state = QHeavyHitters ss_sample, ws_start = s, ws_end = 60\<rparr>\<rparr>))
     [(''a'', 0), (''b'', 30), (''c'', 30)]) = Some (30, 60)"
  unfolding selected_window_is_the_majority by (auto simp: reporting_def bounds_def)

end
