(* ===== verification/Packet.thy ===== *)
theory Packet
  imports Field
begin

text \<open>
  \<^verbatim>\<open>flowsketch-pcap/src/parse.rs\<close>: the link, network and transport headers of a captured packet,
  read into a flow event.

  The input is untrusted, so every access to the captured bytes is written with the check of the
  language: an index or a slice out of range panics, which is the outer \<open>None\<close>; the inner \<open>None\<close>
  is the parser's own answer that it skips the packet.  Shown here: no input panics, and the byte
  count of an event never exceeds the length the packet had on the wire.
\<close>

section \<open>Reading bytes\<close>

definition be_word :: "bytes \<Rightarrow> 'a::len word" where
  "be_word bs = le_word (rev bs)"

definition be_bytes :: "nat \<Rightarrow> 'a::len word \<Rightarrow> bytes" where
  "be_bytes n w = rev (le_bytes n w)"

text \<open>\<^verbatim>\<open>data[i]\<close>, \<^verbatim>\<open>u16::from_be_bytes([data[i], data[i + 1]])\<close> and \<^verbatim>\<open>&data[a..b]\<close>, with what follows.\<close>

definition byte_at :: "bytes \<Rightarrow> nat \<Rightarrow> (u8 \<Rightarrow> 'a option) \<Rightarrow> 'a option" where
  "byte_at data i k = (if i < length data then k (data ! i) else None)"

definition be16_at :: "bytes \<Rightarrow> nat \<Rightarrow> (u16 \<Rightarrow> 'a option) \<Rightarrow> 'a option" where
  "be16_at data i k = byte_at data i (\<lambda>a. byte_at data (i + 1) (\<lambda>b. k (be_word [a, b])))"

definition slice_at :: "bytes \<Rightarrow> nat \<Rightarrow> nat \<Rightarrow> (bytes \<Rightarrow> 'a option) \<Rightarrow> 'a option" where
  "slice_at data a b k = (if a \<le> b \<and> b \<le> length data then k (take (b - a) (drop a data)) else None)"

text \<open>The question-mark operator on an option.\<close>

definition try_some :: "'a option option \<Rightarrow> ('a \<Rightarrow> 'b option option) \<Rightarrow> 'b option option" where
  "try_some m k = (case m of None \<Rightarrow> None | Some None \<Rightarrow> Some None | Some (Some x) \<Rightarrow> k x)"

section \<open>Headers\<close>

definition ETHERTYPE_IPV4 :: u16 where "ETHERTYPE_IPV4 = 0x0800"
definition ETHERTYPE_IPV6 :: u16 where "ETHERTYPE_IPV6 = 0x86DD"
definition ETHERTYPE_VLAN :: u16 where "ETHERTYPE_VLAN = 0x8100"
definition ETHERTYPE_QINQ :: u16 where "ETHERTYPE_QINQ = 0x88A8"
definition LINK_ETHERNET :: u32 where "LINK_ETHERNET = 1"
definition LINK_RAW_IP :: u32 where "LINK_RAW_IP = 101"
definition LINK_LINUX_SLL :: u32 where "LINK_LINUX_SLL = 113"

record l4_info =
  l4_src_port :: u16
  l4_dst_port :: u16
  l4_tcp_flags :: u8

definition L4Info_default :: l4_info where
  "L4Info_default = \<lparr>l4_src_port = 0, l4_dst_port = 0, l4_tcp_flags = 0\<rparr>"

definition parse_l4 :: "u8 \<Rightarrow> bytes \<Rightarrow> nat \<Rightarrow> l4_info option option" where
  "parse_l4 proto data wire_len =
     (if proto = 6 then
        if length data < 14 then Some None
        else byte_at data 12 (\<lambda>b.
          let header_len = unat (drop_bit 4 b) * 4 in
          if header_len < 20 \<or> wire_len < header_len \<or> length data < header_len then Some None
          else be16_at data 0 (\<lambda>src. be16_at data 2 (\<lambda>dst. byte_at data 13 (\<lambda>flags.
            Some (Some \<lparr>l4_src_port = src, l4_dst_port = dst, l4_tcp_flags = flags\<rparr>)))))
      else if proto = 17 then
        if length data < 8 then Some None
        else be16_at data 4 (\<lambda>l.
          let udp_len = unat l in
          if udp_len < 8 \<or> wire_len < udp_len then Some None
          else be16_at data 0 (\<lambda>src. be16_at data 2 (\<lambda>dst.
            Some (Some \<lparr>l4_src_port = src, l4_dst_port = dst, l4_tcp_flags = 0\<rparr>))))
      else Some (Some L4Info_default))"

definition parse_ipv4 :: "bytes \<Rightarrow> nat \<Rightarrow> flow_event option option" where
  "parse_ipv4 data wire_len =
     (if length data < 20 then Some None
      else byte_at data 0 (\<lambda>b0.
        if drop_bit 4 b0 \<noteq> 4 then Some None
        else let ihl = unat (b0 AND 0x0F) * 4 in
        if ihl < 20 \<or> length data < ihl then Some None
        else be16_at data 2 (\<lambda>tl.
          let total_len = unat tl in
          if total_len < ihl \<or> wire_len < total_len then Some None
          else byte_at data 9 (\<lambda>proto. slice_at data 12 16 (\<lambda>src. slice_at data 16 20 (\<lambda>dst.
            be16_at data 6 (\<lambda>frag.
              let fragment_offset = frag AND 0x1FFF in
              try_some
                (if fragment_offset = 0
                 then slice_at data ihl (min total_len (length data)) (\<lambda>l4. parse_l4 proto l4 (total_len - ihl))
                 else Some (Some L4Info_default))
                (\<lambda>l4. Some (Some (FlowEvent_default\<lparr>src_ip := V4 (be_word src), dst_ip := V4 (be_word dst),
                   src_port := l4_src_port l4, dst_port := l4_dst_port l4, protocol := proto,
                   tcp_flags := l4_tcp_flags l4, ev_bytes := of_nat total_len, packets := 1\<rparr>))))))))))"

text \<open>The loop over IPv6 extension headers, at most six; it yields the next header, the transport
  fields and whether it stopped at a later fragment.  Offsets are below \<open>2^17\<close>, so the checked
  additions of the code never fail.\<close>

definition is_extension :: "u8 \<Rightarrow> bool" where
  "is_extension h \<longleftrightarrow> h = 0 \<or> h = 43 \<or> h = 51 \<or> h = 60"

fun extension_headers :: "nat \<Rightarrow> bytes \<Rightarrow> nat \<Rightarrow> u8 \<Rightarrow> nat \<Rightarrow> (u8 \<times> l4_info \<times> bool) option option" where
  "extension_headers 0 data packet_len next_header offset = Some (Some (next_header, L4Info_default, False))"
| "extension_headers (Suc n) data packet_len next_header offset =
     (if is_extension next_header then
        if packet_len < offset + 8 \<or> length data < offset + 8 then Some None
        else byte_at data (offset + 1) (\<lambda>l.
          let len = (if next_header = 51 then (unat l + 2) * 4 else 8 + unat l * 8);
              next_offset = offset + len
          in if len < 8 \<or> packet_len < next_offset \<or> length data < next_offset then Some None
             else byte_at data offset (\<lambda>h. extension_headers n data packet_len h next_offset))
      else if next_header = 44 then
        let next_offset = offset + 8
        in if packet_len < next_offset \<or> length data < next_offset then Some None
           else be16_at data (offset + 2) (\<lambda>f. byte_at data offset (\<lambda>h.
             if drop_bit 3 f \<noteq> 0 then Some (Some (h, L4Info_default, True))
             else extension_headers n data packet_len h next_offset))
      else
        let captured_end = min packet_len (length data)
        in if captured_end < offset \<or> packet_len < offset then Some None
           else try_some (parse_l4 next_header (take (captured_end - offset) (drop offset data)) (packet_len - offset))
             (\<lambda>l4. Some (Some (next_header, l4, False))))"

definition parse_ipv6 :: "bytes \<Rightarrow> nat \<Rightarrow> flow_event option option" where
  "parse_ipv6 data wire_len =
     (if length data < 40 then Some None
      else byte_at data 0 (\<lambda>b0.
        if drop_bit 4 b0 \<noteq> 6 then Some None
        else be16_at data 4 (\<lambda>pl.
          let payload_len = unat pl; packet_len = 40 + payload_len in
          if payload_len = 0 then Some None
          else if wire_len < packet_len then Some None
          else byte_at data 6 (\<lambda>next_header. slice_at data 8 24 (\<lambda>src. slice_at data 24 40 (\<lambda>dst.
            try_some (extension_headers 6 data packet_len next_header 40) (\<lambda>(next_header, l4, non_first_fragment).
              if (is_extension next_header \<or> next_header = 44) \<and> \<not> non_first_fragment then Some None
              else Some (Some (FlowEvent_default\<lparr>src_ip := V6 (be_word src), dst_ip := V6 (be_word dst),
                   src_port := l4_src_port l4, dst_port := l4_dst_port l4, protocol := next_header,
                   tcp_flags := l4_tcp_flags l4, ev_bytes := of_nat packet_len, packets := 1\<rparr>)))))))))"

definition parse_l3 :: "u16 \<Rightarrow> bytes \<Rightarrow> nat \<Rightarrow> flow_event option option" where
  "parse_l3 ethertype data wire_len =
     (if ethertype = ETHERTYPE_IPV4 then parse_ipv4 data wire_len
      else if ethertype = ETHERTYPE_IPV6 then parse_ipv6 data wire_len
      else Some None)"

definition parse_ip :: "bytes \<Rightarrow> nat \<Rightarrow> flow_event option option" where
  "parse_ip data wire_len =
     (case data of
        [] \<Rightarrow> Some None
      | b # _ \<Rightarrow> if drop_bit 4 b = 4 then parse_ipv4 data wire_len
                else if drop_bit 4 b = 6 then parse_ipv6 data wire_len
                else Some None)"

text \<open>The loop that unwraps VLAN tags.\<close>

fun unwrap_vlan :: "nat \<Rightarrow> bytes \<Rightarrow> u16 \<Rightarrow> nat \<Rightarrow> (u16 \<times> nat) option option" where
  "unwrap_vlan 0 data ethertype offset = Some (Some (ethertype, offset))"
| "unwrap_vlan (Suc n) data ethertype offset =
     (if ethertype = ETHERTYPE_VLAN \<or> ethertype = ETHERTYPE_QINQ then
        if length data < offset + 4 then Some None
        else be16_at data (offset + 2) (\<lambda>t. unwrap_vlan n data t (offset + 4))
      else unwrap_vlan n data ethertype offset)"

definition parse_ethernet :: "bytes \<Rightarrow> nat \<Rightarrow> flow_event option option" where
  "parse_ethernet data wire_len =
     (if length data < 14 then Some None
      else be16_at data 12 (\<lambda>t.
        try_some (unwrap_vlan 2 data t 14) (\<lambda>(ethertype, offset).
          if length data < offset then None
          else if wire_len < offset then Some None
          else parse_l3 ethertype (drop offset data) (wire_len - offset))))"

definition parse_packet_with_wire_len :: "u32 \<Rightarrow> bytes \<Rightarrow> u32 \<Rightarrow> flow_event option option" where
  "parse_packet_with_wire_len link data wire_len =
     (let wire_len = unat wire_len in
      if wire_len < length data then Some None
      else if link = LINK_ETHERNET then parse_ethernet data wire_len
      else if link = LINK_RAW_IP then parse_ip data wire_len
      else if link = LINK_LINUX_SLL then
        if length data < 16 then Some None
        else be16_at data 14 (\<lambda>ethertype.
          if wire_len < 16 then Some None else parse_l3 ethertype (drop 16 data) (wire_len - 16))
      else Some None)"

definition parse_packet :: "u32 \<Rightarrow> bytes \<Rightarrow> flow_event option option" where
  "parse_packet link data = (if 2 ^ 32 \<le> length data then Some None else parse_packet_with_wire_len link data (of_nat (length data)))"

section \<open>Safety\<close>

text \<open>A parse that returns, with an event that satisfies a condition or none.\<close>

definition yields :: "'a option option \<Rightarrow> ('a \<Rightarrow> bool) \<Rightarrow> bool" where
  "yields m P \<longleftrightarrow> (\<exists>r. m = Some r \<and> (\<forall>x. r = Some x \<longrightarrow> P x))"

lemma yields_simps [simp]: "yields (Some None) P" "yields (Some (Some x)) P \<longleftrightarrow> P x" "\<not> yields None P"
  by (auto simp: yields_def)

lemma yields_byte: "i < length data \<Longrightarrow> (\<And>b. yields (k b) P) \<Longrightarrow> yields (byte_at data i k) P"
  by (simp add: byte_at_def)

lemma yields_be16: "i + 1 < length data \<Longrightarrow> (\<And>v. yields (k v) P) \<Longrightarrow> yields (be16_at data i k) P"
  by (simp add: be16_at_def byte_at_def)

lemma yields_slice: "a \<le> b \<Longrightarrow> b \<le> length data \<Longrightarrow> (\<And>s. length s = b - a \<Longrightarrow> yields (k s) P) \<Longrightarrow> yields (slice_at data a b k) P"
  by (simp add: slice_at_def)

lemma yields_try: "yields m Q \<Longrightarrow> (\<And>x. Q x \<Longrightarrow> yields (k x) P) \<Longrightarrow> yields (try_some m k) P"
  by (cases m) (auto simp: yields_def try_some_def split: option.splits)

lemma yields_if: "(c \<Longrightarrow> yields a P) \<Longrightarrow> (\<not> c \<Longrightarrow> yields b P) \<Longrightarrow> yields (if c then a else b) P"
  by simp

lemmas yields_rules = yields_if yields_byte yields_be16 yields_slice

lemma parse_l4_safe: "yields (parse_l4 proto data wire_len) (\<lambda>_. True)"
  unfolding parse_l4_def Let_def by (intro yields_rules) auto

lemma unat_length [simp]: "unat (ucast (v :: u16) :: u32) = unat v" "unat (40 + ucast (v :: u16) :: u32) = 40 + unat v"
proof -
  have v: "unat v < 65536" using unsigned_less [of v] by simp
  show u: "unat (ucast v :: u32) = unat v" using v by (simp add: unsigned_ucast_eq take_bit_nat_eq_self)
  show "unat (40 + ucast v :: u32) = 40 + unat v" using v u by (simp add: unat_word_ariths)
qed

lemma parse_ipv4_safe: "yields (parse_ipv4 data wire_len) (\<lambda>e. unat (ev_bytes e) \<le> wire_len)"
  unfolding parse_ipv4_def Let_def
  by (intro yields_if yields_byte yields_be16 yields_slice yields_try [where Q = "\<lambda>_. True"] parse_l4_safe) auto

lemma extension_headers_safe: "40 \<le> offset \<Longrightarrow> yields (extension_headers n data packet_len h offset) (\<lambda>_. True)"
proof (induction n data packet_len h offset rule: extension_headers.induct)
  case (2 n data packet_len next_header offset)
  show ?case unfolding extension_headers.simps Let_def
    by (intro yields_if yields_byte yields_be16 yields_try [where Q = "\<lambda>_. True"] parse_l4_safe 2) (use 2(3) in auto)
qed simp

lemma parse_ipv6_safe: "yields (parse_ipv6 data wire_len) (\<lambda>e. unat (ev_bytes e) \<le> wire_len)"
  unfolding parse_ipv6_def Let_def case_prod_beta'
  by (intro yields_if yields_byte yields_be16 yields_slice yields_try [where Q = "\<lambda>_. True"] extension_headers_safe) auto

lemma parse_l3_safe: "yields (parse_l3 t data wire_len) (\<lambda>e. unat (ev_bytes e) \<le> wire_len)"
  by (simp add: parse_l3_def parse_ipv4_safe parse_ipv6_safe)

lemma yields_mono: "yields m Q \<Longrightarrow> (\<And>x. Q x \<Longrightarrow> P x) \<Longrightarrow> yields m P"
  by (auto simp: yields_def)

lemma unwrap_vlan_safe: "offset \<le> length data \<Longrightarrow> yields (unwrap_vlan n data t offset) (\<lambda>(t, i). i \<le> length data)"
proof (induction n data t offset rule: unwrap_vlan.induct)
  case (2 n data t offset)
  show ?case unfolding unwrap_vlan.simps by (intro yields_if yields_be16 2) (use 2(3) in auto)
qed simp

lemma parse_ethernet_safe: "yields (parse_ethernet data wire_len) (\<lambda>e. unat (ev_bytes e) \<le> wire_len)"
  unfolding parse_ethernet_def case_prod_beta'
  by (intro yields_if yields_be16 yields_try [OF unwrap_vlan_safe] yields_mono [OF parse_l3_safe]) auto

lemma parse_packet_safe: "yields (parse_packet_with_wire_len link data wire_len) (\<lambda>e. unat (ev_bytes e) \<le> unat wire_len)"
  unfolding parse_packet_with_wire_len_def Let_def
  by (intro yields_if yields_be16 parse_ethernet_safe yields_mono [OF parse_l3_safe])
    (auto simp: parse_ip_def parse_ipv4_safe parse_ipv6_safe split: list.split)

end
