(* ===== verification/Pcap.thy ===== *)
theory Pcap
  imports Packet
begin

text \<open>
  \<^verbatim>\<open>flowsketch-pcap/src/lib.rs\<close> and \<^verbatim>\<open>writer.rs\<close>: classic capture files.

  The reader and the writer are generic in the byte source and sink; here they are byte strings in
  memory, where writing cannot fail and reading fails at the end only, which leaves nothing to
  read.  Shown here: reading events ends on every input, without a panic, and the packets that a
  writer has written are read back as the events they stand for.
\<close>

section \<open>The reader\<close>

datatype pcap_error = Io | BadMagic u32 | Truncated | InvalidTimestamp

record pcap_reader =
  pr_input :: bytes
  pr_swapped :: bool
  pr_subsec_to_nanos :: u64
  pr_linktype :: u32
  pr_packets_read :: u64

definition MAGIC_USEC :: u32 where "MAGIC_USEC = 0xA1B2C3D4"
definition MAGIC_NSEC :: u32 where "MAGIC_NSEC = 0xA1B23C4D"

definition swap_bytes :: "u32 \<Rightarrow> u32" where
  "swap_bytes v = le_word (rev (le_bytes 4 v))"

definition u32_at :: "bool \<Rightarrow> bytes \<Rightarrow> nat \<Rightarrow> u32" where
  "u32_at swapped b i = (let v = le_word (take 4 (drop i b)) in if swapped then swap_bytes v else v)"

text \<open>\<^verbatim>\<open>read_exact\<close>: the bytes and the rest, or nothing at the end of the input.\<close>

definition read_exact :: "nat \<Rightarrow> bytes \<Rightarrow> (bytes \<times> bytes) option" where
  "read_exact n input = (if n \<le> length input then Some (take n input, drop n input) else None)"

definition PcapReader_new :: "bytes \<Rightarrow> pcap_error + pcap_reader" where
  "PcapReader_new input =
     (case read_exact 24 input of
        None \<Rightarrow> Inl Io
      | Some (header, rest) \<Rightarrow>
          let magic = le_word (take 4 header);
              mk = (\<lambda>swapped subsec. Inr \<lparr>pr_input = rest, pr_swapped = swapped, pr_subsec_to_nanos = subsec,
                pr_linktype = u32_at swapped header 20, pr_packets_read = 0\<rparr>)
          in if magic = MAGIC_USEC then mk False 1000
             else if magic = MAGIC_NSEC then mk False 1
             else if swap_bytes magic = MAGIC_USEC then mk True 1000
             else if swap_bytes magic = MAGIC_NSEC then mk True 1
             else Inl (BadMagic magic))"

definition next_packet_into :: "pcap_reader \<Rightarrow> pcap_reader \<times> (pcap_error + (u64 \<times> u32 \<times> bytes) option)" where
  "next_packet_into r =
     (case read_exact 16 (pr_input r) of
        None \<Rightarrow> (r\<lparr>pr_input := []\<rparr>, Inr None)
      | Some (rc, rest) \<Rightarrow>
          let ts_sec = ucast (u32_at (pr_swapped r) rc 0) :: u64;
              ts_subsec = ucast (u32_at (pr_swapped r) rc 4) :: u64;
              caplen = unat (u32_at (pr_swapped r) rc 8);
              origlen = u32_at (pr_swapped r) rc 12;
              r = r\<lparr>pr_input := rest\<rparr>
          in if 256 * 1024 < caplen then (r, Inl Truncated)
             else if unat origlen < caplen then (r, Inl Truncated)
             else if 1000000000 div pr_subsec_to_nanos r \<le> ts_subsec then (r, Inl InvalidTimestamp)
             else case read_exact caplen rest of
               None \<Rightarrow> (r\<lparr>pr_input := []\<rparr>, Inl Truncated)
             | Some (data, rest) \<Rightarrow>
                 (r\<lparr>pr_input := rest, pr_packets_read := pr_packets_read r + 1\<rparr>,
                  Inr (Some (ts_sec * 1000000000 + ts_subsec * pr_subsec_to_nanos r, origlen, data))))"

lemma next_packet_consumes: "next_packet_into r = (r', Inr (Some x)) \<Longrightarrow> length (pr_input r') < length (pr_input r)"
  by (auto simp: next_packet_into_def read_exact_def Let_def split: if_splits option.splits)

text \<open>The loop that skips packets the parser does not know; it ends because every packet consumes
  at least its record header.\<close>

function next_event_into :: "pcap_reader \<Rightarrow> (pcap_reader \<times> (pcap_error + flow_event option)) option" where
  "next_event_into r =
     (case next_packet_into r of
        (r', Inl e) \<Rightarrow> Some (r', Inl e)
      | (r', Inr None) \<Rightarrow> Some (r', Inr None)
      | (r', Inr (Some (ts, origlen, data))) \<Rightarrow>
          (case parse_packet_with_wire_len (pr_linktype r) data origlen of
             None \<Rightarrow> None
           | Some (Some ev) \<Rightarrow>
               Some (r', Inr (Some (ev\<lparr>ts_nanos := ts, ev_bytes := (if ev_bytes ev = 0 then origlen else ev_bytes ev), direction := Unknown\<rparr>)))
           | Some None \<Rightarrow> next_event_into r'))"
  by pat_completeness auto
termination
  by (relation "measure (\<lambda>r. length (pr_input r))") (auto dest: next_packet_consumes [OF sym])

declare next_event_into.simps [simp del]

section \<open>The writer\<close>

record pcap_writer =
  pw_output :: bytes
  pw_packets_written :: u64
  pw_max_written_payload :: nat

definition COMPACT_PAYLOAD_LIMIT :: nat where "COMPACT_PAYLOAD_LIMIT = 64"

definition with_payload_limit :: "nat \<Rightarrow> pcap_writer" where
  "with_payload_limit max_written_payload =
     \<lparr>pw_output = le_bytes 4 (0xA1B23C4D :: u32) @ le_bytes 2 (2 :: u16) @ le_bytes 2 (4 :: u16) @ le_bytes 4 (0 :: u32)
        @ le_bytes 4 (0 :: u32) @ le_bytes 4 (65535 :: u32) @ le_bytes 4 LINK_ETHERNET,
      pw_packets_written = 0, pw_max_written_payload = max_written_payload\<rparr>"

definition PcapWriter_new :: pcap_writer where
  "PcapWriter_new = with_payload_limit COMPACT_PAYLOAD_LIMIT"

definition new_full_payload :: pcap_writer where
  "new_full_payload = with_payload_limit (2 ^ 64 - 1)"

definition write_record :: "u64 \<Rightarrow> u32 \<Rightarrow> bytes \<Rightarrow> pcap_writer \<Rightarrow> pcap_writer" where
  "write_record ts original_len frame w =
     w\<lparr>pw_output := pw_output w @ le_bytes 4 (ucast (ts div 1000000000) :: u32) @ le_bytes 4 (ucast (ts mod 1000000000) :: u32)
         @ le_bytes 4 (of_nat (length frame) :: u32) @ le_bytes 4 original_len @ frame,
       pw_packets_written := pw_packets_written w + 1\<rparr>"

definition tcp_header :: "u16 \<Rightarrow> u16 \<Rightarrow> u8 \<Rightarrow> bytes" where
  "tcp_header sport dport flags =
     be_bytes 2 sport @ be_bytes 2 dport @ replicate 8 0 @ [0x50, flags, 0xFF, 0xFF] @ replicate 4 0"

definition udp_header :: "u16 \<Rightarrow> u16 \<Rightarrow> u16 \<Rightarrow> bytes" where
  "udp_header sport dport payload_len =
     be_bytes 2 sport @ be_bytes 2 dport @ be_bytes 2 (8 + payload_len) @ replicate 2 0"

text \<open>Subtraction of naturals is the saturating one.\<close>

definition original_frame_len :: "ip_addr \<Rightarrow> ip_addr \<Rightarrow> nat \<Rightarrow> u32 \<Rightarrow> u32" where
  "original_frame_len src dst l4_len payload_len =
     (let requested_payload = unat payload_len in
      of_nat (case (src, dst) of
         (V4 _, V4 _) \<Rightarrow> 14 + 20 + l4_len + min requested_payload (65535 - (20 + l4_len))
       | (V6 _, V6 _) \<Rightarrow> 14 + 40 + l4_len + min requested_payload (65535 - l4_len)
       | _ \<Rightarrow> 14 + 20 + l4_len))"

definition build_frame :: "ip_addr \<Rightarrow> ip_addr \<Rightarrow> u8 \<Rightarrow> bytes \<Rightarrow> u32 \<Rightarrow> nat \<Rightarrow> bytes" where
  "build_frame src dst proto l4 payload_len max_written_payload =
     (let requested_payload = unat payload_len;
          protocol_payload_limit = (case (src, dst) of
             (V4 _, V4 _) \<Rightarrow> 65535 - (20 + length l4)
           | (V6 _, V6 _) \<Rightarrow> 65535 - length l4
           | _ \<Rightarrow> 65535 - (20 + length l4));
          written_payload = min (min requested_payload max_written_payload) protocol_payload_limit
      in [0x02, 0, 0, 0, 0, 1] @ [0x02, 0, 0, 0, 0, 2]
         @ (case (src, dst) of
              (V4 s, V4 d) \<Rightarrow>
                let total_len = 20 + of_nat (length l4) + payload_len :: u32
                in be_bytes 2 (0x0800 :: u16) @ [0x45, 0] @ be_bytes 2 (ucast (min total_len 65535) :: u16)
                   @ [0, 0, 0x40, 0] @ [64, proto] @ [0, 0] @ be_bytes 4 s @ be_bytes 4 d
            | (V6 s, V6 d) \<Rightarrow>
                let plen = ucast (min (of_nat (length l4) + payload_len :: u32) 65535) :: u16
                in be_bytes 2 (0x86DD :: u16) @ [0x60] @ [0, 0, 0] @ be_bytes 2 plen @ [proto, 64] @ be_bytes 16 s @ be_bytes 16 d
            | _ \<Rightarrow> be_bytes 2 (0x0800 :: u16) @ [0x45, 0, 0, 28, 0, 0, 0, 0, 64, proto, 0, 0] @ replicate 8 0)
         @ l4 @ replicate written_payload 0)"

definition write_tcp_packet :: "u64 \<Rightarrow> ip_addr \<Rightarrow> ip_addr \<Rightarrow> u16 \<Rightarrow> u16 \<Rightarrow> u8 \<Rightarrow> u32 \<Rightarrow> pcap_writer \<Rightarrow> pcap_writer" where
  "write_tcp_packet ts src dst sport dport flags payload_len w =
     (let l4 = tcp_header sport dport flags
      in write_record ts (original_frame_len src dst (length l4) payload_len)
           (build_frame src dst 6 l4 payload_len (pw_max_written_payload w)) w)"

definition write_udp_packet :: "u64 \<Rightarrow> ip_addr \<Rightarrow> ip_addr \<Rightarrow> u16 \<Rightarrow> u16 \<Rightarrow> u32 \<Rightarrow> pcap_writer \<Rightarrow> pcap_writer" where
  "write_udp_packet ts src dst sport dport payload_len w =
     (let l4 = udp_header sport dport (ucast payload_len)
      in write_record ts (original_frame_len src dst (length l4) payload_len)
           (build_frame src dst 17 l4 payload_len (pw_max_written_payload w)) w)"

section \<open>Words and bytes\<close>

lemma length_be_bytes [simp]: "length (be_bytes n w) = n"
  by (simp add: be_bytes_def)

lemma be_word_be_bytes [simp]: "LENGTH('a::len) = 8 * n \<Longrightarrow> be_word (be_bytes n (w :: 'a word)) = w"
  by (simp add: be_word_def be_bytes_def)

lemma be_bytes_2: "\<exists>x y. be_bytes 2 v = [x, y] \<and> be_word [x, y] = v" for v :: u16
proof -
  obtain x y where xy: "be_bytes 2 v = [x, y]" using length_be_bytes [of 2 v] by (auto simp: numeral_2_eq_2 length_Suc_conv simp del: length_be_bytes)
  then have "be_word [x, y] = v" using be_word_be_bytes [of 2 v] by simp
  then show ?thesis using xy by blast
qed

section \<open>Records\<close>

definition record_bytes :: "u64 \<Rightarrow> u32 \<Rightarrow> bytes \<Rightarrow> bytes" where
  "record_bytes ts original_len frame = le_bytes 4 (ucast (ts div 1000000000) :: u32) @ le_bytes 4 (ucast (ts mod 1000000000) :: u32)
     @ le_bytes 4 (of_nat (length frame) :: u32) @ le_bytes 4 original_len @ frame"

lemma write_record_output: "pw_output (write_record ts n frame w) = pw_output w @ record_bytes ts n frame"
  "pw_max_written_payload (write_record ts n frame w) = pw_max_written_payload w"
  by (simp_all add: write_record_def record_bytes_def)

definition reads_nanos :: "pcap_reader \<Rightarrow> bool" where
  "reads_nanos r \<longleftrightarrow> \<not> pr_swapped r \<and> pr_subsec_to_nanos r = 1 \<and> pr_linktype r = LINK_ETHERNET"

lemma unat_up: "unat (ucast (ucast v :: u32) :: u64) = unat v" if "unat v < 2 ^ 32" for v :: u64
  using that by (simp add: unsigned_take_bit_eq unsigned_ucast_eq take_bit_nat_eq_self)

lemma timestamp_parts:
  fixes ts :: u64
  assumes "unat ts div 1000000000 < 2 ^ 32"
  shows "ucast (ucast (ts div 1000000000) :: u32) = ts div 1000000000" "ucast (ucast (ts mod 1000000000) :: u32) = ts mod 1000000000"
    "ts mod 1000000000 < 1000000000" "ts div 1000000000 * 1000000000 + ts mod 1000000000 = ts"
proof -
  have d: "unat (ts div 1000000000) = unat ts div 1000000000" by (simp add: unat_div)
  have m: "unat (ts mod 1000000000) = unat ts mod 1000000000" by (simp add: unat_mod)
  show "ucast (ucast (ts div 1000000000) :: u32) = ts div 1000000000" using unat_up [of "ts div 1000000000"] d assms by (simp add: word_unat_eq_iff)
  have m': "unat (ts mod 1000000000) < 1000000000" unfolding m by simp
  then show "ucast (ucast (ts mod 1000000000) :: u32) = ts mod 1000000000" using unat_up [of "ts mod 1000000000"] by (simp add: word_unat_eq_iff)
  show "ts mod 1000000000 < 1000000000" using m' by (simp add: word_less_nat_alt)
  show "ts div 1000000000 * 1000000000 + ts mod 1000000000 = ts" by (rule div_mult_mod_eq)
qed

lemma read_record:
  assumes r: "reads_nanos r" and fit: "length frame \<le> 256 * 1024" "length frame \<le> unat n" and ts: "unat ts div 1000000000 < 2 ^ 32"
    and input: "pr_input r = record_bytes ts n frame @ rest"
  shows "next_packet_into r = (r\<lparr>pr_input := rest, pr_packets_read := pr_packets_read r + 1\<rparr>, Inr (Some (ts, n, frame)))"
proof -
  let ?h = "le_bytes 4 (ucast (ts div 1000000000) :: u32) @ le_bytes 4 (ucast (ts mod 1000000000) :: u32) @ le_bytes 4 (of_nat (length frame) :: u32) @ le_bytes 4 n"
  have rd: "read_exact 16 (pr_input r) = Some (?h, frame @ rest)" unfolding input record_bytes_def by (simp add: read_exact_def)
  have at: "u32_at False ?h 0 = ucast (ts div 1000000000)" "u32_at False ?h 4 = ucast (ts mod 1000000000)"
    "u32_at False ?h 8 = of_nat (length frame)" "u32_at False ?h 12 = n" by (simp_all add: u32_at_def Let_def)
  have len: "unat (of_nat (length frame) :: u32) = length frame" using fit(1) by (simp add: unat_of_nat)
  have body: "read_exact (length frame) (frame @ rest) = Some (frame, rest)" by (simp add: read_exact_def)
  have sw: "pr_swapped r = False" "pr_subsec_to_nanos r = 1" using r by (simp_all add: reads_nanos_def)
  show ?thesis unfolding next_packet_into_def rd option.case prod.case Let_def sw at len
    using fit timestamp_parts [OF ts] body by (simp add: sw not_le)
qed

section \<open>Frames\<close>

lemma parse_ipv4_frame:
  fixes t :: u16
  assumes t: "20 \<le> unat t" "unat t \<le> wire" and pay: "length pay \<le> unat t - 20" and l4: "parse_l4 proto pay (unat t - 20) = Some (Some info)"
  shows "parse_ipv4 ([0x45, 0] @ be_bytes 2 t @ [0, 0, 0x40, 0] @ [64, proto] @ [0, 0] @ be_bytes 4 s @ be_bytes 4 d @ pay) wire =
     Some (Some (FlowEvent_default\<lparr>src_ip := V4 s, dst_ip := V4 d, src_port := l4_src_port info, dst_port := l4_dst_port info,
       protocol := proto, tcp_flags := l4_tcp_flags info, ev_bytes := of_nat (unat t), packets := 1\<rparr>))"
proof -
  obtain x y where xy: "be_bytes 2 t = [x, y]" "be_word [x, y] = t" using be_bytes_2 by blast
  have cap: "min (unat t) (20 + length pay) = 20 + length pay" using t(1) pay by simp
  have frag: "(be_word [64, 0] :: u16) AND 0x1FFF = 0" by (simp add: be_word_def)
  have len: "unat (0x45 AND 0xF :: u8) = 5" by simp
  show ?thesis unfolding parse_ipv4_def xy(1)
    using t l4 cap frag len by (simp add: byte_at_def be16_at_def slice_at_def xy(2) try_some_def Let_def)
qed

lemma parse_ipv6_frame:
  fixes t :: u16
  assumes t: "0 < unat t" "40 + unat t \<le> wire" and pay: "length pay \<le> unat t" and l4: "parse_l4 proto pay (unat t) = Some (Some info)"
    and proto: "\<not> is_extension proto" "proto \<noteq> 44"
  shows "parse_ipv6 ([0x60] @ [0, 0, 0] @ be_bytes 2 t @ [proto, 64] @ be_bytes 16 s @ be_bytes 16 d @ pay) wire =
     Some (Some (FlowEvent_default\<lparr>src_ip := V6 s, dst_ip := V6 d, src_port := l4_src_port info, dst_port := l4_dst_port info,
       protocol := proto, tcp_flags := l4_tcp_flags info, ev_bytes := of_nat (40 + unat t), packets := 1\<rparr>))"
proof -
  obtain x y where xy: "be_bytes 2 t = [x, y]" "be_word [x, y] = t" using be_bytes_2 by blast
  have cap: "min (40 + unat t) (40 + length pay) = 40 + length pay" using pay by simp
  have six: "(6 :: nat) = Suc 5" by simp
  let ?data = "[0x60] @ [0, 0, 0] @ [x, y] @ [proto, 64] @ be_bytes 16 s @ be_bytes 16 d @ pay"
  have "extension_headers 6 ?data (40 + unat t) proto 40 = Some (Some (proto, info, False))"
    unfolding six extension_headers.simps using proto l4 cap by (simp add: Let_def try_some_def)
  then show ?thesis unfolding parse_ipv6_def xy(1)
    using t proto by (simp add: byte_at_def be16_at_def slice_at_def xy(2) try_some_def Let_def)
qed

lemma parse_tcp: "20 \<le> wire \<Longrightarrow> parse_l4 6 (tcp_header sport dport flags @ pay) wire = Some (Some \<lparr>l4_src_port = sport, l4_dst_port = dport, l4_tcp_flags = flags\<rparr>)"
proof -
  obtain a b where ab: "be_bytes 2 sport = [a, b]" "be_word [a, b] = sport" using be_bytes_2 by blast
  obtain c d where cd: "be_bytes 2 dport = [c, d]" "be_word [c, d] = dport" using be_bytes_2 by blast
  have h: "tcp_header sport dport flags = [a, b, c, d, 0, 0, 0, 0, 0, 0, 0, 0, 0x50, flags, 0xFF, 0xFF, 0, 0, 0, 0]"
    unfolding tcp_header_def ab(1) cd(1) by (simp add: eval_nat_numeral)
  have five: "unat (drop_bit 4 0x50 :: u8) = 5" by simp
  assume "20 \<le> wire"
  then show ?thesis unfolding parse_l4_def h using five by (simp add: byte_at_def be16_at_def Let_def ab(2) cd(2))
qed

lemma parse_udp:
  assumes "8 \<le> unat (8 + n)" "unat (8 + n) \<le> wire"
  shows "parse_l4 17 (udp_header sport dport n @ pay) wire = Some (Some \<lparr>l4_src_port = sport, l4_dst_port = dport, l4_tcp_flags = 0\<rparr>)"
proof -
  obtain a b where ab: "be_bytes 2 sport = [a, b]" "be_word [a, b] = sport" using be_bytes_2 by blast
  obtain c d where cd: "be_bytes 2 dport = [c, d]" "be_word [c, d] = dport" using be_bytes_2 by blast
  obtain e f where ef: "be_bytes 2 (8 + n) = [e, f]" "be_word [e, f] = 8 + n" using be_bytes_2 by blast
  have h: "udp_header sport dport n = [a, b, c, d, e, f, 0, 0]"
    unfolding udp_header_def ab(1) cd(1) ef(1) by (simp add: eval_nat_numeral)
  show ?thesis unfolding parse_l4_def h using assms by (simp add: byte_at_def be16_at_def Let_def ab(2) cd(2) ef(2))
qed

lemma unat_clamped: "unat (ucast (min w 65535 :: u32) :: u16) = min (unat w) 65535"
proof -
  have m: "unat (min w 65535 :: u32) = min (unat w) 65535" by (auto simp: min_def word_le_nat_alt)
  have "unat (ucast (min w 65535 :: u32) :: u16) = take_bit 16 (unat (min w 65535 :: u32))" by (simp only: unsigned_ucast_eq len_num1 len_bit0) simp
  then show ?thesis unfolding m by (simp add: take_bit_nat_eq_self)
qed

lemma unat_of_small: "a < 2 ^ 32 \<Longrightarrow> unat (of_nat a :: u32) = a"
  by (simp add: unat_of_nat)

text \<open>The Ethernet header of the writer carries no VLAN tag.\<close>

lemma parse_frame_ethernet:
  assumes "length (be_bytes 2 t) = 2" "t = 0x0800 \<or> t = (0x86DD :: u16)" "14 + length body \<le> unat wire"
  shows "parse_packet_with_wire_len LINK_ETHERNET ([0x02, 0, 0, 0, 0, 1] @ [0x02, 0, 0, 0, 0, 2] @ be_bytes 2 t @ body) wire =
     parse_l3 t body (unat wire - 14)"
proof -
  obtain x y where xy: "be_bytes 2 t = [x, y]" "be_word [x, y] = t" using be_bytes_2 by blast
  have two: "(2 :: nat) = Suc (Suc 0)" by simp
  have "t \<noteq> ETHERTYPE_VLAN" "t \<noteq> ETHERTYPE_QINQ" using assms(2) by (auto simp: ETHERTYPE_VLAN_def ETHERTYPE_QINQ_def)
  then have "unwrap_vlan 2 data t 14 = Some (Some (t, 14))" for data unfolding two unwrap_vlan.simps by simp
  then show ?thesis unfolding xy(1) parse_packet_with_wire_len_def parse_ethernet_def Let_def
    using assms(3) xy(2) by (simp add: byte_at_def be16_at_def try_some_def)
qed

lemma parse_frame4:
  fixes s d :: u32 and m :: nat
  assumes l4: "length l4 \<le> 65515" "20 + length l4 + unat n < 2 ^ 32"
    and ok: "\<And>pay. parse_l4 proto (l4 @ pay) (min (length l4 + unat n) 65515) = Some (Some info)"
  defines "wire \<equiv> original_frame_len (V4 s) (V4 d) (length l4) n" and "frame \<equiv> build_frame (V4 s) (V4 d) proto l4 n m"
  shows "parse_packet_with_wire_len LINK_ETHERNET frame wire =
     Some (Some (FlowEvent_default\<lparr>src_ip := V4 s, dst_ip := V4 d, src_port := l4_src_port info, dst_port := l4_dst_port info,
       protocol := proto, tcp_flags := l4_tcp_flags info, ev_bytes := of_nat (min (20 + length l4 + unat n) 65535), packets := 1\<rparr>))"
    and "length frame \<le> unat wire" "length frame \<le> 256 * 1024"
proof -
  let ?w = "20 + of_nat (length l4) + n :: u32"
  define t where "t = (ucast (min ?w 65535) :: u16)"
  define k where "k = min (min (unat n) m) (65535 - (20 + length l4))"
  have "unat ?w = 20 + length l4 + unat n" using l4 by (simp add: unat_word_ariths unat_of_nat)
  then have t: "unat t = min (20 + length l4 + unat n) 65535" unfolding t_def unat_clamped by simp
  have wire: "unat wire = 34 + length l4 + min (unat n) (65535 - (20 + length l4))"
    unfolding wire_def original_frame_len_def Let_def prod.case ip_addr.case by (subst unat_of_small) (use l4 in simp_all)
  let ?body = "[0x45, 0] @ be_bytes 2 t @ [0, 0, 0x40, 0] @ [64, proto] @ [0, 0] @ be_bytes 4 s @ be_bytes 4 d @ l4 @ replicate k 0"
  have frame: "frame = [0x02, 0, 0, 0, 0, 1] @ [0x02, 0, 0, 0, 0, 2] @ be_bytes 2 (0x0800 :: u16) @ ?body"
    unfolding frame_def build_frame_def Let_def by (simp add: t_def k_def)
  have len: "length frame = 34 + length l4 + k" unfolding frame by simp
  show fit: "length frame \<le> unat wire" unfolding len wire k_def by simp
  show "length frame \<le> 256 * 1024" unfolding len k_def using l4 by simp
  have "parse_packet_with_wire_len LINK_ETHERNET frame wire = parse_l3 0x0800 ?body (unat wire - 14)"
    unfolding frame by (rule parse_frame_ethernet) (use fit in \<open>simp_all add: frame\<close>)
  also have "\<dots> = parse_ipv4 ?body (unat wire - 14)" by (simp add: parse_l3_def ETHERTYPE_IPV4_def)
  also have "\<dots> = Some (Some (FlowEvent_default\<lparr>src_ip := V4 s, dst_ip := V4 d, src_port := l4_src_port info, dst_port := l4_dst_port info,
       protocol := proto, tcp_flags := l4_tcp_flags info, ev_bytes := of_nat (unat t), packets := 1\<rparr>))"
  proof (rule parse_ipv4_frame)
    have "unat t - 20 = min (length l4 + unat n) 65515" unfolding t by simp
    then show "parse_l4 proto (l4 @ replicate k 0) (unat t - 20) = Some (Some info)" using ok by simp
  qed (use l4 in \<open>simp_all add: t wire k_def\<close>)
  finally show "parse_packet_with_wire_len LINK_ETHERNET frame wire =
     Some (Some (FlowEvent_default\<lparr>src_ip := V4 s, dst_ip := V4 d, src_port := l4_src_port info, dst_port := l4_dst_port info,
       protocol := proto, tcp_flags := l4_tcp_flags info, ev_bytes := of_nat (min (20 + length l4 + unat n) 65535), packets := 1\<rparr>))"
    unfolding t .
qed

lemma parse_frame6:
  fixes s d :: "128 word" and m :: nat
  assumes l4: "length l4 \<le> 65515" "0 < length l4" "length l4 + unat n < 2 ^ 32"
    and ok: "\<And>pay. parse_l4 proto (l4 @ pay) (min (length l4 + unat n) 65535) = Some (Some info)" and proto: "\<not> is_extension proto" "proto \<noteq> 44"
  defines "wire \<equiv> original_frame_len (V6 s) (V6 d) (length l4) n" and "frame \<equiv> build_frame (V6 s) (V6 d) proto l4 n m"
  shows "parse_packet_with_wire_len LINK_ETHERNET frame wire =
     Some (Some (FlowEvent_default\<lparr>src_ip := V6 s, dst_ip := V6 d, src_port := l4_src_port info, dst_port := l4_dst_port info,
       protocol := proto, tcp_flags := l4_tcp_flags info, ev_bytes := of_nat (40 + min (length l4 + unat n) 65535), packets := 1\<rparr>))"
    and "length frame \<le> unat wire" "length frame \<le> 256 * 1024"
proof -
  let ?w = "of_nat (length l4) + n :: u32"
  define t where "t = (ucast (min ?w 65535) :: u16)"
  define k where "k = min (min (unat n) m) (65535 - length l4)"
  have "unat ?w = length l4 + unat n" using l4 by (simp add: unat_word_ariths unat_of_nat)
  then have t: "unat t = min (length l4 + unat n) 65535" unfolding t_def unat_clamped by simp
  have kk: "length l4 + k \<le> min (length l4 + unat n) 65535" unfolding k_def using l4(1) by linarith
  have wire: "unat wire = 54 + length l4 + min (unat n) (65535 - length l4)"
    unfolding wire_def original_frame_len_def Let_def prod.case ip_addr.case by (subst unat_of_small) (use l4 in simp_all)
  let ?body = "[0x60] @ [0, 0, 0] @ be_bytes 2 t @ [proto, 64] @ be_bytes 16 s @ be_bytes 16 d @ l4 @ replicate k 0"
  have frame: "frame = [0x02, 0, 0, 0, 0, 1] @ [0x02, 0, 0, 0, 0, 2] @ be_bytes 2 (0x86DD :: u16) @ ?body"
    unfolding frame_def build_frame_def Let_def by (simp add: t_def k_def)
  have len: "length frame = 54 + length l4 + k" unfolding frame by simp
  show fit: "length frame \<le> unat wire" unfolding len wire k_def by simp
  show "length frame \<le> 256 * 1024" unfolding len k_def using l4 by simp
  have "parse_packet_with_wire_len LINK_ETHERNET frame wire = parse_l3 0x86DD ?body (unat wire - 14)"
    unfolding frame by (rule parse_frame_ethernet) (use fit in \<open>simp_all add: frame\<close>)
  also have "\<dots> = parse_ipv6 ?body (unat wire - 14)" by (simp add: parse_l3_def ETHERTYPE_IPV4_def ETHERTYPE_IPV6_def)
  also have "\<dots> = Some (Some (FlowEvent_default\<lparr>src_ip := V6 s, dst_ip := V6 d, src_port := l4_src_port info, dst_port := l4_dst_port info,
       protocol := proto, tcp_flags := l4_tcp_flags info, ev_bytes := of_nat (40 + unat t), packets := 1\<rparr>))"
    by (rule parse_ipv6_frame) (use l4 ok proto kk in \<open>simp_all add: t wire\<close>)
  finally show "parse_packet_with_wire_len LINK_ETHERNET frame wire =
     Some (Some (FlowEvent_default\<lparr>src_ip := V6 s, dst_ip := V6 d, src_port := l4_src_port info, dst_port := l4_dst_port info,
       protocol := proto, tcp_flags := l4_tcp_flags info, ev_bytes := of_nat (40 + min (length l4 + unat n) 65535), packets := 1\<rparr>))"
    unfolding t .
qed

section \<open>Files\<close>

text \<open>The packets a writer can be asked for, and the events they stand for.\<close>

datatype packet =
    Tcp u64 ip_addr ip_addr u16 u16 u8 u32
  | Udp u64 ip_addr ip_addr u16 u16 u32

fun write_packet :: "packet \<Rightarrow> pcap_writer \<Rightarrow> pcap_writer" where
  "write_packet (Tcp ts src dst sport dport flags n) w = write_tcp_packet ts src dst sport dport flags n w"
| "write_packet (Udp ts src dst sport dport n) w = write_udp_packet ts src dst sport dport n w"

definition ip_length :: "ip_addr \<Rightarrow> nat \<Rightarrow> u32 \<Rightarrow> nat" where
  "ip_length src l4 n = (case src of V4 _ \<Rightarrow> min (20 + l4 + unat n) 65535 | V6 _ \<Rightarrow> 40 + min (l4 + unat n) 65535)"

fun packet_event :: "packet \<Rightarrow> flow_event" where
  "packet_event (Tcp ts src dst sport dport flags n) = FlowEvent_default\<lparr>ts_nanos := ts, src_ip := src, dst_ip := dst, src_port := sport,
     dst_port := dport, protocol := 6, tcp_flags := flags, ev_bytes := of_nat (ip_length src 20 n)\<rparr>"
| "packet_event (Udp ts src dst sport dport n) = FlowEvent_default\<lparr>ts_nanos := ts, src_ip := src, dst_ip := dst, src_port := sport,
     dst_port := dport, protocol := 17, tcp_flags := 0, ev_bytes := of_nat (ip_length src 8 n)\<rparr>"

text \<open>A time the file format can hold, addresses of one family, and a payload that does not overflow
  the 32-bit length of the IPv4 header or, for UDP, the 16-bit length of the datagram.\<close>

definition same_family :: "ip_addr \<Rightarrow> ip_addr \<Rightarrow> bool" where
  "same_family a b = (case (a, b) of (V4 _, V4 _) \<Rightarrow> True | (V6 _, V6 _) \<Rightarrow> True | _ \<Rightarrow> False)"

fun packet_ok :: "packet \<Rightarrow> bool" where
  "packet_ok (Tcp ts src dst sport dport flags n) \<longleftrightarrow> unat ts div 1000000000 < 2 ^ 32 \<and> same_family src dst \<and> unat n < 2 ^ 32 - 40"
| "packet_ok (Udp ts src dst sport dport n) \<longleftrightarrow> unat ts div 1000000000 < 2 ^ 32 \<and> same_family src dst
     \<and> unat n \<le> (case src of V4 _ \<Rightarrow> 65507 | V6 _ \<Rightarrow> 65527)"

lemma same_family_cases:
  assumes "same_family src dst"
  obtains (v4) s d where "src = V4 s" "dst = V4 d" | (v6) s d where "src = V6 s" "dst = V6 d"
  using assms by (auto simp: same_family_def split: ip_addr.splits)

lemma header_lengths [simp]: "length (tcp_header sport dport flags) = 20" "length (udp_header sport dport n) = 8"
  by (simp_all add: tcp_header_def udp_header_def)

lemma ip_length_pos: "0 < l4 \<Longrightarrow> (of_nat (ip_length src l4 n) :: u32) \<noteq> 0"
proof -
  assume "0 < l4"
  then have "0 < ip_length src l4 n" "ip_length src l4 n < 2 ^ 32" by (auto simp: ip_length_def split: ip_addr.split)
  then show ?thesis using unat_of_small [of "ip_length src l4 n"] by auto
qed

text \<open>What a written packet is: one record whose frame parses to the event.\<close>

definition is_record :: "packet \<Rightarrow> u64 \<Rightarrow> u32 \<Rightarrow> bytes \<Rightarrow> bool" where
  "is_record p ts n frame \<longleftrightarrow> unat ts div 1000000000 < 2 ^ 32 \<and> length frame \<le> unat n \<and> length frame \<le> 256 * 1024
     \<and> (\<exists>ev. parse_packet_with_wire_len LINK_ETHERNET frame n = Some (Some ev) \<and> ev_bytes ev \<noteq> 0
          \<and> ev\<lparr>ts_nanos := ts, direction := Unknown\<rparr> = packet_event p)"

lemma tcp_record:
  assumes "packet_ok (Tcp ts src dst sport dport flags n)"
  shows "is_record (Tcp ts src dst sport dport flags n) ts (original_frame_len src dst 20 n)
     (build_frame src dst 6 (tcp_header sport dport flags) n m)"
proof -
  let ?l4 = "tcp_header sport dport flags" and ?info = "\<lparr>l4_src_port = sport, l4_dst_port = dport, l4_tcp_flags = flags\<rparr>"
  have fam: "same_family src dst" and ts: "unat ts div 1000000000 < 2 ^ 32" and n: "unat n < 2 ^ 32 - 40" using assms by auto
  note pos = ip_length_pos [of 20 src n]
  from fam show ?thesis
  proof (cases rule: same_family_cases)
    case (v4 s d)
    have "parse_l4 6 (?l4 @ pay) (min (length ?l4 + unat n) 65515) = Some (Some ?info)" for pay by (rule parse_tcp) simp
    note f = parse_frame4 [of ?l4 n 6 ?info s d m, OF _ _ this]
    show ?thesis unfolding is_record_def v4 using f ts n pos by (auto simp: v4 ip_length_def FlowEvent_default_def)
  next
    case (v6 s d)
    have "parse_l4 6 (?l4 @ pay) (min (length ?l4 + unat n) 65535) = Some (Some ?info)" for pay by (rule parse_tcp) simp
    note f = parse_frame6 [of ?l4 n 6 ?info s d m, OF _ _ _ this]
    show ?thesis unfolding is_record_def v6 using f ts n pos by (auto simp: v6 ip_length_def FlowEvent_default_def is_extension_def)
  qed
qed

lemma udp_record:
  assumes "packet_ok (Udp ts src dst sport dport n)"
  shows "is_record (Udp ts src dst sport dport n) ts (original_frame_len src dst 8 n)
     (build_frame src dst 17 (udp_header sport dport (ucast n)) n m)"
proof -
  let ?l4 = "udp_header sport dport (ucast n)" and ?info = "\<lparr>l4_src_port = sport, l4_dst_port = dport, l4_tcp_flags = 0\<rparr>"
  have fam: "same_family src dst" and ts: "unat ts div 1000000000 < 2 ^ 32" and n: "unat n \<le> (case src of V4 _ \<Rightarrow> 65507 | V6 _ \<Rightarrow> 65527)"
    using assms by auto
  then have "unat n \<le> 65527" by (auto split: ip_addr.splits)
  moreover have "unat (ucast n :: u16) = take_bit 16 (unat n)" by (simp only: unsigned_ucast_eq len_num1 len_bit0) simp
  ultimately have "unat (ucast n :: u16) = unat n" by (simp add: take_bit_nat_eq_self)
  then have len: "unat (8 + ucast n :: u16) = 8 + unat n" using \<open>unat n \<le> 65527\<close> by (simp add: unat_word_ariths)
  note pos = ip_length_pos [of 8 src n]
  from fam show ?thesis
  proof (cases rule: same_family_cases)
    case (v4 s d)
    have "parse_l4 17 (?l4 @ pay) (min (length ?l4 + unat n) 65515) = Some (Some ?info)" for pay
      by (rule parse_udp) (use len n v4 in simp_all)
    note f = parse_frame4 [of ?l4 n 17 ?info s d m, OF _ _ this]
    show ?thesis unfolding is_record_def v4 using f ts n pos by (auto simp: v4 ip_length_def FlowEvent_default_def)
  next
    case (v6 s d)
    have "parse_l4 17 (?l4 @ pay) (min (length ?l4 + unat n) 65535) = Some (Some ?info)" for pay
      by (rule parse_udp) (use len n v6 in simp_all)
    note f = parse_frame6 [of ?l4 n 17 ?info s d m, OF _ _ _ this]
    show ?thesis unfolding is_record_def v6 using f ts n pos by (auto simp: v6 ip_length_def FlowEvent_default_def is_extension_def)
  qed
qed

lemma write_packet_record:
  assumes "packet_ok p"
  shows "\<exists>ts n frame. write_packet p w = write_record ts n frame w \<and> is_record p ts n frame"
proof (cases p)
  case (Tcp ts src dst sport dport flags n)
  then show ?thesis using tcp_record [of ts src dst sport dport flags n "pw_max_written_payload w"] assms
    by (auto simp: write_tcp_packet_def Let_def)
next
  case (Udp ts src dst sport dport n)
  then show ?thesis using udp_record [of ts src dst sport dport n "pw_max_written_payload w"] assms
    by (auto simp: write_udp_packet_def Let_def)
qed

lemma write_packets_output:
  assumes "\<forall>p \<in> set ps. packet_ok p"
  shows "\<exists>rs. list_all2 (\<lambda>p (ts, n, frame). is_record p ts n frame) ps rs
     \<and> pw_output (fold write_packet ps w) = pw_output w @ concat (map (\<lambda>(ts, n, frame). record_bytes ts n frame) rs)"
  using assms
proof (induction ps arbitrary: w)
  case (Cons p ps)
  obtain ts n frame where one: "write_packet p w = write_record ts n frame w" "is_record p ts n frame"
    using write_packet_record [of p w] Cons.prems by auto
  obtain rs where rs: "list_all2 (\<lambda>p (ts, n, frame). is_record p ts n frame) ps rs"
    "pw_output (fold write_packet ps (write_packet p w)) = pw_output (write_packet p w) @ concat (map (\<lambda>(ts, n, frame). record_bytes ts n frame) rs)"
    using Cons.IH Cons.prems by fastforce
  then show ?case using one by (intro exI [of _ "(ts, n, frame) # rs"]) (simp add: write_record_output)
qed simp

text \<open>The loop of a caller that reads every event of a file.\<close>

lemma next_event_consumes:
  "next_event_into r = Some (r', Inr (Some ev)) \<Longrightarrow> length (pr_input r') < length (pr_input r)"
proof (induction r rule: next_event_into.induct)
  case (1 r)
  obtain r1 x where x: "next_packet_into r = (r1, x)" by (cases "next_packet_into r")
  show ?case
  proof (cases x)
    case (Inr y)
    with 1(2) x obtain ts n data where y: "y = Some (ts, n, data)" by (subst (asm) next_event_into.simps) (auto split: option.splits)
    have less: "length (pr_input r1) < length (pr_input r)" using next_packet_consumes x Inr y by blast
    show ?thesis
    proof (cases "parse_packet_with_wire_len (pr_linktype r) data n")
      case (Some z)
      then show ?thesis
      proof (cases z)
        case None
        then have "next_event_into r1 = Some (r', Inr (Some ev))" using 1(2) x Inr y Some by (subst (asm) next_event_into.simps) simp
        then show ?thesis using 1(1) x Inr y Some None less by fastforce
      next
        case (Some e)
        then show ?thesis using 1(2) x Inr y \<open>_ = Some z\<close> less by (subst (asm) next_event_into.simps) auto
      qed
    qed (use 1(2) x Inr y in \<open>subst (asm) next_event_into.simps, simp\<close>)
  qed (use 1(2) x in \<open>subst (asm) next_event_into.simps, simp\<close>)
qed

function read_events :: "pcap_reader \<Rightarrow> (pcap_error + flow_event list) option" where
  "read_events r =
     (case next_event_into r of
        None \<Rightarrow> None
      | Some (r', Inl e) \<Rightarrow> Some (Inl e)
      | Some (r', Inr None) \<Rightarrow> Some (Inr [])
      | Some (r', Inr (Some ev)) \<Rightarrow> map_option (map_sum id (Cons ev)) (read_events r'))"
  by pat_completeness auto
termination
  by (relation "measure (\<lambda>r. length (pr_input r))") (auto dest: next_event_consumes)

declare read_events.simps [simp del]

lemma next_event_total: "\<exists>r' x. next_event_into r = Some (r', x)"
proof (induction r rule: next_event_into.induct)
  case (1 r)
  obtain r1 x where x: "next_packet_into r = (r1, x)" by (cases "next_packet_into r")
  show ?case
  proof (cases "\<exists>ts n data. x = Inr (Some (ts, n, data))")
    case True
    then obtain ts n data where y: "x = Inr (Some (ts, n, data))" by blast
    obtain z where z: "parse_packet_with_wire_len (pr_linktype r) data n = Some z"
      using parse_packet_safe [of "pr_linktype r" data n] by (auto simp: yields_def)
    show ?thesis
    proof (cases z)
      case None
      have "\<exists>r' x. next_event_into r1 = Some (r', x)" by (rule 1) (use x y z None in auto)
      then show ?thesis using x y z None by (subst next_event_into.simps) simp
    qed (use x y z in \<open>subst next_event_into.simps, simp\<close>)
  next
    case False
    then have "(\<exists>e. x = Inl e) \<or> x = Inr None" by (metis not_None_eq prod.collapse sum.exhaust)
    then show ?thesis using x by (subst next_event_into.simps) auto
  qed
qed

lemma read_events_total: "\<exists>x. read_events r = Some x"
proof (induction r rule: read_events.induct)
  case (1 r)
  obtain r' x where x: "next_event_into r = Some (r', x)" using next_event_total by blast
  show ?case
  proof (cases "\<exists>ev. x = Inr (Some ev)")
    case True
    then obtain ev where ev: "x = Inr (Some ev)" by blast
    have "\<exists>y. read_events r' = Some y" by (rule 1) (use x ev in auto)
    then show ?thesis using x ev by (subst read_events.simps) auto
  next
    case False
    then have "(\<exists>e. x = Inl e) \<or> x = Inr None" by (metis not_None_eq sum.exhaust)
    then show ?thesis using x by (subst read_events.simps) auto
  qed
qed

lemma read_record_event:
  assumes r: "reads_nanos r" and p: "is_record p ts n frame" and input: "pr_input r = record_bytes ts n frame @ rest"
  shows "next_event_into r = Some (r\<lparr>pr_input := rest, pr_packets_read := pr_packets_read r + 1\<rparr>, Inr (Some (packet_event p)))"
proof -
  obtain ev where ev: "parse_packet_with_wire_len LINK_ETHERNET frame n = Some (Some ev)" "ev_bytes ev \<noteq> 0"
    "ev\<lparr>ts_nanos := ts, direction := Unknown\<rparr> = packet_event p" using p by (auto simp: is_record_def)
  have "next_packet_into r = (r\<lparr>pr_input := rest, pr_packets_read := pr_packets_read r + 1\<rparr>, Inr (Some (ts, n, frame)))"
    by (rule read_record [OF r _ _ _ input]) (use p in \<open>simp_all add: is_record_def\<close>)
  moreover have "pr_linktype r = LINK_ETHERNET" using r by (simp add: reads_nanos_def)
  moreover have "ev\<lparr>ts_nanos := ts, ev_bytes := ev_bytes ev, direction := Unknown\<rparr> = packet_event p" using ev(3) by simp
  ultimately show ?thesis using ev(1,2) by (subst next_event_into.simps) simp
qed

lemma read_records:
  assumes "list_all2 (\<lambda>p (ts, n, frame). is_record p ts n frame) ps rs" "reads_nanos r"
    "pr_input r = concat (map (\<lambda>(ts, n, frame). record_bytes ts n frame) rs)"
  shows "read_events r = Some (Inr (map packet_event ps))"
  using assms
proof (induction ps rs arbitrary: r rule: list_all2_induct)
  case Nil
  then have "next_packet_into r = (r\<lparr>pr_input := []\<rparr>, Inr None)" by (simp add: next_packet_into_def read_exact_def)
  then have "next_event_into r = Some (r\<lparr>pr_input := []\<rparr>, Inr None)" by (subst next_event_into.simps) simp
  then show ?case by (subst read_events.simps) simp
next
  case (Cons p ps x rs)
  obtain ts n frame where x: "x = (ts, n, frame)" by (cases x)
  let ?r = "r\<lparr>pr_input := concat (map (\<lambda>(ts, n, frame). record_bytes ts n frame) rs), pr_packets_read := pr_packets_read r + 1\<rparr>"
  have "next_event_into r = Some (?r, Inr (Some (packet_event p)))"
    by (rule read_record_event [OF Cons.prems(1)]) (use Cons.hyps Cons.prems(2) x in auto)
  moreover have "read_events ?r = Some (Inr (map packet_event ps))"
    by (rule Cons.IH) (use Cons.prems(1) in \<open>simp_all add: reads_nanos_def\<close>)
  ultimately show ?case by (subst read_events.simps) simp
qed

lemma written_header:
  "\<exists>r. PcapReader_new (pw_output (with_payload_limit m) @ rest) = Inr r \<and> reads_nanos r \<and> pr_input r = rest"
proof -
  have "(0xA1B23C4D :: u32) \<noteq> MAGIC_USEC" by (simp add: MAGIC_USEC_def)
  then show ?thesis
    by (simp add: PcapReader_new_def with_payload_limit_def read_exact_def Let_def u32_at_def MAGIC_NSEC_def reads_nanos_def)
qed

text \<open>
  Captures round-trip.  Any packets written by a writer, compact or with full payload, over
  IPv4 or IPv6, are read back by the reader as exactly the events they stand for, in order: with
  their times, addresses, ports, flags and the byte counts of their IP headers.  The packets must
  have a time below \<open>2^32\<close> seconds, addresses of one family and a payload that fits their length
  fields.
\<close>

lemma written_packets_are_read:
  assumes "\<forall>p \<in> set ps. packet_ok p"
  shows "\<exists>r. PcapReader_new (pw_output (fold write_packet ps (with_payload_limit limit))) = Inr r
     \<and> read_events r = Some (Inr (map packet_event ps))"
proof -
  obtain rs where rs: "list_all2 (\<lambda>p (ts, n, frame). is_record p ts n frame) ps rs"
    "pw_output (fold write_packet ps (with_payload_limit limit)) =
       pw_output (with_payload_limit limit) @ concat (map (\<lambda>(ts, n, frame). record_bytes ts n frame) rs)"
    using write_packets_output [OF assms] by blast
  obtain r where "PcapReader_new (pw_output (fold write_packet ps (with_payload_limit limit))) = Inr r" "reads_nanos r"
    "pr_input r = concat (map (\<lambda>(ts, n, frame). record_bytes ts n frame) rs)"
    unfolding rs(2) using written_header [of limit] by blast
  then show ?thesis using read_records [OF rs(1)] by blast
qed

section \<open>Properties\<close>

text \<open>
  C23: Packets are parsed safely.  Whatever the captured bytes, the link type and the declared
  length, the parser returns: no index and no slice is out of range.  An event is one packet, and
  the bytes it accounts for are at most the length the packet had on the wire, so that forged
  length fields cannot inflate the measured traffic.
\<close>

theorem packets_are_parsed_safely:
  "\<exists>r. parse_packet_with_wire_len link data wire_len = Some r \<and> (\<forall>ev. r = Some ev \<longrightarrow> unat (ev_bytes ev) \<le> unat wire_len)"
  using parse_packet_safe [of link data wire_len] by (simp add: yields_def)

text \<open>
  C40: Reading a capture ends.  From every state of the reader, on arbitrary input, the loop that
  looks for the next packet it can parse returns, and so does the loop of a caller that reads all
  events: each packet consumes input, nothing panics, and the only failures are the reader's own
  errors.
\<close>

theorem reading_a_capture_ends:
  "(\<exists>r' x. next_event_into r = Some (r', x)) \<and> (\<exists>x. read_events r = Some x)"
  using next_event_total read_events_total by blast

theorem packets_are_parsed_safely_witness:
  "\<exists>ev. parse_packet_with_wire_len LINK_ETHERNET (build_frame (V4 1) (V4 2) 6 (tcp_header 40000 443 0x18) 1200 64) (original_frame_len (V4 1) (V4 2) 20 1200)
       = Some (Some ev) \<and> unat (ev_bytes ev) \<le> 1254"
proof -
  have "packet_ok (Tcp 0 (V4 1) (V4 2) 40000 443 0x18 1200)" by (simp add: same_family_def)
  from tcp_record [OF this, of 64] obtain ev where
    ev: "parse_packet_with_wire_len LINK_ETHERNET (build_frame (V4 1) (V4 2) 6 (tcp_header 40000 443 0x18) 1200 64) (original_frame_len (V4 1) (V4 2) 20 1200) = Some (Some ev)"
    by (auto simp: is_record_def)
  have "unat (original_frame_len (V4 1) (V4 2) 20 1200) = 1254" by (simp add: original_frame_len_def)
  then show ?thesis
    using packets_are_parsed_safely [of LINK_ETHERNET "build_frame (V4 1) (V4 2) 6 (tcp_header 40000 443 0x18) 1200 64" "original_frame_len (V4 1) (V4 2) 20 1200"] ev
    by auto
qed

text \<open>A UDP payload near \<open>2^16\<close> bytes wraps the length field that the writer stores, and the parser
  then skips the packet.\<close>

lemma oversized_udp_is_skipped: "parse_l4 17 (udp_header sport dport (ucast (65528 :: u32)) @ pay) wire = Some None"
proof -
  obtain a b where ab: "be_bytes 2 sport = [a, b]" using be_bytes_2 by blast
  obtain c d where cd: "be_bytes 2 dport = [c, d]" using be_bytes_2 by blast
  have wrapped: "(8 + ucast (65528 :: u32) :: u16) = 0" by simp
  obtain e f where ef: "be_bytes 2 (0 :: u16) = [e, f]" "be_word [e, f] = (0 :: u16)" using be_bytes_2 by blast
  have h: "udp_header sport dport (ucast (65528 :: u32)) = [a, b, c, d, e, f, 0, 0]"
    unfolding udp_header_def ab cd wrapped ef(1) by (simp add: numeral_2_eq_2)
  show ?thesis unfolding parse_l4_def h by (simp add: byte_at_def be16_at_def Let_def ef(2))
qed

end
