(* ===== verification/Sharded.thy ===== *)
theory Sharded
  imports Runtime GatewayMerge Packet
begin

text \<open>
  \<^verbatim>\<open>ShardedQueryEngine\<close> of \<^verbatim>\<open>flowsketch-runtime/src/lib.rs\<close>: several engines for the same plans, each
  fed by one receive queue or by one class of flows, whose completed windows are merged when they
  are taken.

  The engines run in parallel on a thread pool, each on its own state.  A parallel loop that may
  stop early is the relation \<open>par_try\<close>: when no engine fails all have run; when one fails the call
  reports the error of an engine that failed and each of the others has run or not.  The thread
  pool itself and pinning its workers to processors are not modelled.
\<close>

section \<open>State and dispatch\<close>

record sharded_engine =
  sh_shards :: "query_engine list"
  sh_plans :: "plan list"
  sh_hash :: hash_spec
  sh_next_balanced_shard :: nat

datatype shard_strategy = Flow | RoundRobin

text \<open>\<open>pool\<close> is the outcome of building the thread pool.\<close>

definition sh_new_inner :: "unit result \<Rightarrow> plan list \<Rightarrow> hash_spec \<Rightarrow> nat \<Rightarrow> nat list option \<Rightarrow> sharded_engine result" where
  "sh_new_inner pool plans hash shard_count worker_cpus =
     (if shard_count = 0 then Inl (InvalidParam ''runtime shard count must be at least 1'')
      else if (case worker_cpus of None \<Rightarrow> False | Some cpus \<Rightarrow> length cpus \<noteq> shard_count)
      then Inl (InvalidParam ''runtime CPU affinity lists CPUs for shard workers'')
      else if (case worker_cpus of None \<Rightarrow> False | Some cpus \<Rightarrow> \<not> distinct cpus)
      then Inl (InvalidParam ''runtime CPU affinity must not assign one CPU to multiple workers'')
      else if \<not> distinct (map (\<lambda>p. lq_name (plan_query p)) plans)
      then Inl (InvalidParam ''duplicate query name in sharded runtime'')
      else rbind pool (\<lambda>_.
           rbind (rfold (\<lambda>_ shards. rbind (qe_new plans hash) (\<lambda>eng. Inr (shards @ [eng]))) [0..<shard_count] []) (\<lambda>shards.
           Inr \<lparr>sh_shards = shards, sh_plans = plans, sh_hash = hash, sh_next_balanced_shard = 0\<rparr>)))"

definition sh_new :: "unit result \<Rightarrow> plan list \<Rightarrow> hash_spec \<Rightarrow> nat \<Rightarrow> sharded_engine result" where
  "sh_new pool plans hash shard_count = sh_new_inner pool plans hash shard_count None"

definition sh_new_with_cpu_affinity :: "unit result \<Rightarrow> plan list \<Rightarrow> hash_spec \<Rightarrow> nat \<Rightarrow> nat list \<Rightarrow> sharded_engine result" where
  "sh_new_with_cpu_affinity pool plans hash n worker_cpus = sh_new_inner pool plans hash n (Some worker_cpus)"

definition shard_count :: "sharded_engine \<Rightarrow> nat" where
  "shard_count sh = length (sh_shards sh)"

definition ipv6_octets :: "ip_addr \<Rightarrow> bytes" where
  "ipv6_octets ip = (case ip of V4 a \<Rightarrow> replicate 10 0 @ [0xFF, 0xFF] @ octets a | V6 a \<Rightarrow> be_bytes 16 a)"

definition shard_key :: "flow_event \<Rightarrow> bytes" where
  "shard_key e =
     [case (src_ip e, dst_ip e) of (V4 _, V4 _) \<Rightarrow> 4 | _ \<Rightarrow> 6] @ ipv6_octets (src_ip e) @ ipv6_octets (dst_ip e)
     @ be_bytes 2 (src_port e) @ be_bytes 2 (dst_port e) @ [protocol e]"

text \<open>The remainder by zero panics.\<close>

definition shard_for :: "sharded_engine \<Rightarrow> flow_event \<Rightarrow> nat option" where
  "shard_for sh e = (if sh_shards sh = [] then None
     else Some (unat (HashSpec_hash64 (sh_hash sh) (shard_key e)) mod length (sh_shards sh)))"

text \<open>The loop that distributes a batch, from the batches so far and the next balanced shard.\<close>

definition dispatch_event :: "sharded_engine \<Rightarrow> shard_strategy \<Rightarrow> flow_event \<Rightarrow> flow_event list list \<times> nat \<Rightarrow> (flow_event list list \<times> nat) option" where
  "dispatch_event sh strategy e = (\<lambda>(batches, next_shard).
     Option.bind
       (case strategy of
          Flow \<Rightarrow> map_option (\<lambda>s. (s, next_shard)) (shard_for sh e)
        | RoundRobin \<Rightarrow> if sh_shards sh = [] then None else Some (next_shard, (next_shard + 1) mod length (sh_shards sh)))
       (\<lambda>(s, next_shard). if s < length batches then Some (batches[s := batches ! s @ [e]], next_shard) else None))"

definition dispatch :: "sharded_engine \<Rightarrow> shard_strategy \<Rightarrow> flow_event list \<Rightarrow> (flow_event list list \<times> nat) option" where
  "dispatch sh strategy events =
     ofold (dispatch_event sh strategy) events (replicate (length (sh_shards sh)) [], sh_next_balanced_shard sh)"

section \<open>Processing\<close>

definition advance_opt :: "(u8 \<Rightarrow> u8 list \<Rightarrow> f64) \<Rightarrow> u64 option \<Rightarrow> query_engine \<Rightarrow> query_engine step" where
  "advance_opt est t eng = (case t of None \<Rightarrow> Some (eng, Inr ()) | Some t \<Rightarrow> qe_advance_to est eng t)"

fun process_all :: "(u8 \<Rightarrow> u8 list \<Rightarrow> f64) \<Rightarrow> flow_event list \<Rightarrow> query_engine \<Rightarrow> query_engine step" where
  "process_all est [] eng = Some (eng, Inr ())"
| "process_all est (e # es) eng = sbind (qe_process est eng e) (process_all est es)"

text \<open>What one worker does: seed its engine at the earliest time of the whole batch, process its
  events, advance to the latest time of the whole batch.\<close>

definition run_shard :: "(u8 \<Rightarrow> u8 list \<Rightarrow> f64) \<Rightarrow> u64 option \<Rightarrow> u64 option \<Rightarrow> flow_event list \<Rightarrow> query_engine \<Rightarrow> query_engine step" where
  "run_shard est batch_start watermark batch eng =
     sbind (advance_opt est batch_start eng) (\<lambda>eng. sbind (process_all est batch eng) (advance_opt est watermark))"

definition extreme :: "(u64 \<Rightarrow> u64 \<Rightarrow> u64) \<Rightarrow> flow_event list list \<Rightarrow> u64 option" where
  "extreme f batches = (case map ts_nanos (concat batches) of [] \<Rightarrow> None | t # ts \<Rightarrow> Some (fold f ts t))"

inductive par_try :: "('b \<Rightarrow> 's \<Rightarrow> 's step) \<Rightarrow> 'b list \<Rightarrow> 's list \<Rightarrow> 's list \<Rightarrow> unit result \<Rightarrow> bool" for f where
  all_ran: "length bs = length ss \<Longrightarrow> length ss' = length ss \<Longrightarrow> (\<And>i. i < length ss \<Longrightarrow> f (bs ! i) (ss ! i) = Some (ss' ! i, Inr ()))
     \<Longrightarrow> par_try f bs ss ss' (Inr ())"
| stopped: "length bs = length ss \<Longrightarrow> length ss' = length ss \<Longrightarrow> (\<And>i. i < length ss \<Longrightarrow> ss' ! i = ss ! i \<or> (\<exists>r. f (bs ! i) (ss ! i) = Some (ss' ! i, r)))
     \<Longrightarrow> i < length ss \<Longrightarrow> f (bs ! i) (ss ! i) = Some (ss' ! i, Inl e) \<Longrightarrow> par_try f bs ss ss' (Inl e)"

definition process_shard_refs :: "(u8 \<Rightarrow> u8 list \<Rightarrow> f64) \<Rightarrow> flow_event list list \<Rightarrow> sharded_engine \<Rightarrow> sharded_engine \<Rightarrow> unit result \<Rightarrow> bool" where
  "process_shard_refs est batches sh sh' r \<longleftrightarrow>
     (\<exists>shards. sh' = sh\<lparr>sh_shards := shards\<rparr>
        \<and> par_try (run_shard est (extreme min batches) (extreme max batches)) batches (sh_shards sh) shards r)"

definition process_shard_batches :: "(u8 \<Rightarrow> u8 list \<Rightarrow> f64) \<Rightarrow> flow_event list list \<Rightarrow> sharded_engine \<Rightarrow> sharded_engine \<Rightarrow> unit result \<Rightarrow> bool" where
  "process_shard_batches est batches sh sh' r \<longleftrightarrow>
     (if length batches \<noteq> length (sh_shards sh)
      then sh' = sh \<and> r = Inl (InvalidParam ''received shard batches for runtime shards'')
      else process_shard_refs est batches sh sh' r)"

definition process_batch_with_strategy ::
  "(u8 \<Rightarrow> u8 list \<Rightarrow> f64) \<Rightarrow> flow_event list \<Rightarrow> shard_strategy \<Rightarrow> sharded_engine \<Rightarrow> sharded_engine \<Rightarrow> unit result \<Rightarrow> bool" where
  "process_batch_with_strategy est events strategy sh sh' r \<longleftrightarrow>
     (\<exists>batches next_shard. dispatch sh strategy events = Some (batches, next_shard)
        \<and> process_shard_refs est batches (sh\<lparr>sh_next_balanced_shard := next_shard\<rparr>) sh' r)"

definition process_batch :: "(u8 \<Rightarrow> u8 list \<Rightarrow> f64) \<Rightarrow> flow_event list \<Rightarrow> sharded_engine \<Rightarrow> sharded_engine \<Rightarrow> unit result \<Rightarrow> bool" where
  "process_batch est events = process_batch_with_strategy est events Flow"

definition sh_finish :: "(u8 \<Rightarrow> u8 list \<Rightarrow> f64) \<Rightarrow> sharded_engine \<Rightarrow> sharded_engine \<Rightarrow> unit result \<Rightarrow> bool" where
  "sh_finish est sh sh' r \<longleftrightarrow>
     (\<exists>shards. sh' = sh\<lparr>sh_shards := shards\<rparr>
        \<and> par_try (\<lambda>_ eng. qe_finish est eng) (replicate (length (sh_shards sh)) ()) (sh_shards sh) shards r)"

section \<open>Taking windows\<close>

type_synonym window_key = "string \<times> u64 \<times> u64"

definition output_key :: "query_window_state \<Rightarrow> window_key" where
  "output_key out = (qws_name out, ws_start (qws_state out), ws_end (qws_state out))"

text \<open>The loop over the windows of all shards that merges equal keys.\<close>

definition merge_output ::
  "(u8 \<Rightarrow> u8 list \<Rightarrow> f64) \<Rightarrow> query_window_state \<Rightarrow> (window_key \<times> window_state) list \<Rightarrow> (window_key \<times> window_state) list outcome" where
  "merge_output est out acc =
     (case map_of acc (output_key out) of
        Some state \<Rightarrow> pbind (ws_merge_from est state (qws_state out)) (\<lambda>state. Some (Inr (bt_insert (output_key out) state acc)))
      | None \<Rightarrow> Some (Inr (bt_insert (output_key out) (qws_state out) acc)))"

text \<open>The shards are drained one after another while their windows are merged: a failed merge leaves
  the windows of the later shards where they are.\<close>

fun take_shards ::
  "(u8 \<Rightarrow> u8 list \<Rightarrow> f64) \<Rightarrow> query_engine list \<Rightarrow> (window_key \<times> window_state) list \<Rightarrow> (query_engine list \<times> (window_key \<times> window_state) list result) option" where
  "take_shards est [] acc = Some ([], Inr acc)"
| "take_shards est (eng # engs) acc =
     (let (eng', outs) = take_window_states eng
      in case pfold (merge_output est) outs acc of
           None \<Rightarrow> None
         | Some (Inl e) \<Rightarrow> Some (eng' # engs, Inl e)
         | Some (Inr acc) \<Rightarrow> map_option (\<lambda>(engs, r). (eng' # engs, r)) (take_shards est engs acc))"

text \<open>\<^verbatim>\<open>take_estimates\<close> up to the estimates: the merged windows with the plans that turn them into
  estimates.\<close>

definition with_plan :: "plan list \<Rightarrow> window_key \<times> window_state \<Rightarrow> (plan \<times> window_state) list \<Rightarrow> (plan \<times> window_state) list result" where
  "with_plan plans = (\<lambda>((name, _, _), state) out.
     case map_of (fold (\<lambda>p m. bt_insert (lq_name (plan_query p)) p m) plans []) name of
       None \<Rightarrow> Inl (InvalidParam ''missing plan for query'')
     | Some p \<Rightarrow> Inr (out @ [(p, state)]))"

definition take_merged :: "(u8 \<Rightarrow> u8 list \<Rightarrow> f64) \<Rightarrow> sharded_engine \<Rightarrow> (sharded_engine \<times> (plan \<times> window_state) list result) option" where
  "take_merged est sh =
     map_option (\<lambda>(shards, r). (sh\<lparr>sh_shards := shards\<rparr>, rbind r (\<lambda>acc. rfold (with_plan (sh_plans sh)) acc [])))
       (take_shards est (sh_shards sh) [])"

definition sh_export_snapshots :: "(u8 \<Rightarrow> u8 list \<Rightarrow> f64) \<Rightarrow> sharded_engine \<Rightarrow> snapshot_export list outcome" where
  "sh_export_snapshots est sh =
     pbind (pfold (\<lambda>eng out. pbind (current_window_states est eng) (\<lambda>ws. Some (Inr (out @ ws)))) (sh_shards sh) []) (\<lambda>outs.
     pbind (pfold (merge_output est) outs []) (\<lambda>acc.
     Some (Inr (concat (map (\<lambda>((name, _, _), state). snapshot_exports state name) acc)))))"

text \<open>The sums wrap.\<close>

definition sh_late_events :: "sharded_engine \<Rightarrow> u64" where
  "sh_late_events sh = sum_list (map qe_late_events (sh_shards sh))"

definition sh_events_processed :: "sharded_engine \<Rightarrow> u64" where
  "sh_events_processed sh = sum_list (map qe_events_processed (sh_shards sh))"

section \<open>Dispatch\<close>

lemma ofold_snoc: "ofold f (xs @ [x]) s = Option.bind (ofold f xs s) (f x)"
proof (induction xs arbitrary: s)
  case Nil
  then show ?case by (cases "f x s") auto
next
  case (Cons y ys)
  then show ?case by (cases "f y s") auto
qed

text \<open>The shard of the event at a position of the batch.\<close>

definition assigned :: "sharded_engine \<Rightarrow> shard_strategy \<Rightarrow> flow_event list \<Rightarrow> nat \<Rightarrow> nat" where
  "assigned sh strategy events j = (case strategy of
       Flow \<Rightarrow> unat (HashSpec_hash64 (sh_hash sh) (shard_key (events ! j))) mod length (sh_shards sh)
     | RoundRobin \<Rightarrow> (sh_next_balanced_shard sh + j) mod length (sh_shards sh))"

definition picked :: "sharded_engine \<Rightarrow> shard_strategy \<Rightarrow> flow_event list \<Rightarrow> nat \<Rightarrow> flow_event list" where
  "picked sh strategy events i = map ((!) events) (filter (\<lambda>j. assigned sh strategy events j = i) [0..<length events])"

lemma picked_snoc:
  "picked sh strategy (es @ [e]) i = picked sh strategy es i @ (if assigned sh strategy (es @ [e]) (length es) = i then [e] else [])"
proof -
  have old: "assigned sh strategy (es @ [e]) j = assigned sh strategy es j" if "j < length es" for j
    using that by (simp add: assigned_def nth_append split: shard_strategy.split)
  have "filter (\<lambda>j. assigned sh strategy (es @ [e]) j = i) [0..<length es] = filter (\<lambda>j. assigned sh strategy es j = i) [0..<length es]"
  proof (rule filter_cong [OF refl])
    fix j assume "j \<in> set [0..<length es]"
    then show "assigned sh strategy (es @ [e]) j = i \<longleftrightarrow> assigned sh strategy es j = i" using old [of j] by simp
  qed
  moreover have "map ((!) (es @ [e])) (filter P [0..<length es]) = map ((!) es) (filter P [0..<length es])" for P
    by (intro map_cong) (auto simp: nth_append)
  ultimately show ?thesis by (simp add: picked_def)
qed

lemma dispatch_picks:
  assumes "sh_shards sh \<noteq> []" "sh_next_balanced_shard sh < length (sh_shards sh)"
  shows "\<exists>k. dispatch sh strategy events = Some (map (picked sh strategy events) [0..<length (sh_shards sh)], k) \<and> k < length (sh_shards sh)
     \<and> (strategy = RoundRobin \<longrightarrow> k = (sh_next_balanced_shard sh + length events) mod length (sh_shards sh))"
proof (induction events rule: rev_induct)
  case Nil
  have "picked sh strategy [] = (\<lambda>_. [])" by (simp add: picked_def fun_eq_iff)
  then have "map (picked sh strategy []) [0..<length (sh_shards sh)] = replicate (length (sh_shards sh)) []" by (simp add: map_replicate_const)
  then show ?case using assms by (simp add: dispatch_def)
next
  case (snoc e es)
  let ?n = "length (sh_shards sh)" and ?s = "assigned sh strategy (es @ [e]) (length es)"
  obtain k where k: "dispatch sh strategy es = Some (map (picked sh strategy es) [0..<?n], k)" "k < ?n"
    "strategy = RoundRobin \<longrightarrow> k = (sh_next_balanced_shard sh + length es) mod ?n" using snoc by blast
  have s: "?s < ?n" using assms(1) by (simp add: assigned_def split: shard_strategy.split)
  have upd: "(map (picked sh strategy es) [0..<?n])[?s := picked sh strategy es ?s @ [e]] = map (picked sh strategy (es @ [e])) [0..<?n]"
    using s by (intro nth_equalityI) (auto simp: nth_list_update picked_snoc)
  have "\<exists>k'. dispatch_event sh strategy e (map (picked sh strategy es) [0..<?n], k) = Some (map (picked sh strategy (es @ [e])) [0..<?n], k')
      \<and> k' < ?n \<and> (strategy = RoundRobin \<longrightarrow> k' = (sh_next_balanced_shard sh + length (es @ [e])) mod ?n)"
  proof (cases strategy)
    case Flow
    then have "shard_for sh e = Some ?s" using assms(1) by (simp add: shard_for_def assigned_def)
    then show ?thesis using Flow s k(2) upd by (simp add: dispatch_event_def)
  next
    case RoundRobin
    then have "k = ?s" using k(3) by (simp add: assigned_def)
    moreover have "Suc ?s mod ?n = Suc (sh_next_balanced_shard sh + length es) mod ?n" using RoundRobin by (simp add: assigned_def mod_Suc_eq)
    ultimately show ?thesis using RoundRobin s k upd assms(1) by (simp add: dispatch_event_def)
  qed
  then show ?case using k(1) by (simp add: dispatch_def ofold_snoc)
qed

section \<open>Traces of the shards\<close>

text \<open>What a worker adds to the histories of its engine.\<close>

fun process_hist :: "(u8 \<Rightarrow> u8 list \<Rightarrow> f64) \<Rightarrow> flow_event list \<Rightarrow> query_engine \<Rightarrow> history list \<Rightarrow> history list" where
  "process_hist est [] eng accs = accs"
| "process_hist est (e # es) eng accs = (case qe_process est eng e of
     Some (eng', Inr _) \<Rightarrow> process_hist est es eng' (Runtime.extend (Process e) (Inr ()) eng accs) | _ \<Rightarrow> accs)"

definition run_hist :: "(u8 \<Rightarrow> u8 list \<Rightarrow> f64) \<Rightarrow> u64 option \<Rightarrow> flow_event list \<Rightarrow> query_engine \<Rightarrow> history list \<Rightarrow> history list" where
  "run_hist est batch_start batch eng accs = (case advance_opt est batch_start eng of
     Some (eng', Inr _) \<Rightarrow> process_hist est batch eng' accs | _ \<Rightarrow> accs)"

lemma extend_err [simp]: "Runtime.extend op (Inl e) eng accs = accs"
  by (simp add: Runtime.extend_def split: engine_op.split)

lemma extend_other [simp]: "Runtime.extend (AdvanceTo t) r eng accs = accs" "Runtime.extend Finish r eng accs = accs" "Runtime.extend Drain r eng accs = accs"
  by (simp_all add: Runtime.extend_def)

lemma trace_call:
  assumes tr: "qe_trace est plans h eng accs" and ok: "\<forall>p \<in> set plans. plan_ok p"
  shows "\<exists>eng' r. qe_exec est op eng = Some (eng', r) \<and> qe_trace est plans h eng' (Runtime.extend op r eng accs)"
  using qe_exec_ok [OF qe_trace_inv [OF assms], of op] qe_trace.call [OF tr] by blast

lemma advance_opt_trace:
  assumes tr: "qe_trace est plans h eng accs" and ok: "\<forall>p \<in> set plans. plan_ok p"
  shows "\<exists>eng' r. advance_opt est t eng = Some (eng', r) \<and> qe_trace est plans h eng' accs"
proof (cases t)
  case (Some u)
  then show ?thesis using trace_call [OF assms, of "AdvanceTo u"] by (auto simp: advance_opt_def qe_exec_def)
qed (use tr in \<open>simp add: advance_opt_def\<close>)

lemma process_all_trace:
  assumes "qe_trace est plans h eng accs" "\<forall>p \<in> set plans. plan_ok p"
  shows "\<exists>eng' r. process_all est es eng = Some (eng', r) \<and> qe_trace est plans h eng' (process_hist est es eng accs)"
  using assms(1)
proof (induction es arbitrary: eng accs)
  case (Cons e es)
  obtain eng1 r where one: "qe_process est eng e = Some (eng1, r)" "qe_trace est plans h eng1 (Runtime.extend (Process e) r eng accs)"
    using trace_call [OF Cons.prems assms(2), of "Process e"] by (auto simp: qe_exec_def)
  show ?case
  proof (cases r)
    case (Inl x)
    then show ?thesis using one by simp
  next
    case (Inr u)
    then show ?thesis using one Cons.IH [of eng1 "Runtime.extend (Process e) r eng accs"] by simp
  qed
qed simp

lemma run_shard_trace:
  assumes "qe_trace est plans h eng accs" "\<forall>p \<in> set plans. plan_ok p"
  shows "\<exists>eng' r. run_shard est t u batch eng = Some (eng', r) \<and> qe_trace est plans h eng' (run_hist est t batch eng accs)"
proof -
  obtain eng1 r1 where one: "advance_opt est t eng = Some (eng1, r1)" "qe_trace est plans h eng1 accs" using advance_opt_trace [OF assms] by blast
  show ?thesis
  proof (cases r1)
    case (Inl e)
    then show ?thesis using one by (simp add: run_shard_def run_hist_def)
  next
    case (Inr x)
    obtain eng2 r2 where two: "process_all est batch eng1 = Some (eng2, r2)" "qe_trace est plans h eng2 (process_hist est batch eng1 accs)"
      using process_all_trace [OF one(2) assms(2)] by blast
    have hist: "run_hist est t batch eng accs = process_hist est batch eng1 accs" using one Inr by (simp add: run_hist_def)
    show ?thesis
    proof (cases r2)
      case (Inl e)
      then show ?thesis using one Inr two hist by (simp add: run_shard_def)
    next
      case (Inr y)
      then show ?thesis using one \<open>r1 = Inr x\<close> two hist advance_opt_trace [OF two(2) assms(2), of u] by (auto simp: run_shard_def)
    qed
  qed
qed

text \<open>A sharded engine with the histories of its shards, after any calls.\<close>

inductive sh_trace :: "(u8 \<Rightarrow> u8 list \<Rightarrow> f64) \<Rightarrow> plan list \<Rightarrow> hash_spec \<Rightarrow> sharded_engine \<Rightarrow> history list list \<Rightarrow> bool"
  for est plans h where
  start: "sh_new_inner pool plans h n cpus = Inr sh \<Longrightarrow> sh_trace est plans h sh (replicate n (replicate (length plans) []))"
| batches: "sh_trace est plans h sh accss \<Longrightarrow> process_shard_refs est bs (sh\<lparr>sh_next_balanced_shard := k\<rparr>) sh' r \<Longrightarrow> k < length (sh_shards sh)
     \<Longrightarrow> length accss' = length accss
     \<Longrightarrow> (\<And>i. i < length accss \<Longrightarrow> sh_shards sh' ! i = sh_shards sh ! i \<and> accss' ! i = accss ! i
           \<or> (\<exists>r. run_shard est (extreme min bs) (extreme max bs) (bs ! i) (sh_shards sh ! i) = Some (sh_shards sh' ! i, r))
              \<and> accss' ! i = run_hist est (extreme min bs) (bs ! i) (sh_shards sh ! i) (accss ! i))
     \<Longrightarrow> sh_trace est plans h sh' accss'"
| finish: "sh_trace est plans h sh accss \<Longrightarrow> sh_finish est sh sh' r \<Longrightarrow> sh_trace est plans h sh' accss"
| take: "sh_trace est plans h sh accss \<Longrightarrow> take_merged est sh = Some (sh', r) \<Longrightarrow> sh_trace est plans h sh' accss"

definition sh_ok :: "(u8 \<Rightarrow> u8 list \<Rightarrow> f64) \<Rightarrow> plan list \<Rightarrow> hash_spec \<Rightarrow> sharded_engine \<Rightarrow> history list list \<Rightarrow> bool" where
  "sh_ok est plans h sh accss \<longleftrightarrow> sh_plans sh = plans \<and> sh_shards sh \<noteq> [] \<and> sh_next_balanced_shard sh < length (sh_shards sh)
     \<and> distinct (map (\<lambda>p. lq_name (plan_query p)) plans)
     \<and> list_all2 (\<lambda>eng accs. qe_trace est plans h eng accs) (sh_shards sh) accss"

lemma par_try_exists:
  assumes "length bs = length ss" "\<And>i. i < length ss \<Longrightarrow> \<exists>s' r. f (bs ! i) (ss ! i) = Some (s', r)"
  shows "\<exists>ss' r. par_try f bs ss ss' r"
proof -
  have "\<forall>i. \<exists>p. i < length ss \<longrightarrow> f (bs ! i) (ss ! i) = Some p" using assms(2) by blast
  then obtain g where g: "\<And>i. i < length ss \<Longrightarrow> f (bs ! i) (ss ! i) = Some (g i)" by metis
  let ?ss = "map (\<lambda>i. fst (g i)) [0..<length ss]"
  show ?thesis
  proof (cases "\<exists>i e. i < length ss \<and> snd (g i) = Inl e")
    case True
    then obtain i e where i: "i < length ss" "snd (g i) = Inl e" by blast
    have "par_try f bs ss ?ss (Inl e)"
    proof (rule par_try.stopped [OF assms(1) _ _ i(1)])
      show "f (bs ! i) (ss ! i) = Some (?ss ! i, Inl e)" using g [OF i(1)] i by (simp add: prod_eq_iff)
      show "?ss ! j = ss ! j \<or> (\<exists>r. f (bs ! j) (ss ! j) = Some (?ss ! j, r))" if "j < length ss" for j
        using g [OF that] that by (metis add_0 diff_zero length_upt nth_map nth_upt prod.collapse)
    qed simp
    then show ?thesis by blast
  next
    case False
    have "f (bs ! i) (ss ! i) = Some (?ss ! i, Inr ())" if "i < length ss" for i
    proof -
      have "snd (g i) = Inr ()" using False that by (cases "snd (g i)") auto
      then show ?thesis using g [OF that] that by (simp add: prod_eq_iff)
    qed
    then show ?thesis using par_try.all_ran [OF assms(1), of ?ss f] by auto
  qed
qed

lemma par_try_ran:
  assumes "par_try f bs ss ss' r"
  shows "length bs = length ss" "length ss' = length ss" "i < length ss \<Longrightarrow> ss' ! i = ss ! i \<or> (\<exists>r. f (bs ! i) (ss ! i) = Some (ss' ! i, r))"
  using assms by (auto elim!: par_try.cases)

lemma take_shards_state:
  assumes "take_shards est engs acc = Some (engs', r)"
  shows "list_all2 (\<lambda>eng eng'. eng' = eng \<or> eng' = fst (take_window_states eng)) engs engs'"
  using assms
proof (induction engs arbitrary: acc engs' r)
  case (Cons eng engs)
  have same: "list_all2 (\<lambda>eng eng'. eng' = eng \<or> eng' = fst (take_window_states eng)) engs engs" by (simp add: list_all2_conv_all_nth)
  obtain eng1 outs where w: "take_window_states eng = (eng1, outs)" by fastforce
  from Cons.prems Cons.IH same w show ?case by (fastforce split: option.splits sum.splits)
qed simp

lemma take_merged_state:
  assumes "take_merged est sh = Some (sh', r)"
  obtains shards where "sh' = sh\<lparr>sh_shards := shards\<rparr>" "list_all2 (\<lambda>eng eng'. eng' = eng \<or> eng' = fst (take_window_states eng)) (sh_shards sh) shards"
  using assms take_shards_state [of est "sh_shards sh" "[]"] by (auto simp: take_merged_def)

lemma sh_new_ok:
  assumes "sh_new_inner pool plans h n cpus = Inr sh"
  shows "sh_ok est plans h sh (replicate n (replicate (length plans) []))"
proof -
  have guards: "0 < n" "distinct (map (\<lambda>p. lq_name (plan_query p)) plans)" using assms by (auto simp: sh_new_inner_def split: if_splits)
  obtain shards where run: "rfold (\<lambda>_ shards. rbind (qe_new plans h) (\<lambda>eng. Inr (shards @ [eng]))) [0..<n] [] = Inr shards"
    and sh: "sh = \<lparr>sh_shards = shards, sh_plans = plans, sh_hash = h, sh_next_balanced_shard = 0\<rparr>"
    using assms by (auto simp: sh_new_inner_def rbind_Inr_iff split: if_splits)
  have "length ss = length acc + length xs \<and> (\<forall>eng \<in> set ss. eng \<in> set acc \<or> qe_new plans h = Inr eng)"
    if "rfold (\<lambda>_ shards. rbind (qe_new plans h) (\<lambda>eng. Inr (shards @ [eng]))) xs acc = Inr ss" for xs :: "nat list" and acc ss
    using that by (induction xs arbitrary: acc) (fastforce simp: rbind_Inr_iff)+
  from this [OF run] have len: "length shards = n" and new: "\<forall>eng \<in> set shards. qe_new plans h = Inr eng" by simp_all
  have "length (qe_queries eng) = length plans" if "qe_new plans h = Inr eng" for eng
  proof -
    have "length qs = length rs + length ps" if "rfold (qe_add_plan h) ps rs = Inr qs" for ps rs qs
      using that by (induction ps arbitrary: rs) (fastforce simp: qe_add_plan_def rbind_Inr_iff split: if_splits)+
    from this [of plans "[]"] that show ?thesis by (auto simp: qe_new_def rbind_Inr_iff)
  qed
  then have "qe_trace est plans h eng (replicate (length plans) [])" if "eng \<in> set shards" for eng
    using qe_trace.start [of plans h eng est] new that by simp
  then show ?thesis using guards len sh by (auto simp: sh_ok_def list_all2_conv_all_nth)
qed

lemma sh_trace_ok:
  assumes "sh_trace est plans h sh accss" "\<forall>p \<in> set plans. plan_ok p"
  shows "sh_ok est plans h sh accss"
  using assms(1)
proof (induction rule: sh_trace.induct)
  case (start pool n cpus sh)
  then show ?case by (rule sh_new_ok)
next
  case (batches sh accss bs k sh' r accss')
  let ?f = "run_shard est (extreme min bs) (extreme max bs)"
  obtain ss where ss: "sh' = sh\<lparr>sh_next_balanced_shard := k, sh_shards := ss\<rparr>" "par_try ?f bs (sh_shards sh) ss r"
    using batches.hyps(2) by (auto simp: process_shard_refs_def)
  note ran = par_try_ran [OF ss(2)]
  have tr: "list_all2 (qe_trace est plans h) (sh_shards sh) accss" using batches.IH by (simp add: sh_ok_def)
  have "qe_trace est plans h (ss ! i) (accss' ! i)" if "i < length ss" for i
  proof -
    have i: "i < length accss" "qe_trace est plans h (sh_shards sh ! i) (accss ! i)" using tr that ran(2) by (simp_all add: list_all2_conv_all_nth)
    from batches.hyps(5) [OF i(1)] show ?thesis
      using ss(1) i(2) run_shard_trace [OF i(2) assms(2), of "extreme min bs" "extreme max bs" "bs ! i"] by auto
  qed
  moreover have "length accss' = length ss" using tr batches.hyps(4) ran(2) by (simp add: list_all2_lengthD)
  ultimately show ?case using batches.IH ss(1) ran(2) batches.hyps(3) by (auto simp: sh_ok_def list_all2_conv_all_nth)
next
  case (finish sh accss sh' r)
  obtain ss where ss: "sh' = sh\<lparr>sh_shards := ss\<rparr>" "par_try (\<lambda>_ eng. qe_finish est eng) (replicate (length (sh_shards sh)) ()) (sh_shards sh) ss r"
    using finish.hyps(2) by (auto simp: sh_finish_def)
  note ran = par_try_ran [OF ss(2)]
  have tr: "list_all2 (qe_trace est plans h) (sh_shards sh) accss" using finish.IH by (simp add: sh_ok_def)
  have "qe_trace est plans h (ss ! i) (accss ! i)" if "i < length ss" for i
  proof -
    have i: "i < length (sh_shards sh)" "qe_trace est plans h (sh_shards sh ! i) (accss ! i)" using tr that ran(2) by (simp_all add: list_all2_conv_all_nth)
    from ran(3) [OF i(1)] show ?thesis using i(2) qe_trace.call [OF i(2), of Finish] by (auto simp: qe_exec_def)
  qed
  then show ?case using finish.IH ss(1) ran(2) tr by (auto simp: sh_ok_def list_all2_conv_all_nth)
next
  case (take sh accss sh' r)
  have "qe_trace est plans h (fst (take_window_states eng)) accs" if "qe_trace est plans h eng accs" for eng accs
    using qe_trace.call [OF that, of Drain] by (simp add: qe_exec_def)
  moreover obtain shards where sh: "sh' = sh\<lparr>sh_shards := shards\<rparr>"
    "list_all2 (\<lambda>eng eng'. eng' = eng \<or> eng' = fst (take_window_states eng)) (sh_shards sh) shards" using take_merged_state [OF take.hyps(2)] .
  ultimately have "qe_trace est plans h (shards ! i) (accss ! i)" if "i < length shards" for i
    using take.IH that by (fastforce simp: sh_ok_def list_all2_conv_all_nth)
  then show ?case using take.IH sh by (auto simp: sh_ok_def list_all2_conv_all_nth)
qed

section \<open>Merging the windows of the shards\<close>

text \<open>Every query of an engine keeps the plan and the hash it was made with.\<close>

lemma trace_plans:
  assumes "qe_trace est plans h eng accs" "\<forall>p \<in> set plans. plan_ok p"
  shows "map rq_plan (qe_queries eng) = plans \<and> (\<forall>q \<in> set (qe_queries eng). rq_hash q = h)"
  using assms(1)
proof (induction rule: qe_trace.induct)
  case (start eng)
  have "map rq_plan qs = map rq_plan rs @ ps \<and> (\<forall>q \<in> set qs. q \<in> set rs \<or> rq_hash q = h)" if "rfold (qe_add_plan h) ps rs = Inr qs" for ps rs qs
    using that
  proof (induction ps arbitrary: rs)
    case (Cons p ps)
    then obtain rs' where rs': "qe_add_plan h p rs = Inr rs'" "rfold (qe_add_plan h) ps rs' = Inr qs" by (auto simp: rbind_Inr_iff)
    then obtain rq where "rs' = rs @ [rq]" "rq_new p h = Inr rq" by (auto simp: qe_add_plan_def rbind_Inr_iff split: if_splits)
    then have "rfold (qe_add_plan h) ps (rs @ [rq]) = Inr qs" "rq_new p h = Inr rq" using rs'(2) by simp_all
    then show ?case using Cons.IH [of "rs @ [rq]"] by (auto simp: rq_new_def split: prod.splits)
  qed simp
  from this [of plans "[]"] start show ?case by (auto simp: qe_new_def rbind_Inr_iff)
next
  case (call eng accs op eng' r)
  have inv: "qe_inv est eng accs" using qe_trace_inv [OF call.hyps(1) assms(2)] .
  have len: "length (qe_queries eng') = length (qe_queries eng)"
  proof -
    have "qe_inv est eng' (Runtime.extend op r eng accs)" using qe_exec_ok [OF inv, of op] call.hyps(2) by auto
    then have "length (qe_queries eng') = length (Runtime.extend op r eng accs)" "length (qe_queries eng) = length accs"
      using inv by (auto simp: qe_inv_def dest: list_all2_lengthD)
    then show ?thesis by (cases op; cases r) (simp_all add: Runtime.extend_def)
  qed
  have "rq_plan (qe_queries eng' ! i) = rq_plan (qe_queries eng ! i) \<and> rq_hash (qe_queries eng' ! i) = rq_hash (qe_queries eng ! i)"
    if i: "i < length (qe_queries eng)" for i
  proof (cases "op = Drain")
    case True
    then show ?thesis using call.hyps(2) i by (auto simp: qe_exec_def take_window_states_def)
  next
    case False
    then show ?thesis using qe_exec_ok [OF inv, of op] call.hyps(2) i by (auto simp: rq_fixed_def)
  qed
  then show ?case using call.IH len by (auto simp: list_eq_iff_nth_eq in_set_conv_nth all_set_conv_all_nth)
qed

text \<open>The completed windows of the \<open>j\<close>-th query that have given bounds, with the shards they are from.\<close>

definition completed :: "sharded_engine \<Rightarrow> nat \<Rightarrow> u64 \<times> u64 \<Rightarrow> (nat \<times> window_state) list" where
  "completed sh j t = concat (map (\<lambda>i. map (Pair i) (filter (\<lambda>w. bounds w = t) (rq_emitted (qe_queries (sh_shards sh ! i) ! j)))) [0..<length (sh_shards sh)])"

definition outputs :: "sharded_engine \<Rightarrow> query_window_state list" where
  "outputs sh = concat (map (\<lambda>eng. snd (take_window_states eng)) (sh_shards sh))"

lemma filter_named:
  assumes "distinct (map f qs)" "j < length qs"
  shows "filter (\<lambda>x. fst x = f (qs ! j)) (concat (map (\<lambda>q. map (Pair (f q)) (g q)) qs)) = map (Pair (f (qs ! j))) (g (qs ! j))"
  using assms
proof (induction qs arbitrary: j)
  case (Cons q qs)
  have none: "filter (\<lambda>x. fst x = f q) (concat (map (\<lambda>q. map (Pair (f q)) (g q)) qs)) = []"
  proof -
    have "f y \<noteq> f q" if "y \<in> set qs" for y using Cons.prems(1) that by (metis distinct.simps(2) image_eqI list.simps(9) set_map)
    then show ?thesis by (auto simp: filter_empty_conv)
  qed
  show ?case
  proof (cases j)
    case 0
    then show ?thesis using none by (simp add: filter_map comp_def)
  next
    case (Suc i)
    then have "f (qs ! i) \<noteq> f q" using Cons.prems by (auto simp: in_set_conv_nth image_iff) (metis nth_mem)
    then show ?thesis using Suc Cons.IH [of i] Cons.prems by (simp add: filter_map comp_def)
  qed
qed simp

lemma outputs_of_engine:
  assumes "distinct (map (\<lambda>p. lq_name (plan_query p)) plans)" "map rq_plan (qe_queries eng) = plans" "j < length plans"
  shows "map qws_state (filter (\<lambda>out. output_key out = (lq_name (plan_query (plans ! j)), s, e)) (snd (take_window_states eng)))
     = filter (\<lambda>w. bounds w = (s, e)) (rq_emitted (qe_queries eng ! j))"
proof -
  let ?f = "\<lambda>q. lq_name (plan_query (rq_plan q))" and ?mk = "\<lambda>(n, w). \<lparr>qws_name = n, qws_state = w\<rparr>"
  let ?qs = "qe_queries eng"
  have d: "distinct (map ?f ?qs)" using assms(1) unfolding assms(2) [symmetric] by (simp add: comp_def)
  have j: "j < length ?qs" "rq_plan (?qs ! j) = plans ! j" using assms(2,3) by (metis length_map, metis length_map nth_map)
  have out: "snd (take_window_states eng) = map ?mk (concat (map (\<lambda>q. map (Pair (?f q)) (rq_emitted q)) ?qs))"
    by (simp add: take_window_states_def map_concat comp_def)
  let ?all = "concat (map (\<lambda>q. map (Pair (?f q)) (rq_emitted q)) ?qs)"
  have "filter (\<lambda>out. output_key out = (?f (?qs ! j), s, e)) (map ?mk ?all)
     = map ?mk (filter (\<lambda>x. bounds (snd x) = (s, e)) (filter (\<lambda>x. fst x = ?f (?qs ! j)) ?all))"
    unfolding filter_map filter_filter by (rule arg_cong [where f = "map ?mk"], rule filter_cong [OF refl]) (auto simp: output_key_def bounds_def)
  also have "\<dots> = map ?mk (map (Pair (?f (?qs ! j))) (filter (\<lambda>w. bounds w = (s, e)) (rq_emitted (?qs ! j))))"
    unfolding filter_named [OF d j(1)] by (simp add: filter_map comp_def)
  finally have "map qws_state (filter (\<lambda>out. output_key out = (?f (?qs ! j), s, e)) (snd (take_window_states eng)))
     = map qws_state (map ?mk (map (Pair (?f (?qs ! j))) (filter (\<lambda>w. bounds w = (s, e)) (rq_emitted (?qs ! j)))))" unfolding out by simp
  then show ?thesis unfolding j(2) by (simp add: comp_def)
qed

lemma outputs_completed:
  assumes "distinct (map (\<lambda>p. lq_name (plan_query p)) plans)" "\<And>eng. eng \<in> set (sh_shards sh) \<Longrightarrow> map rq_plan (qe_queries eng) = plans" "j < length plans"
  shows "map qws_state (filter (\<lambda>out. output_key out = (lq_name (plan_query (plans ! j)), s, e)) (outputs sh)) = map snd (completed sh j (s, e))"
proof -
  let ?P = "\<lambda>out. output_key out = (lq_name (plan_query (plans ! j)), s, e)"
  have "map qws_state (filter ?P (outputs sh)) = concat (map (\<lambda>eng. map qws_state (filter ?P (snd (take_window_states eng)))) (sh_shards sh))"
    by (simp add: outputs_def filter_concat map_concat comp_def)
  also have "\<dots> = concat (map (\<lambda>eng. filter (\<lambda>w. bounds w = (s, e)) (rq_emitted (qe_queries eng ! j))) (sh_shards sh))"
    using outputs_of_engine [OF assms(1) assms(2) assms(3), of _ s e] by (metis (no_types, lifting) map_eq_conv)
  also have "\<dots> = concat (map (\<lambda>i. filter (\<lambda>w. bounds w = (s, e)) (rq_emitted (qe_queries (sh_shards sh ! i) ! j))) [0..<length (sh_shards sh)])"
    by (rule arg_cong [where f = concat]) (rule nth_equalityI, simp_all)
  also have "\<dots> = map snd (completed sh j (s, e))" by (simp add: completed_def map_concat comp_def)
  finally show ?thesis .
qed

lemma pfold_snoc: "pfold f (xs @ [x]) s = pbind (pfold f xs s) (f x)"
proof (induction xs arbitrary: s)
  case Nil
  then show ?case by (cases "f x s") (auto simp: pbind_def split: option.split sum.split)
next
  case (Cons y ys)
  show ?case
  proof (cases "f y s")
    case (Some r)
    then show ?thesis using Cons by (cases r) auto
  qed simp
qed

text \<open>Windows of one name that hold inputs of the sketch of that name merge by key, whatever their
  order, and every key gets the merge of all its windows.\<close>

lemma merge_outputs:
  assumes "\<forall>out \<in> set outs. \<exists>xs. qs_holds est (sk (qws_name out)) h (ws_state (qws_state out)) xs"
  shows "\<exists>m. pfold (merge_output est) outs [] = Some (Inr m) \<and> bt_ok m
     \<and> (\<forall>k. case map_of m k of
            None \<Rightarrow> filter (\<lambda>out. output_key out = k) outs = []
          | Some st \<Rightarrow> merge_of est (map qws_state (filter (\<lambda>out. output_key out = k) outs)) st \<and> bounds st = snd k
              \<and> (\<exists>xs. qs_holds est (sk (fst k)) h (ws_state st) xs))"
  using assms
proof (induction outs rule: rev_induct)
  case (snoc out outs)
  let ?ok = "\<lambda>outs m k. case map_of m k of
            None \<Rightarrow> filter (\<lambda>out. output_key out = k) outs = []
          | Some st \<Rightarrow> merge_of est (map qws_state (filter (\<lambda>out. output_key out = k) outs)) st \<and> bounds st = snd k
              \<and> (\<exists>xs. qs_holds est (sk (fst k)) h (ws_state st) xs)"
  let ?k = "output_key out"
  have prem: "\<forall>out \<in> set outs. \<exists>xs. qs_holds est (sk (qws_name out)) h (ws_state (qws_state out)) xs" using snoc.prems by simp
  obtain m where m: "pfold (merge_output est) outs [] = Some (Inr m)" "bt_ok m" "\<And>k. ?ok outs m k" using snoc.IH [OF prem] by blast
  obtain ys where ys: "qs_holds est (sk (fst ?k)) h (ws_state (qws_state out)) ys" using snoc.prems by (auto simp: output_key_def)
  have b: "bounds (qws_state out) = snd ?k" by (simp add: bounds_def output_key_def)
  have rest: "?ok (outs @ [out]) (bt_insert ?k st m) k" if "k \<noteq> ?k" for k st using m(3) [of k] that by (auto split: option.splits)
  have "\<exists>st. merge_output est out m = Some (Inr (bt_insert ?k st m)) \<and> ?ok (outs @ [out]) (bt_insert ?k st m) ?k"
  proof (cases "map_of m ?k")
    case None
    then have "filter (\<lambda>out'. output_key out' = ?k) outs = []" using m(3) [of ?k] by simp
    then show ?thesis using None ys b merge_of.leaf by (intro exI [of _ "qws_state out"]) (auto simp: merge_output_def)
  next
    case (Some st)
    then have st: "merge_of est (map qws_state (filter (\<lambda>out'. output_key out' = ?k) outs)) st" "bounds st = snd ?k"
      "\<exists>xs. qs_holds est (sk (fst ?k)) h (ws_state st) xs" using m(3) [of ?k] by simp_all
    then obtain xs where xs: "qs_holds est (sk (fst ?k)) h (ws_state st) xs" by blast
    obtain st' where st': "ws_merge_from est st (qws_state out) = Some (Inr st')" "qs_holds est (sk (fst ?k)) h (ws_state st') (xs @ ys)" "bounds st' = bounds st"
      using ws_merge_holds [OF xs ys] st(2) b by auto
    have "merge_of est (map qws_state (filter (\<lambda>out'. output_key out' = ?k) outs) @ [qws_state out]) st'"
      using merge_of.node [OF st(1) merge_of.leaf st'(1)] .
    then show ?thesis using Some st st' by (intro exI [of _ st']) (auto simp: merge_output_def)
  qed
  then obtain st where "merge_output est out m = Some (Inr (bt_insert ?k st m))" "?ok (outs @ [out]) (bt_insert ?k st m) ?k" by blast
  then have new: "pfold (merge_output est) (outs @ [out]) [] = Some (Inr (bt_insert ?k st m))" "?ok (outs @ [out]) (bt_insert ?k st m) ?k"
    using m(1) by (simp_all add: pfold_snoc)
  have "?ok (outs @ [out]) (bt_insert ?k st m) k" for k
  proof (cases "k = ?k")
    case True
    show ?thesis unfolding True by (rule new(2))
  next
    case False
    then show ?thesis by (rule rest)
  qed
  then show ?case using new(1) bt_ok_insert [OF m(2)] by blast
qed simp

lemma plan_lookup:
  assumes "distinct (map (\<lambda>p. lq_name (plan_query p)) plans)" "p \<in> set plans"
  shows "map_of (fold (\<lambda>p m. bt_insert (lq_name (plan_query p)) p m) plans m0) (lq_name (plan_query p)) = Some p"
  using assms
proof (induction plans arbitrary: m0)
  case (Cons a plans)
  have keep: "map_of (fold (\<lambda>p m. bt_insert (lq_name (plan_query p)) p m) ps m) k = map_of m k" if "k \<notin> (\<lambda>p. lq_name (plan_query p)) ` set ps" for ps m k
    using that by (induction ps arbitrary: m) auto
  show ?case
  proof (cases "p = a")
    case True
    then show ?thesis using Cons.prems keep [of "lq_name (plan_query a)" plans] by simp
  next
    case False
    then show ?thesis using Cons.prems Cons.IH by simp
  qed
qed simp

lemma with_plans:
  assumes "distinct (map (\<lambda>p. lq_name (plan_query p)) plans)" "\<forall>((n, s, e), st) \<in> set m. \<exists>p \<in> set plans. lq_name (plan_query p) = n"
  shows "\<exists>outs. rfold (with_plan plans) m out0 = Inr (out0 @ outs) \<and> length outs = length m
     \<and> (\<forall>i < length m. fst (outs ! i) \<in> set plans \<and> lq_name (plan_query (fst (outs ! i))) = fst (fst (m ! i)) \<and> snd (outs ! i) = snd (m ! i))"
  using assms(2)
proof (induction m arbitrary: out0)
  case (Cons x m)
  obtain n s e st where x: "x = ((n, s, e), st)" by (metis prod.exhaust)
  obtain p where p: "p \<in> set plans" "lq_name (plan_query p) = n" using Cons.prems x by auto
  have one: "with_plan plans x out0 = Inr (out0 @ [(p, st)])" using plan_lookup [OF assms(1) p(1), of "[]"] p(2) x by (simp add: with_plan_def)
  have tail: "\<forall>((n, s, e), st) \<in> set m. \<exists>p \<in> set plans. lq_name (plan_query p) = n" using Cons.prems by auto
  obtain outs where outs: "rfold (with_plan plans) m (out0 @ [(p, st)]) = Inr ((out0 @ [(p, st)]) @ outs)" "length outs = length m"
     "\<forall>i < length m. fst (outs ! i) \<in> set plans \<and> lq_name (plan_query (fst (outs ! i))) = fst (fst (m ! i)) \<and> snd (outs ! i) = snd (m ! i)"
    using Cons.IH [OF tail, of "out0 @ [(p, st)]"] by blast
  have "fst (((p, st) # outs) ! i) \<in> set plans \<and> lq_name (plan_query (fst (((p, st) # outs) ! i))) = fst (fst ((x # m) ! i)) \<and> snd (((p, st) # outs) ! i) = snd ((x # m) ! i)"
    if "i < length (x # m)" for i using that outs(3) p x by (cases i) auto
  then show ?case using one outs(1,2) by (intro exI [of _ "(p, st) # outs"]) auto
qed simp

lemma pfold_append: "pfold f (xs @ ys) s = pbind (pfold f xs s) (pfold f ys)"
proof (induction xs arbitrary: s)
  case Nil
  show ?case by (simp add: pbind_def)
next
  case (Cons x xs)
  show ?case
  proof (cases "f x s")
    case (Some r)
    then show ?thesis using Cons by (cases r) auto
  qed simp
qed

text \<open>When all windows merge, every shard is drained and the result is the fold over all of them.\<close>

lemma take_shards_all:
  assumes "pfold (merge_output est) (concat (map (\<lambda>eng. snd (take_window_states eng)) engs)) acc = Some (Inr m)"
  shows "take_shards est engs acc = Some (map (\<lambda>eng. fst (take_window_states eng)) engs, Inr m)"
  using assms
proof (induction engs arbitrary: acc)
  case (Cons eng engs)
  obtain eng1 outs where w: "take_window_states eng = (eng1, outs)" by fastforce
  from Cons.prems w obtain acc1 where acc1: "pfold (merge_output est) outs acc = Some (Inr acc1)"
    "pfold (merge_output est) (concat (map (\<lambda>eng. snd (take_window_states eng)) engs)) acc1 = Some (Inr m)"
    by (auto simp: pfold_append pbind_def split: option.splits sum.splits)
  then show ?case using w Cons.IH [OF acc1(2)] by simp
qed simp

text \<open>The inputs of a window: those of its consecutive buckets in a history, up to when it closed.\<close>

definition shard_inputs :: "plan \<Rightarrow> history \<Rightarrow> u64 \<times> u64 \<Rightarrow> qs_input list \<Rightarrow> bool" where
  "shard_inputs p acc t xs \<longleftrightarrow> (\<exists>pre n. prefix pre acc \<and> 0 < n \<and> n \<le> pp_window_buckets (plan_physical p)
     \<and> snd t = fst t + of_nat n * slide_nanos (lq_window (plan_query p))
     \<and> xs = in_window pre (slide_nanos (lq_window (plan_query p))) (fst t) n)"

lemma emitted_holds:
  assumes "sh_ok est plans h sh accss" "\<forall>p \<in> set plans. plan_ok p" "i < length (sh_shards sh)" "j < length plans"
    and "w \<in> set (rq_emitted (qe_queries (sh_shards sh ! i) ! j))"
  shows "\<exists>xs. shard_inputs (plans ! j) (accss ! i ! j) (bounds w) xs \<and> qs_holds est (pp_sketch (plan_physical (plans ! j))) h (ws_state w) xs"
proof -
  let ?eng = "sh_shards sh ! i" and ?q = "qe_queries (sh_shards sh ! i) ! j"
  have tr: "qe_trace est plans h ?eng (accss ! i)" using assms(1,3) by (simp add: sh_ok_def list_all2_conv_all_nth)
  have len: "length (qe_queries ?eng) = length plans" using trace_plans [OF tr assms(2)] by (metis length_map)
  then have q: "rq_plan ?q = plans ! j" "rq_hash ?q = h" using trace_plans [OF tr assms(2)] assms(4) by (metis nth_map, metis nth_mem)
  have "rq_inv est ?q (accss ! i ! j)" using qe_trace_inv [OF tr assms(2)] len assms(4) by (simp add: qe_inv_def list_all2_conv_all_nth)
  then have "window_holds est ?q (accss ! i ! j) w" using assms(5) by (simp add: rq_inv_def)
  then show ?thesis using q by (auto simp: window_holds_def holds_window_def shard_inputs_def bounds_def)
qed

lemma completed_holds:
  assumes "sh_ok est plans h sh accss" "\<forall>p \<in> set plans. plan_ok p" "j < length plans"
  shows "\<exists>xss. list_all2 (\<lambda>(i, v) xs. shard_inputs (plans ! j) (accss ! i ! j) t xs) (completed sh j t) xss
     \<and> list_all2 (\<lambda>v xs. qs_holds est (pp_sketch (plan_physical (plans ! j))) h (ws_state v) xs) (map snd (completed sh j t)) xss"
proof -
  have "\<exists>xs. shard_inputs (plans ! j) (accss ! fst c ! j) t xs \<and> qs_holds est (pp_sketch (plan_physical (plans ! j))) h (ws_state (snd c)) xs"
    if "c \<in> set (completed sh j t)" for c
    using that emitted_holds [OF assms(1,2) _ assms(3), of "fst c" "snd c"] by (auto simp: completed_def)
  then obtain g where g: "\<And>c. c \<in> set (completed sh j t) \<Longrightarrow> shard_inputs (plans ! j) (accss ! fst c ! j) t (g c)
     \<and> qs_holds est (pp_sketch (plan_physical (plans ! j))) h (ws_state (snd c)) (g c)" by metis
  then show ?thesis by (intro exI [of _ "map g (completed sh j t)"]) (auto simp: list_all2_conv_all_nth case_prod_beta')
qed

lemma picked_mset:
  assumes "sh_shards sh \<noteq> []"
  shows "mset (concat (map (picked sh strategy events) [0..<length (sh_shards sh)])) = mset events"
proof (induction events rule: rev_induct)
  case Nil
  show ?case by (simp add: picked_def)
next
  case (snoc e es)
  let ?n = "length (sh_shards sh)" and ?a = "assigned sh strategy (es @ [e]) (length es)"
  have split: "mset (concat (map (\<lambda>i. f i @ g i) xs)) = mset (concat (map f xs)) + mset (concat (map g xs))" for f g :: "nat \<Rightarrow> flow_event list" and xs
    by (induction xs) auto
  have one: "concat (map (\<lambda>i. if a = i then [e] else []) [0..<n]) = (if a < n then [e] else [])" for a n :: nat by (induction n) auto
  have "?a < ?n" using assms by (simp add: assigned_def split: shard_strategy.split)
  then show ?case using snoc one [of ?a ?n] by (simp add: picked_snoc split)
qed

text \<open>Every call leaves an engine whose shards have histories.\<close>

lemma step_trace:
  assumes tr: "sh_trace est plans h sh accss" "\<forall>p \<in> set plans. plan_ok p"
    and run: "process_shard_refs est bs (sh\<lparr>sh_next_balanced_shard := k\<rparr>) sh' r" "k < length (sh_shards sh)"
  shows "\<exists>accss'. sh_trace est plans h sh' accss'"
proof -
  let ?f = "run_shard est (extreme min bs) (extreme max bs)"
  let ?ran = "\<lambda>i. \<exists>r. ?f (bs ! i) (sh_shards sh ! i) = Some (sh_shards sh' ! i, r)"
  let ?acc = "map (\<lambda>i. if ?ran i then run_hist est (extreme min bs) (bs ! i) (sh_shards sh ! i) (accss ! i) else accss ! i) [0..<length accss]"
  obtain ss where ss: "sh' = sh\<lparr>sh_next_balanced_shard := k, sh_shards := ss\<rparr>" "par_try ?f bs (sh_shards sh) ss r"
    using run(1) by (auto simp: process_shard_refs_def)
  have len: "length accss = length (sh_shards sh)" using sh_trace_ok [OF tr] by (auto simp: sh_ok_def dest: list_all2_lengthD)
  have "sh_shards sh' ! i = sh_shards sh ! i \<and> ?acc ! i = accss ! i
      \<or> ?ran i \<and> ?acc ! i = run_hist est (extreme min bs) (bs ! i) (sh_shards sh ! i) (accss ! i)" if "i < length accss" for i
    using par_try_ran(3) [OF ss(2)] that len ss(1) by auto
  from sh_trace.batches [OF tr(1) run _ this] show ?thesis by auto
qed

lemma shard_trace: "sh_ok est plans h sh accss \<Longrightarrow> i < length (sh_shards sh) \<Longrightarrow> qe_trace est plans h (sh_shards sh ! i) (accss ! i)"
  by (simp add: sh_ok_def list_all2_conv_all_nth)

lemma refs_end:
  assumes "sh_ok est plans h sh accss" "\<forall>p \<in> set plans. plan_ok p" "length bs = length (sh_shards sh)"
  shows "\<exists>sh' r. process_shard_refs est bs (sh\<lparr>sh_next_balanced_shard := k\<rparr>) sh' r"
proof -
  have "\<exists>s' r. run_shard est (extreme min bs) (extreme max bs) (bs ! i) (sh_shards sh ! i) = Some (s', r)" if "i < length (sh_shards sh)" for i
    using run_shard_trace [OF shard_trace [OF assms(1) that] assms(2)] by blast
  then obtain ss r where "par_try (run_shard est (extreme min bs) (extreme max bs)) bs (sh_shards sh) ss r"
    using par_try_exists [OF assms(3), of "run_shard est (extreme min bs) (extreme max bs)"] by blast
  then show ?thesis by (auto simp: process_shard_refs_def)
qed

lemma finish_end:
  assumes "sh_ok est plans h sh accss" "\<forall>p \<in> set plans. plan_ok p"
  shows "\<exists>sh' r. sh_finish est sh sh' r"
proof -
  have "\<exists>s' r. qe_finish est (sh_shards sh ! i) = Some (s', r)" if "i < length (sh_shards sh)" for i
    using trace_call [OF shard_trace [OF assms(1) that] assms(2), of Finish] by (auto simp: qe_exec_def)
  then show ?thesis using par_try_exists [of "replicate (length (sh_shards sh)) ()" "sh_shards sh" "\<lambda>_. qe_finish est"]
    by (auto simp: sh_finish_def)
qed

lemma outputs_named:
  assumes "sh_ok est plans h sh accss" "\<forall>p \<in> set plans. plan_ok p" "out \<in> set (outputs sh)"
  shows "\<exists>j < length plans. qws_name out = lq_name (plan_query (plans ! j)) \<and> qws_state out \<in> snd ` set (completed sh j (bounds (qws_state out)))"
proof -
  obtain i where i: "i < length (sh_shards sh)" "out \<in> set (snd (take_window_states (sh_shards sh ! i)))"
    using assms(3) by (auto simp: outputs_def) (metis in_set_conv_nth)
  let ?qs = "qe_queries (sh_shards sh ! i)"
  obtain j where j: "j < length ?qs" "qws_name out = lq_name (plan_query (rq_plan (?qs ! j)))" "qws_state out \<in> set (rq_emitted (?qs ! j))"
    using i(2) by (auto simp: take_window_states_def in_set_conv_nth) (metis nth_mem)
  have "map rq_plan ?qs = plans" using assms(1) i(1) trace_plans [OF _ assms(2)] by (auto simp: sh_ok_def list_all2_conv_all_nth)
  then have "j < length plans" "rq_plan (?qs ! j) = plans ! j" using j(1) by auto
  moreover have "(i, qws_state out) \<in> set (completed sh j (bounds (qws_state out)))" using i(1) j(3) by (auto simp: completed_def)
  ultimately show ?thesis using j(2) by force
qed

text \<open>The merged windows: one for every query and bounds that any shard has completed, the merge of all of them.\<close>

lemma merged_windows:
  assumes ok: "sh_ok est plans h sh accss" and pl: "\<forall>p \<in> set plans. plan_ok p"
  shows "\<exists>m. pfold (merge_output est) (outputs sh) [] = Some (Inr m) \<and> bt_ok m
     \<and> (\<forall>j < length plans. \<forall>t. case map_of m (lq_name (plan_query (plans ! j)), t) of
            None \<Rightarrow> completed sh j t = []
          | Some st \<Rightarrow> completed sh j t \<noteq> [] \<and> merge_of est (map snd (completed sh j t)) st \<and> bounds st = t)
     \<and> (\<forall>((n, t), st) \<in> set m. \<exists>j < length plans. n = lq_name (plan_query (plans ! j)))"
proof -
  let ?nm = "\<lambda>p. lq_name (plan_query p)"
  let ?sk = "\<lambda>n. the (map_of (map (\<lambda>p. (?nm p, pp_sketch (plan_physical p))) plans) n)"
  have d: "distinct (map ?nm plans)" using ok by (simp add: sh_ok_def)
  have engs: "map rq_plan (qe_queries eng) = plans" if "eng \<in> set (sh_shards sh)" for eng
    using ok that trace_plans [OF _ pl] by (auto simp: sh_ok_def list_all2_conv_all_nth in_set_conv_nth)
  have sk: "?sk (?nm (plans ! j)) = pp_sketch (plan_physical (plans ! j))" if "j < length plans" for j
  proof -
    have "map_of (map (\<lambda>p. (?nm p, pp_sketch (plan_physical p))) plans) (?nm (plans ! j)) = Some (pp_sketch (plan_physical (plans ! j)))"
      by (rule map_of_is_SomeI) (use d that in \<open>auto simp: comp_def\<close>)
    then show ?thesis by simp
  qed
  have "\<exists>xs. qs_holds est (?sk (qws_name out)) h (ws_state (qws_state out)) xs" if out: "out \<in> set (outputs sh)" for out
  proof -
    obtain j i where j: "j < length plans" "qws_name out = ?nm (plans ! j)" "i < length (sh_shards sh)" "qws_state out \<in> set (rq_emitted (qe_queries (sh_shards sh ! i) ! j))"
      using outputs_named [OF ok pl out] by (auto simp: completed_def)
    then show ?thesis using emitted_holds [OF ok pl j(3,1,4)] sk [OF j(1)] by auto
  qed
  then obtain m where m: "pfold (merge_output est) (outputs sh) [] = Some (Inr m)" "bt_ok m"
    "\<And>k. case map_of m k of
            None \<Rightarrow> filter (\<lambda>out. output_key out = k) (outputs sh) = []
          | Some st \<Rightarrow> merge_of est (map qws_state (filter (\<lambda>out. output_key out = k) (outputs sh))) st \<and> bounds st = snd k
              \<and> (\<exists>xs. qs_holds est (?sk (fst k)) h (ws_state st) xs)"
    using merge_outputs [of "outputs sh" est ?sk h] by blast
  have "case map_of m (?nm (plans ! j), t) of None \<Rightarrow> completed sh j t = []
      | Some st \<Rightarrow> completed sh j t \<noteq> [] \<and> merge_of est (map snd (completed sh j t)) st \<and> bounds st = t" if "j < length plans" for j t
    using m(3) [of "(?nm (plans ! j), t)"] outputs_completed [OF d engs that, of sh "fst t" "snd t"] merge_of_bounds
    by (auto split: option.splits)
  moreover have "\<exists>j < length plans. n = ?nm (plans ! j)" if "((n, t), st) \<in> set m" for n t st
  proof -
    have st: "map_of m (n, t) = Some st" using bt_mem_get [OF m(2)] that by simp
    then have "filter (\<lambda>out. output_key out = (n, t)) (outputs sh) \<noteq> []" using m(3) [of "(n, t)"] merge_of_bounds by fastforce
    then obtain out where "out \<in> set (outputs sh)" "output_key out = (n, t)" by (auto simp: filter_empty_conv)
    then show ?thesis using outputs_named [OF ok pl] by (force simp: output_key_def)
  qed
  ultimately show ?thesis using m(1,2) by (intro exI [of _ m]) auto
qed

lemma take_merged_ok:
  assumes ok: "sh_ok est plans h sh accss" and pl: "\<forall>p \<in> set plans. plan_ok p"
  shows "\<exists>sh' outs. take_merged est sh = Some (sh', Inr outs) \<and> (\<forall>eng \<in> set (sh_shards sh'). pending_window_count eng = 0)
     \<and> distinct (map (\<lambda>(p, w). (lq_name (plan_query p), bounds w)) outs)
     \<and> (\<forall>j < length plans. \<forall>t. (\<exists>w. (plans ! j, w) \<in> set outs \<and> bounds w = t) \<longleftrightarrow> completed sh j t \<noteq> [])
     \<and> (\<forall>(p, w) \<in> set outs. \<exists>j < length plans. p = plans ! j \<and> merge_of est (map snd (completed sh j (bounds w))) w)"
proof -
  let ?nm = "\<lambda>p. lq_name (plan_query p)"
  have d: "distinct (map ?nm plans)" using ok by (simp add: sh_ok_def)
  obtain m where m: "pfold (merge_output est) (outputs sh) [] = Some (Inr m)" "bt_ok m"
    "\<And>j t. j < length plans \<Longrightarrow> case map_of m (?nm (plans ! j), t) of None \<Rightarrow> completed sh j t = []
      | Some st \<Rightarrow> completed sh j t \<noteq> [] \<and> merge_of est (map snd (completed sh j t)) st \<and> bounds st = t"
    "\<forall>((n, t), st) \<in> set m. \<exists>j < length plans. n = ?nm (plans ! j)"
    using merged_windows [OF assms] by blast
  have at: "map_of m (?nm (plans ! j), t) = None \<longleftrightarrow> completed sh j t = []"
    "map_of m (?nm (plans ! j), t) = Some st \<Longrightarrow> merge_of est (map snd (completed sh j t)) st \<and> bounds st = t" if "j < length plans" for j t st
    using m(3) [OF that, of t] by (auto split: option.splits)
  have "\<forall>((n, s, e), st) \<in> set m. \<exists>p \<in> set plans. ?nm p = n" using m(4) by fastforce
  from with_plans [OF d this, of "[]"] obtain outs where outs: "rfold (with_plan plans) m [] = Inr outs" "length outs = length m"
     "\<And>i. i < length m \<Longrightarrow> fst (outs ! i) \<in> set plans \<and> ?nm (fst (outs ! i)) = fst (fst (m ! i)) \<and> snd (outs ! i) = snd (m ! i)" by auto
  have take: "take_merged est sh = Some (sh\<lparr>sh_shards := map (\<lambda>eng. fst (take_window_states eng)) (sh_shards sh)\<rparr>, Inr outs)"
    using take_shards_all [OF m(1) [unfolded outputs_def]] outs(1) ok by (simp add: take_merged_def sh_ok_def)
  have drained: "pending_window_count (fst (take_window_states eng)) = 0" for eng by (auto simp: pending_window_count_def take_window_states_def)
  have entry: "\<exists>j < length plans. fst (outs ! i) = plans ! j \<and> map_of m (?nm (plans ! j), bounds (snd (outs ! i))) = Some (snd (outs ! i))
      \<and> fst (m ! i) = (?nm (fst (outs ! i)), bounds (snd (outs ! i)))" if i: "i < length m" for i
  proof -
    obtain n t st where e: "m ! i = ((n, t), st)" by (metis prod.exhaust)
    then obtain j where j: "j < length plans" "n = ?nm (plans ! j)" using m(4) nth_mem [OF i] by fastforce
    have st: "map_of m (n, t) = Some st" using bt_mem_get [OF m(2)] nth_mem [OF i] e by simp
    have "bounds st = t" using at(2) [OF j(1)] j(2) st by simp
    moreover have "fst (outs ! i) = plans ! j" using outs(3) [OF i] e j(1,2) d by (simp add: distinct_map inj_on_def)
    ultimately show ?thesis using outs(3) [OF i] e j st by auto
  qed
  have "(?nm (fst (outs ! i)), bounds (snd (outs ! i))) = fst (m ! i)" if "i < length m" for i using entry [OF that] by metis
  then have "map (\<lambda>(p, w). (?nm p, bounds w)) outs = map fst m" using outs(2) by (simp add: list_eq_iff_nth_eq case_prod_beta')
  then have dist: "distinct (map (\<lambda>(p, w). (?nm p, bounds w)) outs)" using bt_ok_distinct [OF m(2)] by simp
  have mem: "(\<exists>w. (plans ! j, w) \<in> set outs \<and> bounds w = t) \<longleftrightarrow> completed sh j t \<noteq> []" if j: "j < length plans" for j t
  proof
    assume "\<exists>w. (plans ! j, w) \<in> set outs \<and> bounds w = t"
    then obtain i where "i < length m" "fst (outs ! i) = plans ! j" "bounds (snd (outs ! i)) = t" using outs(2) by (auto simp: in_set_conv_nth)
    then show "completed sh j t \<noteq> []" using entry [of i] at(1) [OF j, of t] by auto
  next
    assume "completed sh j t \<noteq> []"
    then obtain st where st: "map_of m (?nm (plans ! j), t) = Some st" using at(1) [OF j, of t] by auto
    then obtain i where i: "i < length m" "m ! i = ((?nm (plans ! j), t), st)" by (meson in_set_conv_nth map_of_SomeD)
    then have "?nm (fst (outs ! i)) = ?nm (plans ! j)" "fst (outs ! i) \<in> set plans" "snd (outs ! i) = st" using outs(3) [OF i(1)] by auto
    then have "outs ! i = (plans ! j, st)" using d j by (auto simp: distinct_map inj_on_def prod_eq_iff)
    then show "\<exists>w. (plans ! j, w) \<in> set outs \<and> bounds w = t" using i(1) outs(2) at(2) [OF j st] by (metis nth_mem)
  qed
  have "\<exists>j < length plans. p = plans ! j \<and> merge_of est (map snd (completed sh j (bounds w))) w" if pw: "(p, w) \<in> set outs" for p w
  proof -
    obtain i where i: "i < length m" "outs ! i = (p, w)" using pw outs(2) by (auto simp: in_set_conv_nth)
    obtain j where j: "j < length plans" "p = plans ! j" "map_of m (?nm (plans ! j), bounds w) = Some w" using entry [OF i(1)] i(2) by auto
    show ?thesis using at(2) [OF j(1,3)] j(1,2) by blast
  qed
  then have trees: "\<forall>(p, w) \<in> set outs. \<exists>j < length plans. p = plans ! j \<and> merge_of est (map snd (completed sh j (bounds w))) w"
    by (simp add: case_prod_beta)
  have "\<forall>j < length plans. \<forall>t. (\<exists>w. (plans ! j, w) \<in> set outs \<and> bounds w = t) \<longleftrightarrow> completed sh j t \<noteq> []" using mem by blast
  with take trees dist drained show ?thesis
    by (intro exI [of _ "sh\<lparr>sh_shards := map (\<lambda>eng. fst (take_window_states eng)) (sh_shards sh)\<rparr>"] exI [of _ outs] conjI) simp_all
qed


text \<open>
  C10: Dispatch partitions.  Splitting a batch over the shards never fails; the batch of a shard
  holds exactly the events assigned to it, in their order, so every event goes to one shard: the one
  its addresses, ports and protocol hash to, or the next in turn, where the turn continues from
  batch to batch.
\<close>

theorem dispatch_partitions_a_batch:
  assumes "sh_trace est plans h sh accss" "\<forall>p \<in> set plans. plan_ok p"
  shows "\<exists>batches k. dispatch sh strategy events = Some (batches, k) \<and> length batches = length (sh_shards sh)
     \<and> (\<forall>i < length batches. batches ! i = picked sh strategy events i)
     \<and> mset (concat batches) = mset events
     \<and> k < length (sh_shards sh) \<and> (strategy = RoundRobin \<longrightarrow> k = (sh_next_balanced_shard sh + length events) mod length (sh_shards sh))"
proof -
  have ok: "sh_shards sh \<noteq> []" "sh_next_balanced_shard sh < length (sh_shards sh)" using sh_trace_ok [OF assms] by (simp_all add: sh_ok_def)
  let ?bs = "map (picked sh strategy events) [0..<length (sh_shards sh)]"
  obtain k where k: "dispatch sh strategy events = Some (?bs, k)" "k < length (sh_shards sh)"
     "strategy = RoundRobin \<longrightarrow> k = (sh_next_balanced_shard sh + length events) mod length (sh_shards sh)" using dispatch_picks [OF ok] by blast
  then show ?thesis using picked_mset [OF ok(1)] by (intro exI [of _ ?bs] exI [of _ k]) auto
qed


text \<open>Two shards for the sample plan.\<close>

lemma sample_sharded:
  "\<exists>sh. sh_new (Inr ()) [sample_plan] (HashSpec_new 0) 2 = Inr sh \<and> sh_trace est [sample_plan] (HashSpec_new 0) sh [[[]], [[]]]"
proof -
  obtain eng where eng: "qe_new [sample_plan] (HashSpec_new 0) = Inr eng" using sample_engine by blast
  then obtain sh where sh: "sh_new_inner (Inr ()) [sample_plan] (HashSpec_new 0) 2 None = Inr sh" by (simp add: sh_new_inner_def upt_rec)
  then show ?thesis using sh_trace.start [OF sh, of est] by (auto simp: sh_new_def numeral_2_eq_2)
qed


theorem dispatch_partitions_a_batch_witness:
  "\<exists>sh batches k. sh_new (Inr ()) [sample_plan] (HashSpec_new 0) 2 = Inr sh \<and> dispatch sh RoundRobin [sample_event] = Some (batches, k) \<and> mset (concat batches) = {#sample_event#}"
proof -
  obtain sh where sh: "sh_new (Inr ()) [sample_plan] (HashSpec_new 0) 2 = Inr sh" "sh_trace (\<lambda>_ _. Fin 0) [sample_plan] (HashSpec_new 0) sh [[[]], [[]]]"
    using sample_sharded by blast
  from dispatch_partitions_a_batch [OF sh(2) sample_plan_ok, of RoundRobin "[sample_event]"] sh(1) show ?thesis by auto
qed


end
