(* ===== verification/Configs.thy ===== *)
theory Configs
  imports Sharded PushBatch
begin

text \<open>
  The configuration of the agent (\<^verbatim>\<open>flowsketch-agent/src/config.rs\<close>) and of the gateway
  (\<^verbatim>\<open>flowsketch-gateway/src/config.rs\<close>): validation of the deserialised files and planning of the
  configured queries.

  The YAML parser is the argument \<open>from_str\<close>, the file system the argument \<open>read\<close>.  Paths are
  strings; \<^verbatim>\<open>from_file\<close>, which resolves relative paths, is not modelled.
\<close>

section \<open>Data\<close>

datatype agent_error = ConfigError string | SourceError string | EngineError sketch_error | HttpError string | IoError string

datatype runtime_shard_strategy = Strategy_Flow | Strategy_RoundRobin

datatype af_packet_fanout_mode = Fanout_Single | Fanout_Hash | Fanout_RxQueue

definition default_af_packet_fanout_mode :: af_packet_fanout_mode where
  "default_af_packet_fanout_mode = Fanout_Single"

record cpu_affinity_config =
  capture_cpus :: "nat list"
  runtime_cpus :: "nat list"

text \<open>A pcap file; an interface with the block size, block count and retire timeout of its ring, the
  fan-out mode and group; an interface with an object file, a ring size and whether to fall back.\<close>

datatype source_config =
    Source_Pcap string
  | Source_AfPacket string u32 u32 u32 af_packet_fanout_mode u16
  | Source_Ebpf string string u32 bool

definition capture_lane_count :: "source_config \<Rightarrow> nat \<Rightarrow> nat" where
  "capture_lane_count src runtime_shards =
     (case src of Source_AfPacket _ _ _ _ mode _ \<Rightarrow> if mode \<noteq> Fanout_Single then runtime_shards else 1 | _ \<Rightarrow> 1)"

definition af_packet_fanout_lanes :: "source_config \<Rightarrow> nat \<Rightarrow> nat" where
  "af_packet_fanout_lanes src runtime_shards =
     (case src of Source_AfPacket _ _ _ _ mode _ \<Rightarrow> if mode \<noteq> Fanout_Single then runtime_shards else 0 | _ \<Rightarrow> 0)"

definition MIN_RING_BLOCK_SIZE_BYTES :: u32 where
  "MIN_RING_BLOCK_SIZE_BYTES = 64 * 1024"

definition MAX_RING_BLOCK_SIZE_BYTES :: u32 where
  "MAX_RING_BLOCK_SIZE_BYTES = 16 * 1024 * 1024"

definition MAX_RING_BYTES :: u64 where
  "MAX_RING_BYTES = 1024 * 1024 * 1024"

definition MIN_EBPF_RING_BYTES :: u32 where
  "MIN_EBPF_RING_BYTES = 64 * 1024"

definition MAX_EBPF_RING_BYTES :: u32 where
  "MAX_EBPF_RING_BYTES = 1024 * 1024 * 1024"

definition MAX_LINUX_CPU_ID :: nat where
  "MAX_LINUX_CPU_ID = 1023"

definition MAX_LINUX_INTERFACE_NAME_BYTES :: nat where
  "MAX_LINUX_INTERFACE_NAME_BYTES = 15"

definition DEFAULT_MAX_SKETCH_MEMORY_BYTES :: u64 where
  "DEFAULT_MAX_SKETCH_MEMORY_BYTES = 1024 * 1024 * 1024"

definition MIN_MAX_SKETCH_MEMORY_BYTES :: u64 where
  "MIN_MAX_SKETCH_MEMORY_BYTES = 1024 * 1024"

definition MAX_MAX_SKETCH_MEMORY_BYTES :: u64 where
  "MAX_MAX_SKETCH_MEMORY_BYTES = 1024 * 1024 * 1024 * 1024"

definition default_ring_block_size_bytes :: u32 where
  "default_ring_block_size_bytes = 1024 * 1024"

definition default_ring_block_count :: u32 where
  "default_ring_block_count = 64"

definition default_block_retire_timeout_ms :: u32 where
  "default_block_retire_timeout_ms = 64"

definition default_ebpf_ring_buffer_bytes :: u32 where
  "default_ebpf_ring_buffer_bytes = 16 * 1024 * 1024"

record raw_otlp =
  ro_endpoint :: string
  ro_interval_ms :: "u64 option"

record raw_gateway_push =
  rg_endpoint :: string
  rg_interval_ms :: "u64 option"

record raw_agent_export =
  re_otlp :: "raw_otlp option"
  re_gateway :: "raw_gateway_push option"

record raw_agent =
  ra_node_name :: "string option"
  ra_listen :: "string option"
  ra_seed :: "u64 option"
  ra_flush_interval_ms :: "u64 option"
  ra_runtime_shards :: "nat option"
  ra_runtime_batch_size :: "nat option"
  ra_max_sketch_memory_bytes :: "u64 option"
  ra_runtime_shard_strategy :: "runtime_shard_strategy option"
  ra_cpu_affinity :: "cpu_affinity_config option"
  ra_source :: source_config

record raw_config =
  rc_agent :: raw_agent
  rc_queries :: "string list"
  rc_export :: "raw_agent_export option"

record otlp_config =
  oc_endpoint :: string
  oc_interval_ms :: u64

record push_config =
  pc_endpoint :: string
  pc_interval_ms :: u64

record agent_config =
  ac_node_name :: string
  ac_listen :: string
  ac_seed :: u64
  ac_flush_interval_ms :: u64
  ac_runtime_shards :: nat
  ac_runtime_batch_size :: nat
  ac_max_sketch_memory_bytes :: u64
  ac_runtime_shard_strategy :: runtime_shard_strategy
  ac_cpu_affinity :: "cpu_affinity_config option"
  ac_source :: source_config
  ac_query_files :: "string list"
  ac_otlp :: "otlp_config option"
  ac_gateway :: "push_config option"

section \<open>Validation\<close>

text \<open>\<^verbatim>\<open>trim().is_empty()\<close>, \<^verbatim>\<open>is_power_of_two()\<close> and \<^verbatim>\<open>checked_add\<close>, \<^verbatim>\<open>checked_mul\<close> of the standard library.\<close>

definition is_blank :: "string \<Rightarrow> bool" where
  "is_blank s \<longleftrightarrow> (case utf8_decode (ascii s) of None \<Rightarrow> False | Some cs \<Rightarrow> list_all is_whitespace cs)"

definition is_power_of_two :: "u32 \<Rightarrow> bool" where
  "is_power_of_two x \<longleftrightarrow> length (filter (bit x) [0..<32]) = 1"

definition checked_add :: "u64 \<Rightarrow> u64 \<Rightarrow> u64 option" where
  "checked_add a b = (if unat a + unat b < 2 ^ 64 then Some (a + b) else None)"

definition checked_mul :: "u64 \<Rightarrow> u64 \<Rightarrow> u64 option" where
  "checked_mul a b = (if unat a * unat b < 2 ^ 64 then Some (a * b) else None)"

definition guard_err :: "bool \<Rightarrow> 'e \<Rightarrow> 'e + unit" where
  "guard_err b e = (if b then Inl e else Inr ())"

definition validate_interface :: "string \<Rightarrow> agent_error + unit" where
  "validate_interface name =
     rbind (guard_err (is_blank name) (ConfigError ''source interface must not be empty'')) (\<lambda>_.
     guard_err (MAX_LINUX_INTERFACE_NAME_BYTES < length name \<or> CHR ''/'' \<in> set name \<or> CHR 0x00 \<in> set name)
       (ConfigError ''source interface must be a Linux interface name''))"

definition validate_source :: "source_config \<Rightarrow> nat \<Rightarrow> runtime_shard_strategy \<Rightarrow> agent_error + unit" where
  "validate_source src runtime_shards strategy = (case src of
       Source_Pcap _ \<Rightarrow> Inr ()
     | Source_AfPacket name block_size block_count timeout mode _ \<Rightarrow>
         rbind (validate_interface name) (\<lambda>_.
         rbind (guard_err (\<not> (MIN_RING_BLOCK_SIZE_BYTES \<le> block_size \<and> block_size \<le> MAX_RING_BLOCK_SIZE_BYTES) \<or> \<not> is_power_of_two block_size)
           (ConfigError ''af_packet ringBlockSizeBytes must be a power of two in range'')) (\<lambda>_.
         rbind (guard_err (block_count = 0) (ConfigError ''af_packet ringBlockCount must be positive'')) (\<lambda>_.
         let ring_bytes = ucast block_size * ucast block_count;
             lanes = (if mode = Fanout_Single then 1 else runtime_shards)
         in case checked_mul ring_bytes (word_of_nat lanes) of
              None \<Rightarrow> Inl (ConfigError ''AF_PACKET ring size overflows u64'')
            | Some aggregate \<Rightarrow>
                rbind (guard_err (MAX_RING_BYTES < aggregate) (ConfigError ''aggregate AF_PACKET receive rings are too large'')) (\<lambda>_.
                rbind (guard_err (\<not> (1 \<le> timeout \<and> timeout \<le> 1000)) (ConfigError ''af_packet blockRetireTimeoutMs must be between 1 and 1000'')) (\<lambda>_.
                if mode \<noteq> Fanout_Single then
                  rbind (guard_err (runtime_shards < 2) (ConfigError ''af_packet fanoutMode requires at least two runtimeShards'')) (\<lambda>_.
                  guard_err (strategy \<noteq> Strategy_Flow) (ConfigError ''af_packet fanoutMode requires runtimeShardStrategy: flow''))
                else Inr ())))))
     | Source_Ebpf name object_path ring_bytes _ \<Rightarrow>
         rbind (validate_interface name) (\<lambda>_.
         rbind (guard_err (object_path = []) (ConfigError ''ebpf source objectPath must not be empty'')) (\<lambda>_.
         guard_err (\<not> (MIN_EBPF_RING_BYTES \<le> ring_bytes \<and> ring_bytes \<le> MAX_EBPF_RING_BYTES) \<or> \<not> is_power_of_two ring_bytes)
           (ConfigError ''ebpf ringBufferBytes must be a power of two in range''))))"

definition validate_cpu_affinity :: "cpu_affinity_config option \<Rightarrow> nat \<Rightarrow> nat \<Rightarrow> agent_error + unit" where
  "validate_cpu_affinity affinity capture_lanes runtime_shards = (case affinity of
       None \<Rightarrow> Inr ()
     | Some a \<Rightarrow>
         rbind (guard_err (length (capture_cpus a) \<noteq> capture_lanes) (ConfigError ''captureCpus must contain one CPU for each capture lane'')) (\<lambda>_.
         rbind (guard_err (list_ex (\<lambda>cpu. MAX_LINUX_CPU_ID < cpu) (capture_cpus a)) (ConfigError ''captureCpus values are out of range'')) (\<lambda>_.
         rbind (guard_err (\<not> distinct (capture_cpus a)) (ConfigError ''captureCpus must not contain duplicate CPUs'')) (\<lambda>_.
         rbind (guard_err (length (runtime_cpus a) \<noteq> runtime_shards) (ConfigError ''runtimeCpus must contain one CPU for each runtime shard'')) (\<lambda>_.
         rbind (guard_err (list_ex (\<lambda>cpu. MAX_LINUX_CPU_ID < cpu) (runtime_cpus a)) (ConfigError ''runtimeCpus values are out of range'')) (\<lambda>_.
         guard_err (\<not> distinct (runtime_cpus a)) (ConfigError ''runtimeCpus must not contain duplicate CPUs'')))))))"

definition get_or :: "'a \<Rightarrow> 'a option \<Rightarrow> 'a" where
  "get_or d x = (case x of None \<Rightarrow> d | Some v \<Rightarrow> v)"

definition check_node_name :: "string option \<Rightarrow> agent_error + unit" where
  "check_node_name name = (case name of
       None \<Rightarrow> Inr ()
     | Some n \<Rightarrow> rbind (guard_err (is_blank n) (ConfigError ''agent.nodeName must not be blank'')) (\<lambda>_.
         guard_err (MAX_NODE_NAME_BYTES < length n) (ConfigError ''agent.nodeName is too long'')))"

text \<open>\<^verbatim>\<open>AgentConfig::from_yaml\<close> after deserialisation.\<close>

definition agent_from_raw :: "raw_config \<Rightarrow> agent_error + agent_config" where
  "agent_from_raw raw =
     (let agent = rc_agent raw;
          runtime_shards = get_or 1 (ra_runtime_shards agent);
          runtime_batch_size = get_or 4096 (ra_runtime_batch_size agent);
          max_bytes = get_or DEFAULT_MAX_SKETCH_MEMORY_BYTES (ra_max_sketch_memory_bytes agent);
          strategy = get_or Strategy_Flow (ra_runtime_shard_strategy agent);
          export = get_or \<lparr>re_otlp = None, re_gateway = None\<rparr> (rc_export raw);
          otlp = map_option (\<lambda>o'. \<lparr>oc_endpoint = ro_endpoint o', oc_interval_ms = max (get_or 5000 (ro_interval_ms o')) 100\<rparr>) (re_otlp export);
          gateway = map_option (\<lambda>g. \<lparr>pc_endpoint = rg_endpoint g, pc_interval_ms = max (get_or 5000 (rg_interval_ms g)) 100\<rparr>) (re_gateway export)
      in
      rbind (guard_err (rc_queries raw = []) (ConfigError ''agent config must list at least one query file'')) (\<lambda>_.
      rbind (check_node_name (ra_node_name agent)) (\<lambda>_.
      rbind (guard_err (\<not> (1 \<le> runtime_shards \<and> runtime_shards \<le> 256)) (ConfigError ''agent.runtimeShards must be between 1 and 256'')) (\<lambda>_.
      rbind (guard_err (\<not> (1 \<le> runtime_batch_size \<and> runtime_batch_size \<le> 65536)) (ConfigError ''agent.runtimeBatchSize must be between 1 and 65536'')) (\<lambda>_.
      rbind (guard_err (\<not> (MIN_MAX_SKETCH_MEMORY_BYTES \<le> max_bytes \<and> max_bytes \<le> MAX_MAX_SKETCH_MEMORY_BYTES)) (ConfigError ''agent.maxSketchMemoryBytes is out of range'')) (\<lambda>_.
      rbind (validate_source (ra_source agent) runtime_shards strategy) (\<lambda>_.
      rbind (validate_cpu_affinity (ra_cpu_affinity agent) (capture_lane_count (ra_source agent) runtime_shards) runtime_shards) (\<lambda>_.
      rbind (guard_err (case otlp of None \<Rightarrow> False | Some o' \<Rightarrow> \<not> prefix ''http://'' (oc_endpoint o')) (ConfigError ''export.otlp.endpoint must be http://'')) (\<lambda>_.
      rbind (guard_err (case gateway of None \<Rightarrow> False | Some g \<Rightarrow> \<not> prefix ''http://'' (pc_endpoint g)) (ConfigError ''export.gateway.endpoint must be http://'')) (\<lambda>_.
      rbind (guard_err (gateway \<noteq> None \<and> ra_node_name agent = None) (ConfigError ''agent.nodeName must be set when export.gateway is configured'')) (\<lambda>_.
      Inr \<lparr>ac_node_name = get_or ''unknown'' (ra_node_name agent), ac_listen = get_or ''127.0.0.1:9464'' (ra_listen agent),
        ac_seed = get_or 0 (ra_seed agent), ac_flush_interval_ms = max (get_or 1000 (ra_flush_interval_ms agent)) 10,
        ac_runtime_shards = runtime_shards, ac_runtime_batch_size = runtime_batch_size, ac_max_sketch_memory_bytes = max_bytes,
        ac_runtime_shard_strategy = strategy, ac_cpu_affinity = ra_cpu_affinity agent, ac_source = ra_source agent,
        ac_query_files = rc_queries raw, ac_otlp = otlp, ac_gateway = gateway\<rparr>)))))))))))"

definition agent_from_yaml :: "(string \<Rightarrow> string + raw_config) \<Rightarrow> string \<Rightarrow> agent_error + agent_config" where
  "agent_from_yaml from_str yaml = (case from_str yaml of Inl e \<Rightarrow> Inl (ConfigError e) | Inr raw \<Rightarrow> agent_from_raw raw)"

section \<open>Planning the configured queries\<close>

text \<open>Reading, parsing and planning one file.  Planning divides, hence the panic.\<close>

definition plan_file :: "float_ops \<Rightarrow> (string \<Rightarrow> string + string) \<Rightarrow> (string \<Rightarrow> string + raw_query) \<Rightarrow> string \<Rightarrow> (string + plan) option" where
  "plan_file fp read from_str file = (case read file of
       Inl e \<Rightarrow> Some (Inl e)
     | Inr yaml \<Rightarrow> (case parse_query_yaml from_str yaml of
         Inl (Yaml e) \<Rightarrow> Some (Inl e)
       | Inl (Invalid e) \<Rightarrow> Some (Inl e)
       | Inr query \<Rightarrow> map_option (\<lambda>r. case r of Inl (Rejected _ e) \<Rightarrow> Inl e | Inr p \<Rightarrow> Inr p) (plan_of fp query)))"

definition load_plan ::
  "(plan \<Rightarrow> bool) \<Rightarrow> float_ops \<Rightarrow> (string \<Rightarrow> string + string) \<Rightarrow> (string \<Rightarrow> string + raw_query) \<Rightarrow> string \<Rightarrow> plan list \<Rightarrow> (string + plan list) option" where
  "load_plan fits fp read from_str file plans =
     pbind (plan_file fp read from_str file) (\<lambda>p.
       if \<not> fits p then Some (Inl ''one mergeable state exceeds gateway.maxRetainedSketchBytes'')
       else if lq_name (plan_query p) \<in> (\<lambda>p. lq_name (plan_query p)) ` set plans then Some (Inl ''duplicate query name'')
       else Some (Inr (plans @ [p])))"

definition checked_sum :: "u64 list \<Rightarrow> u64 option" where
  "checked_sum xs = fold (\<lambda>x total. Option.bind total (\<lambda>t. checked_add t x)) xs (Some 0)"

definition agent_load_plans ::
  "float_ops \<Rightarrow> (string \<Rightarrow> string + string) \<Rightarrow> (string \<Rightarrow> string + raw_query) \<Rightarrow> agent_config \<Rightarrow> (agent_error + plan list) option" where
  "agent_load_plans fp read from_str cfg =
     map_option (map_sum ConfigError id)
       (pbind (pfold (load_plan (\<lambda>_. True) fp read from_str) (ac_query_files cfg) []) (\<lambda>plans.
          case Option.bind (checked_sum (map (\<lambda>p. pp_estimated_memory_bytes (plan_physical p)) plans))
                 (\<lambda>b. checked_mul b (word_of_nat (ac_runtime_shards cfg))) of
            None \<Rightarrow> Some (Inl ''aggregate planned sketch memory overflows the supported byte range'')
          | Some aggregate \<Rightarrow>
              if ac_max_sketch_memory_bytes cfg < aggregate then Some (Inl ''aggregate planned sketch memory exceeds agent.maxSketchMemoryBytes'')
              else Some (Inr plans)))"

text \<open>The engine of the shared path of \<^verbatim>\<open>run_until\<close>, and the batch the gateway pusher sends.\<close>

definition build_engine :: "unit result \<Rightarrow> agent_config \<Rightarrow> plan list \<Rightarrow> sharded_engine result" where
  "build_engine pool cfg plans = (case ac_cpu_affinity cfg of
       Some a \<Rightarrow> sh_new_with_cpu_affinity pool plans (HashSpec_new (ac_seed cfg)) (ac_runtime_shards cfg) (runtime_cpus a)
     | None \<Rightarrow> sh_new pool plans (HashSpec_new (ac_seed cfg)) (ac_runtime_shards cfg))"

definition pushed_batch :: "agent_config \<Rightarrow> snapshot_export list \<Rightarrow> push_batch" where
  "pushed_batch cfg snapshots = \<lparr>pb_node = ac_node_name cfg,
     pb_entries = map (\<lambda>s. \<lparr>pe_query_name = se_query_name s, pe_component = se_component s, pe_snapshot = se_bytes s\<rparr>) snapshots\<rparr>"

section \<open>The gateway\<close>

datatype gateway_error = GwConfig string | GwHttp string | GwIo string

definition DEFAULT_MAX_NODES :: nat where
  "DEFAULT_MAX_NODES = 128"

definition MAX_CONFIGURED_NODES :: nat where
  "MAX_CONFIGURED_NODES = 65536"

definition DEFAULT_MAX_RETAINED_SKETCH_BYTES :: u64 where
  "DEFAULT_MAX_RETAINED_SKETCH_BYTES = 384 * 1024 * 1024"

definition MIN_MAX_RETAINED_SKETCH_BYTES :: u64 where
  "MIN_MAX_RETAINED_SKETCH_BYTES = 1024 * 1024"

definition MAX_MAX_RETAINED_SKETCH_BYTES :: u64 where
  "MAX_MAX_RETAINED_SKETCH_BYTES = 1024 * 1024 * 1024 * 1024"

record raw_gateway =
  rgw_listen :: "string option"
  rgw_seed :: "u64 option"
  rgw_stale_after_ms :: "u64 option"
  rgw_max_nodes :: "nat option"
  rgw_max_retained_sketch_bytes :: "u64 option"

record raw_gateway_config =
  rgc_gateway :: raw_gateway
  rgc_queries :: "string list"

record gateway_config =
  gc_listen :: string
  gc_seed :: u64
  gc_stale_after_ms :: u64
  gc_max_nodes :: nat
  gc_max_retained_sketch_bytes :: u64
  gc_query_files :: "string list"

definition gateway_from_raw :: "raw_gateway_config \<Rightarrow> gateway_error + gateway_config" where
  "gateway_from_raw raw =
     (let gw = rgc_gateway raw;
          max_nodes = get_or DEFAULT_MAX_NODES (rgw_max_nodes gw);
          max_bytes = get_or DEFAULT_MAX_RETAINED_SKETCH_BYTES (rgw_max_retained_sketch_bytes gw)
      in
      rbind (guard_err (rgc_queries raw = []) (GwConfig ''gateway config must list at least one query file'')) (\<lambda>_.
      rbind (guard_err (\<not> (1 \<le> max_nodes \<and> max_nodes \<le> MAX_CONFIGURED_NODES)) (GwConfig ''gateway.maxNodes is out of range'')) (\<lambda>_.
      rbind (guard_err (\<not> (MIN_MAX_RETAINED_SKETCH_BYTES \<le> max_bytes \<and> max_bytes \<le> MAX_MAX_RETAINED_SKETCH_BYTES))
        (GwConfig ''gateway.maxRetainedSketchBytes is out of range'')) (\<lambda>_.
      Inr \<lparr>gc_listen = get_or ''127.0.0.1:9465'' (rgw_listen gw), gc_seed = get_or 0 (rgw_seed gw),
        gc_stale_after_ms = max (get_or 300000 (rgw_stale_after_ms gw)) 1000, gc_max_nodes = max_nodes,
        gc_max_retained_sketch_bytes = max_bytes, gc_query_files = rgc_queries raw\<rparr>))))"

definition gateway_from_yaml :: "(string \<Rightarrow> string + raw_gateway_config) \<Rightarrow> string \<Rightarrow> gateway_error + gateway_config" where
  "gateway_from_yaml from_str yaml = (case from_str yaml of Inl e \<Rightarrow> Inl (GwConfig e) | Inr raw \<Rightarrow> gateway_from_raw raw)"

definition gateway_load_plans ::
  "float_ops \<Rightarrow> (string \<Rightarrow> string + string) \<Rightarrow> (string \<Rightarrow> string + raw_query) \<Rightarrow> gateway_config \<Rightarrow> (gateway_error + plan list) option" where
  "gateway_load_plans fp read from_str cfg =
     map_option (map_sum GwConfig id)
       (pfold (load_plan (\<lambda>p. pp_estimated_state_memory_bytes (plan_physical p) \<le> gc_max_retained_sketch_bytes cfg) fp read from_str) (gc_query_files cfg) [])"

text \<open>The state \<^verbatim>\<open>run_until\<close> of the gateway makes; times are in nanoseconds.\<close>

definition build_gateway :: "gateway_config \<Rightarrow> plan list \<Rightarrow> gateway_state option" where
  "build_gateway cfg plans = gs_new plans (HashSpec_new (gc_seed cfg)) (unat (gc_stale_after_ms cfg) * 1000000) (gc_max_nodes cfg) (gc_max_retained_sketch_bytes cfg)"

section \<open>Planning never panics\<close>

lemma guard_err_Inr [simp]: "guard_err b e = Inr u \<longleftrightarrow> \<not> b"
  by (simp add: guard_err_def)

lemma plan_file_total: "\<exists>r. plan_file fp read from_str file = Some r"
proof (cases "read file")
  case (Inr yaml)
  show ?thesis
  proof (cases "parse_query_yaml from_str yaml")
    case (Inl e)
    then show ?thesis using Inr by (cases e) (simp_all add: plan_file_def)
  next
    case q: (Inr q)
    have "query_ok q" using q by (auto simp: parse_query_yaml_def dest: into_logical_ok split: sum.splits)
    then obtain n where "bucket_count (lq_window q) = Some n" using bucket_count_ok by (auto simp: query_ok_def)
    then show ?thesis using Inr q by (simp add: plan_file_def plan_of_def)
  qed
qed (simp add: plan_file_def)

lemma plan_file_ok:
  assumes "plan_file fp read from_str file = Some (Inr p)"
  shows "query_ok (plan_query p) \<and> plan_of fp (plan_query p) = Some (Inr p)"
proof -
  obtain yaml q where q: "parse_query_yaml from_str yaml = Inr q" "plan_of fp q = Some (Inr p)"
    using assms by (auto simp: plan_file_def split: sum.splits query_parse_error.splits plan_error.splits) (metis plan_error.exhaust sum.exhaust)
  have "plan_query p = q" using plan_of_Inr [OF q(2)] by metis
  moreover have "query_ok q" using q(1) by (auto simp: parse_query_yaml_def dest: into_logical_ok split: sum.splits)
  ultimately show ?thesis using q(2) by simp
qed

lemma load_plan_total: "\<exists>r. load_plan fits fp read from_str file plans = Some r"
proof -
  obtain r where "plan_file fp read from_str file = Some r" using plan_file_total by blast
  then show ?thesis by (cases r) (simp_all add: load_plan_def)
qed

lemma load_plans_total: "\<exists>r. pfold (load_plan fits fp read from_str) files plans = Some r"
proof (induction files arbitrary: plans)
  case (Cons f fs)
  obtain r where r: "load_plan fits fp read from_str f plans = Some r" using load_plan_total by blast
  show ?case
  proof (cases r)
    case (Inr ps)
    then show ?thesis using r Cons.IH [of ps] by simp
  qed (simp add: r)
qed simp

text \<open>The plans: one for each file, in order, with different names.\<close>

lemma load_plans_ok:
  assumes "pfold (load_plan fits fp read from_str) files [] = Some (Inr plans)"
  shows "list_all2 (\<lambda>f p. plan_file fp read from_str f = Some (Inr p) \<and> fits p) files plans \<and> distinct (map (\<lambda>p. lq_name (plan_query p)) plans)"
  using assms
proof (induction files arbitrary: plans rule: rev_induct)
  case (snoc f fs)
  then obtain ps where ps: "pfold (load_plan fits fp read from_str) fs [] = Some (Inr ps)" "load_plan fits fp read from_str f ps = Some (Inr plans)"
    by (auto simp: pfold_snoc pbind_def split: option.splits sum.splits)
  obtain p where p: "plan_file fp read from_str f = Some (Inr p)" "fits p" "lq_name (plan_query p) \<notin> (\<lambda>p. lq_name (plan_query p)) ` set ps" "plans = ps @ [p]"
    using ps(2) by (auto simp: load_plan_def pbind_def split: option.splits sum.splits if_splits)
  then show ?case using snoc.IH [OF ps(1)] by (auto intro!: list_all2_appendI)
qed simp

section \<open>The memory ceiling\<close>

lemma checked_sum_exact:
  assumes "checked_sum xs = Some s"
  shows "unat s = sum_list (map unat xs)"
proof -
  have none: "fold (\<lambda>x total. Option.bind total (\<lambda>t. checked_add t x)) ys None = None" for ys by (induction ys) auto
  have "unat s = unat a + sum_list (map unat ys)"
    if "fold (\<lambda>x total. Option.bind total (\<lambda>t. checked_add t x)) ys (Some a) = Some s" for ys a
    using that
  proof (induction ys arbitrary: a)
    case (Cons y ys)
    then show ?case
    proof (cases "checked_add a y")
      case (Some b)
      then have "unat b = unat a + unat y" by (auto simp: checked_add_def u64_add_exact split: if_splits)
      then show ?thesis using Cons Some by simp
    qed (simp add: none)
  qed simp
  then show ?thesis using assms by (simp add: checked_sum_def)
qed

lemma checked_mul_exact: "checked_mul a b = Some c \<Longrightarrow> unat c = unat a * unat b"
  by (auto simp: checked_mul_def unat_word_ariths split: if_splits)

section \<open>A configured agent starts\<close>

lemma qe_new_builds:
  assumes "distinct (map (\<lambda>p. lq_name (plan_query p)) plans)" "\<forall>p \<in> set plans. \<exists>q. qs_build (pp_sketch (plan_physical p)) h = Inr q"
  shows "\<exists>eng. qe_new plans h = Inr eng"
proof -
  have "\<exists>qs. rfold (qe_add_plan h) ps rs = Inr qs"
    if "distinct (map (\<lambda>q. lq_name (plan_query (rq_plan q))) rs @ map (\<lambda>p. lq_name (plan_query p)) ps)"
      "\<forall>p \<in> set ps. \<exists>q. qs_build (pp_sketch (plan_physical p)) h = Inr q" for ps rs
    using that
  proof (induction ps arbitrary: rs)
    case (Cons p ps)
    obtain rq where rq: "rq_new p h = Inr rq" "rq_plan rq = p" by (cases "lq_measure (plan_query p)") (simp_all add: rq_new_def)
    obtain q where q: "qs_build (pp_sketch (plan_physical p)) h = Inr q" using Cons.prems(2) by auto
    have add: "qe_add_plan h p rs = Inr (rs @ [rq])" using Cons.prems(1) rq(1) q by (simp add: qe_add_plan_def)
    show ?case using Cons.IH [of "rs @ [rq]"] Cons.prems add rq(2) by simp
  qed simp
  from this [of "[]" plans] assms obtain qs where "rfold (qe_add_plan h) plans [] = Inr qs" by auto
  then show ?thesis by (simp add: qe_new_def)
qed

lemma sh_new_builds:
  assumes "0 < n" "case cpus of None \<Rightarrow> True | Some cs \<Rightarrow> length cs = n \<and> distinct cs"
    and "distinct (map (\<lambda>p. lq_name (plan_query p)) plans)" "\<forall>p \<in> set plans. \<exists>q. qs_build (pp_sketch (plan_physical p)) h = Inr q"
  shows "\<exists>sh. sh_new_inner (Inr ()) plans h n cpus = Inr sh \<and> shard_count sh = n"
proof -
  obtain eng where eng: "qe_new plans h = Inr eng" using qe_new_builds [OF assms(3,4)] by blast
  have "rfold (\<lambda>_ shards. rbind (qe_new plans h) (\<lambda>eng. Inr (shards @ [eng]))) xs acc = Inr (acc @ replicate (length xs) eng)" for xs :: "nat list" and acc
    by (induction xs arbitrary: acc) (simp_all add: eng replicate_append_same)
  then show ?thesis using assms(1-3) by (auto simp: sh_new_inner_def shard_count_def split: option.splits)
qed

text \<open>What the rest of the agent relies on.\<close>

lemma unknown_is_a_name: "\<not> is_blank ''unknown'' \<and> length ''unknown'' \<le> MAX_NODE_NAME_BYTES"
  by code_simp

lemma agent_from_raw_ok:
  assumes "agent_from_raw raw = Inr cfg"
  shows "1 \<le> ac_runtime_shards cfg" "ac_runtime_shards cfg \<le> 256" "1 \<le> ac_runtime_batch_size cfg" "ac_query_files cfg \<noteq> []"
    "validate_source (ac_source cfg) (ac_runtime_shards cfg) (ac_runtime_shard_strategy cfg) = Inr ()"
    "validate_cpu_affinity (ac_cpu_affinity cfg) (capture_lane_count (ac_source cfg) (ac_runtime_shards cfg)) (ac_runtime_shards cfg) = Inr ()"
    "\<not> is_blank (ac_node_name cfg) \<and> length (ac_node_name cfg) \<le> MAX_NODE_NAME_BYTES"
proof -
  note def = assms [unfolded agent_from_raw_def Let_def rbind_Inr_iff guard_err_Inr]
  show "1 \<le> ac_runtime_shards cfg" "ac_runtime_shards cfg \<le> 256" "1 \<le> ac_runtime_batch_size cfg" "ac_query_files cfg \<noteq> []"
    "validate_source (ac_source cfg) (ac_runtime_shards cfg) (ac_runtime_shard_strategy cfg) = Inr ()"
    "validate_cpu_affinity (ac_cpu_affinity cfg) (capture_lane_count (ac_source cfg) (ac_runtime_shards cfg)) (ac_runtime_shards cfg) = Inr ()"
    using def by auto
  have "check_node_name (ra_node_name (rc_agent raw)) = Inr ()" "ac_node_name cfg = get_or ''unknown'' (ra_node_name (rc_agent raw))" using def by auto
  then show "\<not> is_blank (ac_node_name cfg) \<and> length (ac_node_name cfg) \<le> MAX_NODE_NAME_BYTES"
    using unknown_is_a_name by (cases "ra_node_name (rc_agent raw)") (auto simp: check_node_name_def rbind_Inr_iff get_or_def)
qed

lemma affinity_ok:
  assumes "validate_cpu_affinity a lanes shards = Inr ()"
  shows "case map_option runtime_cpus a of None \<Rightarrow> True | Some cs \<Rightarrow> length cs = shards \<and> distinct cs"
  using assms by (cases a) (auto simp: validate_cpu_affinity_def rbind_Inr_iff)

lemma build_engine_eq: "build_engine pool cfg plans = sh_new_inner pool plans (HashSpec_new (ac_seed cfg)) (ac_runtime_shards cfg) (map_option runtime_cpus (ac_cpu_affinity cfg))"
  by (simp add: build_engine_def sh_new_def sh_new_with_cpu_affinity_def split: option.split)


section \<open>Identifiers\<close>

lemma plain_text:
  assumes "\<forall>c \<in> set s. is_alnum c \<or> c = CHR ''_'' \<or> c = CHR ''-''"
  shows "utf8_decode (ascii s) = Some (map of_char s)" "\<forall>c \<in> set s. \<not> is_whitespace (of_char c)"
proof -
  have code: "(of_char c :: nat) < 128 \<and> \<not> is_whitespace (of_char c)" if "is_alnum c \<or> c = CHR ''_'' \<or> c = CHR ''-''" for c
    using that by (auto simp: is_alnum_def is_whitespace_def Let_def)
  then show "\<forall>c \<in> set s. \<not> is_whitespace (of_char c)" using assms by blast
  have small: "(of_char c :: u8) < 0x80 \<and> unat (of_char c :: u8) = of_char c" if "(of_char c :: nat) < 128" for c
  proof -
    have "unat (of_char c :: u8) = of_char c"
      using of_nat_of_char [of c, where 'a = u8, symmetric] by (simp add: unsigned_of_nat take_bit_eq_mod)
    then show ?thesis using that by (simp add: word_less_nat_alt)
  qed
  show "utf8_decode (ascii s) = Some (map of_char s)"
    using assms
  proof (induction s)
    case (Cons c s)
    then show ?case using small [of c] code [of c] by (simp add: ascii_def)
  qed (simp add: ascii_def)
qed

lemma plain_ident:
  assumes "s \<noteq> []" "length s \<le> n" "\<forall>c \<in> set s. is_alnum c \<or> c = CHR ''_'' \<or> c = CHR ''-''"
  shows "ident_ok n s"
  using assms plain_text [OF assms(3)] by (cases s) (auto simp: ident_ok_def)

lemma component_ident:
  assumes "c \<in> fst ` set (to_snapshots st ws we)"
  shows "ident_ok MAX_COMPONENT_NAME_BYTES c"
proof -
  have "c \<in> {SPACESAVING, COUNT_MIN_NAME, KEYS_SPACESAVING, HLLMAP, HLL, KLL_NAME, HEAD_SPACESAVING, TAIL_HLL}"
    using assms by (cases st) auto
  then show ?thesis
    by (intro plain_ident) (auto simp: SPACESAVING_def COUNT_MIN_NAME_def KEYS_SPACESAVING_def HLLMAP_def HLL_def KLL_NAME_def
        HEAD_SPACESAVING_def TAIL_HLL_def MAX_COMPONENT_NAME_BYTES_def is_alnum_def)
qed

lemma decode_encode: "batch_ok b \<Longrightarrow> batch_decode (batch_encode b) = Inr b"
  using decode_body_encode [of b] length_batch_body [of b] batch_decode_split [of "batch_body b" "wr_u64 (hash64 (batch_body b) 0)"]
  by (auto simp: batch_encode_eq)



text \<open>A configuration for one pcap file and one query.\<close>

definition sample_config :: raw_config where
  "sample_config = \<lparr>rc_agent = \<lparr>ra_node_name = Some ''node-a'', ra_listen = None, ra_seed = None, ra_flush_interval_ms = None,
     ra_runtime_shards = Some 2, ra_runtime_batch_size = None, ra_max_sketch_memory_bytes = None, ra_runtime_shard_strategy = None,
     ra_cpu_affinity = None, ra_source = Source_Pcap ''demo.pcap''\<rparr>, rc_queries = [''q.yaml''], rc_export = None\<rparr>"

lemma sample_config_accepted: "\<exists>cfg. agent_from_raw sample_config = Inr cfg \<and> ac_node_name cfg = ''node-a'' \<and> ac_query_files cfg = [''q.yaml'']
     \<and> ac_runtime_shards cfg = 2 \<and> ac_max_sketch_memory_bytes cfg = DEFAULT_MAX_SKETCH_MEMORY_BYTES"
proof -
  have "\<not> is_blank ''node-a''" by code_simp
  then show ?thesis
    by (simp add: agent_from_raw_def sample_config_def Let_def get_or_def guard_err_def check_node_name_def MAX_NODE_NAME_BYTES_def
        validate_source_def validate_cpu_affinity_def DEFAULT_MAX_SKETCH_MEMORY_BYTES_def MIN_MAX_SKETCH_MEMORY_BYTES_def MAX_MAX_SKETCH_MEMORY_BYTES_def)
qed

lemma sample_query_file:
  "\<exists>p. plan_file sample_floats (\<lambda>f. Inr ''text'') (\<lambda>y. Inr sample_raw) ''q.yaml'' = Some (Inr p)
     \<and> (\<exists>c. pp_sketch (plan_physical p) = PSpaceSaving c \<and> 0 < c) \<and> pp_estimated_memory_bytes (plan_physical p) < 2 ^ 26"
proof -
  obtain q where q: "into_logical sample_raw = Inr q" "lq_measure q = HeavyHitters Bytes 100" "lq_group_by q = [SrcIp]" "alert_lt (lq_alert q) = None"
    "lq_window q = \<lparr>size_nanos = 60000000000, slide_nanos = 10000000000\<rparr>" "lq_max_memory_bytes q = DEFAULT_MAX_MEMORY_BYTES"
    by (simp add: into_logical_def sample_raw_def check_name_def trim_def is_space_def is_alnum_def
        MAX_QUERY_NAME_BYTES_def window_of_def parse_humanize group_by_of_def invalid_field_def Field_from_str_def filter_of_def
        error_of_def default_epsilon_def ErrorSpec_default_def in_unit_def f64_lt_def measure_of_def parse_field_def
        is_numeric_measure_def check_measure_def export_of_def ExportSpec_default_def max_memory_of_def Let_def)
  have n: "bucket_count (lq_window q) = Some 6" using q(5) by (simp add: bucket_count_def)
  show ?thesis using q n
    by (simp add: plan_file_def parse_query_yaml_def plan_of_def plan_choice_def plan_heavy_hitters_def sample_floats_def clamp_def usize_mul_def
        maximum_stored_key_bytes_def max_encoded_len_def DEFAULT_MAX_MEMORY_BYTES_def Let_def)
qed

lemma sample_plans:
  "\<exists>cfg plans. agent_from_raw sample_config = Inr cfg \<and> ac_node_name cfg = ''node-a''
     \<and> agent_load_plans sample_floats (\<lambda>f. Inr ''text'') (\<lambda>y. Inr sample_raw) cfg = Some (Inr plans)
     \<and> (\<forall>p \<in> set plans. \<exists>q. qs_build (pp_sketch (plan_physical p)) (HashSpec_new (ac_seed cfg)) = Inr q)"
proof -
  obtain cfg where cfg: "agent_from_raw sample_config = Inr cfg" "ac_node_name cfg = ''node-a''" "ac_query_files cfg = [''q.yaml'']"
    "ac_runtime_shards cfg = 2" "ac_max_sketch_memory_bytes cfg = DEFAULT_MAX_SKETCH_MEMORY_BYTES"
    using sample_config_accepted by blast
  obtain p c where p: "plan_file sample_floats (\<lambda>f. Inr ''text'') (\<lambda>y. Inr sample_raw) ''q.yaml'' = Some (Inr p)"
    "pp_sketch (plan_physical p) = PSpaceSaving c" "0 < c" "pp_estimated_memory_bytes (plan_physical p) < 2 ^ 26"
    using sample_query_file by blast
  let ?m = "pp_estimated_memory_bytes (plan_physical p)"
  have m: "unat ?m < 2 ^ 26" using p(4) by (simp add: word_less_nat_alt)
  then have "checked_sum [?m] = Some ?m" "checked_mul ?m 2 = Some (?m * 2)" "?m * 2 \<le> DEFAULT_MAX_SKETCH_MEMORY_BYTES"
    by (simp_all add: checked_sum_def checked_add_def checked_mul_def word_le_nat_alt unat_word_ariths DEFAULT_MAX_SKETCH_MEMORY_BYTES_def)
  then have "agent_load_plans sample_floats (\<lambda>f. Inr ''text'') (\<lambda>y. Inr sample_raw) cfg = Some (Inr [p])"
    using cfg p(1) by (simp add: agent_load_plans_def load_plan_def not_less)
  then show ?thesis using cfg(1,2) p(2,3) by (auto simp: qs_build_def ss_new_def)
qed




end
