(* ===== verification/Ebpf.thy ===== *)
theory Ebpf
  imports Packet SnapshotFormat
begin

text \<open>
  \<^verbatim>\<open>flowsketch-ebpf/src/lib.rs\<close>: the records the kernel program writes to its ring buffer, their
  conversion to flow events and the conversion of kernel time to Unix time.

  Native byte order is little-endian, as on the supported targets.  What the clocks return
  is input.  The loader (\<^verbatim>\<open>tc.rs\<close>) is in the theory \<open>Collector\<close>.
\<close>

section \<open>Records\<close>

definition EBPF_ABI_VERSION :: u16 where "EBPF_ABI_VERSION = 1"
definition EBPF_FLOW_EVENT_SIZE :: nat where "EBPF_FLOW_EVENT_SIZE = 56"
definition DIRECTION_UNKNOWN :: u8 where "DIRECTION_UNKNOWN = 0"
definition DIRECTION_INGRESS :: u8 where "DIRECTION_INGRESS = 1"
definition DIRECTION_EGRESS :: u8 where "DIRECTION_EGRESS = 2"

record ebpf_flow_event =
  eb_ts_nanos :: u64
  eb_src_ip :: bytes
  eb_dst_ip :: bytes
  eb_bytes :: u32
  eb_interface_index :: u32
  eb_src_port :: u16
  eb_dst_port :: u16
  eb_protocol :: u8
  eb_ip_version :: u8
  eb_tcp_flags :: u8
  eb_direction :: u8

datatype ebpf_error =
    InvalidRecordSize nat nat
  | UnsupportedIpVersion u8
  | UnsupportedDirection u8
  | ClockSample string
  | TimestampOutOfRange u64

text \<open>The counters that the kernel program keeps.\<close>

record tc_collector_counters =
  tcc_packets :: u64
  tcc_emitted :: u64
  tcc_ring_drops :: u64
  tcc_parse_errors :: u64
  tcc_unsupported :: u64

text \<open>The slices of a record are in range once its size has been checked; out of range they panic.\<close>

definition decode_ne :: "bytes \<Rightarrow> (ebpf_error + ebpf_flow_event) option" where
  "decode_ne bs =
     (if length bs \<noteq> EBPF_FLOW_EVENT_SIZE then Some (Inl (InvalidRecordSize EBPF_FLOW_EVENT_SIZE (length bs)))
      else slice_at bs 8 24 (\<lambda>src. slice_at bs 24 40 (\<lambda>dst.
           slice_at bs 0 8 (\<lambda>ts. slice_at bs 40 44 (\<lambda>len. slice_at bs 44 48 (\<lambda>index.
           slice_at bs 48 50 (\<lambda>sp. slice_at bs 50 52 (\<lambda>dp.
           byte_at bs 52 (\<lambda>proto. byte_at bs 53 (\<lambda>version. byte_at bs 54 (\<lambda>flags. byte_at bs 55 (\<lambda>dir.
           Some (Inr \<lparr>eb_ts_nanos = le_word ts, eb_src_ip = src, eb_dst_ip = dst, eb_bytes = le_word len,
             eb_interface_index = le_word index, eb_src_port = le_word sp, eb_dst_port = le_word dp,
             eb_protocol = proto, eb_ip_version = version, eb_tcp_flags = flags, eb_direction = dir\<rparr>)))))))))))))"

text \<open>The fields are copied to consecutive positions; copying a slice of another length panics.\<close>

definition encode_ne :: "ebpf_flow_event \<Rightarrow> bytes option" where
  "encode_ne e =
     (if length (eb_src_ip e) \<noteq> 16 \<or> length (eb_dst_ip e) \<noteq> 16 then None
      else Some (le_bytes 8 (eb_ts_nanos e) @ eb_src_ip e @ eb_dst_ip e @ le_bytes 4 (eb_bytes e) @ le_bytes 4 (eb_interface_index e)
        @ le_bytes 2 (eb_src_port e) @ le_bytes 2 (eb_dst_port e) @ [eb_protocol e, eb_ip_version e, eb_tcp_flags e, eb_direction e]))"

definition ip_of :: "u8 \<Rightarrow> bytes \<Rightarrow> (ebpf_error + ip_addr) option" where
  "ip_of version octs =
     (if version = 4 then slice_at octs 12 16 (\<lambda>v4. Some (Inr (V4 (be_word v4))))
      else if version = 6 then Some (Inr (V6 (be_word octs)))
      else Some (Inl (UnsupportedIpVersion version)))"

definition direction_of :: "u8 \<Rightarrow> ebpf_error + direction" where
  "direction_of d =
     (if d = DIRECTION_UNKNOWN then Inr Unknown else if d = DIRECTION_INGRESS then Inr Ingress
      else if d = DIRECTION_EGRESS then Inr Egress else Inl (UnsupportedDirection d))"

definition try_into_flow_event :: "ebpf_flow_event \<Rightarrow> u64 \<Rightarrow> (ebpf_error + flow_event) option" where
  "try_into_flow_event e unix_ts_nanos =
     (case ip_of (eb_ip_version e) (eb_src_ip e) of
        None \<Rightarrow> None | Some (Inl x) \<Rightarrow> Some (Inl x)
      | Some (Inr src) \<Rightarrow> (case ip_of (eb_ip_version e) (eb_dst_ip e) of
          None \<Rightarrow> None | Some (Inl x) \<Rightarrow> Some (Inl x)
        | Some (Inr dst) \<Rightarrow> (case direction_of (eb_direction e) of
            Inl x \<Rightarrow> Some (Inl x)
          | Inr d \<Rightarrow> Some (Inr (FlowEvent_default\<lparr>ts_nanos := unix_ts_nanos, src_ip := src, dst_ip := dst, src_port := eb_src_port e,
              dst_port := eb_dst_port e, protocol := eb_protocol e, ev_bytes := eb_bytes e, packets := 1, direction := d,
              tcp_flags := eb_tcp_flags e, interface_index := eb_interface_index e\<rparr>)))))"

section \<open>Clocks\<close>

text \<open>A converter is the difference of two clock samples; \<^verbatim>\<open>i128\<close> does not overflow on sums of two
  64-bit values.\<close>

record kernel_clock_converter =
  realtime_minus_monotonic :: int

definition from_samples :: "u64 \<Rightarrow> u64 \<Rightarrow> kernel_clock_converter" where
  "from_samples monotonic_nanos realtime_nanos = \<lparr>realtime_minus_monotonic = uint realtime_nanos - uint monotonic_nanos\<rparr>"

definition to_unix_nanos :: "kernel_clock_converter \<Rightarrow> u64 \<Rightarrow> ebpf_error + u64" where
  "to_unix_nanos c monotonic_nanos =
     (let unix = uint monotonic_nanos + realtime_minus_monotonic c
      in if 0 \<le> unix \<and> unix < 2 ^ 64 then Inr (word_of_int unix) else Inl (TimestampOutOfRange monotonic_nanos))"

text \<open>The converter from samples taken around the wall clock: the monotonic time is their midpoint.\<close>

definition clock_sample :: "u64 \<Rightarrow> u64 \<Rightarrow> u64 \<Rightarrow> kernel_clock_converter" where
  "clock_sample before realtime after =
     (let gap = (if after < before then 0 else after - before) div 2;
          midpoint = (if unat before + unat gap < 2 ^ 64 then before + gap else - 1)
      in from_samples midpoint realtime)"

definition clock_nanos :: "int \<Rightarrow> int \<Rightarrow> ebpf_error + u64" where
  "clock_nanos tv_sec tv_nsec =
     (if tv_sec < 0 \<or> \<not> (0 \<le> tv_nsec \<and> tv_nsec < 1000000000) then Inl (ClockSample ''clock returned invalid timespec'')
      else if 2 ^ 64 \<le> tv_sec then Inl (ClockSample ''negative clock seconds'')
      else if 2 ^ 64 \<le> tv_sec * 1000000000 \<or> 2 ^ 64 \<le> tv_sec * 1000000000 + tv_nsec then Inl (ClockSample ''clock nanoseconds overflow u64'')
      else Inr (word_of_int (tv_sec * 1000000000 + tv_nsec)))"

section \<open>Round trips\<close>

lemma decode_ne_total: "\<exists>r. decode_ne bs = Some r"
  by (auto simp: decode_ne_def slice_at_def byte_at_def EBPF_FLOW_EVENT_SIZE_def)

lemma decode_ne_lengths:
  "decode_ne bs = Some (Inr e) \<Longrightarrow> length (eb_src_ip e) = 16 \<and> length (eb_dst_ip e) = 16 \<and> length bs = 56"
  by (auto simp: decode_ne_def slice_at_def byte_at_def EBPF_FLOW_EVENT_SIZE_def split: if_splits)

lemma decode_encode_ne:
  assumes "encode_ne e = Some bs"
  shows "length bs = EBPF_FLOW_EVENT_SIZE" "decode_ne bs = Some (Inr e)"
proof -
  have len: "length (eb_src_ip e) = 16" "length (eb_dst_ip e) = 16"
    and bs: "bs = le_bytes 8 (eb_ts_nanos e) @ eb_src_ip e @ eb_dst_ip e @ le_bytes 4 (eb_bytes e) @ le_bytes 4 (eb_interface_index e)
        @ le_bytes 2 (eb_src_port e) @ le_bytes 2 (eb_dst_port e) @ [eb_protocol e, eb_ip_version e, eb_tcp_flags e, eb_direction e]"
    using assms by (auto simp: encode_ne_def split: if_splits)
  show "length bs = EBPF_FLOW_EVENT_SIZE" using len by (simp add: bs EBPF_FLOW_EVENT_SIZE_def)
  show "decode_ne bs = Some (Inr e)"
    using len by (simp add: bs decode_ne_def slice_at_def byte_at_def EBPF_FLOW_EVENT_SIZE_def nth_append)
qed

lemma encode_decode_ne:
  assumes "decode_ne bs = Some (Inr e)"
  shows "encode_ne e = Some bs"
proof -
  have len: "length bs = 56" using decode_ne_lengths [OF assms] by simp
  have cut: "drop a bs = take n (drop a bs) @ drop (a + n) bs" for a n by (metis append_take_drop_id drop_drop add.commute)
  have last: "drop 52 bs = [bs ! 52, bs ! 53, bs ! 54, bs ! 55]" using len by (simp add: Cons_nth_drop_Suc [symmetric])
  have "bs = take 8 (drop 0 bs) @ take 16 (drop 8 bs) @ take 16 (drop 24 bs) @ take 4 (drop 40 bs) @ take 4 (drop 44 bs)
      @ take 2 (drop 48 bs) @ take 2 (drop 50 bs) @ [bs ! 52, bs ! 53, bs ! 54, bs ! 55]"
    using cut [of 0 8] cut [of 8 16] cut [of 24 16] cut [of 40 4] cut [of 44 4] cut [of 48 2] cut [of 50 2] last by simp
  moreover have "e = \<lparr>eb_ts_nanos = le_word (take 8 (drop 0 bs)), eb_src_ip = take 16 (drop 8 bs), eb_dst_ip = take 16 (drop 24 bs),
      eb_bytes = le_word (take 4 (drop 40 bs)), eb_interface_index = le_word (take 4 (drop 44 bs)), eb_src_port = le_word (take 2 (drop 48 bs)),
      eb_dst_port = le_word (take 2 (drop 50 bs)), eb_protocol = bs ! 52, eb_ip_version = bs ! 53, eb_tcp_flags = bs ! 54, eb_direction = bs ! 55\<rparr>"
    using assms len by (simp add: decode_ne_def slice_at_def byte_at_def EBPF_FLOW_EVENT_SIZE_def)
  ultimately show ?thesis using len by (simp add: encode_ne_def le_bytes_le_word)
qed

text \<open>
  C21: The kernel record layout is exact.  \<^verbatim>\<open>decode_ne\<close> never panics; it accepts exactly the byte
  strings of 56 bytes, and on them it and \<^verbatim>\<open>encode_ne\<close> are inverse to each other.
\<close>

theorem kernel_records_round_trip:
  "(\<exists>r. decode_ne bs = Some r) \<and> ((\<exists>e. decode_ne bs = Some (Inr e)) \<longleftrightarrow> length bs = EBPF_FLOW_EVENT_SIZE)
     \<and> (decode_ne bs = Some (Inr e) \<longleftrightarrow> encode_ne e = Some bs)"
proof (intro conjI)
  show "(\<exists>e. decode_ne bs = Some (Inr e)) \<longleftrightarrow> length bs = EBPF_FLOW_EVENT_SIZE"
    by (auto simp: decode_ne_def slice_at_def byte_at_def EBPF_FLOW_EVENT_SIZE_def split: if_splits)
qed (use decode_ne_total decode_encode_ne encode_decode_ne in blast)+

section \<open>Events\<close>

lemma ip_of_total: "length octs = 16 \<Longrightarrow> \<exists>r. ip_of version octs = Some r"
  by (auto simp: ip_of_def slice_at_def)

lemma try_into_total:
  assumes "length (eb_src_ip e) = 16" "length (eb_dst_ip e) = 16"
  shows "\<exists>r. try_into_flow_event e ts = Some r"
proof -
  obtain a b where "ip_of (eb_ip_version e) (eb_src_ip e) = Some a" "ip_of (eb_ip_version e) (eb_dst_ip e) = Some b"
    using ip_of_total assms by metis
  then show ?thesis by (simp add: try_into_flow_event_def split: sum.split)
qed

lemma try_into_fields:
  assumes "try_into_flow_event e ts = Some (Inr ev)"
  shows "ts_nanos ev = ts" "ev_bytes ev = eb_bytes e" "packets ev = 1" "eb_ip_version e = 4 \<or> eb_ip_version e = 6"
  using assms by (auto simp: try_into_flow_event_def ip_of_def slice_at_def split: option.splits sum.splits if_splits)

text \<open>Converting the monotonic time of the samples gives the wall clock; later times differ by the
  same amount, and a time that does not fit 64 bits is refused rather than wrapped.\<close>

lemma to_unix_exact:
  "to_unix_nanos (from_samples m r) t = Inr u \<longleftrightarrow> uint u = uint t + uint r - uint m"
proof -
  let ?x = "uint t + uint r - uint m"
  have u: "0 \<le> uint u" "uint u < 2 ^ 64" using uint_bounded [of u] by simp_all
  have fits: "uint (word_of_int y :: u64) = y" if "0 \<le> y \<and> y < 2 ^ 64" for y
    using that by (simp add: uint_word_of_int_eq take_bit_int_eq_self)
  show ?thesis
  proof (cases "0 \<le> ?x \<and> ?x < 2 ^ 64")
    case True
    then have "uint (word_of_int ?x :: u64) = ?x" by (rule fits)
    then have "word_of_int ?x = u \<longleftrightarrow> uint u = ?x" by (metis word_of_int_uint)
    moreover have "to_unix_nanos (from_samples m r) t = Inr (word_of_int ?x)"
      using True by (simp add: to_unix_nanos_def from_samples_def add_diff_eq)
    ultimately show ?thesis by simp
  next
    case False
    then have "to_unix_nanos (from_samples m r) t = Inl (TimestampOutOfRange t)"
      by (auto simp: to_unix_nanos_def from_samples_def add_diff_eq Let_def)
    moreover have "uint u \<noteq> ?x" using False u by metis
    ultimately show ?thesis by simp
  qed
qed

end
