(* ===== verification/Capture.thy ===== *)
theory Capture
  imports Configs Ebpf
begin

text \<open>
  Live capture: the \<^verbatim>\<open>TPACKET_V3\<close> receive ring of \<^verbatim>\<open>flowsketch-agent/src/source/af_packet.rs\<close> and the
  loop of \<^verbatim>\<open>source.rs\<close> that turns its packets into events for the engine.

  The ring is memory shared with the kernel: a byte string.  Every read of it, which the code does
  with unchecked pointers, is written as a slice that fails out of bounds, so that a call that
  returns has read nothing outside the block it owns.  The layout of the kernel's headers is a
  parameter (\<open>tpacket_layout\<close>); what the kernel, the clocks, the consumer of the channel and the
  shutdown flags do is input.
\<close>

section \<open>The receive ring\<close>

record tpacket_block_header =
  blk_len :: u32
  offset_to_first_pkt :: u32
  num_pkts :: u32

record tpacket3_hdr =
  tp_next_offset :: u32
  tp_sec :: u32
  tp_nsec :: u32
  tp_snaplen :: u32
  tp_len :: u32
  tp_mac :: u16

record tpacket_layout =
  tl_block_desc_size :: nat
  tl_hdr_size :: nat
  tl_version :: "bytes \<Rightarrow> u32"
  tl_read_block :: "bytes \<Rightarrow> tpacket_block_header"
  tl_read_packet :: "bytes \<Rightarrow> tpacket3_hdr"

record ring_settings =
  rs_block_size_bytes :: u32
  rs_block_count :: u32
  rs_retire_timeout_ms :: u32

record packet_ring =
  pr_len :: nat
  pr_block_size :: nat
  pr_block_count :: nat
  pr_current_block :: nat

datatype io_error = InvalidData string | OsError string | Interrupted

definition FRAME_SIZE_BYTES :: nat where
  "FRAME_SIZE_BYTES = 2048"

definition TPACKET_V3 :: u32 where
  "TPACKET_V3 = 2"

text \<open>The sizes of the ring that \<^verbatim>\<open>open\<close> requests from the kernel, from the page size of the host:
  the bytes to map and the number of frames.\<close>

definition ring_request :: "ring_settings \<Rightarrow> int \<Rightarrow> agent_error + (nat \<times> u32)" where
  "ring_request settings page_size =
     (if page_size \<le> 0 \<or> uint (rs_block_size_bytes settings) mod page_size \<noteq> 0
      then Inl (SourceError ''AF_PACKET ring block size is not a multiple of host page size'')
      else case checked_mul (ucast (rs_block_size_bytes settings)) (ucast (rs_block_count settings)) of
             None \<Rightarrow> Inl (SourceError ''AF_PACKET ring size overflows usize'')
           | Some ring_bytes \<Rightarrow>
               (let frame_count = unat ring_bytes div FRAME_SIZE_BYTES
                in if 2 ^ 32 \<le> frame_count then Inl (SourceError ''AF_PACKET frame count overflows u32'')
                   else Inr (unat ring_bytes, word_of_nat frame_count)))"

definition ring_of :: "ring_settings \<Rightarrow> nat \<Rightarrow> packet_ring" where
  "ring_of settings ring_bytes = \<lparr>pr_len = ring_bytes, pr_block_size = unat (rs_block_size_bytes settings),
     pr_block_count = unat (rs_block_count settings), pr_current_block = 0\<rparr>"

definition saturating_mul :: "u64 \<Rightarrow> u64 \<Rightarrow> u64" where
  "saturating_mul a b = (case checked_mul a b of None \<Rightarrow> - 1 | Some c \<Rightarrow> c)"

definition saturating_add :: "u64 \<Rightarrow> u64 \<Rightarrow> u64" where
  "saturating_add a b = (case checked_add a b of None \<Rightarrow> - 1 | Some c \<Rightarrow> c)"

text \<open>The loop over the packets of a claimed block, from packet \<open>i\<close> with \<open>n\<close> to go.  \<open>visit\<close> gets the
  index of the packet (which stands for when it is called), its bytes, length and time.\<close>

type_synonym 's visitor = "nat \<Rightarrow> bytes \<Rightarrow> u32 \<Rightarrow> u64 \<Rightarrow> 's \<Rightarrow> ('s \<times> bool) option"

fun packet_loop :: "tpacket_layout \<Rightarrow> 's visitor \<Rightarrow> bytes \<Rightarrow> nat \<Rightarrow> nat \<Rightarrow> nat \<Rightarrow> nat \<Rightarrow> 's \<Rightarrow> ('s \<times> (io_error + bool)) option" where
  "packet_loop L visit block block_len i 0 packet_offset s = Some (s, Inr True)"
| "packet_loop L visit block block_len i (Suc n) packet_offset s =
     (let header_end = packet_offset + tl_hdr_size L in
      if block_len < header_end then Some (s, Inl (InvalidData ''truncated TPACKET_V3 header''))
      else slice_at block packet_offset header_end (\<lambda>raw.
        let h = tl_read_packet L raw;
            data_start = packet_offset + unat (tp_mac h);
            data_end = data_start + unat (tp_snaplen h)
        in if tp_len h < tp_snaplen h then Some (s, Inl (InvalidData ''TPACKET_V3 snapshot length exceeds packet length''))
           else if data_start < header_end \<or> block_len < data_start then Some (s, Inl (InvalidData ''invalid TPACKET_V3 data offset''))
           else if block_len < data_end then Some (s, Inl (InvalidData ''truncated TPACKET_V3 packet''))
           else if 1000000000 \<le> tp_nsec h then Some (s, Inl (InvalidData ''invalid TPACKET_V3 nanosecond timestamp''))
           else slice_at block data_start data_end (\<lambda>bs.
             let timestamp = saturating_add (saturating_mul (ucast (tp_sec h)) 1000000000) (ucast (tp_nsec h))
             in case visit i bs (tp_len h) timestamp s of
                  None \<Rightarrow> None
                | Some (s, keep_running) \<Rightarrow>
                    if \<not> keep_running then Some (s, Inr False)
                    else if n = 0 then Some (s, Inr True)
                    else if unat (tp_next_offset h) < tl_hdr_size L then Some (s, Inl (InvalidData ''invalid TPACKET_V3 next-packet offset''))
                    else packet_loop L visit block block_len (Suc i) n (packet_offset + unat (tp_next_offset h)) s)))"

text \<open>A claimed block: its header is checked against the ring before any packet is read.\<close>

definition drain_block :: "tpacket_layout \<Rightarrow> 's visitor \<Rightarrow> nat \<Rightarrow> bytes \<Rightarrow> 's \<Rightarrow> ('s \<times> (io_error + bool)) option" where
  "drain_block L visit block_size block s =
     slice_at block 0 (tl_block_desc_size L) (\<lambda>raw.
       if tl_version L raw \<noteq> TPACKET_V3 then Some (s, Inl (InvalidData ''unexpected packet-ring block version''))
       else let h = tl_read_block L raw; block_len = unat (blk_len h); first_packet = unat (offset_to_first_pkt h) in
         if block_len < tl_block_desc_size L \<or> block_size < block_len \<or> block_len < first_packet
            \<or> block_len div max (tl_hdr_size L) 1 < unat (num_pkts h)
         then Some (s, Inl (InvalidData ''invalid TPACKET_V3 block bounds''))
         else packet_loop L visit block block_len 0 (unat (num_pkts h)) first_packet s)"

datatype poll_answer = PollFailed io_error | PollTimeout | PollHangup | PollReadable

text \<open>\<open>status1\<close> and \<open>status2\<close> say whether the block belongs to user space before and after
  \<^verbatim>\<open>poll\<close>.  The result says whether the block was claimed; \<^verbatim>\<open>BlockRelease\<close> returns a claimed
  block to the kernel on every path.\<close>

definition poll_block ::
  "tpacket_layout \<Rightarrow> 's visitor \<Rightarrow> bytes \<Rightarrow> bool \<Rightarrow> poll_answer \<Rightarrow> bool \<Rightarrow> packet_ring \<Rightarrow> 's \<Rightarrow> (packet_ring \<times> bool \<times> 's \<times> (io_error + bool option)) option" where
  "poll_block L visit mem status1 answer status2 ring s =
     (let claimed = slice_at mem (pr_current_block ring * pr_block_size ring) (pr_current_block ring * pr_block_size ring + pr_block_size ring) (\<lambda>block.
        case drain_block L visit (pr_block_size ring) block s of
          None \<Rightarrow> None
        | Some (s, Inl e) \<Rightarrow> Some (ring, True, s, Inl e)
        | Some (s, Inr keep_running) \<Rightarrow>
            if pr_block_count ring = 0 then None
            else Some (ring\<lparr>pr_current_block := (pr_current_block ring + 1) mod pr_block_count ring\<rparr>, True, s, Inr (Some keep_running)))
      in if status1 then claimed
         else case answer of
           PollFailed e \<Rightarrow> Some (ring, False, s, Inl e)
         | PollTimeout \<Rightarrow> Some (ring, False, s, Inr None)
         | PollHangup \<Rightarrow> Some (ring, False, s, Inl (OsError ''AF_PACKET poll returned revents''))
         | PollReadable \<Rightarrow> if status2 then claimed else Some (ring, False, s, Inr None))"

definition ARPHRD_ETHER :: u32 where "ARPHRD_ETHER = 1"
definition ARPHRD_RAWIP :: u32 where "ARPHRD_RAWIP = 519"
definition ARPHRD_LOOPBACK :: u32 where "ARPHRD_LOOPBACK = 772"
definition ARPHRD_NONE :: u32 where "ARPHRD_NONE = 65534"

definition linktype_for_hardware_type :: "u32 \<Rightarrow> u32 option" where
  "linktype_for_hardware_type t =
     (if t = ARPHRD_ETHER \<or> t = ARPHRD_LOOPBACK then Some LINK_ETHERNET
      else if t = ARPHRD_RAWIP \<or> t = ARPHRD_NONE then Some LINK_RAW_IP else None)"

section \<open>Memory safety of the ring\<close>

text \<open>A ring as \<^verbatim>\<open>open\<close> makes it: whole blocks, each large enough for its header.\<close>

definition pring_ok :: "tpacket_layout \<Rightarrow> packet_ring \<Rightarrow> bool" where
  "pring_ok L ring \<longleftrightarrow> pr_current_block ring < pr_block_count ring \<and> pr_len ring = pr_block_size ring * pr_block_count ring
     \<and> tl_block_desc_size L \<le> pr_block_size ring"

lemma slice_in: "a \<le> b \<Longrightarrow> b \<le> length data \<Longrightarrow> slice_at data a b k = k (take (b - a) (drop a data))"
  by (simp add: slice_at_def)

text \<open>The first \<open>N\<close> visits return on every slice of the block; each goes from \<open>P\<close> at its index to the
  next, or ends the walk with \<open>Q\<close>.\<close>

definition visits_keep :: "'s visitor \<Rightarrow> bytes \<Rightarrow> nat \<Rightarrow> (nat \<Rightarrow> 's \<Rightarrow> bool) \<Rightarrow> ('s \<Rightarrow> bool) \<Rightarrow> bool" where
  "visits_keep visit block N P Q \<longleftrightarrow>
     (\<forall>i a b wire_len t s. i < N \<longrightarrow> a \<le> b \<longrightarrow> b \<le> length block \<longrightarrow> b - a \<le> unat wire_len \<longrightarrow> P i s
        \<longrightarrow> (\<exists>s' k. visit i (take (b - a) (drop a block)) wire_len t s = Some (s', k) \<and> (if k then P (Suc i) s' else Q s')))"

abbreviation walk_ends :: "nat \<Rightarrow> (nat \<Rightarrow> 's \<Rightarrow> bool) \<Rightarrow> ('s \<Rightarrow> bool) \<Rightarrow> 's \<Rightarrow> bool \<Rightarrow> bool" where
  "walk_ends N P Q s ended \<equiv> if ended then Q s else \<exists>j \<le> N. P j s"

lemma packet_loop_safe:
  assumes "visits_keep visit block N P Q" "block_len \<le> length block" "i + n \<le> N" "P i s"
  shows "\<exists>s' r. packet_loop L visit block block_len i n off s = Some (s', r) \<and> walk_ends N P Q s' (r = Inr False)"
  using assms(3,4)
proof (induction n arbitrary: i off s)
  case (Suc n)
  let ?he = "off + tl_hdr_size L"
  let ?h = "tl_read_packet L (take (tl_hdr_size L) (drop off block))"
  let ?a = "off + unat (tp_mac ?h)" and ?n = "unat (tp_snaplen ?h)"
  show ?case
  proof (cases "\<not> block_len < ?he \<and> \<not> tp_len ?h < tp_snaplen ?h \<and> \<not> (?a < ?he \<or> block_len < ?a) \<and> \<not> block_len < ?a + ?n \<and> \<not> 1000000000 \<le> tp_nsec ?h")
    case True
    let ?t = "saturating_add (saturating_mul (ucast (tp_sec ?h)) 1000000000) (ucast (tp_nsec ?h))"
    have in_block: "?he \<le> length block" "?a + ?n \<le> length block" using True assms(2) by auto
    have wire: "?a + ?n - ?a \<le> unat (tp_len ?h)" using True by (simp add: word_less_nat_alt not_less)
    obtain s' k where v: "visit i (take ?n (drop ?a block)) (tp_len ?h) ?t s = Some (s', k)" "if k then P (Suc i) s' else Q s'"
      using assms(1) [unfolded visits_keep_def, rule_format, of i ?a "?a + ?n" "tp_len ?h" s ?t] in_block(2) wire Suc.prems by auto
    have "packet_loop L visit block block_len i (Suc n) off s =
        (if \<not> k then Some (s', Inr False) else if n = 0 then Some (s', Inr True)
         else if unat (tp_next_offset ?h) < tl_hdr_size L then Some (s', Inl (InvalidData ''invalid TPACKET_V3 next-packet offset''))
         else packet_loop L visit block block_len (Suc i) n (off + unat (tp_next_offset ?h)) s')"
      using True in_block v(1) by (simp add: slice_in Let_def)
    moreover have "\<exists>j \<le> N. P j s'" if k using that v(2) Suc.prems(1) by (intro exI [of _ "Suc i"]) simp
    ultimately show ?thesis using v(2) Suc.prems(1) Suc.IH [of "Suc i" s' "off + unat (tp_next_offset ?h)"] by (cases k) auto
  next
    case False
    moreover have "\<exists>j \<le> N. P j s" using Suc.prems by (intro exI [of _ i]) simp
    ultimately show ?thesis using assms(2) by (auto simp: slice_in Let_def)
  qed
qed auto

lemma drain_block_safe:
  assumes "visits_keep visit block (2 ^ 32) P Q" "tl_block_desc_size L \<le> length block" "length block = block_size" "P 0 s"
  shows "\<exists>s' r. drain_block L visit block_size block s = Some (s', r) \<and> walk_ends (2 ^ 32) P Q s' (r = Inr False)"
proof -
  let ?raw = "take (tl_block_desc_size L) (drop 0 block)"
  let ?h = "tl_read_block L ?raw"
  show ?thesis
  proof (cases "tl_version L ?raw \<noteq> TPACKET_V3 \<or> unat (blk_len ?h) < tl_block_desc_size L \<or> block_size < unat (blk_len ?h)
      \<or> unat (blk_len ?h) < unat (offset_to_first_pkt ?h) \<or> unat (blk_len ?h) div max (tl_hdr_size L) 1 < unat (num_pkts ?h)")
    case True
    then show ?thesis using assms(2,4) by (auto simp: drain_block_def slice_in Let_def)
  next
    case False
    then have "unat (blk_len ?h) \<le> length block" using assms(3) by simp
    moreover have "0 + unat (num_pkts ?h) \<le> 2 ^ 32" using unsigned_less [of "num_pkts ?h", where 'a = nat] by simp
    moreover note packet_loop_safe [OF assms(1) _ _ assms(4), of "unat (blk_len ?h)" "unat (num_pkts ?h)" L "unat (offset_to_first_pkt ?h)"]
    ultimately
    show ?thesis using False assms(2) by (simp add: drain_block_def slice_in Let_def)
  qed
qed

definition block_of :: "packet_ring \<Rightarrow> bytes \<Rightarrow> bytes" where
  "block_of ring mem = take (pr_block_size ring) (drop (pr_current_block ring * pr_block_size ring) mem)"

lemma block_in_ring:
  assumes "pring_ok L ring" "length mem = pr_len ring"
  shows "pr_current_block ring * pr_block_size ring + pr_block_size ring \<le> length mem"
proof -
  have "(pr_current_block ring + 1) * pr_block_size ring \<le> pr_block_count ring * pr_block_size ring"
    using assms(1) by (intro mult_le_mono1) (simp add: pring_ok_def)
  then show ?thesis using assms by (simp add: pring_ok_def mult.commute)
qed

lemma poll_block_safe:
  assumes ok: "pring_ok L ring" "length mem = pr_len ring" and visit: "visits_keep visit (block_of ring mem) (2 ^ 32) P Q" "P 0 s"
  shows "\<exists>ring' claimed s' r. poll_block L visit mem status1 answer status2 ring s = Some (ring', claimed, s', r) \<and> walk_ends (2 ^ 32) P Q s' (r = Inr (Some False)) \<and> pring_ok L ring'
     \<and> (claimed \<longleftrightarrow> status1 \<or> answer = PollReadable \<and> status2) \<and> (\<not> claimed \<longrightarrow> s' = s)
     \<and> (if \<exists>k. r = Inr (Some k) then pr_current_block ring' = (pr_current_block ring + 1) mod pr_block_count ring else ring' = ring)"
proof -
  note inr = block_in_ring [OF ok]
  have size: "length (block_of ring mem) = pr_block_size ring" using inr by (simp add: block_of_def)
  have desc: "tl_block_desc_size L \<le> length (block_of ring mem)" using ok(1) size by (simp add: pring_ok_def)
  obtain s1 r1 where d: "drain_block L visit (pr_block_size ring) (block_of ring mem) s = Some (s1, r1)" "walk_ends (2 ^ 32) P Q s1 (r1 = Inr False)"
    using drain_block_safe [OF visit(1) desc size visit(2)] by blast
  let ?at = "pr_current_block ring * pr_block_size ring"
  have cut: "slice_at mem ?at (?at + pr_block_size ring) k = k (block_of ring mem)" for k :: "bytes \<Rightarrow> 'x option"
    using inr by (simp add: slice_in block_of_def)
  have count: "0 < pr_block_count ring" using ok(1) by (auto simp: pring_ok_def)
  show ?thesis
  proof (cases "status1 \<or> answer = PollReadable \<and> status2")
    case True
    then have "poll_block L visit mem status1 answer status2 ring s =
        (case r1 of Inl e \<Rightarrow> Some (ring, True, s1, Inl e)
         | Inr k \<Rightarrow> Some (ring\<lparr>pr_current_block := (pr_current_block ring + 1) mod pr_block_count ring\<rparr>, True, s1, Inr (Some k)))"
      using d(1) count by (auto simp: poll_block_def cut Let_def split: sum.split)
    then show ?thesis using True d(2) ok(1) count by (cases r1) (auto simp: pring_ok_def)
  next
    case False
    then obtain r where "poll_block L visit mem status1 answer status2 ring s = Some (ring, False, s, r)" "\<nexists>k. r = Inr (Some k)"
      by (cases answer) (auto simp: poll_block_def Let_def)
    moreover have "\<exists>j \<le> 2 ^ 32. P j s" using visit(2) by (intro exI [of _ 0]) simp
    ultimately show ?thesis using False ok(1) by (intro exI [of _ ring] exI [of _ False] exI [of _ s] exI [of _ r]) simp
  qed
qed

text \<open>The settings of a validated source give such a ring, on hosts whose pages are at most 64 KiB: the
  requested sizes are exact and within the limit of 1 GiB.\<close>

lemma single_bit:
  assumes "is_power_of_two x"
  shows "\<exists>j < 32. x = 2 ^ j"
proof -
  obtain j where j: "filter (bit x) [0..<32] = [j]" using assms by (auto simp: is_power_of_two_def length_Suc_conv)
  then have "{i. i < 32 \<and> bit x i} = {j}" using set_filter [of "bit x" "[0..<32]"] by auto
  then have "j < 32" "\<And>i. i < 32 \<Longrightarrow> bit x i \<longleftrightarrow> i = j" by auto
  then have "x = 2 ^ j" by (intro bit_word_eqI) (auto simp: bit_exp_iff)
  then show ?thesis using \<open>j < 32\<close> by blast
qed

lemma validated_ring_is_sound:
  assumes "validate_source (Source_AfPacket name block_size block_count timeout mode fanout_group) shards strategy = Inr ()" "shards \<le> 256"
    and "k \<le> 16" "tl_block_desc_size L \<le> 65536"
  defines "settings \<equiv> \<lparr>rs_block_size_bytes = block_size, rs_block_count = block_count, rs_retire_timeout_ms = timeout\<rparr>"
  shows "\<exists>ring_bytes frames. ring_request settings (2 ^ k) = Inr (ring_bytes, frames) \<and> pring_ok L (ring_of settings ring_bytes)
     \<and> ring_bytes \<le> 2 ^ 30 \<and> unat frames * FRAME_SIZE_BYTES = ring_bytes"
proof -
  have v: "MIN_RING_BLOCK_SIZE_BYTES \<le> block_size" "is_power_of_two block_size" "block_count \<noteq> 0" 
    using assms(1) by (auto simp: validate_source_def rbind_Inr_iff Let_def split: option.splits)
  obtain aggregate where a: "checked_mul (ucast block_size * ucast block_count) (word_of_nat (if mode = Fanout_Single then 1 else shards)) = Some aggregate"
      "aggregate \<le> MAX_RING_BYTES" "mode = Fanout_Single \<or> 2 \<le> shards"
    using assms(1) by (auto simp: validate_source_def rbind_Inr_iff Let_def split: option.splits if_splits)
  obtain j where j: "j < 32" "block_size = 2 ^ j" using single_bit [OF v(2)] by blast
  have size: "unat block_size = 2 ^ j" using j(1) u32_of_nat_unat [of "2 ^ j"] power_strict_increasing [of j 32 "2 :: nat"] by (simp add: j(2))
  have ge: "(2 ^ 16 :: nat) \<le> 2 ^ j" using v(1) size by (simp add: MIN_RING_BLOCK_SIZE_BYTES_def word_le_nat_alt)
  then have j16: "16 \<le> j" by (rule power_le_imp_le_exp [rotated]) simp
  let ?n = "unat block_size * unat block_count"
  have "?n < 2 ^ 32 * 2 ^ 32" using unsigned_less [of block_size, where 'a = nat] unsigned_less [of block_count, where 'a = nat] by (intro mult_strict_mono) auto
  then have prod: "unat (ucast block_size * ucast block_count :: u64) = ?n" "unat (ucast block_size :: u64) * unat (ucast block_count :: u64) < 2 ^ 64"
    by (simp_all add: unat_word_ariths unat_ucast_up)
  define lanes where "lanes = (if mode = Fanout_Single then 1 else shards)"
  have "unat (word_of_nat lanes :: u64) = lanes" using assms(2) by (intro u64_of_nat_unat) (simp add: lanes_def)
  then have agg: "unat aggregate = ?n * lanes"
    using a(1) prod(1) by (auto simp: checked_mul_def unat_word_ariths lanes_def [symmetric] split: if_splits)
  have "unat aggregate \<le> 2 ^ 30" using a(2) by (simp add: MAX_RING_BYTES_def word_le_nat_alt)
  moreover have "?n * 1 \<le> ?n * lanes" using a(3) by (intro mult_le_mono2) (auto simp: lanes_def)
  ultimately have le: "?n \<le> 2 ^ 30" unfolding agg by linarith
  have "(2 ^ 11 :: nat) dvd unat block_size" unfolding size using j16 by (intro le_imp_power_dvd) linarith
  then have frame_dvd: "FRAME_SIZE_BYTES dvd unat block_size" by (simp add: FRAME_SIZE_BYTES_def)
  have "uint block_size = 2 ^ j" unfolding uint_nat size by simp
  moreover have "(2 ^ k :: int) dvd 2 ^ j" using j16 assms(3) by (intro le_imp_power_dvd) linarith
  ultimately have page: "uint block_size mod 2 ^ k = 0" by simp
  have frames: "?n div FRAME_SIZE_BYTES < 2 ^ 32" using le_less_trans [OF order.trans [OF div_le_dividend le]] by simp
  have "ring_request settings (2 ^ k) = Inr (?n, word_of_nat (?n div FRAME_SIZE_BYTES))"
    using page prod frames by (simp add: ring_request_def settings_def checked_mul_def Let_def)
  moreover have "unat (word_of_nat (?n div FRAME_SIZE_BYTES) :: u32) = ?n div FRAME_SIZE_BYTES" using frames by (rule u32_of_nat_unat)
  moreover have "FRAME_SIZE_BYTES dvd ?n" using frame_dvd by (rule dvd_mult2)
  moreover have "pring_ok L (ring_of settings ?n)"
    using v(3) ge size assms(4) by (simp add: pring_ok_def ring_of_def settings_def unat_gt_0)
  ultimately show ?thesis using le by auto
qed

text \<open>
  C14: The receive ring is read safely.  Whatever the kernel has written into a block of the ring, polling it
  returns and reads nothing outside that block.  The block is claimed exactly when it was handed to
  user space, and the visitor runs only then.  The ring moves on to the next block exactly when the
  block has been read without an error, and stays a ring of whole blocks.
\<close>

theorem receive_ring_is_memory_safe:
  assumes "pring_ok L ring" "length mem = pr_len ring" "\<And>i bs wire_len t s. visit i bs wire_len t s \<noteq> None"
  shows "\<exists>ring' claimed s' r. poll_block L visit mem status1 answer status2 ring s = Some (ring', claimed, s', r) \<and> pring_ok L ring'
     \<and> (claimed \<longleftrightarrow> status1 \<or> answer = PollReadable \<and> status2) \<and> (\<not> claimed \<longrightarrow> s' = s)
     \<and> (if \<exists>k. r = Inr (Some k) then pr_current_block ring' = (pr_current_block ring + 1) mod pr_block_count ring else ring' = ring)"
proof -
  have "visits_keep visit (block_of ring mem) (2 ^ 32) (\<lambda>_ _. True) (\<lambda>_. True)" using assms(3) by (fastforce simp: visits_keep_def)
  from poll_block_safe [OF assms(1,2) this TrueI, of status1 answer status2 s] show ?thesis by blast
qed

section \<open>Events for the engine\<close>

record lane_counters =
  lc_packets_seen :: u64
  lc_packets_parsed :: u64
  lc_packets_unparsed :: u64
  lc_events_processed :: u64
  lc_kernel_packets :: u64
  lc_kernel_drops :: u64
  lc_queue_freezes :: u64
  lc_userspace_drops :: u64

text \<open>The counters of \<^verbatim>\<open>PublishedState\<close> that capture and the workers write; those the kernel program
  reports are kept together.\<close>

record capture_counters =
  ct_events_processed :: u64
  ct_runtime_batches :: u64
  ct_packets_seen :: u64
  ct_packets_parsed :: u64
  ct_packets_unparsed :: u64
  ct_invalid_timestamps :: u64
  ct_kernel_packets :: u64
  ct_kernel_dropped_packets :: u64
  ct_kernel_queue_freezes :: u64
  ct_dropped_events :: u64
  ct_ebpf :: tc_collector_counters
  ct_lanes :: "lane_counters list"

definition at_lane :: "nat \<Rightarrow> (lane_counters \<Rightarrow> lane_counters) \<Rightarrow> capture_counters \<Rightarrow> capture_counters" where
  "at_lane lane f ct = (if lane < length (ct_lanes ct) then ct\<lparr>ct_lanes := (ct_lanes ct)[lane := f (ct_lanes ct ! lane)]\<rparr> else ct)"

definition record_capture_lane_packets :: "nat \<Rightarrow> u64 \<Rightarrow> u64 \<Rightarrow> u64 \<Rightarrow> capture_counters \<Rightarrow> capture_counters" where
  "record_capture_lane_packets lane seen parsed unparsed =
     at_lane lane (\<lambda>c. c\<lparr>lc_packets_seen := lc_packets_seen c + seen, lc_packets_parsed := lc_packets_parsed c + parsed,
       lc_packets_unparsed := lc_packets_unparsed c + unparsed\<rparr>)"

definition record_capture_lane_statistics :: "nat \<Rightarrow> u64 \<Rightarrow> u64 \<Rightarrow> u64 \<Rightarrow> capture_counters \<Rightarrow> capture_counters" where
  "record_capture_lane_statistics lane pkts drops queue_freezes =
     at_lane lane (\<lambda>c. c\<lparr>lc_kernel_packets := lc_kernel_packets c + pkts, lc_kernel_drops := lc_kernel_drops c + drops,
       lc_queue_freezes := lc_queue_freezes c + queue_freezes\<rparr>)"

definition record_capture_lane_events_processed :: "nat \<Rightarrow> u64 \<Rightarrow> capture_counters \<Rightarrow> capture_counters" where
  "record_capture_lane_events_processed lane events = at_lane lane (\<lambda>c. c\<lparr>lc_events_processed := lc_events_processed c + events\<rparr>)"

definition record_capture_lane_userspace_drop :: "nat \<Rightarrow> capture_counters \<Rightarrow> capture_counters" where
  "record_capture_lane_userspace_drop lane = at_lane lane (\<lambda>c. c\<lparr>lc_userspace_drops := lc_userspace_drops c + 1\<rparr>)"

record live_timestamp_bounds =
  tb_earliest :: u64
  tb_latest :: u64

definition MAX_LIVE_TIMESTAMP_SKEW :: u64 where
  "MAX_LIVE_TIMESTAMP_SKEW = 5 * 60 * 1000000000"

text \<open>From the nanoseconds of the wall clock since the epoch.\<close>

definition bounds_sample :: "int \<Rightarrow> agent_error + live_timestamp_bounds" where
  "bounds_sample now =
     (if now < 0 then Inl (SourceError ''system clock is before epoch'')
      else let now = (if now < 2 ^ 64 then word_of_int now else - 1)
        in Inr \<lparr>tb_earliest = saturating_sub now MAX_LIVE_TIMESTAMP_SKEW, tb_latest = saturating_add now MAX_LIVE_TIMESTAMP_SKEW\<rparr>)"

definition bounds_contains :: "live_timestamp_bounds \<Rightarrow> u64 \<Rightarrow> bool" where
  "bounds_contains b t \<longleftrightarrow> tb_earliest b \<le> t \<and> t \<le> tb_latest b"

text \<open>A sender is the shared channel or that of one lane.  What \<^verbatim>\<open>try_send\<close> answers depends on
  the consumer and is input; the events that were accepted are kept in order.\<close>

datatype capture_event_sender = SharedSender | DirectSender nat

datatype send_answer = Sent | Full | Disconnected

record visit_state =
  vs_seen :: u64
  vs_parsed :: u64
  vs_unparsed :: u64
  vs_counters :: capture_counters
  vs_channel :: "flow_event list"

definition offer_event :: "capture_event_sender \<Rightarrow> send_answer \<Rightarrow> flow_event \<Rightarrow> visit_state \<Rightarrow> visit_state \<times> bool" where
  "offer_event sender answer event st = (case answer of
       Sent \<Rightarrow> (st\<lparr>vs_channel := vs_channel st @ [event]\<rparr>, True)
     | Full \<Rightarrow>
         (let ct = (vs_counters st)\<lparr>ct_dropped_events := ct_dropped_events (vs_counters st) + 1\<rparr>;
              ct = (case sender of SharedSender \<Rightarrow> ct | DirectSender lane \<Rightarrow> record_capture_lane_userspace_drop lane ct)
          in (st\<lparr>vs_counters := ct\<rparr>, True))
     | Disconnected \<Rightarrow> (st, False))"

definition count_invalid :: "visit_state \<Rightarrow> visit_state" where
  "count_invalid st = st\<lparr>vs_unparsed := vs_unparsed st + 1,
     vs_counters := (vs_counters st)\<lparr>ct_invalid_timestamps := ct_invalid_timestamps (vs_counters st) + 1\<rparr>\<rparr>"

text \<open>The closure \<^verbatim>\<open>af_packet_socket_loop\<close> passes to \<^verbatim>\<open>poll_block\<close>; \<open>env i\<close> says whether a stop was
  requested when packet \<open>i\<close> is visited, and the answer of the channel.\<close>

definition capture_packet :: "u32 \<Rightarrow> live_timestamp_bounds \<Rightarrow> capture_event_sender \<Rightarrow> (nat \<Rightarrow> bool \<times> send_answer) \<Rightarrow> visit_state visitor" where
  "capture_packet link bnds sender env i packet wire_len timestamp st =
     (if fst (env i) then Some (st, False)
      else let st = st\<lparr>vs_seen := vs_seen st + 1\<rparr> in
        case parse_packet_with_wire_len link packet wire_len of
          None \<Rightarrow> None
        | Some None \<Rightarrow> Some (st\<lparr>vs_unparsed := vs_unparsed st + 1\<rparr>, True)
        | Some (Some event) \<Rightarrow>
            if \<not> bounds_contains bnds timestamp then Some (count_invalid st, True)
            else let event = event\<lparr>ts_nanos := timestamp\<rparr>;
                     event = (if ev_bytes event = 0 then event\<lparr>ev_bytes := word_of_nat (length packet)\<rparr> else event)
                 in Some (offer_event sender (snd (env i)) event (st\<lparr>vs_parsed := vs_parsed st + 1\<rparr>)))"

definition visit_start :: "capture_counters \<Rightarrow> flow_event list \<Rightarrow> visit_state" where
  "visit_start ct channel = \<lparr>vs_seen = 0, vs_parsed = 0, vs_unparsed = 0, vs_counters = ct, vs_channel = channel\<rparr>"

text \<open>After a poll the local counts are added to the published ones.\<close>

definition publish_counts :: "nat option \<Rightarrow> visit_state \<Rightarrow> capture_counters" where
  "publish_counts lane st =
     (let ct = vs_counters st in
      if vs_seen st = 0 then ct
      else let ct = ct\<lparr>ct_packets_seen := ct_packets_seen ct + vs_seen st, ct_packets_parsed := ct_packets_parsed ct + vs_parsed st,
                 ct_packets_unparsed := ct_packets_unparsed ct + vs_unparsed st\<rparr>
           in case lane of None \<Rightarrow> ct | Some l \<Rightarrow> record_capture_lane_packets l (vs_seen st) (vs_parsed st) (vs_unparsed st) ct)"

definition record_packet_statistics :: "nat option \<Rightarrow> io_error + u32 \<times> u32 \<times> u32 \<Rightarrow> capture_counters \<Rightarrow> capture_counters \<times> (agent_error + unit)" where
  "record_packet_statistics lane stats ct = (case stats of
       Inl _ \<Rightarrow> (ct, Inl (SourceError ''PACKET_STATISTICS''))
     | Inr (pkts, drops, freezes) \<Rightarrow>
         (let ct = ct\<lparr>ct_kernel_packets := ct_kernel_packets ct + ucast pkts, ct_kernel_dropped_packets := ct_kernel_dropped_packets ct + ucast drops,
                ct_kernel_queue_freezes := ct_kernel_queue_freezes ct + ucast freezes\<rparr>
          in (case lane of None \<Rightarrow> ct | Some l \<Rightarrow> record_capture_lane_statistics l (ucast pkts) (ucast drops) (ucast freezes) ct, Inr ())))"

text \<open>One turn of \<^verbatim>\<open>af_packet_socket_loop\<close>: the inputs are the wall clock, whether a stop was
  requested, the kernel's answers, whether statistics are due and what the kernel reports.  The
  last component is the result of the loop when the turn ends it.\<close>

record turn =
  tn_now :: int
  tn_halted :: bool
  tn_env :: "nat \<Rightarrow> bool \<times> send_answer"
  tn_status1 :: bool
  tn_answer :: poll_answer
  tn_status2 :: bool
  tn_stats_due :: bool
  tn_stats :: "io_error + u32 \<times> u32 \<times> u32"
  tn_last_stats :: "io_error + u32 \<times> u32 \<times> u32"

definition socket_turn ::
  "tpacket_layout \<Rightarrow> u32 \<Rightarrow> capture_event_sender \<Rightarrow> nat option \<Rightarrow> bytes \<Rightarrow> turn \<Rightarrow> packet_ring \<Rightarrow> capture_counters \<Rightarrow> flow_event list
     \<Rightarrow> (packet_ring \<times> capture_counters \<times> flow_event list \<times> (agent_error + unit) option) option" where
  "socket_turn L link sender lane mem tn ring ct channel = (case bounds_sample (tn_now tn) of
       Inl e \<Rightarrow> Some (ring, ct, channel, Some (Inl e))
     | Inr bnds \<Rightarrow>
      if tn_halted tn then
        let (ct, r) = record_packet_statistics lane (tn_last_stats tn) ct in Some (ring, ct, channel, Some r)
      else case poll_block L (capture_packet link bnds sender (tn_env tn)) mem (tn_status1 tn) (tn_answer tn) (tn_status2 tn)
                  ring (visit_start ct channel) of
        None \<Rightarrow> None
      | Some (ring, _, st, r) \<Rightarrow>
          let ct = publish_counts lane st; channel = vs_channel st in
          (case r of
             Inl Interrupted \<Rightarrow> Some (ring, ct, channel, None)
           | Inl _ \<Rightarrow> Some (ring, ct, channel, Some (Inl (SourceError ''TPACKET_V3 receive'')))
           | Inr keep \<Rightarrow>
               let (ct, stats) = (if tn_stats_due tn then record_packet_statistics lane (tn_stats tn) ct else (ct, Inr ())) in
               (case stats of
                  Inl e \<Rightarrow> Some (ring, ct, channel, Some (Inl e))
                | Inr _ \<Rightarrow>
                    if keep = Some False then let (ct, r) = record_packet_statistics lane (tn_last_stats tn) ct in Some (ring, ct, channel, Some r)
                    else Some (ring, ct, channel, None))))"

section \<open>Accounting\<close>

text \<open>The state of the closure against where it started: \<open>lost\<close> events were parsed when the engine
  was gone.\<close>

definition accounted :: "live_timestamp_bounds \<Rightarrow> capture_counters \<Rightarrow> flow_event list \<Rightarrow> nat \<Rightarrow> nat \<Rightarrow> visit_state \<Rightarrow> bool" where
  "accounted bnds ct channel lost n st \<longleftrightarrow>
     unat (vs_seen st) \<le> n \<and> unat (vs_seen st) = unat (vs_parsed st) + unat (vs_unparsed st)
     \<and> ct_packets_seen (vs_counters st) = ct_packets_seen ct \<and> ct_packets_parsed (vs_counters st) = ct_packets_parsed ct
     \<and> ct_packets_unparsed (vs_counters st) = ct_packets_unparsed ct
     \<and> (\<exists>new. vs_channel st = channel @ new \<and> (\<forall>ev \<in> set new. bounds_contains bnds (ts_nanos ev))
          \<and> unat (vs_parsed st) = length new + unat (ct_dropped_events (vs_counters st) - ct_dropped_events ct) + lost)"

lemma at_lane_counts [simp]:
  "ct_packets_seen (at_lane l f ct) = ct_packets_seen ct" "ct_packets_parsed (at_lane l f ct) = ct_packets_parsed ct"
  "ct_packets_unparsed (at_lane l f ct) = ct_packets_unparsed ct" "ct_dropped_events (at_lane l f ct) = ct_dropped_events ct"
  by (simp_all add: at_lane_def)

lemma unat_Suc_small: "unat x < 2 ^ 32 \<Longrightarrow> unat (x + 1) = Suc (unat x)" for x :: u64
  using u64_add_exact [of x 1] by simp

lemma accounted_start: "accounted bnds ct channel 0 0 (visit_start ct channel)"
  by (simp add: accounted_def visit_start_def)

lemma accounted_unparsed:
  assumes "accounted bnds ct channel 0 n st" "n < 2 ^ 32"
  shows "accounted bnds ct channel 0 (Suc n) (st\<lparr>vs_seen := vs_seen st + 1, vs_unparsed := vs_unparsed st + 1\<rparr>)"
    "accounted bnds ct channel 0 (Suc n) (count_invalid (st\<lparr>vs_seen := vs_seen st + 1\<rparr>))"
  using assms by (auto simp: accounted_def count_invalid_def unat_Suc_small)

lemma offer_event_accounted:
  assumes "accounted bnds ct channel 0 n st" "n < 2 ^ 32" "bounds_contains bnds (ts_nanos ev)"
    and "offer_event sender answer ev (st\<lparr>vs_seen := vs_seen st + 1, vs_parsed := vs_parsed st + 1\<rparr>) = (st', k)"
  shows "accounted bnds ct channel (if k then 0 else 1) (Suc n) st'"
proof -
  obtain new where new: "vs_channel st = channel @ new" "\<forall>ev \<in> set new. bounds_contains bnds (ts_nanos ev)"
    "unat (vs_parsed st) = length new + unat (ct_dropped_events (vs_counters st) - ct_dropped_events ct)" using assms(1) by (auto simp: accounted_def)
  have small: "unat (vs_seen st) < 2 ^ 32" "unat (vs_parsed st) < 2 ^ 32" using assms(1,2) by (auto simp: accounted_def)
  have drop: "ct_dropped_events (vs_counters st) + 1 - ct_dropped_events ct = ct_dropped_events (vs_counters st) - ct_dropped_events ct + 1" by simp
  have small': "unat (ct_dropped_events (vs_counters st) - ct_dropped_events ct) < 2 ^ 32" using new(3) small(2) by simp
  note suc = unat_Suc_small [OF small(1)] unat_Suc_small [OF small(2)] unat_Suc_small [OF small']
  show ?thesis
  proof (cases answer)
    case Sent
    then show ?thesis using assms new by (auto simp: accounted_def offer_event_def suc intro!: exI [of _ "new @ [ev]"])
  next
    case Full
    then show ?thesis using assms new
      by (auto simp: accounted_def offer_event_def record_capture_lane_userspace_drop_def Let_def drop suc intro!: exI [of _ new] split: capture_event_sender.splits)
  next
    case Disconnected
    then show ?thesis using assms new by (auto simp: accounted_def offer_event_def suc intro!: exI [of _ new])
  qed
qed

lemma capture_packet_keeps:
  "visits_keep (capture_packet link bnds sender env) block (2 ^ 32) (accounted bnds ct channel 0)
     (\<lambda>st. \<exists>n \<le> 2 ^ 32. accounted bnds ct channel 0 n st \<or> accounted bnds ct channel 1 n st)"
  unfolding visits_keep_def
proof (intro allI impI)
  fix i a b wire_len t st
  assume i: "i < (2 ^ 32 :: nat)" and acc: "accounted bnds ct channel 0 i st"
  let ?p = "take (b - a) (drop a block)"
  have "yields (parse_packet_with_wire_len link ?p wire_len) (\<lambda>e. unat (ev_bytes e) \<le> unat wire_len)" by (rule parse_packet_safe)
  then obtain r where r: "parse_packet_with_wire_len link ?p wire_len = Some r" by (auto simp: yields_def)
  show "\<exists>s' k. capture_packet link bnds sender env i ?p wire_len t st = Some (s', k)
      \<and> (if k then accounted bnds ct channel 0 (Suc i) s' else \<exists>n \<le> 2 ^ 32. accounted bnds ct channel 0 n s' \<or> accounted bnds ct channel 1 n s')"
  proof (cases "fst (env i)")
    case True
    moreover have "\<exists>n \<le> 2 ^ 32. accounted bnds ct channel 0 n st \<or> accounted bnds ct channel 1 n st" using acc less_imp_le [OF i] by blast
    ultimately show ?thesis by (intro exI [of _ st] exI [of _ False]) (simp add: capture_packet_def)
  next
    case run: False
    show ?thesis
    proof (cases "r = None \<or> \<not> bounds_contains bnds t")
      case True
      then show ?thesis using r run accounted_unparsed [OF acc i] by (cases r) (auto simp: capture_packet_def Let_def)
    next
      case False
      then obtain ev0 where ev0: "r = Some ev0" by auto
      define ev where "ev = (if ev_bytes ev0 = 0 then ev0\<lparr>ts_nanos := t, ev_bytes := word_of_nat (length ?p)\<rparr> else ev0\<lparr>ts_nanos := t\<rparr>)"
      let ?st = "st\<lparr>vs_seen := vs_seen st + 1, vs_parsed := vs_parsed st + 1\<rparr>"
      obtain st' k where o: "offer_event sender (snd (env i)) ev ?st = (st', k)" by fastforce
      have "capture_packet link bnds sender env i ?p wire_len t st = Some (st', k)"
        using run False r ev0 o by (simp add: capture_packet_def Let_def ev_def)
      moreover have kept: "accounted bnds ct channel (if k then 0 else 1) (Suc i) st'"
        using offer_event_accounted [OF acc i _ o] False by (simp add: ev_def)
      moreover have "\<exists>n \<le> 2 ^ 32. accounted bnds ct channel 0 n st' \<or> accounted bnds ct channel 1 n st'" if "\<not> k"
        using kept that Suc_leI [OF i] by (intro exI [of _ "Suc i"]) simp
      ultimately show ?thesis by (intro exI [of _ st'] exI [of _ k]) (simp split: if_splits)
    qed
  qed
qed

text \<open>A time within five minutes of the wall clock (which the code reads as at most \<open>2 ^ 64 - 1\<close>).\<close>

definition contemporary :: "int \<Rightarrow> u64 \<Rightarrow> bool" where
  "contemporary now t \<longleftrightarrow> \<bar>uint t - min now (2 ^ 64 - 1)\<bar> \<le> 5 * 60 * 1000000000"

lemma bounds_contemporary:
  assumes "bounds_sample now = Inr b" "bounds_contains b t"
  shows "contemporary now t"
proof -
  define w where "w = (if now < 2 ^ 64 then word_of_int now else - 1 :: u64)"
  have now: "0 \<le> now" and b: "b = \<lparr>tb_earliest = saturating_sub w MAX_LIVE_TIMESTAMP_SKEW, tb_latest = saturating_add w MAX_LIVE_TIMESTAMP_SKEW\<rparr>"
    using assms(1) by (auto simp: bounds_sample_def w_def Let_def split: if_splits)
  have w: "uint w = min now (2 ^ 64 - 1)"
    using now by (auto simp: w_def uint_word_of_int take_bit_int_eq_self unsigned_minus_1_eq_mask mask_eq_exp_minus_1)
  have "saturating_sub w MAX_LIVE_TIMESTAMP_SKEW \<le> t" "t \<le> saturating_add w MAX_LIVE_TIMESTAMP_SKEW"
    using assms(2) by (simp_all add: b bounds_contains_def)
  then have near: "unat w \<le> unat t + 300000000000" "unat t \<le> unat w + 300000000000"
    by (auto simp: unsigned_minus_1_eq_mask mask_eq_exp_minus_1 saturating_sub_def saturating_add_def checked_add_def MAX_LIVE_TIMESTAMP_SKEW_def word_le_nat_alt word_less_nat_alt unat_sub_if' u64_add_exact
      split: if_splits)
  have "uint w - 300000000000 \<le> uint t" "uint t \<le> uint w + 300000000000"
    using near unfolding uint_nat by linarith+
  then show ?thesis unfolding contemporary_def w [symmetric] by (simp add: abs_le_iff)
qed

text \<open>What a turn publishes of an accounted poll.\<close>

definition turn_ok :: "int \<Rightarrow> capture_counters \<Rightarrow> flow_event list \<Rightarrow> nat \<Rightarrow> capture_counters \<Rightarrow> flow_event list \<Rightarrow> bool" where
  "turn_ok now ct channel lost ct' channel' \<longleftrightarrow>
     unat (ct_packets_seen ct' - ct_packets_seen ct) = unat (ct_packets_parsed ct' - ct_packets_parsed ct) + unat (ct_packets_unparsed ct' - ct_packets_unparsed ct)
     \<and> (\<exists>new. channel' = channel @ new \<and> (\<forall>ev \<in> set new. contemporary now (ts_nanos ev))
          \<and> unat (ct_packets_parsed ct' - ct_packets_parsed ct) = length new + unat (ct_dropped_events ct' - ct_dropped_events ct) + lost)"

lemma turn_ok_refl: "turn_ok now ct channel 0 ct channel"
  by (simp add: turn_ok_def)

lemma publish_counts_ok:
  assumes "bounds_sample now = Inr bnds" "accounted bnds ct channel lost n st"
  shows "turn_ok now ct channel lost (publish_counts lane st) (vs_channel st)"
proof -
  obtain new where new: "vs_channel st = channel @ new" "\<forall>ev \<in> set new. contemporary now (ts_nanos ev)"
    "unat (vs_parsed st) = length new + unat (ct_dropped_events (vs_counters st) - ct_dropped_events ct) + lost"
    using assms(2) bounds_contemporary [OF assms(1)] unfolding accounted_def by blast
  show ?thesis
  proof (cases "vs_seen st = 0")
    case True
    then have "vs_parsed st = 0" "vs_unparsed st = 0" using assms(2) by (auto simp: accounted_def unat_eq_0)
    then show ?thesis using True assms(2) new by (auto simp: accounted_def turn_ok_def publish_counts_def)
  next
    case False
    then show ?thesis using assms(2) new
      by (auto simp: accounted_def turn_ok_def publish_counts_def record_capture_lane_packets_def Let_def split: option.splits)
  qed
qed

lemma statistics_ok:
  assumes "turn_ok now ct channel lost ct1 channel'" "record_packet_statistics lane stats ct1 = (ct2, r)"
  shows "turn_ok now ct channel lost ct2 channel'"
  using assms by (auto simp: turn_ok_def record_packet_statistics_def record_capture_lane_statistics_def Let_def split: sum.splits option.splits)


text \<open>The headers as Linux lays them out on little-endian hosts.\<close>

definition le_at :: "nat \<Rightarrow> nat \<Rightarrow> bytes \<Rightarrow> 'a::len word" where
  "le_at off n raw = le_word (take n (drop off raw))"

definition linux_layout :: tpacket_layout where
  "linux_layout = \<lparr>tl_block_desc_size = 48, tl_hdr_size = 48, tl_version = le_at 0 4,
     tl_read_block = (\<lambda>raw. \<lparr>blk_len = le_at 20 4 raw, offset_to_first_pkt = le_at 16 4 raw, num_pkts = le_at 12 4 raw\<rparr>),
     tl_read_packet = (\<lambda>raw. \<lparr>tp_next_offset = le_at 0 4 raw, tp_sec = le_at 4 4 raw, tp_nsec = le_at 8 4 raw, tp_snaplen = le_at 12 4 raw,
       tp_len = le_at 16 4 raw, tp_mac = le_at 24 2 raw\<rparr>)\<rparr>"

text \<open>Two blocks of 128 bytes; the first holds one packet of four bytes, captured at second 7.\<close>

definition sample_ring :: packet_ring where
  "sample_ring = \<lparr>pr_len = 256, pr_block_size = 128, pr_block_count = 2, pr_current_block = 0\<rparr>"

definition sample_mem :: bytes where
  "sample_mem =
     (le_bytes 4 (2 :: u32) @ replicate 8 0 @ le_bytes 4 (1 :: u32) @ le_bytes 4 (48 :: u32) @ le_bytes 4 (100 :: u32) @ replicate 24 0)
     @ (le_bytes 4 (0 :: u32) @ le_bytes 4 (7 :: u32) @ le_bytes 4 (9 :: u32) @ le_bytes 4 (4 :: u32) @ le_bytes 4 (60 :: u32) @ replicate 4 0
          @ le_bytes 2 (48 :: u16) @ replicate 22 0)
     @ [1, 2, 3, 4] @ replicate 28 0 @ replicate 128 0"

lemma sample_ring_ok: "pring_ok linux_layout sample_ring" "length sample_mem = pr_len sample_ring"
  by (simp_all add: pring_ok_def linux_layout_def sample_ring_def sample_mem_def)

theorem receive_ring_is_memory_safe_witness:
  "\<exists>ring' s' r. poll_block linux_layout (\<lambda>i bs wire_len t s. Some (s @ [(bs, wire_len, t)], True)) sample_mem True PollTimeout False sample_ring []
       = Some (ring', True, s', r) \<and> pring_ok linux_layout ring'
     \<and> (if \<exists>k. r = Inr (Some k) then pr_current_block ring' = 1 else ring' = sample_ring)"
proof -
  have "(pr_current_block sample_ring + 1) mod pr_block_count sample_ring = 1" by (simp add: sample_ring_def)
  from receive_ring_is_memory_safe [OF sample_ring_ok, of "\<lambda>i bs wire_len t s. Some (s @ [(bs, wire_len, t)], True)" True PollTimeout False "[]", unfolded this, OF option.distinct(2)]
  show ?thesis by (auto split del: if_split)
qed

definition no_counts :: capture_counters where
  "no_counts = \<lparr>ct_events_processed = 0, ct_runtime_batches = 0, ct_packets_seen = 0, ct_packets_parsed = 0, ct_packets_unparsed = 0, ct_invalid_timestamps = 0, ct_kernel_packets = 0,
      ct_kernel_dropped_packets = 0, ct_kernel_queue_freezes = 0, ct_dropped_events = 0,
      ct_ebpf = \<lparr>tcc_packets = 0, tcc_emitted = 0, tcc_ring_drops = 0, tcc_parse_errors = 0, tcc_unsupported = 0\<rparr>, ct_lanes = []\<rparr>"

definition sample_turn :: turn where
  "sample_turn = \<lparr>tn_now = 7000000010, tn_halted = False, tn_env = (\<lambda>_. (False, Sent)), tn_status1 = True, tn_answer = PollTimeout, tn_status2 = False,
      tn_stats_due = True, tn_stats = Inr (1, 0, 0), tn_last_stats = Inr (0, 0, 0)\<rparr>"


end
