(* ===== verification/Collector.thy ===== *)
theory Collector
  imports Capture Pcap
begin

text \<open>
  The other two capture sources: the consumer of the kernel program's ring buffer
  (\<^verbatim>\<open>flowsketch-ebpf/src/tc.rs\<close>) with the loop of \<^verbatim>\<open>source.rs\<close> around it, and the replay of capture files.

  What the loader library and the kernel answer is input: a record of answers for \<^verbatim>\<open>attach\<close>, the
  records that a poll finds in the ring buffer, and the values of the per-CPU counters.
\<close>

section \<open>Loading and attaching\<close>

definition TC_MIN_RING_BYTES :: u32 where "TC_MIN_RING_BYTES = 64 * 1024"
definition TC_MAX_RING_BYTES :: u32 where "TC_MAX_RING_BYTES = 1024 * 1024 * 1024"

definition COUNTER_PACKETS :: u32 where "COUNTER_PACKETS = 0"
definition COUNTER_EMITTED :: u32 where "COUNTER_EMITTED = 1"
definition COUNTER_RING_DROPS :: u32 where "COUNTER_RING_DROPS = 2"
definition COUNTER_PARSE_ERRORS :: u32 where "COUNTER_PARSE_ERRORS = 3"
definition COUNTER_UNSUPPORTED :: u32 where "COUNTER_UNSUPPORTED = 4"
definition COUNTER_COUNT :: u32 where "COUNTER_COUNT = 5"

definition EBPF_TC_PROGRAM :: string where "EBPF_TC_PROGRAM = ''flowsketch_tc''"
definition EBPF_EVENTS_MAP :: string where "EBPF_EVENTS_MAP = ''EVENTS''"
definition EBPF_COUNTERS_MAP :: string where "EBPF_COUNTERS_MAP = ''COUNTERS''"

datatype tc_collector_error =
    InvalidRingSize u32
  | LoadError string string
  | MissingProgram string
  | MissingMap string
  | MapError string string
  | Verifier string
  | AttachError string string
  | PollError io_error
  | CounterError u32 string
  | CounterOverflow u32
  | Contract ebpf_error

text \<open>The library's answers, in the order \<^verbatim>\<open>attach\<close> asks for them.\<close>

record attach_answers =
  aa_load :: "string + unit"
  aa_has_program :: bool
  aa_classifier :: "string + unit"
  aa_verify :: "string + unit"
  aa_attach :: "string + unit"
  aa_clsact_exists :: bool
  aa_clsact :: "string + unit"
  aa_legacy :: "string + unit"
  aa_has_events :: bool
  aa_events :: "string + unit"
  aa_has_counters :: bool
  aa_counters :: "string + u32"

definition on_err :: "('e \<Rightarrow> 'f) \<Rightarrow> 'e + 'a \<Rightarrow> 'f + 'a" where
  "on_err f r = (case r of Inl e \<Rightarrow> Inl (f e) | Inr x \<Rightarrow> Inr x)"

definition tc_attach :: "attach_answers \<Rightarrow> string \<Rightarrow> string \<Rightarrow> u32 \<Rightarrow> tc_collector_error + unit" where
  "tc_attach an name object_path ring_buffer_bytes =
     (if \<not> (TC_MIN_RING_BYTES \<le> ring_buffer_bytes \<and> ring_buffer_bytes \<le> TC_MAX_RING_BYTES) \<or> \<not> is_power_of_two ring_buffer_bytes
      then Inl (InvalidRingSize ring_buffer_bytes)
      else rbind (on_err (LoadError object_path) (aa_load an)) (\<lambda>_.
        rbind (guard_err (\<not> aa_has_program an) (MissingProgram EBPF_TC_PROGRAM)) (\<lambda>_.
        rbind (on_err Verifier (aa_classifier an)) (\<lambda>_.
        rbind (on_err Verifier (aa_verify an)) (\<lambda>_.
        rbind (case aa_attach an of
                 Inr _ \<Rightarrow> Inr ()
               | Inl _ \<Rightarrow>
                   rbind (case aa_clsact an of
                            Inl _ \<Rightarrow> guard_err (\<not> aa_clsact_exists an) (AttachError name ''cannot create clsact qdisc'')
                          | Inr _ \<Rightarrow> Inr ()) (\<lambda>_.
                   on_err (\<lambda>_. AttachError name ''legacy tc attach failed'') (aa_legacy an))) (\<lambda>_.
        rbind (guard_err (\<not> aa_has_events an) (MissingMap EBPF_EVENTS_MAP)) (\<lambda>_.
        rbind (on_err (MapError EBPF_EVENTS_MAP) (aa_events an)) (\<lambda>_.
        rbind (guard_err (\<not> aa_has_counters an) (MissingMap EBPF_COUNTERS_MAP)) (\<lambda>_.
        rbind (on_err (MapError EBPF_COUNTERS_MAP) (aa_counters an)) (\<lambda>len.
        guard_err (len \<noteq> COUNTER_COUNT) (MapError EBPF_COUNTERS_MAP ''unexpected number of entries'')))))))))))"

section \<open>Counters\<close>

definition is_consistent :: "tc_collector_counters \<Rightarrow> bool" where
  "is_consistent c \<longleftrightarrow>
     Option.bind (Option.bind (checked_add (tcc_emitted c) (tcc_ring_drops c)) (\<lambda>total. checked_add total (tcc_parse_errors c)))
       (\<lambda>total. checked_add total (tcc_unsupported c)) = Some (tcc_packets c)"

definition counter_sum :: "(u32 \<Rightarrow> string + u64 list) \<Rightarrow> u32 \<Rightarrow> tc_collector_error + u64" where
  "counter_sum per_cpu index =
     rbind (on_err (CounterError index) (per_cpu index)) (\<lambda>values.
     rfold (\<lambda>v sum. case checked_add sum v of None \<Rightarrow> Inl (CounterOverflow index) | Some s \<Rightarrow> Inr s) values 0)"

definition tc_counters :: "(u32 \<Rightarrow> string + u64 list) \<Rightarrow> tc_collector_error + tc_collector_counters" where
  "tc_counters per_cpu =
     rbind (counter_sum per_cpu COUNTER_PACKETS) (\<lambda>p. rbind (counter_sum per_cpu COUNTER_EMITTED) (\<lambda>e.
     rbind (counter_sum per_cpu COUNTER_RING_DROPS) (\<lambda>d. rbind (counter_sum per_cpu COUNTER_PARSE_ERRORS) (\<lambda>pe.
     rbind (counter_sum per_cpu COUNTER_UNSUPPORTED) (\<lambda>u.
     Inr \<lparr>tcc_packets = p, tcc_emitted = e, tcc_ring_drops = d, tcc_parse_errors = pe, tcc_unsupported = u\<rparr>)))))"

section \<open>The receive loop\<close>

text \<open>\<^verbatim>\<open>poll\<close>: \<open>answer\<close> is what \<^verbatim>\<open>poll\<close> of the system answers once it is not interrupted; both a timeout
  and readiness go on to the records in the ring, which are handled in order until the handler
  stops or one does not decode.\<close>

type_synonym 's handler = "nat \<Rightarrow> ebpf_flow_event \<Rightarrow> 's \<Rightarrow> ('s \<times> bool) option"

fun tc_drain :: "'s handler \<Rightarrow> nat \<Rightarrow> bytes list \<Rightarrow> 's \<Rightarrow> ('s \<times> (tc_collector_error + bool)) option" where
  "tc_drain handle i [] s = Some (s, Inr True)"
| "tc_drain handle i (record # rest) s = (case decode_ne record of
       None \<Rightarrow> None
     | Some (Inl e) \<Rightarrow> Some (s, Inl (Contract e))
     | Some (Inr event) \<Rightarrow>
         (case handle i event s of
            None \<Rightarrow> None
          | Some (s, keep_running) \<Rightarrow> if keep_running then tc_drain handle (Suc i) rest s else Some (s, Inr False)))"

definition tc_poll :: "'s handler \<Rightarrow> poll_answer \<Rightarrow> bytes list \<Rightarrow> 's \<Rightarrow> ('s \<times> (tc_collector_error + bool)) option" where
  "tc_poll handle answer records s = (case answer of
       PollFailed e \<Rightarrow> Some (s, Inl (PollError e))
     | PollHangup \<Rightarrow> Some (s, Inl (PollError (OsError ''ring map fd returned poll events'')))
     | PollTimeout \<Rightarrow> tc_drain handle 0 records s
     | PollReadable \<Rightarrow> tc_drain handle 0 records s)"

text \<open>The closure of \<^verbatim>\<open>ebpf_loop\<close>, for one kernel record.\<close>

definition capture_record :: "kernel_clock_converter \<Rightarrow> live_timestamp_bounds \<Rightarrow> capture_event_sender \<Rightarrow> (nat \<Rightarrow> bool \<times> send_answer) \<Rightarrow> visit_state handler" where
  "capture_record clock bnds sender env i record st =
     (if fst (env i) then Some (st, False)
      else let st = st\<lparr>vs_seen := vs_seen st + 1\<rparr> in
        case to_unix_nanos clock (eb_ts_nanos record) of
          Inl _ \<Rightarrow> Some (count_invalid st, True)
        | Inr timestamp \<Rightarrow>
            if \<not> bounds_contains bnds timestamp then Some (count_invalid st, True)
            else case try_into_flow_event record timestamp of
                   None \<Rightarrow> None
                 | Some (Inl _) \<Rightarrow> Some (st\<lparr>vs_unparsed := vs_unparsed st + 1\<rparr>, True)
                 | Some (Inr event) \<Rightarrow> Some (offer_event sender (snd (env i)) event (st\<lparr>vs_parsed := vs_parsed st + 1\<rparr>)))"

definition record_ebpf_statistics :: "(u32 \<Rightarrow> string + u64 list) \<Rightarrow> capture_counters \<Rightarrow> capture_counters \<times> (agent_error + unit)" where
  "record_ebpf_statistics per_cpu ct = (case tc_counters per_cpu of
       Inl _ \<Rightarrow> (ct, Inl (SourceError ''tc eBPF counters''))
     | Inr c \<Rightarrow> (ct\<lparr>ct_ebpf := c\<rparr>, Inr ()))"

text \<open>One turn of \<^verbatim>\<open>ebpf_loop\<close>, with its inputs.  The counts of a poll that fails are not published.\<close>

record ebpf_input =
  ei_halted :: bool
  ei_clock :: "ebpf_error + kernel_clock_converter"
  ei_now :: int
  ei_env :: "nat \<Rightarrow> bool \<times> send_answer"
  ei_answer :: poll_answer
  ei_records :: "bytes list"
  ei_stats_due :: bool
  ei_stats :: "u32 \<Rightarrow> string + u64 list"
  ei_last_stats :: "u32 \<Rightarrow> string + u64 list"

definition ebpf_turn :: "capture_event_sender \<Rightarrow> ebpf_input \<Rightarrow> capture_counters \<Rightarrow> flow_event list
    \<Rightarrow> (capture_counters \<times> flow_event list \<times> (agent_error + unit) option) option" where
  "ebpf_turn sender inp ct channel =
     (if ei_halted inp then let (ct, r) = record_ebpf_statistics (ei_last_stats inp) ct in Some (ct, channel, Some r)
      else case ei_clock inp of
        Inl _ \<Rightarrow> Some (ct, channel, Some (Inl (SourceError ''cannot normalize tc eBPF timestamps'')))
      | Inr clock \<Rightarrow> (case bounds_sample (ei_now inp) of
          Inl e \<Rightarrow> Some (ct, channel, Some (Inl e))
        | Inr bnds \<Rightarrow> (case tc_poll (capture_record clock bnds sender (ei_env inp)) (ei_answer inp) (ei_records inp) (visit_start ct channel) of
            None \<Rightarrow> None
          | Some (st, Inl _) \<Rightarrow> Some (vs_counters st, vs_channel st, Some (Inl (SourceError ''tc eBPF receive'')))
          | Some (st, Inr keep_running) \<Rightarrow>
              let (ct, stats) = (if ei_stats_due inp then record_ebpf_statistics (ei_stats inp) (publish_counts None st) else (publish_counts None st, Inr ())) in
              (case stats of
                 Inl e \<Rightarrow> Some (ct, vs_channel st, Some (Inl e))
               | Inr _ \<Rightarrow>
                   if keep_running then Some (ct, vs_channel st, None)
                   else let (ct, r) = record_ebpf_statistics (ei_last_stats inp) ct in Some (ct, vs_channel st, Some r)))))"

section \<open>Replay of a capture file\<close>

text \<open>\<open>halted i\<close> and \<open>alive i\<close> say whether a stop was requested, and whether the engine still receives,
  at event \<open>i\<close>.  \<^verbatim>\<open>send\<close> blocks until there is room.\<close>

function pcap_loop :: "(nat \<Rightarrow> bool) \<Rightarrow> (nat \<Rightarrow> bool) \<Rightarrow> capture_event_sender \<Rightarrow> nat \<Rightarrow> pcap_reader \<Rightarrow> capture_counters \<Rightarrow> flow_event list
    \<Rightarrow> (capture_counters \<times> flow_event list \<times> (agent_error + unit)) option" where
  "pcap_loop halted alive sender i r ct channel =
     (if halted i then Some (ct, channel, Inr ())
      else case next_event_into r of
        None \<Rightarrow> None
      | Some (r', Inl _) \<Rightarrow> Some (ct, channel, Inl (SourceError ''pcap''))
      | Some (r', Inr None) \<Rightarrow> Some (ct, channel, Inr ())
      | Some (r', Inr (Some event)) \<Rightarrow>
          let ct = ct\<lparr>ct_packets_seen := ct_packets_seen ct + 1, ct_packets_parsed := ct_packets_parsed ct + 1\<rparr> in
          if sender \<noteq> SharedSender then Some (ct, channel, Inl (ConfigError ''pcap replay cannot use an AF_PACKET queue-local sender''))
          else if \<not> alive i then Some (ct, channel, Inr ())
          else pcap_loop halted alive sender (Suc i) r' ct (channel @ [event]))"
  by pat_completeness auto
termination
  by (relation "measure (\<lambda>(_, _, _, _, r, _, _). length (pr_input r))") (auto dest: next_event_consumes)

declare pcap_loop.simps [simp del]

definition pcap_capture :: "(nat \<Rightarrow> bool) \<Rightarrow> (nat \<Rightarrow> bool) \<Rightarrow> capture_event_sender \<Rightarrow> bytes option \<Rightarrow> capture_counters \<Rightarrow> flow_event list
    \<Rightarrow> (capture_counters \<times> flow_event list \<times> (agent_error + unit)) option" where
  "pcap_capture halted alive sender file ct channel = (case file of
       None \<Rightarrow> Some (ct, channel, Inl (SourceError ''cannot open''))
     | Some contents \<Rightarrow> (case PcapReader_new contents of
         Inl _ \<Rightarrow> Some (ct, channel, Inl (SourceError ''pcap''))
       | Inr r \<Rightarrow> pcap_loop halted alive sender 0 r ct channel))"

section \<open>Accounting of kernel records\<close>

lemma capture_record_keeps:
  assumes i: "i < 2 ^ 32" and acc: "accounted bnds ct channel 0 i st" and len: "length (eb_src_ip e) = 16" "length (eb_dst_ip e) = 16"
  shows "\<exists>st' k. capture_record clock bnds sender env i e st = Some (st', k)
      \<and> (if k then accounted bnds ct channel 0 (Suc i) st' else \<exists>n \<le> 2 ^ 32. accounted bnds ct channel 0 n st' \<or> accounted bnds ct channel 1 n st')"
proof (cases "fst (env i)")
  case True
  moreover have "\<exists>n \<le> 2 ^ 32. accounted bnds ct channel 0 n st \<or> accounted bnds ct channel 1 n st" using acc less_imp_le [OF i] by blast
  ultimately show ?thesis by (intro exI [of _ st] exI [of _ False]) (simp add: capture_record_def)
next
  case run: False
  note counted = accounted_unparsed [OF acc i]
  show ?thesis
  proof (cases "\<exists>t. to_unix_nanos clock (eb_ts_nanos e) = Inr t \<and> bounds_contains bnds t")
    case False
    then show ?thesis using run counted by (cases "to_unix_nanos clock (eb_ts_nanos e)") (auto simp: capture_record_def Let_def)
  next
    case True
    then obtain t where t: "to_unix_nanos clock (eb_ts_nanos e) = Inr t" "bounds_contains bnds t" by blast
    obtain x where x: "try_into_flow_event e t = Some x" using try_into_total [OF len] by blast
    show ?thesis
    proof (cases x)
      case (Inl err)
      then show ?thesis using run t x counted(1)
        by (intro exI [of _ "st\<lparr>vs_seen := vs_seen st + 1, vs_unparsed := vs_unparsed st + 1\<rparr>"] exI [of _ True]) (simp add: capture_record_def Let_def)
    next
      case (Inr ev)
      obtain st' k where o: "offer_event sender (snd (env i)) ev (st\<lparr>vs_seen := vs_seen st + 1, vs_parsed := vs_parsed st + 1\<rparr>) = (st', k)" by fastforce
      have "capture_record clock bnds sender env i e st = Some (st', k)" using run t x Inr o by (simp add: capture_record_def Let_def)
      moreover have kept: "accounted bnds ct channel (if k then 0 else 1) (Suc i) st'"
        using offer_event_accounted [OF acc i _ o] t(2) try_into_fields(1) [of e t ev] x Inr by simp
      moreover have "\<exists>n \<le> 2 ^ 32. accounted bnds ct channel 0 n st' \<or> accounted bnds ct channel 1 n st'" if "\<not> k"
        using kept that Suc_leI [OF i] by (intro exI [of _ "Suc i"]) simp
      ultimately show ?thesis by (intro exI [of _ st'] exI [of _ k]) (simp split: if_splits)
    qed
  qed
qed

lemma tc_drain_keeps:
  assumes handle: "\<And>i e s. i < N \<Longrightarrow> P i s \<Longrightarrow> length (eb_src_ip e) = 16 \<Longrightarrow> length (eb_dst_ip e) = 16
      \<Longrightarrow> \<exists>s' k. handle i e s = Some (s', k) \<and> (if k then P (Suc i) s' else Q s')"
    and "i + length records \<le> N" "P i s"
  shows "\<exists>s' r. tc_drain handle i records s = Some (s', r) \<and> walk_ends N P Q s' (r = Inr False)"
  using assms(2,3)
proof (induction records arbitrary: i s)
  case Nil
  then show ?case by auto
next
  case (Cons rec records)
  obtain x where x: "decode_ne rec = Some x" using decode_ne_total by blast
  show ?case
  proof (cases x)
    case (Inl err)
    moreover have "\<exists>j \<le> N. P j s" using Cons.prems by (intro exI [of _ i]) simp
    ultimately show ?thesis using x by simp
  next
    case (Inr e)
    have "length (eb_src_ip e) = 16" "length (eb_dst_ip e) = 16" using decode_ne_lengths x Inr by auto
    then obtain s' k where h: "handle i e s = Some (s', k)" "if k then P (Suc i) s' else Q s'" using handle [of i s e] Cons.prems by auto
    then show ?thesis using x Inr Cons.IH [of "Suc i" s'] Cons.prems(1) by (cases k) simp_all
  qed
qed

lemma record_drain_keeps:
  assumes "length records \<le> 2 ^ 32"
  shows "\<exists>st r. tc_drain (capture_record clock bnds sender env) 0 records (visit_start ct channel) = Some (st, r)
     \<and> walk_ends (2 ^ 32) (accounted bnds ct channel 0)
         (\<lambda>st. \<exists>n \<le> 2 ^ 32. accounted bnds ct channel 0 n st \<or> accounted bnds ct channel 1 n st) st (r = Inr False)"
  using assms by (intro tc_drain_keeps capture_record_keeps accounted_start) simp_all

lemma ebpf_statistics_ok:
  assumes "turn_ok now ct channel lost ct1 channel'" "record_ebpf_statistics stats ct1 = (ct2, r)"
  shows "turn_ok now ct channel lost ct2 channel'"
  using assms by (auto simp: turn_ok_def record_ebpf_statistics_def split: sum.splits)


text \<open>A source that passed validation is never refused for the size of its ring.\<close>

lemma rbind_no_error: "a \<noteq> Inl e \<Longrightarrow> (\<And>x. f x \<noteq> Inl e) \<Longrightarrow> rbind a f \<noteq> Inl e"
  by (cases a) simp_all

lemma validated_ring_attaches:
  assumes "validate_source (Source_Ebpf name object_path ring_bytes fallback) shards strategy = Inr ()"
  shows "tc_attach an name object_path ring_bytes \<noteq> Inl (InvalidRingSize ring_bytes)"
proof -
  have "TC_MIN_RING_BYTES \<le> ring_bytes \<and> ring_bytes \<le> TC_MAX_RING_BYTES \<and> is_power_of_two ring_bytes"
    using assms by (auto simp: validate_source_def guard_err_def TC_MIN_RING_BYTES_def TC_MAX_RING_BYTES_def MIN_EBPF_RING_BYTES_def
      MAX_EBPF_RING_BYTES_def rbind_Inr_iff split: if_splits)
  then show ?thesis unfolding tc_attach_def
    by (simp only: simp_thms if_False) (intro rbind_no_error; auto simp: guard_err_def on_err_def split: sum.split intro: rbind_no_error)
qed

section \<open>Replays are complete\<close>

definition replayed :: "flow_event list \<Rightarrow> capture_counters \<Rightarrow> capture_counters" where
  "replayed evs ct = ct\<lparr>ct_packets_seen := ct_packets_seen ct + of_nat (length evs), ct_packets_parsed := ct_packets_parsed ct + of_nat (length evs)\<rparr>"

lemma pcap_loop_complete:
  assumes "read_events r = Some (Inr evs)" "\<And>i. \<not> halted i" "\<And>i. alive i"
  shows "pcap_loop halted alive SharedSender i r ct channel = Some (replayed evs ct, channel @ evs, Inr ())"
  using assms(1)
proof (induction r arbitrary: evs i ct channel rule: read_events.induct)
  case (1 r)
  obtain r' x where x: "next_event_into r = Some (r', x)" using next_event_total by blast
  show ?case
  proof (cases x)
    case (Inl e)
    then show ?thesis using 1(2) x by (subst (asm) read_events.simps) simp
  next
    case (Inr y)
    show ?thesis
    proof (cases y)
      case None
      then show ?thesis using 1(2) x Inr assms(2) by (subst (asm) read_events.simps, subst pcap_loop.simps) (simp add: replayed_def)
    next
      case (Some ev)
      have "map_option (map_sum id (Cons ev)) (read_events r') = Some (Inr evs)" using 1(2) x Inr Some by (subst (asm) read_events.simps) simp
      then obtain z where z: "read_events r' = Some z" "map_sum id (Cons ev) z = Inr evs" by auto
      then obtain rest where rest: "read_events r' = Some (Inr rest)" "evs = ev # rest" by (cases z) auto
      have "pcap_loop halted alive SharedSender i r ct channel =
          pcap_loop halted alive SharedSender (Suc i) r' (replayed [ev] ct) (channel @ [ev])"
        using x Inr Some assms(2,3) by (subst pcap_loop.simps) (simp add: replayed_def Let_def)
      then show ?thesis using 1(1) [OF x refl Inr Some rest(1)] rest(2) by (simp add: replayed_def algebra_simps)
    qed
  qed
qed

text \<open>
  C18: A replayed capture reaches the engine whole.  Any packets written to a capture file, by a compact writer or one
  that keeps the payload, are delivered to the engine's channel by the agent's replay as exactly the events they
  stand for, in order and none dropped, and are all counted, as long as no stop is requested and the engine is there.
\<close>

theorem replayed_capture_reaches_the_engine:
  assumes "\<forall>p \<in> set ps. packet_ok p" "\<And>i. \<not> halted i" "\<And>i. alive i"
  shows "pcap_capture halted alive SharedSender (Some (pw_output (fold write_packet ps (with_payload_limit limit)))) ct channel
     = Some (replayed (map packet_event ps) ct, channel @ map packet_event ps, Inr ())"
proof -
  obtain r where "PcapReader_new (pw_output (fold write_packet ps (with_payload_limit limit))) = Inr r" "read_events r = Some (Inr (map packet_event ps))"
    using written_packets_are_read [OF assms(1)] by blast
  then show ?thesis using pcap_loop_complete [OF _ assms(2,3)] by (simp add: pcap_capture_def)
qed

theorem replayed_capture_reaches_the_engine_witness:
  "\<exists>ct' evs. pcap_capture (\<lambda>_. False) (\<lambda>_. True) SharedSender (Some (pw_output (fold write_packet
       [Tcp 1700000000000000007 (V4 0x0A00010A) (V4 0x0A000232) 40000 443 0x18 1200, Udp 5 (V6 1) (V6 2) 50000 53 300] PcapWriter_new))) no_counts []
     = Some (ct', evs, Inr ()) \<and> map ev_bytes evs = [1240, 348] \<and> ct_packets_seen ct' = 2"
proof -
  let ?ps = "[Tcp 1700000000000000007 (V4 0x0A00010A) (V4 0x0A000232) 40000 443 0x18 1200, Udp 5 (V6 1) (V6 2) 50000 53 300]"
  have "\<forall>p \<in> set ?ps. packet_ok p" by (simp add: same_family_def)
  from replayed_capture_reaches_the_engine [OF this, of "\<lambda>_. False" "\<lambda>_. True" COMPACT_PAYLOAD_LIMIT no_counts "[]"] show ?thesis
    unfolding PcapWriter_new_def by (simp add: ip_length_def replayed_def no_counts_def)
qed

definition sample_input :: ebpf_input where
  "sample_input = \<lparr>ei_halted = False, ei_clock = Inr (from_samples 1000 5000), ei_now = 6000, ei_env = (\<lambda>_. (False, Sent)), ei_answer = PollReadable,
     ei_records = [[1, 2, 3]], ei_stats_due = False, ei_stats = (\<lambda>_. Inr [0]), ei_last_stats = (\<lambda>_. Inr [0])\<rparr>"


end
