(* ===== verification/DirectRuntime.thy ===== *)
theory DirectRuntime
  imports Collector
begin

text \<open>
  \<^verbatim>\<open>flowsketch-agent/src/direct_runtime.rs\<close>: one engine and one worker thread per capture lane, without a
  shared queue.  From time to time the coordinator pauses all workers, advances their engines to
  the latest time any of them has seen, and merges and publishes what they report.

  A worker that is paused waits for the next command, and a checkpoint starts only when every
  worker has acknowledged the pause, so that a checkpoint is one step between turns of the
  workers.  What a worker receives in a turn, whether threads start and when a checkpoint is due
  are inputs.  The conversion to estimates and the bytes of the sketches are not modelled: a
  publication is the list of merged windows with their plans.
\<close>

section \<open>Workers\<close>

record lane_worker =
  lw_engine :: query_engine
  lw_max_timestamp :: "u64 option"
  lw_data_open :: bool

record worker_report =
  rp_completed :: "query_window_state list"
  rp_current :: "query_window_state list"
  rp_late_events :: u64

datatype worker_control = PauseControl | CheckpointControl "u64 option" bool bool | ShutdownControl

text \<open>The engines are made and seeded before any thread starts.  All of them are made by the same
  calls on the same values, so that they are equal.  \<open>start lane\<close> is the error, if any, of starting
  a worker's thread.\<close>

definition lane_capacities :: "nat \<Rightarrow> nat \<Rightarrow> nat list" where
  "lane_capacities lane_count capacity = map (\<lambda>lane. capacity div lane_count + (if lane < capacity mod lane_count then 1 else 0)) [0..<lane_count]"

definition new_with_options ::
  "(u8 \<Rightarrow> u8 list \<Rightarrow> f64) \<Rightarrow> (nat \<Rightarrow> agent_error option) \<Rightarrow> plan list \<Rightarrow> hash_spec \<Rightarrow> nat \<Rightarrow> nat \<Rightarrow> nat list option \<Rightarrow> nat \<Rightarrow> u64
     \<Rightarrow> (agent_error + lane_worker list \<times> nat list) option" where
  "new_with_options est start plans hash lane_count batch_size worker_cpus total_channel_capacity initial_watermark =
     (if lane_count = 0 \<or> total_channel_capacity < lane_count then Some (Inl (ConfigError ''queue-local runtime needs at least one event slot per lane''))
      else if batch_size = 0 then Some (Inl (ConfigError ''queue-local runtime batch size must be greater than zero''))
      else if (case worker_cpus of None \<Rightarrow> False | Some cpus \<Rightarrow> length cpus \<noteq> lane_count)
        then Some (Inl (ConfigError ''runtime CPU affinity does not list one CPU for each shard worker''))
      else case qe_new plans hash of
          Inl e \<Rightarrow> Some (Inl (EngineError e))
        | Inr eng \<Rightarrow> (case qe_advance_to est eng initial_watermark of
            None \<Rightarrow> None
          | Some (eng, Inl e) \<Rightarrow> Some (Inl (EngineError e))
          | Some (eng, Inr _) \<Rightarrow> (case List.map_filter start [0..<lane_count] of
              e # _ \<Rightarrow> Some (Inl e)
            | [] \<Rightarrow> Some (Inr (replicate lane_count \<lparr>lw_engine = eng, lw_max_timestamp = None, lw_data_open = True\<rparr>,
                lane_capacities lane_count total_channel_capacity)))))"

fun worker_events :: "(u8 \<Rightarrow> u8 list \<Rightarrow> f64) \<Rightarrow> flow_event list \<Rightarrow> lane_worker \<Rightarrow> lane_worker step" where
  "worker_events est [] w = Some (w, Inr ())"
| "worker_events est (e # es) w = (case qe_process est (lw_engine w) e of
       None \<Rightarrow> None
     | Some (eng, Inl err) \<Rightarrow> Some (w\<lparr>lw_engine := eng\<rparr>, Inl err)
     | Some (eng, Inr _) \<Rightarrow> worker_events est es (w\<lparr>lw_engine := eng, lw_max_timestamp :=
           Some (case lw_max_timestamp w of None \<Rightarrow> ts_nanos e | Some m \<Rightarrow> max m (ts_nanos e))\<rparr>))"

text \<open>A turn of \<^verbatim>\<open>worker_loop\<close> in which there is no command: \<open>waiting\<close> are the events that are in the channel
  when the worker asks for them, of which a batch takes at most \<open>batch_size\<close>, and \<open>hung_up\<close> says whether
  the sender has gone.  The worker notices that only when it finds the channel empty, and then
  reports that it is drained, once.\<close>

definition worker_turn :: "(u8 \<Rightarrow> u8 list \<Rightarrow> f64) \<Rightarrow> nat \<Rightarrow> nat \<Rightarrow> flow_event list \<Rightarrow> bool \<Rightarrow> lane_worker \<Rightarrow> capture_counters
    \<Rightarrow> (lane_worker \<times> capture_counters \<times> unit result) option" where
  "worker_turn est lane batch_size waiting hung_up w ct = (let events = take batch_size waiting in case worker_events est events w of
       None \<Rightarrow> None
     | Some (w, Inl e) \<Rightarrow> Some (w, ct, Inl e)
     | Some (w, Inr _) \<Rightarrow>
         let w = (if hung_up \<and> length waiting < batch_size then w\<lparr>lw_data_open := False\<rparr> else w); n = of_nat (length events) in
         Some (w, if events = [] then ct
                  else (record_capture_lane_events_processed lane n (ct\<lparr>ct_events_processed := ct_events_processed ct + n\<rparr>))
                    \<lparr>ct_runtime_batches := ct_runtime_batches ct + 1\<rparr>, Inr ()))"

definition build_report :: "(u8 \<Rightarrow> u8 list \<Rightarrow> f64) \<Rightarrow> u64 option \<Rightarrow> bool \<Rightarrow> bool \<Rightarrow> lane_worker \<Rightarrow> (lane_worker \<times> worker_report result) option" where
  "build_report est watermark include_current finish w = (case advance_opt est watermark (lw_engine w) of
       None \<Rightarrow> None
     | Some (eng, Inl e) \<Rightarrow> Some (w\<lparr>lw_engine := eng\<rparr>, Inl e)
     | Some (eng, Inr _) \<Rightarrow> (case if finish then qe_finish est eng else Some (eng, Inr ()) of
         None \<Rightarrow> None
       | Some (eng, Inl e) \<Rightarrow> Some (w\<lparr>lw_engine := eng\<rparr>, Inl e)
       | Some (eng, Inr _) \<Rightarrow>
           let (eng, outs) = take_window_states eng in
           (case if include_current then current_window_states est eng else Some (Inr []) of
              None \<Rightarrow> None
            | Some (Inl e) \<Rightarrow> Some (w\<lparr>lw_engine := eng\<rparr>, Inl e)
            | Some (Inr current) \<Rightarrow> Some (w\<lparr>lw_engine := eng\<rparr>,
                Inr \<lparr>rp_completed = outs, rp_current = current, rp_late_events = qe_late_events eng\<rparr>))))"

text \<open>\<open>following\<close> is the command a paused worker waits for, none if the coordinator has gone.  The result
  is the worker, the acknowledged time, the report, and whether the worker stops.\<close>

definition handle_control :: "(u8 \<Rightarrow> u8 list \<Rightarrow> f64) \<Rightarrow> worker_control \<Rightarrow> worker_control option \<Rightarrow> lane_worker
    \<Rightarrow> (lane_worker \<times> u64 option option \<times> worker_report result option \<times> (string + bool)) option" where
  "handle_control est control following w = (case control of
       ShutdownControl \<Rightarrow> Some (w, None, None, Inr True)
     | CheckpointControl _ _ _ \<Rightarrow> Some (w, None, None, Inl ''runtime worker received a checkpoint before pause'')
     | PauseControl \<Rightarrow>
         let ack = Some (lw_max_timestamp w) in
         (case following of
            Some (CheckpointControl watermark include_current finish) \<Rightarrow>
              map_option (\<lambda>(w, report). (w, ack, Some report, Inr finish)) (build_report est watermark include_current finish w)
          | Some ShutdownControl \<Rightarrow> Some (w, ack, None, Inr True)
          | Some PauseControl \<Rightarrow> Some (w, ack, None, Inl ''runtime worker received two pause commands'')
          | None \<Rightarrow> Some (w, ack, None, Inr True)))"

section \<open>The coordinator\<close>

definition merge_windows ::
  "(u8 \<Rightarrow> u8 list \<Rightarrow> f64) \<Rightarrow> query_window_state list \<Rightarrow> (window_key \<times> window_state) list \<Rightarrow> (window_key \<times> window_state) list outcome" where
  "merge_windows est = pfold (merge_output est)"

definition check_bounds :: "query_window_state \<Rightarrow> (string \<times> u64 \<times> u64) list \<Rightarrow> (string \<times> u64 \<times> u64) list outcome" where
  "check_bounds window current_bounds = (case map_of current_bounds (qws_name window) of
       Some existing \<Rightarrow>
         if existing \<noteq> bounds (qws_state window) then Some (Inl (IncompatibleMerge ''queue-local query has unaligned current windows''))
         else Some (Inr current_bounds)
     | None \<Rightarrow> Some (Inr (bt_insert (qws_name window) (bounds (qws_state window)) current_bounds)))"

type_synonym publication = "(window_key \<times> window_state) list \<times> (window_key \<times> window_state) list \<times> (string \<times> u64 \<times> u64) list \<times> u64"

definition add_report :: "(u8 \<Rightarrow> u8 list \<Rightarrow> f64) \<Rightarrow> bool \<Rightarrow> worker_report \<Rightarrow> publication \<Rightarrow> publication outcome" where
  "add_report est include_current rp = (\<lambda>(completed_windows, current, current_bounds, late_events).
     pbind (merge_windows est (rp_completed rp) completed_windows) (\<lambda>completed_windows.
     let late_events = saturating_add late_events (rp_late_events rp) in
     if include_current then
       pbind (pfold check_bounds (rp_current rp) current_bounds) (\<lambda>current_bounds.
       pbind (merge_windows est (rp_current rp) current) (\<lambda>current.
       Some (Inr (completed_windows, current, current_bounds, late_events))))
     else Some (Inr (completed_windows, current, current_bounds, late_events))))"

definition publish_reports :: "(u8 \<Rightarrow> u8 list \<Rightarrow> f64) \<Rightarrow> plan list \<Rightarrow> bool \<Rightarrow> worker_report list
    \<Rightarrow> ((plan \<times> window_state) list \<times> u64 \<times> snapshot_export list option) outcome" where
  "publish_reports est plans include_current reports =
     pbind (pfold (add_report est include_current) reports ([], [], [], 0)) (\<lambda>(completed_windows, current, _, late_events).
     case rfold (with_plan plans) completed_windows [] of
       Inl e \<Rightarrow> Some (Inl e)
     | Inr outs \<Rightarrow> Some (Inr (outs, late_events,
         if include_current then Some (concat (map (\<lambda>((name, _, _), state). snapshot_exports state name) current)) else None)))"

definition lane_watermark :: "lane_worker list \<Rightarrow> u64 option" where
  "lane_watermark lanes = (case List.map_filter lw_max_timestamp lanes of [] \<Rightarrow> None | t # ts \<Rightarrow> Some (fold max ts t))"

text \<open>A checkpoint: the last one waits until every worker has reported that its channel is drained.
  Every worker acknowledges the pause, gets the common watermark and reports.  The
  reports are published in the order of the lanes; a worker's error, any if there are several, ends
  the checkpoint.\<close>

inductive checkpoint :: "(u8 \<Rightarrow> u8 list \<Rightarrow> f64) \<Rightarrow> plan list \<Rightarrow> bool \<Rightarrow> bool \<Rightarrow> lane_worker list \<Rightarrow> lane_worker list
    \<Rightarrow> agent_error + ((plan \<times> window_state) list \<times> u64 \<times> snapshot_export list option) \<Rightarrow> bool" for est plans finish include_current where
  published: "(finish \<Longrightarrow> \<forall>w \<in> set lanes. \<not> lw_data_open w) \<Longrightarrow> length lanes' = length lanes \<Longrightarrow> length reports = length lanes
     \<Longrightarrow> (\<And>i. i < length lanes \<Longrightarrow> handle_control est PauseControl (Some (CheckpointControl (lane_watermark lanes) include_current finish)) (lanes ! i)
            = Some (lanes' ! i, Some (lw_max_timestamp (lanes ! i)), Some (Inr (reports ! i)), Inr finish))
     \<Longrightarrow> publish_reports est plans include_current reports = Some r
     \<Longrightarrow> checkpoint est plans finish include_current lanes lanes' (map_sum EngineError id r)"
| failed: "(finish \<Longrightarrow> \<forall>w \<in> set lanes. \<not> lw_data_open w) \<Longrightarrow> length lanes' = length lanes
     \<Longrightarrow> (\<And>i. i < length lanes \<Longrightarrow> \<exists>report. handle_control est PauseControl (Some (CheckpointControl (lane_watermark lanes) include_current finish)) (lanes ! i)
            = Some (lanes' ! i, Some (lw_max_timestamp (lanes ! i)), Some report, Inr finish))
     \<Longrightarrow> i < length lanes
     \<Longrightarrow> handle_control est PauseControl (Some (CheckpointControl (lane_watermark lanes) include_current finish)) (lanes ! i)
            = Some (lanes' ! i, Some (lw_max_timestamp (lanes ! i)), Some (Inl e), Inr finish)
     \<Longrightarrow> checkpoint est plans finish include_current lanes lanes' (Inl (SourceError ''runtime worker''))"

text \<open>The runtimes that are reached by turns of workers and checkpoints, with the histories of their
  engines.  After an error the runtime is given up.\<close>

inductive dr_reach :: "(u8 \<Rightarrow> u8 list \<Rightarrow> f64) \<Rightarrow> plan list \<Rightarrow> hash_spec \<Rightarrow> u64 \<Rightarrow> lane_worker list \<Rightarrow> history list list \<Rightarrow> bool"
  for est plans h w0 where
  start: "new_with_options est start plans h n batch_size cpus capacity w0 = Some (Inr (lanes, capacities))
     \<Longrightarrow> dr_reach est plans h w0 lanes (replicate n (replicate (length plans) []))"
| turn: "dr_reach est plans h w0 lanes accss \<Longrightarrow> i < length lanes \<Longrightarrow> lw_data_open (lanes ! i)
     \<Longrightarrow> worker_turn est i batch_size waiting hung_up (lanes ! i) ct = Some (w, ct', Inr ())
     \<Longrightarrow> dr_reach est plans h w0 (lanes[i := w]) (accss[i := process_hist est (take batch_size waiting) (lw_engine (lanes ! i)) (accss ! i)])"
| checkpoint: "dr_reach est plans h w0 lanes accss \<Longrightarrow> checkpoint est plans False include_current lanes lanes' (Inr out)
     \<Longrightarrow> dr_reach est plans h w0 lanes' accss"

section \<open>Aligned rings\<close>

definition bucket_of :: "running_query \<Rightarrow> u64 \<Rightarrow> u64" where
  "bucket_of rq t = t - t mod rq_slide rq"

text \<open>A ring that was opened at bucket \<open>b0\<close> and has reached bucket \<open>s\<close>: its length is determined.\<close>

definition ring_at :: "u64 \<Rightarrow> u64 \<Rightarrow> running_query \<Rightarrow> bool" where
  "ring_at b0 s rq \<longleftrightarrow> rq_buckets rq \<noteq> [] \<and> b_start (last (rq_buckets rq)) = s \<and> b0 \<le> s
     \<and> length (rq_buckets rq) = min (rq_bucket_count rq) (Suc ((unat s - unat b0) div unat (rq_slide rq)))"

definition ring_moved :: "running_query \<Rightarrow> u64 \<Rightarrow> running_query \<Rightarrow> bool" where
  "ring_moved rq t rq' \<longleftrightarrow> rq_plan rq' = rq_plan rq \<and> rq_buckets rq' \<noteq> [] \<and> length (rq_buckets rq') = ring_length rq t
     \<and> b_start (last (rq_buckets rq')) = (if rq_buckets rq \<noteq> [] then max (b_start (last (rq_buckets rq))) t else t)"

lemma bucket_of_aligned: "unat (rq_slide rq) dvd unat (bucket_of rq t)"
  using event_bucket_aligned [of rq "FlowEvent_default\<lparr>ts_nanos := t\<rparr>"] by (simp add: event_bucket_def bucket_of_def)

lemma unat_bucket_of: "unat (bucket_of rq t) = unat t - unat t mod unat (rq_slide rq)"
  unfolding bucket_of_def by (simp add: unat_sub word_le_nat_alt unat_mod)

lemma bucket_of_mono: "t \<le> t' \<Longrightarrow> bucket_of rq t \<le> bucket_of rq t'"
  by (simp add: word_le_nat_alt unat_bucket_of minus_mod_eq_mult_div div_le_mono)

lemma ring_at_moved:
  assumes "ring_at b0 s rq" "ring_moved rq t rq'" "unat (rq_slide rq) dvd unat b0" "unat (rq_slide rq) dvd unat s" "unat (rq_slide rq) dvd unat t"
    and "0 < unat (rq_slide rq)"
  shows "ring_at b0 (max s t) rq'"
proof (cases "t \<le> s")
  case True
  then show ?thesis using assms(1,2) by (simp add: ring_at_def ring_moved_def ring_length_def max_def)
next
  case False
  let ?sl = "unat (rq_slide rq)"
  have lt: "unat s < unat t" "unat b0 \<le> unat s" using False assms(1) by (simp_all add: word_le_nat_alt ring_at_def)
  obtain x y z where xyz: "unat b0 = ?sl * x" "unat s = ?sl * y" "unat t = ?sl * z" using assms(3-5) by (auto elim!: dvdE)
  have "x \<le> y" "y < z" using lt assms(6) by (simp_all add: xyz)
  then have "(unat t - unat b0) div ?sl = (unat s - unat b0) div ?sl + (unat t - unat s) div ?sl"
    using assms(6) by (simp add: xyz right_diff_distrib' [symmetric] del: right_diff_distrib')
  then have "min n (min n (Suc ((unat s - unat b0) div ?sl)) + (unat t - unat s) div ?sl) = min n (Suc ((unat t - unat b0) div ?sl))" for n
    by (simp add: min_def)
  moreover have "b0 \<le> t" using lt by (simp add: word_le_nat_alt)
  ultimately show ?thesis using False assms(1,2) by (simp add: ring_at_def ring_moved_def ring_length_def max_def Let_def split: if_splits)
qed

text \<open>Two rings of a query that were opened and have arrived at the same buckets span the same time.\<close>

lemma ring_at_bounds:
  assumes "ring_at b0 s q" "ring_at b0 s q'" "rq_plan q = rq_plan q'" "ring_ok (rq_slide q) (rq_buckets q)" "ring_ok (rq_slide q') (rq_buckets q')"
  shows "b_start (hd (rq_buckets q)) = b_start (hd (rq_buckets q'))"
proof -
  have len: "length (rq_buckets q) = length (rq_buckets q')" using assms(1-3) by (simp add: ring_at_def)
  have start: "unat s = unat (b_start (hd (rq_buckets r))) + (length (rq_buckets r) - 1) * unat (rq_slide r)"
    if "ring_at b0 s r" "ring_ok (rq_slide r) (rq_buckets r)" for r
  proof -
    have ne: "rq_buckets r \<noteq> []" and last: "s = b_start (last (rq_buckets r))" using that(1) by (simp_all add: ring_at_def)
    have "length (rq_buckets r) - 1 < length (rq_buckets r)" using ne by simp
    then show ?thesis unfolding last last_conv_nth [OF ne] using ring_start [OF that(2)] by blast
  qed
  show ?thesis using start [OF assms(1,4)] start [OF assms(2,5)] len assms(3) by (simp add: word_unat_eq_iff)
qed

lemma bucket_position_less: "bucket_position s bs = Some i \<Longrightarrow> i < length bs"
  by (induction bs arbitrary: i) (auto split: if_splits)

lemma advance_moves:
  assumes inv: "rq_inv est q acc" and "rq_advance est t q = Some (q', Inr ())"
  shows "ring_moved q (bucket_of q t) q'"
proof -
  have start: "bucket_start_for q t = Some (bucket_of q t)" using rq_inv_D(1) [OF inv] by (auto simp: bucket_start_for_def bucket_of_def)
  then have run: "advance_to_bucket est q (bucket_of q t) = Some (q', Inr ())" using assms(2) by (simp add: rq_advance_def)
  then have pre: "ensure_can_advance q (bucket_of q t) = Inr ()" by (auto simp: advance_to_bucket_def split: sum.splits)
  from advance_to_bucket_ok [OF inv pre bucket_of_aligned] run show ?thesis
    by (auto simp: ring_moved_def rq_fixed_def max_def split: if_splits)
qed

lemma process_moves:
  assumes inv: "rq_inv est q acc" and run: "rq_process est q e = Some (q', Inr ())"
  shows "if rq_matches q e then ring_moved q (bucket_of q (ts_nanos e)) q' else q' = q"
proof (cases "rq_matches q e")
  case False
  then show ?thesis using run by (simp add: rq_process_def rq_matches_def)
next
  case match: True
  let ?s = "bucket_of q (ts_nanos e)" and ?bs = "rq_buckets q"
  have start: "bucket_start_for q (ts_nanos e) = Some ?s" using rq_inv_D(1) [OF inv] by (auto simp: bucket_start_for_def bucket_of_def)
  have same: "ring_moved q ?s q'" if "rq_plan q1 = rq_plan q" "ring_moved q ?s q1" "map b_start (rq_buckets q') = map b_start (rq_buckets q1)" "rq_plan q' = rq_plan q1" for q1
  proof -
    have "length (rq_buckets q') = length (rq_buckets q1)" using that(3) by (metis length_map)
    moreover from this have "rq_buckets q' \<noteq> []" using that(2) by (auto simp: ring_moved_def)
    moreover from this have "b_start (last (rq_buckets q')) = b_start (last (rq_buckets q1))"
      using that(2,3) by (metis last_map ring_moved_def)
    ultimately show ?thesis using that by (simp add: ring_moved_def)
  qed
  show ?thesis
  proof (cases "?bs \<noteq> [] \<and> b_start (last ?bs) = ?s")
    case True
    then have "update_bucket est q (length ?bs - 1) e = Some (q', Inr ())" using run match start by (simp add: rq_process_def rq_matches_def)
    moreover have "length ?bs - 1 < length ?bs" using True by simp
    ultimately have "map b_start (rq_buckets q') = map b_start ?bs" "rq_plan q' = rq_plan q" using update_bucket_ok [OF inv, of "length ?bs - 1" e] by (auto simp: rq_fixed_def)
    moreover have "ring_moved q ?s q" using True by (auto simp: ring_moved_def ring_length_def)
    ultimately show ?thesis using match same [of q] by simp
  next
    case False
    then obtain q1 r1 where q1: "advance_to_bucket est q ?s = Some (q1, r1)"
      using run match start by (cases "advance_to_bucket est q ?s") (auto simp: rq_process_def rq_matches_def sbind_def)
    have r1: "r1 = Inr ()" using run match start False q1 by (cases r1) (auto simp: rq_process_def rq_matches_def)
    have adv: "rq_advance est (ts_nanos e) q = Some (q1, Inr ())" using q1 r1 start by (simp add: rq_advance_def)
    then have moved: "ring_moved q ?s q1" by (rule advance_moves [OF inv])
    have pre: "ensure_can_advance q ?s = Inr ()" using q1 r1 by (auto simp: advance_to_bucket_def split: sum.splits)
    have inv1: "rq_inv est q1 acc" using advance_to_bucket_ok [OF inv pre bucket_of_aligned] q1 by auto
    have rest: "(case bucket_position ?s (rq_buckets q1) of
        None \<Rightarrow> Some (q1\<lparr>rq_late_events := rq_late_events q1 + 1\<rparr>, Inr ()) | Some i \<Rightarrow> update_bucket est q1 i e) = Some (q', Inr ())"
      using run match start False q1 r1 unfolding rq_process_def rq_matches_def if_not_P [OF False] by (simp add: if_not_P [OF False])
    show ?thesis
    proof (cases "bucket_position ?s (rq_buckets q1)")
      case None
      then show ?thesis using rest match moved by (auto simp: ring_moved_def)
    next
      case (Some i)
      then have "update_bucket est q1 i e = Some (q', Inr ())" using rest by simp
      then have "map b_start (rq_buckets q') = map b_start (rq_buckets q1)" "rq_plan q' = rq_plan q1"
        using update_bucket_ok [OF inv1 bucket_position_less [OF Some], of e] by (auto simp: rq_fixed_def)
      then show ?thesis using match same [of q1] moved by (simp add: ring_moved_def)
    qed
  qed
qed

section \<open>Engines\<close>

lemma step_all_nth:
  "step_all f qs = Some (qs', Inr ()) \<Longrightarrow> length qs' = length qs \<and> (\<forall>i < length qs. f (qs ! i) = Some (qs' ! i, Inr ()))"
proof (induction qs arbitrary: qs')
  case (Cons q qs)
  then obtain q1 qs1 where one: "f q = Some (q1, Inr ())" "step_all f qs = Some (qs1, Inr ())" "qs' = q1 # qs1"
    by (auto split: option.splits sum.splits prod.splits)
  then show ?case using Cons.IH [of qs1] by (auto simp: nth_Cons split: nat.split)
qed simp

lemma engine_steps:
  "qe_process est eng e = Some (eng', Inr ()) \<Longrightarrow> length (qe_queries eng') = length (qe_queries eng)
     \<and> (\<forall>i < length (qe_queries eng). rq_process est (qe_queries eng ! i) e = Some (qe_queries eng' ! i, Inr ()))"
  "qe_advance_to est eng t = Some (eng', Inr ()) \<Longrightarrow> length (qe_queries eng') = length (qe_queries eng)
     \<and> (\<forall>i < length (qe_queries eng). rq_advance est t (qe_queries eng ! i) = Some (qe_queries eng' ! i, Inr ()))"
  "qe_finish est eng = Some (eng', Inr ()) \<Longrightarrow> length (qe_queries eng') = length (qe_queries eng)
     \<and> (\<forall>i < length (qe_queries eng). rq_finish est (qe_queries eng ! i) = Some (qe_queries eng' ! i, Inr ()))"
  using step_all_nth [of _ "qe_queries eng"]
  by (auto simp: qe_process_def qe_advance_to_def qe_finish_def preflighted_def Let_def split: option.splits sum.splits)

text \<open>Every ring was opened at the bucket of \<open>w0\<close> and is not beyond the bucket of \<open>m\<close>; or has reached it.\<close>

definition engine_at :: "u64 \<Rightarrow> u64 \<Rightarrow> query_engine \<Rightarrow> bool" where
  "engine_at w0 m eng \<longleftrightarrow> (\<forall>q \<in> set (qe_queries eng). \<exists>s. ring_at (bucket_of q w0) s q \<and> s \<le> bucket_of q m)"

definition engine_reached :: "u64 \<Rightarrow> u64 \<Rightarrow> query_engine \<Rightarrow> bool" where
  "engine_reached w0 m eng \<longleftrightarrow> (\<forall>q \<in> set (qe_queries eng). ring_at (bucket_of q w0) (bucket_of q m) q)"

lemma reached_at: "engine_reached w0 m eng \<Longrightarrow> engine_at w0 m eng"
  by (auto simp: engine_reached_def engine_at_def)

lemma engine_at_mono: "engine_at w0 m eng \<Longrightarrow> m \<le> m' \<Longrightarrow> engine_at w0 m' eng"
  unfolding engine_at_def using bucket_of_mono by (meson order_trans)

lemma ring_at_dvd: "ring_at b0 s q \<Longrightarrow> rq_inv est q acc \<Longrightarrow> unat (rq_slide q) dvd unat s"
  using rq_inv_D(6) [of est q acc] by (auto simp: ring_at_def ring_ok_def)

lemma moved_query:
  assumes "rq_inv est q acc" "ring_at (bucket_of q w0) s q" "ring_moved q (bucket_of q t) q'"
  shows "ring_at (bucket_of q' w0) (max s (bucket_of q t)) q'" "bucket_of q' = bucket_of q"
proof -
  show same: "bucket_of q' = bucket_of q" using assms(3) by (auto simp: ring_moved_def bucket_of_def)
  show "ring_at (bucket_of q' w0) (max s (bucket_of q t)) q'" unfolding same
    by (rule ring_at_moved [OF assms(2,3) bucket_of_aligned ring_at_dvd [OF assms(2,1)] bucket_of_aligned rq_inv_D(2) [OF assms(1)]])
qed

lemma engine_at_process:
  assumes inv: "qe_inv est eng accs" and "engine_at w0 m eng" and run: "qe_process est eng e = Some (eng', Inr ())"
  shows "engine_at w0 (max m (ts_nanos e)) eng'"
  unfolding engine_at_def
proof
  fix q' assume "q' \<in> set (qe_queries eng')"
  then obtain i where i: "i < length (qe_queries eng)" "q' = qe_queries eng' ! i" using engine_steps(1) [OF run] by (auto simp: in_set_conv_nth)
  let ?q = "qe_queries eng ! i" and ?m = "max m (ts_nanos e)"
  have q: "rq_inv est ?q (accs ! i)" using inv i(1) by (simp add: qe_inv_def list_all2_conv_all_nth)
  obtain s where s: "ring_at (bucket_of ?q w0) s ?q" "s \<le> bucket_of ?q m" using assms(2) nth_mem [OF i(1)] unfolding engine_at_def by blast
  have m: "bucket_of ?q m \<le> bucket_of ?q ?m" "bucket_of ?q (ts_nanos e) \<le> bucket_of ?q ?m" by (intro bucket_of_mono; simp)+
  have moves: "if rq_matches ?q e then ring_moved ?q (bucket_of ?q (ts_nanos e)) q' else q' = ?q"
    using process_moves [OF q] engine_steps(1) [OF run] i by blast
  show "\<exists>s. ring_at (bucket_of q' w0) s q' \<and> s \<le> bucket_of q' ?m"
  proof (cases "rq_matches ?q e")
    case True
    then have mv: "ring_moved ?q (bucket_of ?q (ts_nanos e)) q'" using moves by simp
    show ?thesis using moved_query [OF q s(1) mv] s(2) m by (intro exI [of _ "max s (bucket_of ?q (ts_nanos e))"]) auto
  next
    case False
    then have "q' = ?q" using moves by simp
    then show ?thesis using s m(1) by (auto intro: order_trans)
  qed
qed

lemma engine_reached_advance:
  assumes inv: "qe_inv est eng accs" and "engine_at w0 (max w0 t) eng" and run: "qe_advance_to est eng t = Some (eng', Inr ())"
  shows "engine_reached w0 (max w0 t) eng'"
  unfolding engine_reached_def
proof
  fix q' assume "q' \<in> set (qe_queries eng')"
  then obtain i where i: "i < length (qe_queries eng)" "q' = qe_queries eng' ! i" using engine_steps(2) [OF run] by (auto simp: in_set_conv_nth)
  let ?q = "qe_queries eng ! i"
  have q: "rq_inv est ?q (accs ! i)" using inv i(1) by (simp add: qe_inv_def list_all2_conv_all_nth)
  obtain s where s: "ring_at (bucket_of ?q w0) s ?q" "s \<le> bucket_of ?q (max w0 t)" using assms(2) nth_mem [OF i(1)] unfolding engine_at_def by blast
  have "ring_moved ?q (bucket_of ?q t) q'" using advance_moves [OF q] engine_steps(2) [OF run] i by blast
  note mv = moved_query [OF q s(1) this]
  have "max s (bucket_of ?q t) = bucket_of ?q (max w0 t)"
  proof (cases "t \<le> w0")
    case True
    then show ?thesis using s bucket_of_mono [OF True, of ?q] by (simp add: max_absorb1 ring_at_def)
  next
    case False
    then show ?thesis using s(2) by (simp add: max_def split: if_splits)
  qed
  then show "ring_at (bucket_of q' w0) (bucket_of q' (max w0 t)) q'" using mv by simp
qed

lemma ring_at_same: "rq_buckets q' = rq_buckets q \<Longrightarrow> rq_plan q' = rq_plan q \<Longrightarrow> ring_at b0 s q' = ring_at b0 s q"
  and bucket_of_same: "rq_plan q' = rq_plan q \<Longrightarrow> bucket_of q' = bucket_of q"
  by (auto simp: ring_at_def bucket_of_def)

lemma finish_keeps_ring:
  assumes "rq_finish est q = Some (q', Inr ())"
  shows "rq_buckets q' = rq_buckets q \<and> rq_plan q' = rq_plan q"
  using assms by (auto simp: rq_finish_def flush_window_def map_option_case split: list.splits if_splits option.splits sum.splits)

lemma engine_reached_finish:
  assumes "engine_reached w0 m eng" "qe_finish est eng = Some (eng', Inr ())"
  shows "engine_reached w0 m eng'"
proof -
  have "ring_at (bucket_of (qe_queries eng' ! i) w0) (bucket_of (qe_queries eng' ! i) m) (qe_queries eng' ! i)" if i: "i < length (qe_queries eng)" for i
  proof -
    let ?q = "qe_queries eng ! i" and ?q' = "qe_queries eng' ! i"
    have same: "rq_buckets ?q' = rq_buckets ?q" "rq_plan ?q' = rq_plan ?q" using engine_steps(3) [OF assms(2)] finish_keeps_ring i by blast+
    show ?thesis unfolding ring_at_same [OF same] bucket_of_same [OF same(2)] using assms(1) nth_mem [OF i] unfolding engine_reached_def by blast
  qed
  then show ?thesis using engine_steps(3) [OF assms(2)] by (auto simp: engine_reached_def in_set_conv_nth)
qed

lemma engine_reached_drain: "engine_reached w0 m eng \<Longrightarrow> engine_reached w0 m (fst (take_window_states eng))"
  by (auto simp: engine_reached_def take_window_states_def ring_at_def bucket_of_def)

lemma engine_reached_new:
  assumes "qe_new plans h = Inr eng" "\<forall>p \<in> set plans. plan_ok p" "qe_advance_to est eng w0 = Some (eng', Inr ())"
  shows "engine_reached w0 w0 eng'"
  unfolding engine_reached_def
proof
  have empty: "\<forall>q \<in> set qs. rq_buckets q = []" if "rfold (qe_add_plan h) ps rs = Inr qs" "\<forall>q \<in> set rs. rq_buckets q = []" for ps rs qs
    using that
  proof (induction ps arbitrary: rs)
    case (Cons p ps)
    then obtain rs' where rs': "qe_add_plan h p rs = Inr rs'" "rfold (qe_add_plan h) ps rs' = Inr qs" by (auto simp: rbind_Inr_iff)
    then obtain rq where rq: "rs' = rs @ [rq]" "rq_new p h = Inr rq" by (auto simp: qe_add_plan_def rbind_Inr_iff split: if_splits)
    then have "rq_buckets rq = []" by (auto simp: rq_new_def split: prod.splits)
    then have "\<forall>q \<in> set rs'. rq_buckets q = []" using Cons.prems(2) unfolding rq(1) by (simp add: ball_Un)
    from Cons.IH [OF rs'(2) this] show ?case .
  qed simp
  fix q' assume "q' \<in> set (qe_queries eng')"
  then obtain i where i: "i < length (qe_queries eng)" "q' = qe_queries eng' ! i" using engine_steps(2) [OF assms(3)] by (auto simp: in_set_conv_nth)
  let ?q = "qe_queries eng ! i"
  have none: "rq_buckets ?q = []" using empty [of plans "[]" "qe_queries eng"] assms(1) i(1) by (auto simp: qe_new_def rbind_Inr_iff)
  have q: "rq_inv est ?q []" using qe_new_inv [OF assms(1,2), of est] i(1) by (simp add: qe_inv_def list_all2_conv_all_nth)
  have "ring_moved ?q (bucket_of ?q w0) q'" using advance_moves [OF q] engine_steps(2) [OF assms(3)] i by blast
  moreover from this have "bucket_of q' = bucket_of ?q" by (intro bucket_of_same) (simp add: ring_moved_def)
  ultimately show "ring_at (bucket_of q' w0) (bucket_of q' w0) q'" using none rq_inv_D(3) [OF q]
    by (simp add: ring_moved_def ring_at_def ring_length_def)
qed

section \<open>Lanes\<close>

text \<open>The latest time any worker has seen, and at least the initial one.\<close>

definition mark :: "u64 \<Rightarrow> lane_worker list \<Rightarrow> u64" where
  "mark w0 lanes = (case lane_watermark lanes of None \<Rightarrow> w0 | Some t \<Rightarrow> max w0 t)"

lemma fold_max_le: "fold max ts t \<le> x \<longleftrightarrow> t \<le> x \<and> (\<forall>u \<in> set ts. u \<le> x)" for t x :: u64
  by (induction ts arbitrary: t) auto

lemma mark_le: "mark w0 lanes \<le> x \<longleftrightarrow> w0 \<le> x \<and> (\<forall>w \<in> set lanes. \<forall>t. lw_max_timestamp w = Some t \<longrightarrow> t \<le> x)"
proof -
  have seen: "(\<forall>u \<in> set (List.map_filter lw_max_timestamp lanes). u \<le> x) \<longleftrightarrow> (\<forall>w \<in> set lanes. \<forall>t. lw_max_timestamp w = Some t \<longrightarrow> t \<le> x)"
    by (induction lanes) (auto simp: List.map_filter_simps split: option.splits)
  show ?thesis unfolding seen [symmetric] by (cases "List.map_filter lw_max_timestamp lanes") (auto simp: mark_def lane_watermark_def fold_max_le)
qed

lemma mark_bounds: "w0 \<le> mark w0 lanes" "w \<in> set lanes \<Longrightarrow> lw_max_timestamp w = Some t \<Longrightarrow> t \<le> mark w0 lanes"
  using mark_le [of w0 lanes "mark w0 lanes"] by auto

lemma mark_same:
  assumes "map lw_max_timestamp lanes' = map lw_max_timestamp lanes"
  shows "mark w0 lanes' = mark w0 lanes"
proof -
  have "List.map_filter lw_max_timestamp ls = List.map_filter id (map lw_max_timestamp ls)" for ls
    by (induction ls) (auto simp: List.map_filter_simps split: option.split)
  then have "List.map_filter lw_max_timestamp lanes' = List.map_filter lw_max_timestamp lanes" using assms by metis
  then show ?thesis unfolding mark_def lane_watermark_def by (rule arg_cong)
qed

lemma worker_events_at:
  assumes "qe_trace est plans h (lw_engine w) accs" "\<forall>p \<in> set plans. plan_ok p" "engine_at w0 m (lw_engine w)"
    and "worker_events est es w = Some (w', Inr ())"
  shows "qe_trace est plans h (lw_engine w') (process_hist est es (lw_engine w) accs)
     \<and> (\<forall>t. lw_max_timestamp w = Some t \<longrightarrow> (\<exists>t'. lw_max_timestamp w' = Some t' \<and> t \<le> t'))
     \<and> (\<forall>m'. m \<le> m' \<longrightarrow> (\<forall>t. lw_max_timestamp w' = Some t \<longrightarrow> t \<le> m') \<longrightarrow> engine_at w0 m' (lw_engine w'))"
  using assms(1,3,4)
proof (induction es arbitrary: w accs m)
  case Nil
  then show ?case using engine_at_mono by auto
next
  case (Cons e es)
  let ?ts = "case lw_max_timestamp w of None \<Rightarrow> ts_nanos e | Some m \<Rightarrow> max m (ts_nanos e)"
  obtain eng1 where one: "qe_process est (lw_engine w) e = Some (eng1, Inr ())"
    and rest: "worker_events est es (w\<lparr>lw_engine := eng1, lw_max_timestamp := Some ?ts\<rparr>) = Some (w', Inr ())"
    using Cons.prems(3) by (auto split: option.splits sum.splits prod.splits)
  let ?w1 = "w\<lparr>lw_engine := eng1, lw_max_timestamp := Some ?ts\<rparr>" and ?accs = "Runtime.extend (Process e) (Inr ()) (lw_engine w) accs"
  have tr: "qe_trace est plans h (lw_engine ?w1) ?accs" using qe_trace.call [OF Cons.prems(1), of "Process e"] one by (simp add: qe_exec_def)
  have at: "engine_at w0 (max m (ts_nanos e)) (lw_engine ?w1)"
    using engine_at_process [OF qe_trace_inv [OF Cons.prems(1) assms(2)] Cons.prems(2) one] by simp
  note ih = Cons.IH [OF tr at rest]
  have le: "ts_nanos e \<le> ?ts" "\<And>t. lw_max_timestamp w = Some t \<Longrightarrow> t \<le> ?ts" by (auto split: option.split)
  obtain t' where t': "lw_max_timestamp w' = Some t'" "?ts \<le> t'" using ih by auto
  have "process_hist est (e # es) (lw_engine w) accs = process_hist est es (lw_engine ?w1) ?accs" using one by simp
  moreover have "\<exists>t'. lw_max_timestamp w' = Some t' \<and> t \<le> t'" if "lw_max_timestamp w = Some t" for t using le(2) [OF that] t' by (auto intro: order_trans)
  moreover have "engine_at w0 m' (lw_engine w')" if "m \<le> m'" "\<forall>t. lw_max_timestamp w' = Some t \<longrightarrow> t \<le> m'" for m'
  proof -
    have "ts_nanos e \<le> m'" using le(1) t' that(2) by (meson order_trans)
    then show ?thesis using ih that by simp
  qed
  ultimately show ?case using ih by simp
qed

definition dr_inv :: "(u8 \<Rightarrow> u8 list \<Rightarrow> f64) \<Rightarrow> plan list \<Rightarrow> hash_spec \<Rightarrow> u64 \<Rightarrow> lane_worker list \<Rightarrow> history list list \<Rightarrow> bool" where
  "dr_inv est plans h w0 lanes accss \<longleftrightarrow> lanes \<noteq> [] \<and> distinct (map (\<lambda>p. lq_name (plan_query p)) plans)
     \<and> list_all2 (\<lambda>w accs. qe_trace est plans h (lw_engine w) accs) lanes accss
     \<and> (\<forall>w \<in> set lanes. engine_at w0 (mark w0 lanes) (lw_engine w))"

text \<open>What a report shows: the engine \<open>eng\<close>, advanced and finished but not yet drained.\<close>

lemma build_report_at:
  assumes tr: "qe_trace est plans h (lw_engine w) accs" and ok: "\<forall>p \<in> set plans. plan_ok p"
    and at: "engine_at w0 (mark w0 lanes) (lw_engine w)"
    and run: "build_report est (lane_watermark lanes) include_current finish w = Some (w', Inr rp)"
  obtains eng where "qe_trace est plans h eng accs" "engine_reached w0 (mark w0 lanes) eng" "rp_completed rp = snd (take_window_states eng)"
    "w' = w\<lparr>lw_engine := fst (take_window_states eng)\<rparr>"
    "include_current \<Longrightarrow> current_window_states est (fst (take_window_states eng)) = Some (Inr (rp_current rp))"
proof -
  obtain eng1 where one: "advance_opt est (lane_watermark lanes) (lw_engine w) = Some (eng1, Inr ())"
    using run by (auto simp: build_report_def split: option.splits sum.splits prod.splits)
  have tr1: "qe_trace est plans h eng1 accs" using advance_opt_trace [OF tr ok, of "lane_watermark lanes"] one by auto
  have at1: "engine_reached w0 (mark w0 lanes) eng1"
  proof (cases "lane_watermark lanes")
    case None
    then have "eng1 = lw_engine w" "mark w0 lanes = w0" using one by (simp_all add: advance_opt_def mark_def)
    then show ?thesis using at by (auto simp: engine_at_def engine_reached_def ring_at_def)
  next
    case (Some t)
    then show ?thesis using engine_reached_advance [OF qe_trace_inv [OF tr ok], of w0 t eng1] at one by (simp add: advance_opt_def mark_def)
  qed
  obtain eng2 where two: "(if finish then qe_finish est eng1 else Some (eng1, Inr ())) = Some (eng2, Inr ())"
    using run one by (auto simp: build_report_def split: option.splits sum.splits prod.splits)
  have tr2: "qe_trace est plans h eng2 accs" using two tr1 qe_trace.call [OF tr1, of Finish eng2 "Inr ()"] by (auto simp: qe_exec_def split: if_splits)
  have at2: "engine_reached w0 (mark w0 lanes) eng2" using two at1 engine_reached_finish [OF at1] by (auto split: if_splits)
  show thesis using that [OF tr2 at2] run one two by (auto simp: build_report_def case_prod_beta Let_def split: option.splits sum.splits if_splits)
qed

lemma checkpoint_lane:
  assumes "handle_control est PauseControl (Some (CheckpointControl wm include_current finish)) w = Some (w', ack, Some (Inr rp), Inr b)"
  shows "build_report est wm include_current finish w = Some (w', Inr rp)"
  using assms by (auto simp: handle_control_def)

text \<open>An engine refuses two queries of one name.\<close>

lemma qe_new_names:
  assumes "qe_new plans h = Inr eng"
  shows "distinct (map (\<lambda>p. lq_name (plan_query p)) plans)"
proof -
  let ?f = "\<lambda>q. lq_name (plan_query (rq_plan q))" and ?nm = "\<lambda>p. lq_name (plan_query p)"
  have "distinct (map ?f rs @ map ?nm ps)" if "rfold (qe_add_plan h) ps rs = Inr qs" "distinct (map ?f rs)" for ps rs qs
    using that
  proof (induction ps arbitrary: rs)
    case (Cons p ps)
    then obtain rs' where rs': "qe_add_plan h p rs = Inr rs'" "rfold (qe_add_plan h) ps rs' = Inr qs" by (auto simp: rbind_Inr_iff)
    then obtain rq where rq: "rs' = rs @ [rq]" "rq_new p h = Inr rq" "?nm p \<notin> set (map ?f rs)"
      by (auto simp: qe_add_plan_def rbind_Inr_iff split: if_splits)
    then have "?f rq = ?nm p" by (auto simp: rq_new_def split: prod.splits)
    moreover from this have "distinct (map ?f rs')" using Cons.prems(2) rq(1,3) by simp
    ultimately show ?case using Cons.IH [OF rs'(2)] rq(1) by simp
  qed simp
  from this [of plans "[]" "qe_queries eng"] assms show ?thesis by (auto simp: qe_new_def rbind_Inr_iff)
qed

lemma dr_inv_start:
  assumes "new_with_options est start plans h n batch_size cpus capacity w0 = Some (Inr (lanes, capacities))" "\<forall>p \<in> set plans. plan_ok p"
  shows "dr_inv est plans h w0 lanes (replicate n (replicate (length plans) []))"
proof -
  obtain eng eng' where e: "qe_new plans h = Inr eng" "qe_advance_to est eng w0 = Some (eng', Inr ())" "0 < n"
    "lanes = replicate n \<lparr>lw_engine = eng', lw_max_timestamp = None, lw_data_open = True\<rparr>"
    using assms(1) by (auto simp: new_with_options_def split: if_splits sum.splits option.splits list.splits prod.splits)
  have names: "distinct (map (\<lambda>p. lq_name (plan_query p)) plans)" "length (qe_queries eng) = length plans"
    using qe_new_names [OF e(1)] trace_plans [OF qe_trace.start [OF e(1)] assms(2)] by (auto simp flip: length_map [of rq_plan])
  have tr: "qe_trace est plans h eng' (replicate (length plans) [])"
    using qe_trace.call [OF qe_trace.start [OF e(1)], of est "AdvanceTo w0" eng' "Inr ()"] e(2) names(2) by (simp add: qe_exec_def)
  have "engine_reached w0 w0 eng'" using engine_reached_new [OF e(1) assms(2) e(2)] .
  then have at: "engine_at w0 (mark w0 lanes) eng'" using reached_at engine_at_mono mark_bounds(1) by blast
  have "qe_trace est plans h (lw_engine (lanes ! i)) (replicate (length plans) [])" if "i < n" for i using tr that by (simp add: e(4))
  moreover have "length lanes = n" "lanes \<noteq> []" using e(3,4) by auto
  moreover have "engine_at w0 (mark w0 lanes) (lw_engine w)" if "w \<in> set lanes" for w using at that unfolding e(4) by auto
  ultimately show ?thesis using names(1) by (auto simp: dr_inv_def list_all2_conv_all_nth)
qed

lemma dr_inv_turn:
  assumes inv: "dr_inv est plans h w0 lanes accss" and "\<forall>p \<in> set plans. plan_ok p" and i: "i < length lanes"
    and run: "worker_turn est i batch_size waiting hung_up (lanes ! i) ct = Some (w, ct', Inr ())"
  shows "dr_inv est plans h w0 (lanes[i := w]) (accss[i := process_hist est (take batch_size waiting) (lw_engine (lanes ! i)) (accss ! i)])"
proof -
  let ?w = "lanes ! i"
  obtain w1 where w1: "worker_events est (take batch_size waiting) ?w = Some (w1, Inr ())" "lw_engine w = lw_engine w1" "lw_max_timestamp w = lw_max_timestamp w1"
    using run by (auto simp: worker_turn_def Let_def split: option.splits sum.splits if_splits)
  have tr: "qe_trace est plans h (lw_engine ?w) (accss ! i)" and at: "engine_at w0 (mark w0 lanes) (lw_engine ?w)" and len: "length accss = length lanes"
    using inv i by (auto simp: dr_inv_def list_all2_conv_all_nth)
  note ev = worker_events_at [OF tr assms(2) at w1(1)]
  let ?lanes = "lanes[i := w]"
  have up: "mark w0 lanes \<le> mark w0 ?lanes"
    unfolding mark_le [of w0 lanes]
  proof (intro conjI ballI allI impI)
    show "w0 \<le> mark w0 ?lanes" by (rule mark_bounds(1))
    fix v t assume v: "v \<in> set lanes" "lw_max_timestamp v = Some t"
    then obtain j where j: "j < length lanes" "v = lanes ! j" by (auto simp: in_set_conv_nth)
    show "t \<le> mark w0 ?lanes"
    proof (cases "j = i")
      case True
      then obtain t' where "lw_max_timestamp w = Some t'" "t \<le> t'" using ev v(2) j(2) w1(3) by auto
      moreover have "w \<in> set ?lanes" using i by (simp add: set_update_memI)
      ultimately show ?thesis using mark_bounds(2) order_trans by blast
    next
      case False
      then have "v \<in> set ?lanes" using j by (metis length_list_update nth_list_update_neq nth_mem)
      then show ?thesis using mark_bounds(2) v(2) by blast
    qed
  qed
  have "engine_at w0 (mark w0 ?lanes) (lw_engine w)"
    using ev up mark_bounds(2) [of w ?lanes] i w1(2,3) by (auto simp: set_update_memI)
  then have "engine_at w0 (mark w0 ?lanes) (lw_engine v)" if "v \<in> set ?lanes" for v
    using that set_update_subset_insert [of lanes i w] engine_at_mono [OF _ up] inv by (auto simp: dr_inv_def)
  then show ?thesis using inv ev w1(2) len i by (auto simp: dr_inv_def list_all2_conv_all_nth nth_list_update)
qed

lemma dr_inv_checkpoint:
  assumes inv: "dr_inv est plans h w0 lanes accss" and "\<forall>p \<in> set plans. plan_ok p" and run: "checkpoint est plans False include_current lanes lanes' (Inr out)"
  shows "dr_inv est plans h w0 lanes' accss"
proof -
  have one: "qe_trace est plans h (lw_engine (lanes' ! i)) (accss ! i) \<and> engine_at w0 (mark w0 lanes) (lw_engine (lanes' ! i))
      \<and> lw_max_timestamp (lanes' ! i) = lw_max_timestamp (lanes ! i)" and len: "length lanes' = length lanes" if i: "i < length lanes" for i
  proof -
    have tr: "qe_trace est plans h (lw_engine (lanes ! i)) (accss ! i)" and at: "engine_at w0 (mark w0 lanes) (lw_engine (lanes ! i))"
      using inv i by (auto simp: dr_inv_def list_all2_conv_all_nth)
    from run obtain rp where rp: "build_report est (lane_watermark lanes) include_current False (lanes ! i) = Some (lanes' ! i, Inr rp)" "length lanes' = length lanes"
      using i by (cases rule: checkpoint.cases) (blast dest: checkpoint_lane)+
    then show "length lanes' = length lanes" by simp
    obtain eng where e: "qe_trace est plans h eng (accss ! i)" "engine_reached w0 (mark w0 lanes) eng" "lanes' ! i = (lanes ! i)\<lparr>lw_engine := fst (take_window_states eng)\<rparr>"
      using build_report_at [OF tr assms(2) at rp(1)] by metis
    have "qe_trace est plans h (fst (take_window_states eng)) (accss ! i)"
      using qe_trace.call [OF e(1), of Drain] by (simp add: qe_exec_def)
    then show "qe_trace est plans h (lw_engine (lanes' ! i)) (accss ! i) \<and> engine_at w0 (mark w0 lanes) (lw_engine (lanes' ! i))
      \<and> lw_max_timestamp (lanes' ! i) = lw_max_timestamp (lanes ! i)"
      using reached_at [OF engine_reached_drain [OF e(2)]] by (simp add: e(3))
  qed
  have ne: "lanes \<noteq> []" using inv by (simp add: dr_inv_def)
  then have len': "length lanes' = length lanes" using len [of 0] by simp
  then have "map lw_max_timestamp lanes' = map lw_max_timestamp lanes" using one by (simp add: list_eq_iff_nth_eq)
  from mark_same [OF this] have "mark w0 lanes' = mark w0 lanes" .
  then show ?thesis using inv one len' ne by (auto simp: dr_inv_def list_all2_conv_all_nth in_set_conv_nth)
qed

lemma dr_reach_inv:
  assumes "dr_reach est plans h w0 lanes accss" "\<forall>p \<in> set plans. plan_ok p"
  shows "dr_inv est plans h w0 lanes accss"
  using assms(1) by induction (rule dr_inv_start dr_inv_turn dr_inv_checkpoint; (assumption | rule assms(2)))+

section \<open>Open windows\<close>

text \<open>The open window of a query: the span and the inputs of its ring.\<close>

definition open_window :: "(u8 \<Rightarrow> u8 list \<Rightarrow> f64) \<Rightarrow> running_query \<Rightarrow> history \<Rightarrow> query_window_state \<Rightarrow> bool" where
  "open_window est q acc w \<longleftrightarrow> qws_name w = lq_name (plan_query (rq_plan q))
     \<and> bounds (qws_state w) = (b_start (hd (rq_buckets q)), b_start (last (rq_buckets q)) + rq_slide q)
     \<and> qs_holds est (rq_sketch q) (rq_hash q) (ws_state (qws_state w))
         (in_window acc (rq_slide q) (b_start (hd (rq_buckets q))) (length (rq_buckets q)))"

lemma current_window_open:
  assumes "rq_inv est q acc" "rq_buckets q \<noteq> []"
  shows "\<exists>w. current_window est q = Some (Inr [w]) \<and> open_window est q acc w"
proof -
  obtain b bs where b: "rq_buckets q = b # bs" using assms(2) by (cases "rq_buckets q") auto
  from ring_merge [OF assms(1) b] show ?thesis by (auto simp: current_window_def open_window_def bounds_def b)
qed

lemma current_windows_open:
  assumes "list_all2 (rq_inv est) qs accs" "\<forall>q \<in> set qs. rq_buckets q \<noteq> []"
  shows "\<exists>ws. pfold (\<lambda>q out. pbind (current_window est q) (\<lambda>ws. Some (Inr (out @ ws)))) qs out = Some (Inr (out @ ws))
     \<and> length ws = length qs \<and> (\<forall>j < length qs. open_window est (qs ! j) (accs ! j) (ws ! j))"
  using assms
proof (induction qs accs arbitrary: out rule: list_all2_induct)
  case (Cons q qs acc accs)
  obtain w where w: "current_window est q = Some (Inr [w])" "open_window est q acc w" using current_window_open [OF Cons.hyps(1)] Cons.prems by auto
  obtain ws where ws: "pfold (\<lambda>q out. pbind (current_window est q) (\<lambda>ws. Some (Inr (out @ ws)))) qs (out @ [w]) = Some (Inr ((out @ [w]) @ ws))"
    "length ws = length qs" "\<forall>j < length qs. open_window est (qs ! j) (accs ! j) (ws ! j)" using Cons.IH [of "out @ [w]"] Cons.prems by auto
  have "open_window est ((q # qs) ! j) ((acc # accs) ! j) ((w # ws) ! j)" if "j < length (q # qs)" for j using that w(2) ws(3) by (cases j) auto
  then show ?case using w(1) ws(1,2) by (intro exI [of _ "w # ws"]) auto
qed simp

text \<open>The rings of all lanes span the same time, so that their open windows have equal bounds.\<close>

lemma reached_span:
  assumes "qe_trace est plans h eng accs" "qe_trace est plans h eng' accs'" "\<forall>p \<in> set plans. plan_ok p"
    and "engine_reached w0 m eng" "engine_reached w0 m eng'" "j < length plans"
  shows "b_start (hd (rq_buckets (qe_queries eng ! j))) = b_start (hd (rq_buckets (qe_queries eng' ! j)))
     \<and> length (rq_buckets (qe_queries eng ! j)) = length (rq_buckets (qe_queries eng' ! j))
     \<and> b_start (last (rq_buckets (qe_queries eng ! j))) = b_start (last (rq_buckets (qe_queries eng' ! j)))"
proof -
  let ?q = "qe_queries eng ! j" and ?q' = "qe_queries eng' ! j"
  have at: "rq_plan (qe_queries e ! j) = plans ! j \<and> ring_ok (rq_slide (qe_queries e ! j)) (rq_buckets (qe_queries e ! j))
      \<and> ring_at (bucket_of (qe_queries e ! j) w0) (bucket_of (qe_queries e ! j) m) (qe_queries e ! j)"
    if "qe_trace est plans h e as" "engine_reached w0 m e" for e as
  proof -
    have plans: "map rq_plan (qe_queries e) = plans" using trace_plans [OF that(1) assms(3)] by simp
    then have j: "j < length (qe_queries e)" using assms(6) by (metis length_map)
    have "rq_inv est (qe_queries e ! j) (as ! j)" using qe_trace_inv [OF that(1) assms(3)] j by (simp add: qe_inv_def list_all2_conv_all_nth)
    then show ?thesis using plans j that(2) nth_mem [OF j] by (auto simp: rq_inv_def engine_reached_def)
  qed
  note q = at [OF assms(1,4)] and q' = at [OF assms(2,5)]
  have p: "rq_plan ?q = rq_plan ?q'" using q q' by simp
  have same: "bucket_of ?q' = bucket_of ?q" by (rule bucket_of_same) (rule p [symmetric])
  have r: "ring_at (bucket_of ?q w0) (bucket_of ?q m) ?q" "ring_at (bucket_of ?q w0) (bucket_of ?q m) ?q'" using q q' unfolding same by blast+
  have "b_start (hd (rq_buckets ?q)) = b_start (hd (rq_buckets ?q'))" using ring_at_bounds [OF r p] q q' by blast
  then show ?thesis using r p by (simp add: ring_at_def)
qed

section \<open>Publishing\<close>

lemma check_bounds_same:
  assumes "\<forall>w \<in> set ws. B (qws_name w) = bounds (qws_state w)" "\<forall>k b. map_of m k = Some b \<longrightarrow> b = B k"
  shows "\<exists>m'. pfold check_bounds ws m = Some (Inr m') \<and> (\<forall>k b. map_of m' k = Some b \<longrightarrow> b = B k)"
  using assms
proof (induction ws arbitrary: m)
  case (Cons w ws)
  have "\<exists>m1. check_bounds w m = Some (Inr m1) \<and> (\<forall>k b. map_of m1 k = Some b \<longrightarrow> b = B k)"
    using Cons.prems by (cases "map_of m (qws_name w)") (auto simp: check_bounds_def)
  then obtain m1 where "check_bounds w m = Some (Inr m1)" "\<forall>k b. map_of m1 k = Some b \<longrightarrow> b = B k" by blast
  then show ?case using Cons.IH [of m1] Cons.prems(1) by simp
qed simp

text \<open>Reports are merged one after another, which is the merge of all their windows.\<close>

lemma add_reports:
  assumes "pfold (merge_output est) (concat (map rp_completed reports)) c = Some (Inr c')"
    and "include_current \<Longrightarrow> pfold (merge_output est) (concat (map rp_current reports)) d = Some (Inr d')"
    and "include_current \<Longrightarrow> \<forall>rp \<in> set reports. \<forall>w \<in> set (rp_current rp). B (qws_name w) = bounds (qws_state w)" "\<forall>k b. map_of m k = Some b \<longrightarrow> b = B k"
  shows "\<exists>m'. pfold (add_report est include_current) reports (c, d, m, late)
     = Some (Inr (c', if include_current then d' else d, m', fold (\<lambda>rp late. saturating_add late (rp_late_events rp)) reports late))"
  using assms
proof (induction reports arbitrary: c d m late)
  case (Cons rp reports)
  obtain c1 where c1: "pfold (merge_output est) (rp_completed rp) c = Some (Inr c1)" "pfold (merge_output est) (concat (map rp_completed reports)) c1 = Some (Inr c')"
    using Cons.prems(1) by (auto simp: pfold_append pbind_def split: option.splits sum.splits)
  show ?case
  proof (cases include_current)
    case True
    obtain d1 where d1: "pfold (merge_output est) (rp_current rp) d = Some (Inr d1)" "pfold (merge_output est) (concat (map rp_current reports)) d1 = Some (Inr d')"
      using Cons.prems(2) [OF True] by (auto simp: pfold_append pbind_def split: option.splits sum.splits)
    obtain m1 where m1: "pfold check_bounds (rp_current rp) m = Some (Inr m1)" "\<forall>k b. map_of m1 k = Some b \<longrightarrow> b = B k"
      using check_bounds_same [of "rp_current rp" B m] Cons.prems(3) [OF True] Cons.prems(4) by auto
    have "add_report est include_current rp (c, d, m, late) = Some (Inr (c1, d1, m1, saturating_add late (rp_late_events rp)))"
      using True c1(1) d1(1) m1(1) by (simp add: add_report_def merge_windows_def Let_def)
    then show ?thesis using Cons.IH [OF c1(2) d1(2) _ m1(2), of "saturating_add late (rp_late_events rp)"] Cons.prems(3) True by simp
  next
    case False
    then have "add_report est include_current rp (c, d, m, late) = Some (Inr (c1, d, m, saturating_add late (rp_late_events rp)))"
      using c1(1) by (simp add: add_report_def merge_windows_def Let_def)
    then show ?thesis using Cons.IH [OF c1(2) _ _ Cons.prems(4), of d "saturating_add late (rp_late_events rp)"] False by simp
  qed
qed simp

text \<open>All lanes have reported to a checkpoint.\<close>

definition all_reported :: "(u8 \<Rightarrow> u8 list \<Rightarrow> f64) \<Rightarrow> bool \<Rightarrow> bool \<Rightarrow> lane_worker list \<Rightarrow> worker_report list \<Rightarrow> bool" where
  "all_reported est finish include_current lanes reports \<longleftrightarrow> list_all2 (\<lambda>w rp. \<exists>w'.
     handle_control est PauseControl (Some (CheckpointControl (lane_watermark lanes) include_current finish)) w
       = Some (w', Some (lw_max_timestamp w), Some (Inr rp), Inr finish)) lanes reports"

text \<open>The windows a checkpoint's reports hold for a query and bounds, with the lanes they are from.\<close>

definition reported :: "worker_report list \<Rightarrow> string \<Rightarrow> u64 \<times> u64 \<Rightarrow> (nat \<times> window_state) list" where
  "reported reports n t = concat (map (\<lambda>i. map (\<lambda>out. (i, qws_state out)) (filter (\<lambda>out. output_key out = (n, t)) (rp_completed (reports ! i)))) [0..<length reports])"

lemma reported_engines:
  assumes inv: "dr_inv est plans h w0 lanes accss" and ok: "\<forall>p \<in> set plans. plan_ok p" and rep: "all_reported est finish include_current lanes reports"
  obtains engs where "length engs = length lanes" "length reports = length lanes"
    "\<And>i. i < length lanes \<Longrightarrow> qe_trace est plans h (engs ! i) (accss ! i) \<and> engine_reached w0 (mark w0 lanes) (engs ! i)
       \<and> rp_completed (reports ! i) = snd (take_window_states (engs ! i))
       \<and> (include_current \<longrightarrow> current_window_states est (fst (take_window_states (engs ! i))) = Some (Inr (rp_current (reports ! i))))"
proof -
  have one: "\<exists>eng. qe_trace est plans h eng (accss ! i) \<and> engine_reached w0 (mark w0 lanes) eng
       \<and> rp_completed (reports ! i) = snd (take_window_states eng)
       \<and> (include_current \<longrightarrow> current_window_states est (fst (take_window_states eng)) = Some (Inr (rp_current (reports ! i))))" if i: "i < length lanes" for i
  proof -
    have tr: "qe_trace est plans h (lw_engine (lanes ! i)) (accss ! i)" and at: "engine_at w0 (mark w0 lanes) (lw_engine (lanes ! i))"
      using inv i by (auto simp: dr_inv_def list_all2_conv_all_nth)
    obtain w' where w': "build_report est (lane_watermark lanes) include_current finish (lanes ! i) = Some (w', Inr (reports ! i))"
      using rep i checkpoint_lane unfolding all_reported_def list_all2_conv_all_nth by meson
    show ?thesis using build_report_at [OF tr ok at w'] by metis
  qed
  then obtain e where e: "\<And>i. i < length lanes \<Longrightarrow> qe_trace est plans h (e i) (accss ! i) \<and> engine_reached w0 (mark w0 lanes) (e i)
       \<and> rp_completed (reports ! i) = snd (take_window_states (e i))
       \<and> (include_current \<longrightarrow> current_window_states est (fst (take_window_states (e i))) = Some (Inr (rp_current (reports ! i))))" by metis
  show thesis by (rule that [of "map e [0..<length lanes]"]) (use e rep in \<open>auto simp: all_reported_def dest: list_all2_lengthD\<close>)
qed

text \<open>What the completed windows of the reports merge to.\<close>

lemma merged_completed:
  assumes inv: "dr_inv est plans h w0 lanes accss" and ok: "\<forall>p \<in> set plans. plan_ok p" and rep: "all_reported est finish include_current lanes reports"
  shows "\<exists>m outs. pfold (merge_output est) (concat (map rp_completed reports)) [] = Some (Inr m) \<and> rfold (with_plan plans) m [] = Inr outs
     \<and> distinct (map (\<lambda>(p, w). (lq_name (plan_query p), bounds w)) outs)
     \<and> (\<forall>p \<in> set plans. \<forall>t. (\<exists>w. (p, w) \<in> set outs \<and> bounds w = t) \<longleftrightarrow> reported reports (lq_name (plan_query p)) t \<noteq> [])
     \<and> (\<forall>(p, w) \<in> set outs. \<exists>j xss. j < length plans \<and> p = plans ! j
          \<and> list_all2 (\<lambda>(i, v) xs. shard_inputs p (accss ! i ! j) (bounds w) xs) (reported reports (lq_name (plan_query p)) (bounds w)) xss
          \<and> qs_holds est (pp_sketch (plan_physical p)) h (ws_state w) (concat xss))"
proof -
  let ?nm = "\<lambda>p. lq_name (plan_query p)"
  obtain engs where engs: "length engs = length lanes" "length reports = length lanes"
    "\<And>i. i < length lanes \<Longrightarrow> qe_trace est plans h (engs ! i) (accss ! i) \<and> rp_completed (reports ! i) = snd (take_window_states (engs ! i))"
    using reported_engines [OF assms] by metis
  let ?sh = "\<lparr>sh_shards = engs, sh_plans = plans, sh_hash = h, sh_next_balanced_shard = 0\<rparr>"
  have d: "distinct (map ?nm plans)" using inv by (simp add: dr_inv_def)
  have len: "length accss = length lanes" "lanes \<noteq> []" using inv by (auto simp: dr_inv_def dest: list_all2_lengthD)
  have sh: "sh_ok est plans h ?sh accss" using engs len d by (auto simp: sh_ok_def list_all2_conv_all_nth)
  have outs_of: "concat (map rp_completed reports) = outputs ?sh"
    unfolding outputs_def using engs by (intro arg_cong [where f = concat]) (auto simp: list_eq_iff_nth_eq)
  have rp: "reported reports (?nm (plans ! j)) t = completed ?sh j t" if j: "j < length plans" for j t
  proof -
    have "map (\<lambda>out. (i, qws_state out)) (filter (\<lambda>out. output_key out = (?nm (plans ! j), t)) (rp_completed (reports ! i)))
        = map (Pair i) (filter (\<lambda>w. bounds w = t) (rq_emitted (qe_queries (engs ! i) ! j)))" if i: "i < length lanes" for i
    proof -
      have "map rq_plan (qe_queries (engs ! i)) = plans" using trace_plans [OF _ ok] engs(3) [OF i] by blast
      from outputs_of_engine [OF d this j, of "fst t" "snd t"]
      have "map qws_state (filter (\<lambda>out. output_key out = (?nm (plans ! j), t)) (rp_completed (reports ! i)))
        = filter (\<lambda>w. bounds w = t) (rq_emitted (qe_queries (engs ! i) ! j))" using engs(3) [OF i] by simp
      then have "map (Pair i) (map qws_state (filter (\<lambda>out. output_key out = (?nm (plans ! j), t)) (rp_completed (reports ! i))))
        = map (Pair i) (filter (\<lambda>w. bounds w = t) (rq_emitted (qe_queries (engs ! i) ! j)))" by (rule arg_cong)
      then show ?thesis by (simp add: comp_def)
    qed
    then show ?thesis unfolding reported_def completed_def using engs(1,2) by (intro arg_cong [where f = concat]) simp
  qed
  obtain m where m: "pfold (merge_output est) (outputs ?sh) [] = Some (Inr m)" using merged_windows [OF sh ok] by blast
  obtain sh' outs where t: "take_merged est ?sh = Some (sh', Inr outs)"
     "distinct (map (\<lambda>(p, w). (?nm p, bounds w)) outs)"
     "\<forall>j < length plans. \<forall>t. (\<exists>w. (plans ! j, w) \<in> set outs \<and> bounds w = t) \<longleftrightarrow> completed ?sh j t \<noteq> []"
     "\<forall>(p, w) \<in> set outs. \<exists>j < length plans. p = plans ! j \<and> merge_of est (map snd (completed ?sh j (bounds w))) w"
    using take_merged_ok [OF sh ok] by blast
  have wp: "rfold (with_plan plans) m [] = Inr outs"
    using t(1) take_shards_all [OF m [unfolded outputs_def]] by (auto simp: take_merged_def)
  have "\<exists>j xss. j < length plans \<and> p = plans ! j
          \<and> list_all2 (\<lambda>(i, v) xs. shard_inputs p (accss ! i ! j) (bounds w) xs) (reported reports (?nm p) (bounds w)) xss
          \<and> qs_holds est (pp_sketch (plan_physical p)) h (ws_state w) (concat xss)" if pw: "(p, w) \<in> set outs" for p w
  proof -
    obtain j where j: "j < length plans" "p = plans ! j" "merge_of est (map snd (completed ?sh j (bounds w))) w" using bspec [OF t(4) pw] by auto
    obtain xss where xss: "list_all2 (\<lambda>(i, v) xs. shard_inputs (plans ! j) (accss ! i ! j) (bounds w) xs) (completed ?sh j (bounds w)) xss"
      "list_all2 (\<lambda>v xs. qs_holds est (pp_sketch (plan_physical (plans ! j))) h (ws_state v) xs) (map snd (completed ?sh j (bounds w))) xss"
      using completed_holds [OF sh ok j(1), of "bounds w"] by blast
    then show ?thesis using merge_of_holds [OF j(3) xss(2)] j(1,2) rp [OF j(1)] by (intro exI [of _ j] exI [of _ xss]) simp
  qed
  moreover have "(\<exists>w. (p, w) \<in> set outs \<and> bounds w = t) \<longleftrightarrow> reported reports (?nm p) t \<noteq> []" if p: "p \<in> set plans" for p t
  proof -
    obtain j where j: "j < length plans" "p = plans ! j" using p by (metis in_set_conv_nth)
    show ?thesis unfolding j(2) rp [OF j(1)] using t(3) j(1) by blast
  qed
  ultimately show ?thesis using m wp t(2) unfolding outs_of by (intro exI [of _ m] exI [of _ outs]) (simp add: case_prod_beta)
qed

text \<open>The open windows a report holds: one of every query, all lanes with the same bounds.\<close>

lemma reported_current:
  assumes inv: "dr_inv est plans h w0 lanes accss" and ok: "\<forall>p \<in> set plans. plan_ok p" and rep: "all_reported est finish True lanes reports"
  obtains t n where "length reports = length lanes"
    "\<And>j. j < length plans \<Longrightarrow> snd (t j) = fst (t j) + of_nat (n j) * slide_nanos (lq_window (plan_query (plans ! j)))"
    "\<And>i. i < length lanes \<Longrightarrow> length (rp_current (reports ! i)) = length plans"
    "\<And>i j. i < length lanes \<Longrightarrow> j < length plans \<Longrightarrow> output_key (rp_current (reports ! i) ! j) = (lq_name (plan_query (plans ! j)), t j)
       \<and> qs_holds est (pp_sketch (plan_physical (plans ! j))) h (ws_state (qws_state (rp_current (reports ! i) ! j)))
           (in_window (accss ! i ! j) (slide_nanos (lq_window (plan_query (plans ! j)))) (fst (t j)) (n j))"
proof -
  obtain engs where engs: "length engs = length lanes" "length reports = length lanes"
    "\<And>i. i < length lanes \<Longrightarrow> qe_trace est plans h (engs ! i) (accss ! i) \<and> engine_reached w0 (mark w0 lanes) (engs ! i)
       \<and> current_window_states est (fst (take_window_states (engs ! i))) = Some (Inr (rp_current (reports ! i)))"
    using reported_engines [OF assms] by metis
  let ?d = "\<lambda>i. fst (take_window_states (engs ! i))"
  have tr: "qe_trace est plans h (?d i) (accss ! i)" and at: "engine_reached w0 (mark w0 lanes) (?d i)" if "i < length lanes" for i
    using qe_trace.call [of est plans h "engs ! i" "accss ! i" Drain] engs(3) [OF that] engine_reached_drain by (auto simp: qe_exec_def)
  have len: "length (qe_queries (?d i)) = length plans" "map rq_plan (qe_queries (?d i)) = plans" "\<forall>q \<in> set (qe_queries (?d i)). rq_hash q = h" if "i < length lanes" for i
    using trace_plans [OF tr [OF that] ok] by (auto simp flip: length_map [of rq_plan])
  have inv_q: "list_all2 (rq_inv est) (qe_queries (?d i)) (accss ! i)" if "i < length lanes" for i
    using qe_trace_inv [OF tr [OF that] ok] by (simp add: qe_inv_def)
  have ne: "\<forall>q \<in> set (qe_queries (?d i)). rq_buckets q \<noteq> []" if "i < length lanes" for i using at [OF that] by (auto simp: engine_reached_def ring_at_def)
  have cur: "length (rp_current (reports ! i)) = length plans \<and> (\<forall>j < length plans. open_window est (qe_queries (?d i) ! j) (accss ! i ! j) (rp_current (reports ! i) ! j))"
    if i: "i < length lanes" for i
    using current_windows_open [OF inv_q [OF i] ne [OF i], of "[]"] engs(3) [OF i] len(1) [OF i] by (auto simp: current_window_states_def)
  let ?q = "\<lambda>j. qe_queries (?d 0) ! j"
  let ?t = "\<lambda>j. (b_start (hd (rq_buckets (?q j))), b_start (last (rq_buckets (?q j))) + rq_slide (?q j))" and ?n = "\<lambda>j. length (rq_buckets (?q j))"
  have zero: "0 < length lanes" using inv by (simp add: dr_inv_def)
  have span: "snd (?t j) = fst (?t j) + of_nat (?n j) * slide_nanos (lq_window (plan_query (plans ! j)))" if j: "j < length plans" for j
  proof -
    have q: "rq_inv est (?q j) (accss ! 0 ! j)" "rq_plan (?q j) = plans ! j" "rq_buckets (?q j) \<noteq> []"
      using inv_q [OF zero] len [OF zero] ne [OF zero] j by (auto simp: list_all2_conv_all_nth)
    then obtain k where k: "?n j = Suc k" by (cases "rq_buckets (?q j)") auto
    have "b_start (last (rq_buckets (?q j))) = b_start (hd (rq_buckets (?q j))) + of_nat k * rq_slide (?q j)"
      using ring_start [OF rq_inv_D(6) [OF q(1)], of k] k by (simp add: last_conv_nth [OF q(3)])
    then show ?thesis using k q(2) by (simp add: algebra_simps)
  qed
  have all: "output_key (rp_current (reports ! i) ! j) = (lq_name (plan_query (plans ! j)), ?t j)
       \<and> qs_holds est (pp_sketch (plan_physical (plans ! j))) h (ws_state (qws_state (rp_current (reports ! i) ! j)))
           (in_window (accss ! i ! j) (slide_nanos (lq_window (plan_query (plans ! j)))) (fst (?t j)) (?n j))" if i: "i < length lanes" and j: "j < length plans" for i j
  proof -
    have p: "rq_plan (qe_queries (?d i) ! j) = plans ! j" "rq_plan (?q j) = plans ! j" "rq_hash (qe_queries (?d i) ! j) = h"
      using len [OF i] len [OF zero] j by (metis nth_map, metis nth_map, metis nth_mem)
    have "open_window est (qe_queries (?d i) ! j) (accss ! i ! j) (rp_current (reports ! i) ! j)" using cur [OF i] j by blast
    then show ?thesis using reached_span [OF tr [OF i] tr [OF zero] ok at [OF i] at [OF zero] j] p
      by (simp add: open_window_def output_key_def bounds_def)
  qed
  show thesis by (rule that [of ?t ?n, OF engs(2) span _ all]) (use cur in auto)
qed

lemma filter_one:
  assumes "distinct (map f xs)" "j < length xs"
  shows "filter (\<lambda>x. f x = f (xs ! j)) xs = [xs ! j]"
  using assms
proof (induction xs arbitrary: j)
  case (Cons x xs)
  show ?case
  proof (cases j)
    case 0
    have "filter (\<lambda>y. f y = f x) xs = []" using Cons.prems(1) by (auto simp: filter_empty_conv) (metis image_eqI)
    then show ?thesis using 0 by simp
  next
    case (Suc k)
    then show ?thesis using Cons.IH [of k] Cons.prems by (auto simp: image_iff)
  qed
qed simp

text \<open>Rows of equal length whose \<open>j\<close>-th entries have key \<open>k j\<close>: the entries of one key are a column.\<close>

lemma filter_column:
  assumes "\<And>i. i < length rs \<Longrightarrow> length (row (rs ! i)) = n" "\<And>i j. i < length rs \<Longrightarrow> j < n \<Longrightarrow> f (row (rs ! i) ! j) = k j"
    and "\<And>j j'. j < n \<Longrightarrow> j' < n \<Longrightarrow> k j = k j' \<Longrightarrow> j = j'" "j < n"
  shows "filter (\<lambda>x. f x = k j) (concat (map row rs)) = map (\<lambda>i. row (rs ! i) ! j) [0..<length rs]"
proof -
  have one: "filter (\<lambda>x. f x = k j) (row (rs ! i)) = [row (rs ! i) ! j]" if i: "i < length rs" for i
  proof -
    have "map f (row (rs ! i)) = map k [0..<n]" using assms(1,2) [OF i] by (simp add: list_eq_iff_nth_eq)
    moreover have "distinct (map k [0..<n])" using assms(3) by (auto simp: distinct_map inj_on_def)
    ultimately have d: "distinct (map f (row (rs ! i)))" by (simp only:)
    have j: "j < length (row (rs ! i))" using assms(1) [OF i] assms(4) by (simp only:)
    show ?thesis using filter_one [OF d j] unfolding assms(2) [OF i assms(4)] .
  qed
  have "map (\<lambda>r. filter (\<lambda>x. f x = k j) (row r)) rs = map (\<lambda>i. filter (\<lambda>x. f x = k j) (row (rs ! i))) [0..<length rs]"
    by (rule nth_equalityI) simp_all
  then have "filter (\<lambda>x. f x = k j) (concat (map row rs)) = concat (map (\<lambda>i. filter (\<lambda>x. f x = k j) (row (rs ! i))) [0..<length rs])"
    unfolding filter_concat map_map comp_def by (rule arg_cong)
  also have "\<dots> = concat (map (\<lambda>i. [row (rs ! i) ! j]) [0..<length rs])" using one by (intro arg_cong [where f = concat]) simp
  finally show ?thesis by (simp add: concat_map_singleton)
qed

text \<open>The open windows merge to one for every query, which holds the inputs of all lanes.\<close>

lemma merged_current:
  assumes inv: "dr_inv est plans h w0 lanes accss" and ok: "\<forall>p \<in> set plans. plan_ok p" and rep: "all_reported est finish True lanes reports"
  shows "\<exists>m B. pfold (merge_output est) (concat (map rp_current reports)) [] = Some (Inr m)
     \<and> (\<forall>rp \<in> set reports. \<forall>w \<in> set (rp_current rp). B (qws_name w) = bounds (qws_state w))
     \<and> distinct (map (\<lambda>((n, _), _). n) m) \<and> (\<forall>((n, t), st) \<in> set m. \<exists>p \<in> set plans. n = lq_name (plan_query p))
     \<and> (\<forall>j < length plans. \<exists>st n. ((lq_name (plan_query (plans ! j)), bounds st), st) \<in> set m
          \<and> ws_end st = ws_start st + of_nat n * slide_nanos (lq_window (plan_query (plans ! j)))
          \<and> qs_holds est (pp_sketch (plan_physical (plans ! j))) h (ws_state st)
              (concat (map (\<lambda>accs. in_window (accs ! j) (slide_nanos (lq_window (plan_query (plans ! j)))) (ws_start st) n) accss)))"
proof -
  let ?nm = "\<lambda>p. lq_name (plan_query p)" and ?ws = "concat (map rp_current reports)"
  let ?sk = "\<lambda>n. the (map_of (map (\<lambda>p. (?nm p, pp_sketch (plan_physical p))) plans) n)"
  have d: "distinct (map ?nm plans)" and ne: "lanes \<noteq> []" and la: "length accss = length lanes" using inv by (auto simp: dr_inv_def dest: list_all2_lengthD)
  have look: "map_of (map (\<lambda>p. (?nm p, pp_sketch (plan_physical p))) plans) (?nm (plans ! j)) = Some (pp_sketch (plan_physical (plans ! j)))" if "j < length plans" for j
    by (rule map_of_is_SomeI) (use d that in \<open>auto simp: comp_def\<close>)
  obtain t n where r: "length reports = length lanes"
    "\<And>j. j < length plans \<Longrightarrow> snd (t j) = fst (t j) + of_nat (n j) * slide_nanos (lq_window (plan_query (plans ! j)))"
    "\<And>i. i < length lanes \<Longrightarrow> length (rp_current (reports ! i)) = length plans"
    "\<And>i j. i < length lanes \<Longrightarrow> j < length plans \<Longrightarrow> output_key (rp_current (reports ! i) ! j) = (?nm (plans ! j), t j)
       \<and> qs_holds est (pp_sketch (plan_physical (plans ! j))) h (ws_state (qws_state (rp_current (reports ! i) ! j)))
           (in_window (accss ! i ! j) (slide_nanos (lq_window (plan_query (plans ! j)))) (fst (t j)) (n j))"
    using reported_current [OF assms] by metis
  have key: "\<exists>i j. i < length lanes \<and> j < length plans \<and> w = rp_current (reports ! i) ! j" if "w \<in> set ?ws" for w
    using that r(1,3) unfolding set_concat set_map UN_iff by (metis imageE in_set_conv_nth)
  obtain B where B: "\<And>j. j < length plans \<Longrightarrow> B (?nm (plans ! j)) = t j"
  proof (rule that [of "\<lambda>n. t (the (map_of (zip (map ?nm plans) [0..<length plans]) n))"])
    fix j assume j: "j < length plans"
    have "map_of (zip (map ?nm plans) [0..<length plans]) (?nm (plans ! j)) = Some j"
      by (rule map_of_is_SomeI) (use d j in \<open>auto simp: set_zip intro!: exI [of _ j]\<close>)
    then show "t (the (map_of (zip (map ?nm plans) [0..<length plans]) (?nm (plans ! j)))) = t j" by simp
  qed
  have Bw: "B (qws_name w) = bounds (qws_state w)" if "w \<in> set ?ws" for w
    using key [OF that] r(4) B by (auto simp: output_key_def bounds_def)
  have "\<exists>xs. qs_holds est (?sk (qws_name w)) h (ws_state (qws_state w)) xs" if w: "w \<in> set ?ws" for w
  proof -
    obtain i j where ij: "i < length lanes" "j < length plans" "w = rp_current (reports ! i) ! j" using key [OF w] by blast
    then have "?sk (qws_name w) = pp_sketch (plan_physical (plans ! j))" using r(4) [OF ij(1,2)] look [OF ij(2)] by (simp add: output_key_def)
    then show ?thesis using r(4) [OF ij(1,2)] ij(3) by auto
  qed
  from merge_outputs [of ?ws est ?sk h] this obtain m where m: "pfold (merge_output est) ?ws [] = Some (Inr m)" "bt_ok m"
    "\<And>k. case map_of m k of
            None \<Rightarrow> filter (\<lambda>out. output_key out = k) ?ws = []
          | Some st \<Rightarrow> merge_of est (map qws_state (filter (\<lambda>out. output_key out = k) ?ws)) st \<and> bounds st = snd k
              \<and> (\<exists>xs. qs_holds est (?sk (fst k)) h (ws_state st) xs)" by blast
  have keys: "\<exists>j < length plans. k = (?nm (plans ! j), t j)" if "(k, st) \<in> set m" for k st
  proof -
    have "map_of m k = Some st" using bt_mem_get [OF m(2)] that by simp
    then have "filter (\<lambda>out. output_key out = k) ?ws \<noteq> []" using m(3) [of k] merge_of_bounds by fastforce
    then obtain w where "w \<in> set ?ws" "output_key w = k" by (auto simp: filter_empty_conv)
    then show ?thesis using key r(4) by blast
  qed
  have "inj_on fst (set (map fst m))"
  proof (rule inj_onI)
    fix k k' assume k: "k \<in> set (map fst m)" "k' \<in> set (map fst m)" "fst k = fst k'"
    have of_B: "k = (fst k, B (fst k))" if "k \<in> set (map fst m)" for k
    proof -
      obtain st where "(k, st) \<in> set m" using \<open>k \<in> set (map fst m)\<close> by auto
      from keys [OF this] show ?thesis using B by auto
    qed
    show "k = k'" using of_B [OF k(1)] of_B [OF k(2)] k(3) by simp
  qed
  then have dn: "distinct (map fst (map fst m))" using bt_ok_distinct [OF m(2)] unfolding distinct_map [of fst "map fst m"] by blast
  have one: "\<exists>st. ((?nm (plans ! j), bounds st), st) \<in> set m \<and> bounds st = t j
       \<and> qs_holds est (pp_sketch (plan_physical (plans ! j))) h (ws_state st)
          (concat (map (\<lambda>accs. in_window (accs ! j) (slide_nanos (lq_window (plan_query (plans ! j)))) (fst (t j)) (n j)) accss))" if j: "j < length plans" for j
  proof -
    let ?k = "(?nm (plans ! j), t j)" and ?in = "\<lambda>accs. in_window (accs ! j) (slide_nanos (lq_window (plan_query (plans ! j)))) (fst (t j)) (n j)"
    have apart: "i = j" if "i < length plans" "j < length plans" "(?nm (plans ! i), t i) = (?nm (plans ! j), t j)" for i j
      using nth_eq_iff_index_eq [OF d, of i j] that by simp
    have row: "length (rp_current (reports ! i)) = length plans" "j' < length plans \<Longrightarrow> output_key (rp_current (reports ! i) ! j') = (?nm (plans ! j'), t j')"
      if "i < length reports" for i j' using r(3,4) [of i] that unfolding r(1) by blast+
    have "filter (\<lambda>out. output_key out = ?k) ?ws = map (\<lambda>i. rp_current (reports ! i) ! j) [0..<length reports]"
      using filter_column [of reports rp_current "length plans" output_key "\<lambda>j. (?nm (plans ! j), t j)" j, OF row apart j] .
    then have "filter (\<lambda>out. output_key out = ?k) ?ws = map (\<lambda>i. rp_current (reports ! i) ! j) [0..<length lanes]" unfolding r(1) .
    then obtain st where st: "map_of m ?k = Some st" "merge_of est (map (\<lambda>i. qws_state (rp_current (reports ! i) ! j)) [0..<length lanes]) st" "bounds st = t j"
      using m(3) [of ?k] ne by (auto simp: comp_def split: option.splits)
    have "list_all2 (\<lambda>v xs. qs_holds est (pp_sketch (plan_physical (plans ! j))) h (ws_state v) xs) (map (\<lambda>i. qws_state (rp_current (reports ! i) ! j)) [0..<length lanes]) (map ?in accss)"
      using r(4) [OF _ j] la by (simp add: list_all2_conv_all_nth)
    from merge_of_holds [OF st(2) this] show ?thesis using map_of_SomeD [OF st(1)] st(3) by (intro exI [of _ st]) simp
  qed
  have "\<exists>st n. ((?nm (plans ! j), bounds st), st) \<in> set m \<and> ws_end st = ws_start st + of_nat n * slide_nanos (lq_window (plan_query (plans ! j)))
      \<and> qs_holds est (pp_sketch (plan_physical (plans ! j))) h (ws_state st)
          (concat (map (\<lambda>accs. in_window (accs ! j) (slide_nanos (lq_window (plan_query (plans ! j)))) (ws_start st) n) accss))" if j: "j < length plans" for j
  proof -
    obtain st where st: "((?nm (plans ! j), bounds st), st) \<in> set m" "bounds st = t j" "qs_holds est (pp_sketch (plan_physical (plans ! j))) h (ws_state st)
          (concat (map (\<lambda>accs. in_window (accs ! j) (slide_nanos (lq_window (plan_query (plans ! j)))) (fst (t j)) (n j)) accss))" using one [OF j] by blast
    have "fst (t j) = ws_start st" "snd (t j) = ws_end st" unfolding st(2) [symmetric] bounds_def by simp_all
    then show ?thesis using st r(2) [OF j] by (intro exI [of _ st] exI [of _ "n j"]) simp
  qed
  moreover have "\<forall>((n, t), st) \<in> set m. \<exists>p \<in> set plans. n = ?nm p" using keys by fastforce
  moreover have "distinct (map (\<lambda>((n, _), _). n) m)" using dn by (simp add: comp_def case_prod_beta')
  ultimately show ?thesis using m(1) Bw by (intro exI [of _ m] exI [of _ B]) auto
qed

text \<open>A published checkpoint, from the merged windows and the merged open windows.\<close>

lemma publish_merged:
  assumes "pfold (merge_output est) (concat (map rp_completed reports)) [] = Some (Inr m)" "rfold (with_plan plans) m [] = Inr outs"
    and "include_current \<Longrightarrow> pfold (merge_output est) (concat (map rp_current reports)) [] = Some (Inr d)"
    and "include_current \<Longrightarrow> \<forall>rp \<in> set reports. \<forall>w \<in> set (rp_current rp). B (qws_name w) = bounds (qws_state w)"
  shows "publish_reports est plans include_current reports = Some (Inr (outs, fold (\<lambda>rp late. saturating_add late (rp_late_events rp)) reports 0,
    if include_current then Some (concat (map (\<lambda>((n, _), st). snapshot_exports st n) d)) else None))"
proof -
  have "\<exists>m'. pfold (add_report est include_current) reports ([], [], [], 0)
     = Some (Inr (m, if include_current then d else [], m', fold (\<lambda>rp late. saturating_add late (rp_late_events rp)) reports 0))"
    by (rule add_reports [where B = B]) (use assms in auto)
  then obtain m' where "pfold (add_report est include_current) reports ([], [], [], 0)
     = Some (Inr (m, if include_current then d else [], m', fold (\<lambda>rp late. saturating_add late (rp_late_events rp)) reports 0))" by blast
  then show ?thesis using assms(2) by (simp add: publish_reports_def case_prod_beta')
qed



text \<open>Two lanes for the sample plan, just started.\<close>

lemma sample_lanes:
  "\<exists>lanes capacities reports. new_with_options est (\<lambda>_. None) [sample_plan] (HashSpec_new 0) 2 1 None 2 0 = Some (Inr (lanes, capacities))
     \<and> dr_reach est [sample_plan] (HashSpec_new 0) 0 lanes [[[]], [[]]] \<and> all_reported est False True lanes reports"
proof -
  obtain eng where eng: "qe_new [sample_plan] (HashSpec_new 0) = Inr eng" using sample_engine by blast
  obtain eng' where eng': "qe_advance_to est eng 0 = Some (eng', Inr ())"
    using eng by (auto simp: qe_new_def qe_add_plan_def rq_new_def sample_plan_def qs_build_def ss_new_def qe_advance_to_def preflighted_def rq_check_advance_def
        bucket_start_for_def ensure_can_advance_def windows_closed_by_advance_def ensure_emit_capacity_def rq_advance_def advance_to_bucket_def push_bucket_def new_bucket_def)
  let ?w = "\<lparr>lw_engine = eng', lw_max_timestamp = None, lw_data_open = True\<rparr>"
  have no_error: "List.map_filter (\<lambda>_. None) xs = []" for xs by (induction xs) (simp_all add: List.map_filter_simps)
  have start: "new_with_options est (\<lambda>_. None) [sample_plan] (HashSpec_new 0) 2 1 None 2 0 = Some (Inr ([?w, ?w], lane_capacities 2 2))"
    using eng eng' by (simp add: new_with_options_def no_error numeral_2_eq_2)
  have reach: "dr_reach est [sample_plan] (HashSpec_new 0) 0 [?w, ?w] [[[]], [[]]]" using dr_reach.start [OF start] by (simp add: numeral_2_eq_2)
  have tr: "qe_trace est [sample_plan] (HashSpec_new 0) eng' [[]]" and at: "engine_at 0 (mark 0 [?w, ?w]) eng'"
    using dr_reach_inv [OF reach sample_plan_ok] by (simp_all add: dr_inv_def)
  let ?d = "fst (take_window_states eng')"
  have "qe_trace est [sample_plan] (HashSpec_new 0) ?d [[]]" using qe_trace.call [OF tr, of Drain] by (simp add: qe_exec_def)
  from qe_trace_inv [OF this sample_plan_ok] have "list_all2 (rq_inv est) (qe_queries ?d) [[]]" by (simp add: qe_inv_def)
  moreover have "\<forall>q \<in> set (qe_queries ?d). rq_buckets q \<noteq> []" using at by (auto simp: engine_at_def ring_at_def take_window_states_def)
  ultimately obtain ws where ws: "current_window_states est ?d = Some (Inr ws)"
    using current_windows_open [of est "qe_queries ?d" "[[]]" "[]"] by (auto simp: current_window_states_def)
  have "lane_watermark [?w, ?w] = None" by (simp add: lane_watermark_def List.map_filter_simps)
  then have "all_reported est False True [?w, ?w] (replicate 2 \<lparr>rp_completed = snd (take_window_states eng'), rp_current = ws, rp_late_events = qe_late_events ?d\<rparr>)"
    using ws by (simp add: all_reported_def handle_control_def build_report_def advance_opt_def numeral_2_eq_2 case_prod_beta Let_def)
  then show ?thesis using start reach by blast
qed



end
