(* ===== verification/Spec2Isabelle.thy ===== *)
theory Spec2Isabelle
  imports MisraGries CountSketch Exact Runtime GatewayRuns Pcap Sharded DirectRuntime
begin

text \<open>
  Verification of flowsketch, a sketch-based flow telemetry engine.

  \<^bold>\<open>The program.\<close>  Agents turn packets into flow events and feed them to a query engine.  A query
  (\<^verbatim>\<open>flowsketch-ir\<close>) groups events by fields and measures counts, heavy hitters, distinct values,
  entropy or quantiles over tumbling or sliding windows.  The planner (\<^verbatim>\<open>flowsketch-planner\<close>) picks
  a sketch and its size within a memory budget.  The engine (\<^verbatim>\<open>flowsketch-runtime\<close>) keeps one ring
  of buckets per query, each with the sketches of one slide; when time passes a slide it merges the
  ring into a completed window.  Completed windows are drained, encoded as \<open>FSK1\<close> snapshots
  (\<^verbatim>\<open>flowsketch-core\<close>) and pushed in \<open>FSKB\<close> batches to a gateway (\<^verbatim>\<open>flowsketch-gateway\<close>), which
  validates them against its own plans and merges the nodes of a cluster.  The sketches themselves
  are in \<^verbatim>\<open>flowsketch-algos\<close>.

  \<^bold>\<open>The theories\<close>, in the order of the program's layers.

    \<^item> \<open>Prelude\<close> (machine words, results, loops that stop at an error), \<open>HashMaps\<close>, \<open>BTreeMap\<close> and
      \<open>BinaryHeap\<close> (the standard collections), \<open>Float64\<close> (the order of \<^verbatim>\<open>f64\<close> values).
    \<^item> \<open>Hash\<close>: \<^verbatim>\<open>core/src/hash.rs\<close>.  \<open>SnapshotFormat\<close>: \<^verbatim>\<open>core/src/snapshot.rs\<close>, with the reader and
      writer every codec uses; one changed byte is always noticed.
    \<^item> \<open>SketchTrait\<close>: the trait of \<^verbatim>\<open>core/src/sketch.rs\<close> as the locales \<open>sketch\<close>,
      \<open>configured_sketch\<close> and their extensions; the laws of merging are their assumptions and the
      facts on feeding a stream and merging shards are proved in them once.
    \<^item> \<open>CountMin\<close>, \<open>MisraGries\<close>, \<open>SpaceSaving\<close>, \<open>Hll\<close>, \<open>Kll\<close>, \<open>CountSketch\<close>, \<open>Exact\<close>, \<open>HllMap\<close>: one
      per file of \<^verbatim>\<open>algos/src\<close>, with every operation, the structural invariant, the error guarantee of
      the sketch over any sharding of a stream, and the snapshot codec; each interprets the locales.
    \<^item> \<open>Field\<close>: \<^verbatim>\<open>core/src/event.rs\<close> and \<^verbatim>\<open>field.rs\<close>; group keys are injective and split back.
    \<^item> \<open>Packet\<close>: \<^verbatim>\<open>pcap/src/parse.rs\<close>, with the bounds check of every access.  \<open>Pcap\<close>: \<^verbatim>\<open>pcap/src/lib.rs\<close>
      and \<^verbatim>\<open>writer.rs\<close>; reading ends on every input and inverts writing.
    \<^item> \<open>QueryIr\<close>: \<^verbatim>\<open>ir/src\<close> (query types, validation of a deserialised query, durations and sizes).
      \<open>Planner\<close>: \<^verbatim>\<open>planner/src/lib.rs\<close>.
    \<^item> \<open>QueryState\<close>: the sketches of a bucket and the window states of \<^verbatim>\<open>runtime/src/lib.rs\<close>; the
      locale \<open>mergeable_state\<close> is the contract the engine relies on, interpreted on the states of
      every executable plan (\<open>qs_holds\<close>: what a state knows after a list of inputs).
      \<open>Runtime\<close>: the running query and the engine, with \<open>qe_trace\<close>, the engines reachable by any
      sequence of events, advances, flushes and drains.
      \<open>Sharded\<close>: the sharded engine; a parallel loop is a relation over its possible outcomes
      (\<open>par_try\<close>), \<open>sh_trace\<close> the sharded engines reachable by any calls, and taking their windows
      merges all shards.
    \<^item> \<open>Exchange\<close>: windows received from another process (\<^verbatim>\<open>WindowState::from_components\<close>).
      \<open>PushBatch\<close>: \<^verbatim>\<open>gateway/src/batch.rs\<close>.
    \<^item> \<open>Gateway\<close>: \<^verbatim>\<open>gateway/src/state.rs\<close> (node windows, admission, eviction, window selection and
      the sharded merge cache).  \<open>GatewayMerge\<close>: merge trees, and that rebuilding the marked shards
      keeps the cache coherent.  \<open>GatewayRuns\<close>: whole calls, the gateways reachable by pushes and
      reads (\<open>gw_reach\<close>) and their invariant.

    \<^item> \<open>Configs\<close>: \<^verbatim>\<open>agent/src/config.rs\<close> and \<^verbatim>\<open>gateway/src/config.rs\<close>, validation and planning of
      a deserialised configuration; an accepted one starts an engine, its pushes decode, and a
      gateway.
    \<^item> \<open>Capture\<close>: the receive ring of \<^verbatim>\<open>agent/src/source/af_packet.rs\<close>, read without an access out
      of bounds, and the loop of \<^verbatim>\<open>source.rs\<close> over it; every packet is accounted for.
      \<open>Ebpf\<close>: \<^verbatim>\<open>ebpf/src/lib.rs\<close>, the records of the kernel program and its clock.  \<open>Collector\<close>:
      \<^verbatim>\<open>ebpf/src/tc.rs\<close>, the loop over its ring buffer and the replay of capture files.
    \<^item> \<open>DirectRuntime\<close>: \<^verbatim>\<open>agent/src/direct_runtime.rs\<close>, one engine per capture lane; \<open>dr_reach\<close> are the
      lanes reached by any turns of the workers and checkpoints.  The lanes open and advance their
      rings together, so a checkpoint always merges, and it covers all lanes.

  \<^bold>\<open>Conventions.\<close>  \<^verbatim>\<open>u64\<close> and narrower integers are words and wrap, as in the release profile;
  \<^verbatim>\<open>usize\<close> lengths are natural numbers; a \<^verbatim>\<open>Result\<close> is a sum with the error on the left; a panic
  (an index out of range, an \<^verbatim>\<open>unwrap\<close> of \<^verbatim>\<open>None\<close>, a division by zero) is \<open>None\<close>, so that a theorem
  that a call returns \<open>Some\<close> is a theorem that it does not panic.  Texts of error messages are
  abbreviated.  Strings are lists of bytes.

  \<^bold>\<open>Loops.\<close>  Structural recursion where the code iterates over a list.  Fuel where it loops on a
  condition, with a theorem that the fuel never runs out: eviction from \<open>HllMap\<close> (the candidates
  plus one), the advance loop (the buckets of a ring plus one), the ring built after a gap (its
  steps plus one), eviction down to the capacity (the keys of the map).  The event loop of the
  capture reader is a function on the unread input.

  \<^bold>\<open>Parameters.\<close>  Arithmetic on \<^verbatim>\<open>f64\<close> is not modelled: the estimator of dense HyperLogLog
  registers is the argument \<open>est\<close>, the formulas of the planner are the record \<open>float_ops\<close>; clocks are
  arguments of the gateway's calls.  No
  property assumes anything of them.

  \<^bold>\<open>Not modelled.\<close>  Input and output: opening sockets and starting threads in the agent (what the
  kernel, the clocks and the channels answer is input of the modelled turns),
  HTTP servers and clients, the Prometheus and OpenTelemetry exporters, the command line and its
  benchmarks; they move bytes and text around the modelled core.  Parsing of YAML text (a
  third-party parser; its result is the argument of the validation).  The conversion of sketches to
  floating-point estimates.  The thread pool of the sharded engine and pinning its workers (its
  outcome is a parameter).  Memory accounting by allocator capacity (the bytes of a window state
  are a parameter of the gateway).
\<close>

section \<open>Heavy hitters, from events to windows\<close>

text \<open>
  C2: Heavy hitters end to end.  Take any engine reached from planned queries by any sequence of
  events, advances, flushes and drains, one of its queries that was planned as a SpaceSaving of
  capacity \<open>cap\<close>, and a window that its next call completes.  If the weight accepted for the window
  is below \<open>2^64\<close>, the window's sketch brackets the true weight of every group it tracks, with an
  error of at most the \<open>cap\<close>-th part of the window's weight, and every group heavier than that is
  tracked.
\<close>

theorem heavy_hitters_of_a_window:
  assumes "qe_trace est plans h eng accs" "\<forall>p \<in> set plans. plan_ok p"
    and "qe_exec est op eng = Some (eng', Inr ())" "i < length (qe_queries eng)"
  defines "q \<equiv> qe_queries eng ! i"
  assumes "rq_sketch q = PSpaceSaving cap" "w \<in> set (drop (length (rq_emitted q)) (rq_emitted (qe_queries eng' ! i)))"
  shows "\<exists>n ss. ws_state w = QHeavyHitters ss \<and> ws_end w = ws_start w + of_nat n * rq_slide q
     \<and> (let xs = weighted (in_window (accs ! i) (rq_slide q) (ws_start w) n)
        in weight xs < 2 ^ 64 \<longrightarrow> (\<forall>k. case ss_get ss k of
             Some e \<Rightarrow> truth xs k \<le> unat (e_count e) \<and> unat (ss_guaranteed e) \<le> truth xs k \<and> cap * unat (e_error e) \<le> weight xs
           | None \<Rightarrow> cap * truth xs k \<le> weight xs))"
proof -
  have "op \<noteq> Drain" using assms(3,4,7) by (auto simp: qe_exec_def take_window_states_def)
  from qe_trace_closes [OF assms(1-3) this assms(4)] assms(7) have "holds_window est q (accs ! i) w"
    by (auto simp: rq_closes_def q_def)
  then obtain n where w: "ws_end w = ws_start w + of_nat n * rq_slide q"
      "qs_holds est (PSpaceSaving cap) (rq_hash q) (ws_state w) (in_window (accs ! i) (rq_slide q) (ws_start w) n)"
    unfolding holds_window_def assms(6) by blast
  let ?xs = "weighted (in_window (accs ! i) (rq_slide q) (ws_start w) n)"
  obtain ss where ss: "ws_state w = QHeavyHitters ss" "ss_has cap (rq_hash q) ss ?xs"
    using w(2) by (cases "ws_state w") auto
  have cap: "ss_capacity ss = cap" using ss(2) by (simp add: ss_has_def ss_config_def)
  have "case ss_get ss k of
      Some e \<Rightarrow> truth ?xs k \<le> unat (e_count e) \<and> unat (ss_guaranteed e) \<le> truth ?xs k \<and> cap * unat (e_error e) \<le> weight ?xs
    | None \<Rightarrow> cap * truth ?xs k \<le> weight ?xs" if "weight ?xs < 2 ^ 64" for k
  proof -
    have "ss_summ ss (truth ?xs) (weight ?xs)" using ss(2) that by (simp add: ss_has_def)
    from ss_summ_reports [OF this, of k] show ?thesis unfolding cap .
  qed
  then show ?thesis using w(1) ss(1) unfolding Let_def by blast
qed

theorem heavy_hitters_of_a_window_witness:
  "\<exists>eng eng' w ss. qe_trace (\<lambda>_ _. Fin 0) [sample_plan] (HashSpec_new 0) eng [[(0, ([48], 7, []))]]
     \<and> qe_exec (\<lambda>_ _. Fin 0) Finish eng = Some (eng', Inr ()) \<and> w \<in> set (rq_emitted (qe_queries eng' ! 0)) \<and> ws_state w = QHeavyHitters ss"
proof -
  obtain eng eng' w where t: "qe_trace (\<lambda>_ _. Fin 0) [sample_plan] (HashSpec_new 0) eng [[(0, ([48], 7, []))]]" "length (qe_queries eng) = 1"
    "rq_plan (qe_queries eng ! 0) = sample_plan" "qe_exec (\<lambda>_ _. Fin 0) Finish eng = Some (eng', Inr ())"
    "rq_emitted (qe_queries eng ! 0) = []" "rq_emitted (qe_queries eng' ! 0) = [w]" using sample_run by blast
  have "rq_sketch (qe_queries eng ! 0) = PSpaceSaving 2" using t(3) by (simp add: sample_plan_def)
  from heavy_hitters_of_a_window [OF t(1) sample_plan_ok t(4) _ this, of w] t(2,5,6) show ?thesis using t(1,4,6) by auto
qed

section \<open>From an agent to the gateway\<close>



section \<open>Heavy hitters of a cluster\<close>

text \<open>The permutation of a list that a permutation of its image comes from.\<close>

lemma mset_map_lift: "mset ws = mset (map f qs) \<Longrightarrow> \<exists>ps. mset ps = mset qs \<and> map f ps = ws"
proof (induction ws arbitrary: qs)
  case (Cons w ws)
  then have "w \<in> set (map f qs)" by (metis list.set_intros(1) mset_eq_setD)
  then obtain q where q: "q \<in> set qs" "f q = w" by auto
  then have eq: "mset qs = add_mset q (mset (remove1 q qs))" by simp
  then have "image_mset f (mset qs) = image_mset f (add_mset q (mset (remove1 q qs)))" by (rule arg_cong)
  then have "mset (map f qs) = add_mset w (mset (map f (remove1 q qs)))" by (simp only: mset_map image_mset_add_mset q(2))
  then have "mset ws = mset (map f (remove1 q qs))" using Cons.prems by simp
  then obtain ps where "mset ps = mset (remove1 q qs)" "map f ps = ws" using Cons.IH by blast
  moreover from this(1) have "mset (q # ps) = mset qs" unfolding eq by (simp only: mset.simps)
  ultimately show ?case using q(2) by (intro exI [of _ "q # ps"]) simp
qed simp

lemma mset_concat_mset: "mset (concat xss) = (\<Sum>xs \<in># mset xss. mset xs)"
  by (induction xss) simp_all

lemma truth_mset: "truth xs k = (\<Sum>(k', v) \<in># mset xs. if k' = k then unat v else 0)" and weight_mset: "weight xs = (\<Sum>(k, v) \<in># mset xs. unat v)"
  by (induction xs) (auto simp: truth_def weight_def)

text \<open>
  C1: Heavy hitters of a cluster.  Let a reachable gateway report a cluster window for a query,
  and let the window of each of its live nodes hold the inputs \<open>inp node\<close> of a SpaceSaving of
  capacity \<open>cap\<close>.  If the weight of all inputs of all nodes is below \<open>2^64\<close>, the reported sketch
  brackets the true weight of every group over the whole cluster, with an error of at most the
  \<open>cap\<close>-th part of the weight, and tracks every group heavier than that.
\<close>

theorem heavy_hitters_of_a_cluster:
  assumes "gw_reach env gs" "merged env clock gs = Some (gs', out)" "mq \<in> set out" "mq_state mq = Some f"
  defines "pn \<equiv> windows_at gs' (mq_query_name mq)"
  assumes "\<forall>(n, w) \<in> set pn. qs_holds (ge_est env) (PSpaceSaving cap) h (ws_state (nw_state w)) (inp n)"
  shows "\<exists>ss. ws_state f = QHeavyHitters ss
     \<and> (let xs = weighted (concat (map (\<lambda>(n, w). inp n) pn))
        in weight xs < 2 ^ 64 \<longrightarrow> (\<forall>k. case ss_get ss k of
             Some e \<Rightarrow> truth xs k \<le> unat (e_count e) \<and> unat (ss_guaranteed e) \<le> truth xs k \<and> cap * unat (e_error e) \<le> weight xs
           | None \<Rightarrow> cap * truth xs k \<le> weight xs))"
proof -
  have "exports env pn mq" using merged_ok [OF gw_reach_inv [OF assms(1)], of clock] assms(2,3) by (auto simp: pn_def)
  then obtain ws where ws: "mset ws = mset (map snd (view pn))" "merge_of (ge_est env) ws f" using assms(4) unfolding exports_def by blast
  let ?qs = "map (\<lambda>(n, w). (nw_state w, inp n)) pn"
  have "mset ws = mset (map fst ?qs)" using ws(1) by (simp add: view_def comp_def case_prod_beta')
  then obtain ps where ps: "mset ps = mset ?qs" "map fst ps = ws" using mset_map_lift by blast
  have "\<forall>p \<in> set ps. qs_holds (ge_est env) (PSpaceSaving cap) h (ws_state (fst p)) (snd p)"
    using mset_eq_setD [OF ps(1)] assms(6) by auto
  then have "list_all2 (\<lambda>v xs. qs_holds (ge_est env) (PSpaceSaving cap) h (ws_state v) xs) ws (map snd ps)"
    unfolding ps(2) [symmetric] by (simp add: list_all2_map1 list_all2_map2 list_all2_same)
  from merge_of_holds [OF ws(2) this] have holds: "qs_holds (ge_est env) (PSpaceSaving cap) h (ws_state f) (concat (map snd ps))" .
  then obtain ss where ss: "ws_state f = QHeavyHitters ss" "ss_has cap h ss (weighted (concat (map snd ps)))"
    by (cases "ws_state f") auto
  have "mset (concat (map snd ps)) = mset (concat (map (\<lambda>(n, w). inp n) pn))"
  proof -
    have "mset (map snd ps) = mset (map snd ?qs)" by (simp only: mset_map [of snd] ps(1))
    then have "mset (concat (map snd ps)) = mset (concat (map snd ?qs))" unfolding mset_concat_mset by (simp only:)
    then show ?thesis by (simp add: comp_def case_prod_beta')
  qed
  then have m: "mset (weighted (concat (map snd ps))) = mset (weighted (concat (map (\<lambda>(n, w). inp n) pn)))" by (simp add: weighted_def)
  let ?xs = "weighted (concat (map (\<lambda>(n, w). inp n) pn))"
  have t: "truth (weighted (concat (map snd ps))) = truth ?xs" "weight (weighted (concat (map snd ps))) = weight ?xs"
    unfolding fun_eq_iff truth_mset weight_mset m by simp_all
  have cap: "ss_capacity ss = cap" using ss(2) by (simp add: ss_has_def ss_config_def)
  have "case ss_get ss k of
      Some e \<Rightarrow> truth ?xs k \<le> unat (e_count e) \<and> unat (ss_guaranteed e) \<le> truth ?xs k \<and> cap * unat (e_error e) \<le> weight ?xs
    | None \<Rightarrow> cap * truth ?xs k \<le> weight ?xs" if "weight ?xs < 2 ^ 64" for k
  proof -
    have "ss_summ ss (truth ?xs) (weight ?xs)" using ss(2) that t by (simp add: ss_has_def)
    from ss_summ_reports [OF this, of k] show ?thesis unfolding cap .
  qed
  then show ?thesis using ss(1) unfolding Let_def by blast
qed

theorem heavy_hitters_of_a_cluster_witness:
  "\<exists>gs gs' mq f ss. gw_reach gw_env gs \<and> merged gw_env (\<lambda>_ _. 7) gs = Some (gs', [mq]) \<and> mq_state mq = Some f \<and> ws_state f = QHeavyHitters ss
     \<and> (case ss_get ss [1] of Some e \<Rightarrow> 5 \<le> unat (e_count e) \<and> unat (ss_guaranteed e) \<le> 5 | None \<Rightarrow> False)"
proof -
  obtain gs st where gs: "gw_reach gw_env gs" "gs_plans gs = [gw_plan]" "gs_stale_after gs = 10"
    "windows_at gs ''q'' = [(''n'', \<lparr>nw_received = 5, nw_state = st\<rparr>)]"
    "bounds st = (0, 60)" "qs_holds (ge_est gw_env) (PSpaceSaving 2) (HashSpec_new 7) (ws_state st) [([1], 5, [])]" using gw_sample by blast
  obtain gs' mq f where out: "merged gw_env (\<lambda>_ _. 7) gs = Some (gs', [mq])" "mq_query_name mq = ''q''" "mq_state mq = Some f"
     "windows_at gs' ''q'' = [(''n'', \<lparr>nw_received = 5, nw_state = st\<rparr>)]" using gw_reported [OF gs] by blast
  have "\<forall>(n, w) \<in> set (windows_at gs' (mq_query_name mq)). qs_holds (ge_est gw_env) (PSpaceSaving 2) (HashSpec_new 7) (ws_state (nw_state w)) [([1], 5, [])]"
    using out(2,4) gs(6) by simp
  from heavy_hitters_of_a_cluster [OF gs(1) out(1) _ out(3) this] obtain ss where ss: "ws_state f = QHeavyHitters ss"
    "case ss_get ss [1] of Some e \<Rightarrow> 5 \<le> unat (e_count e) \<and> unat (ss_guaranteed e) \<le> 5 \<and> 2 * unat (e_error e) \<le> 5 | None \<Rightarrow> 2 * 5 \<le> (5::nat)"
    using out(2,4) by (auto simp: weighted_def Let_def dest!: spec [of _ "[1]"] split: option.splits)
  then have "case ss_get ss [1] of Some e \<Rightarrow> 5 \<le> unat (e_count e) \<and> unat (ss_guaranteed e) \<le> 5 | None \<Rightarrow> False"
    by (auto split: option.splits)
  then show ?thesis using gs(1) out(1,3) ss(1) by blast
qed

end
